(* ===== verification/Prelude.thy ===== *)
theory Prelude
  imports Main "HOL-Library.Word" "HOL-Library.Monad_Syntax"
begin

text \<open>
  Shared ground of the development: exit codes, pointers, the reading of undefined behaviour,
  checked array accesses and the generic lemmas the components use.

  Every C function is a HOL function into \<open>option\<close>: \<open>None\<close> is undefined behaviour
  of the C program (a null or dangling dereference, an access outside an array, a call through a
  null function pointer, a division by zero) or, for a \<open>while\<close> loop, a run that never
  ends; \<open>Some\<close> carries the C return value and the new state.  A failing allocation is not
  undefined behaviour: \<open>calloc\<close> returns NULL, and the outcomes of the coming allocations
  are part of the state.
\<close>

named_theorems exit_codes \<open>values of the exit codes\<close>
named_theorems c_ops \<open>unfoldings of the memory primitives\<close>

section \<open>Exit codes (Core/include/utilities.h)\<close>

definition E_SUCCESS :: int where [exit_codes]: "E_SUCCESS = 0"
definition E_FAILURE :: int where [exit_codes]: "E_FAILURE = - 1"
definition E_EOF :: int where [exit_codes]: "E_EOF = - 2"
definition E_NULL_POINTER :: int where [exit_codes]: "E_NULL_POINTER = - 3"
definition E_CONNECTION_CLOSED :: int where [exit_codes]: "E_CONNECTION_CLOSED = - 4"

lemma exit_code_neq [simp]:
  "E_FAILURE \<noteq> E_SUCCESS" "E_SUCCESS \<noteq> E_FAILURE"
  "E_NULL_POINTER \<noteq> E_SUCCESS" "E_SUCCESS \<noteq> E_NULL_POINTER"
  "E_NULL_POINTER \<noteq> E_FAILURE" "E_FAILURE \<noteq> E_NULL_POINTER"
  "E_CONNECTION_CLOSED \<noteq> E_SUCCESS" "E_SUCCESS \<noteq> E_CONNECTION_CLOSED"
  "E_EOF \<noteq> E_SUCCESS" "E_SUCCESS \<noteq> E_EOF"
  by (simp_all add: exit_codes)

section \<open>Pointers\<close>

text \<open>
  An address is a natural number and 0 is NULL.  A typed heap is a partial map from addresses to
  structs; reading or writing through an address that is not allocated is \<open>None\<close>.
\<close>

type_synonym ptr = nat

abbreviation (input) NULL :: ptr where "NULL \<equiv> 0"

definition deref :: "(ptr \<rightharpoonup> 'a) \<Rightarrow> ptr \<Rightarrow> 'a option" where
  "deref H p = (if p = NULL then None else H p)"

definition update_at :: "(ptr \<rightharpoonup> 'a) \<Rightarrow> ptr \<Rightarrow> ('a \<Rightarrow> 'a) \<Rightarrow> (ptr \<rightharpoonup> 'a) option" where
  "update_at H p f = do { x \<leftarrow> deref H p; Some (H(p \<mapsto> f x)) }"

definition free_at :: "(ptr \<rightharpoonup> 'a) \<Rightarrow> ptr \<Rightarrow> (ptr \<rightharpoonup> 'a) option" where
  "free_at H p = do { _ \<leftarrow> deref H p; Some (H(p := None)) }"

lemma deref_NULL [simp]: "deref H NULL = None"
  by (simp add: deref_def)

lemma deref_Some_iff: "deref H p = Some x \<longleftrightarrow> p \<noteq> NULL \<and> H p = Some x"
  by (auto simp: deref_def)

lemma deref_known [simp]: "H p = Some x \<Longrightarrow> p \<noteq> NULL \<Longrightarrow> deref H p = Some x"
  by (simp add: deref_def)

lemma update_at_known [simp]:
  "H p = Some x \<Longrightarrow> p \<noteq> NULL \<Longrightarrow> update_at H p f = Some (H(p \<mapsto> f x))"
  by (simp add: update_at_def)

lemma free_at_known [simp]:
  "H p = Some x \<Longrightarrow> p \<noteq> NULL \<Longrightarrow> free_at H p = Some (H(p := None))"
  by (simp add: free_at_def)

lemma update_at_NULL [simp]: "update_at H NULL f = None"
  by (simp add: update_at_def)

lemma free_at_NULL [simp]: "free_at H NULL = None"
  by (simp add: free_at_def)

section \<open>Arrays with checked bounds\<close>

text \<open>\<open>arr_get\<close> and \<open>arr_set\<close> are \<open>a[i]\<close> on an array object of
  \<open>length xs\<close> elements; an index outside it is undefined behaviour.\<close>

definition arr_get :: "'a list \<Rightarrow> int \<Rightarrow> 'a option" where
  "arr_get xs i = (if 0 \<le> i \<and> i < int (length xs) then Some (xs ! nat i) else None)"

definition arr_set :: "'a list \<Rightarrow> int \<Rightarrow> 'a \<Rightarrow> 'a list option" where
  "arr_set xs i v = (if 0 \<le> i \<and> i < int (length xs) then Some (xs[nat i := v]) else None)"

lemma arr_get_nat [simp]: "i < length xs \<Longrightarrow> arr_get xs (int i) = Some (xs ! i)"
  by (simp add: arr_get_def)

lemma arr_set_nat [simp]: "i < length xs \<Longrightarrow> arr_set xs (int i) v = Some (xs[i := v])"
  by (simp add: arr_set_def)

lemma arr_get_out: "i < 0 \<or> int (length xs) \<le> i \<Longrightarrow> arr_get xs i = None"
  by (auto simp: arr_get_def)

lemma arr_set_out: "i < 0 \<or> int (length xs) \<le> i \<Longrightarrow> arr_set xs i v = None"
  by (auto simp: arr_set_def)

lemma arr_set_length: "arr_set xs i v = Some ys \<Longrightarrow> length ys = length xs"
  by (auto simp: arr_set_def split: if_splits)

section \<open>Allocation\<close>

text \<open>
  The outcomes of the coming \<open>calloc\<close> calls are a list of booleans, \<open>True\<close> for a call
  that fails; when the list is used up, allocations succeed.
\<close>

type_synonym alloc_plan = "bool list"

fun alloc_fails :: "alloc_plan \<Rightarrow> bool" where
  "alloc_fails [] = False"
| "alloc_fails (b # bs) = b"

fun alloc_rest :: "alloc_plan \<Rightarrow> alloc_plan" where
  "alloc_rest [] = []"
| "alloc_rest (b # bs) = bs"

section \<open>Blocking calls\<close>

text \<open>A call either returns or waits for another thread, for ever if there is none.\<close>

datatype 'r outcome = Returned 'r | Blocked

section \<open>Signed 32-bit arithmetic\<close>

text \<open>An \<open>int\<close> result outside 32 bits is undefined behaviour.\<close>

definition INT32_MAX :: int where "INT32_MAX = 2 ^ 31 - 1"
definition INT32_MIN :: int where "INT32_MIN = - (2 ^ 31)"

definition c_int :: "int \<Rightarrow> int option" where
  "c_int x = (if INT32_MIN \<le> x \<and> x \<le> INT32_MAX then Some x else None)"

lemma c_int_fits [simp]: "INT32_MIN \<le> x \<Longrightarrow> x \<le> INT32_MAX \<Longrightarrow> c_int x = Some x"
  by (simp add: c_int_def)

lemma c_int_Some_iff: "c_int x = Some y \<longleftrightarrow> y = x \<and> INT32_MIN \<le> x \<and> x \<le> INT32_MAX"
  by (auto simp: c_int_def)

section \<open>Block moves\<close>

text \<open>\<open>memmove\<close> of \<open>n\<close> elements within one array object; a move that reads or writes
  outside the object is undefined, a move of no elements does nothing.\<close>

definition memmove :: "'a list \<Rightarrow> int \<Rightarrow> int \<Rightarrow> nat \<Rightarrow> 'a list option" where
  "memmove xs dst src n =
     (if n = 0 then Some xs
      else if 0 \<le> src \<and> src + int n \<le> int (length xs) \<and> 0 \<le> dst \<and> dst + int n \<le> int (length xs)
      then Some (take (nat dst) xs @ take n (drop (nat src) xs) @ drop (nat dst + n) xs)
      else None)"

lemma memmove_length: "memmove xs dst src n = Some ys \<Longrightarrow> length ys = length xs"
  by (auto simp: memmove_def split: if_splits)

lemma memmove_right:
  assumes "i + length ys = m" and "m < length xs" and "take m xs = zs @ ys" and "length zs = i"
  shows "memmove xs (int i + 1) (int i) (length ys) = Some (take (Suc i) xs @ ys @ drop (Suc m) xs)"
proof (cases "ys = []")
  case True
  then have "Suc i = Suc m" using assms by simp
  then show ?thesis using True by (simp add: memmove_def)
next
  case False
  have "take (length ys) (drop i xs) = ys"
    using assms(1,3,4) by (metis append_eq_conv_conj drop_take length_append add.commute diff_add_inverse)
  then show ?thesis using assms False by (simp add: memmove_def nat_add_distrib)
qed

section \<open>Options and words\<close>

lemma bind_Some_iff: "(m \<bind> f) = Some y \<longleftrightarrow> (\<exists>x. m = Some x \<and> f x = Some y)"
  by (cases m) auto

lemma of_nat_Suc_eq_word: "(of_nat n + 1 :: 32 word) = of_nat (Suc n)"
  by simp

lemma unat_of_nat32: "n < 2 ^ 32 \<Longrightarrow> unat (of_nat n :: 32 word) = n"
  by (simp add: unat_of_nat take_bit_nat_eq_self)

lemma of_nat32_eq_0: "n < 2 ^ 32 \<Longrightarrow> (of_nat n :: 32 word) = 0 \<longleftrightarrow> n = 0"
  using unat_of_nat32 [of n] by (auto simp flip: unat_eq_zero)

lemma of_nat32_minus_1: "(of_nat (Suc n) - 1 :: 32 word) = of_nat n"
  by simp

end
