(* ===== verification/C_Strings.thy ===== *)
theory C_Strings
  imports Prelude "HOL-Library.Sublist"
begin

text \<open>
  The string functions of the C library that the sources call.  A C string is the list of its
  characters without the terminating NUL, so that \<open>strlen\<close> is the length; comparison goes by
  unsigned character codes.  Only the sign of a comparison is specified by the C standard and only
  the sign is modelled.
\<close>

definition strnlen :: "string \<Rightarrow> nat \<Rightarrow> nat" where
  "strnlen s n = min (length s) n"

fun strncmp :: "string \<Rightarrow> string \<Rightarrow> nat \<Rightarrow> int" where
  "strncmp s t 0 = 0"
| "strncmp [] [] (Suc n) = 0"
| "strncmp [] (d # t) (Suc n) = - 1"
| "strncmp (c # s) [] (Suc n) = 1"
| "strncmp (c # s) (d # t) (Suc n) =
     (if c = d then strncmp s t n
      else if (of_char c :: nat) < of_char d then - 1 else 1)"

fun strcspn_newline :: "string \<Rightarrow> nat" where
  "strcspn_newline [] = 0"
| "strcspn_newline (c # s) = (if c = CHR 0x0A then 0 else Suc (strcspn_newline s))"

fun strstr :: "string \<Rightarrow> string \<Rightarrow> bool" where
  "strstr [] needle = (needle = [])"
| "strstr (c # s) needle = (prefix needle (c # s) \<or> strstr s needle)"

text \<open>\<open>strncpy\<close> into a zeroed buffer one byte longer, and \<open>strndup\<close>, both keep the
  first \<open>n\<close> characters.\<close>

definition strncpy_zeroed :: "string \<Rightarrow> nat \<Rightarrow> string" where
  "strncpy_zeroed s n = take n s"

definition strndup :: "string \<Rightarrow> nat \<Rightarrow> string" where
  "strndup s n = take n s"

text \<open>\<open>snprintf(buffer, size, "%s", s)\<close>: what it leaves in the buffer and what it returns.\<close>

definition snprintf_s :: "nat \<Rightarrow> string \<Rightarrow> string \<times> nat" where
  "snprintf_s bufsize s = (take (bufsize - 1) s, length s)"

section \<open>Laws\<close>

lemma strncmp_eq_0_iff: "strncmp s t n = 0 \<longleftrightarrow> take n s = take n t"
  by (induction s t n rule: strncmp.induct) auto

lemma strncmp_sign: "strncmp s t n \<in> {- 1, 0, 1}"
  by (induction s t n rule: strncmp.induct) auto

lemma strncmp_swap: "strncmp t s n = - strncmp s t n"
  by (induction s t n rule: strncmp.induct) auto

lemma strncmp_le_1: "strncmp s t n < 0 \<or> strncmp s t n = 0 \<or> 0 < strncmp s t n"
  by linarith

lemma strcspn_newline_le: "strcspn_newline s \<le> length s"
  by (induction s) auto

lemma strcspn_newline_take: "CHR 0x0A \<notin> set (take (strcspn_newline s) s)"
  by (induction s) auto

lemma strcspn_newline_full: "strcspn_newline s = length s \<longleftrightarrow> CHR 0x0A \<notin> set s"
  by (induction s) auto

lemma strcspn_newline_nth: "strcspn_newline s < length s \<Longrightarrow> s ! strcspn_newline s = CHR 0x0A"
  by (induction s) auto

lemma strstr_iff_sublist: "strstr s needle \<longleftrightarrow> sublist needle s"
  by (induction s) (auto simp: sublist_Cons_right)

end
