(* ===== verification/Comparisons.thy ===== *)
theory Comparisons
  imports C_Strings "HOL-Library.Product_Lexorder"
begin

text \<open>
  Core: the comparison functions of Core/src/comparisons.c, the callback types, the freeing
  callbacks, and the interface \<open>comparator\<close> that the sorting and searching code of the
  containers relies on.
\<close>

section \<open>Data and callback types\<close>

datatype comp_rtns_t = ERROR | EQUAL | GREATER_THAN | LESS_THAN | NOT_EQUAL

fun comp_code :: "comp_rtns_t \<Rightarrow> int" where
  "comp_code ERROR = - 1"
| "comp_code EQUAL = 0"
| "comp_code GREATER_THAN = 1"
| "comp_code LESS_THAN = 2"
| "comp_code NOT_EQUAL = 3"

text \<open>
  A comparison callback takes two data pointers; \<open>None\<close> is undefined behaviour inside it (it
  dereferences a pointer that is not allocated).  A freeing callback is modelled by the data blocks
  it releases when called: \<open>free\<close> releases its argument, \<open>default_free\<close> nothing.
\<close>

type_synonym CMP_F = "ptr \<Rightarrow> ptr \<Rightarrow> comp_rtns_t option"
type_synonym FREE_F = "ptr \<Rightarrow> ptr list"

definition default_free :: FREE_F where
  "default_free arg = []"

definition libc_free :: FREE_F where
  "libc_free arg = (if arg = NULL then [] else [arg])"

definition MAX_STR_LEN :: nat where "MAX_STR_LEN = 1000"

record cell_t =
  row :: int
  col :: int

section \<open>The comparison functions\<close>

definition node_ptr_comp :: CMP_F where
  "node_ptr_comp ptr_1 ptr_2 =
     (if ptr_1 = NULL \<or> ptr_2 = NULL then Some ERROR
      else if ptr_1 = ptr_2 then Some EQUAL
      else Some NOT_EQUAL)"

definition int_comp :: "(ptr \<rightharpoonup> int) \<Rightarrow> CMP_F" where
  "int_comp mem p_node_one_data p_node_two_data =
     (if p_node_one_data = NULL \<or> p_node_two_data = NULL then Some ERROR
      else do {
        data_one \<leftarrow> deref mem p_node_one_data;
        data_two \<leftarrow> deref mem p_node_two_data;
        Some (if data_one = data_two then EQUAL
              else if data_one > data_two then GREATER_THAN
              else if data_one < data_two then LESS_THAN
              else ERROR) })"

definition str_comp :: "(ptr \<rightharpoonup> string) \<Rightarrow> CMP_F" where
  "str_comp mem p_node_one_data p_node_two_data =
     (if p_node_one_data = NULL \<or> p_node_two_data = NULL then Some ERROR
      else do {
        data_one_p \<leftarrow> deref mem p_node_one_data;
        data_two_p \<leftarrow> deref mem p_node_two_data;
        let comparison_result = strncmp data_one_p data_two_p (strnlen data_one_p MAX_STR_LEN);
        Some (if 0 = comparison_result then EQUAL
              else if 0 > comparison_result then LESS_THAN
              else if 0 < comparison_result then GREATER_THAN
              else ERROR) })"

definition cell_comp :: "(ptr \<rightharpoonup> cell_t) \<Rightarrow> CMP_F" where
  "cell_comp mem p_node_one_data p_node_two_data =
     (if p_node_one_data = NULL \<or> p_node_two_data = NULL then Some ERROR
      else do {
        cell_one \<leftarrow> deref mem p_node_one_data;
        cell_two \<leftarrow> deref mem p_node_two_data;
        Some (if row cell_one < row cell_two then LESS_THAN
              else if row cell_one > row cell_two then GREATER_THAN
              else if col cell_one < col cell_two then LESS_THAN
              else if col cell_one > col cell_two then GREATER_THAN
              else EQUAL) })"

section \<open>The comparator interface\<close>

text \<open>
  What the containers expect of a comparison callback on the data they store: on a set of valid
  pointers it is defined and reports how the keys of the two data blocks compare in a linear order.
\<close>

locale comparator =
  fixes cmp :: CMP_F
    and valid :: "ptr set"
    and key :: "ptr \<Rightarrow> 'k :: linorder"
  assumes cmp_key: "a \<in> valid \<Longrightarrow> b \<in> valid \<Longrightarrow>
    cmp a b = Some (if key a = key b then EQUAL
                    else if key b < key a then GREATER_THAN else LESS_THAN)"
begin

lemma cmp_less_iff: "a \<in> valid \<Longrightarrow> b \<in> valid \<Longrightarrow> cmp a b = Some LESS_THAN \<longleftrightarrow> key a < key b"
  by (auto simp: cmp_key)

lemma cmp_equal_iff: "a \<in> valid \<Longrightarrow> b \<in> valid \<Longrightarrow> cmp a b = Some EQUAL \<longleftrightarrow> key a = key b"
  by (auto simp: cmp_key)

lemma cmp_defined: "a \<in> valid \<Longrightarrow> b \<in> valid \<Longrightarrow> \<exists>c. cmp a b = Some c"
  by (simp add: cmp_key)

lemma cmp_converse: "a \<in> valid \<Longrightarrow> b \<in> valid \<Longrightarrow>
    cmp a b = Some GREATER_THAN \<longleftrightarrow> cmp b a = Some LESS_THAN"
  by (auto simp: cmp_key)

lemma cmp_trans: "a \<in> valid \<Longrightarrow> b \<in> valid \<Longrightarrow> c \<in> valid \<Longrightarrow>
    cmp a b = Some LESS_THAN \<Longrightarrow> cmp b c = Some LESS_THAN \<Longrightarrow> cmp a c = Some LESS_THAN"
  by (simp add: cmp_less_iff)

end

definition allocated :: "(ptr \<rightharpoonup> 'a) \<Rightarrow> ptr set" where
  "allocated mem = {p. p \<noteq> NULL \<and> mem p \<noteq> None}"

definition cell_key :: "cell_t \<Rightarrow> int \<times> int" where
  "cell_key c = (row c, col c)"

interpretation int_cmp: comparator "int_comp mem" "allocated mem" "\<lambda>p. the (mem p)"
  for mem :: "ptr \<rightharpoonup> int"
  by unfold_locales (auto simp: int_comp_def allocated_def deref_def)

interpretation cell_cmp: comparator "cell_comp mem" "allocated mem" "\<lambda>p. cell_key (the (mem p))"
  for mem :: "ptr \<rightharpoonup> cell_t"
  by unfold_locales (auto simp: cell_comp_def allocated_def deref_def cell_key_def less_prod_def)

section \<open>Laws of the other comparison functions\<close>

lemma node_ptr_comp_EQUAL [simp]:
  "node_ptr_comp p q = Some EQUAL \<longleftrightarrow> p = q \<and> p \<noteq> NULL"
  by (auto simp: node_ptr_comp_def)

lemma node_ptr_comp_defined: "\<exists>c. node_ptr_comp p q = Some c"
  by (simp add: node_ptr_comp_def)

lemma strncmp_prefix:
  "strncmp s t (strnlen s n) = 0 \<longleftrightarrow> prefix (take n s) t"
  by (auto simp: strncmp_eq_0_iff strnlen_def min_def prefix_def take_all intro: exI [of _ "drop _ t"])
     (metis append_take_drop_id)+

end
