(* ===== verification/List_Heap.thy ===== *)
theory List_Heap
  imports Comparisons
begin

text \<open>
  The heap of the doubly linked list (DSA/linked_list): its node and list structs, the typed heaps
  they live in, the memory primitives the list code is made of, and the representation predicates
  (\<open>dlseg\<close>, a segment linked in both directions, and \<open>list_rep\<close>, a whole list object)
  with the lemmas that read and update a segment.
\<close>

section \<open>Structs and state\<close>

record list_node_t =
  n_data :: ptr
  n_prev :: ptr
  n_next :: ptr

record list_t =
  l_size :: "32 word"
  l_head :: ptr
  l_tail :: ptr
  l_custom_free :: "FREE_F option"
  l_compare_func :: "CMP_F option"

text \<open>
  Nodes and list objects are allocated at addresses that count upwards from \<open>brk\<close> and are
  never reused, so a dangling pointer is always one that is not allocated.  \<open>released\<close> logs
  the data blocks that freeing callbacks released, \<open>acted\<close> the arguments given to the
  callback of \<open>list_foreach_call\<close>.
\<close>

record list_heap =
  nodes :: "ptr \<rightharpoonup> list_node_t"
  list_objs :: "ptr \<rightharpoonup> list_t"
  brk :: ptr
  plan :: alloc_plan
  released :: "ptr list"
  acted :: "ptr list"

definition empty_heap :: list_heap where
  "empty_heap = \<lparr>nodes = Map.empty, list_objs = Map.empty, brk = 1, plan = [], released = [], acted = []\<rparr>"

definition zero_node :: list_node_t where
  "zero_node = \<lparr>n_data = NULL, n_prev = NULL, n_next = NULL\<rparr>"

definition zero_list :: list_t where
  "zero_list = \<lparr>l_size = 0, l_head = NULL, l_tail = NULL, l_custom_free = None, l_compare_func = None\<rparr>"

section \<open>Memory primitives\<close>

definition calloc_node :: "list_heap \<Rightarrow> ptr \<times> list_heap" where
  "calloc_node h =
     (if alloc_fails (plan h) then (NULL, h\<lparr>plan := alloc_rest (plan h)\<rparr>)
      else (brk h, h\<lparr>nodes := (nodes h)(brk h \<mapsto> zero_node), brk := Suc (brk h),
                      plan := alloc_rest (plan h)\<rparr>))"

definition calloc_list :: "list_heap \<Rightarrow> ptr \<times> list_heap" where
  "calloc_list h =
     (if alloc_fails (plan h) then (NULL, h\<lparr>plan := alloc_rest (plan h)\<rparr>)
      else (brk h, h\<lparr>list_objs := (list_objs h)(brk h \<mapsto> zero_list), brk := Suc (brk h),
                      plan := alloc_rest (plan h)\<rparr>))"

definition write_node :: "ptr \<Rightarrow> (list_node_t \<Rightarrow> list_node_t) \<Rightarrow> list_heap \<Rightarrow> list_heap option" where
  "write_node p f h = do { N \<leftarrow> update_at (nodes h) p f; Some (h\<lparr>nodes := N\<rparr>) }"

definition write_list :: "ptr \<Rightarrow> (list_t \<Rightarrow> list_t) \<Rightarrow> list_heap \<Rightarrow> list_heap option" where
  "write_list p f h = do { L \<leftarrow> update_at (list_objs h) p f; Some (h\<lparr>list_objs := L\<rparr>) }"

abbreviation set_data :: "ptr \<Rightarrow> ptr \<Rightarrow> list_heap \<Rightarrow> list_heap option" where
  "set_data p v \<equiv> write_node p (n_data_update (\<lambda>_. v))"

abbreviation set_prev :: "ptr \<Rightarrow> ptr \<Rightarrow> list_heap \<Rightarrow> list_heap option" where
  "set_prev p v \<equiv> write_node p (n_prev_update (\<lambda>_. v))"

abbreviation set_next :: "ptr \<Rightarrow> ptr \<Rightarrow> list_heap \<Rightarrow> list_heap option" where
  "set_next p v \<equiv> write_node p (n_next_update (\<lambda>_. v))"

abbreviation set_head :: "ptr \<Rightarrow> ptr \<Rightarrow> list_heap \<Rightarrow> list_heap option" where
  "set_head p v \<equiv> write_list p (l_head_update (\<lambda>_. v))"

abbreviation set_tail :: "ptr \<Rightarrow> ptr \<Rightarrow> list_heap \<Rightarrow> list_heap option" where
  "set_tail p v \<equiv> write_list p (l_tail_update (\<lambda>_. v))"

abbreviation add_size :: "ptr \<Rightarrow> 32 word \<Rightarrow> list_heap \<Rightarrow> list_heap option" where
  "add_size p v \<equiv> write_list p (\<lambda>l. l\<lparr>l_size := l_size l + v\<rparr>)"

definition read_node :: "ptr \<Rightarrow> list_heap \<Rightarrow> list_node_t option" where
  "read_node p h = deref (nodes h) p"

definition read_list :: "ptr \<Rightarrow> list_heap \<Rightarrow> list_t option" where
  "read_list p h = deref (list_objs h) p"

definition free_node :: "ptr \<Rightarrow> list_heap \<Rightarrow> list_heap option" where
  "free_node p h = do { N \<leftarrow> free_at (nodes h) p; Some (h\<lparr>nodes := N\<rparr>) }"

definition free_list :: "ptr \<Rightarrow> list_heap \<Rightarrow> list_heap option" where
  "free_list p h = do { L \<leftarrow> free_at (list_objs h) p; Some (h\<lparr>list_objs := L\<rparr>) }"

text \<open>A call through a function pointer; calling NULL is undefined behaviour.\<close>

definition call_free :: "FREE_F option \<Rightarrow> ptr \<Rightarrow> list_heap \<Rightarrow> list_heap option" where
  "call_free f arg h = do { g \<leftarrow> f; Some (h\<lparr>released := released h @ g arg\<rparr>) }"

definition call_cmp :: "CMP_F option \<Rightarrow> ptr \<Rightarrow> ptr \<Rightarrow> comp_rtns_t option" where
  "call_cmp f a b = do { g \<leftarrow> f; g a b }"

lemma read_node_known [simp]: "nodes h p = Some n \<Longrightarrow> p \<noteq> NULL \<Longrightarrow> read_node p h = Some n"
  by (simp add: read_node_def)

lemma read_list_known [simp]: "list_objs h p = Some l \<Longrightarrow> p \<noteq> NULL \<Longrightarrow> read_list p h = Some l"
  by (simp add: read_list_def)

lemma write_node_known [simp]: "nodes h p = Some n \<Longrightarrow> p \<noteq> NULL \<Longrightarrow>
    write_node p f h = Some (h\<lparr>nodes := (nodes h)(p \<mapsto> f n)\<rparr>)"
  by (simp add: write_node_def)

lemma write_list_known [simp]: "list_objs h p = Some l \<Longrightarrow> p \<noteq> NULL \<Longrightarrow>
    write_list p f h = Some (h\<lparr>list_objs := (list_objs h)(p \<mapsto> f l)\<rparr>)"
  by (simp add: write_list_def)

lemma free_node_known [simp]: "nodes h p = Some n \<Longrightarrow> p \<noteq> NULL \<Longrightarrow>
    free_node p h = Some (h\<lparr>nodes := (nodes h)(p := None)\<rparr>)"
  by (simp add: free_node_def)

lemma free_list_known [simp]: "list_objs h p = Some l \<Longrightarrow> p \<noteq> NULL \<Longrightarrow>
    free_list p h = Some (h\<lparr>list_objs := (list_objs h)(p := None)\<rparr>)"
  by (simp add: free_list_def)

lemma call_free_Some [simp]: "call_free (Some g) arg h = Some (h\<lparr>released := released h @ g arg\<rparr>)"
  by (simp add: call_free_def)

lemma call_free_None [simp]: "call_free None arg h = None"
  by (simp add: call_free_def)

lemma call_cmp_Some [simp]: "call_cmp (Some g) a b = g a b"
  by (simp add: call_cmp_def)

lemma read_NULL [simp]: "read_node NULL h = None" "read_list NULL h = None"
  by (simp_all add: read_node_def read_list_def)

section \<open>Segments\<close>

text \<open>
  \<open>dlseg H pv p ns l q\<close>: starting at \<open>p\<close>, the nodes \<open>ns\<close> (address and data of
  each) are linked one after the other in both directions; the first one's \<open>prev\<close> is
  \<open>pv\<close>, the last one is \<open>l\<close> and its \<open>next\<close> is \<open>q\<close>.
\<close>

type_synonym node_seq = "(ptr \<times> ptr) list"

fun dlseg :: "(ptr \<rightharpoonup> list_node_t) \<Rightarrow> ptr \<Rightarrow> ptr \<Rightarrow> node_seq \<Rightarrow> ptr \<Rightarrow> ptr \<Rightarrow> bool" where
  "dlseg H pv p [] l q = (p = q \<and> l = pv)"
| "dlseg H pv p ((a, d) # ns) l q =
     (a = p \<and> p \<noteq> NULL \<and>
      (case H p of None \<Rightarrow> False
       | Some n \<Rightarrow> n_data n = d \<and> n_prev n = pv \<and> dlseg H p (n_next n) ns l q))"

abbreviation addrs :: "node_seq \<Rightarrow> ptr list" where "addrs ns \<equiv> map fst ns"
abbreviation datas :: "node_seq \<Rightarrow> ptr list" where "datas ns \<equiv> map snd ns"

lemma dlseg_append:
  "dlseg H pv p (xs @ ys) l q \<longleftrightarrow> (\<exists>m r. dlseg H pv p xs m r \<and> dlseg H m r ys l q)"
  by (induction xs arbitrary: pv p) (fastforce split: option.splits)+

lemma dlseg_cong:
  "dlseg H pv p ns l q \<Longrightarrow> (\<And>a. a \<in> set (addrs ns) \<Longrightarrow> H' a = H a) \<Longrightarrow> dlseg H' pv p ns l q"
  by (induction ns arbitrary: pv p) (auto split: option.splits)

lemma dlseg_update_outside [simp]:
  "a \<notin> set (addrs ns) \<Longrightarrow> dlseg (H(a := v)) pv p ns l q = dlseg H pv p ns l q"
  by (induction ns arbitrary: pv p) (auto split: option.splits)

lemma dlseg_allocated: "dlseg H pv p ns l q \<Longrightarrow> a \<in> set (addrs ns) \<Longrightarrow> a \<noteq> NULL \<and> H a \<noteq> None"
  by (induction ns arbitrary: pv p) (fastforce split: option.splits)+

lemma dlseg_Cons_D: "dlseg H pv p ((a, d) # ns) l q \<Longrightarrow>
    a = p \<and> p \<noteq> NULL \<and> (\<exists>n. H p = Some n \<and> n_data n = d \<and> n_prev n = pv \<and> dlseg H p (n_next n) ns l q)"
  by (auto split: option.splits)

lemma dlseg_snoc: "dlseg H pv p (xs @ [(a, d)]) l q \<longleftrightarrow>
    (\<exists>m. dlseg H pv p xs m a \<and> a \<noteq> NULL \<and> l = a \<and>
       (\<exists>n. H a = Some n \<and> n_data n = d \<and> n_prev n = m \<and> n_next n = q))"
  by (auto simp: dlseg_append split: option.splits)

lemma dlseg_NULL_start: "dlseg H pv NULL ns l q \<Longrightarrow> ns = []"
  by (cases ns) auto

lemma dlseg_nonnull_start: "dlseg H pv p ns l NULL \<Longrightarrow> p \<noteq> NULL \<Longrightarrow> ns \<noteq> []"
  by (cases ns) auto

lemma dlseg_start_eq: "dlseg H pv p ns l NULL \<Longrightarrow> p = NULL \<longleftrightarrow> ns = []"
  by (cases ns) auto

lemma dlseg_last_eq: "dlseg H NULL p ns l q \<Longrightarrow> l = NULL \<longleftrightarrow> ns = []"
  by (cases ns rule: rev_cases) (auto simp: dlseg_snoc split: prod.splits)

lemma dlseg_head: "dlseg H pv p ns l q \<Longrightarrow> ns \<noteq> [] \<Longrightarrow> p = fst (hd ns)"
  by (cases ns) auto

lemma dlseg_last: "dlseg H pv p ns l q \<Longrightarrow> ns \<noteq> [] \<Longrightarrow> l = fst (last ns)"
  by (cases ns rule: rev_cases) (auto simp: dlseg_snoc split: prod.splits)

text \<open>Relinking the two ends of a segment: its first \<open>prev\<close> and its last \<open>next\<close>.\<close>

lemma dlseg_set_first_prev:
  assumes "dlseg H pv p ns l q" and "ns \<noteq> []" and "distinct (addrs ns)" and "H p = Some n"
  shows "dlseg (H(p \<mapsto> n\<lparr>n_prev := pv'\<rparr>)) pv' p ns l q"
  using assms by (cases ns) (auto split: option.splits)

lemma dlseg_set_last_next:
  assumes "dlseg H pv p ns l q" and "ns \<noteq> []" and "distinct (addrs ns)" and "H l = Some n"
  shows "dlseg (H(l \<mapsto> n\<lparr>n_next := q'\<rparr>)) pv p ns l q'"
  using assms by (cases ns rule: rev_cases) (auto simp: dlseg_snoc)

lemma dlseg_first_node: "dlseg H pv p ns l q \<Longrightarrow> ns \<noteq> [] \<Longrightarrow>
    \<exists>n. H p = Some n \<and> p \<noteq> NULL \<and> n_data n = snd (hd ns) \<and> n_prev n = pv"
  by (cases ns) (auto split: option.splits)

lemma dlseg_last_node: "dlseg H pv p ns l q \<Longrightarrow> ns \<noteq> [] \<Longrightarrow>
    \<exists>n. H l = Some n \<and> l \<noteq> NULL \<and> n_data n = snd (last ns) \<and> n_next n = q"
  by (cases ns rule: rev_cases) (auto simp: dlseg_snoc split: prod.splits)

text \<open>Taking a node out of the middle of a segment, putting one in, and reading one.\<close>

lemma dlseg_unlink_between:
  assumes "dlseg H pv p (xs @ (m, dm) # (a, d) # (r, dr) # ys) l q"
    and "distinct (addrs (xs @ (m, dm) # (a, d) # (r, dr) # ys))"
    and "H m = Some nm" and "H r = Some nr"
  shows "dlseg (H(m \<mapsto> nm\<lparr>n_next := r\<rparr>, r \<mapsto> nr\<lparr>n_prev := m\<rparr>)) pv p
           (xs @ (m, dm) # (r, dr) # ys) l q"
  using assms by (auto simp: dlseg_append split: option.splits)

lemma dlseg_insert_between:
  assumes "dlseg H pv p (xs @ (m, dm) # (r, dr) # ys) l q"
    and "distinct (addrs (xs @ (m, dm) # (r, dr) # ys))"
    and "b \<notin> set (addrs (xs @ (m, dm) # (r, dr) # ys))" and "b \<noteq> NULL"
    and "H m = Some nm" and "H r = Some nr"
  shows "dlseg (H(b \<mapsto> \<lparr>n_data = d, n_prev = m, n_next = r\<rparr>,
                  r \<mapsto> nr\<lparr>n_prev := b\<rparr>, m \<mapsto> nm\<lparr>n_next := b\<rparr>)) pv p
           (xs @ (m, dm) # (b, d) # (r, dr) # ys) l q"
  using assms by (auto simp: dlseg_append split: option.splits)

lemma dlseg_node_at:
  assumes "dlseg H pv p (xs @ (a, d) # ys) l q"
  shows "\<exists>n. H a = Some n \<and> a \<noteq> NULL \<and> n_data n = d \<and>
    n_prev n = (if xs = [] then pv else fst (last xs)) \<and>
    n_next n = (if ys = [] then q else fst (hd ys))"
proof -
  from assms obtain m r n where 1: "dlseg H pv p xs m a" and 2: "a \<noteq> NULL" "H a = Some n"
      "n_data n = d" "n_prev n = m" "dlseg H a (n_next n) ys l q"
    by (fastforce simp: dlseg_append split: option.splits)
  moreover have "m = (if xs = [] then pv else fst (last xs))"
    using dlseg_last [OF 1] 1 by auto
  moreover have "n_next n = (if ys = [] then q else fst (hd ys))"
    using dlseg_head [OF 2(5)] 2(5) by auto
  ultimately show ?thesis by blast
qed

section \<open>List objects\<close>

text \<open>
  \<open>list_rep h lp l ns\<close>: at address \<open>lp\<close> there is a list object \<open>l\<close> whose nodes
  are exactly \<open>ns\<close>, linked in both directions from \<open>head\<close> to \<open>tail\<close>, and whose
  \<open>size\<close> counts them.  The second conjunct group says that the heap knows which addresses
  are still unused.
\<close>

definition list_rep :: "list_heap \<Rightarrow> ptr \<Rightarrow> list_t \<Rightarrow> node_seq \<Rightarrow> bool" where
  "list_rep h lp l ns \<longleftrightarrow>
     lp \<noteq> NULL \<and> list_objs h lp = Some l \<and>
     dlseg (nodes h) NULL (l_head l) ns (l_tail l) NULL \<and>
     distinct (addrs ns) \<and> l_size l = of_nat (length ns) \<and> length ns < 2 ^ 32 \<and>
     NULL \<notin> set (datas ns)"

definition heap_ok :: "list_heap \<Rightarrow> bool" where
  "heap_ok h \<longleftrightarrow> 0 < brk h \<and> (\<forall>a. brk h \<le> a \<longrightarrow> nodes h a = None \<and> list_objs h a = None)"

lemma heap_ok_empty: "heap_ok empty_heap"
  by (simp add: heap_ok_def empty_heap_def)

lemma heap_ok_fresh: "heap_ok h \<Longrightarrow> nodes h (brk h) = None \<and> list_objs h (brk h) = None \<and> brk h \<noteq> 0"
  by (simp add: heap_ok_def)

lemma heap_ok_node_lt: "heap_ok h \<Longrightarrow> nodes h a = Some n \<Longrightarrow> a < brk h"
  by (force simp: heap_ok_def not_less [symmetric])

lemma heap_ok_list_lt: "heap_ok h \<Longrightarrow> list_objs h a = Some l \<Longrightarrow> a < brk h"
  by (force simp: heap_ok_def not_less [symmetric])

lemma list_repD:
  assumes "list_rep h lp l ns"
  shows "lp \<noteq> NULL" and "list_objs h lp = Some l"
    and "dlseg (nodes h) NULL (l_head l) ns (l_tail l) NULL" and "distinct (addrs ns)"
    and "l_size l = of_nat (length ns)" and "length ns < 2 ^ 32" and "NULL \<notin> set (datas ns)"
  using assms unfolding list_rep_def by blast+

lemma list_rep_size: "list_rep h lp l ns \<Longrightarrow> unat (l_size l) = length ns"
  by (auto simp: list_rep_def unat_of_nat32)

lemma list_rep_head_NULL: "list_rep h lp l ns \<Longrightarrow> l_head l = NULL \<longleftrightarrow> ns = []"
  by (auto simp: list_rep_def dest: dlseg_start_eq)

lemma list_rep_tail_NULL: "list_rep h lp l ns \<Longrightarrow> l_tail l = NULL \<longleftrightarrow> ns = []"
  by (auto simp: list_rep_def dest: dlseg_last_eq)

lemma list_rep_read [simp]: "list_rep h lp l ns \<Longrightarrow> read_list lp h = Some l"
  by (simp add: list_rep_def)

lemma list_rep_fresh: "list_rep h lp l ns \<Longrightarrow> heap_ok h \<Longrightarrow> brk h \<notin> set (addrs ns)"
  by (auto simp: list_rep_def dest!: dlseg_allocated heap_ok_fresh)

lemma list_rep_read_node:
  assumes "list_rep h lp l ns" and "i < length ns"
  shows "\<exists>n. nodes h (fst (ns ! i)) = Some n \<and> fst (ns ! i) \<noteq> NULL \<and> n_data n = snd (ns ! i)"
proof -
  have "ns = take i ns @ ns ! i # drop (Suc i) ns" using assms(2) by (simp add: id_take_nth_drop)
  with assms(1) obtain m r where 
    "dlseg (nodes h) m r (ns ! i # drop (Suc i) ns) (l_tail l) NULL"
    unfolding list_rep_def by (metis dlseg_append)
  then show ?thesis by (cases "ns ! i") (auto split: option.splits)
qed
section \<open>Frames and the effect of an operation\<close>

text \<open>
  \<open>frame_except A lp h h'\<close>: only nodes at addresses in \<open>A\<close> and the list object
  \<open>lp\<close> may differ, so every other list keeps its representation.
  \<open>list_becomes\<close> is the effect of an operation on the list \<open>lp\<close>: it now represents
  \<open>ns'\<close>, its callbacks are unchanged, the rest of the heap is unchanged outside \<open>A\<close>,
  and the freeing callbacks released exactly \<open>rs\<close>.
\<close>

definition frame_except :: "ptr set \<Rightarrow> ptr \<Rightarrow> list_heap \<Rightarrow> list_heap \<Rightarrow> bool" where
  "frame_except A lp h h' \<longleftrightarrow>
     (\<forall>a. a \<notin> A \<longrightarrow> nodes h' a = nodes h a) \<and> (\<forall>p. p \<noteq> lp \<longrightarrow> list_objs h' p = list_objs h p)"

lemma list_rep_frame:
  assumes "list_rep h lq l ns" and "frame_except A lp h h'" and "lq \<noteq> lp" and "set (addrs ns) \<inter> A = {}"
  shows "list_rep h' lq l ns"
proof -
  have "\<And>a. a \<in> set (addrs ns) \<Longrightarrow> nodes h' a = nodes h a"
    using assms(2,4) unfolding frame_except_def by blast
  moreover have "list_objs h' lq = list_objs h lq" using assms(2,3) by (simp add: frame_except_def)
  ultimately show ?thesis using assms(1) unfolding list_rep_def
    by (auto elim!: dlseg_cong)
qed

definition list_becomes :: "list_heap \<Rightarrow> ptr \<Rightarrow> list_t \<Rightarrow> ptr set \<Rightarrow> node_seq \<Rightarrow> ptr list \<Rightarrow> list_heap \<Rightarrow> bool" where
  "list_becomes h lp l A ns' rs h' \<longleftrightarrow>
     (\<exists>l'. list_rep h' lp l' ns' \<and> l_custom_free l' = l_custom_free l \<and>
        l_compare_func l' = l_compare_func l) \<and>
     heap_ok h' \<and> frame_except A lp h h' \<and>
     released h' = released h @ rs \<and> acted h' = acted h"

lemma list_becomesI:
  assumes "list_rep h' lp l' ns'" and "l_custom_free l' = l_custom_free l"
    and "l_compare_func l' = l_compare_func l" and "heap_ok h'" and "frame_except A lp h h'"
    and "released h' = released h @ rs" and "acted h' = acted h"
  shows "list_becomes h lp l A ns' rs h'"
  using assms unfolding list_becomes_def by blast

end
