(* ===== verification/Linked_List.thy ===== *)
theory Linked_List
  imports List_Heap
begin

text \<open>
  The operations of DSA/linked_list/src/linked_list.c except sorting, statement by statement over
  the list heap, and what each does to a well-formed list (\<open>list_rep\<close>).  Loops with a
  counter run over the counter; \<open>while\<close> loops along the \<open>next\<close> pointers are
  \<open>partial_function (option)\<close>, where a cyclic list gives \<open>None\<close>.
\<close>

section \<open>Operations\<close>

definition list_node_new :: "ptr \<Rightarrow> list_heap \<Rightarrow> (ptr \<times> list_heap) option" where
  "list_node_new data h =
     (if data = NULL then Some (NULL, h)
      else do {
        let (new_node, h) = calloc_node h;
        if new_node = NULL then Some (NULL, h)
        else do {
          h \<leftarrow> set_data new_node data h;
          h \<leftarrow> set_prev new_node NULL h;
          h \<leftarrow> set_next new_node NULL h;
          Some (new_node, h) } })"

definition list_new :: "FREE_F option \<Rightarrow> CMP_F option \<Rightarrow> list_heap \<Rightarrow> (ptr \<times> list_heap) option" where
  "list_new free_func comp_func h =
     do {
       let (new_list, h) = calloc_list h;
       if new_list = NULL then Some (NULL, h)
       else do {
         h \<leftarrow> write_list new_list (\<lambda>_. \<lparr>l_size = 0, l_head = NULL, l_tail = NULL,
                l_custom_free = free_func, l_compare_func = comp_func\<rparr>) h;
         Some (new_list, h) } }"

definition list_push_head :: "ptr \<Rightarrow> ptr \<Rightarrow> list_heap \<Rightarrow> (int \<times> list_heap) option" where
  "list_push_head list data h =
     (if list = NULL \<or> data = NULL then Some (E_NULL_POINTER, h)
      else do {
        (new_node, h) \<leftarrow> list_node_new data h;
        if new_node = NULL then Some (E_FAILURE, h)
        else do {
          l \<leftarrow> read_list list h;
          h \<leftarrow> (if l_head l = NULL
                then do {
                  h \<leftarrow> set_head list new_node h;
                  h \<leftarrow> set_tail list new_node h;
                  l \<leftarrow> read_list list h;
                  h \<leftarrow> set_next (l_tail l) NULL h;
                  set_prev (l_head l) NULL h }
                else do {
                  h \<leftarrow> set_next new_node (l_head l) h;
                  h \<leftarrow> set_prev new_node NULL h;
                  h \<leftarrow> set_prev (l_head l) new_node h;
                  set_head list new_node h });
          h \<leftarrow> add_size list 1 h;
          Some (E_SUCCESS, h) } })"

definition list_push_tail :: "ptr \<Rightarrow> ptr \<Rightarrow> list_heap \<Rightarrow> (int \<times> list_heap) option" where
  "list_push_tail list data h =
     (if list = NULL \<or> data = NULL then Some (E_NULL_POINTER, h)
      else do {
        (new_node, h) \<leftarrow> list_node_new data h;
        if new_node = NULL then Some (E_FAILURE, h)
        else do {
          l \<leftarrow> read_list list h;
          h \<leftarrow> (if l_head l = NULL
                then do {
                  h \<leftarrow> set_head list new_node h;
                  h \<leftarrow> set_tail list new_node h;
                  l \<leftarrow> read_list list h;
                  h \<leftarrow> set_next (l_tail l) NULL h;
                  set_prev (l_head l) NULL h }
                else do {
                  h \<leftarrow> set_prev new_node (l_tail l) h;
                  h \<leftarrow> set_next new_node NULL h;
                  h \<leftarrow> set_next (l_tail l) new_node h;
                  set_tail list new_node h });
          h \<leftarrow> add_size list 1 h;
          Some (E_SUCCESS, h) } })"

text \<open>\<open>current = current->next\<close>, a given number of times.\<close>

fun advance :: "nat \<Rightarrow> list_heap \<Rightarrow> ptr \<Rightarrow> ptr option" where
  "advance 0 h current = Some current"
| "advance (Suc k) h current = do { n \<leftarrow> read_node current h; advance k h (n_next n) }"

definition list_push_position :: "ptr \<Rightarrow> ptr \<Rightarrow> 32 word \<Rightarrow> list_heap \<Rightarrow> (int \<times> list_heap) option" where
  "list_push_position list data position h =
     (if list = NULL \<or> data = NULL then Some (E_NULL_POINTER, h)
      else do {
        l \<leftarrow> read_list list h;
        if position > l_size l then Some (E_FAILURE, h)
        else if position = 0 then list_push_head list data h
        else if position = l_size l then list_push_tail list data h
        else do {
          (new_node, h) \<leftarrow> list_node_new data h;
          if new_node = NULL then Some (E_FAILURE, h)
          else do {
            current \<leftarrow> advance (unat (position - 1)) h (l_head l);
            c \<leftarrow> read_node current h;
            h \<leftarrow> set_next new_node (n_next c) h;
            h \<leftarrow> set_prev new_node current h;
            c \<leftarrow> read_node current h;
            h \<leftarrow> (if n_next c \<noteq> NULL then set_prev (n_next c) new_node h else Some h);
            h \<leftarrow> set_next current new_node h;
            h \<leftarrow> add_size list 1 h;
            Some (E_SUCCESS, h) } } })"

definition list_is_empty :: "ptr \<Rightarrow> list_heap \<Rightarrow> int option" where
  "list_is_empty list h =
     (if list = NULL then Some E_FAILURE
      else do { l \<leftarrow> read_list list h; Some (if l_size l = 0 then E_SUCCESS else E_FAILURE) })"

definition list_pop_head :: "ptr \<Rightarrow> list_heap \<Rightarrow> (ptr \<times> list_heap) option" where
  "list_pop_head list h =
     (if list = NULL then Some (NULL, h)
      else do {
        l \<leftarrow> read_list list h;
        if l_head l = NULL then Some (NULL, h)
        else do {
          let head = l_head l;
          n \<leftarrow> read_node head h;
          let data = n_data n;
          h \<leftarrow> (if l_head l = l_tail l
                then do {
                  h \<leftarrow> set_head list NULL h;
                  set_tail list NULL h }
                else do {
                  h \<leftarrow> set_head list (n_next n) h;
                  set_prev (n_next n) NULL h });
          h \<leftarrow> add_size list (- 1) h;
          h \<leftarrow> free_node head h;
          Some (data, h) } })"

definition list_pop_tail :: "ptr \<Rightarrow> list_heap \<Rightarrow> (ptr \<times> list_heap) option" where
  "list_pop_tail list h =
     (if list = NULL then Some (NULL, h)
      else do {
        l \<leftarrow> read_list list h;
        if l_tail l = NULL then Some (NULL, h)
        else do {
          let tail = l_tail l;
          n \<leftarrow> read_node tail h;
          let data = n_data n;
          h \<leftarrow> (if l_head l = l_tail l
                then do {
                  h \<leftarrow> set_head list NULL h;
                  set_tail list NULL h }
                else do {
                  h \<leftarrow> set_tail list (n_prev n) h;
                  set_next (n_prev n) NULL h });
          h \<leftarrow> add_size list (- 1) h;
          h \<leftarrow> free_node tail h;
          Some (data, h) } })"

text \<open>The general position unlinks the node, and calls the freeing callback on the very data it
  returns.\<close>

definition list_pop_position :: "ptr \<Rightarrow> 32 word \<Rightarrow> list_heap \<Rightarrow> (ptr \<times> list_heap) option" where
  "list_pop_position list position h =
     (if list = NULL then Some (NULL, h)
      else do {
        l \<leftarrow> read_list list h;
        if position \<ge> l_size l then Some (NULL, h)
        else if position = 0 then list_pop_head list h
        else if position = l_size l - 1 then list_pop_tail list h
        else do {
          current \<leftarrow> advance (unat position) h (l_head l);
          c \<leftarrow> read_node current h;
          let data = n_data c;
          h \<leftarrow> set_next (n_prev c) (n_next c) h;
          c \<leftarrow> read_node current h;
          h \<leftarrow> (if n_next c \<noteq> NULL then set_prev (n_next c) (n_prev c) h else Some h);
          h \<leftarrow> add_size list (- 1) h;
          h \<leftarrow> call_free (l_custom_free l) (n_data c) h;
          h \<leftarrow> set_data current NULL h;
          h \<leftarrow> free_node current h;
          Some (data, h) } })"

definition list_remove_head :: "ptr \<Rightarrow> list_heap \<Rightarrow> (int \<times> list_heap) option" where
  "list_remove_head list h =
     (if list = NULL then Some (E_NULL_POINTER, h)
      else do {
        (data, h) \<leftarrow> list_pop_head list h;
        l \<leftarrow> read_list list h;
        h \<leftarrow> call_free (l_custom_free l) data h;
        Some (E_SUCCESS, h) })"

definition list_remove_tail :: "ptr \<Rightarrow> list_heap \<Rightarrow> (int \<times> list_heap) option" where
  "list_remove_tail list h =
     (if list = NULL then Some (E_NULL_POINTER, h)
      else do {
        (data, h) \<leftarrow> list_pop_tail list h;
        l \<leftarrow> read_list list h;
        h \<leftarrow> call_free (l_custom_free l) data h;
        Some (E_SUCCESS, h) })"

definition list_remove_position :: "ptr \<Rightarrow> 32 word \<Rightarrow> list_heap \<Rightarrow> (int \<times> list_heap) option" where
  "list_remove_position list position h =
     (if list = NULL then Some (E_NULL_POINTER, h)
      else do {
        l \<leftarrow> read_list list h;
        if position \<ge> l_size l then Some (E_FAILURE, h)
        else do {
          (data, h) \<leftarrow> list_pop_position list position h;
          l \<leftarrow> read_list list h;
          h \<leftarrow> call_free (l_custom_free l) data h;
          Some (E_SUCCESS, h) } })"

definition list_peek_head :: "ptr \<Rightarrow> list_heap \<Rightarrow> ptr option" where
  "list_peek_head list h =
     (if list = NULL then Some NULL
      else do {
        l \<leftarrow> read_list list h;
        if l_head l = NULL then Some NULL
        else do { n \<leftarrow> read_node (l_head l) h; Some (n_data n) } })"

definition list_peek_tail :: "ptr \<Rightarrow> list_heap \<Rightarrow> ptr option" where
  "list_peek_tail list h =
     (if list = NULL then Some NULL
      else do {
        l \<leftarrow> read_list list h;
        if l_tail l = NULL then Some NULL
        else do { n \<leftarrow> read_node (l_tail l) h; Some (n_data n) } })"

definition list_peek_position :: "ptr \<Rightarrow> 32 word \<Rightarrow> list_heap \<Rightarrow> ptr option" where
  "list_peek_position list position h =
     (if list = NULL then Some NULL
      else do {
        l \<leftarrow> read_list list h;
        if l_size l = 0 then Some NULL
        else if position \<ge> l_size l then Some NULL
        else do {
          current \<leftarrow> advance (unat position) h (l_head l);
          n \<leftarrow> read_node current h;
          Some (n_data n) } })"

partial_function (option) find_node_loop :: "CMP_F option \<Rightarrow> ptr \<Rightarrow> list_heap \<Rightarrow> ptr \<Rightarrow> ptr option" where
  "find_node_loop compare_func data h current_node =
     (if current_node = NULL then Some NULL
      else do {
        n \<leftarrow> read_node current_node h;
        c \<leftarrow> call_cmp compare_func data (n_data n);
        if c = EQUAL then Some current_node
        else find_node_loop compare_func data h (n_next n) })"

definition find_node :: "ptr \<Rightarrow> ptr \<Rightarrow> list_heap \<Rightarrow> ptr option" where
  "find_node list data h =
     (if list = NULL \<or> data = NULL then Some NULL
      else do {
        l \<leftarrow> read_list list h;
        find_node_loop (l_compare_func l) data h (l_head l) })"

definition remove_node :: "ptr \<Rightarrow> ptr \<Rightarrow> list_heap \<Rightarrow> (int \<times> list_heap) option" where
  "remove_node list node h =
     (if list = NULL \<or> node = NULL then Some (E_NULL_POINTER, h)
      else do {
        n \<leftarrow> read_node node h;
        h \<leftarrow> (if n_prev n \<noteq> NULL then set_next (n_prev n) (n_next n) h
              else set_head list (n_next n) h);
        n \<leftarrow> read_node node h;
        h \<leftarrow> (if n_next n \<noteq> NULL then set_prev (n_next n) (n_prev n) h
              else set_tail list (n_prev n) h);
        l \<leftarrow> read_list list h;
        h \<leftarrow> call_free (l_custom_free l) (n_data n) h;
        h \<leftarrow> set_data node NULL h;
        h \<leftarrow> free_node node h;
        h \<leftarrow> add_size list (- 1) h;
        Some (E_SUCCESS, h) })"

definition list_remove_data :: "ptr \<Rightarrow> ptr \<Rightarrow> list_heap \<Rightarrow> (int \<times> list_heap) option" where
  "list_remove_data list data_p h =
     (if list = NULL \<or> data_p = NULL then Some (E_NULL_POINTER, h)
      else do {
        node_to_remove \<leftarrow> find_node list data_p h;
        if node_to_remove = NULL then Some (E_FAILURE, h)
        else do {
          (exit_code, h) \<leftarrow> remove_node list node_to_remove h;
          if exit_code \<noteq> E_SUCCESS then Some (exit_code, h)
          else Some (E_SUCCESS, h) } })"

text \<open>The callback of \<open>list_foreach_call\<close> is a function pointer that may be NULL; the calls
  are logged in \<open>acted\<close>.\<close>

fun foreach_loop :: "nat \<Rightarrow> ptr \<Rightarrow> list_heap \<Rightarrow> list_heap option" where
  "foreach_loop 0 current_node h = Some h"
| "foreach_loop (Suc k) current_node h =
     do {
       n \<leftarrow> read_node current_node h;
       let h = h\<lparr>acted := acted h @ [n_data n]\<rparr>;
       foreach_loop k (n_next n) h }"

definition list_foreach_call :: "ptr \<Rightarrow> bool \<Rightarrow> list_heap \<Rightarrow> (int \<times> list_heap) option" where
  "list_foreach_call list action_function_is_NULL h =
     (if list = NULL \<or> action_function_is_NULL then Some (E_NULL_POINTER, h)
      else do {
        l \<leftarrow> read_list list h;
        h \<leftarrow> foreach_loop (unat (l_size l)) (l_head l) h;
        Some (E_SUCCESS, h) })"

fun find_first_loop :: "nat \<Rightarrow> CMP_F option \<Rightarrow> ptr \<Rightarrow> list_heap \<Rightarrow> ptr \<Rightarrow> ptr option" where
  "find_first_loop 0 compare_func search_data h current_node = Some NULL"
| "find_first_loop (Suc k) compare_func search_data h current_node =
     do {
       n \<leftarrow> read_node current_node h;
       c \<leftarrow> call_cmp compare_func search_data (n_data n);
       if c = EQUAL then Some current_node
       else find_first_loop k compare_func search_data h (n_next n) }"

definition list_find_first_occurrence :: "ptr \<Rightarrow> ptr \<Rightarrow> list_heap \<Rightarrow> ptr option" where
  "list_find_first_occurrence list search_data h =
     (if list = NULL then Some NULL
      else do {
        l \<leftarrow> read_list list h;
        find_first_loop (unat (l_size l)) (l_compare_func l) search_data h (l_head l) })"

partial_function (option) contains_loop :: "CMP_F option \<Rightarrow> ptr \<Rightarrow> list_heap \<Rightarrow> ptr \<Rightarrow> bool option" where
  "contains_loop compare_func data_p h current_p =
     (if current_p = NULL then Some False
      else do {
        n \<leftarrow> read_node current_p h;
        c \<leftarrow> call_cmp compare_func (n_data n) data_p;
        if c = EQUAL then Some True
        else contains_loop compare_func data_p h (n_next n) })"

definition list_contains :: "ptr \<Rightarrow> ptr \<Rightarrow> list_heap \<Rightarrow> bool option" where
  "list_contains list data_p h =
     (if list = NULL \<or> data_p = NULL then Some False
      else do {
        l \<leftarrow> read_list list h;
        contains_loop (l_compare_func l) data_p h (l_head l) })"

partial_function (option) clear_loop :: "FREE_F option \<Rightarrow> ptr \<Rightarrow> list_heap \<Rightarrow> list_heap option" where
  "clear_loop custom_free current_node h =
     (if current_node = NULL then Some h
      else do {
        n \<leftarrow> read_node current_node h;
        let next_node = n_next n;
        h \<leftarrow> (if custom_free \<noteq> None
              then do {
                h \<leftarrow> call_free custom_free (n_data n) h;
                set_data current_node NULL h }
              else Some h);
        h \<leftarrow> free_node current_node h;
        clear_loop custom_free next_node h })"

definition list_clear :: "ptr \<Rightarrow> list_heap \<Rightarrow> (int \<times> list_heap) option" where
  "list_clear list h =
     (if list = NULL then Some (E_NULL_POINTER, h)
      else do {
        l \<leftarrow> read_list list h;
        h \<leftarrow> clear_loop (l_custom_free l) (l_head l) h;
        h \<leftarrow> set_head list NULL h;
        h \<leftarrow> set_tail list NULL h;
        h \<leftarrow> write_list list (l_size_update (\<lambda>_. 0)) h;
        Some (E_SUCCESS, h) })"

text \<open>\<open>list_address\<close> is the address of a variable holding a list pointer: \<open>None\<close> when
  the address itself is NULL.  The variable's new value is part of the result.\<close>

definition list_delete :: "ptr option \<Rightarrow> list_heap \<Rightarrow> (int \<times> ptr option \<times> list_heap) option" where
  "list_delete list_address h =
     (case list_address of
        None \<Rightarrow> Some (E_NULL_POINTER, None, h)
      | Some list \<Rightarrow>
          if list = NULL then Some (E_NULL_POINTER, Some list, h)
          else do {
            (exit_code, h) \<leftarrow> list_clear list h;
            if exit_code \<noteq> E_SUCCESS then Some (exit_code, Some list, h)
            else do {
              h \<leftarrow> free_list list h;
              Some (exit_code, Some NULL, h) } })"

fun find_all_loop :: "nat \<Rightarrow> CMP_F option \<Rightarrow> ptr \<Rightarrow> ptr \<Rightarrow> ptr \<Rightarrow> list_heap \<Rightarrow> (ptr \<times> list_heap) option" where
  "find_all_loop 0 compare_func search_data new_list current_node h = Some (new_list, h)"
| "find_all_loop (Suc k) compare_func search_data new_list current_node h =
     do {
       n \<leftarrow> read_node current_node h;
       c \<leftarrow> call_cmp compare_func search_data (n_data n);
       if c = EQUAL
       then do {
         (check, h) \<leftarrow> list_push_head new_list (n_data n) h;
         if check \<noteq> E_SUCCESS
         then do {
           (_, new_list', h) \<leftarrow> list_delete (Some new_list) h;
           new_list \<leftarrow> new_list';
           Some (new_list, h) }
         else find_all_loop k compare_func search_data new_list (n_next n) h }
       else find_all_loop k compare_func search_data new_list (n_next n) h }"

definition list_find_all_occurrences :: "ptr \<Rightarrow> ptr \<Rightarrow> list_heap \<Rightarrow> (ptr \<times> list_heap) option" where
  "list_find_all_occurrences list search_data h =
     (if list = NULL then Some (NULL, h)
      else do {
        l \<leftarrow> read_list list h;
        if l_size l = 0 then Some (NULL, h)
        else do {
          (new_list, h) \<leftarrow> list_new (l_custom_free l) (l_compare_func l) h;
          if new_list = NULL then Some (NULL, h)
          else find_all_loop (unat (l_size l)) (l_compare_func l) search_data new_list (l_head l) h } })"

section \<open>Insertion\<close>

lemma advance_dlseg: "dlseg (nodes h) pv p xs m r \<Longrightarrow> advance (length xs) h p = Some r"
  by (induction xs arbitrary: pv p) (auto split: option.splits)

lemma advance_to:
  assumes "dlseg (nodes h) pv p ns l NULL" and "i < length ns"
  shows "advance i h p = Some (fst (ns ! i))"
proof -
  have "ns = take i ns @ ns ! i # drop (Suc i) ns" using assms(2) by (simp add: id_take_nth_drop)
  with assms(1) obtain m r where 1: "dlseg (nodes h) pv p (take i ns) m r"
    and 2: "dlseg (nodes h) m r (ns ! i # drop (Suc i) ns) l NULL"
    by (metis dlseg_append)
  from 2 have "r = fst (ns ! i)" by (cases "ns ! i") simp
  with advance_dlseg [OF 1] assms(2) show ?thesis by simp
qed

lemma list_node_new_ok:
  assumes "heap_ok h" "data \<noteq> NULL" "\<not> alloc_fails (plan h)"
  shows "list_node_new data h = Some (brk h,
     h\<lparr>nodes := (nodes h)(brk h \<mapsto> \<lparr>n_data = data, n_prev = NULL, n_next = NULL\<rparr>),
       brk := Suc (brk h), plan := alloc_rest (plan h)\<rparr>)"
  using heap_ok_fresh [OF assms(1)] assms
  by (simp add: list_node_new_def calloc_node_def zero_node_def)

lemma list_node_new_fail:
  assumes "data \<noteq> NULL" "alloc_fails (plan h)"
  shows "list_node_new data h = Some (NULL, h\<lparr>plan := alloc_rest (plan h)\<rparr>)"
  using assms by (simp add: list_node_new_def calloc_node_def)

lemma push_first:
  assumes rep: "list_rep h lp l []" and ok: "heap_ok h" and d: "data \<noteq> NULL"
    and al: "\<not> alloc_fails (plan h)"
  shows "\<exists>h'. list_push_head lp data h = Some (E_SUCCESS, h') \<and>
    list_push_tail lp data h = Some (E_SUCCESS, h') \<and> list_becomes h lp l {brk h} [(brk h, data)] [] h' \<and>
    plan h' = alloc_rest (plan h) \<and> brk h' = Suc (brk h)"
  using assms list_rep_head_NULL [OF rep] heap_ok_fresh [OF ok]
  by (auto simp: list_push_head_def list_push_tail_def list_node_new_ok list_rep_def heap_ok_def
      frame_except_def list_becomes_def)

lemma list_push_head_rep:
  assumes rep: "list_rep h lp l ns" and ok: "heap_ok h" and d: "data \<noteq> NULL"
    and al: "\<not> alloc_fails (plan h)" and sz: "Suc (length ns) < 2 ^ 32"
  shows "\<exists>h'. list_push_head lp data h = Some (E_SUCCESS, h') \<and>
    list_becomes h lp l (insert (brk h) (set (addrs ns))) ((brk h, data) # ns) [] h' \<and>
    plan h' = alloc_rest (plan h) \<and> brk h' = Suc (brk h)"
proof (cases "ns = []")
  case True
  from push_first [OF rep [unfolded True] ok d al] True show ?thesis by auto
next
  case False
  have seg: "dlseg (nodes h) NULL (l_head l) ns (l_tail l) NULL" and dist: "distinct (addrs ns)"
    using rep by (simp_all add: list_rep_def)
  obtain n where n: "nodes h (l_head l) = Some n" "l_head l \<noteq> NULL"
    using dlseg_first_node [OF seg False] by blast
  have hd: "l_head l \<in> set (addrs ns)" using dlseg_head [OF seg False] False by simp
  have fr: "brk h \<notin> set (addrs ns)" using rep ok by (rule list_rep_fresh)
  have ne: "l_head l \<noteq> brk h" using fr hd by metis
  let ?N = "(nodes h)(brk h \<mapsto> \<lparr>n_data = data, n_prev = NULL, n_next = l_head l\<rparr>,
    l_head l \<mapsto> n\<lparr>n_prev := brk h\<rparr>)"
  let ?h = "h\<lparr>brk := Suc (brk h), plan := alloc_rest (plan h), nodes := ?N,
    list_objs := (list_objs h)(lp \<mapsto> l\<lparr>l_head := brk h, l_size := l_size l + 1\<rparr>)\<rparr>"
  have eq: "list_push_head lp data h = Some (E_SUCCESS, ?h)"
    using n ne rep d al heap_ok_fresh [OF ok] ok
    by (simp add: list_push_head_def list_node_new_ok list_rep_def)
  have "dlseg ?N (brk h) (l_head l) ns (l_tail l) NULL"
    using dlseg_set_first_prev [OF seg False dist n(1), of "brk h"] fr ne by (simp add: fun_upd_twist)
  then have "list_rep ?h lp (l\<lparr>l_head := brk h, l_size := l_size l + 1\<rparr>) ((brk h, data) # ns)"
    using rep fr ne d sz heap_ok_fresh [OF ok] by (simp add: list_rep_def)
  moreover have "heap_ok ?h" using ok n rep by (auto simp: heap_ok_def list_rep_def)
  moreover have "frame_except (insert (brk h) (set (addrs ns))) lp h ?h"
    using hd by (auto simp: frame_except_def)
  ultimately show ?thesis unfolding eq list_becomes_def by auto
qed

lemma list_push_tail_rep:
  assumes rep: "list_rep h lp l ns" and ok: "heap_ok h" and d: "data \<noteq> NULL"
    and al: "\<not> alloc_fails (plan h)" and sz: "Suc (length ns) < 2 ^ 32"
  shows "\<exists>h'. list_push_tail lp data h = Some (E_SUCCESS, h') \<and>
    list_becomes h lp l (insert (brk h) (set (addrs ns))) (ns @ [(brk h, data)]) [] h' \<and>
    plan h' = alloc_rest (plan h) \<and> brk h' = Suc (brk h)"
proof (cases "ns = []")
  case True
  from push_first [OF rep [unfolded True] ok d al] True show ?thesis by auto
next
  case False
  have seg: "dlseg (nodes h) NULL (l_head l) ns (l_tail l) NULL" and dist: "distinct (addrs ns)"
    using rep by (simp_all add: list_rep_def)
  obtain n where n: "nodes h (l_tail l) = Some n" "l_tail l \<noteq> NULL"
    using dlseg_last_node [OF seg False] by blast
  have tl: "l_tail l \<in> set (addrs ns)" using dlseg_last [OF seg False] False by simp
  have fr: "brk h \<notin> set (addrs ns)" using rep ok by (rule list_rep_fresh)
  have ne: "l_tail l \<noteq> brk h" using fr tl by metis
  let ?N = "(nodes h)(brk h \<mapsto> \<lparr>n_data = data, n_prev = l_tail l, n_next = NULL\<rparr>,
    l_tail l \<mapsto> n\<lparr>n_next := brk h\<rparr>)"
  let ?h = "h\<lparr>brk := Suc (brk h), plan := alloc_rest (plan h), nodes := ?N,
    list_objs := (list_objs h)(lp \<mapsto> l\<lparr>l_tail := brk h, l_size := l_size l + 1\<rparr>)\<rparr>"
  have "l_head l \<noteq> NULL" using list_rep_head_NULL [OF rep] False by blast
  then have eq: "list_push_tail lp data h = Some (E_SUCCESS, ?h)"
    using n ne rep d al heap_ok_fresh [OF ok] ok
    by (simp add: list_push_tail_def list_node_new_ok list_rep_def)
  have "dlseg ?N NULL (l_head l) ns (l_tail l) (brk h)"
    using dlseg_set_last_next [OF seg False dist n(1), of "brk h"] fr ne by (simp add: fun_upd_twist)
  then have "list_rep ?h lp (l\<lparr>l_tail := brk h, l_size := l_size l + 1\<rparr>) (ns @ [(brk h, data)])"
    using rep fr ne d sz heap_ok_fresh [OF ok] by (simp add: list_rep_def dlseg_snoc)
  moreover have "heap_ok ?h" using ok n rep by (auto simp: heap_ok_def list_rep_def)
  moreover have "frame_except (insert (brk h) (set (addrs ns))) lp h ?h"
    using tl by (auto simp: frame_except_def)
  ultimately show ?thesis unfolding eq list_becomes_def by auto
qed

lemma list_push_position_between:
  assumes rep: "list_rep h lp l (xs @ (m, dm) # (r, dr) # ys)" and ok: "heap_ok h" and d: "data \<noteq> NULL"
    and al: "\<not> alloc_fails (plan h)" and sz: "length xs + length ys + 3 < 2 ^ 32"
  shows "\<exists>h'. list_push_position lp data (of_nat (Suc (length xs))) h = Some (E_SUCCESS, h') \<and>
    list_becomes h lp l (insert (brk h) (set (addrs (xs @ (m, dm) # (r, dr) # ys))))
      (xs @ (m, dm) # (brk h, data) # (r, dr) # ys) [] h' \<and>
    plan h' = alloc_rest (plan h) \<and> brk h' = Suc (brk h)"
proof -
  let ?ns = "xs @ (m, dm) # (r, dr) # ys" and ?b = "brk h" and ?i = "Suc (length xs)"
  have seg: "dlseg (nodes h) NULL (l_head l) ?ns (l_tail l) NULL"
    and dist: "distinct (addrs ?ns)" and lo: "list_objs h lp = Some l" "lp \<noteq> NULL"
    and ls: "l_size l = of_nat (length ?ns)"
    using rep by (simp_all add: list_rep_def)
  have fr: "?b \<notin> set (addrs ?ns)" using rep ok by (rule list_rep_fresh)
  obtain nm where nm: "nodes h m = Some nm" "m \<noteq> NULL" "n_next nm = r"
    using dlseg_node_at [of "nodes h" NULL "l_head l" xs m dm "(r, dr) # ys" "l_tail l" NULL] seg by auto
  obtain nr where nr: "nodes h r = Some nr" "r \<noteq> NULL"
    using dlseg_node_at [of "nodes h" NULL "l_head l" "xs @ [(m, dm)]" r dr ys "l_tail l" NULL] seg by auto
  have dis: "m \<noteq> r" "m \<noteq> ?b" "r \<noteq> ?b" using dist fr by auto
  let ?N = "(nodes h)(?b \<mapsto> \<lparr>n_data = data, n_prev = m, n_next = r\<rparr>,
    r \<mapsto> nr\<lparr>n_prev := ?b\<rparr>, m \<mapsto> nm\<lparr>n_next := ?b\<rparr>)"
  let ?l = "l\<lparr>l_size := l_size l + 1\<rparr>"
  let ?h = "h\<lparr>brk := Suc ?b, plan := alloc_rest (plan h), nodes := ?N,
    list_objs := (list_objs h)(lp \<mapsto> ?l)\<rparr>"
  let ?h1 = "h\<lparr>nodes := (nodes h)(?b \<mapsto> \<lparr>n_data = data, n_prev = NULL, n_next = NULL\<rparr>),
       brk := Suc ?b, plan := alloc_rest (plan h)\<rparr>"
  have pos: "unat (of_nat ?i :: 32 word) = ?i" by (rule unat_of_nat32) (use sz in simp)
  have pos1: "unat (of_nat ?i - 1 :: 32 word) = length xs"
    unfolding of_nat32_minus_1 by (rule unat_of_nat32) (use sz in simp)
  have adv: "advance (length xs) ?h1 (l_head l) = Some m"
    using advance_to [of ?h1 NULL "l_head l" ?ns "l_tail l" "length xs"] seg fr by simp
  have guards: "\<not> (of_nat ?i :: 32 word) > l_size l" "(of_nat ?i :: 32 word) \<noteq> 0"
      "(of_nat ?i :: 32 word) \<noteq> l_size l"
    using pos list_rep_size [OF rep]
    by (simp_all only: word_less_nat_alt word_unat_eq_iff) simp_all
  have eq: "list_push_position lp data (of_nat ?i) h = Some (E_SUCCESS, ?h)"
    using guards lo d al ok pos1 adv nm nr dis heap_ok_fresh [OF ok]
    by (simp add: list_push_position_def list_node_new_ok fun_upd_twist)
  have "dlseg ?N NULL (l_head l) (xs @ (m, dm) # (?b, data) # (r, dr) # ys) (l_tail l) NULL"
    using seg dist fr heap_ok_fresh [OF ok] nm nr by (intro dlseg_insert_between) auto
  then have "list_rep ?h lp ?l (xs @ (m, dm) # (?b, data) # (r, dr) # ys)"
    using rep fr d sz by (auto simp: list_rep_def)
  moreover have "heap_ok ?h" using ok nm nr lo by (auto simp: heap_ok_def)
  moreover have "frame_except (insert ?b (set (addrs ?ns))) lp h ?h" by (auto simp: frame_except_def)
  ultimately show ?thesis unfolding eq list_becomes_def by auto
qed

lemma split_around:
  assumes "0 < i" and "i < length ns"
  obtains xs m dm r dr ys where "ns = xs @ (m, dm) # (r, dr) # ys" and "i = Suc (length xs)"
proof -
  obtain j where j: "i = Suc j" using assms(1) gr0_implies_Suc by blast
  have "ns = take j ns @ ns ! j # ns ! Suc j # drop (Suc (Suc j)) ns"
    using assms(2) j by (simp add: Cons_nth_drop_Suc)
  moreover have "i = Suc (length (take j ns))" using assms j by simp
  ultimately show thesis using that [of "take j ns"] by (metis surj_pair)
qed

lemma list_push_position_rep:
  assumes rep: "list_rep h lp l ns" and ok: "heap_ok h" and d: "data \<noteq> NULL"
    and al: "\<not> alloc_fails (plan h)" and sz: "Suc (length ns) < 2 ^ 32" and i: "i \<le> length ns"
  shows "\<exists>h'. list_push_position lp data (of_nat i) h = Some (E_SUCCESS, h') \<and>
    list_becomes h lp l (insert (brk h) (set (addrs ns))) (take i ns @ (brk h, data) # drop i ns) [] h' \<and>
    plan h' = alloc_rest (plan h) \<and> brk h' = Suc (brk h)"
proof -
  have ui: "unat (of_nat i :: 32 word) = i" by (rule unat_of_nat32) (use i sz in simp)
  have us: "unat (l_size l) = length ns" by (rule list_rep_size [OF rep])
  have ng: "\<not> (of_nat i :: 32 word) > l_size l" using i by (simp add: word_less_nat_alt ui us)
  have lp: "lp \<noteq> NULL" using rep by (simp add: list_rep_def)
  consider "i = 0" | "0 < i" "i = length ns" | "0 < i" "i < length ns" using i by linarith
  then show ?thesis
  proof cases
    case 1
    then have "list_push_position lp data (of_nat i) h = list_push_head lp data h"
      using rep lp d by (simp add: list_push_position_def)
    with list_push_head_rep [OF rep ok d al sz] 1 show ?thesis by simp
  next
    case 2
    then have "unat (of_nat i :: 32 word) = unat (l_size l)" using ui us by linarith
    then have "of_nat i = l_size l" by (simp only: word_unat_eq_iff)
    moreover have "(of_nat i :: 32 word) \<noteq> 0" using ui 2 by auto
    ultimately have "list_push_position lp data (of_nat i) h = list_push_tail lp data h"
      using rep lp d ng by (simp add: list_push_position_def)
    with list_push_tail_rep [OF rep ok d al sz] 2 show ?thesis by simp
  next
    case 3
    then obtain xs m dm r dr ys where ns: "ns = xs @ (m, dm) # (r, dr) # ys" and ix: "i = Suc (length xs)"
      by (rule split_around)
    show ?thesis using list_push_position_between [OF rep [unfolded ns] ok d al] sz unfolding ns ix by simp
  qed
qed

section \<open>Removal\<close>

lemma list_pop_head_rep:
  assumes rep: "list_rep h lp l ((a, d) # ns)" and ok: "heap_ok h"
  shows "\<exists>h'. list_pop_head lp h = Some (d, h') \<and>
    list_becomes h lp l (set (addrs ((a, d) # ns))) ns [] h' \<and>
    nodes h' a = None \<and> plan h' = plan h \<and> brk h' = brk h"
proof -
  note lo = list_repD(2,1) [OF rep] and seg = list_repD(3) [OF rep] and dist = list_repD(4) [OF rep]
  obtain n where n: "nodes h a = Some n" "a \<noteq> NULL" "n_data n = d" "l_head l = a"
      "dlseg (nodes h) a (n_next n) ns (l_tail l) NULL"
    using dlseg_Cons_D [OF seg] by metis
  show ?thesis
  proof (cases "ns = []")
    case True
    let ?h = "h\<lparr>list_objs := (list_objs h)(lp \<mapsto> l\<lparr>l_head := NULL, l_tail := NULL, l_size := l_size l - 1\<rparr>),
      nodes := (nodes h)(a := None)\<rparr>"
    have "l_tail l = a" using n(5) True by simp
    then have eq: "list_pop_head lp h = Some (d, ?h)"
      using n lo by (simp add: list_pop_head_def)
    have "list_becomes h lp l (set (addrs ((a, d) # ns))) ns [] ?h"
      using rep ok True lo by (auto simp: list_becomes_def list_rep_def heap_ok_def frame_except_def)
    with eq show ?thesis by simp
  next
    case False
    obtain r where r: "nodes h (n_next n) = Some r" "n_next n \<noteq> NULL"
      using dlseg_first_node [OF n(5) False] by blast
    have ra: "n_next n \<in> set (addrs ns)" using dlseg_head [OF n(5) False] False by simp
    have dis: "a \<noteq> n_next n" using ra dist by (metis distinct.simps(2) fst_conv list.simps(9))
    have tl: "l_tail l \<noteq> a" using dlseg_last [OF n(5) False] dist False by auto
    let ?l = "l\<lparr>l_head := n_next n, l_size := l_size l - 1\<rparr>"
    let ?N = "(nodes h)(n_next n \<mapsto> r\<lparr>n_prev := NULL\<rparr>, a := None)"
    let ?h = "h\<lparr>nodes := ?N, list_objs := (list_objs h)(lp \<mapsto> ?l)\<rparr>"
    have eq: "list_pop_head lp h = Some (d, ?h)"
      using n lo r dis tl by (simp add: list_pop_head_def)
    have "dlseg ?N NULL (n_next n) ns (l_tail l) NULL"
      using dlseg_set_first_prev [OF n(5) False _ r(1), of NULL] dist by simp
    then have "list_rep ?h lp ?l ns" using rep by (simp add: list_rep_def)
    moreover have "heap_ok ?h" using ok lo r by (auto simp: heap_ok_def)
    moreover have "frame_except (set (addrs ((a, d) # ns))) lp h ?h"
      using ra by (auto simp: frame_except_def)
    ultimately show ?thesis unfolding eq list_becomes_def by auto
  qed
qed

lemma list_pop_tail_rep:
  assumes rep: "list_rep h lp l (ns @ [(a, d)])" and ok: "heap_ok h"
  shows "\<exists>h'. list_pop_tail lp h = Some (d, h') \<and>
    list_becomes h lp l (set (addrs (ns @ [(a, d)]))) ns [] h' \<and>
    nodes h' a = None \<and> plan h' = plan h \<and> brk h' = brk h"
proof -
  note lo = list_repD(2,1) [OF rep] and seg = list_repD(3) [OF rep] and dist = list_repD(4) [OF rep]
  obtain n where n: "nodes h a = Some n" "a \<noteq> NULL" "n_data n = d" "l_tail l = a"
      "dlseg (nodes h) NULL (l_head l) ns (n_prev n) a"
    using seg by (auto simp: dlseg_snoc)
  show ?thesis
  proof (cases "ns = []")
    case True
    let ?h = "h\<lparr>list_objs := (list_objs h)(lp \<mapsto> l\<lparr>l_head := NULL, l_tail := NULL, l_size := l_size l - 1\<rparr>),
      nodes := (nodes h)(a := None)\<rparr>"
    have "l_head l = a" using n(5) True by simp
    then have eq: "list_pop_tail lp h = Some (d, ?h)"
      using n lo by (simp add: list_pop_tail_def)
    have "list_becomes h lp l (set (addrs (ns @ [(a, d)]))) ns [] ?h"
      using rep ok True lo by (auto simp: list_becomes_def list_rep_def heap_ok_def frame_except_def)
    with eq show ?thesis by simp
  next
    case False
    obtain r where r: "nodes h (n_prev n) = Some r" "n_prev n \<noteq> NULL"
      using dlseg_last_node [OF n(5) False] by blast
    have ra: "n_prev n \<in> set (addrs ns)" using dlseg_last [OF n(5) False] False by simp
    have dis: "a \<noteq> n_prev n" using ra dist by auto
    have hd: "l_head l \<noteq> a" using dlseg_head [OF n(5) False] dist False by (cases ns) auto
    let ?l = "l\<lparr>l_tail := n_prev n, l_size := l_size l - 1\<rparr>"
    let ?N = "(nodes h)(n_prev n \<mapsto> r\<lparr>n_next := NULL\<rparr>, a := None)"
    let ?h = "h\<lparr>nodes := ?N, list_objs := (list_objs h)(lp \<mapsto> ?l)\<rparr>"
    have eq: "list_pop_tail lp h = Some (d, ?h)"
      using n lo r dis hd by (simp add: list_pop_tail_def)
    have "dlseg ?N NULL (l_head l) ns (n_prev n) NULL"
      using dlseg_set_last_next [OF n(5) False _ r(1), of NULL] dist by simp
    then have "list_rep ?h lp ?l ns" using rep by (simp add: list_rep_def)
    moreover have "heap_ok ?h" using ok lo r by (auto simp: heap_ok_def)
    moreover have "frame_except (set (addrs (ns @ [(a, d)]))) lp h ?h"
      using ra by (auto simp: frame_except_def)
    ultimately show ?thesis unfolding eq list_becomes_def by auto
  qed
qed

lemma word_guards32:
  assumes "i < n" and "n < 2 ^ 32" and "s = (of_nat n :: 32 word)"
  shows "\<not> (of_nat i :: 32 word) \<ge> s" and "(of_nat i :: 32 word) = 0 \<longleftrightarrow> i = 0"
    and "(of_nat i :: 32 word) = s - 1 \<longleftrightarrow> Suc i = n" and "unat (of_nat i :: 32 word) = i"
proof -
  have ui: "unat (of_nat i :: 32 word) = i" by (rule unat_of_nat32) (use assms in simp)
  have un: "unat s = n" unfolding assms(3) by (rule unat_of_nat32) (use assms in simp)
  obtain m where m: "n = Suc m" using assms(1) by (cases n) auto
  have um: "unat (s - 1) = m" unfolding assms(3) m of_nat32_minus_1 by (rule unat_of_nat32) (use assms m in simp)
  show "\<not> (of_nat i :: 32 word) \<ge> s" using assms(1) by (simp only: word_le_nat_alt ui un)
  show "(of_nat i :: 32 word) = 0 \<longleftrightarrow> i = 0" using ui by auto
  show "(of_nat i :: 32 word) = s - 1 \<longleftrightarrow> Suc i = n" unfolding word_unat_eq_iff ui um m by simp
  show "unat (of_nat i :: 32 word) = i" by (rule ui)
qed

lemma unlink_rep:
  assumes rep: "list_rep h lp l (xs @ (m, dm) # (a, d) # (r, dr) # ys)" and ok: "heap_ok h"
    and nm: "nodes h m = Some nm" and nr: "nodes h r = Some nr"
    and h': "h' = h\<lparr>nodes := (nodes h)(m \<mapsto> nm\<lparr>n_next := r\<rparr>, r \<mapsto> nr\<lparr>n_prev := m\<rparr>, a := None),
      list_objs := (list_objs h)(lp \<mapsto> l\<lparr>l_size := l_size l - 1\<rparr>), released := released h @ rs\<rparr>"
  shows "list_becomes h lp l (set (addrs (xs @ (m, dm) # (a, d) # (r, dr) # ys)))
      (xs @ (m, dm) # (r, dr) # ys) rs h'"
proof -
  have "dlseg ((nodes h)(m \<mapsto> nm\<lparr>n_next := r\<rparr>, r \<mapsto> nr\<lparr>n_prev := m\<rparr>)) NULL (l_head l)
      (xs @ (m, dm) # (r, dr) # ys) (l_tail l) NULL"
    by (rule dlseg_unlink_between [OF list_repD(3,4) [OF rep] nm nr])
  moreover have "a \<notin> set (addrs (xs @ (m, dm) # (r, dr) # ys))" using list_repD(4) [OF rep] by auto
  moreover have N: "nodes h' = (nodes h)(m \<mapsto> nm\<lparr>n_next := r\<rparr>, r \<mapsto> nr\<lparr>n_prev := m\<rparr>, a := None)"
    by (simp add: h')
  ultimately have "dlseg (nodes h') NULL (l_head l) (xs @ (m, dm) # (r, dr) # ys) (l_tail l) NULL"
    unfolding N by (metis dlseg_update_outside)
  then have "list_rep h' lp (l\<lparr>l_size := l_size l - 1\<rparr>) (xs @ (m, dm) # (r, dr) # ys)"
    using rep unfolding h' by (simp add: list_rep_def)
  moreover have "heap_ok h'" using ok list_repD(2) [OF rep] nm nr unfolding h' by (auto simp: heap_ok_def)
  moreover have "frame_except (set (addrs (xs @ (m, dm) # (a, d) # (r, dr) # ys))) lp h h'"
    unfolding h' by (auto simp: frame_except_def)
  ultimately show ?thesis unfolding list_becomes_def h' by auto
qed

lemma between_nodes:
  assumes rep: "list_rep h lp l (xs @ (m, dm) # (a, d) # (r, dr) # ys)"
  obtains nm n nr where "nodes h m = Some nm" "nodes h a = Some n" "nodes h r = Some nr"
    "m \<noteq> NULL" "a \<noteq> NULL" "r \<noteq> NULL" "n_data n = d" "n_prev n = m" "n_next n = r"
    "m \<noteq> a" "m \<noteq> r" "a \<noteq> r"
proof -
  note seg = list_repD(3) [OF rep]
  from dlseg_node_at [of "nodes h" NULL "l_head l" xs m dm "(a, d) # (r, dr) # ys" "l_tail l" NULL] seg
  obtain nm where 1: "nodes h m = Some nm" "m \<noteq> NULL" by auto
  from dlseg_node_at [of "nodes h" NULL "l_head l" "xs @ [(m, dm)]" a d "(r, dr) # ys" "l_tail l" NULL] seg
  obtain n where 2: "nodes h a = Some n" "a \<noteq> NULL" "n_data n = d" "n_prev n = m" "n_next n = r" by auto
  from dlseg_node_at [of "nodes h" NULL "l_head l" "xs @ [(m, dm), (a, d)]" r dr ys "l_tail l" NULL] seg
  obtain nr where 3: "nodes h r = Some nr" "r \<noteq> NULL" by auto
  have "m \<noteq> a" "m \<noteq> r" "a \<noteq> r" using list_repD(4) [OF rep] by auto
  with 1 2 3 that show thesis by blast
qed

lemma list_pop_position_between:
  assumes rep: "list_rep h lp l (xs @ (m, dm) # (a, d) # (r, dr) # ys)" and ok: "heap_ok h"
    and f: "l_custom_free l = Some f"
  shows "\<exists>h'. list_pop_position lp (of_nat (Suc (length xs))) h = Some (d, h') \<and>
    list_becomes h lp l (set (addrs (xs @ (m, dm) # (a, d) # (r, dr) # ys)))
      (xs @ (m, dm) # (r, dr) # ys) (f d) h' \<and>
    nodes h' a = None \<and> plan h' = plan h \<and> brk h' = brk h"
proof -
  let ?ns = "xs @ (m, dm) # (a, d) # (r, dr) # ys" and ?i = "Suc (length xs)"
  obtain nm n nr where n: "nodes h m = Some nm" "nodes h a = Some n" "nodes h r = Some nr"
      "m \<noteq> NULL" "a \<noteq> NULL" "r \<noteq> NULL" "n_data n = d" "n_prev n = m" "n_next n = r"
      "m \<noteq> a" "m \<noteq> r" "a \<noteq> r"
    by (rule between_nodes [OF rep])
  note lo = list_repD(2,1) [OF rep]
  have "?i < length ?ns" by simp
  note g = word_guards32 [OF this list_repD(6) [OF rep] list_repD(5) [OF rep]]
  have adv: "advance ?i h (l_head l) = Some a"
    using advance_to [OF list_repD(3) [OF rep], of ?i] by (simp add: nth_append)
  let ?h = "h\<lparr>nodes := (nodes h)(m \<mapsto> nm\<lparr>n_next := r\<rparr>, r \<mapsto> nr\<lparr>n_prev := m\<rparr>, a := None),
      list_objs := (list_objs h)(lp \<mapsto> l\<lparr>l_size := l_size l - 1\<rparr>), released := released h @ f d\<rparr>"
  have eq: "list_pop_position lp (of_nat ?i) h = Some (d, ?h)"
    using n lo f g adv by (simp add: list_pop_position_def)
  show ?thesis unfolding eq
    using unlink_rep [OF rep ok n(1) n(3) refl, of "f d"] by simp
qed

lemma list_becomes_callbacks:
  "list_becomes h lp l A ns rs h' \<Longrightarrow> \<exists>l'. read_list lp h' = Some l' \<and> list_rep h' lp l' ns \<and>
    l_custom_free l' = l_custom_free l \<and> l_compare_func l' = l_compare_func l"
  unfolding list_becomes_def using list_rep_read by blast

lemma list_becomes_release:
  assumes "list_becomes h lp l A ns rs h'"
  shows "list_becomes h lp l A ns (rs @ ts) (h'\<lparr>released := released h' @ ts\<rparr>)"
  using assms by (auto simp: list_becomes_def list_rep_def heap_ok_def frame_except_def)

lemma split_at:
  assumes "i < length ns"
  obtains xs a d ys where "ns = xs @ (a, d) # ys" and "i = length xs"
    and "ns ! i = (a, d)" and "take i ns = xs" and "drop (Suc i) ns = ys"
proof -
  have "ns = take i ns @ ns ! i # drop (Suc i) ns" using assms by (simp add: id_take_nth_drop)
  with assms show thesis using that [of "take i ns" "fst (ns ! i)" "snd (ns ! i)" "drop (Suc i) ns"] by simp
qed

text \<open>Every position: what is returned, what is left, and what the callback released.\<close>

lemma list_pop_position_rep:
  assumes rep: "list_rep h lp l ns" and ok: "heap_ok h" and i: "i < length ns"
    and f: "l_custom_free l = Some f"
  shows "\<exists>h'. list_pop_position lp (of_nat i) h = Some (snd (ns ! i), h') \<and>
    list_becomes h lp l (set (addrs ns)) (take i ns @ drop (Suc i) ns)
      (if 0 < i \<and> Suc i < length ns then f (snd (ns ! i)) else []) h' \<and>
    nodes h' (fst (ns ! i)) = None"
proof -
  note g = word_guards32 [OF i list_repD(6) [OF rep] list_repD(5) [OF rep]]
  have rd: "read_list lp h = Some l" "lp \<noteq> NULL" using rep by (simp_all add: list_rep_def)
  consider "i = 0" | "0 < i" "Suc i = length ns" | "0 < i" "Suc i < length ns" using i by linarith
  then show ?thesis
  proof cases
    case 1
    obtain a d ys where ns: "ns = (a, d) # ys" using i by (cases ns) auto
    have "list_pop_position lp (of_nat i) h = list_pop_head lp h"
      using rd g 1 by (simp add: list_pop_position_def)
    with list_pop_head_rep [OF rep [unfolded ns] ok] 1 ns show ?thesis by auto
  next
    case 2
    obtain xs a d ys where ns: "ns = xs @ (a, d) # ys" and ix: "i = length xs" "take i ns = xs" "drop (Suc i) ns = ys" "ns ! i = (a, d)"
      using split_at [OF i] by metis
    have ys: "ys = []" using 2 ns ix by simp
    have "list_pop_position lp (of_nat i) h = list_pop_tail lp h"
      using rd g 2 by (simp add: list_pop_position_def)
    with list_pop_tail_rep [of h lp l xs a d] rep ok 2 ns ix ys show ?thesis by auto
  next
    case 3
    then obtain xs m dm a d ys where ns: "ns = xs @ (m, dm) # (a, d) # ys" and ix: "i = Suc (length xs)"
      using split_around [of i ns] by (metis Suc_lessD)
    obtain r dr zs where ys: "ys = (r, dr) # zs" using 3 ns ix by (cases ys) auto
    show ?thesis using list_pop_position_between [OF rep [unfolded ns ys] ok f] 3
      unfolding ns ys ix by (auto simp: nth_append)
  qed
qed

lemma list_remove_position_rep:
  assumes rep: "list_rep h lp l ns" and ok: "heap_ok h" and i: "i < length ns"
    and f: "l_custom_free l = Some f"
  shows "\<exists>h'. list_remove_position lp (of_nat i) h = Some (E_SUCCESS, h') \<and>
    list_becomes h lp l (set (addrs ns)) (take i ns @ drop (Suc i) ns)
      ((if 0 < i \<and> Suc i < length ns then f (snd (ns ! i)) else []) @ f (snd (ns ! i))) h'"
proof -
  obtain h1 where 1: "list_pop_position lp (of_nat i) h = Some (snd (ns ! i), h1)"
    and 2: "list_becomes h lp l (set (addrs ns)) (take i ns @ drop (Suc i) ns)
      (if 0 < i \<and> Suc i < length ns then f (snd (ns ! i)) else []) h1"
    using list_pop_position_rep [OF assms] by blast
  obtain l1 where l1: "read_list lp h1 = Some l1" "l_custom_free l1 = Some f"
    using list_becomes_callbacks [OF 2] f by auto
  note g = word_guards32 [OF i list_repD(6) [OF rep] list_repD(5) [OF rep]]
  have "list_remove_position lp (of_nat i) h = Some (E_SUCCESS, h1\<lparr>released := released h1 @ f (snd (ns ! i))\<rparr>)"
    using 1 l1 g list_repD(1) [OF rep] rep by (simp add: list_remove_position_def)
  with list_becomes_release [OF 2, of "f (snd (ns ! i))"] show ?thesis by blast
qed

lemma list_remove_head_rep:
  assumes rep: "list_rep h lp l ((a, d) # ns)" and ok: "heap_ok h" and f: "l_custom_free l = Some f"
  shows "\<exists>h'. list_remove_head lp h = Some (E_SUCCESS, h') \<and>
    list_becomes h lp l (set (addrs ((a, d) # ns))) ns (f d) h'"
proof -
  obtain h1 where 1: "list_pop_head lp h = Some (d, h1)"
    and 2: "list_becomes h lp l (set (addrs ((a, d) # ns))) ns [] h1"
    using list_pop_head_rep [OF rep ok] by blast
  obtain l1 where "read_list lp h1 = Some l1" "l_custom_free l1 = Some f"
    using list_becomes_callbacks [OF 2] f by auto
  then have "list_remove_head lp h = Some (E_SUCCESS, h1\<lparr>released := released h1 @ f d\<rparr>)"
    using 1 list_repD(1) [OF rep] by (simp add: list_remove_head_def)
  with list_becomes_release [OF 2, of "f d"] show ?thesis by auto
qed

lemma list_remove_tail_rep:
  assumes rep: "list_rep h lp l (ns @ [(a, d)])" and ok: "heap_ok h" and f: "l_custom_free l = Some f"
  shows "\<exists>h'. list_remove_tail lp h = Some (E_SUCCESS, h') \<and>
    list_becomes h lp l (set (addrs (ns @ [(a, d)]))) ns (f d) h'"
proof -
  obtain h1 where 1: "list_pop_tail lp h = Some (d, h1)"
    and 2: "list_becomes h lp l (set (addrs (ns @ [(a, d)]))) ns [] h1"
    using list_pop_tail_rep [OF rep ok] by blast
  obtain l1 where "read_list lp h1 = Some l1" "l_custom_free l1 = Some f"
    using list_becomes_callbacks [OF 2] f by auto
  then have "list_remove_tail lp h = Some (E_SUCCESS, h1\<lparr>released := released h1 @ f d\<rparr>)"
    using 1 list_repD(1) [OF rep] by (simp add: list_remove_tail_def)
  with list_becomes_release [OF 2, of "f d"] show ?thesis by auto
qed

text \<open>Unlinking a node found by \<open>find_node\<close>: at either end \<open>remove_node\<close> moves
  \<open>head\<close> or \<open>tail\<close>, in the middle it joins the neighbours.\<close>

lemma remove_node_first:
  assumes rep: "list_rep h lp l ((a, d) # ys)" and f: "l_custom_free l = Some f"
    and pop: "list_pop_head lp h = Some (d, h1)"
  shows "remove_node lp a h = Some (E_SUCCESS, h1\<lparr>released := released h1 @ f d\<rparr>)"
proof -
  note seg = list_repD(3) [OF rep] and lo = list_repD(1,2) [OF rep]
  obtain n where n: "nodes h a = Some n" "a \<noteq> NULL" "n_data n = d" "n_prev n = NULL" "l_head l = a"
      "dlseg (nodes h) a (n_next n) ys (l_tail l) NULL"
    using dlseg_Cons_D [OF seg] by metis
  show ?thesis
  proof (cases "ys = []")
    case True
    then have "n_next n = NULL" "l_tail l = a" using n(6) by simp_all
    then show ?thesis using n lo f pop by (auto simp: remove_node_def list_pop_head_def)
  next
    case False
    obtain r where r: "nodes h (n_next n) = Some r" "n_next n \<noteq> NULL"
      using dlseg_first_node [OF n(6) False] by blast
    have "a \<noteq> n_next n" "l_tail l \<noteq> a"
      using dlseg_head [OF n(6) False] dlseg_last [OF n(6) False] list_repD(4) [OF rep] False by auto
    then show ?thesis using n lo f pop r by (auto simp: remove_node_def list_pop_head_def)
  qed
qed

lemma remove_node_last:
  assumes rep: "list_rep h lp l (xs @ [(a, d)])" and ne: "xs \<noteq> []" and f: "l_custom_free l = Some f"
    and pop: "list_pop_tail lp h = Some (d, h1)"
  shows "remove_node lp a h = Some (E_SUCCESS, h1\<lparr>released := released h1 @ f d\<rparr>)"
proof -
  note seg = list_repD(3) [OF rep] and lo = list_repD(1,2) [OF rep]
  obtain n where n: "nodes h a = Some n" "a \<noteq> NULL" "n_data n = d" "n_next n = NULL" "l_tail l = a"
      "dlseg (nodes h) NULL (l_head l) xs (n_prev n) a"
    using seg by (auto simp: dlseg_snoc)
  obtain r where r: "nodes h (n_prev n) = Some r" "n_prev n \<noteq> NULL"
    using dlseg_last_node [OF n(6) ne] by blast
  have "a \<noteq> n_prev n" "l_head l \<noteq> a"
    using dlseg_head [OF n(6) ne] dlseg_last [OF n(6) ne] list_repD(4) [OF rep] ne by auto
  then show ?thesis using n lo f pop r by (auto simp: remove_node_def list_pop_tail_def)
qed

lemma remove_node_rep:
  assumes rep: "list_rep h lp l (xs @ (a, d) # ys)" and ok: "heap_ok h" and f: "l_custom_free l = Some f"
  shows "\<exists>h'. remove_node lp a h = Some (E_SUCCESS, h') \<and>
    list_becomes h lp l (set (addrs (xs @ (a, d) # ys))) (xs @ ys) (f d) h' \<and> nodes h' a = None"
proof -
  consider (both) "xs \<noteq> []" "ys \<noteq> []" | (left) "xs = []" | (right) "xs \<noteq> []" "ys = []" by blast
  then show ?thesis
  proof cases
    case both
    then obtain xs' m dm r dr ys' where xs: "xs = xs' @ [(m, dm)]" and ys: "ys = (r, dr) # ys'"
      by (metis rev_exhaust neq_Nil_conv surj_pair)
    have rep': "list_rep h lp l (xs' @ (m, dm) # (a, d) # (r, dr) # ys')" using rep xs ys by simp
    obtain nm n nr where n: "nodes h m = Some nm" "nodes h a = Some n" "nodes h r = Some nr"
        "m \<noteq> NULL" "a \<noteq> NULL" "r \<noteq> NULL" "n_data n = d" "n_prev n = m" "n_next n = r"
        "m \<noteq> a" "m \<noteq> r" "a \<noteq> r"
      by (rule between_nodes [OF rep'])
    let ?h = "h\<lparr>nodes := (nodes h)(m \<mapsto> nm\<lparr>n_next := r\<rparr>, r \<mapsto> nr\<lparr>n_prev := m\<rparr>, a := None),
      list_objs := (list_objs h)(lp \<mapsto> l\<lparr>l_size := l_size l - 1\<rparr>), released := released h @ f d\<rparr>"
    have eq: "remove_node lp a h = Some (E_SUCCESS, ?h)"
      using n list_repD(1,2) [OF rep] f by (simp add: remove_node_def)
    show ?thesis unfolding eq xs ys using unlink_rep [OF rep' ok n(1) n(3) refl, of "f d"] by simp
  next
    case left
    then have rep': "list_rep h lp l ((a, d) # ys)" using rep by simp
    obtain h1 where h1: "list_pop_head lp h = Some (d, h1)"
        "list_becomes h lp l (set (addrs ((a, d) # ys))) ys [] h1" "nodes h1 a = None"
      using list_pop_head_rep [OF rep' ok] by blast
    have "remove_node lp a h = Some (E_SUCCESS, h1\<lparr>released := released h1 @ f d\<rparr>)"
      by (rule remove_node_first [OF rep' f h1(1)])
    with list_becomes_release [OF h1(2), of "f d"] h1(3) left show ?thesis by auto
  next
    case right
    then have rep': "list_rep h lp l (xs @ [(a, d)])" using rep by simp
    obtain h1 where h1: "list_pop_tail lp h = Some (d, h1)"
        "list_becomes h lp l (set (addrs (xs @ [(a, d)]))) xs [] h1" "nodes h1 a = None"
      using list_pop_tail_rep [OF rep' ok] by blast
    have "remove_node lp a h = Some (E_SUCCESS, h1\<lparr>released := released h1 @ f d\<rparr>)"
      by (rule remove_node_last [OF rep' right(1) f h1(1)])
    with list_becomes_release [OF h1(2), of "f d"] h1(3) right show ?thesis by auto
  qed
qed

section \<open>Reading and searching\<close>

lemma list_peek_position_rep:
  assumes rep: "list_rep h lp l ns" and i: "i < length ns"
  shows "list_peek_position lp (of_nat i) h = Some (snd (ns ! i))"
proof -
  note g = word_guards32 [OF i list_repD(6) [OF rep] list_repD(5) [OF rep]]
  obtain n where "nodes h (fst (ns ! i)) = Some n" "fst (ns ! i) \<noteq> NULL" "n_data n = snd (ns ! i)"
    using list_rep_read_node [OF rep i] by blast
  moreover have "l_size l \<noteq> 0" using list_rep_size [OF rep] i by (auto simp: unat_eq_zero)
  ultimately show ?thesis
    using list_repD(1) [OF rep] rep g advance_to [OF list_repD(3) [OF rep] i]
    by (simp add: list_peek_position_def)
qed

lemma list_peek_ends_rep:
  assumes rep: "list_rep h lp l ns"
  shows "list_peek_head lp h = Some (if ns = [] then NULL else snd (hd ns))"
    and "list_peek_tail lp h = Some (if ns = [] then NULL else snd (last ns))"
proof -
  show "list_peek_head lp h = Some (if ns = [] then NULL else snd (hd ns))"
    using list_rep_head_NULL [OF rep] list_repD(1) [OF rep] rep
      dlseg_first_node [OF list_repD(3) [OF rep]]
    by (auto simp: list_peek_head_def)
  show "list_peek_tail lp h = Some (if ns = [] then NULL else snd (last ns))"
    using list_rep_tail_NULL [OF rep] list_repD(1) [OF rep] rep
      dlseg_last_node [OF list_repD(3) [OF rep]]
    by (auto simp: list_peek_tail_def)
qed

lemma list_is_empty_rep:
  "list_rep h lp l ns \<Longrightarrow> list_is_empty lp h = Some (if ns = [] then E_SUCCESS else E_FAILURE)"
  using list_rep_size [of h lp l ns] by (auto simp: list_is_empty_def list_repD(1) unat_eq_zero)

text \<open>The node that a search returns: the first one whose data matches, or NULL.\<close>

fun first_match :: "(ptr \<Rightarrow> bool) \<Rightarrow> node_seq \<Rightarrow> ptr" where
  "first_match P [] = NULL"
| "first_match P ((a, d) # ns) = (if P d then a else first_match P ns)"

definition cmp_total_on :: "CMP_F \<Rightarrow> ptr \<Rightarrow> ptr set \<Rightarrow> bool" where
  "cmp_total_on f x D \<longleftrightarrow> (\<forall>d \<in> D. \<exists>c. f x d = Some c)"

lemma first_match_NULL: "NULL \<notin> set (addrs ns) \<Longrightarrow> first_match P ns = NULL \<longleftrightarrow> (\<forall>d \<in> set (datas ns). \<not> P d)"
  by (induction ns) (auto split: if_splits)

lemma first_match_split:
  "first_match P ns \<noteq> NULL \<Longrightarrow> \<exists>xs d ys. ns = xs @ (first_match P ns, d) # ys \<and> P d \<and>
     (\<forall>e \<in> set (datas xs). \<not> P e)"
proof (induction ns)
  case (Cons x ns)
  obtain a d where x: "x = (a, d)" by (cases x)
  show ?case
  proof (cases "P d")
    case True
    then have "x # ns = [] @ (first_match P (x # ns), d) # ns" using x by simp
    with True show ?thesis by (metis empty_iff list.map(1) list.set(1))
  next
    case False
    then obtain xs e ys where "ns = xs @ (first_match P ns, e) # ys" "P e" "\<forall>e \<in> set (datas xs). \<not> P e"
      using Cons x by auto
    then have "x # ns = (x # xs) @ (first_match P (x # ns), e) # ys" using x False by simp
    with \<open>P e\<close> \<open>\<forall>e \<in> set (datas xs). \<not> P e\<close> x False show ?thesis
      by (metis list.simps(9) set_ConsD snd_conv)
  qed
qed simp

lemma find_node_loop_dlseg:
  assumes "dlseg (nodes h) pv p ns t NULL" and "cmp_total_on f data (set (datas ns))"
  shows "find_node_loop (Some f) data h p = Some (first_match (\<lambda>d. f data d = Some EQUAL) ns)"
  using assms
proof (induction ns arbitrary: pv p)
  case Nil
  then show ?case by (subst find_node_loop.simps) simp
next
  case (Cons x ns)
  obtain a d where x: "x = (a, d)" by (cases x)
  obtain n where n: "nodes h p = Some n" "p \<noteq> NULL" "n_data n = d" "a = p" "dlseg (nodes h) p (n_next n) ns t NULL"
    using Cons.prems(1) dlseg_Cons_D unfolding x by blast
  obtain c where c: "f data d = Some c" using Cons.prems(2) unfolding x cmp_total_on_def by auto
  have "find_node_loop (Some f) data h (n_next n) = Some (first_match (\<lambda>d. f data d = Some EQUAL) ns)"
    using Cons.IH [OF n(5)] Cons.prems(2) by (simp add: cmp_total_on_def)
  then show ?case using n c x by (subst find_node_loop.simps) auto
qed

lemma contains_loop_dlseg:
  assumes "dlseg (nodes h) pv p ns t NULL" and "\<forall>d \<in> set (datas ns). \<exists>c. f d data = Some c"
  shows "contains_loop (Some f) data h p = Some (\<exists>d \<in> set (datas ns). f d data = Some EQUAL)"
  using assms
proof (induction ns arbitrary: pv p)
  case Nil
  then show ?case by (subst contains_loop.simps) simp
next
  case (Cons x ns)
  obtain a d where x: "x = (a, d)" by (cases x)
  obtain n where n: "nodes h p = Some n" "p \<noteq> NULL" "n_data n = d" "a = p" "dlseg (nodes h) p (n_next n) ns t NULL"
    using Cons.prems(1) dlseg_Cons_D unfolding x by blast
  obtain c where c: "f d data = Some c" using Cons.prems(2) unfolding x by auto
  have "contains_loop (Some f) data h (n_next n) = Some (\<exists>d \<in> set (datas ns). f d data = Some EQUAL)"
    using Cons.IH [OF n(5)] Cons.prems(2) by simp
  then show ?case using n c x by (subst contains_loop.simps) auto
qed

lemma find_first_loop_dlseg:
  assumes "dlseg (nodes h) pv p ns t NULL" and "cmp_total_on f data (set (datas ns))"
  shows "find_first_loop (length ns) (Some f) data h p = Some (first_match (\<lambda>d. f data d = Some EQUAL) ns)"
  using assms
proof (induction ns arbitrary: pv p)
  case (Cons x ns)
  obtain a d where x: "x = (a, d)" by (cases x)
  obtain n where n: "nodes h p = Some n" "p \<noteq> NULL" "n_data n = d" "a = p" "dlseg (nodes h) p (n_next n) ns t NULL"
    using Cons.prems(1) dlseg_Cons_D unfolding x by blast
  obtain c where c: "f data d = Some c" using Cons.prems(2) unfolding x cmp_total_on_def by auto
  have "find_first_loop (length ns) (Some f) data h (n_next n) = Some (first_match (\<lambda>d. f data d = Some EQUAL) ns)"
    using Cons.IH [OF n(5)] Cons.prems(2) by (simp add: cmp_total_on_def)
  then show ?case using n c x by auto
qed simp

lemma foreach_loop_dlseg:
  assumes "dlseg (nodes h) pv p ns t NULL"
  shows "foreach_loop (length ns) p h = Some (h\<lparr>acted := acted h @ datas ns\<rparr>)"
  using assms
proof (induction ns arbitrary: pv p h)
  case (Cons x ns)
  obtain a d where x: "x = (a, d)" by (cases x)
  obtain n where n: "nodes h p = Some n" "p \<noteq> NULL" "n_data n = d" "dlseg (nodes h) p (n_next n) ns t NULL"
    using Cons.prems(1) dlseg_Cons_D unfolding x by blast
  show ?case using n x Cons.IH [of "h\<lparr>acted := acted h @ [d]\<rparr>" p "n_next n"] by simp
qed simp

lemma list_find_first_rep:
  assumes rep: "list_rep h lp l ns" and f: "l_compare_func l = Some f"
    and t: "cmp_total_on f data (set (datas ns))"
  shows "list_find_first_occurrence lp data h = Some (first_match (\<lambda>d. f data d = Some EQUAL) ns)"
  using find_first_loop_dlseg [OF list_repD(3) [OF rep] t] rep f list_rep_size [OF rep]
  by (simp add: list_find_first_occurrence_def list_repD(1))

lemma list_contains_rep:
  assumes rep: "list_rep h lp l ns" and f: "l_compare_func l = Some f" and "data \<noteq> NULL"
    and t: "\<forall>d \<in> set (datas ns). \<exists>c. f d data = Some c"
  shows "list_contains lp data h = Some (\<exists>d \<in> set (datas ns). f d data = Some EQUAL)"
  using contains_loop_dlseg [where f = f and data = data, OF list_repD(3) [OF rep] t] rep f assms(3)
  by (simp add: list_contains_def list_repD(1))

lemma list_foreach_rep:
  assumes rep: "list_rep h lp l ns"
  shows "list_foreach_call lp False h = Some (E_SUCCESS, h\<lparr>acted := acted h @ datas ns\<rparr>)"
  using foreach_loop_dlseg [OF list_repD(3) [OF rep]] rep list_rep_size [OF rep]
  by (simp add: list_foreach_call_def list_repD(1))

lemma list_remove_data_rep:
  assumes rep: "list_rep h lp l ns" and ok: "heap_ok h" and f: "l_custom_free l = Some f"
    and g: "l_compare_func l = Some g" and data: "data \<noteq> NULL"
    and t: "cmp_total_on g data (set (datas ns))"
  shows "(\<forall>d \<in> set (datas ns). g data d \<noteq> Some EQUAL) \<and> list_remove_data lp data h = Some (E_FAILURE, h) \<or>
    (\<exists>xs a d ys h'. ns = xs @ (a, d) # ys \<and> g data d = Some EQUAL \<and>
       (\<forall>e \<in> set (datas xs). g data e \<noteq> Some EQUAL) \<and>
       list_remove_data lp data h = Some (E_SUCCESS, h') \<and>
       list_becomes h lp l (set (addrs ns)) (xs @ ys) (f d) h')"
proof -
  let ?P = "\<lambda>d. g data d = Some EQUAL"
  note lp = list_repD(1) [OF rep]
  have fn: "find_node lp data h = Some (first_match ?P ns)"
    using find_node_loop_dlseg [OF list_repD(3) [OF rep] t] rep lp data g by (simp add: find_node_def)
  have nn: "NULL \<notin> set (addrs ns)" using dlseg_allocated [OF list_repD(3) [OF rep]] by blast
  show ?thesis
  proof (cases "first_match ?P ns = NULL")
    case True
    then show ?thesis using fn lp data first_match_NULL [OF nn, of ?P] by (simp add: list_remove_data_def)
  next
    case False
    obtain xs d ys where s: "ns = xs @ (first_match ?P ns, d) # ys" "?P d" "\<forall>e \<in> set (datas xs). \<not> ?P e"
      using first_match_split [OF False] by blast
    obtain h' where h': "remove_node lp (first_match ?P ns) h = Some (E_SUCCESS, h')"
        "list_becomes h lp l (set (addrs ns)) (xs @ ys) (f d) h'"
      using remove_node_rep [of h lp l xs "first_match ?P ns" d ys f] rep ok f s(1) by metis
    have "list_remove_data lp data h = Some (E_SUCCESS, h')"
      using fn False h'(1) lp data by (simp add: list_remove_data_def)
    with s h'(2) show ?thesis by blast
  qed
qed

section \<open>Clearing and deleting\<close>

definition releases :: "FREE_F option \<Rightarrow> ptr list \<Rightarrow> ptr list" where
  "releases fo ds = (case fo of None \<Rightarrow> [] | Some f \<Rightarrow> concat (map f ds))"

lemma clear_loop_dlseg:
  assumes "dlseg (nodes h) pv p ns t NULL" and "distinct (addrs ns)"
  shows "clear_loop fo p h = Some (h\<lparr>released := released h @ releases fo (datas ns),
     nodes := nodes h |` (- set (addrs ns))\<rparr>)"
  using assms
proof (induction ns arbitrary: pv p h)
  case Nil
  have "nodes h |` UNIV = nodes h" by (simp add: restrict_map_def)
  with Nil show ?case by (subst clear_loop.simps) (simp add: releases_def split: option.splits)
next
  case (Cons x ns)
  obtain a d where x: "x = (a, d)" by (cases x)
  obtain n where n: "nodes h p = Some n" "p \<noteq> NULL" "n_data n = d" "a = p" "dlseg (nodes h) p (n_next n) ns t NULL"
    using Cons.prems(1) dlseg_Cons_D unfolding x by blast
  let ?h = "h\<lparr>released := released h @ releases fo [d], nodes := (nodes h)(p := None)\<rparr>"
  have step: "clear_loop fo p h = clear_loop fo (n_next n) ?h"
    using n by (subst clear_loop.simps) (auto simp: releases_def)
  have seg: "dlseg (nodes ?h) p (n_next n) ns t NULL" using n(4,5) Cons.prems(2) x by simp
  have ih: "clear_loop fo (n_next n) ?h = Some (?h\<lparr>released := released ?h @ releases fo (datas ns),
      nodes := nodes ?h |` (- set (addrs ns))\<rparr>)"
    by (rule Cons.IH [OF seg]) (use Cons.prems(2) in simp)
  have "nodes ?h |` (- set (addrs ns)) = nodes h |` (- set (addrs (x # ns)))"
    using x n(4) by (auto simp: restrict_map_def fun_eq_iff)
  moreover have "released ?h @ releases fo (datas ns) = released h @ releases fo (datas (x # ns))"
    using x by (simp add: releases_def split: option.splits)
  ultimately show ?case unfolding step ih by simp
qed

lemma list_clear_rep:
  assumes rep: "list_rep h lp l ns" and ok: "heap_ok h"
  shows "\<exists>h'. list_clear lp h = Some (E_SUCCESS, h') \<and>
    list_becomes h lp l (set (addrs ns)) [] (releases (l_custom_free l) (datas ns)) h' \<and>
    (\<forall>a \<in> set (addrs ns). nodes h' a = None)"
proof -
  note lo = list_repD(1,2) [OF rep]
  let ?h = "h\<lparr>released := released h @ releases (l_custom_free l) (datas ns), nodes := nodes h |` (- set (addrs ns)),
     list_objs := (list_objs h)(lp \<mapsto> l\<lparr>l_head := NULL, l_tail := NULL, l_size := 0\<rparr>)\<rparr>"
  have eq: "list_clear lp h = Some (E_SUCCESS, ?h)"
    using lo clear_loop_dlseg [OF list_repD(3,4) [OF rep], of "l_custom_free l"] by (simp add: list_clear_def)
  have "list_becomes h lp l (set (addrs ns)) [] (releases (l_custom_free l) (datas ns)) ?h"
    using lo ok by (auto simp: list_becomes_def list_rep_def heap_ok_def frame_except_def restrict_map_def)
  with eq show ?thesis by (auto simp: restrict_map_def)
qed

lemma list_delete_rep:
  assumes rep: "list_rep h lp l ns" and ok: "heap_ok h"
  shows "\<exists>h'. list_delete (Some lp) h = Some (E_SUCCESS, Some NULL, h') \<and>
    list_objs h' lp = None \<and> (\<forall>a \<in> set (addrs ns). nodes h' a = None) \<and>
    released h' = released h @ releases (l_custom_free l) (datas ns) \<and>
    heap_ok h' \<and> frame_except (set (addrs ns)) lp h h'"
proof -
  obtain h1 where h1: "list_clear lp h = Some (E_SUCCESS, h1)"
      "list_becomes h lp l (set (addrs ns)) [] (releases (l_custom_free l) (datas ns)) h1"
      "\<forall>a \<in> set (addrs ns). nodes h1 a = None"
    using list_clear_rep [OF assms] by blast
  then obtain l1 where "list_objs h1 lp = Some l1" unfolding list_becomes_def list_rep_def by blast
  then have "list_delete (Some lp) h = Some (E_SUCCESS, Some NULL, h1\<lparr>list_objs := (list_objs h1)(lp := None)\<rparr>)"
    using h1(1) list_repD(1) [OF rep] by (simp add: list_delete_def)
  with h1(2,3) show ?thesis by (auto simp: list_becomes_def heap_ok_def frame_except_def)
qed

section \<open>Collecting all matches\<close>

lemma list_new_ok:
  assumes "heap_ok h" and "\<not> alloc_fails (plan h)"
  shows "\<exists>h'. list_new fo co h = Some (brk h, h') \<and>
    list_rep h' (brk h) \<lparr>l_size = 0, l_head = NULL, l_tail = NULL, l_custom_free = fo, l_compare_func = co\<rparr> [] \<and>
    heap_ok h' \<and> nodes h' = nodes h \<and> (\<forall>p. p \<noteq> brk h \<longrightarrow> list_objs h' p = list_objs h p) \<and>
    released h' = released h \<and> plan h' = alloc_rest (plan h) \<and> brk h' = Suc (brk h)"
  using assms heap_ok_fresh [OF assms(1)]
  by (auto simp: list_new_def calloc_list_def list_rep_def heap_ok_def)

lemma find_all_loop_rep:
  assumes "dlseg (nodes h) pv p ns t NULL" and "list_rep h nl l ms" and "heap_ok h" and "plan h = []"
    and "cmp_total_on f data (set (datas ns))" and "NULL \<notin> set (datas ns)"
    and "set (addrs ns) \<inter> set (addrs ms) = {}" and "length ns + length ms < 2 ^ 32 - 1"
  shows "\<exists>h' l' ms'. find_all_loop (length ns) (Some f) data nl p h = Some (nl, h') \<and>
    list_rep h' nl l' ms' \<and> datas ms' = rev (filter (\<lambda>d. f data d = Some EQUAL) (datas ns)) @ datas ms \<and>
    heap_ok h' \<and> released h' = released h \<and> set (addrs ms') \<subseteq> set (addrs ms) \<union> {brk h..} \<and>
    (\<forall>a. a < brk h \<and> a \<notin> set (addrs ms) \<longrightarrow> nodes h' a = nodes h a) \<and>
    (\<forall>q. q \<noteq> nl \<longrightarrow> list_objs h' q = list_objs h q)"
  using assms
proof (induction ns arbitrary: pv p h l ms)
  case Nil
  then show ?case by auto
next
  case (Cons x ns)
  obtain a d where x: "x = (a, d)" by (cases x)
  obtain n where n: "nodes h p = Some n" "p \<noteq> NULL" "n_data n = d" "a = p" "dlseg (nodes h) p (n_next n) ns t NULL"
    using Cons.prems(1) dlseg_Cons_D unfolding x by blast
  obtain c where c: "f data d = Some c" using Cons.prems(5) unfolding x cmp_total_on_def by auto
  have tot: "cmp_total_on f data (set (datas ns))" "NULL \<notin> set (datas ns)" "d \<noteq> NULL"
    using Cons.prems(5,6) x by (auto simp: cmp_total_on_def)
  show ?case
  proof (cases "c = EQUAL")
    case False
    then have "find_all_loop (length (x # ns)) (Some f) data nl p h = find_all_loop (length ns) (Some f) data nl (n_next n) h"
      using n c by simp
    then show ?thesis using Cons.IH [OF n(5) Cons.prems(2,3,4) tot(1,2)] Cons.prems(7,8) x c False by simp
  next
    case True
    have "Suc (length ms) < 2 ^ 32" using Cons.prems(8) by simp
    then obtain h1 where h1: "list_push_head nl d h = Some (E_SUCCESS, h1)"
        "list_becomes h nl l (insert (brk h) (set (addrs ms))) ((brk h, d) # ms) [] h1"
        "plan h1 = alloc_rest (plan h)" "brk h1 = Suc (brk h)"
      using list_push_head_rep [OF Cons.prems(2,3) tot(3)] Cons.prems(4) by auto
    obtain l1 where l1: "list_rep h1 nl l1 ((brk h, d) # ms)" using h1(2) by (auto simp: list_becomes_def)
    have ns_lt: "\<forall>b \<in> set (addrs ns). b < brk h"
      using dlseg_allocated [OF n(5)] heap_ok_node_lt [OF Cons.prems(3)] by blast
    have fr: "\<And>b. b \<notin> insert (brk h) (set (addrs ms)) \<Longrightarrow> nodes h1 b = nodes h b"
      "\<And>q. q \<noteq> nl \<Longrightarrow> list_objs h1 q = list_objs h q" "heap_ok h1" "released h1 = released h"
      using h1(2) by (simp_all add: list_becomes_def frame_except_def)
    have seg: "dlseg (nodes h1) p (n_next n) ns t NULL"
      using n(5) by (rule dlseg_cong) (use fr(1) ns_lt Cons.prems(7) x in \<open>force\<close>)
    have disj: "set (addrs ns) \<inter> set (addrs ((brk h, d) # ms)) = {}"
      using ns_lt Cons.prems(7) x by auto
    have len: "length ns + length ((brk h, d) # ms) < 2 ^ 32 - 1" using Cons.prems(8) by simp
    obtain h' l' ms' where ih: "find_all_loop (length ns) (Some f) data nl (n_next n) h1 = Some (nl, h')"
      "list_rep h' nl l' ms'" "datas ms' = rev (filter (\<lambda>d. f data d = Some EQUAL) (datas ns)) @ datas ((brk h, d) # ms)"
      "heap_ok h'" "released h' = released h1" "set (addrs ms') \<subseteq> set (addrs ((brk h, d) # ms)) \<union> {brk h1..}"
      "\<forall>a. a < brk h1 \<and> a \<notin> set (addrs ((brk h, d) # ms)) \<longrightarrow> nodes h' a = nodes h1 a"
      "\<forall>q. q \<noteq> nl \<longrightarrow> list_objs h' q = list_objs h1 q"
      using Cons.IH [OF seg l1 fr(3) _ tot(1,2) disj len] h1(3) Cons.prems(4) by auto
    have "find_all_loop (length (x # ns)) (Some f) data nl p h = Some (nl, h')"
      using n c True h1(1) ih(1) by simp
    moreover have "datas ms' = rev (filter (\<lambda>d. f data d = Some EQUAL) (datas (x # ns))) @ datas ms"
      using ih(3) x c True by simp
    moreover have "set (addrs ms') \<subseteq> set (addrs ms) \<union> {brk h..}"
      using ih(6) h1(4) by auto
    moreover have "\<forall>a. a < brk h \<and> a \<notin> set (addrs ms) \<longrightarrow> nodes h' a = nodes h a"
      using ih(7) fr(1) h1(4) by auto
    moreover have "released h' = released h" "\<forall>q. q \<noteq> nl \<longrightarrow> list_objs h' q = list_objs h q"
      using ih(5,8) fr(2,4) by simp_all
    ultimately show ?thesis using ih(2,4) by blast
  qed
qed

end
