(* ===== verification/List_Sort.thy ===== *)
theory List_Sort
  imports Linked_List "HOL-Library.Multiset"
begin

text \<open>
  \<open>list_sort\<close> of DSA/linked_list/src/linked_list.c: the pointer-level merge sort (\<open>split\<close>
  by a slow and a fast pointer, \<open>merge\<close> by relinking), its functional counterpart on node
  sequences, and the refinement between the two.  Termination is part of the refinement: the
  pointer-level loops are \<open>partial_function (option)\<close> and are shown to return.
\<close>

section \<open>The pointer-level sort\<close>

partial_function (option) split_loop :: "list_heap \<Rightarrow> ptr \<Rightarrow> ptr \<Rightarrow> ptr option" where
  "split_loop h slow fast =
     (if fast = NULL then Some slow
      else do {
        f \<leftarrow> read_node fast h;
        let fast = n_next f;
        if fast \<noteq> NULL
        then do {
          s \<leftarrow> read_node slow h;
          f \<leftarrow> read_node fast h;
          split_loop h (n_next s) (n_next f) }
        else split_loop h slow fast })"

definition split_half :: "ptr \<Rightarrow> list_heap \<Rightarrow> (ptr \<times> ptr \<times> list_heap) option" where
  "split_half head h =
     do {
       n \<leftarrow> read_node head h;
       slow \<leftarrow> split_loop h head (n_next n);
       s \<leftarrow> read_node slow h;
       let first_half = head;
       let second_half = n_next s;
       h \<leftarrow> set_next slow NULL h;
       Some (first_half, second_half, h) }"

text \<open>The three statements both branches of \<open>merge\<close> end with: link the merged rest behind
  \<open>result\<close>.\<close>

definition link_result :: "ptr \<Rightarrow> ptr \<Rightarrow> list_heap \<Rightarrow> (ptr \<times> list_heap) option" where
  "link_result result rest h =
     do {
       h \<leftarrow> set_next result rest h;
       r \<leftarrow> read_node result h;
       h \<leftarrow> set_prev (n_next r) result h;
       h \<leftarrow> set_prev result NULL h;
       Some (result, h) }"

partial_function (option) merge :: "CMP_F option \<Rightarrow> ptr \<Rightarrow> ptr \<Rightarrow> list_heap \<Rightarrow> (ptr \<times> list_heap) option" where
  "merge compare_func first second h =
     (if first = NULL then Some (second, h)
      else if second = NULL then Some (first, h)
      else do {
        f \<leftarrow> read_node first h;
        s \<leftarrow> read_node second h;
        c \<leftarrow> call_cmp compare_func (n_data f) (n_data s);
        if c = LESS_THAN
        then do {
          (rest, h) \<leftarrow> merge compare_func (n_next f) second h;
          link_result first rest h }
        else do {
          (rest, h) \<leftarrow> merge compare_func first (n_next s) h;
          link_result second rest h } })"

partial_function (option) merge_sort :: "CMP_F option \<Rightarrow> ptr \<Rightarrow> list_heap \<Rightarrow> (ptr \<times> list_heap) option" where
  "merge_sort compare_func head h =
     (if head = NULL then Some (head, h)
      else do {
        n \<leftarrow> read_node head h;
        if n_next n = NULL then Some (head, h)
        else do {
          (first_half, second_half, h) \<leftarrow> split_half head h;
          (first_half, h) \<leftarrow> merge_sort compare_func first_half h;
          (second_half, h) \<leftarrow> merge_sort compare_func second_half h;
          merge compare_func first_half second_half h } })"

definition list_sort :: "ptr \<Rightarrow> list_heap \<Rightarrow> (int \<times> list_heap) option" where
  "list_sort list h =
     (if list = NULL then Some (E_NULL_POINTER, h)
      else do {
        l \<leftarrow> read_list list h;
        (head, h) \<leftarrow> merge_sort (l_compare_func l) (l_head l) h;
        h \<leftarrow> set_head list head h;
        Some (E_SUCCESS, h) })"

declare split_loop.simps [code] merge.simps [code] merge_sort.simps [code]

section \<open>The functional sort\<close>

fun lmerge :: "(ptr \<Rightarrow> ptr \<Rightarrow> bool) \<Rightarrow> node_seq \<Rightarrow> node_seq \<Rightarrow> node_seq" where
  "lmerge lt [] ys = ys"
| "lmerge lt (x # xs) [] = x # xs"
| "lmerge lt (x # xs) (y # ys) =
     (if lt (snd x) (snd y) then x # lmerge lt xs (y # ys) else y # lmerge lt (x # xs) ys)"

definition half :: "'a list \<Rightarrow> nat" where
  "half xs = (length xs + 1) div 2"

function lmsort :: "(ptr \<Rightarrow> ptr \<Rightarrow> bool) \<Rightarrow> node_seq \<Rightarrow> node_seq" where
  "lmsort lt xs =
     (if length xs \<le> 1 then xs
      else lmerge lt (lmsort lt (take (half xs) xs)) (lmsort lt (drop (half xs) xs)))"
  by pat_completeness auto
termination
  by (relation "measure (\<lambda>(lt, xs). length xs)") (auto simp: half_def)

declare lmsort.simps [simp del]

lemma mset_lmerge [simp]: "mset (lmerge lt xs ys) = mset xs + mset ys"
  by (induction lt xs ys rule: lmerge.induct) auto

lemma set_lmerge [simp]: "set (lmerge lt xs ys) = set xs \<union> set ys"
  by (metis mset_lmerge set_mset_mset set_mset_union)

lemma lmerge_eq_Nil [simp]: "lmerge lt xs ys = [] \<longleftrightarrow> xs = [] \<and> ys = []"
  by (metis mset_lmerge mset_zero_iff union_eq_empty)

lemma mset_lmsort [simp]: "mset (lmsort lt xs) = mset xs"
proof (induction lt xs rule: lmsort.induct)
  case (1 lt xs)
  show ?case
  proof (cases "length xs \<le> 1")
    case False
    then have "mset (lmsort lt xs) = mset (take (half xs) xs) + mset (drop (half xs) xs)"
      using 1 by (simp add: lmsort.simps [of lt xs])
    then show ?thesis by (simp flip: mset_append)
  qed (simp add: lmsort.simps [of lt xs])
qed

lemma set_lmsort [simp]: "set (lmsort lt xs) = set xs"
  by (metis mset_lmsort set_mset_mset)

lemma length_lmsort [simp]: "length (lmsort lt xs) = length xs"
  by (metis mset_lmsort size_mset)

text \<open>With a comparator, the sort orders the nodes by the key of their data.\<close>

context comparator
begin

abbreviation lt :: "ptr \<Rightarrow> ptr \<Rightarrow> bool" where
  "lt a b \<equiv> cmp a b = Some LESS_THAN"

lemma sorted_lmerge:
  "set (datas xs) \<subseteq> valid \<Longrightarrow> set (datas ys) \<subseteq> valid \<Longrightarrow>
   sorted (map key (datas xs)) \<Longrightarrow> sorted (map key (datas ys)) \<Longrightarrow>
   sorted (map key (datas (lmerge lt xs ys)))"
proof (induction lt xs ys rule: lmerge.induct)
  case (3 x xs y ys)
  then show ?case by (cases x; cases y) (auto simp: cmp_less_iff not_less)
qed auto

lemma sorted_lmsort:
  "set (datas xs) \<subseteq> valid \<Longrightarrow> sorted (map key (datas (lmsort lt xs)))"
proof (induction lt xs rule: lmsort.induct)
  case (1 xs)
  show ?case
  proof (cases "length xs \<le> 1")
    case True
    then show ?thesis by (cases xs) (auto simp: lmsort.simps)
  next
    case False
    have "set (datas (take (half xs) xs)) \<subseteq> valid" "set (datas (drop (half xs) xs)) \<subseteq> valid"
      using 1(3) set_take_subset [of "half xs" xs] set_drop_subset [of "half xs" xs] by fastforce+
    then have "sorted (map key (datas (lmerge lt (lmsort lt (take (half xs) xs)) (lmsort lt (drop (half xs) xs)))))"
      using 1(1,2) False by (intro sorted_lmerge) auto
    with False show ?thesis by (subst lmsort.simps) simp
  qed
qed

end

section \<open>The refinement\<close>

lemma dlseg_head_node:
  assumes "dlseg H pv p (x # xs) l q"
  obtains n where "H p = Some n" and "p \<noteq> NULL" and "fst x = p" and "n_data n = snd x"
    and "n_prev n = pv" and "dlseg H p (n_next n) xs l q"
  using assms dlseg_Cons_D [of H pv p "fst x" "snd x" xs l q] by auto

lemma split_loop_dlseg:
  assumes "dlseg (nodes h) pv p cs l NULL" and "dlseg (nodes h) pv' q fs l' NULL"
    and "length fs div 2 < length cs"
  shows "split_loop h p q = Some (fst (cs ! (length fs div 2)))"
  using assms
proof (induction fs arbitrary: pv p pv' q cs rule: induct_list012)
  case 1
  then show ?case by (subst split_loop.simps) (cases cs; auto)
next
  case (2 x)
  obtain n where n: "nodes h q = Some n" "q \<noteq> NULL" "n_next n = NULL"
    using 2(2) by (elim dlseg_head_node) auto
  have "split_loop h p q = split_loop h p NULL"
    using n by (subst split_loop.simps) simp
  also have "\<dots> = Some p" by (subst split_loop.simps) simp
  finally show ?case using 2 by (cases cs) auto
next
  case (3 x y fs)
  obtain n where n: "nodes h q = Some n" "q \<noteq> NULL" "dlseg (nodes h) q (n_next n) (y # fs) l' NULL"
    using 3(4) by (rule dlseg_head_node)
  obtain m where m: "nodes h (n_next n) = Some m" "n_next n \<noteq> NULL"
      "dlseg (nodes h) (n_next n) (n_next m) fs l' NULL"
    using n(3) by (rule dlseg_head_node)
  obtain c cs' where cs: "cs = c # cs'" using 3(5) by (cases cs) auto
  obtain s where s: "nodes h p = Some s" "p \<noteq> NULL" "dlseg (nodes h) p (n_next s) cs' l NULL"
    using 3(3) unfolding cs by (rule dlseg_head_node)
  have "split_loop h p q = split_loop h (n_next s) (n_next m)"
    using n m s by (subst split_loop.simps) simp
  also have "\<dots> = Some (fst (cs' ! (length fs div 2)))"
    by (rule 3(1) [OF s(3) m(3)]) (use 3(5) cs in simp)
  finally show ?case using cs by simp
qed

lemma split_half_dlseg:
  assumes seg: "dlseg (nodes h) pv p ns l NULL" and dist: "distinct (addrs ns)" and len: "2 \<le> length ns"
  shows "\<exists>b m h'. split_half p h = Some (p, b, h') \<and>
    dlseg (nodes h') pv p (take (half ns) ns) m NULL \<and> dlseg (nodes h') m b (drop (half ns) ns) l NULL \<and>
    (\<forall>a. a \<notin> set (addrs ns) \<longrightarrow> nodes h' a = nodes h a) \<and> h' = h\<lparr>nodes := nodes h'\<rparr>"
proof -
  obtain x ys where ns: "ns = x # ys" using len by (cases ns) auto
  obtain n where n: "nodes h p = Some n" "p \<noteq> NULL" "dlseg (nodes h) p (n_next n) ys l NULL"
    using seg unfolding ns by (rule dlseg_head_node)
  have k: "half ns = Suc (length ys div 2)" "half ns \<le> length ns" "half ns \<noteq> 0"
    using ns by (simp_all add: half_def)
  have lt: "length ys div 2 < length ns" using ns by simp
  let ?m = "fst (ns ! (length ys div 2))"
  have sl: "split_loop h p (n_next n) = Some ?m"
    by (rule split_loop_dlseg [OF seg n(3) lt])
  obtain m b where mb: "dlseg (nodes h) pv p (take (half ns) ns) m b" "dlseg (nodes h) m b (drop (half ns) ns) l NULL"
    using seg by (metis append_take_drop_id dlseg_append)
  have ne: "take (half ns) ns \<noteq> []" using k ns by simp
  have "last (take (half ns) ns) = ns ! (length ys div 2)"
    using k lt by (simp add: take_Suc_conv_app_nth)
  then have m: "m = ?m" using dlseg_last [OF mb(1) ne] by simp
  obtain s where s: "nodes h m = Some s" "m \<noteq> NULL" "n_next s = b"
    using dlseg_last_node [OF mb(1) ne] by blast
  let ?h = "h\<lparr>nodes := (nodes h)(m \<mapsto> s\<lparr>n_next := NULL\<rparr>)\<rparr>"
  have eq: "split_half p h = Some (p, b, ?h)"
    using n sl s m by (simp add: split_half_def)
  have d2: "distinct (addrs (take (half ns) ns))" using dist by (metis append_take_drop_id distinct_append map_append)
  have 1: "dlseg (nodes ?h) pv p (take (half ns) ns) m NULL"
    using dlseg_set_last_next [OF mb(1) ne d2 s(1), of NULL] by simp
  have min: "m \<in> set (addrs (take (half ns) ns))"
    using dlseg_last [OF mb(1) ne] ne by simp
  have "m \<notin> set (addrs (drop (half ns) ns))"
    using dist min by (metis append_take_drop_id disjoint_iff distinct_append map_append)
  then have 2: "dlseg (nodes ?h) m b (drop (half ns) ns) l NULL" using mb(2) by simp
  have "m \<in> set (addrs ns)" using min by (metis in_set_takeD take_map)
  with eq 1 2 show ?thesis by (intro exI [of _ b] exI [of _ m] exI [of _ ?h]) auto
qed

lemma link_result_dlseg:
  assumes seg: "dlseg (nodes h) pv r zs l NULL" and ne: "zs \<noteq> []" and dist: "distinct (addrs zs)"
    and a: "nodes h a = Some n" "a \<noteq> NULL" "n_data n = d" "a \<notin> set (addrs zs)"
  shows "\<exists>h'. link_result a r h = Some (a, h') \<and> dlseg (nodes h') NULL a ((a, d) # zs) l NULL \<and>
    (\<forall>c. c \<notin> insert a (set (addrs zs)) \<longrightarrow> nodes h' c = nodes h c) \<and> h' = h\<lparr>nodes := nodes h'\<rparr>"
proof -
  obtain nr where nr: "nodes h r = Some nr" "r \<noteq> NULL" using dlseg_first_node [OF seg ne] by blast
  have rin: "r \<in> set (addrs zs)" using dlseg_head [OF seg ne] ne by simp
  have ar: "a \<noteq> r" using rin a(4) by metis
  let ?N = "(nodes h)(r \<mapsto> nr\<lparr>n_prev := a\<rparr>, a \<mapsto> n\<lparr>n_next := r, n_prev := NULL\<rparr>)"
  have eq: "link_result a r h = Some (a, h\<lparr>nodes := ?N\<rparr>)"
    using a nr ar by (simp add: link_result_def fun_upd_twist)
  have "dlseg ?N a r zs l NULL"
    using dlseg_set_first_prev [OF seg ne dist nr(1), of a] a(4) by simp
  then have "dlseg ?N NULL a ((a, d) # zs) l NULL" using a by simp
  with eq rin show ?thesis by (intro exI [of _ "h\<lparr>nodes := ?N\<rparr>"]) auto
qed

definition cmp_total :: "CMP_F \<Rightarrow> ptr set \<Rightarrow> bool" where
  "cmp_total f D \<longleftrightarrow> (\<forall>a \<in> D. \<forall>b \<in> D. \<exists>c. f a b = Some c)"

lemma distinct_lmerge: "distinct (addrs (lmerge lt xs ys)) \<longleftrightarrow> distinct (addrs (xs @ ys))"
  by (rule mset_eq_imp_distinct_iff) (simp add: mset_map)

lemma distinct_lmsort: "distinct (addrs (lmsort lt xs)) \<longleftrightarrow> distinct (addrs xs)"
  by (rule mset_eq_imp_distinct_iff) (simp add: mset_map)

lemma merge_dlseg:
  assumes "dlseg (nodes h) pa a xs la NULL" and "dlseg (nodes h) pb b ys lb NULL"
    and "distinct (addrs (xs @ ys))" and "cmp_total f (set (datas (xs @ ys)))"
  shows "\<exists>r h' pr lr. merge (Some f) a b h = Some (r, h') \<and>
    dlseg (nodes h') pr r (lmerge (\<lambda>d e. f d e = Some LESS_THAN) xs ys) lr NULL \<and>
    (xs \<noteq> [] \<longrightarrow> ys \<noteq> [] \<longrightarrow> pr = NULL) \<and>
    (\<forall>c. c \<notin> set (addrs (xs @ ys)) \<longrightarrow> nodes h' c = nodes h c) \<and> h' = h\<lparr>nodes := nodes h'\<rparr>"
  using assms
proof (induction "\<lambda>d e. f d e = Some LESS_THAN" xs ys arbitrary: pa a pb b rule: lmerge.induct)
  case (1 ys)
  then show ?case by (subst merge.simps) auto
next
  case (2 x xs)
  then show ?case by (subst merge.simps) auto
next
  case (3 x xs y ys)
  let ?lt = "\<lambda>d e. f d e = Some LESS_THAN"
  obtain n where n: "nodes h a = Some n" "a \<noteq> NULL" "fst x = a" "n_data n = snd x" "dlseg (nodes h) a (n_next n) xs la NULL"
    using 3(3) by (rule dlseg_head_node)
  obtain m where m: "nodes h b = Some m" "b \<noteq> NULL" "fst y = b" "n_data m = snd y" "dlseg (nodes h) b (n_next m) ys lb NULL"
    using 3(4) by (rule dlseg_head_node)
  obtain c where c: "f (snd x) (snd y) = Some c" using 3(6) by (auto simp: cmp_total_def)
  show ?case
  proof (cases "c = LESS_THAN")
    case True
    then have lt: "?lt (snd x) (snd y)" using c by simp
    obtain r h1 pr lr where ih: "merge (Some f) (n_next n) b h = Some (r, h1)"
        "dlseg (nodes h1) pr r (lmerge ?lt xs (y # ys)) lr NULL"
        "\<forall>c. c \<notin> set (addrs (xs @ y # ys)) \<longrightarrow> nodes h1 c = nodes h c" "h1 = h\<lparr>nodes := nodes h1\<rparr>"
      using 3(1) [OF lt n(5) 3(4)] 3(5,6) by (auto simp: cmp_total_def)
    let ?zs = "lmerge ?lt xs (y # ys)"
    have xin: "a \<notin> set (addrs ?zs)" "nodes h1 a = Some n" using 3(5) n(1,3) ih(3) by auto
    have dz: "distinct (addrs ?zs)" using 3(5) by (simp add: distinct_lmerge)
    obtain h2 where h2: "link_result a r h1 = Some (a, h2)" "dlseg (nodes h2) NULL a ((a, snd x) # ?zs) lr NULL"
        "\<forall>c. c \<notin> insert a (set (addrs ?zs)) \<longrightarrow> nodes h2 c = nodes h1 c" "h2 = h1\<lparr>nodes := nodes h2\<rparr>"
      using link_result_dlseg [OF ih(2) _ dz xin(2) n(2,4) xin(1)] by auto
    have "merge (Some f) a b h = Some (a, h2)"
      using n m c True ih(1) h2(1) by (subst merge.simps) simp
    moreover have "dlseg (nodes h2) NULL a (lmerge ?lt (x # xs) (y # ys)) lr NULL"
      using h2(2) lt n(3) by (cases x) simp
    moreover have "\<forall>c. c \<notin> set (addrs ((x # xs) @ y # ys)) \<longrightarrow> nodes h2 c = nodes h c"
      using h2(3) ih(3) n(3) by auto
    moreover have "h2 = h\<lparr>nodes := nodes h2\<rparr>" using h2(4) ih(4) by (metis list_heap.update_convs(1) list_heap.surjective)
    ultimately show ?thesis by blast
  next
    case False
    then have lt: "\<not> ?lt (snd x) (snd y)" using c by simp
    obtain r h1 pr lr where ih: "merge (Some f) a (n_next m) h = Some (r, h1)"
        "dlseg (nodes h1) pr r (lmerge ?lt (x # xs) ys) lr NULL"
        "\<forall>c. c \<notin> set (addrs ((x # xs) @ ys)) \<longrightarrow> nodes h1 c = nodes h c" "h1 = h\<lparr>nodes := nodes h1\<rparr>"
      using 3(2) [OF lt 3(3) m(5)] 3(5,6) by (auto simp: cmp_total_def)
    let ?zs = "lmerge ?lt (x # xs) ys"
    have yin: "b \<notin> set (addrs ?zs)" "nodes h1 b = Some m" using 3(5) m(1,3) ih(3) by auto
    have dz: "distinct (addrs ?zs)" using 3(5) by (simp add: distinct_lmerge)
    obtain h2 where h2: "link_result b r h1 = Some (b, h2)" "dlseg (nodes h2) NULL b ((b, snd y) # ?zs) lr NULL"
        "\<forall>c. c \<notin> insert b (set (addrs ?zs)) \<longrightarrow> nodes h2 c = nodes h1 c" "h2 = h1\<lparr>nodes := nodes h2\<rparr>"
      using link_result_dlseg [OF ih(2) _ dz yin(2) m(2,4) yin(1)] by auto
    have "merge (Some f) a b h = Some (b, h2)"
      using n m c False ih(1) h2(1) by (subst merge.simps) simp
    moreover have "dlseg (nodes h2) NULL b (lmerge ?lt (x # xs) (y # ys)) lr NULL"
      using h2(2) lt m(3) by (cases y) simp
    moreover have "\<forall>c. c \<notin> set (addrs ((x # xs) @ y # ys)) \<longrightarrow> nodes h2 c = nodes h c"
      using h2(3) ih(3) m(3) by auto
    moreover have "h2 = h\<lparr>nodes := nodes h2\<rparr>" using h2(4) ih(4) by (metis list_heap.update_convs(1) list_heap.surjective)
    ultimately show ?thesis by blast
  qed
qed

lemma nodes_frame_trans:
  "h1 = h\<lparr>nodes := nodes h1\<rparr> \<Longrightarrow> h2 = h1\<lparr>nodes := nodes h2\<rparr> \<Longrightarrow> h2 = h\<lparr>nodes := nodes h2\<rparr>"
  by (metis list_heap.surjective list_heap.update_convs(1))

lemma merge_sort_short:
  assumes "dlseg (nodes h) pv p ns l NULL" and "length ns \<le> 1"
  shows "merge_sort fo p h = Some (p, h)"
proof (cases ns)
  case Nil
  then show ?thesis using assms(1) by (subst merge_sort.simps) simp
next
  case (Cons x xs)
  obtain n where "nodes h p = Some n" "p \<noteq> NULL" "n_next n = NULL"
    using assms Cons dlseg_head_node [of "nodes h" pv p x xs l NULL] by auto
  then show ?thesis by (subst merge_sort.simps) simp
qed

lemma cmp_total_mono: "cmp_total f D \<Longrightarrow> D' \<subseteq> D \<Longrightarrow> cmp_total f D'"
  by (auto simp: cmp_total_def)

lemma halves:
  assumes "2 \<le> length ns" and "distinct (addrs ns)" and "cmp_total f (set (datas ns))"
  shows "length (take (half ns) ns) < length ns" and "length (drop (half ns) ns) < length ns"
    and "take (half ns) ns \<noteq> []" and "drop (half ns) ns \<noteq> []"
    and "distinct (addrs (take (half ns) ns))" and "distinct (addrs (drop (half ns) ns))"
    and "set (addrs (take (half ns) ns)) \<inter> set (addrs (drop (half ns) ns)) = {}"
    and "cmp_total f (set (datas (take (half ns) ns)))" and "cmp_total f (set (datas (drop (half ns) ns)))"
proof -
  show "length (take (half ns) ns) < length ns" "length (drop (half ns) ns) < length ns"
    "take (half ns) ns \<noteq> []" "drop (half ns) ns \<noteq> []"
    using assms(1) by (auto simp: half_def)
  have "distinct (addrs (take (half ns) ns @ drop (half ns) ns))" using assms(2) by simp
  then show "distinct (addrs (take (half ns) ns))" "distinct (addrs (drop (half ns) ns))"
    "set (addrs (take (half ns) ns)) \<inter> set (addrs (drop (half ns) ns)) = {}"
    by (simp_all only: map_append distinct_append)
  show "cmp_total f (set (datas (take (half ns) ns)))"
    by (rule cmp_total_mono [OF assms(3)]) (simp add: image_mono set_take_subset)
  show "cmp_total f (set (datas (drop (half ns) ns)))"
    by (rule cmp_total_mono [OF assms(3)]) (simp add: image_mono set_drop_subset)
qed

lemma merge_sort_dlseg:
  assumes "dlseg (nodes h) pv p ns l NULL" and "distinct (addrs ns)" and "cmp_total f (set (datas ns))"
  shows "\<exists>r h' pr lr. merge_sort (Some f) p h = Some (r, h') \<and>
    dlseg (nodes h') pr r (lmsort (\<lambda>d e. f d e = Some LESS_THAN) ns) lr NULL \<and>
    (pv = NULL \<longrightarrow> pr = NULL) \<and>
    (\<forall>c. c \<notin> set (addrs ns) \<longrightarrow> nodes h' c = nodes h c) \<and> h' = h\<lparr>nodes := nodes h'\<rparr>"
  using assms
proof (induction "length ns" arbitrary: ns pv p l h rule: less_induct)
  case less
  let ?lt = "\<lambda>d e. f d e = Some LESS_THAN"
  show ?case
  proof (cases "length ns \<le> 1")
    case True
    with less.prems(1) have "merge_sort (Some f) p h = Some (p, h)" by (rule merge_sort_short)
    then show ?thesis using less.prems(1) True by (auto simp: lmsort.simps [of ?lt ns])
  next
    case False
    then have len: "2 \<le> length ns" by simp
    obtain x xs where ns: "ns = x # xs" using len by (cases ns) auto
    obtain n where n: "nodes h p = Some n" "p \<noteq> NULL" "dlseg (nodes h) p (n_next n) xs l NULL"
      using less.prems(1) unfolding ns by (rule dlseg_head_node)
    have nn: "n_next n \<noteq> NULL" using dlseg_start_eq [OF n(3)] len ns by auto
    let ?A = "take (half ns) ns" and ?B = "drop (half ns) ns"
    note H = halves [OF len less.prems(2,3)]
    have AB: "?A @ ?B = ns" by simp
    obtain b m h1 where s: "split_half p h = Some (p, b, h1)" "dlseg (nodes h1) pv p ?A m NULL"
        "dlseg (nodes h1) m b ?B l NULL" "\<forall>a. a \<notin> set (addrs ns) \<longrightarrow> nodes h1 a = nodes h a" "h1 = h\<lparr>nodes := nodes h1\<rparr>"
      using split_half_dlseg [OF less.prems(1,2) len] by blast
    obtain r1 h2 p1 l1 where A: "merge_sort (Some f) p h1 = Some (r1, h2)"
        "dlseg (nodes h2) p1 r1 (lmsort ?lt ?A) l1 NULL"
        "\<forall>c. c \<notin> set (addrs ?A) \<longrightarrow> nodes h2 c = nodes h1 c" "h2 = h1\<lparr>nodes := nodes h2\<rparr>"
      using less.hyps [OF H(1) s(2) H(5) H(8)] by blast
    have "dlseg (nodes h2) m b ?B l NULL"
      using s(3) by (rule dlseg_cong) (use A(3) H(7) in blast)
    then obtain r2 h3 p2 l2 where B: "merge_sort (Some f) b h2 = Some (r2, h3)"
        "dlseg (nodes h3) p2 r2 (lmsort ?lt ?B) l2 NULL"
        "\<forall>c. c \<notin> set (addrs ?B) \<longrightarrow> nodes h3 c = nodes h2 c" "h3 = h2\<lparr>nodes := nodes h3\<rparr>"
      using less.hyps [OF H(2) _ H(6) H(9)] by blast
    have A': "dlseg (nodes h3) p1 r1 (lmsort ?lt ?A) l1 NULL"
      using A(2) by (rule dlseg_cong) (use B(3) H(7) in auto)
    have dm: "distinct (addrs (lmsort ?lt ?A @ lmsort ?lt ?B))"
      using H(5-7) by (simp add: distinct_lmsort)
    have tm: "cmp_total f (set (datas (lmsort ?lt ?A @ lmsort ?lt ?B)))"
    proof (rule cmp_total_mono [OF less.prems(3)])
      show "set (datas (lmsort ?lt ?A @ lmsort ?lt ?B)) \<subseteq> set (datas ns)"
        by (auto dest: in_set_takeD in_set_dropD)
    qed
    have ne: "lmsort ?lt ?A \<noteq> []" "lmsort ?lt ?B \<noteq> []"
      using H(3,4) by (metis length_lmsort length_0_conv)+
    obtain r h4 lr where M: "merge (Some f) r1 r2 h3 = Some (r, h4)"
        "dlseg (nodes h4) NULL r (lmerge ?lt (lmsort ?lt ?A) (lmsort ?lt ?B)) lr NULL"
        "\<forall>c. c \<notin> set (addrs (lmsort ?lt ?A @ lmsort ?lt ?B)) \<longrightarrow> nodes h4 c = nodes h3 c" "h4 = h3\<lparr>nodes := nodes h4\<rparr>"
      using merge_dlseg [OF A' B(2) dm tm] ne by blast
    have "merge_sort (Some f) p h = Some (r, h4)"
      using n nn s(1) A(1) B(1) M(1) by (subst merge_sort.simps) simp
    moreover have "lmsort ?lt ns = lmerge ?lt (lmsort ?lt ?A) (lmsort ?lt ?B)"
      using False by (subst lmsort.simps) simp
    moreover have "\<forall>c. c \<notin> set (addrs ns) \<longrightarrow> nodes h4 c = nodes h c"
    proof (intro allI impI)
      fix c assume c: "c \<notin> set (addrs ns)"
      then have "c \<notin> set (addrs ?A)" "c \<notin> set (addrs ?B)" using AB by (metis Un_iff map_append set_append)+
      then show "nodes h4 c = nodes h c" using M(3) B(3) A(3) s(4) c by simp
    qed
    moreover have "h4 = h\<lparr>nodes := nodes h4\<rparr>"
      using s(5) A(4) B(4) M(4) nodes_frame_trans by metis
    ultimately show ?thesis using M(2) by auto
  qed
qed

lemma dlseg_det:
  "dlseg H pv p ns l NULL \<Longrightarrow> dlseg H pv p ns' l' NULL \<Longrightarrow> ns = ns' \<and> l = l'"
proof (induction ns arbitrary: pv p ns')
  case Nil
  then show ?case by (cases ns') auto
next
  case (Cons x xs)
  then show ?case by (cases x; cases ns') (fastforce split: option.splits)+
qed

lemma list_sort_rep:
  assumes rep: "list_rep h lp l ns" and f: "l_compare_func l = Some f" and tot: "cmp_total f (set (datas ns))"
  defines "ss \<equiv> lmsort (\<lambda>d e. f d e = Some LESS_THAN) ns"
  shows "\<exists>h' hd' tl'. list_sort lp h = Some (E_SUCCESS, h') \<and>
    list_objs h' = (list_objs h)(lp \<mapsto> l\<lparr>l_head := hd'\<rparr>) \<and>
    dlseg (nodes h') NULL hd' ss tl' NULL \<and>
    frame_except (set (addrs ns)) lp h h' \<and> released h' = released h \<and> acted h' = acted h \<and> brk h' = brk h"
proof -
  obtain r h1 lr where m: "merge_sort (Some f) (l_head l) h = Some (r, h1)" "dlseg (nodes h1) NULL r ss lr NULL"
      "\<forall>c. c \<notin> set (addrs ns) \<longrightarrow> nodes h1 c = nodes h c" "h1 = h\<lparr>nodes := nodes h1\<rparr>"
    using merge_sort_dlseg [OF list_repD(3,4) [OF rep] tot] unfolding ss_def by blast
  have lo: "list_objs h1 = list_objs h" "released h1 = released h" "acted h1 = acted h" "brk h1 = brk h"
    by (subst m(4), simp)+
  let ?h = "h1\<lparr>list_objs := (list_objs h1)(lp \<mapsto> l\<lparr>l_head := r\<rparr>)\<rparr>"
  have "list_sort lp h = Some (E_SUCCESS, ?h)"
    using m(1) f lo list_repD(1,2) [OF rep] by (simp add: list_sort_def)
  with m lo show ?thesis
    by (intro exI [of _ ?h] exI [of _ r] exI [of _ lr]) (simp add: frame_except_def)
qed

text \<open>The sorted list object is a proper list again exactly when the node that was last before
  sorting is still the last one, because \<open>tail\<close> is not updated.\<close>

lemma list_sort_tail:
  assumes rep: "list_rep h lp l ns" and f: "l_compare_func l = Some f" and tot: "cmp_total f (set (datas ns))"
    and ne: "ns \<noteq> []" and run: "list_sort lp h = Some (rc, h')"
  shows "(\<exists>l' ns'. list_rep h' lp l' ns') \<longleftrightarrow>
    fst (last (lmsort (\<lambda>d e. f d e = Some LESS_THAN) ns)) = fst (last ns)"
    (is "?L \<longleftrightarrow> fst (last ?ss) = _")
proof -
  obtain hd' tl' where s: "list_objs h' = (list_objs h)(lp \<mapsto> l\<lparr>l_head := hd'\<rparr>)"
      "dlseg (nodes h') NULL hd' ?ss tl' NULL"
    using list_sort_rep [OF rep f tot] run by auto
  have ss: "?ss \<noteq> []" using ne by (metis length_lmsort length_0_conv)
  have tl': "tl' = fst (last ?ss)" using dlseg_last [OF s(2) ss] .
  have tl: "l_tail l = fst (last ns)" using dlseg_last [OF list_repD(3) [OF rep] ne] .
  have dist: "distinct (addrs ?ss)" using list_repD(4) [OF rep] by (simp add: distinct_lmsort)
  show ?thesis
  proof
    assume "fst (last ?ss) = fst (last ns)"
    then have "list_rep h' lp (l\<lparr>l_head := hd'\<rparr>) ?ss"
      using s tl tl' dist list_repD [OF rep] by (simp add: list_rep_def)
    then show ?L by blast
  next
    assume ?L
    then obtain ns' where "list_rep h' lp (l\<lparr>l_head := hd'\<rparr>) ns'" using s(1) by (auto simp: list_rep_def)
    then have d: "dlseg (nodes h') NULL hd' ns' (l_tail l) NULL" by (simp add: list_rep_def)
    have "ns' = ?ss \<and> l_tail l = tl'" by (rule dlseg_det [OF d s(2)])
    then show "fst (last ?ss) = fst (last ns)" using tl tl' by simp
  qed
qed

end
