(* ===== verification/Refinement.thy ===== *)
theory Refinement
  imports Main
begin

text \<open>
  The interface between a container's model and its abstract specification.  An operation of the
  model may be undefined (\<open>None\<close>); one of the specification is total.  If every allowed
  operation of the model is defined, returns what the specification returns and keeps the
  abstraction relation, then so does every sequence of allowed operations.
\<close>

fun run_model :: "('op \<Rightarrow> 'c \<Rightarrow> ('out \<times> 'c) option) \<Rightarrow> 'op list \<Rightarrow> 'c \<Rightarrow> ('out list \<times> 'c) option" where
  "run_model step [] c = Some ([], c)"
| "run_model step (o1 # os) c =
     (case step o1 c of
        None \<Rightarrow> None
      | Some (r, c') \<Rightarrow>
          (case run_model step os c' of None \<Rightarrow> None | Some (rs, c'') \<Rightarrow> Some (r # rs, c'')))"

fun run_spec :: "('op \<Rightarrow> 'a \<Rightarrow> 'out \<times> 'a) \<Rightarrow> 'op list \<Rightarrow> 'a \<Rightarrow> 'out list \<times> 'a" where
  "run_spec step [] a = ([], a)"
| "run_spec step (o1 # os) a =
     (let (r, a') = step o1 a; (rs, a'') = run_spec step os a' in (r # rs, a''))"

fun allowed_run :: "('op \<Rightarrow> 'a \<Rightarrow> bool) \<Rightarrow> ('op \<Rightarrow> 'a \<Rightarrow> 'out \<times> 'a) \<Rightarrow> 'op list \<Rightarrow> 'a \<Rightarrow> bool" where
  "allowed_run ok step [] a = True"
| "allowed_run ok step (o1 # os) a = (ok o1 a \<and> allowed_run ok step os (snd (step o1 a)))"

lemma allowed_run_all: "(\<And>o1 a. ok o1 a) \<Longrightarrow> allowed_run ok step os a"
  by (induction os arbitrary: a) auto

locale refinement =
  fixes cstep :: "'op \<Rightarrow> 'c \<Rightarrow> ('out \<times> 'c) option"
    and astep :: "'op \<Rightarrow> 'a \<Rightarrow> 'out \<times> 'a"
    and ok :: "'op \<Rightarrow> 'a \<Rightarrow> bool"
    and rel :: "'c \<Rightarrow> 'a \<Rightarrow> bool"
  assumes step_refines: "rel c a \<Longrightarrow> ok o1 a \<Longrightarrow>
    \<exists>c'. cstep o1 c = Some (fst (astep o1 a), c') \<and> rel c' (snd (astep o1 a))"
begin

lemma run_refines:
  "rel c a \<Longrightarrow> allowed_run ok astep os a \<Longrightarrow>
   \<exists>c'. run_model cstep os c = Some (fst (run_spec astep os a), c') \<and> rel c' (snd (run_spec astep os a))"
proof (induction os arbitrary: c a)
  case Nil
  then show ?case by simp
next
  case (Cons o1 os)
  obtain c1 where c1: "cstep o1 c = Some (fst (astep o1 a), c1)" "rel c1 (snd (astep o1 a))"
    using step_refines [of c a o1] Cons.prems by auto
  obtain c2 where "run_model cstep os c1 = Some (fst (run_spec astep os (snd (astep o1 a))), c2)"
      "rel c2 (snd (run_spec astep os (snd (astep o1 a))))"
    using Cons.IH [OF c1(2)] Cons.prems(2) by auto
  with c1 show ?case by (auto split: prod.splits)
qed

lemma run_defined: "rel c a \<Longrightarrow> allowed_run ok astep os a \<Longrightarrow> run_model cstep os c \<noteq> None"
  using run_refines by fastforce

end

end
