(* ===== verification/List_Spec.thy ===== *)
theory List_Spec
  imports List_Sort Refinement
begin

text \<open>
  The linked list as an abstract double-ended sequence: the operations at its two ends and at a
  position refine operations on a HOL list of data pointers, for every sequence of calls.
  The search for all occurrences and the sort, which build on them, are characterised here too.
\<close>

section \<open>The abstract sequence\<close>

datatype list_op =
    Push_head ptr | Push_tail ptr | Push_position ptr nat
  | Pop_head | Pop_tail | Peek_head | Peek_tail | Peek_position nat | Is_empty_list

datatype list_out = L_code int | L_data ptr

fun list_spec :: "list_op \<Rightarrow> ptr list \<Rightarrow> list_out \<times> ptr list" where
  "list_spec (Push_head d) ds = (L_code E_SUCCESS, d # ds)"
| "list_spec (Push_tail d) ds = (L_code E_SUCCESS, ds @ [d])"
| "list_spec (Push_position d i) ds = (L_code E_SUCCESS, take i ds @ d # drop i ds)"
| "list_spec Pop_head ds = (if ds = [] then (L_data NULL, []) else (L_data (hd ds), tl ds))"
| "list_spec Pop_tail ds = (if ds = [] then (L_data NULL, []) else (L_data (last ds), butlast ds))"
| "list_spec Peek_head ds = (L_data (if ds = [] then NULL else hd ds), ds)"
| "list_spec Peek_tail ds = (L_data (if ds = [] then NULL else last ds), ds)"
| "list_spec (Peek_position i) ds = (L_data (ds ! i), ds)"
| "list_spec Is_empty_list ds = (L_code (if ds = [] then E_SUCCESS else E_FAILURE), ds)"

text \<open>NULL is no data, positions lie inside the list, and the 32-bit size does not wrap.\<close>

fun list_ok :: "list_op \<Rightarrow> ptr list \<Rightarrow> bool" where
  "list_ok (Push_head d) ds = (d \<noteq> NULL \<and> Suc (length ds) < 2 ^ 32)"
| "list_ok (Push_tail d) ds = (d \<noteq> NULL \<and> Suc (length ds) < 2 ^ 32)"
| "list_ok (Push_position d i) ds = (d \<noteq> NULL \<and> i \<le> length ds \<and> Suc (length ds) < 2 ^ 32)"
| "list_ok (Peek_position i) ds = (i < length ds)"
| "list_ok _ ds = True"

fun list_step :: "ptr \<Rightarrow> list_op \<Rightarrow> list_heap \<Rightarrow> (list_out \<times> list_heap) option" where
  "list_step lp (Push_head d) h = do { (c, h) \<leftarrow> list_push_head lp d h; Some (L_code c, h) }"
| "list_step lp (Push_tail d) h = do { (c, h) \<leftarrow> list_push_tail lp d h; Some (L_code c, h) }"
| "list_step lp (Push_position d i) h = do { (c, h) \<leftarrow> list_push_position lp d (of_nat i) h; Some (L_code c, h) }"
| "list_step lp Pop_head h = do { (d, h) \<leftarrow> list_pop_head lp h; Some (L_data d, h) }"
| "list_step lp Pop_tail h = do { (d, h) \<leftarrow> list_pop_tail lp h; Some (L_data d, h) }"
| "list_step lp Peek_head h = do { d \<leftarrow> list_peek_head lp h; Some (L_data d, h) }"
| "list_step lp Peek_tail h = do { d \<leftarrow> list_peek_tail lp h; Some (L_data d, h) }"
| "list_step lp (Peek_position i) h = do { d \<leftarrow> list_peek_position lp (of_nat i) h; Some (L_data d, h) }"
| "list_step lp Is_empty_list h = do { c \<leftarrow> list_is_empty lp h; Some (L_code c, h) }"

definition list_abs :: "ptr \<Rightarrow> list_heap \<Rightarrow> ptr list \<Rightarrow> bool" where
  "list_abs lp h ds \<longleftrightarrow> (\<exists>l ns. list_rep h lp l ns \<and> ds = datas ns \<and> heap_ok h \<and> plan h = [])"

lemma list_absI: "list_becomes h lp l A ns' rs h' \<Longrightarrow> plan h' = [] \<Longrightarrow> list_abs lp h' (datas ns')"
  unfolding list_becomes_def list_abs_def by blast

lemma list_pop_empty:
  "list_rep h lp l [] \<Longrightarrow> list_pop_head lp h = Some (NULL, h) \<and> list_pop_tail lp h = Some (NULL, h)"
  using list_rep_head_NULL [of h lp l "[]"] list_rep_tail_NULL [of h lp l "[]"] list_repD(1) [of h lp l "[]"]
  by (simp add: list_pop_head_def list_pop_tail_def)

lemma list_step_pops:
  assumes rep: "list_rep h lp l ns" and ok: "heap_ok h" and pl: "plan h = []" and o1: "o1 = Pop_head \<or> o1 = Pop_tail"
  shows "\<exists>h'. list_step lp o1 h = Some (fst (list_spec o1 (datas ns)), h') \<and> list_abs lp h' (snd (list_spec o1 (datas ns)))"
proof (cases "ns = []")
  case True
  then show ?thesis using rep ok pl o1 list_pop_empty [of h lp l] by (auto simp: list_abs_def)
next
  case False
  show ?thesis
  proof (cases "o1 = Pop_head")
    case True
    obtain a d ms where ns: "ns = (a, d) # ms" using False by (cases ns) auto
    show ?thesis using list_pop_head_rep [OF rep [unfolded ns] ok] list_absI pl True ns by fastforce
  next
    case P: False
    obtain a d ms where ns: "ns = ms @ [(a, d)]" using False by (cases ns rule: rev_cases) auto
    show ?thesis using list_pop_tail_rep [OF rep [unfolded ns] ok] list_absI pl P o1 ns by fastforce
  qed
qed

lemma list_step_refines:
  assumes "list_abs lp h ds" and "list_ok o1 ds"
  shows "\<exists>h'. list_step lp o1 h = Some (fst (list_spec o1 ds), h') \<and> list_abs lp h' (snd (list_spec o1 ds))"
proof -
  obtain l ns where R: "list_rep h lp l ns" "ds = datas ns" "heap_ok h" "plan h = []"
    using assms(1) by (auto simp: list_abs_def)
  show ?thesis
  proof (cases o1)
    case (Push_head d)
    then show ?thesis using assms(2) R list_push_head_rep [OF R(1,3), of d] list_absI by fastforce
  next
    case (Push_tail d)
    then show ?thesis using assms(2) R list_push_tail_rep [OF R(1,3), of d] list_absI by fastforce
  next
    case (Push_position d i)
    then obtain h' where h': "list_push_position lp d (of_nat i) h = Some (E_SUCCESS, h')"
        "list_becomes h lp l (insert (brk h) (set (addrs ns))) (take i ns @ (brk h, d) # drop i ns) [] h'" "plan h' = []"
      using assms(2) R list_push_position_rep [OF R(1,3), of d i] by auto
    show ?thesis using list_absI [OF h'(2,3)] h'(1) Push_position R(2) by (simp add: take_map drop_map)
  next
    case Pop_head
    then show ?thesis using list_step_pops [OF R(1,3,4)] R(2) by blast
  next
    case Pop_tail
    then show ?thesis using list_step_pops [OF R(1,3,4)] R(2) by blast
  next
    case (Peek_position i)
    then show ?thesis using assms R list_peek_position_rep [OF R(1)] by auto
  next
    case Peek_head
    then show ?thesis using assms(1) R list_peek_ends_rep(1) [OF R(1)] by (auto simp: hd_map)
  next
    case Peek_tail
    then show ?thesis using assms(1) R list_peek_ends_rep(2) [OF R(1)] by (auto simp: last_map)
  next
    case Is_empty_list
    then show ?thesis using assms(1) R list_is_empty_rep [OF R(1)] by auto
  qed
qed

interpretation dlist: refinement "list_step lp" list_spec list_ok "list_abs lp" for lp
  by unfold_locales (rule list_step_refines)

section \<open>All occurrences\<close>

lemma list_find_all_rep:
  assumes rep: "list_rep h lp l ns" and ok: "heap_ok h" and pl: "plan h = []" and f: "l_compare_func l = Some f"
    and ne: "ns \<noteq> []" and tot: "cmp_total_on f k (set (datas ns))" and len: "length ns < 2 ^ 32 - 1"
  shows "\<exists>h' l' ms. list_find_all_occurrences lp k h = Some (brk h, h') \<and> list_rep h' (brk h) l' ms \<and>
    datas ms = rev (filter (\<lambda>d. f k d = Some EQUAL) (datas ns)) \<and>
    list_rep h' lp l ns \<and> set (addrs ms) \<inter> set (addrs ns) = {} \<and> released h' = released h"
proof -
  note R = list_repD [OF rep]
  obtain h1 where N: "list_new (l_custom_free l) (Some f) h = Some (brk h, h1)"
      "list_rep h1 (brk h) \<lparr>l_size = 0, l_head = NULL, l_tail = NULL, l_custom_free = l_custom_free l, l_compare_func = Some f\<rparr> []"
      "heap_ok h1" "nodes h1 = nodes h" "\<forall>p. p \<noteq> brk h \<longrightarrow> list_objs h1 p = list_objs h p" "released h1 = released h"
      "plan h1 = []" "brk h1 = Suc (brk h)"
    using list_new_ok [OF ok, of "l_custom_free l" "Some f"] pl by auto
  have seg: "dlseg (nodes h1) NULL (l_head l) ns (l_tail l) NULL" using R(3) N(4) by simp
  obtain h' l' ms where F: "find_all_loop (length ns) (Some f) k (brk h) (l_head l) h1 = Some (brk h, h')"
      "list_rep h' (brk h) l' ms" "datas ms = rev (filter (\<lambda>d. f k d = Some EQUAL) (datas ns))"
      "released h' = released h1" "set (addrs ms) \<subseteq> {brk h1..}"
      "\<forall>a. a < brk h1 \<longrightarrow> nodes h' a = nodes h1 a" "\<forall>q. q \<noteq> brk h \<longrightarrow> list_objs h' q = list_objs h1 q"
    using find_all_loop_rep [OF seg N(2,3,7) tot R(7)] len by auto
  have lt: "a \<in> set (addrs ns) \<Longrightarrow> a < brk h1" for a
    using dlseg_allocated [OF R(3)] heap_ok_node_lt [OF ok] N(8) by fastforce
  have lp: "lp < brk h" using heap_ok_list_lt [OF ok R(2)] .
  have sep: "set (addrs ns) \<inter> {brk h1..} = {}" using lt by fastforce
  have fr: "frame_except {brk h1..} (brk h) h h'" using F(6,7) N(4,5) by (simp add: frame_except_def)
  have "list_rep h' lp l ns" by (rule list_rep_frame [OF rep fr _ sep]) (use lp in simp)
  moreover have "set (addrs ms) \<inter> set (addrs ns) = {}" using F(5) sep by blast
  moreover have "list_find_all_occurrences lp k h = Some (brk h, h')"
  proof -
    have nz: "brk h \<noteq> NULL" "unat (l_size l) = length ns" "l_size l \<noteq> 0"
      using heap_ok_fresh [OF ok] list_rep_size [OF rep] ne by auto
    show ?thesis using R(1,2) N(1) F(1) f nz by (simp add: list_find_all_occurrences_def)
  qed
  ultimately show ?thesis using F(2-4) N(6) by auto
qed

end
