(* ===== verification/Stack.thy ===== *)
theory Stack
  imports Comparisons Refinement
begin

text \<open>
  DSA/stack/src/stack.c: the bounded stack, an array of pointers to heap-allocated nodes.  The
  stack object itself is passed as a value (\<open>None\<close> is a NULL \<open>stack_t *\<close>) and returned
  updated; the nodes live in a heap, so that using a freed node is undefined.
\<close>

section \<open>State\<close>

record stack_node_t =
  sn_data :: ptr

record stack_t =
  s_capacity :: "32 word"
  s_currentsz :: "32 word"
  s_arr :: "ptr list"
  s_customfree :: "FREE_F option"

record stack_heap =
  s_nodes :: "ptr \<rightharpoonup> stack_node_t"
  s_brk :: ptr
  s_plan :: alloc_plan
  s_released :: "ptr list"

section \<open>Operations\<close>

definition stack_init :: "32 word \<Rightarrow> FREE_F option \<Rightarrow> stack_heap \<Rightarrow> stack_t option \<times> stack_heap" where
  "stack_init capacity customfree h =
     (if alloc_fails (s_plan h) then (None, h\<lparr>s_plan := alloc_rest (s_plan h)\<rparr>)
      else let h = h\<lparr>s_plan := alloc_rest (s_plan h)\<rparr>
           in if alloc_fails (s_plan h) then (None, h\<lparr>s_plan := alloc_rest (s_plan h)\<rparr>)
              else (Some \<lparr>s_capacity = capacity, s_currentsz = 0,
                          s_arr = replicate (unat capacity) NULL, s_customfree = customfree\<rparr>,
                    h\<lparr>s_plan := alloc_rest (s_plan h)\<rparr>))"

definition stack_is_full :: "stack_t option \<Rightarrow> int" where
  "stack_is_full stack =
     (case stack of None \<Rightarrow> E_NULL_POINTER
      | Some s \<Rightarrow> if s_currentsz s = s_capacity s then E_SUCCESS else E_FAILURE)"

definition stack_is_empty :: "stack_t option \<Rightarrow> int" where
  "stack_is_empty stack =
     (case stack of None \<Rightarrow> E_NULL_POINTER
      | Some s \<Rightarrow> if s_currentsz s = 0 then E_SUCCESS else E_FAILURE)"

definition stack_push :: "stack_t option \<Rightarrow> ptr \<Rightarrow> stack_heap \<Rightarrow> (int \<times> stack_t option \<times> stack_heap) option" where
  "stack_push stack data h =
     (case stack of
        None \<Rightarrow> Some (E_NULL_POINTER, stack, h)
      | Some s \<Rightarrow>
          if data = NULL then Some (E_NULL_POINTER, stack, h)
          else if stack_is_full stack = 0 then Some (E_FAILURE, stack, h)
          else if alloc_fails (s_plan h) then Some (E_FAILURE, stack, h\<lparr>s_plan := alloc_rest (s_plan h)\<rparr>)
          else do {
            let new_element = s_brk h;
            let h = h\<lparr>s_nodes := (s_nodes h)(new_element \<mapsto> \<lparr>sn_data = data\<rparr>),
                      s_brk := Suc (s_brk h), s_plan := alloc_rest (s_plan h)\<rparr>;
            a \<leftarrow> arr_set (s_arr s) (uint (s_currentsz s)) new_element;
            Some (E_SUCCESS, Some (s\<lparr>s_arr := a, s_currentsz := s_currentsz s + 1\<rparr>), h) })"

definition stack_pop :: "stack_t option \<Rightarrow> stack_heap \<Rightarrow> (ptr \<times> stack_t option \<times> stack_heap) option" where
  "stack_pop stack h =
     (case stack of
        None \<Rightarrow> Some (NULL, stack, h)
      | Some s \<Rightarrow>
          if stack_is_empty stack = 0 then Some (NULL, stack, h)
          else do {
            e \<leftarrow> arr_get (s_arr s) (uint (s_currentsz s - 1));
            n \<leftarrow> deref (s_nodes h) e;
            let data = sn_data n;
            N \<leftarrow> free_at (s_nodes h) e;
            a \<leftarrow> arr_set (s_arr s) (uint (s_currentsz s - 1)) NULL;
            Some (data, Some (s\<lparr>s_arr := a, s_currentsz := s_currentsz s - 1\<rparr>), h\<lparr>s_nodes := N\<rparr>) })"

definition stack_peek :: "stack_t option \<Rightarrow> stack_heap \<Rightarrow> ptr option" where
  "stack_peek stack h =
     (case stack of
        None \<Rightarrow> Some NULL
      | Some s \<Rightarrow>
          if stack_is_empty stack = 0 then Some NULL
          else do {
            element \<leftarrow> arr_get (s_arr s) (uint (s_currentsz s - 1));
            if element = NULL then Some NULL
            else do { n \<leftarrow> deref (s_nodes h) element; Some (sn_data n) } })"

partial_function (option) stack_clear_loop :: "stack_t \<Rightarrow> stack_heap \<Rightarrow> (stack_t \<times> stack_heap) option" where
  "stack_clear_loop s h =
     (if stack_is_empty (Some s) = - 1
      then do {
        e \<leftarrow> arr_get (s_arr s) (uint (s_currentsz s - 1));
        n \<leftarrow> deref (s_nodes h) e;
        g \<leftarrow> s_customfree s;
        let h = h\<lparr>s_released := s_released h @ g (sn_data n)\<rparr>;
        N \<leftarrow> update_at (s_nodes h) e (sn_data_update (\<lambda>_. NULL));
        N \<leftarrow> free_at N e;
        a \<leftarrow> arr_set (s_arr s) (uint (s_currentsz s - 1)) NULL;
        stack_clear_loop (s\<lparr>s_arr := a, s_currentsz := s_currentsz s - 1\<rparr>) (h\<lparr>s_nodes := N\<rparr>) }
      else Some (s, h))"

definition stack_clear :: "stack_t option \<Rightarrow> stack_heap \<Rightarrow> (int \<times> stack_t option \<times> stack_heap) option" where
  "stack_clear stack h =
     (case stack of
        None \<Rightarrow> Some (E_NULL_POINTER, stack, h)
      | Some s \<Rightarrow> do { (s, h) \<leftarrow> stack_clear_loop s h; Some (E_SUCCESS, Some s, h) })"

text \<open>\<open>stack_destroy\<close> takes the address of the caller's pointer, which it sets to NULL.\<close>

definition stack_destroy :: "stack_t option \<Rightarrow> stack_heap \<Rightarrow> (int \<times> stack_t option \<times> stack_heap) option" where
  "stack_destroy stack h =
     (if stack = None then Some (E_NULL_POINTER, stack, h)
      else do {
        (exit_code, stack, h) \<leftarrow> stack_clear stack h;
        if exit_code \<noteq> E_SUCCESS then Some (exit_code, stack, h)
        else Some (E_SUCCESS, None, h) })"

section \<open>Representation\<close>

text \<open>\<open>stack_rep h s cs\<close>: the used part of the array holds distinct nodes whose data, from the
  bottom up, are \<open>map snd cs\<close>; the rest of the array is NULL.\<close>

definition stack_rep :: "stack_heap \<Rightarrow> stack_t \<Rightarrow> (ptr \<times> ptr) list \<Rightarrow> bool" where
  "stack_rep h s cs \<longleftrightarrow>
     s_arr s = map fst cs @ replicate (unat (s_capacity s) - length cs) NULL \<and>
     unat (s_currentsz s) = length cs \<and> length cs \<le> unat (s_capacity s) \<and>
     distinct (map fst cs) \<and>
     (\<forall>x \<in> set cs. fst x \<noteq> NULL \<and> s_nodes h (fst x) = Some \<lparr>sn_data = snd x\<rparr>)"

definition stack_heap_ok :: "stack_heap \<Rightarrow> bool" where
  "stack_heap_ok h \<longleftrightarrow> 0 < s_brk h \<and> (\<forall>a. s_brk h \<le> a \<longrightarrow> s_nodes h a = None)"

lemma stack_is_full_iff: "stack_rep h s cs \<Longrightarrow> stack_is_full (Some s) = E_SUCCESS \<longleftrightarrow> length cs = unat (s_capacity s)"
  by (auto simp: stack_is_full_def stack_rep_def word_unat_eq_iff)

lemma stack_is_empty_iff: "stack_rep h s cs \<Longrightarrow> stack_is_empty (Some s) = E_SUCCESS \<longleftrightarrow> cs = []"
  by (auto simp: stack_is_empty_def stack_rep_def unat_eq_zero)

lemma stack_init_ok:
  "\<exists>s. stack_init cap f (h\<lparr>s_plan := []\<rparr>) = (Some s, h\<lparr>s_plan := []\<rparr>) \<and> stack_rep h s [] \<and>
    s_capacity s = cap \<and> s_customfree s = f"
  by (simp add: stack_init_def stack_rep_def)

lemma stack_push_full:
  "stack_rep h s cs \<Longrightarrow> length cs = unat (s_capacity s) \<Longrightarrow> d \<noteq> NULL \<Longrightarrow>
   stack_push (Some s) d h = Some (E_FAILURE, Some s, h)"
  using stack_is_full_iff [of h s cs] by (simp add: stack_push_def exit_codes)

lemma uint_currentsz: "stack_rep h s cs \<Longrightarrow> uint (s_currentsz s) = int (length cs)"
  by (metis stack_rep_def of_nat_unat ucast_id)

lemma stack_push_rep:
  assumes rep: "stack_rep h s cs" and ok: "stack_heap_ok h" and sp: "length cs < unat (s_capacity s)"
    and d: "d \<noteq> NULL" and al: "\<not> alloc_fails (s_plan h)"
  shows "\<exists>s' h'. stack_push (Some s) d h = Some (E_SUCCESS, Some s', h') \<and>
    stack_rep h' s' (cs @ [(s_brk h, d)]) \<and> stack_heap_ok h' \<and>
    s_capacity s' = s_capacity s \<and> s_customfree s' = s_customfree s \<and>
    s_released h' = s_released h \<and> s_plan h' = alloc_rest (s_plan h)"
proof -
  let ?h = "h\<lparr>s_nodes := (s_nodes h)(s_brk h \<mapsto> \<lparr>sn_data = d\<rparr>), s_brk := Suc (s_brk h), s_plan := alloc_rest (s_plan h)\<rparr>"
  let ?s = "s\<lparr>s_arr := (s_arr s)[length cs := s_brk h], s_currentsz := s_currentsz s + 1\<rparr>"
  have nf: "stack_is_full (Some s) \<noteq> 0" using stack_is_full_iff [OF rep] sp by (simp add: exit_codes)
  have len: "length (s_arr s) = unat (s_capacity s)" using rep by (auto simp: stack_rep_def)
  have run: "stack_push (Some s) d h = Some (E_SUCCESS, Some ?s, ?h)"
    using nf d al sp len by (simp add: stack_push_def uint_currentsz [OF rep] Let_def)
  have fresh: "\<forall>x \<in> set cs. fst x \<noteq> s_brk h" "s_brk h \<noteq> NULL"
    using rep ok by (auto simp: stack_rep_def stack_heap_ok_def)
  have arr: "(s_arr s)[length cs := s_brk h] =
      map fst (cs @ [(s_brk h, d)]) @ replicate (unat (s_capacity s) - length (cs @ [(s_brk h, d)])) NULL"
    using rep sp by (auto simp: stack_rep_def list_update_append replicate_Suc
        simp flip: Suc_diff_Suc [of "length cs" "unat (s_capacity s)"])
  have sz: "unat (s_currentsz s + 1) = Suc (length cs)"
    using rep sp unsigned_less [of "s_capacity s", where ?'a = nat]
    by (auto simp: stack_rep_def unat_plus_if')
  have "stack_rep ?h ?s (cs @ [(s_brk h, d)])"
    using rep fresh sp sz arr by (auto simp: stack_rep_def)
  moreover have "stack_heap_ok ?h" using ok by (simp add: stack_heap_ok_def)
  ultimately show ?thesis using run by auto
qed

lemma stack_rep_snoc:
  assumes "stack_rep h s (cs @ [(a, d)])"
  shows "uint (s_currentsz s - 1) = int (length cs)" and "length cs < length (s_arr s)"
    and "s_arr s ! length cs = a" and "s_nodes h a = Some \<lparr>sn_data = d\<rparr>" and "a \<noteq> NULL"
    and "s_currentsz s \<noteq> 0" and "s_nodes h' = (s_nodes h)(a := None) \<Longrightarrow>
      stack_rep h' (s\<lparr>s_arr := (s_arr s)[length cs := NULL], s_currentsz := s_currentsz s - 1\<rparr>) cs"
proof -
  have sz: "unat (s_currentsz s) = Suc (length cs)" using assms by (simp add: stack_rep_def)
  show nz: "s_currentsz s \<noteq> 0" using sz by auto
  have "unat (s_currentsz s - 1) = length cs"
    using sz nz by (simp add: unat_minus_one)
  then show "uint (s_currentsz s - 1) = int (length cs)" by (metis of_nat_unat ucast_id)
  have un: "unat (s_currentsz s - 1) = length cs" by fact
  show "length cs < length (s_arr s)" "s_arr s ! length cs = a" "s_nodes h a = Some \<lparr>sn_data = d\<rparr>" "a \<noteq> NULL"
    using assms by (auto simp: stack_rep_def nth_append)
  have le: "Suc (length cs) \<le> unat (s_capacity s)" using assms by (simp add: stack_rep_def)
  then have "replicate (unat (s_capacity s) - length cs) NULL =
      NULL # replicate (unat (s_capacity s) - Suc (length cs)) NULL"
    by (metis Suc_diff_le diff_Suc_Suc replicate_Suc)
  then have arr: "(s_arr s)[length cs := NULL] = map fst cs @ replicate (unat (s_capacity s) - length cs) NULL"
    using assms by (simp add: stack_rep_def list_update_append)
  have ne: "\<forall>x \<in> set cs. fst x \<noteq> a" using assms by (auto simp: stack_rep_def)
  assume "s_nodes h' = (s_nodes h)(a := None)"
  with ne show "stack_rep h' (s\<lparr>s_arr := (s_arr s)[length cs := NULL], s_currentsz := s_currentsz s - 1\<rparr>) cs"
    using assms un arr le by (auto simp: stack_rep_def)
qed

lemma stack_not_empty: "s_currentsz s \<noteq> 0 \<Longrightarrow> stack_is_empty (Some s) = E_FAILURE"
  by (simp add: stack_is_empty_def)

lemma stack_pop_rep:
  assumes rep: "stack_rep h s (cs @ [(a, d)])" and ok: "stack_heap_ok h"
  shows "\<exists>s' h'. stack_pop (Some s) h = Some (d, Some s', h') \<and> stack_rep h' s' cs \<and> stack_heap_ok h' \<and>
    s_nodes h' = (s_nodes h)(a := None) \<and>
    s_capacity s' = s_capacity s \<and> s_customfree s' = s_customfree s \<and>
    s_released h' = s_released h \<and> s_plan h' = s_plan h"
proof -
  note R = stack_rep_snoc [OF rep]
  let ?h = "h\<lparr>s_nodes := (s_nodes h)(a := None)\<rparr>"
  have "stack_pop (Some s) h =
      Some (d, Some (s\<lparr>s_arr := (s_arr s)[length cs := NULL], s_currentsz := s_currentsz s - 1\<rparr>), ?h)"
    using R(1-6) stack_not_empty [OF R(6)] by (simp add: stack_pop_def exit_codes)
  moreover have "stack_heap_ok ?h" using ok by (simp add: stack_heap_ok_def)
  ultimately show ?thesis using R(7) [of ?h] by auto
qed

lemma stack_pop_empty: "stack_rep h s [] \<Longrightarrow> stack_pop (Some s) h = Some (NULL, Some s, h)"
  using stack_is_empty_iff [of h s "[]"] by (simp add: stack_pop_def exit_codes)

lemma stack_peek_rep:
  "stack_rep h s cs \<Longrightarrow> stack_peek (Some s) h = Some (if cs = [] then NULL else snd (last cs))"
proof (cases cs rule: rev_cases)
  case Nil
  assume "stack_rep h s cs"
  with Nil show ?thesis using stack_is_empty_iff [of h s "[]"] by (simp add: stack_peek_def exit_codes)
next
  case (snoc cs' x)
  assume "stack_rep h s cs"
  then have "stack_rep h s (cs' @ [(fst x, snd x)])" using snoc by simp
  note R = stack_rep_snoc [OF this]
  show ?thesis using R(1-6) stack_not_empty [OF R(6)] snoc by (simp add: stack_peek_def exit_codes)
qed

lemma stack_clear_loop_rep:
  assumes "stack_rep h s cs" and "stack_heap_ok h" and "s_customfree s = Some g"
  shows "\<exists>s' h'. stack_clear_loop s h = Some (s', h') \<and> stack_rep h' s' [] \<and> stack_heap_ok h' \<and>
    s_capacity s' = s_capacity s \<and> s_plan h' = s_plan h \<and>
    s_nodes h' = (s_nodes h) |` (- set (map fst cs)) \<and>
    s_released h' = s_released h @ concat (map g (rev (map snd cs)))"
  using assms
proof (induction cs arbitrary: s h rule: rev_induct)
  case Nil
  then have "stack_is_empty (Some s) = 0" using stack_is_empty_iff [of h s "[]"] by (simp add: exit_codes)
  then show ?case using Nil by (subst stack_clear_loop.simps) auto
next
  case (snoc x cs)
  obtain a d where x: "x = (a, d)" by (cases x)
  note R = stack_rep_snoc [OF snoc.prems(1) [unfolded x]]
  let ?h = "h\<lparr>s_released := s_released h @ g d, s_nodes := (s_nodes h)(a := None)\<rparr>"
  let ?s = "s\<lparr>s_arr := (s_arr s)[length cs := NULL], s_currentsz := s_currentsz s - 1\<rparr>"
  have st: "stack_clear_loop s h = stack_clear_loop ?s ?h"
    using R(1-6) stack_not_empty [OF R(6)] snoc.prems(3)
    by (subst stack_clear_loop.simps) (simp add: exit_codes)
  have rep: "stack_rep ?h ?s cs" by (rule R(7)) simp
  have ok: "stack_heap_ok ?h" using snoc.prems(2) by (simp add: stack_heap_ok_def)
  have fr: "s_customfree ?s = Some g" using snoc.prems(3) by simp
  obtain s' h' where "stack_clear_loop ?s ?h = Some (s', h')" "stack_rep h' s' []" "stack_heap_ok h'"
    "s_capacity s' = s_capacity ?s" "s_plan h' = s_plan ?h"
    "s_nodes h' = (s_nodes ?h) |` (- set (map fst cs))"
    "s_released h' = s_released ?h @ concat (map g (rev (map snd cs)))"
    using snoc.IH [OF rep ok fr] by blast
  moreover have "((s_nodes h)(a := None)) |` (- set (map fst cs)) = (s_nodes h) |` (- set (map fst (cs @ [x])))"
    using x by (auto simp: restrict_map_def)
  ultimately show ?case using st x by (intro exI [of _ s'] exI [of _ h']) (simp only:; simp)
qed

lemma stack_destroy_rep:
  assumes "stack_rep h s cs" and "stack_heap_ok h" and "s_customfree s = Some g"
  shows "\<exists>h'. stack_destroy (Some s) h = Some (E_SUCCESS, None, h') \<and> stack_heap_ok h' \<and>
    s_nodes h' = (s_nodes h) |` (- set (map fst cs)) \<and>
    s_released h' = s_released h @ concat (map g (rev (map snd cs)))"
  using stack_clear_loop_rep [OF assms] by (auto simp: stack_destroy_def stack_clear_def)

section \<open>The abstract bounded stack\<close>

datatype stack_op = Push ptr | Pop | Peek | Is_empty | Is_full

datatype stack_out = Code int | Data ptr

text \<open>A bounded stack of capacity \<open>cap\<close> is a list, bottom first.\<close>

fun stack_spec :: "nat \<Rightarrow> stack_op \<Rightarrow> ptr list \<Rightarrow> stack_out \<times> ptr list" where
  "stack_spec cap (Push d) ds =
     (if d = NULL then (Code E_NULL_POINTER, ds)
      else if length ds = cap then (Code E_FAILURE, ds)
      else (Code E_SUCCESS, ds @ [d]))"
| "stack_spec cap Pop ds = (if ds = [] then (Data NULL, ds) else (Data (last ds), butlast ds))"
| "stack_spec cap Peek ds = (if ds = [] then (Data NULL, ds) else (Data (last ds), ds))"
| "stack_spec cap Is_empty ds = (Code (if ds = [] then E_SUCCESS else E_FAILURE), ds)"
| "stack_spec cap Is_full ds = (Code (if length ds = cap then E_SUCCESS else E_FAILURE), ds)"

fun stack_step :: "stack_op \<Rightarrow> stack_t \<times> stack_heap \<Rightarrow> (stack_out \<times> stack_t \<times> stack_heap) option" where
  "stack_step (Push d) (s, h) =
     do { (c, s', h') \<leftarrow> stack_push (Some s) d h; s' \<leftarrow> s'; Some (Code c, s', h') }"
| "stack_step Pop (s, h) =
     do { (d, s', h') \<leftarrow> stack_pop (Some s) h; s' \<leftarrow> s'; Some (Data d, s', h') }"
| "stack_step Peek (s, h) = do { d \<leftarrow> stack_peek (Some s) h; Some (Data d, s, h) }"
| "stack_step Is_empty (s, h) = Some (Code (stack_is_empty (Some s)), s, h)"
| "stack_step Is_full (s, h) = Some (Code (stack_is_full (Some s)), s, h)"

definition stack_abs :: "nat \<Rightarrow> stack_t \<times> stack_heap \<Rightarrow> ptr list \<Rightarrow> bool" where
  "stack_abs cap c ds \<longleftrightarrow>
     (\<exists>cs. stack_rep (snd c) (fst c) cs \<and> ds = map snd cs \<and> stack_heap_ok (snd c) \<and>
        s_plan (snd c) = [] \<and> unat (s_capacity (fst c)) = cap)"

lemma stack_codes:
  "stack_is_empty (Some s) = (if stack_is_empty (Some s) = E_SUCCESS then E_SUCCESS else E_FAILURE)"
  "stack_is_full (Some s) = (if stack_is_full (Some s) = E_SUCCESS then E_SUCCESS else E_FAILURE)"
  by (simp_all add: stack_is_empty_def stack_is_full_def)

lemma stack_step_refines:
  assumes "stack_abs cap c ds"
  shows "\<exists>c'. stack_step o1 c = Some (fst (stack_spec cap o1 ds), c') \<and> stack_abs cap c' (snd (stack_spec cap o1 ds))"
proof -
  obtain s h cs where c: "c = (s, h)" "stack_rep h s cs" "ds = map snd cs" "stack_heap_ok h" "s_plan h = []"
      "unat (s_capacity s) = cap"
    using assms by (cases c) (auto simp: stack_abs_def)
  show ?thesis
  proof (cases o1)
    case (Push d)
    consider "d = NULL" | "d \<noteq> NULL" "length cs = cap" | "d \<noteq> NULL" "length cs < cap"
      using c(2,6) by (fastforce simp: stack_rep_def)
    then show ?thesis
    proof cases
      case 1
      then show ?thesis using assms Push c by (auto simp: stack_push_def)
    next
      case 2
      then show ?thesis using assms Push c stack_push_full [OF c(2)] by auto
    next
      case 3
      then show ?thesis using Push c stack_push_rep [OF c(2,4), of d]
        by (fastforce simp: stack_abs_def)
    qed
  next
    case Pop
    show ?thesis
    proof (cases cs rule: rev_cases)
      case Nil
      then show ?thesis using assms Pop c stack_pop_empty [of h s] by auto
    next
      case (snoc cs' x)
      then have "stack_rep h s (cs' @ [(fst x, snd x)])" using c(2) by simp
      from stack_pop_rep [OF this c(4)] show ?thesis using Pop c snoc
        by (fastforce simp: stack_abs_def)
    qed
  next
    case Peek
    then show ?thesis using assms c stack_peek_rep [OF c(2)] by (auto simp: last_map)
  next
    case Is_empty
    then show ?thesis using assms c stack_is_empty_iff [OF c(2)] stack_codes(1) [of s] by (auto split: if_splits)
  next
    case Is_full
    then show ?thesis using assms c stack_is_full_iff [OF c(2)] stack_codes(2) [of s] by (auto split: if_splits)
  qed
qed

interpretation bstack: refinement stack_step "stack_spec cap" "\<lambda>_ _. True" "stack_abs cap" for cap
  by unfold_locales (rule stack_step_refines)

end
