(* ===== verification/Queue.thy ===== *)
theory Queue
  imports Comparisons Refinement
begin

text \<open>
  DSA/queue/src/queue.c: the bounded blocking queue, a singly linked chain with a head and a tail
  pointer.  The queue object is passed as a value (\<open>None\<close> is a NULL \<open>queue_t *\<close>) and
  returned updated; nodes live in a heap.  An operation that a thread cannot finish alone, because
  it waits on a condition variable, returns \<open>Blocked\<close> with the state it waits in.
  The interleaving of several threads is in \<open>Queue_Monitor\<close>.
\<close>

section \<open>State\<close>

record queue_node_t =
  qn_data :: ptr
  qn_next :: ptr

record queue_t =
  q_current_size :: "32 word"
  q_max_size :: "32 word"
  q_head :: ptr
  q_tail :: ptr
  q_customfree :: FREE_F

record queue_heap =
  q_nodes :: "ptr \<rightharpoonup> queue_node_t"
  q_brk :: ptr
  q_plan :: alloc_plan
  q_released :: "ptr list"

definition QUEUE_UNBOUNDED :: "32 word" where "QUEUE_UNBOUNDED = 0"

section \<open>Operations\<close>

text \<open>\<open>mutex_ok\<close>, \<open>cond1_ok\<close> and \<open>cond2_ok\<close> are the outcomes of the three
  \<open>pthread_*_init\<close> calls.\<close>

definition queue_init ::
  "bool \<Rightarrow> bool \<Rightarrow> bool \<Rightarrow> FREE_F option \<Rightarrow> 32 word \<Rightarrow> queue_heap \<Rightarrow> queue_t option \<times> queue_heap" where
  "queue_init mutex_ok cond1_ok cond2_ok customfree max_size h =
     (let failed = alloc_fails (q_plan h); h = h\<lparr>q_plan := alloc_rest (q_plan h)\<rparr>;
          queue = \<lparr>q_current_size = 0, q_max_size = max_size, q_head = NULL, q_tail = NULL,
                   q_customfree = (case customfree of None \<Rightarrow> default_free | Some g \<Rightarrow> g)\<rparr>
      in if failed then (None, h)
         else if \<not> mutex_ok then (None, h)
         else if \<not> cond1_ok then (None, h)
         else if \<not> cond2_ok then (None, h)
         else (Some queue, h))"

definition queue_is_empty :: "queue_t option \<Rightarrow> bool option" where
  "queue_is_empty queue = do { q \<leftarrow> queue; Some (q_current_size q = 0) }"

text \<open>The condition of the loop in \<open>queue_enqueue\<close>, which \<open>queue_is_full\<close> computes too.\<close>

definition at_capacity :: "queue_t \<Rightarrow> bool" where
  "at_capacity q \<longleftrightarrow> q_max_size q \<noteq> QUEUE_UNBOUNDED \<and> q_current_size q \<ge> q_max_size q"

definition queue_is_full :: "queue_t option \<Rightarrow> bool option" where
  "queue_is_full queue =
     do { q \<leftarrow> queue;
          Some (if q_max_size q \<noteq> QUEUE_UNBOUNDED then q_current_size q \<ge> q_max_size q else False) }"

definition queue_node_alloc :: "ptr \<Rightarrow> queue_heap \<Rightarrow> ptr \<times> queue_heap" where
  "queue_node_alloc data h =
     (if alloc_fails (q_plan h) then (NULL, h\<lparr>q_plan := alloc_rest (q_plan h)\<rparr>)
      else (q_brk h, h\<lparr>q_nodes := (q_nodes h)(q_brk h \<mapsto> \<lparr>qn_data = data, qn_next = NULL\<rparr>),
                       q_brk := Suc (q_brk h), q_plan := alloc_rest (q_plan h)\<rparr>))"

text \<open>The critical sections: linking the new node in, and taking the first node out.\<close>

definition enqueue_link :: "ptr \<Rightarrow> queue_t \<Rightarrow> queue_heap \<Rightarrow> (queue_t \<times> queue_heap) option" where
  "enqueue_link new_node q h =
     do {
       (q, h) \<leftarrow> (if q_current_size q = 0
                  then Some (q\<lparr>q_head := new_node, q_tail := new_node\<rparr>, h)
                  else do {
                    N \<leftarrow> update_at (q_nodes h) (q_tail q) (qn_next_update (\<lambda>_. new_node));
                    Some (q\<lparr>q_tail := new_node\<rparr>, h\<lparr>q_nodes := N\<rparr>) });
       Some (q\<lparr>q_current_size := q_current_size q + 1\<rparr>, h) }"

definition dequeue_unlink :: "queue_t \<Rightarrow> queue_heap \<Rightarrow> (ptr \<times> ptr \<times> queue_t) option" where
  "dequeue_unlink q h =
     do {
       let node_to_remove = q_head q;
       n \<leftarrow> deref (q_nodes h) node_to_remove;
       let data = qn_data n;
       let q = q\<lparr>q_head := qn_next n\<rparr>;
       let q = (if q_head q = NULL then q\<lparr>q_tail := NULL\<rparr> else q);
       Some (data, node_to_remove, q\<lparr>q_current_size := q_current_size q - 1\<rparr>) }"

definition free_qnode :: "ptr \<Rightarrow> queue_heap \<Rightarrow> queue_heap option" where
  "free_qnode p h = do { N \<leftarrow> free_at (q_nodes h) p; Some (h\<lparr>q_nodes := N\<rparr>) }"

definition queue_enqueue ::
  "queue_t option \<Rightarrow> ptr \<Rightarrow> queue_heap \<Rightarrow> (int outcome \<times> queue_t option \<times> queue_heap) option" where
  "queue_enqueue queue data h =
     (case queue of
        None \<Rightarrow> Some (Returned E_FAILURE, queue, h)
      | Some q \<Rightarrow>
          if data = NULL then Some (Returned E_FAILURE, queue, h)
          else do {
            let (new_node, h) = queue_node_alloc data h;
            if new_node = NULL then Some (Returned E_FAILURE, queue, h)
            else if at_capacity q then Some (Blocked, queue, h)
            else do {
              (q, h) \<leftarrow> enqueue_link new_node q h;
              Some (Returned E_SUCCESS, Some q, h) } })"

text \<open>\<open>shutdown\<close> is whether \<open>signal_flag\<close> is \<open>SHUTDOWN\<close>.\<close>

definition queue_dequeue ::
  "bool \<Rightarrow> queue_t option \<Rightarrow> queue_heap \<Rightarrow> (ptr outcome \<times> queue_t option \<times> queue_heap) option" where
  "queue_dequeue shutdown queue h =
     (case queue of
        None \<Rightarrow> Some (Returned NULL, queue, h)
      | Some q \<Rightarrow>
          if q_current_size q = 0
          then (if shutdown then Some (Returned NULL, queue, h) else Some (Blocked, queue, h))
          else do {
            (data, node_to_remove, q) \<leftarrow> dequeue_unlink q h;
            h \<leftarrow> free_qnode node_to_remove h;
            Some (Returned data, Some q, h) })"

definition queue_peek :: "queue_t option \<Rightarrow> queue_heap \<Rightarrow> ptr option" where
  "queue_peek queue h =
     (case queue of
        None \<Rightarrow> Some NULL
      | Some q \<Rightarrow>
          if q_head q \<noteq> NULL then do { n \<leftarrow> deref (q_nodes h) (q_head q); Some (qn_data n) }
          else Some NULL)"

partial_function (option) queue_clear_loop ::
  "bool \<Rightarrow> queue_t \<Rightarrow> queue_heap \<Rightarrow> (unit outcome \<times> queue_t \<times> queue_heap) option" where
  "queue_clear_loop shutdown q h =
     (if q_current_size q > 0
      then do {
        (r, queue, h) \<leftarrow> queue_dequeue shutdown (Some q) h;
        q \<leftarrow> queue;
        (case r of
           Blocked \<Rightarrow> Some (Blocked, q, h)
         | Returned data \<Rightarrow> queue_clear_loop shutdown q (h\<lparr>q_released := q_released h @ q_customfree q data\<rparr>)) }
      else Some (Returned (), q, h))"

definition queue_clear ::
  "bool \<Rightarrow> queue_t option \<Rightarrow> queue_heap \<Rightarrow> (int outcome \<times> queue_t option \<times> queue_heap) option" where
  "queue_clear shutdown queue h =
     (case queue of
        None \<Rightarrow> Some (Returned E_FAILURE, queue, h)
      | Some q \<Rightarrow> do {
          (r, q, h) \<leftarrow> queue_clear_loop shutdown q h;
          Some (case r of Blocked \<Rightarrow> Blocked | Returned _ \<Rightarrow> Returned E_SUCCESS, Some q, h) })"

definition queue_destroy :: "bool \<Rightarrow> queue_t option \<Rightarrow> queue_heap \<Rightarrow> (unit outcome \<times> queue_t option \<times> queue_heap) option" where
  "queue_destroy shutdown queue_addr h =
     (if queue_addr = None then Some (Returned (), queue_addr, h)
      else do {
        (r, queue, h) \<leftarrow> queue_clear shutdown queue_addr h;
        (case r of Blocked \<Rightarrow> Some (Blocked, queue, h) | Returned _ \<Rightarrow> Some (Returned (), None, h)) })"

section \<open>Representation\<close>

fun qseg :: "(ptr \<rightharpoonup> queue_node_t) \<Rightarrow> ptr \<Rightarrow> (ptr \<times> ptr) list \<Rightarrow> ptr \<Rightarrow> bool" where
  "qseg H p [] q = (p = q)"
| "qseg H p (x # xs) q =
     (fst x = p \<and> p \<noteq> NULL \<and> (\<exists>nx. H p = Some \<lparr>qn_data = snd x, qn_next = nx\<rparr> \<and> qseg H nx xs q))"

lemma qseg_append: "qseg H p (xs @ ys) q \<longleftrightarrow> (\<exists>m. qseg H p xs m \<and> qseg H m ys q)"
  by (induction xs arbitrary: p) auto

lemma qseg_cong: "qseg H p xs q \<Longrightarrow> (\<And>a. a \<in> fst ` set xs \<Longrightarrow> H' a = H a) \<Longrightarrow> qseg H' p xs q"
  by (induction xs arbitrary: p) auto

lemma qseg_update_outside [simp]: "a \<notin> fst ` set xs \<Longrightarrow> qseg (H(a := v)) p xs q = qseg H p xs q"
  by (induction xs arbitrary: p) auto

lemma qseg_allocated: "qseg H p xs q \<Longrightarrow> a \<in> fst ` set xs \<Longrightarrow> a \<noteq> NULL \<and> H a \<noteq> None"
  by (induction xs arbitrary: p) auto

lemma qseg_start: "qseg H p xs NULL \<Longrightarrow> p = NULL \<longleftrightarrow> xs = []"
  by (cases xs) auto

definition queue_rep :: "queue_heap \<Rightarrow> queue_t \<Rightarrow> (ptr \<times> ptr) list \<Rightarrow> bool" where
  "queue_rep h q cs \<longleftrightarrow>
     qseg (q_nodes h) (q_head q) cs NULL \<and> q_tail q = (if cs = [] then NULL else fst (last cs)) \<and>
     distinct (map fst cs) \<and> unat (q_current_size q) = length cs \<and> NULL \<notin> snd ` set cs"

definition queue_heap_ok :: "queue_heap \<Rightarrow> bool" where
  "queue_heap_ok h \<longleftrightarrow> 0 < q_brk h \<and> (\<forall>a. q_brk h \<le> a \<longrightarrow> q_nodes h a = None)"

lemma queue_rep_empty: "queue_rep h q cs \<Longrightarrow> q_current_size q = 0 \<longleftrightarrow> cs = []"
  by (auto simp: queue_rep_def unat_eq_zero)

lemma queue_rep_head: "queue_rep h q cs \<Longrightarrow> q_head q = NULL \<longleftrightarrow> cs = []"
  by (auto simp: queue_rep_def dest: qseg_start)

definition q_full :: "queue_t \<Rightarrow> 'a list \<Rightarrow> bool" where
  "q_full q cs \<longleftrightarrow> q_max_size q \<noteq> 0 \<and> unat (q_max_size q) \<le> length cs"

lemma at_capacity_iff: "queue_rep h q cs \<Longrightarrow> at_capacity q \<longleftrightarrow> q_full q cs"
  by (auto simp: at_capacity_def queue_rep_def q_full_def QUEUE_UNBOUNDED_def word_le_nat_alt)

lemma enqueue_link_rep:
  assumes rep: "queue_rep h q cs" and a: "q_nodes h a = Some \<lparr>qn_data = d, qn_next = NULL\<rparr>" "a \<noteq> NULL"
    "a \<notin> fst ` set cs" "d \<noteq> NULL" and len: "Suc (length cs) < 2 ^ 32"
  shows "\<exists>q' h'. enqueue_link a q h = Some (q', h') \<and> queue_rep h' q' (cs @ [(a, d)]) \<and>
    q_max_size q' = q_max_size q \<and> q_customfree q' = q_customfree q \<and>
    h' = h\<lparr>q_nodes := q_nodes h'\<rparr> \<and> (\<forall>b. b \<notin> fst ` set cs \<longrightarrow> q_nodes h' b = q_nodes h b)"
proof -
  have sz: "unat (q_current_size q + 1) = Suc (length cs)"
    using rep len by (simp add: queue_rep_def unat_plus_if')
  show ?thesis
  proof (cases cs rule: rev_cases)
    case Nil
    then have "enqueue_link a q h = Some (q\<lparr>q_head := a, q_tail := a, q_current_size := q_current_size q + 1\<rparr>, h)"
      using queue_rep_empty [OF rep] by (simp add: enqueue_link_def)
    then show ?thesis using Nil rep a sz by (auto simp: queue_rep_def)
  next
    case (snoc ds x)
    obtain n where n: "q_tail q = fst x" "fst x \<noteq> NULL" "q_nodes h (fst x) = Some n"
        "n = \<lparr>qn_data = snd x, qn_next = NULL\<rparr>" "qseg (q_nodes h) (q_head q) ds (fst x)"
      using rep snoc by (auto simp: queue_rep_def qseg_append)
    let ?N = "(q_nodes h)(fst x \<mapsto> \<lparr>qn_data = snd x, qn_next = a\<rparr>)"
    have run: "enqueue_link a q h =
        Some (q\<lparr>q_tail := a, q_current_size := q_current_size q + 1\<rparr>, h\<lparr>q_nodes := ?N\<rparr>)"
      using n queue_rep_empty [OF rep] snoc by (simp add: enqueue_link_def)
    have ne: "fst x \<notin> fst ` set ds" "fst x \<noteq> a" using rep snoc a(3) by (auto simp: queue_rep_def)
    then have "qseg ?N (q_head q) (ds @ [x, (a, d)]) NULL"
      using n a by (auto simp: qseg_append)
    then have "queue_rep (h\<lparr>q_nodes := ?N\<rparr>) (q\<lparr>q_tail := a, q_current_size := q_current_size q + 1\<rparr>) (cs @ [(a, d)])"
      using rep snoc a sz by (auto simp: queue_rep_def)
    then show ?thesis using run snoc by auto
  qed
qed

lemma dequeue_unlink_rep:
  assumes rep: "queue_rep h q ((a, d) # cs)"
  shows "\<exists>q'. dequeue_unlink q h = Some (d, a, q') \<and> queue_rep h q' cs \<and>
    q_max_size q' = q_max_size q \<and> q_customfree q' = q_customfree q"
    and "q_nodes h a \<noteq> None" "a \<noteq> NULL" "a \<notin> fst ` set cs"
proof -
  obtain nx where nx: "q_head q = a" "a \<noteq> NULL" "q_nodes h a = Some \<lparr>qn_data = d, qn_next = nx\<rparr>"
      "qseg (q_nodes h) nx cs NULL"
    using rep by (auto simp: queue_rep_def)
  have sz: "unat (q_current_size q - 1) = length cs"
    using rep queue_rep_empty [OF rep] by (simp add: queue_rep_def unat_minus_one)
  have "nx = NULL \<longleftrightarrow> cs = []" using qseg_start [OF nx(4)] .
  with nx rep sz show "\<exists>q'. dequeue_unlink q h = Some (d, a, q') \<and> queue_rep h q' cs \<and>
      q_max_size q' = q_max_size q \<and> q_customfree q' = q_customfree q"
    by (auto simp: dequeue_unlink_def queue_rep_def Let_def)
  show "q_nodes h a \<noteq> None" "a \<noteq> NULL" "a \<notin> fst ` set cs"
    using nx rep by (auto simp: queue_rep_def)
qed

lemma queue_rep_free: "queue_rep h q cs \<Longrightarrow> a \<notin> fst ` set cs \<Longrightarrow> queue_rep (h\<lparr>q_nodes := (q_nodes h)(a := None)\<rparr>) q cs"
  by (simp add: queue_rep_def)

lemma queue_node_alloc_ok:
  "\<not> alloc_fails (q_plan h) \<Longrightarrow> queue_node_alloc data h =
     (q_brk h, h\<lparr>q_nodes := (q_nodes h)(q_brk h \<mapsto> \<lparr>qn_data = data, qn_next = NULL\<rparr>),
                  q_brk := Suc (q_brk h), q_plan := alloc_rest (q_plan h)\<rparr>)"
  by (simp add: queue_node_alloc_def)

lemma queue_rep_fresh: "queue_rep h q cs \<Longrightarrow> queue_heap_ok h \<Longrightarrow> q_brk h \<notin> fst ` set cs"
  unfolding queue_rep_def queue_heap_ok_def using qseg_allocated [of "q_nodes h" "q_head q" cs NULL "q_brk h"] by auto

lemma queue_rep_alloc:
  assumes "queue_rep h q cs" and "queue_heap_ok h"
  shows "queue_rep (h\<lparr>q_nodes := (q_nodes h)(q_brk h \<mapsto> n), q_brk := Suc (q_brk h), q_plan := pl\<rparr>) q cs"
    and "queue_heap_ok (h\<lparr>q_nodes := (q_nodes h)(q_brk h \<mapsto> n), q_brk := Suc (q_brk h), q_plan := pl\<rparr>)"
  using assms queue_rep_fresh [OF assms] by (auto simp: queue_rep_def queue_heap_ok_def)

lemma queue_enqueue_rep:
  assumes rep: "queue_rep h q cs" and ok: "queue_heap_ok h" and al: "\<not> alloc_fails (q_plan h)"
    and d: "d \<noteq> NULL" and nf: "\<not> q_full q cs" and len: "Suc (length cs) < 2 ^ 32"
  shows "\<exists>q' h'. queue_enqueue (Some q) d h = Some (Returned E_SUCCESS, Some q', h') \<and>
    queue_rep h' q' (cs @ [(q_brk h, d)]) \<and> queue_heap_ok h' \<and>
    q_max_size q' = q_max_size q \<and> q_customfree q' = q_customfree q \<and>
    q_released h' = q_released h \<and> q_plan h' = alloc_rest (q_plan h)"
proof -
  let ?h = "h\<lparr>q_nodes := (q_nodes h)(q_brk h \<mapsto> \<lparr>qn_data = d, qn_next = NULL\<rparr>), q_brk := Suc (q_brk h),
              q_plan := alloc_rest (q_plan h)\<rparr>"
  have nz: "q_brk h \<noteq> NULL" using ok by (simp add: queue_heap_ok_def)
  have rep1: "queue_rep ?h q cs" by (rule queue_rep_alloc [OF rep ok])
  have fr: "q_brk h \<notin> fst ` set cs" by (rule queue_rep_fresh [OF rep ok])
  obtain q' h' where L: "enqueue_link (q_brk h) q ?h = Some (q', h')" "queue_rep h' q' (cs @ [(q_brk h, d)])"
      "q_max_size q' = q_max_size q" "q_customfree q' = q_customfree q" "h' = ?h\<lparr>q_nodes := q_nodes h'\<rparr>"
      "\<forall>b. b \<notin> fst ` set cs \<longrightarrow> q_nodes h' b = q_nodes ?h b"
    using enqueue_link_rep [OF rep1 _ nz fr d len] by auto
  have "queue_enqueue (Some q) d h = Some (Returned E_SUCCESS, Some q', h')"
    using L(1) nz d al nf at_capacity_iff [OF rep] by (simp add: queue_enqueue_def queue_node_alloc_ok)
  moreover have other: "q_brk h' = Suc (q_brk h)" "q_released h' = q_released h" "q_plan h' = alloc_rest (q_plan h)"
    by (subst L(5), simp)+
  moreover have "queue_heap_ok h'"
  proof -
    have "q_nodes h' a = None" if "q_brk h' \<le> a" for a
    proof -
      have "a \<notin> fst ` set cs" using qseg_allocated [of "q_nodes h" "q_head q" cs NULL a] rep ok other that
        by (auto simp: queue_rep_def queue_heap_ok_def)
      then have "q_nodes h' a = q_nodes ?h a" using L(6) by blast
      then show ?thesis using ok other that by (simp add: queue_heap_ok_def)
    qed
    then show ?thesis using other by (simp add: queue_heap_ok_def)
  qed
  ultimately show ?thesis using L by auto
qed

lemma queue_enqueue_full:
  assumes "queue_rep h q cs" and "queue_heap_ok h" and "\<not> alloc_fails (q_plan h)" and "d \<noteq> NULL" and "q_full q cs"
  shows "\<exists>h'. queue_enqueue (Some q) d h = Some (Blocked, Some q, h') \<and> queue_rep h' q cs"
  using assms at_capacity_iff [OF assms(1)] queue_rep_alloc(1) [OF assms(1,2)]
  by (simp add: queue_enqueue_def queue_node_alloc_ok queue_heap_ok_def)

lemma queue_dequeue_rep:
  assumes rep: "queue_rep h q ((a, d) # cs)" and ok: "queue_heap_ok h"
  shows "\<exists>q' h'. queue_dequeue sh (Some q) h = Some (Returned d, Some q', h') \<and>
    queue_rep h' q' cs \<and> queue_heap_ok h' \<and> q_max_size q' = q_max_size q \<and>
    q_customfree q' = q_customfree q \<and> h' = h\<lparr>q_nodes := (q_nodes h)(a := None)\<rparr>"
proof -
  note U = dequeue_unlink_rep [OF rep]
  obtain q' where q': "dequeue_unlink q h = Some (d, a, q')" "queue_rep h q' cs"
      "q_max_size q' = q_max_size q" "q_customfree q' = q_customfree q"
    using U(1) by blast
  let ?h = "h\<lparr>q_nodes := (q_nodes h)(a := None)\<rparr>"
  have "queue_dequeue sh (Some q) h = Some (Returned d, Some q', ?h)"
    using q'(1) U(2,3) queue_rep_empty [OF rep] by (auto simp: queue_dequeue_def free_qnode_def)
  moreover have "queue_heap_ok ?h" using ok by (simp add: queue_heap_ok_def)
  ultimately show ?thesis using q' queue_rep_free [OF q'(2) U(4)] by auto
qed

lemma queue_dequeue_empty:
  "queue_rep h q [] \<Longrightarrow> queue_dequeue sh (Some q) h = Some (if sh then Returned NULL else Blocked, Some q, h)"
  using queue_rep_empty [of h q "[]"] by (simp add: queue_dequeue_def)

lemma queue_peek_rep:
  "queue_rep h q cs \<Longrightarrow> queue_peek (Some q) h = Some (if cs = [] then NULL else snd (hd cs))"
  by (cases cs) (auto simp: queue_peek_def queue_rep_def)

text \<open>\<open>queue_clear\<close> ends, whether or not a shutdown is signalled, and releases the data in
  queue order.\<close>

lemma queue_clear_loop_rep:
  assumes "queue_rep h q cs" and "queue_heap_ok h"
  shows "\<exists>q' h'. queue_clear_loop sh q h = Some (Returned (), q', h') \<and> queue_rep h' q' [] \<and>
    queue_heap_ok h' \<and> q_max_size q' = q_max_size q \<and>
    q_nodes h' = (q_nodes h) |` (- fst ` set cs) \<and>
    q_released h' = q_released h @ concat (map (q_customfree q) (map snd cs))"
  using assms
proof (induction cs arbitrary: q h)
  case Nil
  then have "q_current_size q = 0" using queue_rep_empty by blast
  then show ?case using Nil by (subst queue_clear_loop.simps) auto
next
  case (Cons x cs)
  obtain a d where x: "x = (a, d)" by (cases x)
  obtain q' where D: "queue_dequeue sh (Some q) h = Some (Returned d, Some q', h\<lparr>q_nodes := (q_nodes h)(a := None)\<rparr>)"
      "queue_rep (h\<lparr>q_nodes := (q_nodes h)(a := None)\<rparr>) q' cs" "queue_heap_ok (h\<lparr>q_nodes := (q_nodes h)(a := None)\<rparr>)"
      "q_max_size q' = q_max_size q" "q_customfree q' = q_customfree q"
    using queue_dequeue_rep [OF Cons.prems(1) [unfolded x] Cons.prems(2), of sh] by auto
  let ?h = "h\<lparr>q_nodes := (q_nodes h)(a := None), q_released := q_released h @ q_customfree q d\<rparr>"
  have "q_current_size q > 0" using queue_rep_empty [OF Cons.prems(1)] by (simp add: word_neq_0_conv)
  then have st: "queue_clear_loop sh q h = queue_clear_loop sh q' ?h"
    using D by (subst queue_clear_loop.simps) simp
  have "queue_rep ?h q' cs" "queue_heap_ok ?h" using D(2,3) by (simp_all add: queue_rep_def queue_heap_ok_def)
  from Cons.IH [OF this] obtain q2 h2 where "queue_clear_loop sh q' ?h = Some (Returned (), q2, h2)"
      "queue_rep h2 q2 []" "queue_heap_ok h2" "q_max_size q2 = q_max_size q'"
      "q_nodes h2 = (q_nodes ?h) |` (- fst ` set cs)"
      "q_released h2 = q_released ?h @ concat (map (q_customfree q') (map snd cs))"
    by blast
  moreover have "((q_nodes h)(a := None)) |` (- fst ` set cs) = (q_nodes h) |` (- fst ` set (x # cs))"
    using x by (auto simp: restrict_map_def)
  ultimately show ?case using st x D(4,5) by (intro exI [of _ q2] exI [of _ h2]) (simp only:; simp)
qed

lemma queue_destroy_rep:
  assumes "queue_rep h q cs" and "queue_heap_ok h"
  shows "\<exists>h'. queue_destroy sh (Some q) h = Some (Returned (), None, h') \<and>
    q_nodes h' = (q_nodes h) |` (- fst ` set cs) \<and>
    q_released h' = q_released h @ concat (map (q_customfree q) (map snd cs))"
  using queue_clear_loop_rep [OF assms, of sh] by (auto simp: queue_destroy_def queue_clear_def)

section \<open>The abstract queue\<close>

datatype queue_op = Enqueue ptr | Dequeue | Peek_front | Empty_test | Full_test

datatype queue_out = Q_code int | Q_data ptr | Q_bool bool

text \<open>A queue with bound \<open>mx\<close> (0 for none) is a list, front first.  The allowed operations are
  the ones that do not block.\<close>

fun queue_spec :: "nat \<Rightarrow> queue_op \<Rightarrow> ptr list \<Rightarrow> queue_out \<times> ptr list" where
  "queue_spec mx (Enqueue d) ds =
     (if d = NULL then (Q_code E_FAILURE, ds) else (Q_code E_SUCCESS, ds @ [d]))"
| "queue_spec mx Dequeue ds = (if ds = [] then (Q_data NULL, []) else (Q_data (hd ds), tl ds))"
| "queue_spec mx Peek_front ds = (Q_data (if ds = [] then NULL else hd ds), ds)"
| "queue_spec mx Empty_test ds = (Q_bool (ds = []), ds)"
| "queue_spec mx Full_test ds = (Q_bool (mx \<noteq> 0 \<and> mx \<le> length ds), ds)"

fun queue_nonblocking :: "nat \<Rightarrow> bool \<Rightarrow> queue_op \<Rightarrow> ptr list \<Rightarrow> bool" where
  "queue_nonblocking mx sh (Enqueue d) ds =
     (d = NULL \<or> \<not> (mx \<noteq> 0 \<and> mx \<le> length ds) \<and> Suc (length ds) < 2 ^ 32)"
| "queue_nonblocking mx sh Dequeue ds = (sh \<or> ds \<noteq> [])"
| "queue_nonblocking mx sh _ ds = True"

fun queue_step :: "bool \<Rightarrow> queue_op \<Rightarrow> queue_t \<times> queue_heap \<Rightarrow> (queue_out \<times> queue_t \<times> queue_heap) option" where
  "queue_step sh (Enqueue d) (q, h) =
     do { (r, q', h') \<leftarrow> queue_enqueue (Some q) d h; q' \<leftarrow> q';
          (case r of Returned c \<Rightarrow> Some (Q_code c, q', h') | Blocked \<Rightarrow> None) }"
| "queue_step sh Dequeue (q, h) =
     do { (r, q', h') \<leftarrow> queue_dequeue sh (Some q) h; q' \<leftarrow> q';
          (case r of Returned d \<Rightarrow> Some (Q_data d, q', h') | Blocked \<Rightarrow> None) }"
| "queue_step sh Peek_front (q, h) = do { d \<leftarrow> queue_peek (Some q) h; Some (Q_data d, q, h) }"
| "queue_step sh Empty_test (q, h) = do { b \<leftarrow> queue_is_empty (Some q); Some (Q_bool b, q, h) }"
| "queue_step sh Full_test (q, h) = do { b \<leftarrow> queue_is_full (Some q); Some (Q_bool b, q, h) }"

definition queue_abs :: "nat \<Rightarrow> queue_t \<times> queue_heap \<Rightarrow> ptr list \<Rightarrow> bool" where
  "queue_abs mx c ds \<longleftrightarrow>
     (\<exists>cs. queue_rep (snd c) (fst c) cs \<and> ds = map snd cs \<and> queue_heap_ok (snd c) \<and>
        q_plan (snd c) = [] \<and> unat (q_max_size (fst c)) = mx)"

lemma queue_is_full_capacity: "queue_is_full (Some q) = Some (at_capacity q)"
  by (simp add: queue_is_full_def at_capacity_def)

lemma queue_step_refines:
  assumes "queue_abs mx c ds" and "queue_nonblocking mx sh o1 ds"
  shows "\<exists>c'. queue_step sh o1 c = Some (fst (queue_spec mx o1 ds), c') \<and> queue_abs mx c' (snd (queue_spec mx o1 ds))"
proof -
  obtain q h cs where c: "c = (q, h)" "queue_rep h q cs" "ds = map snd cs" "queue_heap_ok h" "q_plan h = []"
      "unat (q_max_size q) = mx"
    using assms(1) by (cases c) (auto simp: queue_abs_def)
  have full: "q_full q cs \<longleftrightarrow> mx \<noteq> 0 \<and> mx \<le> length cs"
    using c(6) unat_eq_zero [of "q_max_size q"] by (auto simp: q_full_def)
  show ?thesis
  proof (cases o1)
    case (Enqueue d)
    show ?thesis
    proof (cases "d = NULL")
      case True
      then show ?thesis using assms(1) Enqueue c by (auto simp: queue_enqueue_def)
    next
      case False
      then have "\<not> q_full q cs" "Suc (length cs) < 2 ^ 32" using assms(2) Enqueue c(3) full by auto
      from queue_enqueue_rep [OF c(2,4) _ False this] c False show ?thesis
        by (fastforce simp: queue_abs_def Enqueue)
    qed
  next
    case Dequeue
    show ?thesis
    proof (cases cs)
      case Nil
      then show ?thesis using assms Dequeue c queue_dequeue_empty [of h q sh] by auto
    next
      case (Cons x cs')
      then have "queue_rep h q ((fst x, snd x) # cs')" using c(2) by simp
      from queue_dequeue_rep [OF this c(4), of sh] show ?thesis using Dequeue c Cons
        by (fastforce simp: queue_abs_def)
    qed
  next
    case Peek_front
    then show ?thesis using assms c queue_peek_rep [OF c(2)] by (auto simp: hd_map)
  next
    case Empty_test
    then show ?thesis using assms c queue_rep_empty [OF c(2)] by (auto simp: queue_is_empty_def)
  next
    case Full_test
    then show ?thesis using assms c full at_capacity_iff [OF c(2)] by (auto simp: queue_is_full_capacity)
  qed
qed

interpretation bqueue: refinement "queue_step sh" "queue_spec mx" "queue_nonblocking mx sh" "queue_abs mx" for sh mx
  by unfold_locales (rule queue_step_refines)

end
