(* ===== verification/Queue_Monitor.thy ===== *)
theory Queue_Monitor
  imports Queue
begin

text \<open>
  DSA/queue/src/queue.c under concurrency: any number of threads call \<open>queue_enqueue\<close> and
  \<open>queue_dequeue\<close> on one queue.  A thread's program counter says where in the function it is;
  the steps between two synchronisation points are atomic, because they run under the mutex or on
  memory no other thread can reach.  \<open>pthread_cond_wait\<close> releases the mutex and may return at
  any time (POSIX allows spurious wakeups), after which the thread has to take the mutex again.
\<close>

section \<open>Threads and steps\<close>

datatype pc =
    Idle
  | Enq_lock ptr      \<comment> \<open>node allocated and filled, about to take the mutex (again)\<close>
  | Enq_loop ptr      \<comment> \<open>mutex held, at the head of the while loop\<close>
  | Enq_waiting ptr   \<comment> \<open>inside pthread_cond_wait on not_full\<close>
  | Deq_lock
  | Deq_loop
  | Deq_waiting
  | Deq_free ptr ptr  \<comment> \<open>mutex released, node to free and data to return\<close>

record monitor =
  m_queue :: queue_t
  m_heap :: queue_heap
  m_lock :: "nat option"
  m_pc :: "nat \<Rightarrow> pc"
  m_shutdown :: bool
  m_in :: "ptr list"   \<comment> \<open>ghost: data linked in so far, oldest first\<close>
  m_out :: "ptr list"  \<comment> \<open>ghost: data taken out so far, oldest first\<close>

inductive mstep :: "monitor \<Rightarrow> monitor \<Rightarrow> bool" where
  enq_call: "m_pc s t = Idle \<Longrightarrow> data \<noteq> NULL \<Longrightarrow> queue_node_alloc data (m_heap s) = (n, h) \<Longrightarrow> n \<noteq> NULL \<Longrightarrow>
    mstep s (s\<lparr>m_heap := h, m_pc := (m_pc s)(t := Enq_lock n)\<rparr>)"
| enq_fail: "m_pc s t = Idle \<Longrightarrow> data \<noteq> NULL \<Longrightarrow> queue_node_alloc data (m_heap s) = (NULL, h) \<Longrightarrow>
    mstep s (s\<lparr>m_heap := h\<rparr>)"
| enq_lock: "m_pc s t = Enq_lock n \<Longrightarrow> m_lock s = None \<Longrightarrow>
    mstep s (s\<lparr>m_lock := Some t, m_pc := (m_pc s)(t := Enq_loop n)\<rparr>)"
| enq_wait: "m_pc s t = Enq_loop n \<Longrightarrow> at_capacity (m_queue s) \<Longrightarrow>
    mstep s (s\<lparr>m_lock := None, m_pc := (m_pc s)(t := Enq_waiting n)\<rparr>)"
| enq_wake: "m_pc s t = Enq_waiting n \<Longrightarrow> mstep s (s\<lparr>m_pc := (m_pc s)(t := Enq_lock n)\<rparr>)"
| enq_link: "m_pc s t = Enq_loop n \<Longrightarrow> \<not> at_capacity (m_queue s) \<Longrightarrow>
    enqueue_link n (m_queue s) (m_heap s) = Some (q, h) \<Longrightarrow> q_nodes (m_heap s) n = Some nd \<Longrightarrow>
    mstep s (s\<lparr>m_queue := q, m_heap := h, m_lock := None, m_pc := (m_pc s)(t := Idle),
               m_in := m_in s @ [qn_data nd]\<rparr>)"
| deq_call: "m_pc s t = Idle \<Longrightarrow> mstep s (s\<lparr>m_pc := (m_pc s)(t := Deq_lock)\<rparr>)"
| deq_lock: "m_pc s t = Deq_lock \<Longrightarrow> m_lock s = None \<Longrightarrow>
    mstep s (s\<lparr>m_lock := Some t, m_pc := (m_pc s)(t := Deq_loop)\<rparr>)"
| deq_shutdown: "m_pc s t = Deq_loop \<Longrightarrow> q_current_size (m_queue s) = 0 \<Longrightarrow> m_shutdown s \<Longrightarrow>
    mstep s (s\<lparr>m_lock := None, m_pc := (m_pc s)(t := Idle)\<rparr>)"
| deq_wait: "m_pc s t = Deq_loop \<Longrightarrow> q_current_size (m_queue s) = 0 \<Longrightarrow> \<not> m_shutdown s \<Longrightarrow>
    mstep s (s\<lparr>m_lock := None, m_pc := (m_pc s)(t := Deq_waiting)\<rparr>)"
| deq_wake: "m_pc s t = Deq_waiting \<Longrightarrow> mstep s (s\<lparr>m_pc := (m_pc s)(t := Deq_lock)\<rparr>)"
| deq_unlink: "m_pc s t = Deq_loop \<Longrightarrow> q_current_size (m_queue s) \<noteq> 0 \<Longrightarrow>
    dequeue_unlink (m_queue s) (m_heap s) = Some (data, n, q) \<Longrightarrow>
    mstep s (s\<lparr>m_queue := q, m_lock := None, m_pc := (m_pc s)(t := Deq_free n data), m_out := m_out s @ [data]\<rparr>)"
| deq_free: "m_pc s t = Deq_free n data \<Longrightarrow> free_qnode n (m_heap s) = Some h \<Longrightarrow>
    mstep s (s\<lparr>m_heap := h, m_pc := (m_pc s)(t := Idle)\<rparr>)"
| signal: "mstep s (s\<lparr>m_shutdown := True\<rparr>)"

inductive_cases mstepE: "mstep s s'"

inductive mreach :: "monitor \<Rightarrow> monitor \<Rightarrow> bool" for s0 where
  init: "mreach s0 s0"
| step: "mreach s0 s \<Longrightarrow> mstep s s' \<Longrightarrow> mreach s0 s'"

definition start :: "queue_t \<Rightarrow> queue_heap \<Rightarrow> monitor" where
  "start q h = \<lparr>m_queue = q, m_heap = h, m_lock = None, m_pc = (\<lambda>_. Idle), m_shutdown = False,
                m_in = [], m_out = []\<rparr>"

text \<open>A thread's next memory access is undefined behaviour.\<close>

definition faults :: "monitor \<Rightarrow> nat \<Rightarrow> bool" where
  "faults s t \<longleftrightarrow>
     (case m_pc s t of
        Enq_loop n \<Rightarrow> \<not> at_capacity (m_queue s) \<and>
          (q_nodes (m_heap s) n = None \<or> enqueue_link n (m_queue s) (m_heap s) = None)
      | Deq_loop \<Rightarrow> q_current_size (m_queue s) \<noteq> 0 \<and> dequeue_unlink (m_queue s) (m_heap s) = None
      | Deq_free n d \<Rightarrow> free_qnode n (m_heap s) = None
      | _ \<Rightarrow> False)"

section \<open>The invariant\<close>

fun pending :: "pc \<Rightarrow> ptr option" where
  "pending (Enq_lock n) = Some n"
| "pending (Enq_loop n) = Some n"
| "pending (Enq_waiting n) = Some n"
| "pending _ = None"

fun owned :: "pc \<Rightarrow> ptr option" where
  "owned (Deq_free n d) = Some n"
| "owned p = pending p"

fun critical :: "pc \<Rightarrow> bool" where
  "critical (Enq_loop n) = True"
| "critical Deq_loop = True"
| "critical _ = False"

text \<open>The nodes threads own: allocated, outside the chain, one owner each; a pending node is
  filled and unlinked.\<close>

definition owners_ok :: "(nat \<Rightarrow> pc) \<Rightarrow> queue_heap \<Rightarrow> ptr set \<Rightarrow> bool" where
  "owners_ok p h A \<longleftrightarrow>
     (\<forall>t n. owned (p t) = Some n \<longrightarrow> n \<noteq> NULL \<and> n \<notin> A \<and> q_nodes h n \<noteq> None) \<and>
     (\<forall>t n. pending (p t) = Some n \<longrightarrow> (\<exists>d. d \<noteq> NULL \<and> q_nodes h n = Some \<lparr>qn_data = d, qn_next = NULL\<rparr>)) \<and>
     (\<forall>t t' n. owned (p t) = Some n \<longrightarrow> owned (p t') = Some n \<longrightarrow> t = t')"

definition lock_ok :: "(nat \<Rightarrow> pc) \<Rightarrow> nat option \<Rightarrow> bool" where
  "lock_ok p l \<longleftrightarrow> (\<forall>t. critical (p t) \<longleftrightarrow> l = Some t)"

definition bounded_by :: "32 word \<Rightarrow> 'a list \<Rightarrow> bool" where
  "bounded_by mx cs \<longleftrightarrow> mx \<noteq> 0 \<longrightarrow> length cs \<le> unat mx"

definition minv :: "32 word \<Rightarrow> monitor \<Rightarrow> (ptr \<times> ptr) list \<Rightarrow> bool" where
  "minv mx s cs \<longleftrightarrow>
     queue_rep (m_heap s) (m_queue s) cs \<and> queue_heap_ok (m_heap s) \<and>
     q_max_size (m_queue s) = mx \<and> bounded_by mx cs \<and>
     m_in s = m_out s @ map snd cs \<and>
     owners_ok (m_pc s) (m_heap s) (fst ` set cs) \<and> lock_ok (m_pc s) (m_lock s)"

text \<open>The size counter cannot wrap: the queue is bounded, or fewer than \<open>2 ^ 32\<close> elements
  were ever linked in.\<close>

definition no_wrap :: "32 word \<Rightarrow> monitor \<Rightarrow> bool" where
  "no_wrap mx s \<longleftrightarrow> mx \<noteq> 0 \<or> length (m_in s) < 2 ^ 32"

lemma pending_owned: "pending p = Some n \<Longrightarrow> owned p = Some n"
  by (cases p) auto

lemma owners_okD:
  assumes "owners_ok p h A"
  shows "owned (p t) = Some n \<Longrightarrow> n \<noteq> NULL \<and> n \<notin> A \<and> q_nodes h n \<noteq> None"
    and "pending (p t) = Some n \<Longrightarrow> \<exists>d. d \<noteq> NULL \<and> q_nodes h n = Some \<lparr>qn_data = d, qn_next = NULL\<rparr>"
    and "owned (p t) = Some n \<Longrightarrow> owned (p t') = Some n \<Longrightarrow> t = t'"
  using assms unfolding owners_ok_def by blast+

lemma owners_ok_pc:
  "owners_ok p h A \<Longrightarrow> owned x = owned (p t) \<Longrightarrow> pending x = pending (p t) \<Longrightarrow> owners_ok (p(t := x)) h A"
  unfolding owners_ok_def by simp metis

lemma owners_ok_drop:
  "owners_ok p h A \<Longrightarrow> owned x = None \<Longrightarrow> pending x = None \<Longrightarrow> owners_ok (p(t := x)) h A"
  unfolding owners_ok_def by simp

text \<open>The chain and the heap change, but not the nodes other threads own.\<close>

lemma owners_ok_heap:
  assumes "owners_ok p h A" and "\<And>t n. owned (p t) = Some n \<Longrightarrow> q_nodes h' n = q_nodes h n \<and> n \<notin> A'"
  shows "owners_ok p h' A'"
  unfolding owners_ok_def
proof (intro conjI allI impI)
  fix t n assume "owned (p t) = Some n"
  with assms(2) [OF this] owners_okD(1) [OF assms(1) this]
  show "n \<noteq> NULL" "n \<notin> A'" "q_nodes h' n \<noteq> None" by auto
next
  fix t n assume a: "pending (p t) = Some n"
  then show "\<exists>d. d \<noteq> NULL \<and> q_nodes h' n = Some \<lparr>qn_data = d, qn_next = NULL\<rparr>"
    using owners_okD(2) [OF assms(1) a] assms(2) [OF pending_owned [OF a]] by simp
next
  fix t t' n assume "owned (p t) = Some n" and "owned (p t') = Some n"
  then show "t = t'" by (rule owners_okD(3) [OF assms(1)])
qed

lemma lock_ok_acquire: "lock_ok p None \<Longrightarrow> critical x \<Longrightarrow> lock_ok (p(t := x)) (Some t)"
  by (auto simp: lock_ok_def)

lemma lock_ok_release: "lock_ok p l \<Longrightarrow> critical (p t) \<Longrightarrow> \<not> critical x \<Longrightarrow> lock_ok (p(t := x)) None"
  by (auto simp: lock_ok_def)

lemma lock_ok_keep: "lock_ok p l \<Longrightarrow> critical x = critical (p t) \<Longrightarrow> lock_ok (p(t := x)) l"
  by (auto simp: lock_ok_def)

lemma minvD:
  assumes "minv mx s cs"
  shows "queue_rep (m_heap s) (m_queue s) cs" and "queue_heap_ok (m_heap s)"
    and "q_max_size (m_queue s) = mx" and "bounded_by mx cs" and "m_in s = m_out s @ map snd cs"
    and "owners_ok (m_pc s) (m_heap s) (fst ` set cs)" and "lock_ok (m_pc s) (m_lock s)"
  using assms unfolding minv_def by blast+

section \<open>Preservation, step by step\<close>

text \<open>Steps that only move a thread along and take or release the mutex.\<close>

lemma minv_move:
  assumes "minv mx s cs" and "owned x = owned (m_pc s t)" and "pending x = pending (m_pc s t)"
    and "lock_ok ((m_pc s)(t := x)) l"
  shows "minv mx (s\<lparr>m_lock := l, m_pc := (m_pc s)(t := x)\<rparr>) cs"
  using assms owners_ok_pc [OF minvD(6) [OF assms(1)] assms(2,3)] by (simp add: minv_def)

lemma minv_acquire:
  "minv mx s cs \<Longrightarrow> m_lock s = None \<Longrightarrow> owned x = owned (m_pc s t) \<Longrightarrow> pending x = pending (m_pc s t) \<Longrightarrow>
   critical x \<Longrightarrow> minv mx (s\<lparr>m_lock := Some t, m_pc := (m_pc s)(t := x)\<rparr>) cs"
  using minv_move [of mx s cs x t] lock_ok_acquire [of _ x t] minvD(7) [of mx s cs] by simp

lemma minv_release:
  "minv mx s cs \<Longrightarrow> critical (m_pc s t) \<Longrightarrow> owned x = owned (m_pc s t) \<Longrightarrow> pending x = pending (m_pc s t) \<Longrightarrow>
   \<not> critical x \<Longrightarrow> minv mx (s\<lparr>m_lock := None, m_pc := (m_pc s)(t := x)\<rparr>) cs"
  by (rule minv_move) (auto dest: minvD(7) intro: lock_ok_release)

lemma minv_outside:
  "minv mx s cs \<Longrightarrow> \<not> critical (m_pc s t) \<Longrightarrow> owned x = owned (m_pc s t) \<Longrightarrow> pending x = pending (m_pc s t) \<Longrightarrow>
   \<not> critical x \<Longrightarrow> minv mx (s\<lparr>m_pc := (m_pc s)(t := x)\<rparr>) cs"
  using minv_move [of mx s cs x t "m_lock s"] lock_ok_keep [OF minvD(7), of mx s cs x t] by simp

text \<open>A thread gives up its node; the nodes of the others stay as they are.\<close>

lemma owners_ok_give:
  assumes o: "owners_ok p h A" and n: "owned (p t) = Some n" and x: "owned x = None"
    and h': "\<And>m. m \<noteq> n \<Longrightarrow> m \<notin> A \<Longrightarrow> q_nodes h' m = q_nodes h m" and A': "A' \<subseteq> insert n A"
  shows "owners_ok (p(t := x)) h' A'"
proof -
  have "pending x = None" using x pending_owned by (cases "pending x") auto
  with o x have "owners_ok (p(t := x)) h A" by (intro owners_ok_drop)
  then show ?thesis
  proof (rule owners_ok_heap)
    fix u m assume "owned ((p(t := x)) u) = Some m"
    then have ut: "u \<noteq> t" "owned (p u) = Some m" using x by (auto split: if_splits)
    then have "m \<noteq> n" using owners_okD(3) [OF o ut(2)] n by blast
    moreover have "m \<notin> A" using owners_okD(1) [OF o ut(2)] by blast
    ultimately show "q_nodes h' m = q_nodes h m \<and> m \<notin> A'" using h' A' by auto
  qed
qed

lemma enq_call_owners:
  assumes o: "owners_ok p h A" and i: "p t = Idle" and ok: "queue_heap_ok h" and d: "d \<noteq> NULL" and A: "q_brk h \<notin> A"
  shows "owners_ok (p(t := Enq_lock (q_brk h)))
    (h\<lparr>q_nodes := (q_nodes h)(q_brk h \<mapsto> \<lparr>qn_data = d, qn_next = NULL\<rparr>), q_brk := Suc (q_brk h), q_plan := pl\<rparr>) A"
proof -
  have fresh: "q_nodes h (q_brk h) = None" "q_brk h \<noteq> NULL" using ok by (auto simp: queue_heap_ok_def)
  have other: "owned (p u) = Some n \<Longrightarrow> n \<noteq> q_brk h" for u n
    using owners_okD(1) [OF o, of u n] fresh by auto
  have pn: "pending (p u) = Some n \<Longrightarrow> n \<noteq> q_brk h" for u n
    using other pending_owned by blast
  show ?thesis using o fresh other pn d A unfolding owners_ok_def by (auto simp: i)
qed

lemma enq_call_minv:
  assumes inv: "minv mx s cs" and pc: "m_pc s t = Idle" and d: "data \<noteq> NULL"
    and al: "queue_node_alloc data (m_heap s) = (n, h)" and n: "n \<noteq> NULL"
  shows "minv mx (s\<lparr>m_heap := h, m_pc := (m_pc s)(t := Enq_lock n)\<rparr>) cs"
proof -
  note I = minvD [OF inv]
  have "n = q_brk (m_heap s)" "h = m_heap s\<lparr>q_nodes := (q_nodes (m_heap s))(n \<mapsto> \<lparr>qn_data = data, qn_next = NULL\<rparr>),
      q_brk := Suc n, q_plan := alloc_rest (q_plan (m_heap s))\<rparr>"
    using al n by (auto simp: queue_node_alloc_def split: if_splits)
  then show ?thesis
    using I queue_rep_alloc [OF I(1,2)] enq_call_owners [OF I(6) pc I(2) d queue_rep_fresh [OF I(1,2)]]
      lock_ok_keep [OF I(7), of "Enq_lock n" t] pc by (simp add: minv_def)
qed

lemma enq_room:
  assumes inv: "minv mx s cs" and nc: "\<not> at_capacity (m_queue s)"
    and nw: "mx \<noteq> 0 \<or> Suc (length (m_in s)) < 2 ^ 32"
  shows "Suc (length cs) < 2 ^ 32" and "bounded_by mx (cs @ [x])"
proof -
  note I = minvD [OF inv]
  have nf: "mx \<noteq> 0 \<Longrightarrow> Suc (length cs) \<le> unat mx"
    using nc at_capacity_iff [OF I(1)] I(3) by (simp add: q_full_def)
  then show "bounded_by mx (cs @ [x])" by (simp add: bounded_by_def)
  show "Suc (length cs) < 2 ^ 32"
    using nf nw I(5) unsigned_less [of mx, where ?'a = nat] by (cases "mx = 0") auto
qed

lemma enq_link_minv:
  assumes inv: "minv mx s cs" and pc: "m_pc s t = Enq_loop n" and nc: "\<not> at_capacity (m_queue s)"
    and nw: "mx \<noteq> 0 \<or> Suc (length (m_in s)) < 2 ^ 32"
  shows "\<exists>q h nd. enqueue_link n (m_queue s) (m_heap s) = Some (q, h) \<and> q_nodes (m_heap s) n = Some nd \<and>
    minv mx (s\<lparr>m_queue := q, m_heap := h, m_lock := None, m_pc := (m_pc s)(t := Idle),
               m_in := m_in s @ [qn_data nd]\<rparr>) (cs @ [(n, qn_data nd)])"
proof -
  note I = minvD [OF inv]
  have pn: "pending (m_pc s t) = Some n" "owned (m_pc s t) = Some n" using pc by simp_all
  obtain d where d: "d \<noteq> NULL" "q_nodes (m_heap s) n = Some \<lparr>qn_data = d, qn_next = NULL\<rparr>"
    using owners_okD(2) [OF I(6) pn(1)] by blast
  have n: "n \<noteq> NULL" "n \<notin> fst ` set cs" using owners_okD(1) [OF I(6) pn(2)] by auto
  note room = enq_room [OF inv nc nw]
  obtain q h where L: "enqueue_link n (m_queue s) (m_heap s) = Some (q, h)" "queue_rep h q (cs @ [(n, d)])"
      "q_max_size q = mx" "h = m_heap s\<lparr>q_nodes := q_nodes h\<rparr>"
      "\<forall>b. b \<notin> fst ` set cs \<longrightarrow> q_nodes h b = q_nodes (m_heap s) b"
    using enqueue_link_rep [OF I(1) d(2) n d(1) room(1)] I(3) by auto
  have brk: "q_brk h = q_brk (m_heap s)" by (subst L(4)) simp
  have hok: "queue_heap_ok h"
    using I(1,2) brk L(5) qseg_allocated [of "q_nodes (m_heap s)" "q_head (m_queue s)" cs NULL]
    unfolding queue_heap_ok_def queue_rep_def by metis
  have ow: "owners_ok ((m_pc s)(t := Idle)) h (fst ` set (cs @ [(n, d)]))"
    by (rule owners_ok_give [OF I(6) pn(2)]) (use L(5) in auto)
  show ?thesis
    using I L(1-3) room(2) [of "(n, d)"] hok ow d(2) pc lock_ok_release [OF I(7), of t Idle]
    by (simp add: minv_def)
qed

lemma deq_unlink_minv:
  assumes inv: "minv mx s cs" and pc: "m_pc s t = Deq_loop" and ne: "q_current_size (m_queue s) \<noteq> 0"
  shows "\<exists>data n q cs'. dequeue_unlink (m_queue s) (m_heap s) = Some (data, n, q) \<and> cs = (n, data) # cs' \<and>
    minv mx (s\<lparr>m_queue := q, m_lock := None, m_pc := (m_pc s)(t := Deq_free n data), m_out := m_out s @ [data]\<rparr>) cs'"
proof -
  note I = minvD [OF inv]
  obtain a d cs' where cs: "cs = (a, d) # cs'" using ne queue_rep_empty [OF I(1)] by (cases cs) auto
  note U = dequeue_unlink_rep [OF I(1) [unfolded cs]]
  obtain q where q: "dequeue_unlink (m_queue s) (m_heap s) = Some (d, a, q)" "queue_rep (m_heap s) q cs'" "q_max_size q = mx"
    using U(1) I(3) by auto
  have ow: "owners_ok ((m_pc s)(t := Deq_free a d)) (m_heap s) (fst ` set cs')"
    using I(6) U(2-4) pc cs unfolding owners_ok_def by auto
  have "bounded_by mx cs'" using I(4) cs by (auto simp: bounded_by_def)
  then show ?thesis
    using I q ow cs pc lock_ok_release [OF I(7), of t "Deq_free a d"] by (simp add: minv_def)
qed

lemma deq_free_minv:
  assumes inv: "minv mx s cs" and pc: "m_pc s t = Deq_free n data"
  shows "\<exists>h. free_qnode n (m_heap s) = Some h \<and> minv mx (s\<lparr>m_heap := h, m_pc := (m_pc s)(t := Idle)\<rparr>) cs"
proof -
  note I = minvD [OF inv]
  let ?h = "m_heap s\<lparr>q_nodes := (q_nodes (m_heap s))(n := None)\<rparr>"
  have own: "owned (m_pc s t) = Some n" using pc by simp
  have n: "n \<noteq> NULL" "n \<notin> fst ` set cs" "q_nodes (m_heap s) n \<noteq> None"
    using owners_okD(1) [OF I(6) own] by blast+
  then have fr: "free_qnode n (m_heap s) = Some ?h" by (auto simp: free_qnode_def)
  have "owners_ok ((m_pc s)(t := Idle)) ?h (fst ` set cs)"
    by (rule owners_ok_give [OF I(6) own]) auto
  moreover have "queue_heap_ok ?h" using I(2) by (simp add: queue_heap_ok_def)
  ultimately show ?thesis
    using I fr n(2) pc queue_rep_free [OF I(1) n(2)] lock_ok_keep [OF I(7), of Idle t] by (simp add: minv_def)
qed

lemma mstep_minv:
  assumes "mstep s s'" and inv: "minv mx s cs" and nw: "no_wrap mx s'"
  shows "\<exists>cs'. minv mx s' cs'"
  using assms(1)
proof cases
  case (enq_call t data n h)
  then show ?thesis using enq_call_minv [OF inv] by blast
next
  case (enq_fail t data h)
  then have "h = m_heap s\<lparr>q_plan := alloc_rest (q_plan (m_heap s))\<rparr>"
    using minvD(2) [OF inv] by (auto simp: queue_node_alloc_def queue_heap_ok_def split: if_splits)
  then have "minv mx s' cs" using inv enq_fail(1)
    by (simp add: minv_def queue_rep_def queue_heap_ok_def owners_ok_def)
  then show ?thesis ..
next
  case (enq_link t n q h nd)
  then show ?thesis using enq_link_minv [OF inv enq_link(2,3)] nw by (auto simp: no_wrap_def)
next
  case (deq_unlink t data n q)
  then show ?thesis using deq_unlink_minv [OF inv deq_unlink(2,3)] by auto
next
  case (deq_free t n data h)
  then show ?thesis using deq_free_minv [OF inv deq_free(2)] by auto
next
  case signal
  then have "minv mx s' cs" using inv by (simp add: minv_def)
  then show ?thesis ..
qed (use inv in \<open>auto intro!: exI [of _ cs] minv_acquire minv_release minv_outside\<close>)

lemma no_wrap_mono: "mstep s s' \<Longrightarrow> no_wrap mx s' \<Longrightarrow> no_wrap mx s"
  by (erule mstepE) (auto simp: no_wrap_def)

lemma mreach_minv:
  assumes "mreach (start q h) s" and "queue_rep h q []" and "queue_heap_ok h" and "no_wrap (q_max_size q) s"
  shows "\<exists>cs. minv (q_max_size q) s cs"
  using assms
proof (induction rule: mreach.induct)
  case init
  then have "minv (q_max_size q) (start q h) []"
    by (simp add: minv_def start_def owners_ok_def lock_ok_def bounded_by_def)
  then show ?case ..
next
  case (step s s')
  then show ?case using no_wrap_mono mstep_minv by metis
qed

lemma minv_no_fault:
  assumes inv: "minv mx s cs" and nw: "mx \<noteq> 0 \<or> Suc (length (m_in s)) < 2 ^ 32"
  shows "\<not> faults s t"
proof (cases "m_pc s t")
  case (Enq_loop n)
  then show ?thesis using enq_link_minv [OF inv _ _ nw, of t n] by (auto simp: faults_def)
next
  case Deq_loop
  then show ?thesis using deq_unlink_minv [OF inv, of t] by (auto simp: faults_def)
next
  case (Deq_free n d)
  then show ?thesis using deq_free_minv [OF inv, of t n d] by (auto simp: faults_def)
qed (simp_all add: faults_def)

section \<open>Calls that can complete do\<close>

lemma mreach_trans: "mreach s1 s2 \<Longrightarrow> mreach s0 s1 \<Longrightarrow> mreach s0 s2"
  by (induction rule: mreach.induct) (auto intro: mreach.step)

text \<open>An idle thread that finds the mutex free and room in the queue can carry its
  \<open>queue_enqueue\<close> through.\<close>

lemma enqueue_completes:
  assumes inv: "minv mx s cs" and pc: "m_pc s t = Idle" and lk: "m_lock s = None" and d: "d \<noteq> NULL"
    and al: "\<not> alloc_fails (q_plan (m_heap s))" and nc: "\<not> at_capacity (m_queue s)"
    and nw: "mx \<noteq> 0 \<or> Suc (length (m_in s)) < 2 ^ 32"
  shows "\<exists>s' n. mreach s s' \<and> minv mx s' (cs @ [(n, d)]) \<and> m_in s' = m_in s @ [d] \<and> m_out s' = m_out s \<and>
    m_pc s' = m_pc s \<and> m_lock s' = None"
proof -
  obtain n h1 where A: "queue_node_alloc d (m_heap s) = (n, h1)" "n \<noteq> NULL" "q_nodes h1 n = Some \<lparr>qn_data = d, qn_next = NULL\<rparr>"
    using al minvD(2) [OF inv] by (simp add: queue_node_alloc_def queue_heap_ok_def)
  let ?s1 = "s\<lparr>m_heap := h1, m_pc := (m_pc s)(t := Enq_lock n)\<rparr>"
  let ?s2 = "?s1\<lparr>m_lock := Some t, m_pc := (m_pc ?s1)(t := Enq_loop n)\<rparr>"
  have 1: "mstep s ?s1" by (rule mstep.enq_call [OF pc d A(1,2)])
  have i1: "minv mx ?s1 cs" by (rule enq_call_minv [OF inv pc d A(1,2)])
  have 2: "mstep ?s1 ?s2" by (rule mstep.enq_lock) (simp_all add: lk)
  have i2: "minv mx ?s2 cs" by (rule minv_acquire [OF i1]) (simp_all add: lk)
  obtain q h nd where L: "enqueue_link n (m_queue ?s2) (m_heap ?s2) = Some (q, h)" "q_nodes (m_heap ?s2) n = Some nd"
      "minv mx (?s2\<lparr>m_queue := q, m_heap := h, m_lock := None, m_pc := (m_pc ?s2)(t := Idle), m_in := m_in ?s2 @ [qn_data nd]\<rparr>)
         (cs @ [(n, qn_data nd)])" (is "minv mx ?s3 _")
    using enq_link_minv [OF i2, of t n] nc nw by auto
  have 3: "mstep ?s2 ?s3" by (rule mstep.enq_link [OF _ _ L(1,2)]) (use nc in simp_all)
  have nd: "qn_data nd = d" using L(2) A(3) by auto
  have "(m_pc s)(t := Idle) = m_pc s" using pc by (simp add: fun_upd_idem)
  then have "minv mx ?s3 (cs @ [(n, d)])" "m_in ?s3 = m_in s @ [d]" "m_out ?s3 = m_out s" "m_pc ?s3 = m_pc s" "m_lock ?s3 = None"
    using L(3) nd by simp_all
  moreover have "mreach s ?s3" by (rule mreach.step [OF mreach.step [OF mreach.step [OF mreach.init 1] 2] 3])
  ultimately show ?thesis by blast
qed

text \<open>And one that finds the mutex free and an element can carry its \<open>queue_dequeue\<close>
  through; it returns the oldest element.\<close>

lemma dequeue_completes:
  assumes inv: "minv mx s ((n, d) # cs)" and pc: "m_pc s t = Idle" and lk: "m_lock s = None"
  shows "\<exists>s'. mreach s s' \<and> minv mx s' cs \<and> m_in s' = m_in s \<and> m_out s' = m_out s @ [d] \<and>
    m_pc s' = m_pc s \<and> m_lock s' = None \<and> q_nodes (m_heap s') n = None"
proof -
  let ?s1 = "s\<lparr>m_pc := (m_pc s)(t := Deq_lock)\<rparr>"
  let ?s2 = "?s1\<lparr>m_lock := Some t, m_pc := (m_pc ?s1)(t := Deq_loop)\<rparr>"
  have 1: "mstep s ?s1" by (rule mstep.deq_call [OF pc])
  have i1: "minv mx ?s1 ((n, d) # cs)" by (rule minv_outside [OF inv]) (simp_all add: pc)
  have 2: "mstep ?s1 ?s2" by (rule mstep.deq_lock) (simp_all add: lk)
  have i2: "minv mx ?s2 ((n, d) # cs)" by (rule minv_acquire [OF i1]) (simp_all add: lk)
  have ne: "q_current_size (m_queue ?s2) \<noteq> 0" using queue_rep_empty [OF minvD(1) [OF i2]] by simp
  obtain q where U: "dequeue_unlink (m_queue ?s2) (m_heap ?s2) = Some (d, n, q)"
      "minv mx (?s2\<lparr>m_queue := q, m_lock := None, m_pc := (m_pc ?s2)(t := Deq_free n d), m_out := m_out ?s2 @ [d]\<rparr>) cs"
      (is "minv mx ?s3 _")
    using deq_unlink_minv [OF i2 _ ne, of t] by auto
  have 3: "mstep ?s2 ?s3" by (rule mstep.deq_unlink [OF _ ne U(1)]) simp
  obtain h where F: "free_qnode n (m_heap ?s3) = Some h" "minv mx (?s3\<lparr>m_heap := h, m_pc := (m_pc ?s3)(t := Idle)\<rparr>) cs"
      (is "minv mx ?s4 _")
    using deq_free_minv [OF U(2), of t n d] by auto
  have 4: "mstep ?s3 ?s4" by (rule mstep.deq_free [OF _ F(1)]) simp
  have "q_nodes h n = None" using F(1) by (auto simp: free_qnode_def free_at_def bind_Some_iff)
  moreover have "(m_pc s)(t := Idle) = m_pc s" using pc by (simp add: fun_upd_idem)
  ultimately have "minv mx ?s4 cs" "m_in ?s4 = m_in s" "m_out ?s4 = m_out s @ [d]" "m_pc ?s4 = m_pc s" "m_lock ?s4 = None"
      "q_nodes (m_heap ?s4) n = None"
    using F(2) by simp_all
  moreover have "mreach s ?s4"
    by (rule mreach.step [OF mreach.step [OF mreach.step [OF mreach.step [OF mreach.init 1] 2] 3] 4])
  ultimately show ?thesis by blast
qed

end
