(* ===== verification/Vector.thy ===== *)
theory Vector
  imports Comparisons Refinement "HOL-Library.Multiset"
begin

text \<open>
  DSA/vector/src/vector.c: the growable array of pointers.  The vector object is passed as a value
  (\<open>None\<close> is a NULL \<open>vector_t *\<close>) and returned updated.  A slot of the elements array is
  \<open>None\<close> while its content is indeterminate, as the part that \<open>realloc\<close> adds is; using
  an indeterminate pointer, reading or moving outside the array, \<open>int\<close> overflow and a
  \<open>realloc\<close> to size zero are undefined behaviour.
\<close>

section \<open>State\<close>

record vector_t =
  v_elements :: "ptr option list"
  v_size :: int
  v_capacity :: int
  v_custom_free :: FREE_F
  v_compare_func :: CMP_F

record vec_env =
  v_plan :: alloc_plan
  v_released :: "ptr list"
  v_acted :: "ptr list"

datatype direction = LEFT | RIGHT

abbreviation v_alloc_fails :: "vec_env \<Rightarrow> bool" where
  "v_alloc_fails e \<equiv> alloc_fails (v_plan e)"

abbreviation v_alloc_next :: "vec_env \<Rightarrow> vec_env" where
  "v_alloc_next e \<equiv> e\<lparr>v_plan := alloc_rest (v_plan e)\<rparr>"

text \<open>\<open>vector->elements[i]\<close> read as a pointer value.\<close>

definition elem :: "vector_t \<Rightarrow> int \<Rightarrow> ptr option" where
  "elem v i = do { x \<leftarrow> arr_get (v_elements v) i; x }"

section \<open>Growing and shifting\<close>

text \<open>These functions are static and only called on a vector that is not NULL.\<close>

definition vector_resize :: "vector_t \<Rightarrow> vec_env \<Rightarrow> (int \<times> vector_t \<times> vec_env) option" where
  "vector_resize v e =
     do {
       c \<leftarrow> c_int (v_capacity v * 2);
       if c \<le> 0 then None
       else if v_alloc_fails e then Some (E_FAILURE, v, v_alloc_next e)
       else Some (E_SUCCESS,
              v\<lparr>v_capacity := c,
                v_elements := v_elements v @ replicate (nat c - length (v_elements v)) None\<rparr>,
              v_alloc_next e) }"

definition vector_shift_elements :: "vector_t \<Rightarrow> int \<Rightarrow> direction \<Rightarrow> (int \<times> vector_t) option" where
  "vector_shift_elements v index direction =
     (if 0 > index \<or> index > v_size v then Some (E_FAILURE, v)
      else do {
        let elements_to_shift = nat (v_size v - index);
        xs \<leftarrow> (case direction of
                 RIGHT \<Rightarrow> memmove (v_elements v) (index + 1) index elements_to_shift
               | LEFT \<Rightarrow> memmove (v_elements v) index (index + 1) elements_to_shift);
        Some (E_SUCCESS, v\<lparr>v_elements := xs\<rparr>) })"

definition vector_shift_elements_right :: "vector_t \<Rightarrow> int \<Rightarrow> (int \<times> vector_t) option" where
  "vector_shift_elements_right v index =
     do {
       (exit_code, v) \<leftarrow> vector_shift_elements v index RIGHT;
       if exit_code \<noteq> E_SUCCESS then Some (exit_code, v)
       else do { n \<leftarrow> c_int (v_size v + 1); Some (E_SUCCESS, v\<lparr>v_size := n\<rparr>) } }"

definition vector_shift_elements_left :: "vector_t \<Rightarrow> int \<Rightarrow> (int \<times> vector_t) option" where
  "vector_shift_elements_left v index =
     do {
       (exit_code, v) \<leftarrow> vector_shift_elements v index LEFT;
       if exit_code \<noteq> E_SUCCESS then Some (exit_code, v)
       else do { n \<leftarrow> c_int (v_size v - 1); Some (E_SUCCESS, v\<lparr>v_size := n\<rparr>) } }"

section \<open>Operations\<close>

text \<open>A negative capacity becomes a huge \<open>size_t\<close>, which \<open>calloc\<close> cannot serve.\<close>

definition vector_new :: "FREE_F option \<Rightarrow> CMP_F option \<Rightarrow> int \<Rightarrow> vec_env \<Rightarrow> vector_t option \<times> vec_env" where
  "vector_new free_func comp_func initial_capacity e =
     (case (free_func, comp_func) of
        (Some f, Some c) \<Rightarrow>
          if v_alloc_fails e then (None, v_alloc_next e)
          else let e = v_alloc_next e
               in if v_alloc_fails e \<or> initial_capacity < 0 then (None, v_alloc_next e)
                  else (Some \<lparr>v_elements = replicate (nat initial_capacity) (Some NULL), v_size = 0,
                              v_capacity = initial_capacity, v_custom_free = f, v_compare_func = c\<rparr>,
                        v_alloc_next e)
      | _ \<Rightarrow> (None, e))"

definition vector_insert ::
  "vector_t option \<Rightarrow> ptr \<Rightarrow> int \<Rightarrow> vec_env \<Rightarrow> (int \<times> vector_t option \<times> vec_env) option" where
  "vector_insert vector data index e =
     (case vector of
        None \<Rightarrow> Some (E_FAILURE, vector, e)
      | Some v \<Rightarrow>
          if data = NULL then Some (E_FAILURE, vector, e)
          else if 0 > index \<or> index > v_size v then Some (E_FAILURE, vector, e)
          else do {
            (exit_code, v, e) \<leftarrow>
              (if v_size v = v_capacity v then vector_resize v e else Some (E_SUCCESS, v, e));
            if exit_code \<noteq> E_SUCCESS then Some (exit_code, Some v, e)
            else do {
              (exit_code, v) \<leftarrow> vector_shift_elements_right v index;
              if exit_code \<noteq> E_SUCCESS then Some (exit_code, Some v, e)
              else do {
                xs \<leftarrow> arr_set (v_elements v) index (Some data);
                Some (E_SUCCESS, Some (v\<lparr>v_elements := xs\<rparr>), e) } } })"

definition vector_append ::
  "vector_t option \<Rightarrow> ptr \<Rightarrow> vec_env \<Rightarrow> (int \<times> vector_t option \<times> vec_env) option" where
  "vector_append vector data e =
     (case vector of
        None \<Rightarrow> Some (E_FAILURE, vector, e)
      | Some v \<Rightarrow>
          if data = NULL then Some (E_FAILURE, vector, e)
          else do {
            (exit_code, vector, e) \<leftarrow> vector_insert vector data (v_size v) e;
            if exit_code \<noteq> E_SUCCESS then Some (exit_code, vector, e)
            else Some (E_SUCCESS, vector, e) })"

definition vector_is_empty :: "vector_t option \<Rightarrow> bool" where
  "vector_is_empty vector = (case vector of None \<Rightarrow> False | Some v \<Rightarrow> v_size v = 0)"

definition vector_pop :: "vector_t option \<Rightarrow> (ptr \<times> vector_t option) option" where
  "vector_pop vector =
     (case vector of
        None \<Rightarrow> Some (NULL, vector)
      | Some v \<Rightarrow> do {
          temp \<leftarrow> elem v (v_size v - 1);
          (exit_code, v) \<leftarrow> vector_shift_elements_left v (v_size v);
          if exit_code \<noteq> E_SUCCESS then Some (NULL, Some v) else Some (temp, Some v) })"

definition vector_remove :: "vector_t option \<Rightarrow> int \<Rightarrow> vec_env \<Rightarrow> (int \<times> vector_t option \<times> vec_env) option" where
  "vector_remove vector index e =
     (case vector of
        None \<Rightarrow> Some (E_FAILURE, vector, e)
      | Some v \<Rightarrow>
          if 0 > index \<or> index > v_size v then Some (E_FAILURE, vector, e)
          else do {
            temp \<leftarrow> elem v index;
            (exit_code, v) \<leftarrow> vector_shift_elements_left v index;
            if exit_code \<noteq> E_SUCCESS then Some (exit_code, Some v, e)
            else Some (E_SUCCESS, Some v, e\<lparr>v_released := v_released e @ v_custom_free v temp\<rparr>) })"

definition vector_get_element :: "vector_t option \<Rightarrow> int \<Rightarrow> ptr option" where
  "vector_get_element vector index =
     (case vector of
        None \<Rightarrow> Some NULL
      | Some v \<Rightarrow> if 0 > index \<or> index > v_size v then Some NULL else elem v index)"

definition vector_set_element :: "vector_t option \<Rightarrow> ptr \<Rightarrow> int \<Rightarrow> (int \<times> vector_t option) option" where
  "vector_set_element vector data index =
     (case vector of
        None \<Rightarrow> Some (E_FAILURE, vector)
      | Some v \<Rightarrow>
          if data = NULL then Some (E_FAILURE, vector)
          else if 0 > index \<or> index > v_size v then Some (E_FAILURE, vector)
          else do {
            xs \<leftarrow> arr_set (v_elements v) index (Some data);
            Some (E_SUCCESS, Some (v\<lparr>v_elements := xs\<rparr>)) })"

definition vector_size :: "vector_t option \<Rightarrow> int" where
  "vector_size vector = (case vector of None \<Rightarrow> - 1 | Some v \<Rightarrow> v_size v)"

definition vector_capacity :: "vector_t option \<Rightarrow> int" where
  "vector_capacity vector = (case vector of None \<Rightarrow> - 1 | Some v \<Rightarrow> v_capacity v)"

text \<open>The counting loops \<open>for (idx = 0; idx < size; idx++)\<close> run over the indices from
  \<open>idx\<close> on, \<open>k\<close> of them being left.\<close>

fun iterate_loop :: "nat \<Rightarrow> vector_t \<Rightarrow> int \<Rightarrow> vec_env \<Rightarrow> vec_env option" where
  "iterate_loop 0 v idx e = Some e"
| "iterate_loop (Suc k) v idx e =
     do { x \<leftarrow> elem v idx; iterate_loop k v (idx + 1) (e\<lparr>v_acted := v_acted e @ [x]\<rparr>) }"

text \<open>\<open>action_given\<close> is whether the action callback is not NULL; its calls are logged.\<close>

definition vector_iterate :: "vector_t option \<Rightarrow> bool \<Rightarrow> vec_env \<Rightarrow> (int \<times> vec_env) option" where
  "vector_iterate vector action_given e =
     (case vector of
        None \<Rightarrow> Some (E_FAILURE, e)
      | Some v \<Rightarrow>
          if \<not> action_given then Some (E_FAILURE, e)
          else do { e \<leftarrow> iterate_loop (nat (v_size v)) v 0 e; Some (E_SUCCESS, e) })"

fun find_first_idx :: "nat \<Rightarrow> vector_t \<Rightarrow> ptr \<Rightarrow> int \<Rightarrow> ptr option" where
  "find_first_idx 0 v search_data idx = Some NULL"
| "find_first_idx (Suc k) v search_data idx =
     do {
       x \<leftarrow> elem v idx;
       c \<leftarrow> v_compare_func v search_data x;
       if c = EQUAL then Some x else find_first_idx k v search_data (idx + 1) }"

definition vector_find_first_occurrence :: "vector_t option \<Rightarrow> ptr \<Rightarrow> ptr option" where
  "vector_find_first_occurrence vector search_data =
     (case vector of
        None \<Rightarrow> Some NULL
      | Some v \<Rightarrow> if search_data = NULL then Some NULL else find_first_idx (nat (v_size v)) v search_data 0)"

fun clear_elems :: "nat \<Rightarrow> vector_t \<Rightarrow> int \<Rightarrow> vec_env \<Rightarrow> vec_env option" where
  "clear_elems 0 v idx e = Some e"
| "clear_elems (Suc k) v idx e =
     do { x \<leftarrow> elem v idx; clear_elems k v (idx + 1) (e\<lparr>v_released := v_released e @ v_custom_free v x\<rparr>) }"

definition vector_clear :: "vector_t option \<Rightarrow> vec_env \<Rightarrow> (int \<times> vector_t option \<times> vec_env) option" where
  "vector_clear vector e =
     (case vector of
        None \<Rightarrow> Some (E_FAILURE, vector, e)
      | Some v \<Rightarrow> do {
          e \<leftarrow> clear_elems (nat (v_size v)) v 0 e;
          Some (E_SUCCESS, Some (v\<lparr>v_size := 0\<rparr>), e) })"

text \<open>\<open>vector_delete\<close> leaves NULL in the caller's pointer.\<close>

definition vector_delete :: "vector_t option \<Rightarrow> vec_env \<Rightarrow> (vector_t option \<times> vec_env) option" where
  "vector_delete vector e =
     (if vector = None then Some (vector, e)
      else do {
        (exit_code, vector, e) \<leftarrow> vector_clear vector e;
        if exit_code \<noteq> E_SUCCESS then Some (vector, e) else Some (None, e) })"

text \<open>The search returns the result vector and the input vector afterwards, which the error path
  of the source deletes.\<close>

fun find_all_idx ::
  "nat \<Rightarrow> vector_t \<Rightarrow> ptr \<Rightarrow> int \<Rightarrow> vector_t \<Rightarrow> vec_env \<Rightarrow> (bool \<times> vector_t \<times> vec_env) option" where
  "find_all_idx 0 v search_data idx result_vector e = Some (True, result_vector, e)"
| "find_all_idx (Suc k) v search_data idx result_vector e =
     do {
       x \<leftarrow> elem v idx;
       c \<leftarrow> v_compare_func v search_data x;
       if c = EQUAL
       then do {
         (exit_code, r, e) \<leftarrow> vector_append (Some result_vector) x e;
         result_vector \<leftarrow> r;
         if exit_code \<noteq> E_SUCCESS then Some (False, result_vector, e)
         else find_all_idx k v search_data (idx + 1) result_vector e }
       else find_all_idx k v search_data (idx + 1) result_vector e }"

definition vector_find_all_occurrences ::
  "vector_t option \<Rightarrow> ptr \<Rightarrow> vec_env \<Rightarrow> (vector_t option \<times> vector_t option \<times> vec_env) option" where
  "vector_find_all_occurrences vector search_data e =
     (case vector of
        None \<Rightarrow> Some (None, vector, e)
      | Some v \<Rightarrow>
          if search_data = NULL then Some (None, vector, e)
          else if v_size v = 0 then Some (None, vector, e)
          else do {
            let (r, e) = vector_new (Some (v_custom_free v)) (Some (v_compare_func v)) (v_size v) e;
            (case r of
               None \<Rightarrow> Some (None, vector, e)
             | Some result_vector \<Rightarrow> do {
                 (complete, result_vector, e) \<leftarrow> find_all_idx (nat (v_size v)) v search_data 0 result_vector e;
                 if \<not> complete
                 then do { (vector, e) \<leftarrow> vector_delete vector e; Some (Some result_vector, vector, e) }
                 else if v_size result_vector = 0
                 then do { (r, e) \<leftarrow> vector_delete (Some result_vector) e; Some (r, vector, e) }
                 else Some (Some result_vector, vector, e) }) })"

text \<open>\<open>qsort\<close> of the C library is a parameter: what it leaves in the array, given the
  comparison function and the array.  The source passes the vector's comparison function by a cast,
  although \<open>qsort\<close> calls it with the addresses of slots and it expects their contents.\<close>

definition vector_sort :: "(CMP_F \<Rightarrow> ptr option list \<Rightarrow> ptr option list) \<Rightarrow> vector_t option \<Rightarrow> int \<times> vector_t option" where
  "vector_sort qsort vector =
     (case vector of
        None \<Rightarrow> (E_FAILURE, vector)
      | Some v \<Rightarrow>
          (E_SUCCESS, Some (v\<lparr>v_elements := qsort (v_compare_func v) (take (nat (v_size v)) (v_elements v)) @
                                              drop (nat (v_size v)) (v_elements v)\<rparr>)))"

section \<open>Representation\<close>

text \<open>\<open>vector_rep v ds\<close>: the first slots hold the pointers \<open>ds\<close>, none of them NULL, and
  the capacity is the length of the array.\<close>

definition vector_rep :: "vector_t \<Rightarrow> ptr list \<Rightarrow> bool" where
  "vector_rep v ds \<longleftrightarrow>
     v_size v = int (length ds) \<and> v_capacity v = int (length (v_elements v)) \<and>
     length ds \<le> length (v_elements v) \<and> take (length ds) (v_elements v) = map Some ds \<and>
     v_capacity v \<le> INT32_MAX \<and> NULL \<notin> set ds"

lemma vector_repD:
  assumes "vector_rep v ds"
  shows "v_size v = int (length ds)" and "v_capacity v = int (length (v_elements v))"
    and "length ds \<le> length (v_elements v)" and "take (length ds) (v_elements v) = map Some ds"
    and "v_capacity v \<le> INT32_MAX" and "NULL \<notin> set ds"
  using assms unfolding vector_rep_def by blast+

lemma vector_rep_elem:
  assumes "vector_rep v ds" and "i < length ds"
  shows "elem v (int i) = Some (ds ! i)"
proof -
  have "i < length (v_elements v)" using vector_repD(3) [OF assms(1)] assms(2) by simp
  moreover have "v_elements v ! i = Some (ds ! i)"
    using vector_repD(4) [OF assms(1)] assms(2) by (metis length_map nth_map nth_take)
  ultimately show ?thesis by (simp add: elem_def)
qed

section \<open>Inserting\<close>

definition can_grow :: "vector_t \<Rightarrow> vec_env \<Rightarrow> bool" where
  "can_grow v e \<longleftrightarrow>
     v_size v < v_capacity v \<or>
     (0 < v_capacity v \<and> v_capacity v * 2 \<le> INT32_MAX \<and> \<not> v_alloc_fails e)"

lemma vector_resize_rep:
  assumes rep: "vector_rep v ds" and c: "0 < v_capacity v" "v_capacity v * 2 \<le> INT32_MAX" "\<not> v_alloc_fails e"
  shows "\<exists>v'. vector_resize v e = Some (E_SUCCESS, v', v_alloc_next e) \<and> vector_rep v' ds \<and>
    v_capacity v' = 2 * v_capacity v \<and> v_custom_free v' = v_custom_free v \<and> v_compare_func v' = v_compare_func v"
proof -
  have "c_int (v_capacity v * 2) = Some (v_capacity v * 2)"
    using c by (intro c_int_fits) (auto simp: INT32_MIN_def)
  then show ?thesis using rep c by (auto simp: vector_resize_def vector_rep_def)
qed

lemma vector_shift_right_rep:
  assumes rep: "vector_rep v ds" and i: "i \<le> length ds" and room: "length ds < length (v_elements v)"
  shows "vector_shift_elements_right v (int i) =
    Some (E_SUCCESS, v\<lparr>v_elements := take (Suc i) (v_elements v) @ map Some (drop i ds) @ drop (Suc (length ds)) (v_elements v),
                       v_size := int (length ds) + 1\<rparr>)"
proof -
  note R = vector_repD [OF rep]
  have "memmove (v_elements v) (int i + 1) (int i) (length (map Some (drop i ds))) =
      Some (take (Suc i) (v_elements v) @ map Some (drop i ds) @ drop (Suc (length ds)) (v_elements v))"
    by (rule memmove_right [where zs = "map Some (take i ds)"])
      (use R(4) i room in \<open>auto simp flip: map_append\<close>)
  moreover have "c_int (int (length ds) + 1) = Some (int (length ds) + 1)"
    using R(2,5) room by (intro c_int_fits) (auto simp: INT32_MIN_def)
  ultimately show ?thesis using R(1) i
    by (simp add: vector_shift_elements_right_def vector_shift_elements_def nat_diff_distrib)
qed

lemma vector_insert_room:
  assumes rep: "vector_rep v ds" and i: "i \<le> length ds" and room: "length ds < length (v_elements v)" and d: "d \<noteq> NULL"
  shows "\<exists>v'. (do { (x, w) \<leftarrow> vector_shift_elements_right v (int i);
                    if x \<noteq> E_SUCCESS then Some (x, Some w, e)
                    else do { xs \<leftarrow> arr_set (v_elements w) (int i) (Some d);
                              Some (E_SUCCESS, Some (w\<lparr>v_elements := xs\<rparr>), e) } }) =
      Some (E_SUCCESS, Some v', e) \<and> vector_rep v' (take i ds @ d # drop i ds) \<and>
    v_capacity v' = v_capacity v \<and> v_custom_free v' = v_custom_free v \<and> v_compare_func v' = v_compare_func v"
proof -
  note R = vector_repD [OF rep]
  let ?xs = "take (Suc i) (v_elements v) @ map Some (drop i ds) @ drop (Suc (length ds)) (v_elements v)"
  have li: "i < length ?xs" using i room by simp
  have "take i (v_elements v) = map Some (take i ds)"
    using R(4) i by (metis min.absorb1 take_map take_take)
  then have "?xs[i := Some d] = map Some (take i ds @ d # drop i ds) @ drop (Suc (length ds)) (v_elements v)"
    using i room by (simp add: list_update_append take_Suc_conv_app_nth)
  then have "vector_rep (v\<lparr>v_size := int (length ds) + 1, v_elements := ?xs[i := Some d]\<rparr>) (take i ds @ d # drop i ds)"
    using R i room d by (auto simp: vector_rep_def Suc_diff_le dest: in_set_takeD in_set_dropD)
  then show ?thesis using vector_shift_right_rep [OF rep i room] li by (simp add: arr_set_nat)
qed

lemma vector_insert_rep:
  assumes rep: "vector_rep v ds" and i: "i \<le> length ds" and d: "d \<noteq> NULL" and grow: "can_grow v e"
  shows "\<exists>v'. vector_insert (Some v) d (int i) e =
      Some (E_SUCCESS, Some v', if v_size v = v_capacity v then v_alloc_next e else e) \<and>
    vector_rep v' (take i ds @ d # drop i ds) \<and>
    v_capacity v' = (if v_size v = v_capacity v then 2 * v_capacity v else v_capacity v) \<and>
    v_custom_free v' = v_custom_free v \<and> v_compare_func v' = v_compare_func v"
proof (cases "v_size v = v_capacity v")
  case True
  then have c: "0 < v_capacity v" "v_capacity v * 2 \<le> INT32_MAX" "\<not> v_alloc_fails e"
    using grow by (auto simp: can_grow_def)
  obtain w where w: "vector_resize v e = Some (E_SUCCESS, w, v_alloc_next e)" "vector_rep w ds"
      "v_capacity w = 2 * v_capacity v" "v_custom_free w = v_custom_free v" "v_compare_func w = v_compare_func v"
    using vector_resize_rep [OF rep c] by blast
  have "length ds < length (v_elements w)"
    using w(3) c(1) True vector_repD(1) [OF rep] vector_repD(2) [OF w(2)] by linarith
  from vector_insert_room [OF w(2) i this d, of "v_alloc_next e"] show ?thesis
    using w True d i vector_repD(1) [OF rep] by (auto simp: vector_insert_def)
next
  case False
  then have "length ds < length (v_elements v)" using vector_repD(1-3) [OF rep] by linarith
  from vector_insert_room [OF rep i this d, of e] show ?thesis
    using False d i vector_repD(1) [OF rep] by (auto simp: vector_insert_def)
qed

lemma vector_insert_no_memory:
  assumes "vector_rep v ds" and "i \<le> length ds" and "d \<noteq> NULL" and "v_size v = v_capacity v"
    and "0 < v_capacity v" and "v_capacity v * 2 \<le> INT32_MAX" and "v_alloc_fails e"
  shows "vector_insert (Some v) d (int i) e = Some (E_FAILURE, Some v, v_alloc_next e)"
proof -
  have "c_int (v_capacity v * 2) = Some (v_capacity v * 2)"
    using assms(5,6) by (intro c_int_fits) (auto simp: INT32_MIN_def)
  then show ?thesis using assms vector_repD(1) [OF assms(1)] by (simp add: vector_insert_def vector_resize_def)
qed

lemma vector_append_rep:
  assumes rep: "vector_rep v ds" and d: "d \<noteq> NULL" and grow: "can_grow v e"
  shows "\<exists>v'. vector_append (Some v) d e =
      Some (E_SUCCESS, Some v', if v_size v = v_capacity v then v_alloc_next e else e) \<and>
    vector_rep v' (ds @ [d]) \<and>
    v_capacity v' = (if v_size v = v_capacity v then 2 * v_capacity v else v_capacity v) \<and>
    v_custom_free v' = v_custom_free v \<and> v_compare_func v' = v_compare_func v"
  using vector_insert_rep [OF rep order_refl d grow] d vector_repD(1) [OF rep]
  by (auto simp: vector_append_def)

section \<open>Removing and reading\<close>

lemma vector_pop_rep:
  assumes rep: "vector_rep v (ds @ [d])"
  shows "vector_pop (Some v) = Some (d, Some (v\<lparr>v_size := int (length ds)\<rparr>)) \<and>
    vector_rep (v\<lparr>v_size := int (length ds)\<rparr>) ds"
proof -
  note R = vector_repD [OF rep]
  have e: "elem v (int (length ds)) = Some d" using vector_rep_elem [OF rep, of "length ds"] by simp
  have "c_int (int (length ds)) = Some (int (length ds))"
    using R(2,3,5) by (intro c_int_fits) (auto simp: INT32_MIN_def)
  then have "vector_pop (Some v) = Some (d, Some (v\<lparr>v_size := int (length ds)\<rparr>))"
    using R(1) e by (simp add: vector_pop_def vector_shift_elements_left_def vector_shift_elements_def memmove_def)
  moreover have "take (length ds) (v_elements v) = map Some ds"
    using R(4) by (metis append_eq_conv_conj length_append_singleton length_map lessI map_append min.absorb1 less_or_eq_imp_le take_take)
  ultimately show ?thesis using R by (auto simp: vector_rep_def)
qed

lemma vector_pop_empty: "vector_rep v [] \<Longrightarrow> vector_pop (Some v) = None"
  using vector_repD(1) [of v "[]"] by (simp add: vector_pop_def elem_def arr_get_def)

lemma memmove_left:
  assumes "m < length xs" and "take m xs = ys @ x # zs"
  shows "memmove xs (int (length ys)) (int (length ys) + 1) (Suc (length zs)) =
    Some (ys @ zs @ drop m xs ! 0 # drop m xs)"
proof -
  have m: "m = length ys + Suc (length zs)"
    using assms by (metis length_Cons length_append length_take less_imp_le min.absorb2)
  have xs: "xs = ys @ x # zs @ drop m xs" using assms(2) by (metis append.assoc append_Cons append_take_drop_id)
  obtain w ws where w: "drop m xs = w # ws" using assms(1) by (metis Cons_nth_drop_Suc)
  have "xs = ys @ x # zs @ w # ws" using xs w by simp
  then show ?thesis using w m by (simp add: memmove_def nat_add_distrib)
qed

lemma vector_remove_rep:
  assumes rep: "vector_rep v (xs @ d # ys)" and room: "v_size v < v_capacity v"
  shows "\<exists>v'. vector_remove (Some v) (int (length xs)) e =
      Some (E_SUCCESS, Some v', e\<lparr>v_released := v_released e @ v_custom_free v d\<rparr>) \<and>
    vector_rep v' (xs @ ys) \<and> v_capacity v' = v_capacity v \<and>
    v_custom_free v' = v_custom_free v \<and> v_compare_func v' = v_compare_func v"
proof -
  note R = vector_repD [OF rep]
  let ?m = "length (xs @ d # ys)"
  let ?es = "map Some xs @ map Some ys @ drop ?m (v_elements v) ! 0 # drop ?m (v_elements v)"
  have lt: "?m < length (v_elements v)" using room R(1,2) by linarith
  have "memmove (v_elements v) (int (length xs)) (int (length xs) + 1) (Suc (length ys)) = Some ?es"
    using memmove_left [OF lt, of "map Some xs" "Some d" "map Some ys"] R(4) by simp
  moreover have "c_int (int (length xs) + int (length ys)) = Some (int (length xs) + int (length ys))"
    using R(2,3,5) by (intro c_int_fits) (auto simp: INT32_MIN_def)
  moreover have "elem v (int (length xs)) = Some d"
    using vector_rep_elem [OF rep, of "length xs"] by simp
  moreover have "nat (1 + int (length ys)) = Suc (length ys)" by linarith
  ultimately have "vector_remove (Some v) (int (length xs)) e =
      Some (E_SUCCESS, Some (v\<lparr>v_elements := ?es, v_size := int (length (xs @ ys))\<rparr>), e\<lparr>v_released := v_released e @ v_custom_free v d\<rparr>)"
    using R(1) by (simp add: vector_remove_def vector_shift_elements_left_def vector_shift_elements_def nat_diff_distrib)
  moreover have "vector_rep (v\<lparr>v_elements := ?es, v_size := int (length (xs @ ys))\<rparr>) (xs @ ys)"
    using R lt by (auto simp: vector_rep_def)
  ultimately show ?thesis by auto
qed

lemma vector_remove_full:
  assumes rep: "vector_rep v ds" and full: "v_size v = v_capacity v" and i: "i \<le> length ds"
  shows "vector_remove (Some v) (int i) e = None"
proof -
  note R = vector_repD [OF rep]
  show ?thesis
  proof (cases "i = length ds")
    case True
    then show ?thesis using R(1,2) full by (simp add: vector_remove_def elem_def arr_get_def)
  next
    case False
    then have "memmove (v_elements v) (int i) (int i + 1) (nat (v_size v - int i)) = None"
      using R(1,2) full i by (simp add: memmove_def)
    then show ?thesis using R(1) i
      by (cases "elem v (int i)") (simp_all add: vector_remove_def vector_shift_elements_left_def vector_shift_elements_def)
  qed
qed

text \<open>The bound check lets the index one past the last element through.\<close>

lemma vector_remove_at_size:
  assumes rep: "vector_rep v (ds @ [d])" and x: "elem v (v_size v) = Some x"
  shows "vector_remove (Some v) (v_size v) e =
      Some (E_SUCCESS, Some (v\<lparr>v_size := int (length ds)\<rparr>), e\<lparr>v_released := v_released e @ v_custom_free v x\<rparr>) \<and>
    vector_rep (v\<lparr>v_size := int (length ds)\<rparr>) ds"
proof -
  note R = vector_repD [OF rep]
  have "c_int (int (length ds)) = Some (int (length ds))"
    using R(2,3,5) by (intro c_int_fits) (auto simp: INT32_MIN_def)
  then show ?thesis using R(1) x vector_pop_rep [OF rep]
    by (simp add: vector_remove_def vector_shift_elements_left_def vector_shift_elements_def memmove_def)
qed

lemma vector_get_rep:
  "vector_rep v ds \<Longrightarrow> i < length ds \<Longrightarrow> vector_get_element (Some v) (int i) = Some (ds ! i)"
  using vector_repD(1) [of v ds] vector_rep_elem [of v ds i] by (simp add: vector_get_element_def)

lemma vector_get_out: "i < 0 \<or> v_size v < i \<Longrightarrow> vector_get_element (Some v) i = Some NULL"
  by (auto simp: vector_get_element_def)

lemma vector_set_rep:
  assumes rep: "vector_rep v ds" and i: "i < length ds" and d: "d \<noteq> NULL"
  shows "vector_set_element (Some v) d (int i) = Some (E_SUCCESS, Some (v\<lparr>v_elements := (v_elements v)[i := Some d]\<rparr>)) \<and>
    vector_rep (v\<lparr>v_elements := (v_elements v)[i := Some d]\<rparr>) (ds[i := d])"
proof -
  note R = vector_repD [OF rep]
  have "take (length ds) ((v_elements v)[i := Some d]) = map Some (ds[i := d])"
    using R(4) by (simp add: take_update_swap map_update)
  then show ?thesis using R i d set_update_subset_insert [of ds i d]
    by (auto simp: vector_set_element_def vector_rep_def)
qed

section \<open>Whole-vector operations\<close>

lemma iterate_loop_rep:
  "vector_rep v (xs @ ys) \<Longrightarrow> iterate_loop (length ys) v (int (length xs)) e = Some (e\<lparr>v_acted := v_acted e @ ys\<rparr>)"
proof (induction ys arbitrary: xs e)
  case (Cons y ys)
  have "elem v (int (length xs)) = Some y" using vector_rep_elem [OF Cons.prems, of "length xs"] by simp
  then show ?case using Cons.IH [of "xs @ [y]"] Cons.prems by (simp add: add.commute)
qed simp

lemma vector_iterate_rep:
  "vector_rep v ds \<Longrightarrow> vector_iterate (Some v) True e = Some (E_SUCCESS, e\<lparr>v_acted := v_acted e @ ds\<rparr>)"
  using iterate_loop_rep [of v "[]" ds e] vector_repD(1) [of v ds] by (simp add: vector_iterate_def)

lemma find_first_idx_rep:
  "vector_rep v (xs @ ys) \<Longrightarrow> (\<And>y. y \<in> set ys \<Longrightarrow> v_compare_func v k y \<noteq> None) \<Longrightarrow>
   find_first_idx (length ys) v k (int (length xs)) =
     Some (case find (\<lambda>y. v_compare_func v k y = Some EQUAL) ys of None \<Rightarrow> NULL | Some y \<Rightarrow> y)"
proof (induction ys arbitrary: xs)
  case (Cons y ys)
  have e: "elem v (int (length xs)) = Some y" using vector_rep_elem [OF Cons.prems(1), of "length xs"] by simp
  obtain c where c: "v_compare_func v k y = Some c" using Cons.prems(2) by fastforce
  have "find_first_idx (length ys) v k (int (length (xs @ [y]))) =
      Some (case find (\<lambda>y. v_compare_func v k y = Some EQUAL) ys of None \<Rightarrow> NULL | Some y \<Rightarrow> y)"
    using Cons by (intro Cons.IH) auto
  with e c show ?case by (simp add: add.commute)
qed simp

lemma vector_find_first_rep:
  assumes "vector_rep v ds" and "k \<noteq> NULL" and "\<And>y. y \<in> set ds \<Longrightarrow> v_compare_func v k y \<noteq> None"
  shows "vector_find_first_occurrence (Some v) k =
    Some (case find (\<lambda>y. v_compare_func v k y = Some EQUAL) ds of None \<Rightarrow> NULL | Some y \<Rightarrow> y)"
  using find_first_idx_rep [of v "[]" ds k] assms vector_repD(1) [of v ds]
  by (simp add: vector_find_first_occurrence_def)

lemma clear_elems_rep:
  "vector_rep v (xs @ ys) \<Longrightarrow> clear_elems (length ys) v (int (length xs)) e =
     Some (e\<lparr>v_released := v_released e @ concat (map (v_custom_free v) ys)\<rparr>)"
proof (induction ys arbitrary: xs e)
  case (Cons y ys)
  have "elem v (int (length xs)) = Some y" using vector_rep_elem [OF Cons.prems, of "length xs"] by simp
  then show ?case using Cons.IH [of "xs @ [y]"] Cons.prems by (simp add: add.commute)
qed simp

lemma vector_clear_rep:
  assumes "vector_rep v ds"
  shows "vector_clear (Some v) e =
      Some (E_SUCCESS, Some (v\<lparr>v_size := 0\<rparr>), e\<lparr>v_released := v_released e @ concat (map (v_custom_free v) ds)\<rparr>) \<and>
    vector_rep (v\<lparr>v_size := 0\<rparr>) []"
  using clear_elems_rep [of v "[]" ds e] assms by (simp add: vector_clear_def vector_rep_def)

lemma vector_delete_rep:
  "vector_rep v ds \<Longrightarrow> vector_delete (Some v) e =
     Some (None, e\<lparr>v_released := v_released e @ concat (map (v_custom_free v) ds)\<rparr>)"
  using vector_clear_rep [of v ds e] by (simp add: vector_delete_def)

section \<open>Searching for all occurrences\<close>

lemma find_all_idx_rep:
  assumes "vector_rep v (xs @ ys)" and "\<And>y. y \<in> set ys \<Longrightarrow> v_compare_func v k y \<noteq> None"
    and "vector_rep r rs" and "int (length rs) + int (length ys) \<le> v_capacity r"
  shows "\<exists>r'. find_all_idx (length ys) v k (int (length xs)) r e = Some (True, r', e) \<and>
    vector_rep r' (rs @ filter (\<lambda>y. v_compare_func v k y = Some EQUAL) ys) \<and>
    v_custom_free r' = v_custom_free r \<and> v_compare_func r' = v_compare_func r"
  using assms
proof (induction ys arbitrary: xs r rs)
  case (Cons y ys)
  have el: "elem v (int (length xs)) = Some y" using vector_rep_elem [OF Cons.prems(1), of "length xs"] by simp
  obtain c where c: "v_compare_func v k y = Some c" using Cons.prems(2) by fastforce
  have rest: "vector_rep v ((xs @ [y]) @ ys)" "\<And>z. z \<in> set ys \<Longrightarrow> v_compare_func v k z \<noteq> None"
    using Cons.prems(1,2) by auto
  show ?case
  proof (cases "c = EQUAL")
    case True
    have "y \<noteq> NULL" using vector_repD(6) [OF Cons.prems(1)] by auto
    moreover have nf: "v_size r < v_capacity r" using Cons.prems(4) vector_repD(1) [OF Cons.prems(3)] by simp
    ultimately obtain r1 where r1: "vector_append (Some r) y e = Some (E_SUCCESS, Some r1, e)" "vector_rep r1 (rs @ [y])"
        "v_capacity r1 = v_capacity r" "v_custom_free r1 = v_custom_free r" "v_compare_func r1 = v_compare_func r"
      using vector_append_rep [OF Cons.prems(3), of y e] by (auto simp: can_grow_def)
    have "int (length (rs @ [y])) + int (length ys) \<le> v_capacity r1" using r1(3) Cons.prems(4) by simp
    from Cons.IH [OF rest r1(2) this] show ?thesis
      using el c True r1 by (auto simp: add.commute)
  next
    case False
    have "int (length rs) + int (length ys) \<le> v_capacity r" using Cons.prems(4) by simp
    from Cons.IH [OF rest Cons.prems(3) this] show ?thesis using el c False by (auto simp: add.commute)
  qed
qed simp

lemma vector_find_all_rep:
  assumes rep: "vector_rep v ds" and k: "k \<noteq> NULL" and ne: "ds \<noteq> []"
    and cmp: "\<And>y. y \<in> set ds \<Longrightarrow> v_compare_func v k y \<noteq> None" and al: "v_plan e = []"
  defines "ms \<equiv> filter (\<lambda>y. v_compare_func v k y = Some EQUAL) ds"
  shows "\<exists>r. vector_find_all_occurrences (Some v) k e = Some (r, Some v, e) \<and>
    (if ms = [] then r = None else \<exists>r'. r = Some r' \<and> vector_rep r' ms \<and> v_custom_free r' = v_custom_free v)"
proof -
  note R = vector_repD [OF rep]
  let ?r0 = "\<lparr>v_elements = replicate (length ds) (Some NULL), v_size = 0, v_capacity = int (length ds),
              v_custom_free = v_custom_free v, v_compare_func = v_compare_func v\<rparr>"
  have e: "v_alloc_next e = e" using al by (cases e) simp
  have new: "vector_new (Some (v_custom_free v)) (Some (v_compare_func v)) (v_size v) e = (Some ?r0, e)"
    using al e R(1) by (simp add: vector_new_def)
  have r0: "vector_rep ?r0 []" using R(2,3,5) by (simp add: vector_rep_def)
  obtain r' where F: "find_all_idx (length ds) v k 0 ?r0 e = Some (True, r', e)" "vector_rep r' ms"
      "v_custom_free r' = v_custom_free v"
    using find_all_idx_rep [of v "[]" ds k ?r0 "[]" e] rep cmp r0 unfolding ms_def by auto
  have sz: "v_size r' = int (length ms)" using vector_repD(1) [OF F(2)] .
  show ?thesis
  proof (cases "ms = []")
    case True
    then have "vector_delete (Some r') e = Some (None, e)" using vector_delete_rep [OF F(2), of e] by simp
    then show ?thesis using True new F(1) k ne R(1) sz by (simp add: vector_find_all_occurrences_def)
  next
    case False
    then show ?thesis using new F k ne R(1) sz by (simp add: vector_find_all_occurrences_def)
  qed
qed

lemma vector_sort_rep:
  assumes rep: "vector_rep v ds" and q: "\<And>f xs. mset (qsort f xs) = mset xs"
  shows "\<exists>v' ds'. vector_sort qsort (Some v) = (E_SUCCESS, Some v') \<and> vector_rep v' ds' \<and> mset ds' = mset ds \<and>
    v_capacity v' = v_capacity v"
proof -
  note R = vector_repD [OF rep]
  have "mset (qsort (v_compare_func v) (map Some ds)) = image_mset Some (mset ds)" using q by (simp add: mset_map)
  then have "\<exists>ds'. qsort (v_compare_func v) (map Some ds) = map Some ds' \<and> mset ds' = mset ds"
  proof -
    assume m: "mset (qsort (v_compare_func v) (map Some ds)) = image_mset Some (mset ds)"
    let ?ds = "map the (qsort (v_compare_func v) (map Some ds))"
    have "\<forall>x \<in> set (qsort (v_compare_func v) (map Some ds)). \<exists>y. x = Some y"
      using m by (metis imageE set_image_mset set_mset_mset)
    then have "map Some ?ds = qsort (v_compare_func v) (map Some ds)" by (auto intro!: map_idI)
    moreover have "mset ?ds = mset ds" using m by (simp add: mset_map multiset.map_comp)
    ultimately show ?thesis by metis
  qed
  then obtain ds' where ds': "qsort (v_compare_func v) (map Some ds) = map Some ds'" "mset ds' = mset ds" by blast
  have "length ds' = length ds" "set ds' = set ds" using ds'(2) by (metis size_mset, metis set_mset_mset)
  then have "vector_rep (v\<lparr>v_elements := map Some ds' @ drop (length ds) (v_elements v)\<rparr>) ds'"
    using R by (simp add: vector_rep_def)
  moreover have "vector_sort qsort (Some v) =
      (E_SUCCESS, Some (v\<lparr>v_elements := map Some ds' @ drop (length ds) (v_elements v)\<rparr>))"
    using R(1,4) ds'(1) by (simp add: vector_sort_def)
  ultimately show ?thesis using ds'(2) by (metis vector_t.select_convs(3) vector_t.surjective vector_t.update_convs(1))
qed

section \<open>The abstract sequence\<close>

datatype vec_op = Insert_at ptr nat | Append ptr | Pop_back | Get_at nat | Set_at ptr nat | Size_of

datatype vec_out = V_code int | V_data ptr | V_size int

fun vec_spec :: "vec_op \<Rightarrow> ptr list \<Rightarrow> vec_out \<times> ptr list" where
  "vec_spec (Insert_at d i) ds = (V_code E_SUCCESS, take i ds @ d # drop i ds)"
| "vec_spec (Append d) ds = (V_code E_SUCCESS, ds @ [d])"
| "vec_spec Pop_back ds = (V_data (last ds), butlast ds)"
| "vec_spec (Get_at i) ds = (V_data (ds ! i), ds)"
| "vec_spec (Set_at d i) ds = (V_code E_SUCCESS, ds[i := d])"
| "vec_spec Size_of ds = (V_size (int (length ds)), ds)"

text \<open>The uses for which the code promises something: pointers that are not NULL, indices inside
  the sequence, no pop of an empty vector, fewer than \<open>2 ^ 29\<close> elements, so that doubling the
  capacity stays inside \<open>int\<close>.\<close>

fun vec_ok :: "vec_op \<Rightarrow> ptr list \<Rightarrow> bool" where
  "vec_ok (Insert_at d i) ds = (d \<noteq> NULL \<and> i \<le> length ds \<and> length ds < 2 ^ 29)"
| "vec_ok (Append d) ds = (d \<noteq> NULL \<and> length ds < 2 ^ 29)"
| "vec_ok Pop_back ds = (ds \<noteq> [])"
| "vec_ok (Get_at i) ds = (i < length ds)"
| "vec_ok (Set_at d i) ds = (d \<noteq> NULL \<and> i < length ds)"
| "vec_ok Size_of ds = True"

fun vec_step :: "vec_op \<Rightarrow> vector_t \<times> vec_env \<Rightarrow> (vec_out \<times> vector_t \<times> vec_env) option" where
  "vec_step (Insert_at d i) (v, e) =
     do { (c, v', e') \<leftarrow> vector_insert (Some v) d (int i) e; v' \<leftarrow> v'; Some (V_code c, v', e') }"
| "vec_step (Append d) (v, e) =
     do { (c, v', e') \<leftarrow> vector_append (Some v) d e; v' \<leftarrow> v'; Some (V_code c, v', e') }"
| "vec_step Pop_back (v, e) = do { (d, v') \<leftarrow> vector_pop (Some v); v' \<leftarrow> v'; Some (V_data d, v', e) }"
| "vec_step (Get_at i) (v, e) = do { d \<leftarrow> vector_get_element (Some v) (int i); Some (V_data d, v, e) }"
| "vec_step (Set_at d i) (v, e) =
     do { (c, v') \<leftarrow> vector_set_element (Some v) d (int i); v' \<leftarrow> v'; Some (V_code c, v', e) }"
| "vec_step Size_of (v, e) = Some (V_size (vector_size (Some v)), v, e)"

definition vec_abs :: "vector_t \<times> vec_env \<Rightarrow> ptr list \<Rightarrow> bool" where
  "vec_abs c ds \<longleftrightarrow> vector_rep (fst c) ds \<and> 0 < v_capacity (fst c) \<and> v_plan (snd c) = []"

lemma vec_abs_can_grow: "vector_rep v ds \<Longrightarrow> 0 < v_capacity v \<Longrightarrow> v_plan e = [] \<Longrightarrow> length ds < 2 ^ 29 \<Longrightarrow> can_grow v e"
  using vector_repD(1-3) [of v ds] by (auto simp: can_grow_def INT32_MAX_def)

lemma vec_step_refines:
  assumes "vec_abs c ds" and "vec_ok o1 ds"
  shows "\<exists>c'. vec_step o1 c = Some (fst (vec_spec o1 ds), c') \<and> vec_abs c' (snd (vec_spec o1 ds))"
proof -
  obtain v e where c: "c = (v, e)" "vector_rep v ds" "0 < v_capacity v" "v_plan e = []"
    using assms(1) by (cases c) (auto simp: vec_abs_def)
  have g: "length ds < 2 ^ 29 \<Longrightarrow> can_grow v e" by (rule vec_abs_can_grow [OF c(2-4)])
  show ?thesis
  proof (cases o1)
    case (Insert_at d i)
    then show ?thesis using assms(2) c g vector_insert_rep [OF c(2), of i d e] by (fastforce simp: vec_abs_def)
  next
    case (Append d)
    then show ?thesis using assms(2) c g vector_append_rep [OF c(2), of d e] by (fastforce simp: vec_abs_def)
  next
    case Pop_back
    then obtain xs d where "ds = xs @ [d]" using assms(2) by (cases ds rule: rev_cases) auto
    then show ?thesis using Pop_back c vector_pop_rep [of v xs d] by (auto simp: vec_abs_def)
  next
    case (Get_at i)
    then show ?thesis using assms c vector_get_rep [OF c(2)] by auto
  next
    case (Set_at d i)
    then show ?thesis using assms c vector_set_rep [OF c(2), of i d] by (auto simp: vec_abs_def)
  next
    case Size_of
    then show ?thesis using assms c vector_repD(1) [OF c(2)] by (auto simp: vector_size_def)
  qed
qed

interpretation vec: refinement vec_step vec_spec vec_ok vec_abs
  by unfold_locales (rule vec_step_refines)

end
