(* ===== verification/Hash_Table.thy ===== *)
theory Hash_Table
  imports Comparisons Refinement "HOL-Library.Multiset"
begin

text \<open>
  DSA/hash_table/src/hash_table.c: the chained hash table with string keys.  The table object is
  passed as a value (\<open>None\<close> is a NULL \<open>hash_table_t *\<close>); chain nodes live in a heap and a
  node's key buffer is allocated and freed with it.  Division by a table size of zero, a NULL or
  short result buffer and the use of freed nodes are undefined behaviour.  The operations are those
  of one thread: the lock, which every operation but \<open>hash_table_lookup\<close> takes and releases, is
  not part of the state.  \<open>hash\<close> and \<open>new_node\<close> are static and only called after the
  caller has tested the key for NULL, so they take a string.
\<close>

section \<open>State\<close>

record node_t =
  hn_key :: string
  hn_data :: ptr
  hn_next :: ptr

record hash_table_t =
  ht_size :: "32 word"
  ht_table :: "ptr list option"
  ht_customfree :: "FREE_F option"

record hash_heap =
  h_nodes :: "ptr \<rightharpoonup> node_t"
  h_brk :: ptr
  h_plan :: alloc_plan
  h_released :: "ptr list"

abbreviation h_alloc_next :: "hash_heap \<Rightarrow> hash_heap" where
  "h_alloc_next h \<equiv> h\<lparr>h_plan := alloc_rest (h_plan h)\<rparr>"

definition BASE :: "32 word" where "BASE = 256"
definition PRIME :: "32 word" where "PRIME = 65521"
definition MAX_KEY_SIZE :: nat where "MAX_KEY_SIZE = 64"
definition MAX_LENGTH :: nat where "MAX_LENGTH = 50"

section \<open>Hashing and nodes\<close>

fun hash_loop :: "32 word \<Rightarrow> string \<Rightarrow> 32 word" where
  "hash_loop target [] = target"
| "hash_loop target (letter # rest) = hash_loop ((target * BASE + of_nat (of_char letter)) mod PRIME) rest"

definition hash :: "32 word \<Rightarrow> string \<Rightarrow> 32 word option" where
  "hash sz p_data = (if sz = 0 then None else Some (hash_loop 0 p_data mod sz))"

definition new_node :: "string \<Rightarrow> ptr \<Rightarrow> hash_heap \<Rightarrow> ptr \<times> hash_heap" where
  "new_node key data h =
     (if data = NULL then (NULL, h)
      else if alloc_fails (h_plan h) then (NULL, h_alloc_next h)
      else let h = h_alloc_next h
           in if alloc_fails (h_plan h) then (NULL, h_alloc_next h)
              else (h_brk h,
                    h\<lparr>h_nodes := (h_nodes h)(h_brk h \<mapsto>
                         \<lparr>hn_key = strncpy_zeroed key MAX_KEY_SIZE, hn_data = data, hn_next = NULL\<rparr>),
                      h_brk := Suc (h_brk h), h_plan := alloc_rest (h_plan h)\<rparr>))"

definition free_hnode :: "ptr \<Rightarrow> hash_heap \<Rightarrow> hash_heap option" where
  "free_hnode p h = do { N \<leftarrow> free_at (h_nodes h) p; Some (h\<lparr>h_nodes := N\<rparr>) }"

definition set_hnext :: "ptr \<Rightarrow> ptr \<Rightarrow> hash_heap \<Rightarrow> hash_heap option" where
  "set_hnext p v h = do { N \<leftarrow> update_at (h_nodes h) p (hn_next_update (\<lambda>_. v)); Some (h\<lparr>h_nodes := N\<rparr>) }"

section \<open>Operations\<close>

text \<open>When the bucket array cannot be allocated the source returns the zeroed table object, not
  NULL.\<close>

definition hash_table_init :: "bool \<Rightarrow> 32 word \<Rightarrow> FREE_F option \<Rightarrow> hash_heap \<Rightarrow> hash_table_t option \<times> hash_heap" where
  "hash_table_init mutex_ok sz customfree h =
     (if sz = 0 then (None, h)
      else if alloc_fails (h_plan h) then (None, h_alloc_next h)
      else let h = h_alloc_next h
           in if alloc_fails (h_plan h)
              then (Some \<lparr>ht_size = 0, ht_table = None, ht_customfree = None\<rparr>, h_alloc_next h)
              else if \<not> mutex_ok then (None, h_alloc_next h)
              else (Some \<lparr>ht_size = sz, ht_table = Some (replicate (unat sz) NULL),
                          ht_customfree = Some (case customfree of None \<Rightarrow> libc_free | Some g \<Rightarrow> g)\<rparr>,
                    h_alloc_next h))"

partial_function (option) last_loop :: "hash_heap \<Rightarrow> ptr \<Rightarrow> ptr option" where
  "last_loop h p_current_node =
     do {
       n \<leftarrow> deref (h_nodes h) p_current_node;
       if hn_next n \<noteq> NULL then last_loop h (hn_next n) else Some p_current_node }"

definition hash_table_add ::
  "hash_table_t option \<Rightarrow> ptr \<Rightarrow> string option \<Rightarrow> hash_heap \<Rightarrow> (int \<times> hash_table_t option \<times> hash_heap) option" where
  "hash_table_add table data key h =
     (case (table, key) of
        (Some t, Some k) \<Rightarrow>
          if data = NULL then Some (E_FAILURE, table, h)
          else do {
            index \<leftarrow> hash (ht_size t) k;
            let exit_code = E_SUCCESS;
            let (p_new_node, h) = new_node k data h;
            if p_new_node = NULL then Some (exit_code, table, h)
            else do {
              tbl \<leftarrow> ht_table t;
              p_current_node \<leftarrow> arr_get tbl (uint index);
              if p_current_node = NULL
              then do {
                tbl \<leftarrow> arr_set tbl (uint index) p_new_node;
                Some (E_SUCCESS, Some (t\<lparr>ht_table := Some tbl\<rparr>), h) }
              else do {
                p_current_node \<leftarrow> last_loop h p_current_node;
                h \<leftarrow> set_hnext p_current_node p_new_node h;
                Some (E_SUCCESS, table, h) } } }
      | _ \<Rightarrow> Some (E_FAILURE, table, h))"

partial_function (option) lookup_loop :: "hash_heap \<Rightarrow> string \<Rightarrow> ptr \<Rightarrow> ptr option" where
  "lookup_loop h key p_current_node =
     (if p_current_node = NULL then Some NULL
      else do {
        n \<leftarrow> deref (h_nodes h) p_current_node;
        if strncmp (hn_key n) key MAX_LENGTH = 0 then Some (hn_data n)
        else lookup_loop h key (hn_next n) })"

definition hash_table_lookup :: "hash_table_t option \<Rightarrow> string option \<Rightarrow> hash_heap \<Rightarrow> ptr option" where
  "hash_table_lookup table key h =
     (case (table, key) of
        (Some t, Some k) \<Rightarrow> do {
          index \<leftarrow> hash (ht_size t) k;
          tbl \<leftarrow> ht_table t;
          p_current_node \<leftarrow> arr_get tbl (uint index);
          lookup_loop h k p_current_node }
      | _ \<Rightarrow> Some NULL)"

text \<open>\<open>table->table[0]\<close> to \<open>table->table[size - 1]\<close>.\<close>

definition buckets :: "hash_table_t \<Rightarrow> ptr list option" where
  "buckets t =
     (if ht_size t = 0 then Some []
      else do {
        tbl \<leftarrow> ht_table t;
        if length tbl < unat (ht_size t) then None else Some (take (unat (ht_size t)) tbl) })"

text \<open>
  The loops of \<open>hash_table_find\<close> and \<open>hash_table_list\<close>: every key that \<open>keep\<close>
  accepts is duplicated into the next slot of a buffer with \<open>cap\<close> slots.  A duplicate that
  cannot be allocated is stored as NULL.
\<close>

partial_function (option) collect_chain ::
  "(string \<Rightarrow> bool) \<Rightarrow> nat \<Rightarrow> ptr \<Rightarrow> string option list \<Rightarrow> hash_heap \<Rightarrow> (string option list \<times> hash_heap) option" where
  "collect_chain keep cap current buffer h =
     (if current = NULL then Some (buffer, h)
      else do {
        n \<leftarrow> deref (h_nodes h) current;
        if keep (hn_key n)
        then (if length buffer < cap
              then collect_chain keep cap (hn_next n)
                     (buffer @ [if alloc_fails (h_plan h) then None else Some (strndup (hn_key n) MAX_KEY_SIZE)])
                     (h_alloc_next h)
              else None)
        else collect_chain keep cap (hn_next n) buffer h })"

fun collect_table ::
  "(string \<Rightarrow> bool) \<Rightarrow> nat \<Rightarrow> ptr list \<Rightarrow> string option list \<Rightarrow> hash_heap \<Rightarrow> (string option list \<times> hash_heap) option" where
  "collect_table keep cap [] buffer h = Some (buffer, h)"
| "collect_table keep cap (p # ps) buffer h =
     do { (buffer, h) \<leftarrow> collect_chain keep cap p buffer h; collect_table keep cap ps buffer h }"

text \<open>
  The result is the exit code and the contents of the result buffer, whose length is
  \<open>*result_count\<close>; \<open>None\<close> when nothing was stored.  \<open>args_ok\<close> is whether the
  two output pointers are not NULL.  A buffer that could not be allocated has no slots.
\<close>

definition hash_table_find ::
  "hash_table_t option \<Rightarrow> string option \<Rightarrow> bool \<Rightarrow> hash_heap \<Rightarrow> (int \<times> string option list option \<times> hash_heap) option" where
  "hash_table_find table search args_ok h =
     (case (table, search) of
        (Some t, Some s) \<Rightarrow>
          if \<not> args_ok then Some (E_FAILURE, None, h)
          else do {
            let cap = (if alloc_fails (h_plan h) then 0 else unat (ht_size t));
            let h = h_alloc_next h;
            tbl \<leftarrow> buckets t;
            (buffer, h) \<leftarrow> collect_table (\<lambda>k. strstr k s) cap tbl [] h;
            Some (E_SUCCESS, Some buffer, h) }
      | _ \<Rightarrow> Some (E_FAILURE, None, h))"

definition hash_table_list ::
  "hash_table_t option \<Rightarrow> bool \<Rightarrow> hash_heap \<Rightarrow> (int \<times> string option list option \<times> hash_heap) option" where
  "hash_table_list table args_ok h =
     (case table of
        Some t \<Rightarrow>
          if \<not> args_ok then Some (E_FAILURE, None, h)
          else do {
            let cap = (if alloc_fails (h_plan h) then 0 else unat (ht_size t));
            let h = h_alloc_next h;
            tbl \<leftarrow> buckets t;
            (buffer, h) \<leftarrow> collect_table (\<lambda>k. True) cap tbl [] h;
            Some (E_SUCCESS, Some buffer, h) }
      | None \<Rightarrow> Some (E_FAILURE, None, h))"

text \<open>The loop of \<open>hash_table_remove\<close>; \<open>first\<close> is the content of
  \<open>table->table[index]\<close>, returned updated.\<close>

partial_function (option) remove_loop ::
  "FREE_F option \<Rightarrow> string \<Rightarrow> ptr \<Rightarrow> ptr \<Rightarrow> ptr \<Rightarrow> hash_heap \<Rightarrow> (int \<times> ptr \<times> hash_heap) option" where
  "remove_loop customfree key p_prev_node p_current_node first h =
     (if p_current_node = NULL then Some (E_FAILURE, first, h)
      else do {
        n \<leftarrow> deref (h_nodes h) p_current_node;
        if strncmp (hn_key n) key MAX_LENGTH \<noteq> 0
        then remove_loop customfree key p_current_node (hn_next n) first h
        else do {
          (first, h) \<leftarrow> (if p_prev_node = NULL then Some (hn_next n, h)
                         else do { h \<leftarrow> set_hnext p_prev_node (hn_next n) h; Some (first, h) });
          g \<leftarrow> customfree;
          let h = h\<lparr>h_released := h_released h @ g (hn_data n)\<rparr>;
          h \<leftarrow> free_hnode p_current_node h;
          Some (E_SUCCESS, first, h) } })"

definition hash_table_remove ::
  "hash_table_t option \<Rightarrow> string option \<Rightarrow> hash_heap \<Rightarrow> (int \<times> hash_table_t option \<times> hash_heap) option" where
  "hash_table_remove table key h =
     (case (table, key) of
        (Some t, Some k) \<Rightarrow> do {
          index \<leftarrow> hash (ht_size t) k;
          tbl \<leftarrow> ht_table t;
          p_current_node \<leftarrow> arr_get tbl (uint index);
          (exit_code, first, h) \<leftarrow> remove_loop (ht_customfree t) k NULL p_current_node p_current_node h;
          tbl \<leftarrow> arr_set tbl (uint index) first;
          Some (exit_code, Some (t\<lparr>ht_table := Some tbl\<rparr>), h) }
      | _ \<Rightarrow> Some (E_FAILURE, table, h))"

partial_function (option) clear_chain :: "FREE_F option \<Rightarrow> ptr \<Rightarrow> hash_heap \<Rightarrow> hash_heap option" where
  "clear_chain customfree p_current_node h =
     (if p_current_node = NULL then Some h
      else do {
        n \<leftarrow> deref (h_nodes h) p_current_node;
        g \<leftarrow> customfree;
        let h = h\<lparr>h_released := h_released h @ g (hn_data n)\<rparr>;
        h \<leftarrow> free_hnode p_current_node h;
        clear_chain customfree (hn_next n) h })"

fun clear_table :: "FREE_F option \<Rightarrow> ptr list \<Rightarrow> hash_heap \<Rightarrow> hash_heap option" where
  "clear_table customfree [] h = Some h"
| "clear_table customfree (p # ps) h =
     do { h \<leftarrow> clear_chain customfree p h; clear_table customfree ps h }"

definition hash_table_clear :: "hash_table_t option \<Rightarrow> hash_heap \<Rightarrow> (int \<times> hash_table_t option \<times> hash_heap) option" where
  "hash_table_clear table h =
     (case table of
        None \<Rightarrow> Some (E_FAILURE, table, h)
      | Some t \<Rightarrow>
          if ht_size t = 0 then Some (E_SUCCESS, table, h)
          else do {
            tbl \<leftarrow> ht_table t;
            if length tbl < unat (ht_size t) then None
            else do {
              h \<leftarrow> clear_table (ht_customfree t) (take (unat (ht_size t)) tbl) h;
              Some (E_SUCCESS, Some (t\<lparr>ht_table := Some (replicate (unat (ht_size t)) NULL @ drop (unat (ht_size t)) tbl)\<rparr>), h) } })"

definition hash_table_destroy :: "hash_table_t option \<Rightarrow> hash_heap \<Rightarrow> (int \<times> hash_table_t option \<times> hash_heap) option" where
  "hash_table_destroy table_addr h =
     (if table_addr = None then Some (E_FAILURE, table_addr, h)
      else do {
        (exit_code, table, h) \<leftarrow> hash_table_clear table_addr h;
        if exit_code \<noteq> E_SUCCESS then Some (exit_code, table, h)
        else Some (E_SUCCESS, None, h) })"

section \<open>The hash function\<close>

text \<open>The 32-bit computation never wraps: it is the polynomial in 256 with the characters as
  coefficients, modulo 65521 and then modulo the table size.\<close>

definition poly_value :: "string \<Rightarrow> nat" where
  "poly_value k = foldl (\<lambda>t c. t * 256 + of_char c) 0 k"

definition hidx :: "32 word \<Rightarrow> string \<Rightarrow> nat" where
  "hidx sz k = poly_value k mod 65521 mod unat sz"

lemma of_char_less: "(of_char c :: nat) < 256"
  by (cases c) (simp add: of_char_def)

lemma hash_step:
  assumes "unat t < 65521"
  shows "unat ((t * BASE + of_nat (of_char c)) mod PRIME) = (unat t * 256 + of_char c) mod 65521"
proof -
  have c: "unat (of_nat (of_char c) :: 32 word) = of_char c"
    using unat_of_nat32 [of "of_char c"] of_char_less [of c] by simp
  have m: "unat (t * BASE) = unat t * 256"
    using assms by (simp add: BASE_def unat_mult_lem [THEN iffD1])
  have "unat t * 256 + x < 2 ^ 32" if "x < 256" for x :: nat using assms that by simp
  then have "unat t * 256 + of_char c < 2 ^ 32" using of_char_less by blast
  then have "unat (t * BASE + of_nat (of_char c)) = unat t * 256 + of_char c"
    using unat_add_lem [of "t * BASE" "of_nat (of_char c)"] by (simp add: m c)
  then show ?thesis by (simp add: unat_mod PRIME_def)
qed

lemma hash_loop_nat:
  "unat t < 65521 \<Longrightarrow> unat (hash_loop t k) = foldl (\<lambda>t c. (t * 256 + of_char c) mod 65521) (unat t) k"
proof (induction k arbitrary: t)
  case (Cons c k)
  have "unat ((t * BASE + of_nat (of_char c)) mod PRIME) < 65521" using hash_step [OF Cons.prems, of c] by simp
  from Cons.IH [OF this] show ?case by (simp add: hash_step [OF Cons.prems])
qed simp

lemma foldl_mod: "foldl (\<lambda>t c. (t * 256 + of_char c) mod m) (a mod m) k = foldl (\<lambda>t c. t * 256 + of_char c) a k mod (m :: nat)"
proof (induction k arbitrary: a)
  case (Cons c k)
  have "(a mod m * 256 + of_char c) mod m = (a * 256 + of_char c) mod m" by (metis mod_add_left_eq mod_mult_left_eq)
  then show ?case using Cons.IH [of "a * 256 + of_char c"] by simp
qed simp

lemma hash_value: "sz \<noteq> 0 \<Longrightarrow> \<exists>i. hash sz k = Some i \<and> unat i = hidx sz k \<and> hidx sz k < unat sz"
proof -
  assume s: "sz \<noteq> 0"
  have "unat (hash_loop 0 k) = poly_value k mod 65521"
    using hash_loop_nat [of 0 k] foldl_mod [of 65521 0 k] by (simp add: poly_value_def)
  then have "unat (hash_loop 0 k mod sz) = hidx sz k" by (simp add: unat_mod hidx_def)
  moreover have "hidx sz k < unat sz" using s by (simp add: hidx_def unat_gt_0)
  ultimately show ?thesis using s by (simp add: hash_def)
qed

section \<open>Representation\<close>

type_synonym entry = "ptr \<times> string \<times> ptr"

abbreviation e_addr :: "entry \<Rightarrow> ptr" where "e_addr e \<equiv> fst e"
abbreviation e_key :: "entry \<Rightarrow> string" where "e_key e \<equiv> fst (snd e)"
abbreviation e_data :: "entry \<Rightarrow> ptr" where "e_data e \<equiv> snd (snd e)"

text \<open>A chain from \<open>p\<close> to \<open>q\<close> that stores the entries with their keys cut to
  \<open>MAX_KEY_SIZE\<close> characters.\<close>

fun hseg :: "(ptr \<rightharpoonup> node_t) \<Rightarrow> ptr \<Rightarrow> entry list \<Rightarrow> ptr \<Rightarrow> bool" where
  "hseg H p [] q = (p = q)"
| "hseg H p (e # es) q =
     (e_addr e = p \<and> p \<noteq> NULL \<and>
      (\<exists>nx. H p = Some \<lparr>hn_key = take MAX_KEY_SIZE (e_key e), hn_data = e_data e, hn_next = nx\<rparr> \<and> hseg H nx es q))"

lemma hseg_append: "hseg H p (xs @ ys) q \<longleftrightarrow> (\<exists>m. hseg H p xs m \<and> hseg H m ys q)"
  by (induction xs arbitrary: p) auto

lemma hseg_cong: "hseg H p xs q \<Longrightarrow> (\<And>a. a \<in> e_addr ` set xs \<Longrightarrow> H' a = H a) \<Longrightarrow> hseg H' p xs q"
  by (induction xs arbitrary: p) auto

lemma hseg_update_outside [simp]: "a \<notin> e_addr ` set xs \<Longrightarrow> hseg (H(a := v)) p xs q = hseg H p xs q"
  by (induction xs arbitrary: p) auto

lemma hseg_allocated: "hseg H p xs q \<Longrightarrow> a \<in> e_addr ` set xs \<Longrightarrow> a \<noteq> NULL \<and> H a \<noteq> None"
  by (induction xs arbitrary: p) auto

lemma hseg_start: "hseg H p xs NULL \<Longrightarrow> p = NULL \<longleftrightarrow> xs = []"
  by (cases xs) auto

text \<open>The entries in insertion order; bucket \<open>i\<close> chains the ones whose key hashes to
  \<open>i\<close>.\<close>

definition bucket :: "32 word \<Rightarrow> nat \<Rightarrow> entry list \<Rightarrow> entry list" where
  "bucket n i es = filter (\<lambda>e. hidx n (e_key e) = i) es"

definition table_rep :: "hash_heap \<Rightarrow> hash_table_t \<Rightarrow> entry list \<Rightarrow> bool" where
  "table_rep h t es \<longleftrightarrow>
     ht_size t \<noteq> 0 \<and>
     (\<exists>tbl. ht_table t = Some tbl \<and> length tbl = unat (ht_size t) \<and>
        (\<forall>i < unat (ht_size t). hseg (h_nodes h) (tbl ! i) (bucket (ht_size t) i es) NULL)) \<and>
     distinct (map e_addr es) \<and> NULL \<notin> e_data ` set es"

definition hash_heap_ok :: "hash_heap \<Rightarrow> bool" where
  "hash_heap_ok h \<longleftrightarrow> 0 < h_brk h \<and> (\<forall>a. h_brk h \<le> a \<longrightarrow> h_nodes h a = None)"

lemma bucket_append [simp]: "bucket n i (xs @ ys) = bucket n i xs @ bucket n i ys"
  by (simp add: bucket_def)

lemma bucket_single [simp]: "bucket n i [e] = (if hidx n (e_key e) = i then [e] else [])"
  by (simp add: bucket_def)

lemma set_bucket: "set (bucket n i es) = {e \<in> set es. hidx n (e_key e) = i}"
  by (auto simp: bucket_def)

lemma table_repE:
  assumes "table_rep h t es"
  obtains tbl where "ht_size t \<noteq> 0" and "ht_table t = Some tbl" and "length tbl = unat (ht_size t)"
    and "\<And>i. i < unat (ht_size t) \<Longrightarrow> hseg (h_nodes h) (tbl ! i) (bucket (ht_size t) i es) NULL"
    and "distinct (map e_addr es)" and "NULL \<notin> e_data ` set es"
  using assms unfolding table_rep_def by blast

text \<open>The bucket a key selects.\<close>

lemma table_rep_bucket:
  assumes "table_rep h t es"
  obtains tbl i where "hash (ht_size t) k = Some i" and "unat i = hidx (ht_size t) k"
    and "ht_table t = Some tbl" and "length tbl = unat (ht_size t)" and "hidx (ht_size t) k < unat (ht_size t)"
    and "uint i = int (hidx (ht_size t) k)"
    and "arr_get tbl (uint i) = Some (tbl ! hidx (ht_size t) k)"
    and "hseg (h_nodes h) (tbl ! hidx (ht_size t) k) (bucket (ht_size t) (hidx (ht_size t) k) es) NULL"
proof -
  obtain tbl where T: "ht_size t \<noteq> 0" "ht_table t = Some tbl" "length tbl = unat (ht_size t)"
      "\<And>i. i < unat (ht_size t) \<Longrightarrow> hseg (h_nodes h) (tbl ! i) (bucket (ht_size t) i es) NULL"
    using assms by (rule table_repE) blast
  obtain i where i: "hash (ht_size t) k = Some i" "unat i = hidx (ht_size t) k" "hidx (ht_size t) k < unat (ht_size t)"
    using hash_value [OF T(1)] by blast
  have "uint i = int (hidx (ht_size t) k)" using i(2) by (metis of_nat_unat ucast_id)
  with that T i show ?thesis by (metis arr_get_nat)
qed

lemma strncmp_stored:
  "strncmp (take MAX_KEY_SIZE k') k MAX_LENGTH = 0 \<longleftrightarrow> take MAX_LENGTH k' = take MAX_LENGTH k"
  by (simp add: strncmp_eq_0_iff MAX_KEY_SIZE_def MAX_LENGTH_def)

definition key_match :: "32 word \<Rightarrow> string \<Rightarrow> entry \<Rightarrow> bool" where
  "key_match n k e \<longleftrightarrow> hidx n (e_key e) = hidx n k \<and> take MAX_LENGTH (e_key e) = take MAX_LENGTH k"

lemma find_bucket: "find (\<lambda>e. take MAX_LENGTH (e_key e) = take MAX_LENGTH k) (bucket n (hidx n k) es) = find (key_match n k) es"
  by (induction es) (auto simp: bucket_def key_match_def)

section \<open>Lookup\<close>

lemma lookup_loop_hseg:
  "hseg (h_nodes h) p es NULL \<Longrightarrow> lookup_loop h k p =
     Some (case find (\<lambda>e. take MAX_LENGTH (e_key e) = take MAX_LENGTH k) es of None \<Rightarrow> NULL | Some e \<Rightarrow> e_data e)"
proof (induction es arbitrary: p)
  case Nil
  then show ?case by (subst lookup_loop.simps) simp
next
  case (Cons e es)
  then obtain nx where "p \<noteq> NULL" "hseg (h_nodes h) nx es NULL"
      "h_nodes h p = Some \<lparr>hn_key = take MAX_KEY_SIZE (e_key e), hn_data = e_data e, hn_next = nx\<rparr>" by auto
  with Cons.IH [of nx] show ?case by (subst lookup_loop.simps) (auto simp: strncmp_stored)
qed

lemma hash_table_lookup_rep:
  assumes "table_rep h t es"
  shows "hash_table_lookup (Some t) (Some k) h =
    Some (case find (key_match (ht_size t) k) es of None \<Rightarrow> NULL | Some e \<Rightarrow> e_data e)"
proof -
  obtain tbl i where B: "hash (ht_size t) k = Some i" "ht_table t = Some tbl"
      "arr_get tbl (uint i) = Some (tbl ! hidx (ht_size t) k)"
      "hseg (h_nodes h) (tbl ! hidx (ht_size t) k) (bucket (ht_size t) (hidx (ht_size t) k) es) NULL"
    using assms by (rule table_rep_bucket)
  show ?thesis using B(1-3) lookup_loop_hseg [OF B(4), of k]
    by (simp add: hash_table_lookup_def find_bucket)
qed

section \<open>Adding\<close>

lemma last_loop_hseg:
  "hseg (h_nodes h) p (es @ [e]) NULL \<Longrightarrow> last_loop h p = Some (e_addr e)"
proof (induction es arbitrary: p)
  case Nil
  then show ?case by (subst last_loop.simps) auto
next
  case (Cons x es)
  then obtain nx where nx: "p \<noteq> NULL" "hseg (h_nodes h) nx (es @ [e]) NULL"
      "h_nodes h p = Some \<lparr>hn_key = take MAX_KEY_SIZE (e_key x), hn_data = e_data x, hn_next = nx\<rparr>" by auto
  have "nx \<noteq> NULL" using hseg_start [OF nx(2)] by simp
  with nx Cons.IH [OF nx(2)] show ?case by (subst last_loop.simps) simp
qed

lemma set_hnext_hseg:
  assumes seg: "hseg (h_nodes h) p (es @ [e]) NULL" and dist: "distinct (map e_addr (es @ [e]))"
    and new: "h_nodes h a = Some \<lparr>hn_key = take MAX_KEY_SIZE k, hn_data = d, hn_next = NULL\<rparr>" "a \<noteq> NULL"
      "a \<notin> e_addr ` set (es @ [e])"
  shows "\<exists>h'. set_hnext (e_addr e) a h = Some h' \<and> hseg (h_nodes h') p (es @ [e, (a, k, d)]) NULL \<and>
    h' = h\<lparr>h_nodes := h_nodes h'\<rparr> \<and> (\<forall>b. b \<noteq> e_addr e \<longrightarrow> h_nodes h' b = h_nodes h b) \<and>
    (\<forall>b. h_nodes h' b = None \<longleftrightarrow> h_nodes h b = None)"
proof -
  obtain n where n: "h_nodes h (e_addr e) = Some n" "e_addr e \<noteq> NULL" "hseg (h_nodes h) p es (e_addr e)"
      "n = \<lparr>hn_key = take MAX_KEY_SIZE (e_key e), hn_data = e_data e, hn_next = NULL\<rparr>"
    using seg by (auto simp: hseg_append)
  let ?N = "(h_nodes h)(e_addr e \<mapsto> n\<lparr>hn_next := a\<rparr>)"
  have "e_addr e \<notin> e_addr ` set es" "e_addr e \<noteq> a" using dist new(3) by auto
  then have "hseg ?N p (es @ [e, (a, k, d)]) NULL" using n new by (auto simp: hseg_append)
  moreover have "set_hnext (e_addr e) a h = Some (h\<lparr>h_nodes := ?N\<rparr>)" using n(1,2) by (simp add: set_hnext_def)
  ultimately show ?thesis using n(1) by (intro exI [of _ "h\<lparr>h_nodes := ?N\<rparr>"]) auto
qed

lemma buckets_disjoint:
  "distinct (map e_addr es) \<Longrightarrow> i \<noteq> j \<Longrightarrow> e_addr ` set (bucket n i es) \<inter> e_addr ` set (bucket n j es) = {}"
  by (auto simp: set_bucket distinct_map inj_on_def)

lemma distinct_bucket: "distinct (map e_addr es) \<Longrightarrow> distinct (map e_addr (bucket n i es))"
  by (simp add: bucket_def distinct_map inj_on_def)

text \<open>The heap after a node was allocated.\<close>

definition with_node :: "string \<Rightarrow> ptr \<Rightarrow> hash_heap \<Rightarrow> hash_heap" where
  "with_node k d h = h\<lparr>h_nodes := (h_nodes h)(h_brk h \<mapsto> \<lparr>hn_key = take MAX_KEY_SIZE k, hn_data = d, hn_next = NULL\<rparr>),
     h_brk := Suc (h_brk h), h_plan := alloc_rest (alloc_rest (h_plan h))\<rparr>"

lemma new_node_ok:
  "d \<noteq> NULL \<Longrightarrow> \<not> alloc_fails (h_plan h) \<Longrightarrow> \<not> alloc_fails (alloc_rest (h_plan h)) \<Longrightarrow>
   new_node k d h = (h_brk h, with_node k d h)"
  by (simp add: new_node_def with_node_def strncpy_zeroed_def)

lemma table_rep_fresh:
  assumes "table_rep h t es" and "hash_heap_ok h"
  shows "h_brk h \<notin> e_addr ` set es"
proof
  assume "h_brk h \<in> e_addr ` set es"
  then obtain e where e: "e \<in> set es" "e_addr e = h_brk h" by auto
  obtain tbl where T: "ht_size t \<noteq> 0"
      "\<And>i. i < unat (ht_size t) \<Longrightarrow> hseg (h_nodes h) (tbl ! i) (bucket (ht_size t) i es) NULL"
    using assms(1) by (rule table_repE) blast
  let ?i = "hidx (ht_size t) (e_key e)"
  have "?i < unat (ht_size t)" using hash_value [OF T(1)] by blast
  moreover have "e_addr e \<in> e_addr ` set (bucket (ht_size t) ?i es)" using e(1) by (auto simp: set_bucket)
  ultimately have "h_nodes h (e_addr e) \<noteq> None" using hseg_allocated T(2) by blast
  then show False using e(2) assms(2) by (simp add: hash_heap_ok_def)
qed

lemma table_rep_with_node:
  assumes rep: "table_rep h t es" and ok: "hash_heap_ok h"
  shows "table_rep (with_node k d h) t es" and "hash_heap_ok (with_node k d h)"
proof -
  have "h_brk h \<notin> e_addr ` set (bucket n i es)" for n i
    using table_rep_fresh [OF rep ok] by (auto simp: set_bucket)
  then show "table_rep (with_node k d h) t es" using rep by (simp add: table_rep_def with_node_def)
  show "hash_heap_ok (with_node k d h)" using ok by (simp add: hash_heap_ok_def with_node_def)
qed

text \<open>Replacing one bucket of a represented table.\<close>

lemma table_rep_bucket_update:
  assumes rep: "table_rep h t es" and tbl: "ht_table t = Some tbl" and i: "i < unat (ht_size t)"
    and new: "hseg (h_nodes h') p (bucket (ht_size t) i es') NULL"
    and other: "\<And>j. j \<noteq> i \<Longrightarrow> bucket (ht_size t) j es' = bucket (ht_size t) j es"
    and heap: "\<And>b. b \<notin> e_addr ` set (bucket (ht_size t) i es) \<Longrightarrow> b \<in> e_addr ` set es \<Longrightarrow> h_nodes h' b = h_nodes h b"
    and es': "distinct (map e_addr es')" "NULL \<notin> e_data ` set es'"
  shows "table_rep h' (t\<lparr>ht_table := Some (tbl[i := p])\<rparr>) es'"
proof -
  obtain tbl' where T: "ht_size t \<noteq> 0" "ht_table t = Some tbl'" "length tbl' = unat (ht_size t)"
      "\<And>i. i < unat (ht_size t) \<Longrightarrow> hseg (h_nodes h) (tbl' ! i) (bucket (ht_size t) i es) NULL"
      "distinct (map e_addr es)" "NULL \<notin> e_data ` set es"
    using rep by (rule table_repE) blast
  have "hseg (h_nodes h') (tbl[i := p] ! j) (bucket (ht_size t) j es') NULL" if j: "j < unat (ht_size t)" for j
  proof (cases "j = i")
    case True
    then show ?thesis using new i T(2,3) tbl by simp
  next
    case False
    have "hseg (h_nodes h') (tbl' ! j) (bucket (ht_size t) j es) NULL"
    proof (rule hseg_cong [OF T(4) [OF j]])
      fix b assume b: "b \<in> e_addr ` set (bucket (ht_size t) j es)"
      then have "b \<notin> e_addr ` set (bucket (ht_size t) i es)" using buckets_disjoint [OF T(5) False] by blast
      moreover have "b \<in> e_addr ` set es" using b by (auto simp: set_bucket)
      ultimately show "h_nodes h' b = h_nodes h b" by (rule heap)
    qed
    then show ?thesis using False other T(2) tbl by simp
  qed
  then show ?thesis using T(1-3) tbl es' by (simp add: table_rep_def)
qed

lemma hash_table_add_rep:
  assumes rep: "table_rep h t es" and ok: "hash_heap_ok h" and d: "d \<noteq> NULL"
    and al: "\<not> alloc_fails (h_plan h)" "\<not> alloc_fails (alloc_rest (h_plan h))"
  shows "\<exists>t' h'. hash_table_add (Some t) d (Some k) h = Some (E_SUCCESS, Some t', h') \<and>
    table_rep h' t' (es @ [(h_brk h, k, d)]) \<and> hash_heap_ok h' \<and>
    ht_size t' = ht_size t \<and> ht_customfree t' = ht_customfree t \<and>
    h_released h' = h_released h \<and> h_plan h' = alloc_rest (alloc_rest (h_plan h))"
proof -
  let ?n = "ht_size t" and ?a = "h_brk h" and ?h = "with_node k d h"
  let ?i = "hidx (ht_size t) k" and ?es = "es @ [(h_brk h, k, d)]"
  note rep1 = table_rep_with_node [OF rep ok, of k d]
  obtain tbl i where B: "hash ?n k = Some i" "ht_table t = Some tbl" "length tbl = unat ?n" "?i < unat ?n"
      "uint i = int ?i" "arr_get tbl (uint i) = Some (tbl ! ?i)" "hseg (h_nodes ?h) (tbl ! ?i) (bucket ?n ?i es) NULL"
    using rep1(1) by (rule table_rep_bucket)
  have fr: "?a \<notin> e_addr ` set es" by (rule table_rep_fresh [OF rep ok])
  have nz: "?a \<noteq> NULL" using ok by (simp add: hash_heap_ok_def)
  have dist: "distinct (map e_addr es)" "NULL \<notin> e_data ` set es" using rep by (auto simp: table_rep_def)
  have de: "distinct (map e_addr ?es)" "NULL \<notin> e_data ` set ?es" using dist fr d by auto
  have nn: "new_node k d h = (?a, ?h)" by (rule new_node_ok [OF d al])
  have node: "h_nodes ?h ?a = Some \<lparr>hn_key = take MAX_KEY_SIZE k, hn_data = d, hn_next = NULL\<rparr>"
    by (simp add: with_node_def)
  have other: "\<And>j. j \<noteq> ?i \<Longrightarrow> bucket ?n j ?es = bucket ?n j es" by (auto simp: bucket_def)
  have st: "h_released ?h = h_released h" "h_plan ?h = alloc_rest (alloc_rest (h_plan h))" by (simp_all add: with_node_def)
  show ?thesis
  proof (cases "bucket ?n ?i es" rule: rev_cases)
    case Nil
    then have e: "tbl ! ?i = NULL" using B(7) by simp
    have "hash_table_add (Some t) d (Some k) h = Some (E_SUCCESS, Some (t\<lparr>ht_table := Some (tbl[?i := ?a])\<rparr>), ?h)"
      using B e nn d nz by (simp add: hash_table_add_def)
    moreover have "table_rep ?h (t\<lparr>ht_table := Some (tbl[?i := ?a])\<rparr>) ?es"
      by (rule table_rep_bucket_update [OF rep1(1) B(2,4)]) (use Nil node nz other de in auto)
    ultimately show ?thesis using rep1(2) st by auto
  next
    case (snoc ys e)
    note seg = B(7) [unfolded snoc]
    have dy: "distinct (map e_addr (ys @ [e]))" using distinct_bucket [OF dist(1), of ?n ?i] snoc by simp
    have fy: "?a \<notin> e_addr ` set (ys @ [e])" using fr snoc [symmetric] by (auto simp: set_bucket)
    obtain h' where h': "set_hnext (e_addr e) ?a ?h = Some h'" "hseg (h_nodes h') (tbl ! ?i) (ys @ [e, (?a, k, d)]) NULL"
        "h' = ?h\<lparr>h_nodes := h_nodes h'\<rparr>" "\<forall>b. b \<noteq> e_addr e \<longrightarrow> h_nodes h' b = h_nodes ?h b"
        "\<forall>b. h_nodes h' b = None \<longleftrightarrow> h_nodes ?h b = None"
      using set_hnext_hseg [OF seg dy node nz fy] by blast
    have ne: "tbl ! ?i \<noteq> NULL" using hseg_start [OF B(7)] snoc by simp
    have h'f: "h_brk h' = h_brk ?h" "h_released h' = h_released ?h" "h_plan h' = h_plan ?h" by (subst h'(3), simp)+
    have "hash_table_add (Some t) d (Some k) h = Some (E_SUCCESS, Some t, h')"
      using B ne nn d nz last_loop_hseg [OF seg] h'(1) by (simp add: hash_table_add_def)
    moreover have "table_rep h' (t\<lparr>ht_table := Some (tbl[?i := tbl ! ?i])\<rparr>) ?es"
      by (rule table_rep_bucket_update [OF rep1(1) B(2,4)]) (use snoc h' other de in auto)
    moreover have "t\<lparr>ht_table := Some (tbl[?i := tbl ! ?i])\<rparr> = t" using B(2) by (cases t) simp
    moreover have "hash_heap_ok h'" using rep1(2) h'(5) h'f by (simp add: hash_heap_ok_def)
    ultimately show ?thesis using h'f st by auto
  qed
qed

text \<open>An allocation failure in \<open>new_node\<close> goes unreported: the exit code is still the one of
  the hash computation.\<close>

lemma hash_table_add_no_memory:
  assumes "table_rep h t es" and "d \<noteq> NULL" and "alloc_fails (h_plan h)"
  shows "hash_table_add (Some t) d (Some k) h = Some (E_SUCCESS, Some t, h_alloc_next h)"
proof -
  obtain i where "hash (ht_size t) k = Some i" using assms(1) by (rule table_rep_bucket)
  then show ?thesis using assms(2,3) by (simp add: hash_table_add_def new_node_def)
qed

section \<open>Removing\<close>

lemma remove_loop_none:
  "hseg (h_nodes h) p es NULL \<Longrightarrow> (\<And>e. e \<in> set es \<Longrightarrow> take MAX_LENGTH (e_key e) \<noteq> take MAX_LENGTH k) \<Longrightarrow>
   remove_loop f k prev p first h = Some (E_FAILURE, first, h)"
proof (induction es arbitrary: p prev)
  case Nil
  then show ?case by (subst remove_loop.simps) simp
next
  case (Cons e es)
  then obtain nx where "p \<noteq> NULL" "hseg (h_nodes h) nx es NULL"
      "h_nodes h p = Some \<lparr>hn_key = take MAX_KEY_SIZE (e_key e), hn_data = e_data e, hn_next = nx\<rparr>" by auto
  with Cons.IH [of nx p] Cons.prems(2) show ?case by (subst remove_loop.simps) (simp add: strncmp_stored)
qed

text \<open>The loop walks to the first match.\<close>

lemma remove_loop_walk:
  assumes "hseg (h_nodes h) p (xs @ e # ys) NULL" and "\<And>x. x \<in> set xs \<Longrightarrow> take MAX_LENGTH (e_key x) \<noteq> take MAX_LENGTH k"
  shows "remove_loop f k prev p first h =
    remove_loop f k (if xs = [] then prev else e_addr (last xs)) (e_addr e) first h"
  using assms
proof (induction xs arbitrary: p prev)
  case (Cons x xs)
  then obtain nx where nx: "p \<noteq> NULL" "hseg (h_nodes h) nx (xs @ e # ys) NULL" "e_addr x = p"
      "h_nodes h p = Some \<lparr>hn_key = take MAX_KEY_SIZE (e_key x), hn_data = e_data x, hn_next = nx\<rparr>" by auto
  have "remove_loop f k prev p first h = remove_loop f k p nx first h"
    using nx Cons.prems(2) by (subst remove_loop.simps) (simp add: strncmp_stored)
  also have "\<dots> = remove_loop f k (if xs = [] then p else e_addr (last xs)) (e_addr e) first h"
    using Cons.IH [OF nx(2)] Cons.prems(2) by simp
  finally show ?case using nx(3) by simp
qed auto

lemma remove_loop_match:
  assumes seg: "hseg (h_nodes h) p (xs @ e # ys) NULL" and dist: "distinct (map e_addr (xs @ e # ys))"
    and no: "\<And>x. x \<in> set xs \<Longrightarrow> take MAX_LENGTH (e_key x) \<noteq> take MAX_LENGTH k"
    and yes: "take MAX_LENGTH (e_key e) = take MAX_LENGTH k"
  shows "\<exists>p' N. remove_loop (Some g) k NULL p p h =
      Some (E_SUCCESS, p', h\<lparr>h_nodes := N, h_released := h_released h @ g (e_data e)\<rparr>) \<and>
    hseg N p' (xs @ ys) NULL \<and> N (e_addr e) = None \<and>
    (\<forall>b. b \<notin> e_addr ` set (xs @ e # ys) \<longrightarrow> N b = h_nodes h b) \<and> (\<forall>b. h_nodes h b = None \<longrightarrow> N b = None)"
proof -
  obtain nx where nx: "hseg (h_nodes h) p xs (e_addr e)" "e_addr e \<noteq> NULL" "hseg (h_nodes h) nx ys NULL"
      "h_nodes h (e_addr e) = Some \<lparr>hn_key = take MAX_KEY_SIZE (e_key e), hn_data = e_data e, hn_next = nx\<rparr>"
    using seg by (auto simp: hseg_append)
  have out: "e_addr e \<notin> e_addr ` set xs" "e_addr e \<notin> e_addr ` set ys" using dist by auto
  show ?thesis
  proof (cases xs rule: rev_cases)
    case Nil
    let ?N = "(h_nodes h)(e_addr e := None)"
    have "remove_loop (Some g) k NULL p p h =
        Some (E_SUCCESS, nx, h\<lparr>h_nodes := ?N, h_released := h_released h @ g (e_data e)\<rparr>)"
      using Nil nx yes by (subst remove_loop.simps) (simp add: strncmp_stored free_hnode_def)
    then show ?thesis using Nil nx(3) out by (intro exI [of _ nx] exI [of _ ?N]) auto
  next
    case (snoc zs z)
    obtain n where n: "h_nodes h (e_addr z) = Some n" "e_addr z \<noteq> NULL" "hseg (h_nodes h) p zs (e_addr z)"
        "n = \<lparr>hn_key = take MAX_KEY_SIZE (e_key z), hn_data = e_data z, hn_next = e_addr e\<rparr>"
      using nx(1) snoc by (auto simp: hseg_append)
    let ?N = "(h_nodes h)(e_addr z \<mapsto> n\<lparr>hn_next := nx\<rparr>, e_addr e := None)"
    have ze: "e_addr z \<noteq> e_addr e" "e_addr z \<notin> e_addr ` set zs" "e_addr z \<notin> e_addr ` set ys" "e_addr e \<notin> e_addr ` set zs"
      using dist snoc by auto
    have "remove_loop (Some g) k NULL p p h = remove_loop (Some g) k (e_addr z) (e_addr e) p h"
      using remove_loop_walk [OF seg no] snoc by simp
    also have "\<dots> = Some (E_SUCCESS, p, h\<lparr>h_nodes := ?N, h_released := h_released h @ g (e_data e)\<rparr>)"
      using nx n ze yes by (subst remove_loop.simps) (simp add: strncmp_stored free_hnode_def set_hnext_def)
    finally show ?thesis using snoc nx n ze out by (intro exI [of _ p] exI [of _ ?N]) (auto simp: hseg_append)
  qed
qed

lemma bucket_split:
  assumes "find (key_match n k) es = Some e"
  shows "\<exists>xs ys. es = xs @ e # ys \<and> (\<forall>x \<in> set xs. \<not> key_match n k x) \<and> key_match n k e"
  using assms
proof (induction es)
  case (Cons x es)
  show ?case
  proof (cases "key_match n k x")
    case True
    then show ?thesis using Cons.prems by (intro exI [of _ "[]"] exI [of _ es]) auto
  next
    case False
    then obtain xs ys where "es = xs @ e # ys" "\<forall>x \<in> set xs. \<not> key_match n k x" "key_match n k e"
      using Cons by auto
    with False show ?thesis by (intro exI [of _ "x # xs"] exI [of _ ys]) auto
  qed
qed simp

lemma hash_table_remove_missing:
  assumes rep: "table_rep h t es" and no: "find (key_match (ht_size t) k) es = None"
  shows "hash_table_remove (Some t) (Some k) h = Some (E_FAILURE, Some t, h)"
proof -
  let ?n = "ht_size t" and ?i = "hidx (ht_size t) k"
  obtain tbl i where B: "hash ?n k = Some i" "ht_table t = Some tbl" "length tbl = unat ?n" "?i < unat ?n"
      "uint i = int ?i" "arr_get tbl (uint i) = Some (tbl ! ?i)" "hseg (h_nodes h) (tbl ! ?i) (bucket ?n ?i es) NULL"
    using rep by (rule table_rep_bucket)
  have "remove_loop (ht_customfree t) k NULL (tbl ! ?i) (tbl ! ?i) h = Some (E_FAILURE, tbl ! ?i, h)"
    by (rule remove_loop_none [OF B(7)]) (use no in \<open>fastforce simp: find_None_iff set_bucket key_match_def\<close>)
  moreover have "t\<lparr>ht_table := Some (tbl[?i := tbl ! ?i])\<rparr> = t" using B(2) by (cases t) simp
  ultimately show ?thesis using B by (simp add: hash_table_remove_def)
qed

lemma hash_table_remove_rep:
  assumes rep: "table_rep h t (xs @ e # ys)" and ok: "hash_heap_ok h" and g: "ht_customfree t = Some g"
    and no: "\<forall>x \<in> set xs. \<not> key_match (ht_size t) k x" and yes: "key_match (ht_size t) k e"
  shows "\<exists>t' h'. hash_table_remove (Some t) (Some k) h = Some (E_SUCCESS, Some t', h') \<and>
    table_rep h' t' (xs @ ys) \<and> hash_heap_ok h' \<and> ht_size t' = ht_size t \<and> ht_customfree t' = ht_customfree t \<and>
    h_released h' = h_released h @ g (e_data e) \<and> h_nodes h' (e_addr e) = None \<and> h_plan h' = h_plan h"
proof -
  let ?n = "ht_size t" and ?i = "hidx (ht_size t) k" and ?es = "xs @ e # ys"
  obtain tbl i where B: "hash ?n k = Some i" "ht_table t = Some tbl" "length tbl = unat ?n" "?i < unat ?n"
      "uint i = int ?i" "arr_get tbl (uint i) = Some (tbl ! ?i)" "hseg (h_nodes h) (tbl ! ?i) (bucket ?n ?i ?es) NULL"
    using rep by (rule table_rep_bucket)
  have bs: "bucket ?n ?i ?es = bucket ?n ?i xs @ e # bucket ?n ?i ys"
    using yes by (simp add: bucket_def key_match_def)
  have dist: "distinct (map e_addr ?es)" "NULL \<notin> e_data ` set ?es" using rep unfolding table_rep_def by blast+
  have db: "distinct (map e_addr (bucket ?n ?i xs @ e # bucket ?n ?i ys))" using distinct_bucket [OF dist(1), of ?n ?i] bs by simp
  have no': "\<And>x. x \<in> set (bucket ?n ?i xs) \<Longrightarrow> take MAX_LENGTH (e_key x) \<noteq> take MAX_LENGTH k"
    using no by (auto simp: set_bucket key_match_def)
  have yes': "take MAX_LENGTH (e_key e) = take MAX_LENGTH k" using yes by (simp add: key_match_def)
  obtain p' N where R: "remove_loop (Some g) k NULL (tbl ! ?i) (tbl ! ?i) h =
        Some (E_SUCCESS, p', h\<lparr>h_nodes := N, h_released := h_released h @ g (e_data e)\<rparr>)"
      "hseg N p' (bucket ?n ?i xs @ bucket ?n ?i ys) NULL" "N (e_addr e) = None"
      "\<forall>b. b \<notin> e_addr ` set (bucket ?n ?i ?es) \<longrightarrow> N b = h_nodes h b" "\<forall>b. h_nodes h b = None \<longrightarrow> N b = None"
    using remove_loop_match [OF B(7) [unfolded bs] db no' yes', of g] unfolding bs by blast
  let ?h = "h\<lparr>h_nodes := N, h_released := h_released h @ g (e_data e)\<rparr>"
  have "hash_table_remove (Some t) (Some k) h = Some (E_SUCCESS, Some (t\<lparr>ht_table := Some (tbl[?i := p'])\<rparr>), ?h)"
    using B R(1) g by (simp add: hash_table_remove_def)
  moreover have "table_rep ?h (t\<lparr>ht_table := Some (tbl[?i := p'])\<rparr>) (xs @ ys)"
    by (rule table_rep_bucket_update [OF rep B(2,4)])
      (use R(2,4) yes dist in \<open>auto simp: bucket_def key_match_def\<close>)
  moreover have "hash_heap_ok ?h" using ok R(5) by (simp add: hash_heap_ok_def)
  ultimately show ?thesis using R(3) by auto
qed

section \<open>Clearing and listing\<close>

text \<open>The chains of all buckets, in table order.\<close>

definition chains :: "32 word \<Rightarrow> entry list \<Rightarrow> entry list list" where
  "chains n es = map (\<lambda>i. bucket n i es) [0 ..< unat n]"

lemma filter_partition:
  "(\<And>x. x \<in> set xs \<Longrightarrow> f x < m) \<Longrightarrow> mset (concat (map (\<lambda>i. filter (\<lambda>x. f x = i) xs) [0 ..< m])) = mset xs"
proof (induction xs)
  case (Cons x xs)
  have "mset (concat (map (\<lambda>i. filter (\<lambda>y. f y = i) (x # xs)) [0 ..< k])) =
      mset (concat (map (\<lambda>i. filter (\<lambda>y. f y = i) xs) [0 ..< k])) + (if f x < k then {#x#} else {#})" for k
    by (induction k) auto
  with Cons show ?case by simp
qed simp

lemma mset_chains: "n \<noteq> 0 \<Longrightarrow> mset (concat (chains n es)) = mset es"
  unfolding chains_def bucket_def by (rule filter_partition) (use hash_value in blast)

lemma table_rep_chains:
  assumes "table_rep h t es"
  obtains tbl where "ht_table t = Some tbl" and "length tbl = unat (ht_size t)" and "ht_size t \<noteq> 0"
    and "list_all2 (\<lambda>p es. hseg (h_nodes h) p es NULL) tbl (chains (ht_size t) es)"
    and "distinct (map e_addr (concat (chains (ht_size t) es)))"
proof -
  obtain tbl where T: "ht_size t \<noteq> 0" "ht_table t = Some tbl" "length tbl = unat (ht_size t)"
      "\<And>i. i < unat (ht_size t) \<Longrightarrow> hseg (h_nodes h) (tbl ! i) (bucket (ht_size t) i es) NULL" "distinct (map e_addr es)"
    using assms by (rule table_repE) blast
  have "list_all2 (\<lambda>p es. hseg (h_nodes h) p es NULL) tbl (chains (ht_size t) es)"
    using T(3,4) by (simp add: list_all2_conv_all_nth chains_def)
  moreover have "distinct (map e_addr (concat (chains (ht_size t) es)))"
    using T(5) mset_chains [OF T(1), of es] by (metis mset_map mset_eq_imp_distinct_iff)
  ultimately show ?thesis using that T(1-3) by blast
qed

lemma heap_unchanged: "h\<lparr>h_nodes := h_nodes h |` UNIV\<rparr> = h" "h_plan h = [] \<Longrightarrow> h\<lparr>h_plan := []\<rparr> = h"
  by (simp_all add: restrict_map_def)

lemma clear_chain_hseg:
  assumes "hseg (h_nodes h) p es NULL" and "distinct (map e_addr es)"
  shows "clear_chain (Some g) p h =
    Some (h\<lparr>h_nodes := h_nodes h |` (- e_addr ` set es), h_released := h_released h @ concat (map (\<lambda>e. g (e_data e)) es)\<rparr>)"
  using assms
proof (induction es arbitrary: p h)
  case Nil
  then show ?case by (subst clear_chain.simps) (simp add: heap_unchanged)
next
  case (Cons e es)
  then obtain nx where nx: "p \<noteq> NULL" "hseg (h_nodes h) nx es NULL" "e_addr e = p"
      "h_nodes h p = Some \<lparr>hn_key = take MAX_KEY_SIZE (e_key e), hn_data = e_data e, hn_next = nx\<rparr>" by auto
  let ?h = "h\<lparr>h_released := h_released h @ g (e_data e), h_nodes := (h_nodes h)(p := None)\<rparr>"
  have "hseg (h_nodes ?h) nx es NULL" "distinct (map e_addr es)" using nx Cons.prems(2) by auto
  note ih = Cons.IH [OF this]
  have "clear_chain (Some g) p h = clear_chain (Some g) nx ?h"
    using nx by (subst clear_chain.simps) (simp add: free_hnode_def)
  moreover have "((h_nodes h)(p := None)) |` (- e_addr ` set es) = h_nodes h |` (- e_addr ` set (e # es))"
    using nx(3) by (auto simp: restrict_map_def)
  ultimately show ?case unfolding ih by (simp only:; simp)
qed

lemma clear_table_hseg:
  assumes "list_all2 (\<lambda>p es. hseg (h_nodes h) p es NULL) ps ess" and "distinct (map e_addr (concat ess))"
  shows "clear_table (Some g) ps h =
    Some (h\<lparr>h_nodes := h_nodes h |` (- e_addr ` set (concat ess)),
            h_released := h_released h @ concat (map (\<lambda>e. g (e_data e)) (concat ess))\<rparr>)"
  using assms
proof (induction ess arbitrary: ps h rule: list.induct)
  case (Cons es ess)
  then obtain p ps' where ps: "ps = p # ps'" "hseg (h_nodes h) p es NULL"
      "list_all2 (\<lambda>p es. hseg (h_nodes h) p es NULL) ps' ess"
    by (auto simp: list_all2_Cons2)
  let ?h = "h\<lparr>h_nodes := h_nodes h |` (- e_addr ` set es), h_released := h_released h @ concat (map (\<lambda>e. g (e_data e)) es)\<rparr>"
  have d: "distinct (map e_addr es)" "distinct (map e_addr (concat ess))"
      "e_addr ` set es \<inter> e_addr ` set (concat ess) = {}"
    using Cons.prems(2) by auto
  have 1: "clear_chain (Some g) p h = Some ?h" by (rule clear_chain_hseg [OF ps(2) d(1)])
  have "list_all2 (\<lambda>p es. hseg (h_nodes ?h) p es NULL) ps' ess"
    using ps(3)
  proof (rule list.rel_mono_strong)
    fix q fs assume fs: "fs \<in> set ess" and q: "hseg (h_nodes h) q fs NULL"
    show "hseg (h_nodes ?h) q fs NULL"
      by (rule hseg_cong [OF q]) (use d(3) fs in \<open>auto simp: restrict_map_def\<close>)
  qed
  note ih = Cons.IH [OF this d(2)]
  have "(h_nodes h |` (- e_addr ` set es)) |` (- e_addr ` set (concat ess)) = h_nodes h |` (- e_addr ` set (concat (es # ess)))"
    by (intro ext) (simp add: restrict_map_def image_Un)
  then show ?case using 1 ih ps(1) by simp
qed (simp add: heap_unchanged)

lemma hash_table_clear_rep:
  assumes rep: "table_rep h t es" and ok: "hash_heap_ok h" and g: "ht_customfree t = Some g"
  shows "\<exists>t' h'. hash_table_clear (Some t) h = Some (E_SUCCESS, Some t', h') \<and> table_rep h' t' [] \<and>
    hash_heap_ok h' \<and> ht_size t' = ht_size t \<and> ht_customfree t' = Some g \<and>
    h_nodes h' = h_nodes h |` (- e_addr ` set es) \<and>
    h_released h' = h_released h @ concat (map (\<lambda>e. g (e_data e)) (concat (chains (ht_size t) es)))"
proof -
  obtain tbl where T: "ht_table t = Some tbl" "length tbl = unat (ht_size t)" "ht_size t \<noteq> 0"
      "list_all2 (\<lambda>p es. hseg (h_nodes h) p es NULL) tbl (chains (ht_size t) es)"
      "distinct (map e_addr (concat (chains (ht_size t) es)))"
    using rep by (rule table_rep_chains)
  have "set (concat (chains (ht_size t) es)) = set es" using mset_chains [OF T(3)] by (metis set_mset_mset)
  note C = clear_table_hseg [OF T(4,5), of g, unfolded this]
  show ?thesis using T(1-3) C g ok
    by (auto simp: hash_table_clear_def table_rep_def bucket_def hash_heap_ok_def restrict_map_def)
qed

lemma hash_table_destroy_rep:
  assumes "table_rep h t es" and "hash_heap_ok h" and "ht_customfree t = Some g"
  shows "\<exists>h'. hash_table_destroy (Some t) h = Some (E_SUCCESS, None, h') \<and>
    h_nodes h' = h_nodes h |` (- e_addr ` set es) \<and>
    h_released h' = h_released h @ concat (map (\<lambda>e. g (e_data e)) (concat (chains (ht_size t) es)))"
  using hash_table_clear_rep [OF assms] by (auto simp: hash_table_destroy_def)

text \<open>The listings, when no allocation fails: the stored keys in table order, or undefined when the
  buffer is too short.\<close>

definition kept :: "(string \<Rightarrow> bool) \<Rightarrow> entry list \<Rightarrow> string option list" where
  "kept keep es = map Some (filter keep (map (take MAX_KEY_SIZE \<circ> e_key) es))"

lemma kept_append [simp]: "kept keep (xs @ ys) = kept keep xs @ kept keep ys"
  by (simp add: kept_def)

lemma collect_chain_hseg:
  assumes "hseg (h_nodes h) p es NULL" and "h_plan h = []" and "length buf \<le> cap"
  shows "collect_chain keep cap p buf h =
    (if length (buf @ kept keep es) \<le> cap then Some (buf @ kept keep es, h) else None)"
  using assms
proof (induction es arbitrary: p buf)
  case Nil
  then show ?case by (subst collect_chain.simps) (simp add: kept_def)
next
  case (Cons e es)
  then obtain nx where nx: "p \<noteq> NULL" "hseg (h_nodes h) nx es NULL"
      "h_nodes h p = Some \<lparr>hn_key = take MAX_KEY_SIZE (e_key e), hn_data = e_data e, hn_next = nx\<rparr>" by auto
  let ?k = "take MAX_KEY_SIZE (e_key e)"
  show ?case
  proof (cases "keep ?k \<and> length buf < cap")
    case True
    then have "collect_chain keep cap p buf h = collect_chain keep cap nx (buf @ [Some ?k]) h"
      using nx Cons.prems(2) by (subst collect_chain.simps) (simp add: strndup_def heap_unchanged)
    then show ?thesis using Cons.IH [OF nx(2) Cons.prems(2), of "buf @ [Some ?k]"] True
      by (simp add: kept_def)
  next
    case False
    then show ?thesis using nx Cons.IH [OF nx(2) Cons.prems(2,3)] Cons.prems
      by (subst collect_chain.simps) (auto simp: kept_def)
  qed
qed

lemma collect_table_hseg:
  assumes "list_all2 (\<lambda>p es. hseg (h_nodes h) p es NULL) ps ess" and "h_plan h = []" and "length buf \<le> cap"
  shows "collect_table keep cap ps buf h =
    (if length (buf @ kept keep (concat ess)) \<le> cap then Some (buf @ kept keep (concat ess), h) else None)"
  using assms
proof (induction ess arbitrary: ps buf rule: list.induct)
  case Nil
  then show ?case by (simp add: kept_def)
next
  case (Cons es ess)
  then obtain p ps' where ps: "ps = p # ps'" "hseg (h_nodes h) p es NULL"
      "list_all2 (\<lambda>p es. hseg (h_nodes h) p es NULL) ps' ess"
    by (auto simp: list_all2_Cons2)
  show ?case
    using ps(1) collect_chain_hseg [OF ps(2) Cons.prems(2,3), of keep] Cons.IH [OF ps(3) Cons.prems(2), of "buf @ kept keep es"]
    by auto
qed

lemma hash_table_find_rep:
  fixes s :: string
  assumes rep: "table_rep h t es" and pl: "h_plan h = []"
  defines "ks \<equiv> kept (\<lambda>k. strstr k s) (concat (chains (ht_size t) es))"
  shows "hash_table_find (Some t) (Some s) True h =
    (if length ks \<le> unat (ht_size t) then Some (E_SUCCESS, Some ks, h) else None)"
proof -
  obtain tbl where T: "ht_table t = Some tbl" "length tbl = unat (ht_size t)" "ht_size t \<noteq> 0"
      "list_all2 (\<lambda>p es. hseg (h_nodes h) p es NULL) tbl (chains (ht_size t) es)"
    using rep by (rule table_rep_chains)
  show ?thesis using T(1-3) pl collect_table_hseg [OF T(4) pl, of "[]" "unat (ht_size t)" "\<lambda>k. strstr k s"]
    by (simp add: hash_table_find_def buckets_def ks_def heap_unchanged)
qed

lemma hash_table_list_rep:
  assumes rep: "table_rep h t es" and pl: "h_plan h = []"
  defines "ks \<equiv> kept (\<lambda>k. True) (concat (chains (ht_size t) es))"
  shows "hash_table_list (Some t) True h =
    (if length es \<le> unat (ht_size t) then Some (E_SUCCESS, Some ks, h) else None)"
proof -
  obtain tbl where T: "ht_table t = Some tbl" "length tbl = unat (ht_size t)" "ht_size t \<noteq> 0"
      "list_all2 (\<lambda>p es. hseg (h_nodes h) p es NULL) tbl (chains (ht_size t) es)"
    using rep by (rule table_rep_chains)
  have len: "length ks = length es" using mset_chains [OF T(3), of es] by (simp add: ks_def kept_def) (metis size_mset)
  show ?thesis using T(1-3) pl len collect_table_hseg [OF T(4) pl, of "[]" "unat (ht_size t)" "\<lambda>k. True"]
    by (simp add: hash_table_list_def buckets_def ks_def heap_unchanged)
qed

section \<open>The abstract multimap\<close>

text \<open>
  For keys of at most \<open>MAX_LENGTH\<close> characters the table is an association list in insertion
  order that may hold a key several times: a lookup finds the oldest entry of a key and a removal
  deletes it.
\<close>

datatype map_op = Add string ptr | Lookup string | Remove string

datatype map_out = M_code int | M_data ptr

fun remove_first :: "string \<Rightarrow> (string \<times> ptr) list \<Rightarrow> (string \<times> ptr) list" where
  "remove_first k [] = []"
| "remove_first k ((k', d) # al) = (if k' = k then al else (k', d) # remove_first k al)"

fun multimap_spec :: "map_op \<Rightarrow> (string \<times> ptr) list \<Rightarrow> map_out \<times> (string \<times> ptr) list" where
  "multimap_spec (Add k d) al = (M_code E_SUCCESS, al @ [(k, d)])"
| "multimap_spec (Lookup k) al = (M_data (case map_of al k of None \<Rightarrow> NULL | Some d \<Rightarrow> d), al)"
| "multimap_spec (Remove k) al =
     (if k \<in> fst ` set al then (M_code E_SUCCESS, remove_first k al) else (M_code E_FAILURE, al))"

fun multimap_ok :: "map_op \<Rightarrow> (string \<times> ptr) list \<Rightarrow> bool" where
  "multimap_ok (Add k d) al = (length k \<le> MAX_LENGTH \<and> d \<noteq> NULL)"
| "multimap_ok (Lookup k) al = (length k \<le> MAX_LENGTH)"
| "multimap_ok (Remove k) al = (length k \<le> MAX_LENGTH)"

fun table_step :: "map_op \<Rightarrow> hash_table_t \<times> hash_heap \<Rightarrow> (map_out \<times> hash_table_t \<times> hash_heap) option" where
  "table_step (Add k d) (t, h) =
     do { (c, t', h') \<leftarrow> hash_table_add (Some t) d (Some k) h; t' \<leftarrow> t'; Some (M_code c, t', h') }"
| "table_step (Lookup k) (t, h) = do { d \<leftarrow> hash_table_lookup (Some t) (Some k) h; Some (M_data d, t, h) }"
| "table_step (Remove k) (t, h) =
     do { (c, t', h') \<leftarrow> hash_table_remove (Some t) (Some k) h; t' \<leftarrow> t'; Some (M_code c, t', h') }"

definition table_abs :: "hash_table_t \<times> hash_heap \<Rightarrow> (string \<times> ptr) list \<Rightarrow> bool" where
  "table_abs c al \<longleftrightarrow>
     (\<exists>es. table_rep (snd c) (fst c) es \<and> al = map snd es \<and> hash_heap_ok (snd c) \<and> h_plan (snd c) = [] \<and>
        (\<exists>g. ht_customfree (fst c) = Some g) \<and> (\<forall>e \<in> set es. length (e_key e) \<le> MAX_LENGTH))"

lemma short_match:
  "length k \<le> MAX_LENGTH \<Longrightarrow> length (e_key e) \<le> MAX_LENGTH \<Longrightarrow> key_match n k e \<longleftrightarrow> e_key e = k"
  by (auto simp: key_match_def)

lemma find_short:
  assumes "\<forall>e \<in> set es. length (e_key e) \<le> MAX_LENGTH" and "length k \<le> MAX_LENGTH"
  shows "map_option e_data (find (key_match n k) es) = map_of (map snd es) k"
  using assms by (induction es) (auto simp: short_match)

lemma remove_first_split:
  "k \<notin> fst ` set xs \<Longrightarrow> remove_first k (xs @ (k, d) # ys) = xs @ ys"
  by (induction xs) auto

lemma table_step_refines:
  assumes "table_abs c al" and "multimap_ok o1 al"
  shows "\<exists>c'. table_step o1 c = Some (fst (multimap_spec o1 al), c') \<and> table_abs c' (snd (multimap_spec o1 al))"
proof -
  obtain t h es g where c: "c = (t, h)" "table_rep h t es" "al = map snd es" "hash_heap_ok h" "h_plan h = []"
      "ht_customfree t = Some g" "\<forall>e \<in> set es. length (e_key e) \<le> MAX_LENGTH"
    using assms(1) by (cases c) (auto simp: table_abs_def)
  show ?thesis
  proof (cases o1)
    case (Add k d)
    then have ok: "length k \<le> MAX_LENGTH" "d \<noteq> NULL" using assms(2) by auto
    obtain t' h' where A: "hash_table_add (Some t) d (Some k) h = Some (E_SUCCESS, Some t', h')"
        "table_rep h' t' (es @ [(h_brk h, k, d)])" "hash_heap_ok h'" "ht_customfree t' = ht_customfree t" "h_plan h' = []"
      using hash_table_add_rep [OF c(2,4) ok(2), of k] c(5) by auto
    have "table_abs (t', h') (al @ [(k, d)])"
      unfolding table_abs_def using A c(3,6,7) ok(1) by (intro exI [of _ "es @ [(h_brk h, k, d)]"]) auto
    then show ?thesis using Add A(1) c(1) by simp
  next
    case (Lookup k)
    then have "map_option e_data (find (key_match (ht_size t) k) es) = map_of al k"
      using assms(2) c(3,7) find_short by simp
    then have "hash_table_lookup (Some t) (Some k) h = Some (case map_of al k of None \<Rightarrow> NULL | Some d \<Rightarrow> d)"
      using hash_table_lookup_rep [OF c(2), of k] by (auto split: option.splits)
    then show ?thesis using Lookup assms(1) c(1) by simp
  next
    case (Remove k)
    then have kl: "length k \<le> MAX_LENGTH" using assms(2) by simp
    show ?thesis
    proof (cases "find (key_match (ht_size t) k) es")
      case None
      then have "k \<notin> fst ` set al" using kl c(3,7) by (fastforce simp: find_None_iff short_match)
      then show ?thesis using hash_table_remove_missing [OF c(2) None] Remove assms(1) c(1) by simp
    next
      case (Some e)
      then obtain xs ys where s: "es = xs @ e # ys" "\<forall>x \<in> set xs. \<not> key_match (ht_size t) k x" "key_match (ht_size t) k e"
        using bucket_split by blast
      obtain t' h' where R: "hash_table_remove (Some t) (Some k) h = Some (E_SUCCESS, Some t', h')"
          "table_rep h' t' (xs @ ys)" "hash_heap_ok h'" "ht_customfree t' = ht_customfree t" "h_plan h' = h_plan h"
        using hash_table_remove_rep [OF c(2) [unfolded s(1)] c(4,6) s(2,3)] by blast
      have ek: "e_key e = k" using s kl c(7) short_match by auto
      have "k \<notin> fst ` set (map snd xs)" using s kl c(7) by (auto simp: short_match)
      then have "remove_first k al = map snd (xs @ ys)"
        using remove_first_split [of k "map snd xs" "e_data e" "map snd ys"] c(3) s(1) ek by (cases e) auto
      moreover have "k \<in> fst ` set al" using c(3) s(1) ek by force
      moreover have "table_abs (t', h') (map snd (xs @ ys))"
        unfolding table_abs_def using R c(5-7) s(1) by (intro exI [of _ "xs @ ys"]) auto
      ultimately show ?thesis using Remove R(1) c(1) by simp
    qed
  qed
qed

interpretation htable: refinement table_step multimap_spec multimap_ok table_abs
  by unfold_locales (rule table_step_refines)

end
