(* ===== verification/Socket_Manager.thy ===== *)
theory Socket_Manager
  imports Prelude Refinement "HOL-Library.Multiset"
begin

text \<open>
  Networking/tcp_server/src/socket_manager.c: the growable array of \<open>struct pollfd\<close> behind
  the server's \<open>poll\<close> loop.  The manager is a value (\<open>None\<close> for a NULL pointer), its
  mutex a flag: locking it when it is held blocks.  A field that was never written is
  \<open>None\<close>.
\<close>

section \<open>State\<close>

record pollfd =
  p_fd :: "int option"
  p_events :: "int option"
  p_revents :: "int option"

record socket_manager_t =
  fd_arr :: "pollfd list option"
  max_fds :: int
  fd_count :: int
  fd_capacity :: int
  fd_mutex_locked :: bool

record sock_env =
  sm_plan :: alloc_plan
  sm_closed :: "int list"

definition POLLIN :: int where "POLLIN = 1"
definition DEFAULT_FD_CAPACITY :: int where "DEFAULT_FD_CAPACITY = 5"

definition zero_pollfd :: pollfd where
  "zero_pollfd = \<lparr>p_fd = Some 0, p_events = Some 0, p_revents = Some 0\<rparr>"

definition fresh_pollfd :: pollfd where
  "fresh_pollfd = \<lparr>p_fd = None, p_events = None, p_revents = None\<rparr>"

abbreviation sm_alloc_next :: "sock_env \<Rightarrow> sock_env" where
  "sm_alloc_next e \<equiv> e\<lparr>sm_plan := alloc_rest (sm_plan e)\<rparr>"

text \<open>\<open>sock_mgr->fd_arr[i]\<close>: reading it, and writing fields of it.\<close>

definition slot :: "socket_manager_t \<Rightarrow> int \<Rightarrow> pollfd option" where
  "slot m i = do { a \<leftarrow> fd_arr m; arr_get a i }"

definition update_slot :: "socket_manager_t \<Rightarrow> int \<Rightarrow> (pollfd \<Rightarrow> pollfd) \<Rightarrow> socket_manager_t option" where
  "update_slot m i f =
     do { a \<leftarrow> fd_arr m; x \<leftarrow> arr_get a i; a \<leftarrow> arr_set a i (f x); Some (m\<lparr>fd_arr := Some a\<rparr>) }"

section \<open>Operations\<close>

definition sock_fd_increase_capacity ::
  "socket_manager_t option \<Rightarrow> sock_env \<Rightarrow> (int \<times> socket_manager_t option \<times> sock_env) option" where
  "sock_fd_increase_capacity sock_mgr e =
     (case sock_mgr of
        None \<Rightarrow> Some (E_FAILURE, sock_mgr, e)
      | Some m \<Rightarrow> do {
          new_capacity \<leftarrow> c_int (fd_capacity m * 2);
          if new_capacity \<le> 0 then None
          else if alloc_fails (sm_plan e) then Some (E_FAILURE, sock_mgr, sm_alloc_next e)
          else do {
            a \<leftarrow> fd_arr m;
            Some (E_SUCCESS,
                  Some (m\<lparr>fd_arr := Some (a @ replicate (nat new_capacity - length a) fresh_pollfd),
                          fd_capacity := new_capacity\<rparr>),
                  sm_alloc_next e) } })"

fun init_slots :: "nat \<Rightarrow> int \<Rightarrow> socket_manager_t \<Rightarrow> socket_manager_t option" where
  "init_slots 0 idx m = Some m"
| "init_slots (Suc k) idx m =
     do {
       m \<leftarrow> update_slot m idx (\<lambda>x. x\<lparr>p_fd := Some (- 1), p_events := Some 0\<rparr>);
       init_slots k (idx + 1) m }"

definition sock_fd_arr_init ::
  "socket_manager_t option \<Rightarrow> int \<Rightarrow> sock_env \<Rightarrow> (int \<times> socket_manager_t option \<times> sock_env) option" where
  "sock_fd_arr_init sock_mgr server_fd e =
     (case sock_mgr of
        None \<Rightarrow> Some (E_FAILURE, sock_mgr, e)
      | Some m \<Rightarrow>
          if alloc_fails (sm_plan e) then Some (E_FAILURE, Some (m\<lparr>fd_arr := None\<rparr>), sm_alloc_next e)
          else do {
            let m = m\<lparr>fd_arr := Some (replicate (nat DEFAULT_FD_CAPACITY) zero_pollfd)\<rparr>;
            m \<leftarrow> update_slot m 0 (\<lambda>x. x\<lparr>p_fd := Some server_fd, p_events := Some POLLIN\<rparr>);
            m \<leftarrow> init_slots (nat (max_fds m - 1)) 1 m;
            Some (E_SUCCESS, Some m, sm_alloc_next e) })"

definition sock_mgr_init ::
  "socket_manager_t option \<Rightarrow> int \<Rightarrow> int \<Rightarrow> int \<Rightarrow> sock_env \<Rightarrow> (int \<times> socket_manager_t option \<times> sock_env) option" where
  "sock_mgr_init sock_mgr server_fd new_max_fds new_fd_capacity e =
     (case sock_mgr of
        None \<Rightarrow> Some (E_FAILURE, sock_mgr, e)
      | Some m \<Rightarrow>
          if 0 \<ge> new_max_fds then Some (E_FAILURE, sock_mgr, e)
          else do {
            (exit_code, sock_mgr, e) \<leftarrow> sock_fd_arr_init sock_mgr server_fd e;
            if exit_code \<noteq> E_SUCCESS then Some (exit_code, sock_mgr, e)
            else do {
              m \<leftarrow> sock_mgr;
              Some (E_SUCCESS,
                    Some (m\<lparr>fd_count := 1, fd_capacity := new_fd_capacity, max_fds := new_max_fds,
                            fd_mutex_locked := False\<rparr>), e) } })"

definition sock_fd_add ::
  "socket_manager_t option \<Rightarrow> int \<Rightarrow> sock_env \<Rightarrow> (int outcome \<times> socket_manager_t option \<times> sock_env) option" where
  "sock_fd_add sock_mgr new_fd e =
     (case sock_mgr of
        None \<Rightarrow> Some (Returned E_FAILURE, sock_mgr, e)
      | Some m \<Rightarrow>
          if fd_mutex_locked m then Some (Blocked, sock_mgr, e)
          else do {
            let m = m\<lparr>fd_mutex_locked := True\<rparr>;
            (exit_code, sock_mgr, e) \<leftarrow>
              (if fd_count m = fd_capacity m then sock_fd_increase_capacity (Some m) e
               else Some (E_SUCCESS, Some m, e));
            if exit_code \<noteq> E_SUCCESS then Some (Returned exit_code, sock_mgr, e)
            else do {
              m \<leftarrow> sock_mgr;
              m \<leftarrow> update_slot m (fd_count m) (\<lambda>x. x\<lparr>p_fd := Some new_fd, p_events := Some POLLIN\<rparr>);
              n \<leftarrow> c_int (fd_count m + 1);
              Some (Returned E_SUCCESS, Some (m\<lparr>fd_count := n, fd_mutex_locked := False\<rparr>), e) } })"

definition sock_fd_remove ::
  "socket_manager_t option \<Rightarrow> int \<Rightarrow> (int outcome \<times> socket_manager_t option) option" where
  "sock_fd_remove sock_mgr index =
     (case sock_mgr of
        None \<Rightarrow> Some (Returned E_FAILURE, sock_mgr)
      | Some m \<Rightarrow>
          if fd_mutex_locked m then Some (Blocked, sock_mgr)
          else if index < 0 \<or> index \<ge> fd_count m
          then Some (Returned E_FAILURE, Some (m\<lparr>fd_mutex_locked := True\<rparr>))
          else do {
            let m = m\<lparr>fd_count := fd_count m - 1\<rparr>;
            m \<leftarrow> (if index \<noteq> fd_count m
                  then do {
                    last \<leftarrow> slot m (fd_count m);
                    update_slot m index (\<lambda>x. x\<lparr>p_fd := p_fd last, p_events := p_events last,
                                               p_revents := p_revents last\<rparr>) }
                  else Some m);
            m \<leftarrow> update_slot m (fd_count m)
                  (\<lambda>x. x\<lparr>p_fd := Some (- 1), p_events := Some 0, p_revents := Some 0\<rparr>);
            Some (Returned E_SUCCESS, Some m) })"

fun close_loop :: "nat \<Rightarrow> int \<Rightarrow> socket_manager_t \<Rightarrow> sock_env \<Rightarrow> sock_env option" where
  "close_loop 0 idx m e = Some e"
| "close_loop (Suc k) idx m e =
     do {
       x \<leftarrow> slot m idx;
       f \<leftarrow> p_fd x;
       close_loop k (idx + 1) m (e\<lparr>sm_closed := sm_closed e @ [f]\<rparr>) }"

definition close_all_sockets ::
  "socket_manager_t option \<Rightarrow> sock_env \<Rightarrow> (int \<times> socket_manager_t option \<times> sock_env) option" where
  "close_all_sockets sock_mgr e =
     (case sock_mgr of
        None \<Rightarrow> Some (E_FAILURE, sock_mgr, e)
      | Some m \<Rightarrow> do {
          e \<leftarrow> close_loop (nat (fd_count m)) 0 m e;
          Some (E_SUCCESS, Some (m\<lparr>fd_arr := None\<rparr>), e) })"

section \<open>Representation\<close>

definition watched :: "int \<Rightarrow> pollfd \<Rightarrow> bool" where
  "watched f x \<longleftrightarrow> p_fd x = Some f \<and> p_events x = Some POLLIN"

definition mgr_rep :: "socket_manager_t \<Rightarrow> int list \<Rightarrow> bool" where
  "mgr_rep m fds \<longleftrightarrow>
     (\<exists>a. fd_arr m = Some a \<and> fd_count m = int (length fds) \<and> fd_capacity m = int (length a) \<and>
        length fds \<le> length a \<and> int (length a) \<le> INT32_MAX \<and>
        (\<forall>i < length fds. watched (fds ! i) (a ! i))) \<and>
     \<not> fd_mutex_locked m"

definition swap_remove :: "nat \<Rightarrow> 'a list \<Rightarrow> 'a list" where
  "swap_remove i xs = (if Suc i = length xs then butlast xs else (butlast xs)[i := last xs])"

lemma swap_remove_mset: "i < length xs \<Longrightarrow> mset (swap_remove i xs) = mset xs - {#xs ! i#}"
proof -
  assume i: "i < length xs"
  then obtain ys z where xs: "xs = ys @ [z]" by (cases xs rule: rev_cases) auto
  show ?thesis
  proof (cases "i < length ys")
    case True
    then have "ys ! i \<in># mset ys" by simp
    then show ?thesis using True xs by (auto simp: swap_remove_def mset_update nth_append)
  next
    case False
    then show ?thesis using i xs by (simp add: swap_remove_def nth_append)
  qed
qed

lemma length_swap_remove: "i < length xs \<Longrightarrow> length (swap_remove i xs) = length xs - 1"
  by (auto simp: swap_remove_def)

lemma mgr_repE:
  assumes "mgr_rep m fds"
  obtains a where "fd_arr m = Some a" and "fd_count m = int (length fds)" and "fd_capacity m = int (length a)"
    and "length fds \<le> length a" and "int (length a) \<le> INT32_MAX"
    and "\<And>i. i < length fds \<Longrightarrow> watched (fds ! i) (a ! i)" and "\<not> fd_mutex_locked m"
  using assms unfolding mgr_rep_def by blast

lemma update_slot_known:
  "fd_arr m = Some a \<Longrightarrow> i < length a \<Longrightarrow> update_slot m (int i) f = Some (m\<lparr>fd_arr := Some (a[i := f (a ! i)])\<rparr>)"
  by (simp add: update_slot_def)

lemma slot_known: "fd_arr m = Some a \<Longrightarrow> i < length a \<Longrightarrow> slot m (int i) = Some (a ! i)"
  by (simp add: slot_def)

lemma update_slot_0:
  "fd_arr m = Some a \<Longrightarrow> 0 < length a \<Longrightarrow> update_slot m 0 f = Some (m\<lparr>fd_arr := Some (a[0 := f (a ! 0)])\<rparr>)"
  using update_slot_known [of m a 0 f] by simp

lemma sock_mgr_init_rep:
  assumes "sm_plan e = []" and "max_fds m0 \<le> 1" and "0 < mx"
  shows "\<exists>m. sock_mgr_init (Some m0) server_fd mx DEFAULT_FD_CAPACITY e = Some (E_SUCCESS, Some m, e) \<and> mgr_rep m [server_fd]"
  using assms
  by (auto simp: sock_mgr_init_def sock_fd_arr_init_def update_slot_0 DEFAULT_FD_CAPACITY_def
      mgr_rep_def watched_def INT32_MAX_def)

lemma init_slots_overrun:
  "fd_arr m = Some a \<Longrightarrow> length a = 5 \<Longrightarrow> i \<le> 5 \<Longrightarrow> 5 < i + k \<Longrightarrow> init_slots k (int i) m = None"
proof (induction k arbitrary: i m a)
  case (Suc k)
  show ?case
  proof (cases "i < 5")
    case True
    then show ?thesis using Suc.prems Suc.IH [of _ _ "Suc i"] by (simp add: update_slot_known add.commute)
  next
    case False
    then show ?thesis using Suc.prems by (simp add: update_slot_def arr_get_def)
  qed
qed simp

text \<open>The fill loop runs to the \<open>max_fds\<close> that was in the struct before the call, over an array
  of \<open>DEFAULT_FD_CAPACITY\<close> entries.\<close>

lemma sock_mgr_init_overrun:
  assumes "sm_plan e = []" and "DEFAULT_FD_CAPACITY < max_fds m0" and "0 < mx"
  shows "sock_mgr_init (Some m0) server_fd mx cap e = None"
proof -
  have k: "5 < 1 + nat (max_fds m0 - 1)" using assms(2) by (simp add: DEFAULT_FD_CAPACITY_def)
  show ?thesis using assms(1,3) init_slots_overrun [of _ _ 1, OF _ _ _ k]
    by (simp add: sock_mgr_init_def sock_fd_arr_init_def update_slot_0 DEFAULT_FD_CAPACITY_def)
qed

section \<open>Adding and removing\<close>

lemma sock_fd_increase_rep:
  assumes rep: "mgr_rep m fds" and c: "0 < fd_capacity m" "fd_capacity m * 2 \<le> INT32_MAX" "\<not> alloc_fails (sm_plan e)"
  shows "\<exists>m'. sock_fd_increase_capacity (Some (m\<lparr>fd_mutex_locked := b\<rparr>)) e = Some (E_SUCCESS, Some (m'\<lparr>fd_mutex_locked := b\<rparr>), sm_alloc_next e) \<and>
    mgr_rep m' fds \<and> fd_capacity m' = 2 * fd_capacity m"
proof -
  obtain a where A: "fd_arr m = Some a" "fd_count m = int (length fds)" "fd_capacity m = int (length a)"
      "length fds \<le> length a" "int (length a) \<le> INT32_MAX" "\<And>i. i < length fds \<Longrightarrow> watched (fds ! i) (a ! i)" "\<not> fd_mutex_locked m"
    using rep by (rule mgr_repE) blast
  have "c_int (fd_capacity m * 2) = Some (fd_capacity m * 2)" using c by (intro c_int_fits) (auto simp: INT32_MIN_def)
  then have "sock_fd_increase_capacity (Some (m\<lparr>fd_mutex_locked := b\<rparr>)) e =
      Some (E_SUCCESS, Some ((m\<lparr>fd_arr := Some (a @ replicate (length a) fresh_pollfd), fd_capacity := 2 * fd_capacity m\<rparr>)\<lparr>fd_mutex_locked := b\<rparr>), sm_alloc_next e)"
    using A(1,3) c by (simp add: sock_fd_increase_capacity_def nat_mult_distrib)
  moreover have "mgr_rep (m\<lparr>fd_arr := Some (a @ replicate (length a) fresh_pollfd), fd_capacity := 2 * fd_capacity m\<rparr>) fds"
    using A c(2) by (simp add: mgr_rep_def nth_append)
  ultimately show ?thesis by auto
qed

definition sm_can_grow :: "socket_manager_t \<Rightarrow> sock_env \<Rightarrow> bool" where
  "sm_can_grow m e \<longleftrightarrow>
     fd_count m < fd_capacity m \<or>
     (0 < fd_capacity m \<and> fd_capacity m * 2 \<le> INT32_MAX \<and> \<not> alloc_fails (sm_plan e))"

lemma sock_fd_store:
  assumes rep: "mgr_rep m fds" and room: "fd_count m < fd_capacity m"
  shows "\<exists>m'. (do { w \<leftarrow> update_slot (m\<lparr>fd_mutex_locked := True\<rparr>) (fd_count m) (\<lambda>x. x\<lparr>p_fd := Some f, p_events := Some POLLIN\<rparr>);
        n \<leftarrow> c_int (fd_count w + 1);
        Some (Returned E_SUCCESS, Some (w\<lparr>fd_count := n, fd_mutex_locked := False\<rparr>), e) }) =
      Some (Returned E_SUCCESS, Some m', e) \<and> mgr_rep m' (fds @ [f]) \<and> fd_capacity m' = fd_capacity m"
proof -
  obtain a where A: "fd_arr m = Some a" "fd_count m = int (length fds)" "fd_capacity m = int (length a)"
      "length fds \<le> length a" "int (length a) \<le> INT32_MAX" "\<And>i. i < length fds \<Longrightarrow> watched (fds ! i) (a ! i)" "\<not> fd_mutex_locked m"
    using rep by (rule mgr_repE) blast
  let ?a = "a[length fds := (a ! length fds)\<lparr>p_fd := Some f, p_events := Some POLLIN\<rparr>]"
  have lt: "length fds < length a" using room A(2,3) by simp
  have u: "update_slot (m\<lparr>fd_mutex_locked := True\<rparr>) (int (length fds)) (\<lambda>x. x\<lparr>p_fd := Some f, p_events := Some POLLIN\<rparr>) =
      Some (m\<lparr>fd_mutex_locked := True, fd_arr := Some ?a\<rparr>)"
    using update_slot_known [of "m\<lparr>fd_mutex_locked := True\<rparr>" a "length fds"] A(1) lt by simp
  have c: "c_int (int (length fds) + 1) = Some (int (length fds) + 1)"
    using A(5) lt by (intro c_int_fits) (auto simp: INT32_MIN_def)
  have "mgr_rep (m\<lparr>fd_arr := Some ?a, fd_count := int (length fds) + 1, fd_mutex_locked := False\<rparr>) (fds @ [f])"
    using A lt by (auto simp: mgr_rep_def nth_append watched_def less_Suc_eq nth_list_update)
  then show ?thesis using u c A(2) by simp
qed

lemma sock_fd_add_rep:
  assumes rep: "mgr_rep m fds" and grow: "sm_can_grow m e"
  shows "\<exists>m'. sock_fd_add (Some m) f e =
      Some (Returned E_SUCCESS, Some m', if fd_count m = fd_capacity m then sm_alloc_next e else e) \<and>
    mgr_rep m' (fds @ [f]) \<and>
    fd_capacity m' = (if fd_count m = fd_capacity m then 2 * fd_capacity m else fd_capacity m)"
proof -
  have ul: "\<not> fd_mutex_locked m" using rep by (simp add: mgr_rep_def)
  show ?thesis
  proof (cases "fd_count m = fd_capacity m")
    case True
    then have c: "0 < fd_capacity m" "fd_capacity m * 2 \<le> INT32_MAX" "\<not> alloc_fails (sm_plan e)"
      using grow by (auto simp: sm_can_grow_def)
    obtain w where w: "sock_fd_increase_capacity (Some (m\<lparr>fd_mutex_locked := True\<rparr>)) e = Some (E_SUCCESS, Some (w\<lparr>fd_mutex_locked := True\<rparr>), sm_alloc_next e)"
        "mgr_rep w fds" "fd_capacity w = 2 * fd_capacity m"
      using sock_fd_increase_rep [OF rep c, of True] by blast
    have "fd_count w = fd_count m" using rep w(2) unfolding mgr_rep_def by auto
    then have "fd_count w < fd_capacity w" using w(3) True c(1) by simp
    from sock_fd_store [OF w(2) this, of f "sm_alloc_next e"] show ?thesis
      using w(1,3) True ul by (auto simp: sock_fd_add_def)
  next
    case False
    then have "fd_count m < fd_capacity m" using rep by (auto simp: mgr_rep_def)
    from sock_fd_store [OF rep this, of f e] show ?thesis using False ul by (auto simp: sock_fd_add_def)
  qed
qed

lemma sock_fd_remove_rep:
  assumes rep: "mgr_rep m fds" and i: "i < length fds"
  shows "\<exists>m'. sock_fd_remove (Some m) (int i) = Some (Returned E_SUCCESS, Some m') \<and>
    mgr_rep m' (swap_remove i fds) \<and> fd_capacity m' = fd_capacity m"
proof -
  obtain a where A: "fd_arr m = Some a" "fd_count m = int (length fds)" "fd_capacity m = int (length a)"
      "length fds \<le> length a" "int (length a) \<le> INT32_MAX" "\<And>i. i < length fds \<Longrightarrow> watched (fds ! i) (a ! i)" "\<not> fd_mutex_locked m"
    using rep by (rule mgr_repE) blast
  obtain gs z where fds: "fds = gs @ [z]" using i by (cases fds rule: rev_cases) auto
  let ?n = "length gs"
  let ?m = "m\<lparr>fd_count := int ?n\<rparr>"
  let ?clr = "\<lambda>x. x\<lparr>p_fd := Some (- 1), p_events := Some 0, p_revents := Some 0\<rparr>"
  have n: "?n < length a" "int (length fds) - 1 = int ?n" using A(4) fds by simp_all
  have W: "\<And>j. j < ?n \<Longrightarrow> watched (gs ! j) (a ! j)" "watched z (a ! ?n)"
    using A(6) fds by (metis length_append_singleton less_SucI nth_append, metis length_append_singleton lessI nth_append_length)
  show ?thesis
  proof (cases "i = ?n")
    case True
    have "sock_fd_remove (Some m) (int i) = Some (Returned E_SUCCESS, Some (?m\<lparr>fd_arr := Some (a[?n := ?clr (a ! ?n)])\<rparr>))"
      using A(1,2,7) n True fds by (simp add: sock_fd_remove_def update_slot_known)
    moreover have "mgr_rep (?m\<lparr>fd_arr := Some (a[?n := ?clr (a ! ?n)])\<rparr>) (swap_remove i fds)"
      using A W n True fds by (simp add: mgr_rep_def swap_remove_def)
    ultimately show ?thesis by auto
  next
    case False
    then have lt: "i < ?n" using i fds by simp
    let ?x = "(a ! i)\<lparr>p_fd := p_fd (a ! ?n), p_events := p_events (a ! ?n), p_revents := p_revents (a ! ?n)\<rparr>"
    let ?b = "a[i := ?x]"
    let ?c = "?b[?n := ?clr (?b ! ?n)]"
    have "sock_fd_remove (Some m) (int i) = Some (Returned E_SUCCESS, Some (?m\<lparr>fd_arr := Some ?c\<rparr>))"
      using A(1,2,7) n lt fds by (simp add: sock_fd_remove_def update_slot_known slot_known)
    moreover have "watched z ?x" using W(2) by (simp add: watched_def)
    then have "mgr_rep (?m\<lparr>fd_arr := Some ?c\<rparr>) (swap_remove i fds)"
      using A(3-5,7) W n lt fds by (auto simp: mgr_rep_def swap_remove_def nth_list_update)
    ultimately show ?thesis by auto
  qed
qed

text \<open>A removal with an invalid index leaves the mutex locked: every later call blocks.\<close>

lemma sock_fd_remove_invalid:
  assumes rep: "mgr_rep m fds" and i: "i < 0 \<or> int (length fds) \<le> i"
  shows "sock_fd_remove (Some m) i = Some (Returned E_FAILURE, Some (m\<lparr>fd_mutex_locked := True\<rparr>))"
  using rep i by (auto simp: sock_fd_remove_def mgr_rep_def)

lemma locked_blocks:
  "fd_mutex_locked m \<Longrightarrow> sock_fd_add (Some m) f e = Some (Blocked, Some m, e)"
  "fd_mutex_locked m \<Longrightarrow> sock_fd_remove (Some m) i = Some (Blocked, Some m)"
  by (simp_all add: sock_fd_add_def sock_fd_remove_def)

lemma sock_fd_add_no_memory:
  assumes rep: "mgr_rep m fds" and full: "fd_count m = fd_capacity m" "0 < fd_capacity m" "fd_capacity m * 2 \<le> INT32_MAX"
    and al: "alloc_fails (sm_plan e)"
  shows "sock_fd_add (Some m) f e = Some (Returned E_FAILURE, Some (m\<lparr>fd_mutex_locked := True\<rparr>), sm_alloc_next e)"
proof -
  have "c_int (fd_capacity m * 2) = Some (fd_capacity m * 2)" using full by (intro c_int_fits) (auto simp: INT32_MIN_def)
  then show ?thesis using full al rep by (simp add: sock_fd_add_def sock_fd_increase_capacity_def mgr_rep_def)
qed

lemma close_loop_rep:
  assumes "mgr_rep m (xs @ ys)"
  shows "close_loop (length ys) (int (length xs)) m e = Some (e\<lparr>sm_closed := sm_closed e @ ys\<rparr>)"
  using assms
proof (induction ys arbitrary: xs e)
  case (Cons y ys)
  obtain a where A: "fd_arr m = Some a" "length (xs @ y # ys) \<le> length a"
      "\<And>i. i < length (xs @ y # ys) \<Longrightarrow> watched ((xs @ y # ys) ! i) (a ! i)"
    using Cons.prems by (rule mgr_repE) blast
  have "slot m (int (length xs)) = Some (a ! length xs)" using A(1,2) by (intro slot_known) auto
  moreover have "p_fd (a ! length xs) = Some y" using A(3) [of "length xs"] by (simp add: watched_def)
  ultimately show ?case using Cons.IH [of "xs @ [y]"] Cons.prems by (simp add: add.commute)
qed simp

lemma close_all_sockets_rep:
  assumes "mgr_rep m fds"
  shows "close_all_sockets (Some m) e = Some (E_SUCCESS, Some (m\<lparr>fd_arr := None\<rparr>), e\<lparr>sm_closed := sm_closed e @ fds\<rparr>)"
  using close_loop_rep [of m "[]" fds e] assms by (auto simp: close_all_sockets_def mgr_rep_def)

section \<open>The set of watched descriptors\<close>

datatype sock_op = Add_fd int | Remove_fd nat

fun sock_spec :: "sock_op \<Rightarrow> int list \<Rightarrow> int \<times> int list" where
  "sock_spec (Add_fd f) fds = (E_SUCCESS, fds @ [f])"
| "sock_spec (Remove_fd i) fds = (E_SUCCESS, swap_remove i fds)"

fun sock_ok :: "sock_op \<Rightarrow> int list \<Rightarrow> bool" where
  "sock_ok (Add_fd f) fds = (length fds < 2 ^ 29)"
| "sock_ok (Remove_fd i) fds = (i < length fds)"

fun sock_step :: "sock_op \<Rightarrow> socket_manager_t \<times> sock_env \<Rightarrow> (int \<times> socket_manager_t \<times> sock_env) option" where
  "sock_step (Add_fd f) (m, e) =
     do { (r, m', e') \<leftarrow> sock_fd_add (Some m) f e; m' \<leftarrow> m';
          (case r of Returned c \<Rightarrow> Some (c, m', e') | Blocked \<Rightarrow> None) }"
| "sock_step (Remove_fd i) (m, e) =
     do { (r, m') \<leftarrow> sock_fd_remove (Some m) (int i); m' \<leftarrow> m';
          (case r of Returned c \<Rightarrow> Some (c, m', e) | Blocked \<Rightarrow> None) }"

definition sock_abs :: "socket_manager_t \<times> sock_env \<Rightarrow> int list \<Rightarrow> bool" where
  "sock_abs c fds \<longleftrightarrow> mgr_rep (fst c) fds \<and> 0 < fd_capacity (fst c) \<and> sm_plan (snd c) = []"

lemma sock_step_refines:
  assumes "sock_abs c fds" and "sock_ok o1 fds"
  shows "\<exists>c'. sock_step o1 c = Some (fst (sock_spec o1 fds), c') \<and> sock_abs c' (snd (sock_spec o1 fds))"
proof -
  obtain m e where c: "c = (m, e)" "mgr_rep m fds" "0 < fd_capacity m" "sm_plan e = []"
    using assms(1) by (cases c) (auto simp: sock_abs_def)
  show ?thesis
  proof (cases o1)
    case (Add_fd f)
    then have "sm_can_grow m e" using assms(2) c(2-4) by (auto simp: sm_can_grow_def mgr_rep_def INT32_MAX_def)
    from sock_fd_add_rep [OF c(2) this, of f] show ?thesis using Add_fd c by (fastforce simp: sock_abs_def)
  next
    case (Remove_fd i)
    then show ?thesis using assms(2) c sock_fd_remove_rep [OF c(2), of i] by (fastforce simp: sock_abs_def)
  qed
qed

interpretation sockets: refinement sock_step sock_spec sock_ok sock_abs
  by unfold_locales (rule sock_step_refines)

end
