(* ===== verification/Socket_IO.thy ===== *)
theory Socket_IO
  imports Prelude
begin

text \<open>
  Networking/common/src/socket_io.c: creating a socket, sending and receiving whole buffers over a
  stream socket in chunks.  The kernel's \<open>send\<close> and \<open>recv\<close> are parameters: functions of a
  kernel state.  What the code relies on (a call transfers at most what it was asked for, in order)
  is a named hypothesis about them.  \<open>size_t\<close> is a 64-bit word; reading or writing outside
  the caller's buffer is undefined behaviour.
\<close>

section \<open>Types and constants\<close>

type_synonym byte = "8 word"

text \<open>\<open>send k fd bytes\<close> and \<open>recv k fd n\<close> give the \<open>ssize_t\<close> result; \<open>recv\<close>
  also the bytes it stored.\<close>

type_synonym 'k send_fn = "'k \<Rightarrow> int \<Rightarrow> byte list \<Rightarrow> int \<times> 'k"
type_synonym 'k recv_fn = "'k \<Rightarrow> int \<Rightarrow> nat \<Rightarrow> int \<times> byte list \<times> 'k"

definition MIN_SOCKET :: int where "MIN_SOCKET = 3"
definition MAX_BYTES :: "64 word" where "MAX_BYTES = 1400"

definition POINTER_SIZE :: nat where "POINTER_SIZE = 8"

section \<open>Operations\<close>

definition calculate_chunk :: "64 word \<Rightarrow> 64 word \<Rightarrow> 64 word" where
  "calculate_chunk bytes_to_process bytes_processed =
     (let bytes_remaining = bytes_to_process - bytes_processed
      in if MAX_BYTES < bytes_remaining then MAX_BYTES else bytes_remaining)"

text \<open>\<open>create_socket\<close>: the results of \<open>socket\<close> and \<open>setsockopt\<close> are arguments;
  the result is the exit code, the content of \<open>*fd_ptr\<close> and the descriptors closed.\<close>

definition create_socket :: "bool \<Rightarrow> int \<Rightarrow> int \<Rightarrow> int \<Rightarrow> int \<times> int \<times> int list" where
  "create_socket addr_given socket_result setsockopt_result old_fd =
     (if \<not> addr_given then (E_FAILURE, old_fd, [])
      else if socket_result = - 1 then (E_FAILURE, old_fd, [])
      else if setsockopt_result \<noteq> E_SUCCESS then (setsockopt_result, old_fd, [socket_result])
      else (E_SUCCESS, socket_result, []))"

text \<open>\<open>send_data\<close> and \<open>recv_data\<close> transfer \<open>sizeof(buffer_p)\<close> bytes, the size of a
  pointer.  \<open>fprintf_result\<close> is what \<open>fprintf\<close> returns for the hung-up message.\<close>

definition send_data :: "'k send_fn \<Rightarrow> int \<Rightarrow> int \<Rightarrow> byte list option \<Rightarrow> 'k \<Rightarrow> (int \<times> 'k) option" where
  "send_data send fprintf_result socket buffer_p k =
     (case buffer_p of
        None \<Rightarrow> Some (E_FAILURE, k)
      | Some buf \<Rightarrow>
          if MIN_SOCKET > socket then Some (E_FAILURE, k)
          else if length buf < POINTER_SIZE then None
          else let (byte_result, k) = send k socket (take POINTER_SIZE buf)
               in Some (if byte_result = E_FAILURE then (E_FAILURE, k)
                        else if byte_result = 0 then (fprintf_result, k)
                        else (E_SUCCESS, k)))"

definition recv_data ::
  "'k recv_fn \<Rightarrow> int \<Rightarrow> int \<Rightarrow> byte list option \<Rightarrow> 'k \<Rightarrow> (int \<times> byte list option \<times> 'k) option" where
  "recv_data recv fprintf_result socket buffer_p k =
     (case buffer_p of
        None \<Rightarrow> Some (E_FAILURE, buffer_p, k)
      | Some buf \<Rightarrow>
          if MIN_SOCKET > socket then Some (E_FAILURE, buffer_p, k)
          else if length buf < POINTER_SIZE then None
          else let (byte_result, bytes, k) = recv k socket POINTER_SIZE;
                   buffer_p = Some (bytes @ drop (length bytes) buf)
               in Some (if byte_result = E_FAILURE then (E_FAILURE, buffer_p, k)
                        else if byte_result = 0 then (fprintf_result, buffer_p, k)
                        else (E_SUCCESS, buffer_p, k)))"

partial_function (option) send_loop ::
  "'k send_fn \<Rightarrow> int \<Rightarrow> byte list \<Rightarrow> 64 word \<Rightarrow> 64 word \<Rightarrow> 'k \<Rightarrow> (int \<times> 'k) option" where
  "send_loop send socket buf bytes_to_send total_bytes_sent k =
     (if total_bytes_sent < bytes_to_send
      then let chunk = calculate_chunk bytes_to_send total_bytes_sent
           in if length buf < unat total_bytes_sent + unat chunk then None
              else let (byte_result, k) = send k socket (take (unat chunk) (drop (unat total_bytes_sent) buf))
                   in if byte_result = E_FAILURE then Some (E_FAILURE, k)
                      else if byte_result = 0 then Some (E_FAILURE, k)
                      else send_loop send socket buf bytes_to_send (total_bytes_sent + of_int byte_result) k
      else Some (E_SUCCESS, k))"

definition send_all_data :: "'k send_fn \<Rightarrow> int \<Rightarrow> byte list option \<Rightarrow> 64 word \<Rightarrow> 'k \<Rightarrow> (int \<times> 'k) option" where
  "send_all_data send socket buffer_p bytes_to_send k =
     (case buffer_p of
        None \<Rightarrow> Some (E_FAILURE, k)
      | Some buf \<Rightarrow>
          if bytes_to_send = 0 then Some (E_FAILURE, k)
          else if MIN_SOCKET > socket then Some (E_FAILURE, k)
          else send_loop send socket buf bytes_to_send 0 k)"

text \<open>Storing received bytes at an offset of the buffer.\<close>

definition store :: "byte list \<Rightarrow> nat \<Rightarrow> byte list \<Rightarrow> byte list" where
  "store buf pos bytes = take pos buf @ bytes @ drop (pos + length bytes) buf"

partial_function (option) recv_loop ::
  "'k recv_fn \<Rightarrow> int \<Rightarrow> byte list \<Rightarrow> 64 word \<Rightarrow> 64 word \<Rightarrow> 'k \<Rightarrow> (int \<times> byte list \<times> 'k) option" where
  "recv_loop recv socket buf bytes_to_recv total_bytes_received k =
     (if total_bytes_received < bytes_to_recv
      then let chunk = calculate_chunk bytes_to_recv total_bytes_received
           in if length buf < unat total_bytes_received + unat chunk then None
              else let (byte_result, bytes, k) = recv k socket (unat chunk);
                       buf = store buf (unat total_bytes_received) bytes
                   in if byte_result = E_FAILURE then Some (E_FAILURE, buf, k)
                      else if byte_result = 0 then Some (E_CONNECTION_CLOSED, buf, k)
                      else recv_loop recv socket buf bytes_to_recv (total_bytes_received + of_int byte_result) k
      else Some (E_SUCCESS, buf, k))"

definition recv_all_data ::
  "'k recv_fn \<Rightarrow> int \<Rightarrow> byte list option \<Rightarrow> 64 word \<Rightarrow> 'k \<Rightarrow> (int \<times> byte list option \<times> 'k) option" where
  "recv_all_data recv socket buffer_p bytes_to_recv k =
     (case buffer_p of
        None \<Rightarrow> Some (E_FAILURE, buffer_p, k)
      | Some buf \<Rightarrow>
          if bytes_to_recv = 0 then Some (E_FAILURE, buffer_p, k)
          else if MIN_SOCKET > socket then Some (E_FAILURE, buffer_p, k)
          else do {
            (exit_code, buf, k) \<leftarrow> recv_loop recv socket buf bytes_to_recv 0 k;
            Some (exit_code, Some buf, k) })"

text \<open>\<open>fcntl\<close> is a parameter: the result of \<open>F_GETFL\<close>, and of \<open>F_SETFL\<close> as a
  function of the flags set.\<close>

definition O_NONBLOCK :: "32 word" where "O_NONBLOCK = 2048"

definition set_fd_non_blocking :: "32 word option \<Rightarrow> (32 word \<Rightarrow> bool) \<Rightarrow> int" where
  "set_fd_non_blocking getfl setfl_ok =
     (case getfl of
        None \<Rightarrow> E_FAILURE
      | Some flags \<Rightarrow> if \<not> setfl_ok (Bit_Operations.or flags O_NONBLOCK) then E_FAILURE else E_SUCCESS)"

section \<open>What the kernel promises\<close>

text \<open>A \<open>send\<close> takes a prefix of the bytes offered to it, or fails and takes none; \<open>sent k\<close>
  are the bytes the connection has taken so far.\<close>

definition send_contract :: "'k send_fn \<Rightarrow> ('k \<Rightarrow> byte list) \<Rightarrow> bool" where
  "send_contract send sent \<longleftrightarrow>
     (\<forall>k fd bs r k'. send k fd bs = (r, k') \<longrightarrow>
        (r = - 1 \<and> sent k' = sent k) \<or>
        (0 \<le> r \<and> nat r \<le> length bs \<and> sent k' = sent k @ take (nat r) bs))"

text \<open>A \<open>recv\<close> stores the next bytes of the incoming stream, at most as many as asked for.\<close>

definition recv_contract :: "'k recv_fn \<Rightarrow> ('k \<Rightarrow> byte list) \<Rightarrow> bool" where
  "recv_contract recv incoming \<longleftrightarrow>
     (\<forall>k fd n r bs k'. recv k fd n = (r, bs, k') \<longrightarrow>
        (r = - 1 \<and> bs = [] \<and> incoming k' = incoming k) \<or>
        (r = int (length bs) \<and> length bs \<le> n \<and> incoming k = bs @ incoming k'))"

section \<open>Chunks\<close>

lemma calculate_chunk_unat:
  "pos \<le> n \<Longrightarrow> unat (calculate_chunk n pos) = min 1400 (unat n - unat pos)"
  by (auto simp: calculate_chunk_def MAX_BYTES_def Let_def word_less_nat_alt unat_sub min_def)

lemma unat_advance:
  assumes "pos \<le> (n :: 64 word)" and "0 \<le> r" and "nat r \<le> unat n - unat pos"
  shows "unat (pos + of_int r) = unat pos + nat r" and "pos + of_int r \<le> n"
proof -
  have "of_int r = (of_nat (nat r) :: 64 word)" using assms(2) by simp
  moreover have "unat pos \<le> unat n" using assms(1) by (simp add: word_le_nat_alt)
  moreover have "unat n < 2 ^ 64" using unsigned_less [of n, where ?'a = nat] by simp
  moreover from calculation assms(3) have "unat pos + nat r < 2 ^ 64" "unat (of_nat (nat r) :: 64 word) = nat r"
    by (simp_all add: unat_of_nat)
  ultimately show a: "unat (pos + of_int r) = unat pos + nat r"
    using unat_add_lem [of pos "of_nat (nat r)"] by simp
  show "pos + of_int r \<le> n" using a assms(3) \<open>unat pos \<le> unat n\<close> by (simp add: word_le_nat_alt)
qed

section \<open>Sending\<close>

text \<open>The loop ends after at most as many calls as there are bytes, because every call it goes on
  after has made progress.\<close>

lemma send_loop_result:
  assumes "send_contract send sent" and "pos \<le> n" and "unat n \<le> length buf"
  shows "\<exists>rc k' m. send_loop send fd buf n pos k = Some (rc, k') \<and> sent k' = sent k @ take m (drop (unat pos) buf) \<and>
    m \<le> unat n - unat pos \<and> (rc = E_SUCCESS \<and> m = unat n - unat pos \<or> rc = E_FAILURE)"
  using assms(2)
proof (induction "unat n - unat pos" arbitrary: pos k rule: less_induct)
  case less
  show ?case
  proof (cases "pos < n")
    case False
    then have "pos = n" using less.prems by simp
    then show ?thesis by (subst send_loop.simps) (auto intro!: exI [of _ 0])
  next
    case True
    let ?c = "unat (calculate_chunk n pos)"
    let ?bs = "take ?c (drop (unat pos) buf)"
    have c: "?c \<le> unat n - unat pos" using less.prems by (simp add: calculate_chunk_unat)
    have fits: "\<not> length buf < unat pos + ?c"
      using c assms(3) less.prems by (simp add: word_le_nat_alt not_less)
    obtain r k1 where r: "send k fd ?bs = (r, k1)" by (cases "send k fd ?bs")
    have step: "send_loop send fd buf n pos k =
        (if r = - 1 \<or> r = 0 then Some (E_FAILURE, k1) else send_loop send fd buf n (pos + of_int r) k1)"
      using True fits r by (subst send_loop.simps) (simp add: Let_def E_FAILURE_def)
    have K: "(r = - 1 \<and> sent k1 = sent k) \<or> (0 \<le> r \<and> nat r \<le> length ?bs \<and> sent k1 = sent k @ take (nat r) ?bs)"
      using assms(1) r unfolding send_contract_def by blast
    show ?thesis
    proof (cases "r = - 1 \<or> r = 0")
      case True
      then have "sent k1 = sent k" using K by auto
      then show ?thesis using step True by (auto intro!: exI [of _ 0])
    next
      case False
      then have r0: "0 < r" "nat r \<le> length ?bs" "sent k1 = sent k @ take (nat r) ?bs" using K by auto
      have rn: "nat r \<le> unat n - unat pos" using r0(2) c by simp
      have "0 \<le> r" using r0(1) by simp
      note adv = unat_advance [OF less.prems this rn]
      have lt: "unat n - unat (pos + of_int r) < unat n - unat pos" using adv(1) r0(1) rn by simp
      obtain rc k' m where ih: "send_loop send fd buf n (pos + of_int r) k1 = Some (rc, k')"
          "sent k' = sent k1 @ take m (drop (unat (pos + of_int r)) buf)" "m \<le> unat n - unat (pos + of_int r)"
          "rc = E_SUCCESS \<and> m = unat n - unat (pos + of_int r) \<or> rc = E_FAILURE"
        using less.hyps [OF lt adv(2), of k1] by blast
      have "take (nat r) ?bs = take (nat r) (drop (unat pos) buf)" using r0(2) by (simp add: min.absorb1)
      then have "take (nat r) ?bs @ take m (drop (unat pos + nat r) buf) = take (nat r + m) (drop (unat pos) buf)"
        by (simp add: take_add [of "nat r" m] add.commute [of "unat pos"])
      then have "sent k' = sent k @ take (nat r + m) (drop (unat pos) buf)" using ih(2) r0(3) adv(1) by simp
      then show ?thesis using step False ih adv(1) rn
        by (intro exI [of _ rc] exI [of _ k'] exI [of _ "nat r + m"]) auto
    qed
  qed
qed

lemma send_all_data_result:
  assumes "send_contract send sent" and "n \<noteq> 0" and "unat n \<le> length buf" and "MIN_SOCKET \<le> fd"
  shows "\<exists>rc k' m. send_all_data send fd (Some buf) n k = Some (rc, k') \<and> sent k' = sent k @ take m buf \<and>
    m \<le> unat n \<and> (rc = E_SUCCESS \<and> m = unat n \<or> rc = E_FAILURE)"
  using send_loop_result [OF assms(1) word_zero_le assms(3), of fd k] assms(2,4)
  by (simp add: send_all_data_def)

section \<open>Receiving\<close>

lemma store_take: "pos \<le> length buf \<Longrightarrow> take pos (store buf pos bs) = take pos buf"
  by (simp add: store_def)

lemma length_store: "pos + length bs \<le> length buf \<Longrightarrow> length (store buf pos bs) = length buf"
  by (simp add: store_def)

lemma store_store:
  "pos + length as + length bs \<le> length buf \<Longrightarrow>
   store (store buf pos as) (pos + length as) bs = store buf pos (as @ bs)"
  by (simp add: store_def ac_simps)

lemma recv_loop_result:
  assumes "recv_contract recv incoming" and "pos \<le> n" and "unat n \<le> length buf"
  shows "\<exists>rc k' bs. recv_loop recv fd buf n pos k = Some (rc, store buf (unat pos) bs, k') \<and>
    incoming k = bs @ incoming k' \<and> length bs \<le> unat n - unat pos \<and>
    (rc = E_SUCCESS \<and> length bs = unat n - unat pos \<or> rc \<in> {E_FAILURE, E_CONNECTION_CLOSED})"
  using assms(2,3)
proof (induction "unat n - unat pos" arbitrary: pos k buf rule: less_induct)
  case less
  have pn: "unat pos \<le> unat n" using less.prems(1) by (simp add: word_le_nat_alt)
  show ?case
  proof (cases "pos < n")
    case False
    then have "pos = n" using less.prems by simp
    then show ?thesis by (subst recv_loop.simps) (auto intro!: exI [of _ "[]"] simp: store_def)
  next
    case True
    let ?c = "unat (calculate_chunk n pos)"
    have c: "?c \<le> unat n - unat pos" using less.prems by (simp add: calculate_chunk_unat)
    have fits: "\<not> length buf < unat pos + ?c" using c pn less.prems(2) by simp
    obtain r as k1 where r: "recv k fd ?c = (r, as, k1)" by (cases "recv k fd ?c")
    have step: "recv_loop recv fd buf n pos k =
        (if r = - 1 then Some (E_FAILURE, store buf (unat pos) as, k1)
         else if r = 0 then Some (E_CONNECTION_CLOSED, store buf (unat pos) as, k1)
         else recv_loop recv fd (store buf (unat pos) as) n (pos + of_int r) k1)"
      using True fits r by (subst recv_loop.simps) (simp add: Let_def E_FAILURE_def)
    have K: "(r = - 1 \<and> as = [] \<and> incoming k1 = incoming k) \<or>
        (r = int (length as) \<and> length as \<le> ?c \<and> incoming k = as @ incoming k1)"
      using assms(1) r unfolding recv_contract_def by blast
    show ?thesis
    proof (cases "r = - 1 \<or> r = 0")
      case True
      then have "as = []" "incoming k1 = incoming k" using K by auto
      then show ?thesis using step True by (auto intro!: exI [of _ "[]"])
    next
      case False
      then have r0: "r = int (length as)" "length as \<le> ?c" "incoming k = as @ incoming k1" "0 < length as" using K by auto
      have rn: "nat r \<le> unat n - unat pos" using r0(1,2) c by simp
      have "0 \<le> r" using r0(1) by simp
      note adv = unat_advance [OF less.prems(1) this rn]
      have lt: "unat n - unat (pos + of_int r) < unat n - unat pos" using adv(1) r0(1,4) rn by (simp; linarith)
      have fit: "unat pos + length as \<le> length buf" using r0(1) rn pn less.prems(2) by simp
      then have len: "unat n \<le> length (store buf (unat pos) as)" using less.prems(2) by (simp add: length_store)
      obtain rc k' bs where ih: "recv_loop recv fd (store buf (unat pos) as) n (pos + of_int r) k1 =
            Some (rc, store (store buf (unat pos) as) (unat (pos + of_int r)) bs, k')"
          "incoming k1 = bs @ incoming k'" "length bs \<le> unat n - unat (pos + of_int r)"
          "rc = E_SUCCESS \<and> length bs = unat n - unat (pos + of_int r) \<or> rc \<in> {E_FAILURE, E_CONNECTION_CLOSED}"
        using less.hyps [OF lt adv(2) len, of k1] by blast
      have u: "unat (pos + of_int r) = unat pos + length as" using adv(1) r0(1) by simp
      have "store (store buf (unat pos) as) (unat pos + length as) bs = store buf (unat pos) (as @ bs)"
        using ih(3) u rn pn r0(1) less.prems(2) by (intro store_store) simp
      then show ?thesis using step False ih u r0(1,3) rn
        by (intro exI [of _ rc] exI [of _ k'] exI [of _ "as @ bs"]) auto
    qed
  qed
qed

lemma recv_all_data_result:
  assumes "recv_contract recv incoming" and "n \<noteq> 0" and "unat n \<le> length buf" and "MIN_SOCKET \<le> fd"
  shows "\<exists>rc k' bs. recv_all_data recv fd (Some buf) n k = Some (rc, Some (bs @ drop (length bs) buf), k') \<and>
    incoming k = bs @ incoming k' \<and> length bs \<le> unat n \<and>
    (rc = E_SUCCESS \<and> length bs = unat n \<or> rc \<in> {E_FAILURE, E_CONNECTION_CLOSED})"
  using recv_loop_result [OF assms(1) word_zero_le assms(3), of fd k] assms(2,4)
  by (auto simp: recv_all_data_def store_def)

end
