(* ===== verification/Number_Converter.thy ===== *)
theory Number_Converter
  imports C_Strings
begin

text \<open>
  Math/src/number_converter.c: decimal strings to 32-bit and 16-bit integers and back, over a model
  of \<open>strtol\<close>, \<open>strtoul\<close> and \<open>printf("%u")\<close> for base 10 with a 64-bit
  \<open>long\<close>.  Pointer arguments that may be NULL are options; an output parameter is the
  option of its current content, and the result holds its content after the call.
\<close>

section \<open>The C library's conversions\<close>

definition c_isspace :: "char \<Rightarrow> bool" where
  "c_isspace c \<longleftrightarrow> c \<in> {CHR '' '', CHR 0x09, CHR 0x0A, CHR 0x0B, CHR 0x0C, CHR 0x0D}"

definition c_isdigit :: "char \<Rightarrow> bool" where
  "c_isdigit c \<longleftrightarrow> 48 \<le> (of_char c :: nat) \<and> (of_char c :: nat) \<le> 57"

definition digit_char :: "nat \<Rightarrow> char" where
  "digit_char d = char_of (48 + d)"

definition digits_value :: "string \<Rightarrow> nat" where
  "digits_value ds = foldl (\<lambda>acc c. acc * 10 + (of_char c - 48)) 0 ds"

fun sign_split :: "string \<Rightarrow> string \<times> string" where
  "sign_split [] = ([], [])"
| "sign_split (c # s) = (if c = CHR ''-'' \<or> c = CHR ''+'' then ([c], s) else ([], c # s))"

text \<open>White space, an optional sign, the digits; what is left starts at \<open>endptr\<close>.\<close>

definition scan_integer :: "string \<Rightarrow> bool \<times> string \<times> string" where
  "scan_integer s =
     (let (sg, t) = sign_split (dropWhile c_isspace s)
      in (sg = ''-'', takeWhile c_isdigit t, dropWhile c_isdigit t))"

datatype errno_t = NO_ERROR | ERANGE

definition LONG_MAX :: int where "LONG_MAX = 2 ^ 63 - 1"
definition LONG_MIN :: int where "LONG_MIN = - (2 ^ 63)"
definition ULONG_MAX :: nat where "ULONG_MAX = 2 ^ 64 - 1"
definition UINT32_MAX :: nat where "UINT32_MAX = 2 ^ 32 - 1"
definition UINT16_MAX :: nat where "UINT16_MAX = 2 ^ 16 - 1"

lemmas limits = LONG_MAX_def LONG_MIN_def ULONG_MAX_def INT32_MAX_def INT32_MIN_def
  UINT32_MAX_def UINT16_MAX_def

text \<open>Both return the value, the offset of \<open>endptr\<close> in the input, and \<open>errno\<close>.\<close>

definition strtol :: "string \<Rightarrow> int \<times> nat \<times> errno_t" where
  "strtol s =
     (let (neg, ds, rest) = scan_integer s;
          v = (if neg then - int (digits_value ds) else int (digits_value ds))
      in if ds = [] then (0, 0, NO_ERROR)
         else if v > LONG_MAX then (LONG_MAX, length s - length rest, ERANGE)
         else if v < LONG_MIN then (LONG_MIN, length s - length rest, ERANGE)
         else (v, length s - length rest, NO_ERROR))"

definition strtoul :: "string \<Rightarrow> nat \<times> nat \<times> errno_t" where
  "strtoul s =
     (let (neg, ds, rest) = scan_integer s;
          m = digits_value ds
      in if ds = [] then (0, 0, NO_ERROR)
         else if m > ULONG_MAX then (ULONG_MAX, length s - length rest, ERANGE)
         else (if neg then (2 ^ 64 - m) mod 2 ^ 64 else m, length s - length rest, NO_ERROR))"

text \<open>The character at an offset of a C string, which is NUL at its end.\<close>

definition char_at :: "string \<Rightarrow> nat \<Rightarrow> char" where
  "char_at s k = (if k < length s then s ! k else CHR 0x00)"

fun show_nat :: "nat \<Rightarrow> string" where
  "show_nat n = (if n < 10 then [digit_char n] else show_nat (n div 10) @ [digit_char (n mod 10)])"

declare show_nat.simps [simp del]

section \<open>The converters\<close>

definition str_to_int32 :: "string option \<Rightarrow> int option \<Rightarrow> int \<times> int option" where
  "str_to_int32 input_p output_p =
     (case (input_p, output_p) of
        (Some input, Some old) \<Rightarrow>
          (let (result, endptr, errno) = strtol input
           in if errno \<noteq> NO_ERROR \<and> result = 0 then (E_FAILURE, Some old)
              else if errno = ERANGE \<and> result = LONG_MAX then (E_FAILURE, Some old)
              else if INT32_MAX < result then (E_FAILURE, Some old)
              else if INT32_MIN > result then (E_FAILURE, Some old)
              else if endptr = 0 then (E_FAILURE, Some old)
              else if char_at input endptr \<noteq> CHR 0x00 then (E_FAILURE, Some old)
              else (E_SUCCESS, Some result))
      | _ \<Rightarrow> (E_FAILURE, output_p))"

definition str_to_uint32 :: "string option \<Rightarrow> 32 word option \<Rightarrow> int \<times> 32 word option" where
  "str_to_uint32 input_p output_p =
     (case (input_p, output_p) of
        (Some input, Some old) \<Rightarrow>
          (let (result, endptr, errno) = strtoul input
           in if errno \<noteq> NO_ERROR \<and> result = 0 then (E_FAILURE, Some old)
              else if errno = ERANGE \<and> result = ULONG_MAX then (E_FAILURE, Some old)
              else if UINT32_MAX < result then (E_FAILURE, Some old)
              else if endptr = 0 then (E_FAILURE, Some old)
              else if char_at input endptr \<noteq> CHR 0x00 then (E_FAILURE, Some old)
              else (E_SUCCESS, Some (of_nat result)))
      | _ \<Rightarrow> (E_FAILURE, output_p))"

definition str_to_uint16 :: "string option \<Rightarrow> 16 word option \<Rightarrow> int \<times> 16 word option" where
  "str_to_uint16 input_p output_p =
     (case (input_p, output_p) of
        (Some input, Some old) \<Rightarrow>
          (let (result, endptr, errno) = strtoul input
           in if errno \<noteq> NO_ERROR \<and> result = 0 then (E_FAILURE, Some old)
              else if errno = ERANGE \<and> result = ULONG_MAX then (E_FAILURE, Some old)
              else if UINT16_MAX < result then (E_FAILURE, Some old)
              else if endptr = 0 then (E_FAILURE, Some old)
              else if char_at input endptr \<noteq> CHR 0x00 then (E_FAILURE, Some old)
              else (E_SUCCESS, Some (of_nat result)))
      | _ \<Rightarrow> (E_FAILURE, output_p))"

definition UINT32_LEN :: nat where "UINT32_LEN = 11"

text \<open>
  \<open>output_p\<close> is the content of the caller's \<open>char *\<close> (\<open>None\<close> inside is NULL).
  The outcomes of \<open>calloc\<close> and \<open>snprintf\<close> are arguments.
\<close>

definition uint32_to_str ::
  "bool \<Rightarrow> bool \<Rightarrow> 32 word \<Rightarrow> string option option \<Rightarrow> int \<times> string option option" where
  "uint32_to_str calloc_ok snprintf_ok input output_p =
     (case output_p of
        None \<Rightarrow> (E_FAILURE, None)
      | Some _ \<Rightarrow>
          if \<not> calloc_ok then (E_FAILURE, Some None)
          else if \<not> snprintf_ok then (E_FAILURE, Some None)
          else (E_SUCCESS, Some (Some (fst (snprintf_s UINT32_LEN (show_nat (unat input)))))))"

section \<open>The grammar of the accepted strings\<close>

definition denotes :: "string \<Rightarrow> bool \<Rightarrow> nat \<Rightarrow> bool" where
  "denotes s neg m \<longleftrightarrow>
     (\<exists>ws sg ds. s = ws @ sg @ ds \<and> (\<forall>c \<in> set ws. c_isspace c) \<and> sg \<in> {'''', ''+'', ''-''} \<and>
        neg = (sg = ''-'') \<and> ds \<noteq> [] \<and> (\<forall>c \<in> set ds. c_isdigit c) \<and> m = digits_value ds)"

lemma digit_not_space: "c_isdigit c \<Longrightarrow> \<not> c_isspace c \<and> c \<noteq> CHR ''-'' \<and> c \<noteq> CHR ''+'' \<and> c \<noteq> CHR 0x00"
  by (auto simp: c_isdigit_def c_isspace_def)

lemma sign_not_space: "\<not> c_isspace CHR ''-''" "\<not> c_isspace CHR ''+''"
  by (simp_all add: c_isspace_def)

lemma scan_of_parts:
  assumes "\<forall>c \<in> set ws. c_isspace c" and "sg \<in> {'''', ''+'', ''-''}" and "ds \<noteq> []" and "\<forall>c \<in> set ds. c_isdigit c"
  shows "scan_integer (ws @ sg @ ds) = (sg = ''-'', ds, [])"
proof -
  have sp: "dropWhile c_isspace (ws @ sg @ ds) = sg @ ds"
    using assms by (cases ds) (auto simp: dropWhile_append digit_not_space sign_not_space)
  have "sign_split (sg @ ds) = (sg, ds)"
    using assms(2-4) by (cases ds) (auto simp: digit_not_space)
  with sp show ?thesis using assms(4)
    by (auto simp: scan_integer_def takeWhile_eq_all_conv dropWhile_eq_Nil_conv)
qed

lemma scan_parts:
  assumes "scan_integer s = (neg, ds, rest)"
  shows "\<exists>ws sg. s = ws @ sg @ ds @ rest \<and> (\<forall>c \<in> set ws. c_isspace c) \<and> sg \<in> {'''', ''+'', ''-''} \<and>
    neg = (sg = ''-'') \<and> (\<forall>c \<in> set ds. c_isdigit c)"
proof -
  let ?t = "dropWhile c_isspace s"
  obtain sg u where u: "sign_split ?t = (sg, u)" by (cases "sign_split ?t")
  then have t: "?t = sg @ u" "sg \<in> {'''', ''+'', ''-''}" by (cases ?t; auto split: if_splits)+
  have s: "s = takeWhile c_isspace s @ sg @ takeWhile c_isdigit u @ dropWhile c_isdigit u"
    using t(1) by (metis takeWhile_dropWhile_id)
  moreover have "neg = (sg = ''-'')" "ds = takeWhile c_isdigit u" "rest = dropWhile c_isdigit u"
    using assms u by (auto simp: scan_integer_def)
  ultimately show ?thesis using t(2) by (metis set_takeWhileD)
qed

lemma scan_denotes:
  "denotes s neg m \<longleftrightarrow> (\<exists>ds. scan_integer s = (neg, ds, []) \<and> ds \<noteq> [] \<and> m = digits_value ds)"
proof
  assume "denotes s neg m"
  then obtain ws sg ds where p: "s = ws @ sg @ ds" "\<forall>c \<in> set ws. c_isspace c" "sg \<in> {'''', ''+'', ''-''}"
      "neg = (sg = ''-'')" "ds \<noteq> []" "\<forall>c \<in> set ds. c_isdigit c" "m = digits_value ds"
    unfolding denotes_def by blast
  have "scan_integer s = (neg, ds, [])" unfolding p(1,4) by (rule scan_of_parts [OF p(2,3,5,6)])
  then show "\<exists>ds. scan_integer s = (neg, ds, []) \<and> ds \<noteq> [] \<and> m = digits_value ds"
    using p(5,7) by blast
next
  assume "\<exists>ds. scan_integer s = (neg, ds, []) \<and> ds \<noteq> [] \<and> m = digits_value ds"
  then obtain ds where ds: "scan_integer s = (neg, ds, [])" "ds \<noteq> []" "m = digits_value ds" by blast
  obtain ws sg where "s = ws @ sg @ ds" "\<forall>c \<in> set ws. c_isspace c" "sg \<in> {'''', ''+'', ''-''}"
      "neg = (sg = ''-'')" "\<forall>c \<in> set ds. c_isdigit c"
    using scan_parts [OF ds(1)] unfolding append_Nil2 by blast
  with ds(2,3) show "denotes s neg m" unfolding denotes_def by blast
qed

lemma scan_end:
  assumes "scan_integer s = (neg, ds, rest)" and "ds \<noteq> []" and "CHR 0x00 \<notin> set s"
  shows "0 < length s - length rest"
    and "char_at s (length s - length rest) = CHR 0x00 \<longleftrightarrow> rest = []"
proof -
  obtain pre where s: "s = pre @ ds @ rest" using scan_parts [OF assms(1)] by (metis append.assoc)
  then show "0 < length s - length rest" using assms(2) by simp
  show "char_at s (length s - length rest) = CHR 0x00 \<longleftrightarrow> rest = []"
    using s assms(3) by (cases rest) (auto simp: char_at_def nth_append)
qed

section \<open>What the converters accept\<close>

definition signed_value :: "bool \<Rightarrow> nat \<Rightarrow> int" where
  "signed_value neg m = (if neg then - int m else int m)"

definition ulong_value :: "bool \<Rightarrow> nat \<Rightarrow> nat" where
  "ulong_value neg m = (if neg then (2 ^ 64 - m) mod 2 ^ 64 else m)"

lemma str_to_int32_iff:
  assumes "CHR 0x00 \<notin> set s"
  shows "str_to_int32 (Some s) (Some old) = (E_SUCCESS, Some v) \<longleftrightarrow>
    (\<exists>neg m. denotes s neg m \<and> v = signed_value neg m \<and> INT32_MIN \<le> v \<and> v \<le> INT32_MAX)"
proof -
  obtain neg ds rest where sc: "scan_integer s = (neg, ds, rest)" by (cases "scan_integer s") auto
  show ?thesis
  proof (cases "ds = []")
    case True
    then show ?thesis using sc by (auto simp: str_to_int32_def strtol_def scan_denotes)
  next
    case False
    note e = scan_end [OF sc False assms]
    show ?thesis using sc False e
      by (auto simp: str_to_int32_def strtol_def scan_denotes signed_value_def limits Let_def split: if_splits)
  qed
qed

lemma str_to_int32_fail: "fst (str_to_int32 i out) \<noteq> E_SUCCESS \<Longrightarrow> str_to_int32 i out = (E_FAILURE, out)"
  by (auto simp: str_to_int32_def Let_def split: option.splits prod.splits if_splits)

lemma strtoul_cases:
  assumes "CHR 0x00 \<notin> set s" and "strtoul s = (result, endptr, errno)"
  shows "(\<exists>neg m. denotes s neg m \<and> m \<le> ULONG_MAX \<and> P (ulong_value neg m)) \<longleftrightarrow>
      errno = NO_ERROR \<and> 0 < endptr \<and> char_at s endptr = CHR 0x00 \<and> P result"
    and "errno = ERANGE \<Longrightarrow> result = ULONG_MAX"
proof -
  obtain neg ds rest where sc: "scan_integer s = (neg, ds, rest)" by (cases "scan_integer s") auto
  show "errno = ERANGE \<Longrightarrow> result = ULONG_MAX"
    using assms(2) sc by (auto simp: strtoul_def Let_def split: if_splits)
  show "(\<exists>neg m. denotes s neg m \<and> m \<le> ULONG_MAX \<and> P (ulong_value neg m)) \<longleftrightarrow>
      errno = NO_ERROR \<and> 0 < endptr \<and> char_at s endptr = CHR 0x00 \<and> P result"
  proof (cases "ds = []")
    case True
    then show ?thesis using sc assms(2) by (auto simp: strtoul_def scan_denotes)
  next
    case False
    note e = scan_end [OF sc False assms(1)]
    show ?thesis using sc False e assms(2)
      by (auto simp: strtoul_def scan_denotes ulong_value_def Let_def split: if_splits)
  qed
qed

lemma str_to_uint32_iff:
  assumes "CHR 0x00 \<notin> set s"
  shows "str_to_uint32 (Some s) (Some old) = (E_SUCCESS, Some w) \<longleftrightarrow>
    (\<exists>neg m. denotes s neg m \<and> m \<le> ULONG_MAX \<and> ulong_value neg m \<le> UINT32_MAX \<and> w = of_nat (ulong_value neg m))"
proof -
  obtain result endptr errno where r: "strtoul s = (result, endptr, errno)" by (cases "strtoul s") auto
  note c = strtoul_cases [OF assms r]
  have "str_to_uint32 (Some s) (Some old) = (E_SUCCESS, Some w) \<longleftrightarrow>
      errno = NO_ERROR \<and> 0 < endptr \<and> char_at s endptr = CHR 0x00 \<and> result \<le> UINT32_MAX \<and> w = of_nat result"
    using r c(2) by (cases errno) (auto simp: str_to_uint32_def limits)
  also note c(1) [of "\<lambda>v. v \<le> UINT32_MAX \<and> w = of_nat v", symmetric]
  finally show ?thesis .
qed

lemma str_to_uint16_iff:
  assumes "CHR 0x00 \<notin> set s"
  shows "str_to_uint16 (Some s) (Some old) = (E_SUCCESS, Some w) \<longleftrightarrow>
    (\<exists>neg m. denotes s neg m \<and> m \<le> ULONG_MAX \<and> ulong_value neg m \<le> UINT16_MAX \<and> w = of_nat (ulong_value neg m))"
proof -
  obtain result endptr errno where r: "strtoul s = (result, endptr, errno)" by (cases "strtoul s") auto
  note c = strtoul_cases [OF assms r]
  have "str_to_uint16 (Some s) (Some old) = (E_SUCCESS, Some w) \<longleftrightarrow>
      errno = NO_ERROR \<and> 0 < endptr \<and> char_at s endptr = CHR 0x00 \<and> result \<le> UINT16_MAX \<and> w = of_nat result"
    using r c(2) by (cases errno) (auto simp: str_to_uint16_def limits)
  also note c(1) [of "\<lambda>v. v \<le> UINT16_MAX \<and> w = of_nat v", symmetric]
  finally show ?thesis .
qed

lemma str_to_uint_fail:
  "fst (str_to_uint32 i out) \<noteq> E_SUCCESS \<Longrightarrow> str_to_uint32 i out = (E_FAILURE, out)"
  "fst (str_to_uint16 i out') \<noteq> E_SUCCESS \<Longrightarrow> str_to_uint16 i out' = (E_FAILURE, out')"
  by (auto simp: str_to_uint32_def str_to_uint16_def Let_def split: option.splits prod.splits if_splits)

section \<open>Printing\<close>

lemma of_char_digit: "d < 10 \<Longrightarrow> (of_char (digit_char d) :: nat) = 48 + d"
  by (simp add: digit_char_def take_bit_nat_eq_self)

lemma digits_value_snoc: "digits_value (ds @ [c]) = digits_value ds * 10 + (of_char c - 48)"
  by (simp add: digits_value_def)

lemma show_nat_value: "digits_value (show_nat n) = n"
proof (induction n rule: show_nat.induct)
  case (1 n)
  then show ?case
    by (subst show_nat.simps) (auto simp: digits_value_snoc of_char_digit digits_value_def)
qed

lemma show_nat_digits: "c \<in> set (show_nat n) \<Longrightarrow> c_isdigit c"
proof (induction n rule: show_nat.induct)
  case (1 n)
  then show ?case
    by (cases "n < 10") (auto simp: show_nat.simps [of n] c_isdigit_def of_char_digit)
qed

lemma show_nat_nonempty: "show_nat n \<noteq> []"
  by (subst show_nat.simps) simp

lemma show_nat_length: "n < 10 ^ k \<Longrightarrow> 0 < k \<Longrightarrow> length (show_nat n) \<le> k"
proof (induction k arbitrary: n)
  case (Suc k)
  then show ?case
  proof (cases "n < 10")
    case False
    with Suc.prems have "n div 10 < 10 ^ k" "0 < k" by (cases k; simp add: div_less_iff_less_mult mult.commute)+
    then have "length (show_nat (n div 10)) \<le> k" by (rule Suc.IH)
    with False show ?thesis by (subst show_nat.simps) simp
  qed (subst show_nat.simps, simp)
qed simp

lemma unat32_less: "unat (w :: 32 word) < 2 ^ 32"
  using unsigned_less [of w, where ?'a = nat] by simp

lemma uint32_to_str_exact:
  "uint32_to_str True True w (Some old) = (E_SUCCESS, Some (Some (show_nat (unat w))))"
proof -
  note unat32_less [of w]
  also have "(2::nat) ^ 32 \<le> 10 ^ 10" by simp
  finally have "length (show_nat (unat w)) \<le> 10" by (rule show_nat_length) simp
  then show ?thesis by (simp add: uint32_to_str_def snprintf_s_def UINT32_LEN_def)
qed

lemma show_nat_denotes: "denotes (show_nat n) False n"
proof -
  have "\<forall>c \<in> set (show_nat n). c_isdigit c" using show_nat_digits by blast
  then show ?thesis unfolding denotes_def
    by (intro exI [of _ "[]"] exI [of _ "show_nat n"]) (simp add: show_nat_value show_nat_nonempty)
qed

lemma show_nat_no_NUL: "CHR 0x00 \<notin> set (show_nat n)"
  using show_nat_digits [of "CHR 0x00" n] digit_not_space by blast

lemma str_to_uint32_show: "str_to_uint32 (Some (show_nat (unat w))) (Some old) = (E_SUCCESS, Some w)"
proof -
  have "unat w \<le> ULONG_MAX \<and> ulong_value False (unat w) \<le> UINT32_MAX \<and> w = of_nat (ulong_value False (unat w))"
    using unat32_less [of w] by (simp add: limits ulong_value_def)
  then show ?thesis using str_to_uint32_iff [OF show_nat_no_NUL] show_nat_denotes by blast
qed

end
