(* ===== verification/Number_Generator.thy ===== *)
theory Number_Generator
  imports Linked_List Number_Converter "HOL-Library.Signed_Division"
begin

text \<open>
  Math/src/number_generator.c, \<open>random_number\<close>, and its client \<open>list_pick_random_item\<close>
  of the linked list.  The libc generator behind \<open>srandom\<close> and \<open>random\<close> is a parameter
  (a seeding function and a step), as are the outcomes of reading \<open>/dev/urandom\<close>, the clock
  and the process id.  Signed \<open>int\<close> arithmetic that leaves 32 bits is undefined behaviour.
\<close>

section \<open>State and environment\<close>

text \<open>The function-local \<open>static int is_seed_set\<close> and the hidden state of the generator.\<close>

record 's rng =
  is_seed_set :: bool
  gen :: 's

record seed_env =
  urandom_open :: bool
  urandom_seed :: "32 word option"
  time_xor_pid :: "32 word"

definition c_mod :: "int \<Rightarrow> int \<Rightarrow> int option" where
  "c_mod x y = (if y = 0 then None else Some (x smod y))"

section \<open>Operations\<close>

text \<open>The seed that \<open>srandom\<close> is given: from \<open>/dev/urandom\<close> when it opens and a whole
  word can be read, otherwise from the clock and the process id.\<close>

definition choose_seed :: "seed_env \<Rightarrow> 32 word" where
  "choose_seed env =
     (if urandom_open env
      then (case urandom_seed env of Some seed \<Rightarrow> seed | None \<Rightarrow> time_xor_pid env)
      else time_xor_pid env)"

text \<open>The conversion of the \<open>long\<close> result of \<open>random()\<close> to \<open>int\<close> keeps its low
  32 bits.\<close>

definition random_number ::
  "(32 word \<Rightarrow> 's) \<Rightarrow> ('s \<Rightarrow> int \<times> 's) \<Rightarrow> seed_env \<Rightarrow> int \<Rightarrow> int \<Rightarrow> int option \<Rightarrow> 's rng
     \<Rightarrow> (int \<times> int option \<times> 's rng) option" where
  "random_number srandom random env lower_bound upper_bound result_p g =
     (case result_p of
        None \<Rightarrow> Some (E_FAILURE, None, g)
      | Some old \<Rightarrow>
          if INT32_MAX < lower_bound \<or> INT32_MIN > lower_bound then Some (E_FAILURE, Some old, g)
          else if INT32_MAX < upper_bound \<or> INT32_MIN > upper_bound then Some (E_FAILURE, Some old, g)
          else if lower_bound > upper_bound then Some (E_FAILURE, Some old, g)
          else do {
            let g = (if \<not> is_seed_set g then \<lparr>is_seed_set = True, gen = srandom (choose_seed env)\<rparr> else g);
            let (r, s) = random (gen g);
            let g = g\<lparr>gen := s\<rparr>;
            let rand_val = sint (word_of_int r :: 32 word);
            if rand_val > INT32_MAX then Some (E_FAILURE, Some old, g)
            else do {
              d \<leftarrow> c_int (upper_bound - lower_bound);
              d \<leftarrow> c_int (d + 1);
              m \<leftarrow> c_mod rand_val d;
              v \<leftarrow> c_int (lower_bound + m);
              Some (E_SUCCESS, Some v, g) } })"

text \<open>The walk of \<open>list_pick_random_item\<close>: at most \<open>k\<close> steps, stopping at NULL.\<close>

fun walk :: "nat \<Rightarrow> list_heap \<Rightarrow> ptr \<Rightarrow> ptr option" where
  "walk 0 h node_p = Some node_p"
| "walk (Suc k) h node_p =
     (if node_p = NULL then Some node_p
      else do { n \<leftarrow> read_node node_p h; walk k h (n_next n) })"

definition list_pick_random_item ::
  "(32 word \<Rightarrow> 's) \<Rightarrow> ('s \<Rightarrow> int \<times> 's) \<Rightarrow> seed_env \<Rightarrow> ptr \<Rightarrow> list_heap \<Rightarrow> 's rng \<Rightarrow> (ptr \<times> 's rng) option" where
  "list_pick_random_item srandom random env list h g =
     (if list = NULL then Some (NULL, g)
      else do {
        l \<leftarrow> read_list list h;
        if l_size l = 0 then Some (NULL, g)
        else if int (unat (l_size l)) > INT32_MAX then Some (NULL, g)
        else do {
          (exit_code, random_index, g) \<leftarrow>
            random_number srandom random env 0 (int (unat (l_size l - 1))) (Some 0) g;
          if exit_code \<noteq> E_SUCCESS then Some (NULL, g)
          else do {
            idx \<leftarrow> random_index;
            node_p \<leftarrow> walk (nat idx) h (l_head l);
            if node_p = NULL then Some (NULL, g)
            else do { n \<leftarrow> read_node node_p h; Some (n_data n, g) } } } })"

section \<open>Behaviour\<close>

text \<open>What \<open>random()\<close> documents of its results: they lie between 0 and \<open>2 ^ 31 - 1\<close>.\<close>

definition random_in_range :: "('s \<Rightarrow> int \<times> 's) \<Rightarrow> bool" where
  "random_in_range random \<longleftrightarrow> (\<forall>s. 0 \<le> fst (random s) \<and> fst (random s) \<le> INT32_MAX)"

definition seeded :: "(32 word \<Rightarrow> 's) \<Rightarrow> seed_env \<Rightarrow> 's rng \<Rightarrow> 's" where
  "seeded srandom env g = (if is_seed_set g then gen g else srandom (choose_seed env))"

lemma smod_nonneg: "0 \<le> x \<Longrightarrow> 0 < y \<Longrightarrow> (x :: int) smod y = x mod y"
  by (cases "x = 0") (simp_all add: signed_modulo_int_def)

lemma low_word_small: "0 \<le> r \<Longrightarrow> r \<le> INT32_MAX \<Longrightarrow> sint (word_of_int r :: 32 word) = r"
  by (simp add: INT32_MAX_def signed_of_int signed_take_bit_int_eq_self)

lemma random_number_value:
  assumes "random_in_range random" and "INT32_MIN \<le> lo" and "lo \<le> hi" and "hi \<le> INT32_MAX"
    and "hi - lo < INT32_MAX"
  shows "random_number srandom random env lo hi (Some old) g =
    Some (E_SUCCESS, Some (lo + fst (random (seeded srandom env g)) mod (hi - lo + 1)),
          \<lparr>is_seed_set = True, gen = snd (random (seeded srandom env g))\<rparr>)"
proof -
  let ?s = "seeded srandom env g"
  let ?m = "fst (random ?s) mod (hi - lo + 1)"
  have r: "0 \<le> fst (random ?s)" "fst (random ?s) \<le> INT32_MAX"
    using assms(1) by (auto simp: random_in_range_def)
  have m: "0 \<le> ?m" "?m < hi - lo + 1" using assms(3) pos_mod_bound [of "hi - lo + 1"] by auto
  have v: "INT32_MIN \<le> lo + ?m" "lo + ?m \<le> INT32_MAX" using m assms(2,4) by linarith+
  have "fst (random ?s) smod (hi - lo + 1) = ?m"
    using r assms(3) by (intro smod_nonneg) auto
  with r v assms show ?thesis
    by (cases "random ?s"; cases g)
      (auto simp: random_number_def low_word_small c_int_def c_mod_def seeded_def limits Let_def split: if_splits)
qed

lemma random_number_in_bounds:
  "lo \<le> hi \<Longrightarrow> lo \<le> lo + x mod (hi - lo + 1) \<and> lo + x mod (hi - lo + 1) \<le> (hi :: int)"
  using pos_mod_bound [of "hi - lo + 1" x] by auto

lemma random_number_overflow:
  assumes "random_in_range random" and "INT32_MIN \<le> lo" and "hi \<le> INT32_MAX" and "INT32_MAX \<le> hi - lo"
  shows "random_number srandom random env lo hi (Some old) g = None"
proof -
  have "0 \<le> fst (random (seeded srandom env g))" "fst (random (seeded srandom env g)) \<le> INT32_MAX"
    using assms(1) by (auto simp: random_in_range_def)
  with assms show ?thesis
    by (cases "random (seeded srandom env g)")
      (auto simp: random_number_def low_word_small c_int_def seeded_def limits Let_def split: if_splits)
qed

lemma walk_node:
  "dlseg (nodes h) pv p ns l NULL \<Longrightarrow> k < length ns \<Longrightarrow> walk k h p = Some (fst (ns ! k))"
proof (induction k arbitrary: pv p ns)
  case 0
  then show ?case by (cases ns) auto
next
  case (Suc k)
  then show ?case by (cases ns) (auto split: option.splits)
qed

lemma list_pick_random_item_rep:
  assumes rep: "list_rep h lp l ns" and rnd: "random_in_range random"
    and ne: "ns \<noteq> []" and len: "int (length ns) \<le> INT32_MAX"
  shows "list_pick_random_item srandom random env lp h g =
    Some (datas ns ! nat (fst (random (seeded srandom env g)) mod int (length ns)),
          \<lparr>is_seed_set = True, gen = snd (random (seeded srandom env g))\<rparr>)"
proof -
  let ?r = "fst (random (seeded srandom env g)) mod int (length ns)"
  have k: "nat ?r < length ns" "0 \<le> ?r" using ne by (simp_all add: nat_less_iff)
  have sz: "unat (l_size l) = length ns" using rep by (rule list_rep_size)
  have z: "l_size l \<noteq> 0" using sz ne by auto
  have sz1: "unat (l_size l - 1) = length ns - 1"
    using ne list_repD(5,6) [OF rep] by (cases "length ns") (simp_all add: unat_of_nat32)
  have rn: "random_number srandom random env 0 (int (length ns - 1)) (Some 0) g =
      Some (E_SUCCESS, Some ?r, \<lparr>is_seed_set = True, gen = snd (random (seeded srandom env g))\<rparr>)"
    using random_number_value [OF rnd, of 0 "int (length ns - 1)" srandom env 0 g] ne len
    by (simp add: limits of_nat_diff Suc_leI)
  obtain n where n: "nodes h (fst (ns ! nat ?r)) = Some n" "fst (ns ! nat ?r) \<noteq> NULL" "n_data n = snd (ns ! nat ?r)"
    using list_rep_read_node [OF rep k(1)] by blast
  have w: "walk (nat ?r) h (l_head l) = Some (fst (ns ! nat ?r))"
    by (rule walk_node [OF list_repD(3) [OF rep] k(1)])
  show ?thesis
    using list_repD(1,2) [OF rep] sz z sz1 rn n w len k
    by (simp add: list_pick_random_item_def)
qed

end
