(* ===== verification/String_Operations.thy ===== *)
theory String_Operations
  imports C_Strings
begin

text \<open>
  Strings/src/string_operations.c: stripping a newline in place, string equality and the bounded
  copy.  A string argument that may be NULL is an option; the results hold the contents of the
  in-place or output parameters after the call.
\<close>

definition strip_newline :: "string option \<Rightarrow> int \<times> string option" where
  "strip_newline input_str_p =
     (case input_str_p of
        None \<Rightarrow> (E_FAILURE, None)
      | Some s \<Rightarrow>
          (let len = length s;
               newline_pos = strcspn_newline s
           in if newline_pos < len then (E_SUCCESS, Some (take newline_pos s))
              else (E_SUCCESS, Some s)))"

definition strings_are_equal :: "string option \<Rightarrow> string option \<Rightarrow> int option \<Rightarrow> int \<times> int option" where
  "strings_are_equal str1_p str2_p result_p =
     (case (str1_p, str2_p, result_p) of
        (Some s1, Some s2, Some _) \<Rightarrow>
          (let len1 = length s1; len2 = length s2;
               max_len = (if len1 > len2 then len1 else len2);
               check = strncmp s1 s2 max_len
           in (E_SUCCESS, Some (if check = 0 then 1 else 0)))
      | _ \<Rightarrow> (E_FAILURE, result_p))"

text \<open>
  \<open>size_t\<close> arithmetic is modulo \<open>2 ^ 64\<close>; \<open>output\<close> is the content of the caller's
  \<open>char *\<close>.  \<open>calloc_ok\<close> is the outcome of the allocation.  With
  \<open>character_limit = SIZE_MAX\<close> the buffer has size 0 and \<open>snprintf\<close> writes nothing, so
  the caller's pointer is to a block that holds no terminator (\<open>Unterminated\<close>).
  \<open>snprintf\<close> returns an \<open>int\<close>: it is negative, and huge as a \<open>size_t\<close>, for a string
  of more than \<open>INT_MAX\<close> characters.
\<close>

datatype buffer = Null_buffer | Terminated string | Unterminated

definition copy_string :: "bool \<Rightarrow> string option \<Rightarrow> buffer option \<Rightarrow> 64 word \<Rightarrow> bool \<Rightarrow> int \<times> buffer option" where
  "copy_string calloc_ok input output character_limit allow_truncation =
     (case (input, output) of
        (Some s, Some old) \<Rightarrow>
          (let buffer_size = character_limit + 1
           in if \<not> calloc_ok then (E_FAILURE, Some old)
              else (let (text, n) = snprintf_s (unat buffer_size) s;
                        num_characters = (if INT32_MAX < int n then - 1 else of_nat n :: 64 word)
                    in if num_characters \<ge> buffer_size \<and> \<not> allow_truncation
                       then (E_FAILURE, Some old)
                       else (E_SUCCESS, Some (if buffer_size = 0 then Unterminated else Terminated text))))
      | _ \<Rightarrow> (E_FAILURE, output))"

section \<open>Behaviour\<close>

lemma strip_newline_result:
  "strip_newline (Some s) = (E_SUCCESS, Some (takeWhile (\<lambda>c. c \<noteq> CHR 0x0A) s))"
proof -
  have t: "take (strcspn_newline s) s = takeWhile (\<lambda>c. c \<noteq> CHR 0x0A) s"
    by (induction s) auto
  show ?thesis
  proof (cases "strcspn_newline s < length s")
    case True
    then show ?thesis by (simp add: strip_newline_def t)
  next
    case False
    then have "s = takeWhile (\<lambda>c. c \<noteq> CHR 0x0A) s" using t by simp
    with False show ?thesis by (simp add: strip_newline_def)
  qed
qed

lemma strip_newline_idem: "strip_newline (snd (strip_newline (Some s))) = strip_newline (Some s)"
  by (simp add: strip_newline_result takeWhile_takeWhile)

lemma strings_are_equal_iff:
  "strings_are_equal (Some s) (Some t) (Some r) = (E_SUCCESS, Some (if s = t then 1 else 0))"
  by (auto simp: strings_are_equal_def Let_def strncmp_eq_0_iff)

lemma word_plus_1_nonzero: "w \<noteq> - 1 \<Longrightarrow> w + 1 \<noteq> (0 :: 64 word)"
  by (metis add_diff_cancel diff_0)

lemma unat64_plus_1: "w \<noteq> - 1 \<Longrightarrow> unat (w + 1 :: 64 word) = unat w + 1"
  using word_plus_1_nonzero [of w] unsigned_less [of w, where ?'a = nat]
  by (auto simp: unat_plus_if' simp flip: unat_eq_zero split: if_splits)

lemma unat64_small: "int n \<le> INT32_MAX \<Longrightarrow> unat (of_nat n :: 64 word) = n"
  by (simp add: INT32_MAX_def unat_of_nat)

lemma copy_string_result:
  assumes "character_limit \<noteq> - 1" and "int (length s) \<le> INT32_MAX"
  shows "copy_string True (Some s) (Some old) character_limit allow =
    (if length s \<le> unat character_limit \<or> allow
     then (E_SUCCESS, Some (Terminated (take (unat character_limit) s)))
     else (E_FAILURE, Some old))"
proof -
  have "character_limit + 1 \<noteq> 0" using assms(1) by (rule word_plus_1_nonzero)
  then show ?thesis using unat64_plus_1 [OF assms(1)] unat64_small [OF assms(2)] assms(2)
    by (auto simp: copy_string_def snprintf_s_def not_le word_le_nat_alt)
qed

end
