(* ===== verification/List_Store.thy ===== *)
theory List_Store
  imports Linked_List
begin

text \<open>
  Several list objects in one heap.  The graph code keeps a list of nodes, one list of edges per
  node and a list of visited nodes at the same time; \<open>lists_ok h L\<close> says that every list
  object named by \<open>L\<close> is well formed and that no two of them share a node, and the lemmas say
  what each list operation does to the whole collection: it changes the entry of its own list and
  no other.
\<close>

lemma split_first_unique:
  "xs @ a # ys = us @ b # vs \<Longrightarrow> P a \<Longrightarrow> P b \<Longrightarrow> \<forall>x \<in> set xs. \<not> P x \<Longrightarrow> \<forall>x \<in> set us. \<not> P x \<Longrightarrow>
   xs = us \<and> a = b \<and> ys = vs"
proof (induction xs arbitrary: us)
  case Nil
  then show ?case by (cases us) auto
next
  case (Cons x xs)
  then show ?case by (cases us) auto
qed

section \<open>Collections of lists\<close>

type_synonym list_store = "ptr \<rightharpoonup> FREE_F option \<times> CMP_F option \<times> node_seq"

definition lists_ok :: "list_heap \<Rightarrow> list_store \<Rightarrow> bool" where
  "lists_ok h L \<longleftrightarrow>
     heap_ok h \<and> plan h = [] \<and>
     (\<forall>lp fo co ns. L lp = Some (fo, co, ns) \<longrightarrow>
        (\<exists>l. list_rep h lp l ns \<and> l_custom_free l = fo \<and> l_compare_func l = co)) \<and>
     (\<forall>p q fo co ns fo' co' ns'. p \<noteq> q \<longrightarrow> L p = Some (fo, co, ns) \<longrightarrow> L q = Some (fo', co', ns') \<longrightarrow>
        set (addrs ns) \<inter> set (addrs ns') = {})"

lemma lists_okD:
  assumes "lists_ok h L"
  shows "heap_ok h" and "plan h = []"
    and "L lp = Some (fo, co, ns) \<Longrightarrow>
      \<exists>l. list_rep h lp l ns \<and> l_custom_free l = fo \<and> l_compare_func l = co"
    and "p \<noteq> q \<Longrightarrow> L p = Some (fo, co, ns) \<Longrightarrow> L q = Some (fo', co', ns') \<Longrightarrow>
      set (addrs ns) \<inter> set (addrs ns') = {}"
  using assms unfolding lists_ok_def by blast+

lemma lists_ok_obj: "lists_ok h L \<Longrightarrow> L lp = Some x \<Longrightarrow> lp \<noteq> NULL \<and> list_objs h lp \<noteq> None"
  by (cases x) (metis lists_okD(3) list_repD(1,2) option.distinct(1))

lemma lists_ok_lt: "lists_ok h L \<Longrightarrow> L lp = Some x \<Longrightarrow> lp < brk h"
  by (metis lists_ok_obj lists_okD(1) heap_ok_list_lt not_Some_eq)

lemma lists_ok_addr_lt: "lists_ok h L \<Longrightarrow> L lp = Some (fo, co, ns) \<Longrightarrow> a \<in> set (addrs ns) \<Longrightarrow> a < brk h"
  by (metis lists_okD(1,3) list_repD(3) dlseg_allocated heap_ok_node_lt not_Some_eq)

text \<open>An operation on one list, within its own nodes and at most one new one.\<close>

lemma lists_ok_update:
  assumes L: "lists_ok h L" and lp: "L lp = Some (fo, co, ns)"
    and l: "l_custom_free l = fo" "l_compare_func l = co"
    and b: "list_becomes h lp l A ns' rs h'" and p: "plan h' = []"
    and A: "A \<subseteq> insert (brk h) (set (addrs ns))" "set (addrs ns') \<subseteq> insert (brk h) (set (addrs ns))"
  shows "lists_ok h' (L(lp \<mapsto> (fo, co, ns')))"
proof -
  have fr: "frame_except A lp h h'" and ok: "heap_ok h'"
    and own: "\<exists>l'. list_rep h' lp l' ns' \<and> l_custom_free l' = fo \<and> l_compare_func l' = co"
    using b l unfolding list_becomes_def by auto
  have away: "set (addrs ms) \<inter> insert (brk h) (set (addrs ns)) = {}"
    if "q \<noteq> lp" "L q = Some (fo', co', ms)" for q fo' co' ms
    using lists_okD(4) [OF L that(1) that(2) lp] lists_ok_addr_lt [OF L that(2)] by blast
  have other: "\<exists>l. list_rep h' q l ms \<and> l_custom_free l = fo' \<and> l_compare_func l = co'"
    if q: "q \<noteq> lp" "L q = Some (fo', co', ms)" for q fo' co' ms
  proof -
    obtain l1 where l1: "list_rep h q l1 ms" "l_custom_free l1 = fo'" "l_compare_func l1 = co'"
      using lists_okD(3) [OF L q(2)] by blast
    have "set (addrs ms) \<inter> A = {}" using away [OF q] A(1) by blast
    from list_rep_frame [OF l1(1) fr q(1) this] l1(2,3) show ?thesis by blast
  qed
  have sep: "set (addrs ms) \<inter> set (addrs ns') = {}"
    if "q \<noteq> lp" "L q = Some (fo', co', ms)" for q fo' co' ms
    using away [OF that] A(2) by blast
  show ?thesis
    unfolding lists_ok_def
  proof (intro conjI allI impI)
    fix q fo' co' ms assume "(L(lp \<mapsto> (fo, co, ns'))) q = Some (fo', co', ms)"
    then show "\<exists>l. list_rep h' q l ms \<and> l_custom_free l = fo' \<and> l_compare_func l = co'"
      using own other by (cases "q = lp") auto
  next
    fix q r fo1 co1 ms1 fo2 co2 ms2
    assume "q \<noteq> r" "(L(lp \<mapsto> (fo, co, ns'))) q = Some (fo1, co1, ms1)"
      "(L(lp \<mapsto> (fo, co, ns'))) r = Some (fo2, co2, ms2)"
    then show "set (addrs ms1) \<inter> set (addrs ms2) = {}"
      using sep [of q fo1 co1 ms1] sep [of r fo2 co2 ms2] lists_okD(4) [OF L, of q r fo1 co1 ms1 fo2 co2 ms2]
      by (cases "q = lp"; cases "r = lp") (simp_all add: Int_commute)
  qed (use ok p in auto)
qed

section \<open>Operations on one list of the collection\<close>

lemma lists_ok_new:
  assumes L: "lists_ok h L"
  shows "\<exists>h'. list_new fo co h = Some (brk h, h') \<and> lists_ok h' (L(brk h \<mapsto> (fo, co, []))) \<and>
    released h' = released h \<and> brk h \<noteq> NULL \<and> L (brk h) = None"
proof -
  have fresh: "L (brk h) = None" using lists_ok_lt [OF L] by (cases "L (brk h)") auto
  obtain h' where h': "list_new fo co h = Some (brk h, h')"
      "list_rep h' (brk h) \<lparr>l_size = 0, l_head = NULL, l_tail = NULL, l_custom_free = fo, l_compare_func = co\<rparr> []"
      "heap_ok h'" "nodes h' = nodes h" "\<forall>p. p \<noteq> brk h \<longrightarrow> list_objs h' p = list_objs h p"
      "released h' = released h" "plan h' = []"
    using list_new_ok [OF lists_okD(1) [OF L], of fo co] lists_okD(2) [OF L] by auto
  have keep: "list_rep h' p l ns" if "list_rep h p l ns" "L p = Some x" for p l ns x
  proof -
    have "p \<noteq> brk h" using that(2) fresh by auto
    then show ?thesis using that(1) h'(4,5) by (simp add: list_rep_def)
  qed
  have "lists_ok h' (L(brk h \<mapsto> (fo, co, [])))"
    unfolding lists_ok_def
  proof (intro conjI allI impI)
    fix q fo' co' ms assume "(L(brk h \<mapsto> (fo, co, []))) q = Some (fo', co', ms)"
    then show "\<exists>l. list_rep h' q l ms \<and> l_custom_free l = fo' \<and> l_compare_func l = co'"
      using h'(2) lists_okD(3) [OF L, of q fo' co' ms] keep by (cases "q = brk h") (simp, force+)
  next
    fix q r fo1 co1 ms1 fo2 co2 ms2
    assume "q \<noteq> r" "(L(brk h \<mapsto> (fo, co, []))) q = Some (fo1, co1, ms1)"
      "(L(brk h \<mapsto> (fo, co, []))) r = Some (fo2, co2, ms2)"
    then show "set (addrs ms1) \<inter> set (addrs ms2) = {}"
      using lists_okD(4) [OF L, of q r fo1 co1 ms1 fo2 co2 ms2] by (cases "q = brk h"; cases "r = brk h") simp_all
  qed (use h' in auto)
  with h' fresh heap_ok_fresh [OF lists_okD(1) [OF L]] show ?thesis by auto
qed

lemma lists_ok_push_head:
  assumes L: "lists_ok h L" and lp: "L lp = Some (fo, co, ns)" and d: "d \<noteq> NULL"
    and sz: "Suc (length ns) < 2 ^ 32"
  shows "\<exists>h' a. list_push_head lp d h = Some (E_SUCCESS, h') \<and>
    lists_ok h' (L(lp \<mapsto> (fo, co, (a, d) # ns))) \<and> released h' = released h"
proof -
  obtain l where l: "list_rep h lp l ns" "l_custom_free l = fo" "l_compare_func l = co"
    using lists_okD(3) [OF L lp] by blast
  obtain h' where h': "list_push_head lp d h = Some (E_SUCCESS, h')"
      "list_becomes h lp l (insert (brk h) (set (addrs ns))) ((brk h, d) # ns) [] h'" "plan h' = []"
    using list_push_head_rep [OF l(1) lists_okD(1) [OF L] d _ sz] lists_okD(2) [OF L] by auto
  have "lists_ok h' (L(lp \<mapsto> (fo, co, (brk h, d) # ns)))"
    by (rule lists_ok_update [OF L lp l(2,3) h'(2,3)]) auto
  with h' show ?thesis by (auto simp: list_becomes_def)
qed

lemma lists_ok_push_tail:
  assumes L: "lists_ok h L" and lp: "L lp = Some (fo, co, ns)" and d: "d \<noteq> NULL"
    and sz: "Suc (length ns) < 2 ^ 32"
  shows "\<exists>h' a. list_push_tail lp d h = Some (E_SUCCESS, h') \<and>
    lists_ok h' (L(lp \<mapsto> (fo, co, ns @ [(a, d)]))) \<and> released h' = released h"
proof -
  obtain l where l: "list_rep h lp l ns" "l_custom_free l = fo" "l_compare_func l = co"
    using lists_okD(3) [OF L lp] by blast
  obtain h' where h': "list_push_tail lp d h = Some (E_SUCCESS, h')"
      "list_becomes h lp l (insert (brk h) (set (addrs ns))) (ns @ [(brk h, d)]) [] h'" "plan h' = []"
    using list_push_tail_rep [OF l(1) lists_okD(1) [OF L] d _ sz] lists_okD(2) [OF L] by auto
  have "lists_ok h' (L(lp \<mapsto> (fo, co, ns @ [(brk h, d)])))"
    by (rule lists_ok_update [OF L lp l(2,3) h'(2,3)]) auto
  with h' show ?thesis by (auto simp: list_becomes_def)
qed

lemma write_plan:
  "write_node p u h = Some h' \<Longrightarrow> plan h' = plan h" "write_list p v h = Some h' \<Longrightarrow> plan h' = plan h"
  "(if b then write_node p u h else write_list q v h) = Some h' \<Longrightarrow> plan h' = plan h"
  "free_node p h = Some h' \<Longrightarrow> plan h' = plan h" "call_free fo d h = Some h' \<Longrightarrow> plan h' = plan h"
  by (auto simp: write_node_def write_list_def free_node_def call_free_def bind_Some_iff split: if_splits)

lemma remove_node_plan: "remove_node lp a h = Some (c, h') \<Longrightarrow> plan h' = plan h"
  by (cases "lp = NULL \<or> a = NULL")
    (auto simp: remove_node_def bind_Some_iff dest!: write_plan simp del: neq0_conv split del: if_split)

lemma list_remove_data_plan: "list_remove_data lp x h = Some (c, h') \<Longrightarrow> plan h' = plan h"
  unfolding list_remove_data_def by (auto simp: bind_Some_iff dest: remove_node_plan split: if_splits)

text \<open>Removing by data takes out the first entry that compares equal.\<close>

lemma lists_ok_remove_data:
  assumes L: "lists_ok h L" and lp: "L lp = Some (Some f, Some g, ns)" and x: "x \<noteq> NULL"
    and t: "cmp_total_on g x (set (datas ns))"
    and e: "datas ns = ds @ d # es" "g x d = Some EQUAL" "\<forall>y \<in> set ds. g x y \<noteq> Some EQUAL"
  shows "\<exists>h' ns'. list_remove_data lp x h = Some (E_SUCCESS, h') \<and>
    lists_ok h' (L(lp \<mapsto> (Some f, Some g, ns'))) \<and> datas ns' = ds @ es \<and> released h' = released h @ f d"
proof -
  obtain l where l: "list_rep h lp l ns" "l_custom_free l = Some f" "l_compare_func l = Some g"
    using lists_okD(3) [OF L lp] by blast
  have "d \<in> set (datas ns)" using e(1) by simp
  then obtain xs a d1 ys h' where h': "ns = xs @ (a, d1) # ys" "g x d1 = Some EQUAL"
      "\<forall>e \<in> set (datas xs). g x e \<noteq> Some EQUAL" "list_remove_data lp x h = Some (E_SUCCESS, h')"
      "list_becomes h lp l (set (addrs ns)) (xs @ ys) (f d1) h'"
    using list_remove_data_rep [OF l(1) lists_okD(1) [OF L] l(2,3) x t] e(2) by blast
  have eq: "datas xs = ds \<and> d1 = d \<and> datas ys = es"
    by (rule split_first_unique [where P = "\<lambda>d. g x d = Some EQUAL"]) (use e h'(1-3) in auto)
  have "plan h' = []" using list_remove_data_plan [OF h'(4)] lists_okD(2) [OF L] by simp
  then have "lists_ok h' (L(lp \<mapsto> (Some f, Some g, xs @ ys)))"
    by (rule lists_ok_update [OF L lp l(2,3) h'(5)]) (use h'(1) in auto)
  with h'(4,5) eq show ?thesis by (auto simp: list_becomes_def)
qed

lemma lists_ok_delete:
  assumes L: "lists_ok h L" and lp: "L lp = Some (fo, co, ns)"
  shows "\<exists>h'. list_delete (Some lp) h = Some (E_SUCCESS, Some NULL, h') \<and> lists_ok h' (L(lp := None)) \<and>
    released h' = released h @ releases fo (datas ns)"
proof -
  obtain l where l: "list_rep h lp l ns" "l_custom_free l = fo" "l_compare_func l = co"
    using lists_okD(3) [OF L lp] by blast
  obtain h' where h': "list_delete (Some lp) h = Some (E_SUCCESS, Some NULL, h')" "heap_ok h'"
      "frame_except (set (addrs ns)) lp h h'" "released h' = released h @ releases fo (datas ns)"
    using list_delete_rep [OF l(1) lists_okD(1) [OF L]] l(2) by auto
  have "plan h' = []"
    using h'(1) lists_okD(2) [OF L] list_repD(1,2) [OF l(1)]
      clear_loop_dlseg [OF list_repD(3,4) [OF l(1)], of "l_custom_free l"]
    by (auto simp: list_delete_def list_clear_def)
  moreover have "\<exists>l. list_rep h' q l ms \<and> l_custom_free l = fo' \<and> l_compare_func l = co'"
    if q: "q \<noteq> lp" "L q = Some (fo', co', ms)" for q fo' co' ms
  proof -
    obtain l1 where l1: "list_rep h q l1 ms" "l_custom_free l1 = fo'" "l_compare_func l1 = co'"
      using lists_okD(3) [OF L q(2)] by blast
    from list_rep_frame [OF l1(1) h'(3) q(1) lists_okD(4) [OF L q(1) q(2) lp]] l1(2,3) show ?thesis by blast
  qed
  ultimately have "lists_ok h' (L(lp := None))"
    using h'(2) lists_okD(4) [OF L] unfolding lists_ok_def by (auto split: if_splits)
  with h' show ?thesis by blast
qed

section \<open>Reading\<close>

text \<open>The position in a list whose remaining entries are \<open>ns\<close>.\<close>

definition at_node :: "node_seq \<Rightarrow> ptr" where
  "at_node ns = (case ns of [] \<Rightarrow> NULL | n # _ \<Rightarrow> fst n)"

lemma at_node_simps [simp]: "at_node [] = NULL" "at_node (n # ns) = fst n"
  by (simp_all add: at_node_def)

lemma lists_ok_read_list:
  assumes L: "lists_ok h L" and lp: "L lp = Some (fo, co, ns)"
  shows "\<exists>l. read_list lp h = Some l \<and> l_head l = at_node ns \<and> l_size l = of_nat (length ns) \<and>
    length ns < 2 ^ 32 \<and> lp \<noteq> NULL"
proof -
  obtain l where l: "list_rep h lp l ns" using lists_okD(3) [OF L lp] by blast
  have "l_head l = at_node ns" using list_repD(3) [OF l] by (cases ns) auto
  with l show ?thesis using list_repD [OF l] by auto
qed

lemma lists_ok_read_node:
  assumes L: "lists_ok h L" and lp: "L lp = Some (fo, co, xs @ (a, d) # ys)"
  shows "\<exists>n. read_node a h = Some n \<and> n_data n = d \<and> n_next n = at_node ys \<and> a \<noteq> NULL"
proof -
  obtain l where l: "list_rep h lp l (xs @ (a, d) # ys)" using lists_okD(3) [OF L lp] by blast
  obtain n where n: "nodes h a = Some n" "a \<noteq> NULL" "n_data n = d" "n_next n = (if ys = [] then NULL else fst (hd ys))"
    using dlseg_node_at [OF list_repD(3) [OF l]] by blast
  then have "n_next n = at_node ys" by (cases ys) auto
  with n show ?thesis by auto
qed

lemma lists_ok_find_first:
  assumes L: "lists_ok h L" and lp: "L lp = Some (fo, Some g, ns)"
    and t: "cmp_total_on g x (set (datas ns))"
  shows "\<exists>a. list_find_first_occurrence lp x h = Some a \<and>
    (case find (\<lambda>d. g x d = Some EQUAL) (datas ns) of
       None \<Rightarrow> a = NULL
     | Some d \<Rightarrow> a \<noteq> NULL \<and> (\<exists>n. read_node a h = Some n \<and> n_data n = d))"
proof -
  obtain l where l: "list_rep h lp l ns" "l_compare_func l = Some g" using lists_okD(3) [OF L lp] by blast
  let ?a = "first_match (\<lambda>d. g x d = Some EQUAL) ns"
  have run: "list_find_first_occurrence lp x h = Some ?a" by (rule list_find_first_rep [OF l t])
  have nn: "NULL \<notin> set (addrs ns)" using dlseg_allocated [OF list_repD(3) [OF l(1)]] by blast
  show ?thesis
  proof (cases "find (\<lambda>d. g x d = Some EQUAL) (datas ns)")
    case None
    then have "?a = NULL" using first_match_NULL [OF nn] by (auto simp: find_None_iff)
    with None run show ?thesis by auto
  next
    case (Some d)
    have "?a \<noteq> NULL" using Some first_match_NULL [OF nn] by (auto simp: find_Some_iff)
    from first_match_split [OF this] obtain xs d1 ys where s: "ns = xs @ (?a, d1) # ys" "g x d1 = Some EQUAL"
        "\<forall>e \<in> set (datas xs). g x e \<noteq> Some EQUAL" by blast
    have "find (\<lambda>d. g x d = Some EQUAL) (datas ns) = Some d1"
      by (subst s(1)) (use s(2,3) in \<open>induction xs\<close>, auto)
    then have "d1 = d" using Some by simp
    with lists_ok_read_node [OF L, of lp fo "Some g" xs ?a d1 ys] lp s(1) run Some \<open>?a \<noteq> NULL\<close> show ?thesis by auto
  qed
qed

lemma lists_ok_contains:
  assumes L: "lists_ok h L" and lp: "L lp = Some (fo, Some g, ns)" and "x \<noteq> NULL"
    and "\<forall>d \<in> set (datas ns). \<exists>c. g d x = Some c"
  shows "list_contains lp x h = Some (\<exists>d \<in> set (datas ns). g d x = Some EQUAL)"
proof -
  obtain l where l: "list_rep h lp l ns" "l_compare_func l = Some g" using lists_okD(3) [OF L lp] by blast
  show ?thesis by (rule list_contains_rep [OF l assms(3,4)])
qed

section \<open>Comparison callbacks that read memory\<close>

text \<open>
  A comparison callback is C code: it reads the memory as it is when it is called.  The list object
  holds the callback closed over a memory, so an operation that calls it runs on the list whose
  callback has been closed over the present memory.
\<close>

definition retie :: "ptr \<Rightarrow> CMP_F \<Rightarrow> list_heap \<Rightarrow> list_heap" where
  "retie lp g h =
     h\<lparr>list_objs := (list_objs h)(lp := map_option (l_compare_func_update (\<lambda>_. Some g)) (list_objs h lp))\<rparr>"

lemma retie_fields [simp]:
  "released (retie lp g h) = released h" "plan (retie lp g h) = plan h" "nodes (retie lp g h) = nodes h"
  "brk (retie lp g h) = brk h"
  by (simp_all add: retie_def)

lemma lists_ok_retie:
  assumes L: "lists_ok h L" and lp: "L lp = Some (fo, co, ns)"
  shows "lists_ok (retie lp g h) (L(lp \<mapsto> (fo, Some g, ns)))"
proof -
  have 1: "heap_ok (retie lp g h)" using lists_okD(1) [OF L] by (simp add: heap_ok_def retie_def)
  have 2: "\<exists>l. list_rep (retie lp g h) q l ms \<and> l_custom_free l = fo' \<and> l_compare_func l = (if q = lp then Some g else co')"
    if q: "L q = Some (fo', co', ms)" for q fo' co' ms
  proof -
    obtain l where l: "list_rep h q l ms" "l_custom_free l = fo'" "l_compare_func l = co'"
      using lists_okD(3) [OF L q] by blast
    then show ?thesis
      by (intro exI [of _ "if q = lp then l\<lparr>l_compare_func := Some g\<rparr> else l"])
        (auto simp: list_rep_def retie_def)
  qed
  show ?thesis
    unfolding lists_ok_def
  proof (intro conjI allI impI)
    fix q fo' co' ms assume "(L(lp \<mapsto> (fo, Some g, ns))) q = Some (fo', co', ms)"
    then show "\<exists>l. list_rep (retie lp g h) q l ms \<and> l_custom_free l = fo' \<and> l_compare_func l = co'"
      using 2 [OF lp] 2 [of q fo' co' ms] by (auto split: if_splits)
  next
    fix q r fo1 co1 ms1 fo2 co2 ms2
    assume "q \<noteq> r" "(L(lp \<mapsto> (fo, Some g, ns))) q = Some (fo1, co1, ms1)"
      "(L(lp \<mapsto> (fo, Some g, ns))) r = Some (fo2, co2, ms2)"
    then show "set (addrs ms1) \<inter> set (addrs ms2) = {}"
      using lists_okD(4) [OF L] lp by (auto split: if_splits)
  qed (use 1 lists_okD(2) [OF L] in auto)
qed

end
