(* ===== verification/Graph.thy ===== *)
theory Graph
  imports List_Store Stack Queue
begin

text \<open>
  DSA/adjacency_list/src/adjacency_list.c: graphs as a list of nodes, each with a list of edges.
  The graph object is passed as a value (\<open>None\<close> is a NULL \<open>graph_t *\<close>) and returned
  updated; nodes and edges live in heaps of their own, and every list of the graph is a list object
  of the list heap, worked on by the operations of \<open>Linked_List\<close>.
\<close>

section \<open>Structs and state (adjacency_list.h)\<close>

record node_t =
  gn_data :: ptr
  gn_edge_count :: "64 word"
  gn_edge_list :: ptr

record edge_t =
  ed_node_1 :: ptr
  ed_node_2 :: ptr
  ed_weight :: "64 word"
  ed_is_directed :: bool

text \<open>
  The graph's comparison callback gets addresses of pointer cells: the address of a local variable
  that holds the data pointer searched for, and the address of a \<open>node_t\<close>, whose first member is
  its data pointer.  It is a function of the memory of such cells.
\<close>

type_synonym cell_cmp = "(ptr \<rightharpoonup> ptr) \<Rightarrow> CMP_F"

record graph_t =
  gr_node_count :: "64 word"
  gr_node_list :: ptr
  gr_custom_free :: FREE_F
  gr_custom_compare :: cell_cmp

text \<open>
  Addresses of nodes and edges count upwards from \<open>g_brk\<close>; \<open>g_plan\<close> holds the outcomes
  of the allocations made by the graph code itself.  \<open>g_released\<close> logs the data blocks released
  by \<open>custom_free(node->data)\<close>, \<open>g_acted\<close> the arguments of the traversal callback.
\<close>

record graph_heap =
  g_lists :: list_heap
  g_nodes :: "ptr \<rightharpoonup> node_t"
  g_edges :: "ptr \<rightharpoonup> edge_t"
  g_stack :: stack_heap
  g_queue :: queue_heap
  g_brk :: ptr
  g_plan :: alloc_plan
  g_released :: "ptr list"
  g_acted :: "ptr list"

definition MAX_STACK_SIZE :: "32 word" where "MAX_STACK_SIZE = 2000"

section \<open>Calls into the containers\<close>

text \<open>
  The freeing callbacks of the containers are called on \<open>node_t\<close> pointers here, so the blocks
  they release are nodes of the graph; releasing one that is not allocated is a double free.
\<close>

fun free_all :: "(ptr \<rightharpoonup> 'a) \<Rightarrow> ptr list \<Rightarrow> (ptr \<rightharpoonup> 'a) option" where
  "free_all N [] = Some N"
| "free_all N (p # ps) = do { N \<leftarrow> free_at N p; free_all N ps }"

definition on_lists :: "(list_heap \<Rightarrow> ('r \<times> list_heap) option) \<Rightarrow> graph_heap \<Rightarrow> ('r \<times> graph_heap) option" where
  "on_lists f H =
     do {
       (r, h) \<leftarrow> f (g_lists H);
       N \<leftarrow> free_all (g_nodes H) (drop (length (released (g_lists H))) (released h));
       Some (r, H\<lparr>g_lists := h, g_nodes := N\<rparr>) }"

definition on_stack :: "(stack_heap \<Rightarrow> ('r \<times> stack_t option \<times> stack_heap) option) \<Rightarrow> graph_heap \<Rightarrow>
    ('r \<times> stack_t option \<times> graph_heap) option" where
  "on_stack f H =
     do {
       (r, s, h) \<leftarrow> f (g_stack H);
       N \<leftarrow> free_all (g_nodes H) (drop (length (s_released (g_stack H))) (s_released h));
       Some (r, s, H\<lparr>g_stack := h, g_nodes := N\<rparr>) }"

text \<open>A call into the queue that blocks never returns here: no other thread uses this queue.\<close>

definition on_queue :: "(queue_heap \<Rightarrow> ('r outcome \<times> queue_t option \<times> queue_heap) option) \<Rightarrow> graph_heap \<Rightarrow>
    ('r \<times> queue_t option \<times> graph_heap) option" where
  "on_queue f H =
     do {
       (r, q, h) \<leftarrow> f (g_queue H);
       N \<leftarrow> free_all (g_nodes H) (drop (length (q_released (g_queue H))) (q_released h));
       (case r of
          Blocked \<Rightarrow> None
        | Returned x \<Rightarrow> Some (x, q, H\<lparr>g_queue := h, g_nodes := N\<rparr>)) }"

definition delete_list :: "ptr \<Rightarrow> list_heap \<Rightarrow> ((int \<times> ptr) \<times> list_heap) option" where
  "delete_list lp h = do { (c, p, h) \<leftarrow> list_delete (Some lp) h; p \<leftarrow> p; Some ((c, p), h) }"

definition calloc_gnode :: "graph_heap \<Rightarrow> ptr \<times> graph_heap" where
  "calloc_gnode H =
     (if alloc_fails (g_plan H) then (NULL, H\<lparr>g_plan := alloc_rest (g_plan H)\<rparr>)
      else (g_brk H, H\<lparr>g_nodes := (g_nodes H)(g_brk H \<mapsto> \<lparr>gn_data = NULL, gn_edge_count = 0, gn_edge_list = NULL\<rparr>),
                        g_brk := Suc (g_brk H), g_plan := alloc_rest (g_plan H)\<rparr>))"

definition calloc_edge :: "graph_heap \<Rightarrow> ptr \<times> graph_heap" where
  "calloc_edge H =
     (if alloc_fails (g_plan H) then (NULL, H\<lparr>g_plan := alloc_rest (g_plan H)\<rparr>)
      else (g_brk H, H\<lparr>g_edges := (g_edges H)(g_brk H \<mapsto>
                          \<lparr>ed_node_1 = NULL, ed_node_2 = NULL, ed_weight = 0, ed_is_directed = False\<rparr>),
                        g_brk := Suc (g_brk H), g_plan := alloc_rest (g_plan H)\<rparr>))"

definition write_gnode :: "ptr \<Rightarrow> (node_t \<Rightarrow> node_t) \<Rightarrow> graph_heap \<Rightarrow> graph_heap option" where
  "write_gnode p f H = do { N \<leftarrow> update_at (g_nodes H) p f; Some (H\<lparr>g_nodes := N\<rparr>) }"

definition write_edge :: "ptr \<Rightarrow> (edge_t \<Rightarrow> edge_t) \<Rightarrow> graph_heap \<Rightarrow> graph_heap option" where
  "write_edge p f H = do { E \<leftarrow> update_at (g_edges H) p f; Some (H\<lparr>g_edges := E\<rparr>) }"

definition read_gnode :: "ptr \<Rightarrow> graph_heap \<Rightarrow> node_t option" where
  "read_gnode p H = deref (g_nodes H) p"

definition read_edge :: "ptr \<Rightarrow> graph_heap \<Rightarrow> edge_t option" where
  "read_edge p H = deref (g_edges H) p"

definition free_gnode :: "ptr \<Rightarrow> graph_heap \<Rightarrow> graph_heap option" where
  "free_gnode p H = (if p = NULL then Some H else do { N \<leftarrow> free_at (g_nodes H) p; Some (H\<lparr>g_nodes := N\<rparr>) })"

definition free_edge :: "ptr \<Rightarrow> graph_heap \<Rightarrow> graph_heap option" where
  "free_edge p H = (if p = NULL then Some H else do { E \<leftarrow> free_at (g_edges H) p; Some (H\<lparr>g_edges := E\<rparr>) })"

abbreviation add_edge_count :: "ptr \<Rightarrow> 64 word \<Rightarrow> graph_heap \<Rightarrow> graph_heap option" where
  "add_edge_count p v \<equiv> write_gnode p (\<lambda>n. n\<lparr>gn_edge_count := gn_edge_count n + v\<rparr>)"

text \<open>The pointer cells: one per node, and the local variable at \<open>slot\<close>.\<close>

definition cells :: "graph_heap \<Rightarrow> ptr \<Rightarrow> ptr \<Rightarrow> ptr \<rightharpoonup> ptr" where
  "cells H slot data p = (if p = slot then Some data else map_option gn_data (g_nodes H p))"

definition node_cells :: "graph_heap \<Rightarrow> ptr \<rightharpoonup> ptr" where
  "node_cells H p = map_option gn_data (g_nodes H p)"

section \<open>Callbacks of the edge lists\<close>

definition edge_list_free :: FREE_F where
  "edge_list_free data = []"

definition edge_compare :: "(ptr \<rightharpoonup> edge_t) \<Rightarrow> CMP_F" where
  "edge_compare E edge_ptr_a edge_ptr_b =
     do {
       edge_a \<leftarrow> deref E edge_ptr_a;
       edge_b \<leftarrow> deref E edge_ptr_b;
       Some (if ed_node_1 edge_a = ed_node_1 edge_b \<and> ed_node_2 edge_a = ed_node_2 edge_b \<or>
                ed_node_1 edge_a = ed_node_2 edge_b \<and> ed_node_2 edge_a = ed_node_1 edge_b \<and>
                \<not> ed_is_directed edge_a
             then EQUAL else NOT_EQUAL) }"

section \<open>Nodes\<close>

definition graph_create :: "FREE_F option \<Rightarrow> cell_cmp option \<Rightarrow> graph_heap \<Rightarrow> (graph_t option \<times> graph_heap) option" where
  "graph_create custom_free custom_compare H =
     (case (custom_free, custom_compare) of
        (Some f, Some c) \<Rightarrow>
          if alloc_fails (g_plan H) then Some (None, H\<lparr>g_plan := alloc_rest (g_plan H)\<rparr>)
          else do {
            let H = H\<lparr>g_plan := alloc_rest (g_plan H)\<rparr>;
            (node_list, H) \<leftarrow> on_lists (list_new (Some f) (Some (c (node_cells H)))) H;
            if node_list = NULL then Some (None, H)
            else Some (Some \<lparr>gr_node_count = 0, gr_node_list = node_list,
                             gr_custom_free = f, gr_custom_compare = c\<rparr>, H) }
      | _ \<Rightarrow> Some (None, H))"

definition graph_create_node :: "ptr \<Rightarrow> graph_heap \<Rightarrow> (ptr \<times> graph_heap) option" where
  "graph_create_node data H =
     (if data = NULL then Some (NULL, H)
      else do {
        let (new_node, H) = calloc_gnode H;
        if new_node = NULL then Some (NULL, H)
        else do {
          H \<leftarrow> write_gnode new_node (\<lambda>n. n\<lparr>gn_data := data, gn_edge_count := 0\<rparr>) H;
          (edge_list, H) \<leftarrow> on_lists (list_new (Some edge_list_free) (Some (edge_compare (g_edges H)))) H;
          H \<leftarrow> write_gnode new_node (\<lambda>n. n\<lparr>gn_edge_list := edge_list\<rparr>) H;
          if edge_list = NULL then do { H \<leftarrow> free_gnode new_node H; Some (NULL, H) }
          else Some (new_node, H) } })"

definition graph_add_node :: "graph_t option \<Rightarrow> ptr \<Rightarrow> graph_heap \<Rightarrow> (int \<times> graph_t option \<times> graph_heap) option" where
  "graph_add_node graph data H =
     (case graph of
        None \<Rightarrow> Some (E_FAILURE, graph, H)
      | Some g \<Rightarrow>
          if data = NULL then Some (E_FAILURE, graph, H)
          else do {
            (node, H) \<leftarrow> graph_create_node data H;
            if node = NULL then Some (E_FAILURE, graph, H)
            else do {
              (exit_code, H) \<leftarrow> on_lists (list_push_head (gr_node_list g) node) H;
              if exit_code \<noteq> E_SUCCESS then do { H \<leftarrow> free_gnode node H; Some (exit_code, graph, H) }
              else Some (E_SUCCESS, Some (g\<lparr>gr_node_count := gr_node_count g + 1\<rparr>), H) } })"

text \<open>The local variable whose address is passed sits at an address that is not allocated.\<close>

definition graph_find_node :: "graph_t option \<Rightarrow> ptr \<Rightarrow> graph_heap \<Rightarrow> ptr option" where
  "graph_find_node graph data H =
     (case graph of
        None \<Rightarrow> Some NULL
      | Some g \<Rightarrow>
          if data = NULL then Some NULL
          else do {
            let slot = g_brk H;
            let h = retie (gr_node_list g) (gr_custom_compare g (cells H slot data)) (g_lists H);
            list_node \<leftarrow> list_find_first_occurrence (gr_node_list g) slot h;
            if list_node = NULL then Some NULL
            else do { n \<leftarrow> read_node list_node h; Some (n_data n) } })"

section \<open>Edges\<close>

text \<open>When no edge matches, the loop ends with the last edge of the list, not with NULL.\<close>

partial_function (option) find_edge_loop :: "graph_heap \<Rightarrow> ptr \<Rightarrow> ptr \<Rightarrow> ptr \<Rightarrow> ptr \<Rightarrow> ptr option" where
  "find_edge_loop H node_1 node_2 current edge =
     (if current = NULL then Some edge
      else do {
        c \<leftarrow> read_node current (g_lists H);
        let edge = n_data c;
        ed \<leftarrow> read_edge edge H;
        if ed_node_1 ed = node_1 \<and> ed_node_2 ed = node_2 \<or>
           ed_node_1 ed = node_2 \<and> ed_node_2 ed = node_1 \<and> \<not> ed_is_directed ed
        then Some edge
        else find_edge_loop H node_1 node_2 (n_next c) edge })"

definition graph_find_edge :: "graph_t option \<Rightarrow> ptr \<Rightarrow> ptr \<Rightarrow> graph_heap \<Rightarrow> ptr option" where
  "graph_find_edge graph node_1 node_2 H =
     (if graph = None \<or> node_1 = NULL \<or> node_2 = NULL then Some NULL
      else do {
        n \<leftarrow> read_gnode node_1 H;
        if gn_edge_list n = NULL then Some NULL
        else do {
          l \<leftarrow> read_list (gn_edge_list n) (g_lists H);
          find_edge_loop H node_1 node_2 (l_head l) NULL } })"

text \<open>\<open>list_push_head(node->edge_list, edge)\<close> and \<open>list_remove_data(node->edge_list, edge)\<close>.\<close>

definition push_edge :: "ptr \<Rightarrow> ptr \<Rightarrow> graph_heap \<Rightarrow> (int \<times> graph_heap) option" where
  "push_edge node edge H =
     do { n \<leftarrow> read_gnode node H; on_lists (list_push_head (gn_edge_list n) edge) H }"

definition drop_edge :: "ptr \<Rightarrow> ptr \<Rightarrow> graph_heap \<Rightarrow> (int \<times> graph_heap) option" where
  "drop_edge node edge H =
     do {
       n \<leftarrow> read_gnode node H;
       on_lists (\<lambda>h. list_remove_data (gn_edge_list n) edge
                      (retie (gn_edge_list n) (edge_compare (g_edges H)) h)) H }"

definition graph_add_edge ::
  "graph_t option \<Rightarrow> ptr \<Rightarrow> ptr \<Rightarrow> 64 word \<Rightarrow> bool \<Rightarrow> graph_heap \<Rightarrow> (int \<times> graph_heap) option" where
  "graph_add_edge graph data_1 data_2 weight is_bidirectional H =
     (if graph = None \<or> data_1 = NULL \<or> data_2 = NULL then Some (E_FAILURE, H)
      else do {
        node_1 \<leftarrow> graph_find_node graph data_1 H;
        if node_1 = NULL then Some (E_FAILURE, H)
        else do {
          node_2 \<leftarrow> graph_find_node graph data_2 H;
          if node_2 = NULL then Some (E_FAILURE, H)
          else do {
            let (edge, H) = calloc_edge H;
            if edge = NULL then Some (E_FAILURE, H)
            else do {
              H \<leftarrow> write_edge edge (\<lambda>_. \<lparr>ed_node_1 = node_1, ed_node_2 = node_2, ed_weight = weight,
                                        ed_is_directed = (\<not> is_bidirectional)\<rparr>) H;
              (exit_code, H) \<leftarrow> push_edge node_1 edge H;
              if exit_code \<noteq> E_SUCCESS
              then do { H \<leftarrow> free_edge edge H; Some (exit_code, H) }
              else do {
                H \<leftarrow> add_edge_count node_1 1 H;
                if is_bidirectional
                then do {
                  (exit_code, H) \<leftarrow> push_edge node_2 edge H;
                  if exit_code \<noteq> E_SUCCESS
                  then do {
                    (_, H) \<leftarrow> drop_edge node_1 edge H;
                    H \<leftarrow> add_edge_count node_1 (- 1) H;
                    H \<leftarrow> free_edge edge H;
                    Some (exit_code, H) }
                  else do {
                    H \<leftarrow> add_edge_count node_2 1 H;
                    Some (E_SUCCESS, H) } }
                else Some (E_SUCCESS, H) } } } } })"

definition graph_remove_edge ::
  "graph_t option \<Rightarrow> ptr \<Rightarrow> ptr \<Rightarrow> graph_heap \<Rightarrow> (int \<times> graph_heap) option" where
  "graph_remove_edge graph data_1 data_2 H =
     (if graph = None \<or> data_1 = NULL \<or> data_2 = NULL then Some (E_FAILURE, H)
      else do {
        node_1 \<leftarrow> graph_find_node graph data_1 H;
        if node_1 = NULL then Some (E_FAILURE, H)
        else do {
          node_2 \<leftarrow> graph_find_node graph data_2 H;
          if node_2 = NULL then Some (E_FAILURE, H)
          else do {
            edge \<leftarrow> graph_find_edge graph node_1 node_2 H;
            if edge = NULL then Some (E_FAILURE, H)
            else do {
              (exit_code, H) \<leftarrow> drop_edge node_1 edge H;
              if exit_code \<noteq> E_SUCCESS then Some (exit_code, H)
              else do {
                H \<leftarrow> add_edge_count node_1 (- 1) H;
                ed \<leftarrow> read_edge edge H;
                if \<not> ed_is_directed ed
                then do {
                  (exit_code, H) \<leftarrow> drop_edge node_2 edge H;
                  if exit_code \<noteq> E_SUCCESS
                  then do {
                    (_, H) \<leftarrow> push_edge node_1 edge H;
                    H \<leftarrow> add_edge_count node_1 1 H;
                    Some (exit_code, H) }
                  else do {
                    H \<leftarrow> add_edge_count node_2 (- 1) H;
                    H \<leftarrow> free_edge edge H;
                    Some (E_SUCCESS, H) } }
                else do {
                  H \<leftarrow> free_edge edge H;
                  Some (E_SUCCESS, H) } } } } } })"

section \<open>Removing a node\<close>

text \<open>\<open>collect_edges\<close> returns the array, or \<open>None\<close> for NULL, and the number of edges; \<open>calloc\<close>
  of no elements may return NULL too, which is an outcome of the allocation plan.\<close>

fun collect_loop :: "nat \<Rightarrow> list_heap \<Rightarrow> ptr \<Rightarrow> int \<Rightarrow> ptr list \<Rightarrow> ptr list option" where
  "collect_loop 0 h current index edge_list = Some edge_list"
| "collect_loop (Suc k) h current index edge_list =
     (if current = NULL then Some edge_list
      else do {
        c \<leftarrow> read_node current h;
        edge_list \<leftarrow> arr_set edge_list index (n_data c);
        collect_loop k h (n_next c) (index + 1) edge_list })"

definition collect_edges :: "ptr \<Rightarrow> graph_heap \<Rightarrow> (ptr list option \<times> 32 word \<times> graph_heap) option" where
  "collect_edges node H =
     (if node = NULL then Some (None, 0, H)
      else do {
        n \<leftarrow> read_gnode node H;
        if gn_edge_list n = NULL then Some (None, 0, H)
        else do {
          l \<leftarrow> read_list (gn_edge_list n) (g_lists H);
          let num_edges = l_size l;
          if alloc_fails (g_plan H) then Some (None, num_edges, H\<lparr>g_plan := alloc_rest (g_plan H)\<rparr>)
          else do {
            let H = H\<lparr>g_plan := alloc_rest (g_plan H)\<rparr>;
            edge_list \<leftarrow> collect_loop (unat num_edges) (g_lists H) (l_head l) 0 (replicate (unat num_edges) NULL);
            Some (Some edge_list, num_edges, H) } } })"

text \<open>A NULL entry ends the loop with the exit code of the removal before it.\<close>

fun remove_edges_loop :: "nat \<Rightarrow> graph_t option \<Rightarrow> ptr list \<Rightarrow> int \<Rightarrow> int \<Rightarrow> graph_heap \<Rightarrow> (int \<times> graph_heap) option" where
  "remove_edges_loop 0 graph edges idx exit_code H = Some (E_SUCCESS, H)"
| "remove_edges_loop (Suc k) graph edges idx exit_code H =
     do {
       edge \<leftarrow> arr_get edges idx;
       if edge = NULL then Some (exit_code, H)
       else do {
         ed \<leftarrow> read_edge edge H;
         if ed_node_1 ed = NULL \<or> ed_node_2 ed = NULL then Some (exit_code, H)
         else do {
           n1 \<leftarrow> read_gnode (ed_node_1 ed) H;
           n2 \<leftarrow> read_gnode (ed_node_2 ed) H;
           (exit_code, H) \<leftarrow> graph_remove_edge graph (gn_data n1) (gn_data n2) H;
           if exit_code \<noteq> E_SUCCESS then Some (exit_code, H)
           else remove_edges_loop k graph edges (idx + 1) exit_code H } } }"

definition remove_edges :: "graph_t option \<Rightarrow> ptr list option \<Rightarrow> nat \<Rightarrow> graph_heap \<Rightarrow> (int \<times> graph_heap) option" where
  "remove_edges graph edges_to_remove num_edges H =
     (case edges_to_remove of
        None \<Rightarrow> Some (E_FAILURE, H)
      | Some edges \<Rightarrow>
          if graph = None then Some (E_FAILURE, H)
          else remove_edges_loop num_edges graph edges 0 E_FAILURE H)"

definition cleanup_node :: "graph_t option \<Rightarrow> ptr \<Rightarrow> graph_heap \<Rightarrow> graph_heap option" where
  "cleanup_node graph node H =
     (case graph of
        None \<Rightarrow> Some H
      | Some g \<Rightarrow>
          if node = NULL then Some H
          else do {
            n \<leftarrow> read_gnode node H;
            let H = H\<lparr>g_released := g_released H @ gr_custom_free g (gn_data n)\<rparr>;
            H \<leftarrow> write_gnode node (\<lambda>n. n\<lparr>gn_data := NULL, gn_edge_count := 0\<rparr>) H;
            ((_, edge_list), H) \<leftarrow> on_lists (delete_list (gn_edge_list n)) H;
            H \<leftarrow> write_gnode node (\<lambda>n. n\<lparr>gn_edge_list := edge_list\<rparr>) H;
            free_gnode node H })"

definition graph_remove_node :: "graph_t option \<Rightarrow> ptr \<Rightarrow> graph_heap \<Rightarrow> (int \<times> graph_t option \<times> graph_heap) option" where
  "graph_remove_node graph data H =
     (case graph of
        None \<Rightarrow> Some (E_FAILURE, graph, H)
      | Some g \<Rightarrow>
          if data = NULL then Some (E_FAILURE, graph, H)
          else do {
            node \<leftarrow> graph_find_node graph data H;
            if node = NULL then Some (E_FAILURE, graph, H)
            else do {
              (edges_to_remove, num_edges, H) \<leftarrow> collect_edges node H;
              if edges_to_remove = None then Some (E_FAILURE, graph, H)
              else do {
                (exit_code, H) \<leftarrow> remove_edges graph edges_to_remove (unat num_edges) H;
                if exit_code \<noteq> E_SUCCESS then Some (exit_code, graph, H)
                else do {
                  (exit_code, H) \<leftarrow> on_lists (\<lambda>h. list_remove_data (gr_node_list g) node
                     (retie (gr_node_list g) (gr_custom_compare g (node_cells H)) h)) H;
                  if exit_code \<noteq> E_SUCCESS then Some (exit_code, graph, H)
                  else do {
                    let g = g\<lparr>gr_node_count := gr_node_count g - 1\<rparr>;
                    H \<leftarrow> cleanup_node (Some g) node H;
                    Some (E_SUCCESS, Some g, H) } } } } })"

section \<open>Size, printing, clearing and destroying\<close>

definition graph_get_size :: "graph_t option \<Rightarrow> 64 word" where
  "graph_get_size graph = (case graph of None \<Rightarrow> 0 | Some g \<Rightarrow> gr_node_count g)"

text \<open>What \<open>graph_print\<close> prints: the data given to the printing callback and the edge count, per node.\<close>

partial_function (option) print_loop :: "graph_heap \<Rightarrow> ptr \<Rightarrow> (ptr \<times> 64 word) list option" where
  "print_loop H current =
     (if current = NULL then Some []
      else do {
        c \<leftarrow> read_node current (g_lists H);
        graph_node \<leftarrow> read_gnode (n_data c) H;
        rest \<leftarrow> print_loop H (n_next c);
        Some ((gn_data graph_node, gn_edge_count graph_node) # rest) })"

definition graph_print :: "graph_t option \<Rightarrow> bool \<Rightarrow> graph_heap \<Rightarrow> (ptr \<times> 64 word) list option" where
  "graph_print graph custom_print_is_NULL H =
     (case graph of
        None \<Rightarrow> Some []
      | Some g \<Rightarrow>
          if custom_print_is_NULL then Some []
          else do { l \<leftarrow> read_list (gr_node_list g) (g_lists H); print_loop H (l_head l) })"

partial_function (option) clear_nodes_loop :: "graph_t option \<Rightarrow> ptr \<Rightarrow> graph_heap \<Rightarrow> graph_heap option" where
  "clear_nodes_loop graph current H =
     (if current = NULL then Some H
      else do {
        c \<leftarrow> read_node current (g_lists H);
        H \<leftarrow> cleanup_node graph (n_data c) H;
        clear_nodes_loop graph (n_next c) H })"

definition graph_clear :: "graph_t option \<Rightarrow> graph_heap \<Rightarrow> (int \<times> graph_t option \<times> graph_heap) option" where
  "graph_clear graph H =
     (case graph of
        None \<Rightarrow> Some (E_FAILURE, graph, H)
      | Some g \<Rightarrow> do {
          l \<leftarrow> read_list (gr_node_list g) (g_lists H);
          H \<leftarrow> clear_nodes_loop graph (l_head l) H;
          ((exit_code, node_list), H) \<leftarrow> on_lists (delete_list (gr_node_list g)) H;
          let g = g\<lparr>gr_node_list := node_list\<rparr>;
          if exit_code \<noteq> E_SUCCESS then Some (exit_code, Some g, H)
          else Some (E_SUCCESS, Some (g\<lparr>gr_node_list := NULL, gr_node_count := 0\<rparr>), H) })"

text \<open>\<open>graph_destroy\<close> takes the address of the caller's pointer, which it sets to NULL.\<close>

definition graph_destroy :: "graph_t option \<Rightarrow> graph_heap \<Rightarrow> (int \<times> graph_t option \<times> graph_heap) option" where
  "graph_destroy graph H =
     (if graph = None then Some (E_FAILURE, graph, H)
      else do {
        (exit_code, graph, H) \<leftarrow> graph_clear graph H;
        if exit_code \<noteq> E_SUCCESS then Some (exit_code, graph, H)
        else Some (exit_code, None, H) })"

section \<open>Operations that are not implemented\<close>

text \<open>The bodies ignore their arguments and return a constant.\<close>

definition graph_dijkstra :: "graph_t option \<Rightarrow> ptr \<Rightarrow> ptr \<Rightarrow> int" where
  "graph_dijkstra graph start_data end_data = - 1"

definition graph_a_star :: "graph_t option \<Rightarrow> ptr \<Rightarrow> ptr \<Rightarrow> int" where
  "graph_a_star graph start_data end_data = - 1"

definition graph_floyd_warshall :: "graph_t option \<Rightarrow> int" where
  "graph_floyd_warshall graph = - 1"

definition graph_is_connected :: "graph_t option \<Rightarrow> int" where
  "graph_is_connected graph = E_FAILURE"

definition graph_is_cyclic :: "graph_t option \<Rightarrow> int" where
  "graph_is_cyclic graph = E_FAILURE"

definition graph_find_connected_components :: "graph_t option \<Rightarrow> ptr" where
  "graph_find_connected_components graph = NULL"

definition graph_node_degree :: "graph_t option \<Rightarrow> ptr \<Rightarrow> int" where
  "graph_node_degree graph data = E_FAILURE"

definition graph_get_adjacent_nodes :: "graph_t option \<Rightarrow> ptr \<Rightarrow> ptr" where
  "graph_get_adjacent_nodes graph data = NULL"

definition graph_edge_exists :: "graph_t option \<Rightarrow> ptr \<Rightarrow> ptr \<Rightarrow> bool" where
  "graph_edge_exists graph data_1 data_2 = False"

definition graph_get_edge_weight :: "graph_t option \<Rightarrow> ptr \<Rightarrow> ptr \<Rightarrow> 64 word" where
  "graph_get_edge_weight graph data_1 data_2 = - 1"

definition graph_clone :: "graph_t option \<Rightarrow> graph_t option" where
  "graph_clone graph = None"

lemmas [code] = find_node_loop.simps contains_loop.simps clear_loop.simps stack_clear_loop.simps queue_clear_loop.simps

lemmas [code] = find_edge_loop.simps print_loop.simps clear_nodes_loop.simps

end
