(* ===== verification/Graph_Rep.thy ===== *)
theory Graph_Rep
  imports Graph
begin

text \<open>
  When a graph is well formed, and what the operations on nodes and edges do to a well-formed graph.
  \<open>graph_rep H g V A\<close>: the graph \<open>g\<close> has the nodes \<open>V\<close> (addresses, newest first), and
  \<open>A v\<close> are the edges in the edge list of \<open>v\<close>.
\<close>

section \<open>Well-formed graphs\<close>

definition edge_list_of :: "graph_heap \<Rightarrow> ptr \<Rightarrow> ptr" where
  "edge_list_of H v = (case g_nodes H v of None \<Rightarrow> NULL | Some n \<Rightarrow> gn_edge_list n)"

definition data_of :: "graph_heap \<Rightarrow> ptr \<Rightarrow> ptr" where
  "data_of H v = (case g_nodes H v of None \<Rightarrow> NULL | Some n \<Rightarrow> gn_data n)"

definition node_ok :: "graph_heap \<Rightarrow> list_store \<Rightarrow> (ptr \<Rightarrow> ptr list) \<Rightarrow> ptr \<Rightarrow> bool" where
  "node_ok H L A v \<longleftrightarrow> v \<noteq> NULL \<and>
     (\<exists>n co ns. g_nodes H v = Some n \<and> gn_data n \<noteq> NULL \<and>
        L (gn_edge_list n) = Some (Some edge_list_free, co, ns) \<and> datas ns = A v \<and>
        gn_edge_count n = of_nat (length (A v)))"

text \<open>How many times an edge belongs into the edge list of a node: a bidirectional loop twice.\<close>

definition incidence :: "edge_t \<Rightarrow> ptr \<Rightarrow> nat" where
  "incidence ed v =
     (if ed_node_1 ed = v then 1 else 0) + (if ed_node_2 ed = v \<and> \<not> ed_is_directed ed then 1 else 0)"

definition edge_ok :: "graph_heap \<Rightarrow> ptr list \<Rightarrow> (ptr \<Rightarrow> ptr list) \<Rightarrow> ptr \<Rightarrow> bool" where
  "edge_ok H V A e \<longleftrightarrow> e \<noteq> NULL \<and>
     (\<exists>ed. g_edges H e = Some ed \<and> ed_node_1 ed \<in> set V \<and> ed_node_2 ed \<in> set V \<and>
        (\<forall>v \<in> set V. count_list (A v) e = incidence ed v))"

definition graph_fresh :: "graph_heap \<Rightarrow> bool" where
  "graph_fresh H \<longleftrightarrow> 0 < g_brk H \<and> (\<forall>a. g_brk H \<le> a \<longrightarrow> g_nodes H a = None \<and> g_edges H a = None)"

text \<open>The part of the graph that the lists and counters make up, with the collection of lists named.\<close>

definition nodes_in :: "graph_heap \<Rightarrow> graph_t \<Rightarrow> list_store \<Rightarrow> ptr list \<Rightarrow> (ptr \<Rightarrow> ptr list) \<Rightarrow> bool" where
  "nodes_in H g L V A \<longleftrightarrow>
     lists_ok (g_lists H) L \<and> g_plan H = [] \<and> graph_fresh H \<and>
     (\<exists>co ns. L (gr_node_list g) = Some (Some (gr_custom_free g), co, ns) \<and> datas ns = V) \<and>
     distinct V \<and> gr_node_count g = of_nat (length V) \<and>
     inj_on (edge_list_of H) (set V) \<and> gr_node_list g \<notin> edge_list_of H ` set V \<and>
     (\<forall>v \<in> set V. node_ok H L A v)"

definition graph_rep :: "graph_heap \<Rightarrow> graph_t \<Rightarrow> ptr list \<Rightarrow> (ptr \<Rightarrow> ptr list) \<Rightarrow> bool" where
  "graph_rep H g V A \<longleftrightarrow>
     (\<exists>L. nodes_in H g L V A) \<and> (\<forall>v \<in> set V. \<forall>e \<in> set (A v). edge_ok H V A e)"

text \<open>The comparison callback decides equality of the two cells by a relation \<open>same\<close> on data
  pointers.\<close>

definition compares :: "cell_cmp \<Rightarrow> (ptr \<Rightarrow> ptr \<Rightarrow> bool) \<Rightarrow> bool" where
  "compares c same \<longleftrightarrow>
     (\<forall>M p q a b. p \<noteq> NULL \<longrightarrow> q \<noteq> NULL \<longrightarrow> M p = Some a \<longrightarrow> M q = Some b \<longrightarrow>
        (\<exists>r. c M p q = Some r \<and> (r = EQUAL \<longleftrightarrow> same a b)))"

text \<open>The node a search by data returns.\<close>

definition lookup_node :: "graph_heap \<Rightarrow> (ptr \<Rightarrow> ptr \<Rightarrow> bool) \<Rightarrow> ptr list \<Rightarrow> ptr \<Rightarrow> ptr" where
  "lookup_node H same V x = (case find (\<lambda>v. same x (data_of H v)) V of None \<Rightarrow> NULL | Some v \<Rightarrow> v)"

section \<open>Reading\<close>

lemma nodes_inD:
  assumes "nodes_in H g L V A"
  shows "lists_ok (g_lists H) L" and "g_plan H = []" and "graph_fresh H"
    and "\<exists>co ns. L (gr_node_list g) = Some (Some (gr_custom_free g), co, ns) \<and> datas ns = V"
    and "distinct V" and "gr_node_count g = of_nat (length V)" and "inj_on (edge_list_of H) (set V)"
    and "gr_node_list g \<notin> edge_list_of H ` set V" and "v \<in> set V \<Longrightarrow> node_ok H L A v"
  using assms unfolding nodes_in_def by blast+

lemma node_okE:
  assumes "node_ok H L A v"
  obtains n co ns where "v \<noteq> NULL" "g_nodes H v = Some n" "read_gnode v H = Some n" "gn_data n = data_of H v"
    "data_of H v \<noteq> NULL" "gn_edge_list n = edge_list_of H v"
    "L (edge_list_of H v) = Some (Some edge_list_free, co, ns)" "datas ns = A v"
    "gn_edge_count n = of_nat (length (A v))"
proof -
  from assms obtain n co ns where n: "v \<noteq> NULL" "g_nodes H v = Some n" "gn_data n \<noteq> NULL"
      "L (gn_edge_list n) = Some (Some edge_list_free, co, ns)" "datas ns = A v"
      "gn_edge_count n = of_nat (length (A v))"
    unfolding node_ok_def by blast
  show ?thesis by (rule that [of n co ns]) (use n in \<open>simp_all add: edge_list_of_def data_of_def read_gnode_def\<close>)
qed

lemma on_lists_quiet:
  assumes "f (g_lists H) = Some (r, h)" and "released h = released (g_lists H)"
  shows "on_lists f H = Some (r, H\<lparr>g_lists := h\<rparr>)"
  using assms by (simp add: on_lists_def)

lemma graph_find_node_rep:
  assumes N: "nodes_in H g L V A" and c: "compares (gr_custom_compare g) same" and x: "x \<noteq> NULL"
  shows "graph_find_node (Some g) x H = Some (lookup_node H same V x)"
proof -
  obtain co ns where ns: "L (gr_node_list g) = Some (Some (gr_custom_free g), co, ns)" "datas ns = V"
    using nodes_inD(4) [OF N] by blast
  let ?c = "gr_custom_compare g (cells H (g_brk H) x)"
  have slot: "g_brk H \<noteq> NULL" "g_nodes H (g_brk H) = None" using nodes_inD(3) [OF N] by (auto simp: graph_fresh_def)
  have cmp: "\<exists>r. ?c (g_brk H) v = Some r \<and> (r = EQUAL \<longleftrightarrow> same x (data_of H v))" if v: "v \<in> set V" for v
  proof -
    obtain n where n: "v \<noteq> NULL" "g_nodes H v = Some n" "gn_data n = data_of H v"
      using nodes_inD(9) [OF N v] by (rule node_okE)
    then have "cells H (g_brk H) x v = Some (data_of H v)" using slot by (auto simp: cells_def)
    moreover have "cells H (g_brk H) x (g_brk H) = Some x" by (simp add: cells_def)
    ultimately show ?thesis using c n(1) slot(1) unfolding compares_def by blast
  qed
  have t: "cmp_total_on ?c (g_brk H) (set (datas ns))"
    using cmp ns(2) by (fastforce simp: cmp_total_on_def)
  let ?h = "retie (gr_node_list g) ?c (g_lists H)"
  have L1: "lists_ok ?h (L(gr_node_list g \<mapsto> (Some (gr_custom_free g), Some ?c, ns)))"
    by (rule lists_ok_retie [OF nodes_inD(1) [OF N] ns(1)])
  have "find (\<lambda>d. ?c (g_brk H) d = Some EQUAL) V = find (\<lambda>v. same x (data_of H v)) V"
    by (rule find_cong) (use cmp in \<open>auto dest!: cmp\<close>)
  then obtain a where "list_find_first_occurrence (gr_node_list g) (g_brk H) ?h = Some a"
      "case find (\<lambda>v. same x (data_of H v)) V of None \<Rightarrow> a = NULL
       | Some d \<Rightarrow> a \<noteq> NULL \<and> (\<exists>n. read_node a ?h = Some n \<and> n_data n = d)"
    using lists_ok_find_first [OF L1, of "gr_node_list g", OF _ t] ns(2) by auto
  then show ?thesis using x by (auto simp: graph_find_node_def lookup_node_def split: option.splits)
qed

lemma lookup_node_in: "lookup_node H same V x \<noteq> NULL \<Longrightarrow> lookup_node H same V x \<in> set V"
  by (cases "find (\<lambda>v. same x (data_of H v)) V")
    (simp_all add: lookup_node_def, metis find_Some_iff nth_mem)

lemma lookup_node_cong: "(\<And>v. v \<in> set V \<Longrightarrow> data_of H' v = data_of H v) \<Longrightarrow>
    lookup_node H' same V x = lookup_node H same V x"
  unfolding lookup_node_def by (subst find_cong [of V V _ "\<lambda>v. same x (data_of H v)"]) auto

section \<open>Creating graphs and nodes\<close>

lemma graph_create_rep:
  assumes "lists_ok (g_lists H) L" and "g_plan H = []" and "graph_fresh H"
  shows "\<exists>g H'. graph_create (Some f) (Some c) H = Some (Some g, H') \<and> graph_rep H' g [] (\<lambda>_. []) \<and>
    gr_custom_free g = f \<and> gr_custom_compare g = c"
proof -
  have [simp]: "H\<lparr>g_plan := []\<rparr> = H" using assms(2) by simp
  obtain h' where h': "list_new (Some f) (Some (c (node_cells H))) (g_lists H) = Some (brk (g_lists H), h')"
      "lists_ok h' (L(brk (g_lists H) \<mapsto> (Some f, Some (c (node_cells H)), [])))"
      "released h' = released (g_lists H)" "brk (g_lists H) \<noteq> NULL"
    using lists_ok_new [OF assms(1)] by blast
  note run = on_lists_quiet [where f = "list_new (Some f) (Some (c (node_cells H)))", OF h'(1,3)]
  have "graph_fresh (H\<lparr>g_lists := h'\<rparr>)" using assms(3) by (simp add: graph_fresh_def)
  then show ?thesis using run h' assms(2)
    by (auto simp: graph_create_def graph_rep_def nodes_in_def)
qed

lemma graph_create_node_rep:
  assumes N: "nodes_in H g L V A" and d: "data \<noteq> NULL"
  shows "\<exists>h el co. graph_create_node data H = Some (g_brk H, H\<lparr>g_lists := h, g_brk := Suc (g_brk H),
      g_nodes := (g_nodes H)(g_brk H \<mapsto> \<lparr>gn_data = data, gn_edge_count = 0, gn_edge_list = el\<rparr>)\<rparr>) \<and>
    lists_ok h (L(el \<mapsto> (Some edge_list_free, co, []))) \<and> L el = None \<and> g_brk H \<noteq> NULL"
proof -
  let ?co = "edge_compare (g_edges H)"
  let ?el = "brk (g_lists H)"
  obtain h' where h': "list_new (Some edge_list_free) (Some ?co) (g_lists H) = Some (?el, h')"
      "lists_ok h' (L(?el \<mapsto> (Some edge_list_free, Some ?co, [])))"
      "released h' = released (g_lists H)" "?el \<noteq> NULL" "L ?el = None"
    using lists_ok_new [OF nodes_inD(1) [OF N]] by blast
  have b: "g_brk H \<noteq> NULL" "\<not> alloc_fails (g_plan H)" "alloc_rest (g_plan H) = g_plan H"
    using nodes_inD(2,3) [OF N] by (auto simp: graph_fresh_def)
  let ?N = "(g_nodes H)(g_brk H \<mapsto> \<lparr>gn_data = data, gn_edge_count = 0, gn_edge_list = NULL\<rparr>)"
  have "on_lists (list_new (Some edge_list_free) (Some ?co)) (H\<lparr>g_brk := Suc (g_brk H), g_nodes := ?N\<rparr>) =
      Some (?el, H\<lparr>g_brk := Suc (g_brk H), g_nodes := ?N, g_lists := h'\<rparr>)"
    by (subst on_lists_quiet [of _ _ ?el h']) (use h' in simp_all)
  then have "graph_create_node data H = Some (g_brk H, H\<lparr>g_lists := h', g_brk := Suc (g_brk H),
      g_nodes := (g_nodes H)(g_brk H \<mapsto> \<lparr>gn_data = data, gn_edge_count = 0, gn_edge_list = ?el\<rparr>)\<rparr>)"
    using b d h'(4) by (simp add: graph_create_node_def calloc_gnode_def write_gnode_def)
  with h' b(1) show ?thesis by blast
qed

lemma node_ok_mono:
  assumes "node_ok H L A v" and "g_nodes H' v = g_nodes H v" and "L' (edge_list_of H v) = L (edge_list_of H v)"
    and "A' v = A v"
  shows "node_ok H' L' A' v"
  using assms by (auto simp: node_ok_def edge_list_of_def)

text \<open>A new node comes first, with no edges.\<close>

lemma graph_add_node_rep:
  assumes R: "graph_rep H g V A" and d: "data \<noteq> NULL" and sz: "Suc (length V) < 2 ^ 32"
  shows "\<exists>v H'. graph_add_node (Some g) data H = Some (E_SUCCESS, Some (g\<lparr>gr_node_count := gr_node_count g + 1\<rparr>), H') \<and>
    graph_rep H' (g\<lparr>gr_node_count := gr_node_count g + 1\<rparr>) (v # V) (A(v := [])) \<and>
    v \<notin> set V \<and> data_of H' v = data \<and> (\<forall>w \<in> set V. data_of H' w = data_of H w) \<and>
    g_edges H' = g_edges H"
proof -
  obtain L where N: "nodes_in H g L V A" using R by (auto simp: graph_rep_def)
  obtain h el co where C: "graph_create_node data H = Some (g_brk H, H\<lparr>g_lists := h, g_brk := Suc (g_brk H),
      g_nodes := (g_nodes H)(g_brk H \<mapsto> \<lparr>gn_data = data, gn_edge_count = 0, gn_edge_list = el\<rparr>)\<rparr>)"
      "lists_ok h (L(el \<mapsto> (Some edge_list_free, co, [])))" "L el = None" "g_brk H \<noteq> NULL"
    using graph_create_node_rep [OF N d] by blast
  obtain co' ns where ns: "L (gr_node_list g) = Some (Some (gr_custom_free g), co', ns)" "datas ns = V"
    using nodes_inD(4) [OF N] by blast
  have el: "el \<noteq> gr_node_list g" using ns(1) C(3) by auto
  let ?v = "g_brk H"
  obtain h' a where h': "list_push_head (gr_node_list g) (g_brk H) h = Some (E_SUCCESS, h')"
      "lists_ok h' (L(el \<mapsto> (Some edge_list_free, co, []),
         gr_node_list g \<mapsto> (Some (gr_custom_free g), co', (a, g_brk H) # ns)))" "released h' = released h"
    using lists_ok_push_head [OF C(2), of "gr_node_list g" _ co' ns ?v] ns el C(4) sz
    by (auto simp flip: ns(2))
  let ?N = "(g_nodes H)(?v \<mapsto> \<lparr>gn_data = data, gn_edge_count = 0, gn_edge_list = el\<rparr>)"
  let ?H = "H\<lparr>g_lists := h', g_brk := Suc ?v, g_nodes := ?N\<rparr>"
  let ?g = "g\<lparr>gr_node_count := gr_node_count g + 1\<rparr>"
  have "on_lists (list_push_head (gr_node_list g) ?v) (H\<lparr>g_lists := h, g_brk := Suc ?v, g_nodes := ?N\<rparr>) =
      Some (E_SUCCESS, ?H)"
    by (subst on_lists_quiet [of _ _ E_SUCCESS h']) (use h' in simp_all)
  then have run: "graph_add_node (Some g) data H = Some (E_SUCCESS, Some ?g, ?H)"
    using C(1,4) d by (simp add: graph_add_node_def)
  have fresh: "g_nodes H ?v = None" "g_edges H ?v = None" using nodes_inD(3) [OF N] by (auto simp: graph_fresh_def)
  have vV: "?v \<notin> set V" using nodes_inD(9) [OF N, of ?v] fresh(1) by (auto simp: node_ok_def)
  have elV: "edge_list_of H w \<noteq> el" if "w \<in> set V" for w
    using nodes_inD(9) [OF N that] C(3) by (auto elim!: node_okE)
  have same: "edge_list_of ?H w = edge_list_of H w" "data_of ?H w = data_of H w" "g_nodes ?H w = g_nodes H w"
    if "w \<in> set V" for w
    using that vV by (auto simp: edge_list_of_def data_of_def)
  have own: "edge_list_of ?H ?v = el" "data_of ?H ?v = data" by (simp_all add: edge_list_of_def data_of_def)
  let ?L = "L(el \<mapsto> (Some edge_list_free, co, []), gr_node_list g \<mapsto> (Some (gr_custom_free g), co', (a, ?v) # ns))"
  have ok: "node_ok ?H ?L (A(?v := [])) w" if "w \<in> set (?v # V)" for w
  proof (cases "w = ?v")
    case True
    then show ?thesis using d el C(4) by (auto simp: node_ok_def)
  next
    case False
    then have w: "w \<in> set V" using that by simp
    then have "edge_list_of H w \<noteq> gr_node_list g" using nodes_inD(8) [OF N] by force
    then show ?thesis
      by (intro node_ok_mono [OF nodes_inD(9) [OF N w]]) (use elV [OF w] same(3) [OF w] False in auto)
  qed
  have "nodes_in ?H ?g ?L (?v # V) (A(?v := []))"
    unfolding nodes_in_def
  proof (intro conjI)
    show "inj_on (edge_list_of ?H) (set (?v # V))"
      using nodes_inD(7) [OF N] own elV same(1) vV by (auto simp: inj_on_def)
    show "gr_node_list ?g \<notin> edge_list_of ?H ` set (?v # V)"
      using nodes_inD(8) [OF N] own same(1) el by auto
  qed (use h'(2) ok nodes_inD [OF N] ns(2) vV in \<open>auto simp: graph_fresh_def\<close>)
  moreover have "edge_ok ?H (?v # V) (A(?v := [])) e" if "w \<in> set (?v # V)" "e \<in> set ((A(?v := [])) w)" for w e
  proof -
    have "edge_ok H V A e" using R that by (auto simp: graph_rep_def split: if_splits)
    then obtain ed where ed: "e \<noteq> NULL" "g_edges H e = Some ed" "ed_node_1 ed \<in> set V" "ed_node_2 ed \<in> set V"
        "\<forall>v \<in> set V. count_list (A v) e = incidence ed v"
      by (auto simp: edge_ok_def)
    moreover have "incidence ed ?v = 0" using ed(3,4) vV by (auto simp: incidence_def)
    ultimately show ?thesis using vV by (auto simp: edge_ok_def)
  qed
  ultimately have "graph_rep ?H ?g (?v # V) (A(?v := []))" unfolding graph_rep_def by blast
  with run vV own(2) same(2) show ?thesis by auto
qed

section \<open>Edges\<close>

text \<open>Putting an edge into the edge list of a node and counting it, or taking one out.\<close>

definition relink :: "graph_heap \<Rightarrow> graph_heap \<Rightarrow> bool" where
  "relink H H' \<longleftrightarrow>
     edge_list_of H' = edge_list_of H \<and> data_of H' = data_of H \<and> dom (g_nodes H') = dom (g_nodes H) \<and>
     g_edges H' = g_edges H \<and> g_plan H' = g_plan H \<and> g_brk H' = g_brk H \<and> g_stack H' = g_stack H \<and>
     g_queue H' = g_queue H \<and> g_released H' = g_released H \<and> g_acted H' = g_acted H"

lemma relink_trans: "relink H H' \<Longrightarrow> relink H' H'' \<Longrightarrow> relink H H''"
  by (simp add: relink_def)

lemma nodes_in_relist:
  assumes N: "nodes_in H g L V A" and v: "v \<in> set V" and n: "g_nodes H v = Some n"
    and L': "lists_ok h' (L(edge_list_of H v \<mapsto> (Some edge_list_free, co, ns')))"
  defines "H' \<equiv> H\<lparr>g_lists := h', g_nodes := (g_nodes H)(v \<mapsto> n\<lparr>gn_edge_count := of_nat (length ns')\<rparr>)\<rparr>"
  shows "nodes_in H' g (L(edge_list_of H v \<mapsto> (Some edge_list_free, co, ns'))) V (A(v := datas ns'))"
    and "relink H H'"
proof -
  have same: "edge_list_of H' = edge_list_of H" "data_of H' = data_of H"
    using n by (auto simp: H'_def edge_list_of_def data_of_def fun_eq_iff)
  then show "relink H H'" using n by (auto simp: relink_def H'_def)
  let ?L = "L(edge_list_of H v \<mapsto> (Some edge_list_free, co, ns'))"
  have ok: "node_ok H' ?L (A(v := datas ns')) w" if w: "w \<in> set V" for w
  proof (cases "w = v")
    case True
    obtain n1 where "v \<noteq> NULL" "g_nodes H v = Some n1" "gn_data n1 = data_of H v" "data_of H v \<noteq> NULL"
        "gn_edge_list n1 = edge_list_of H v"
      using nodes_inD(9) [OF N v] by (rule node_okE)
    then show ?thesis using True n by (auto simp: node_ok_def H'_def)
  next
    case False
    then have "edge_list_of H w \<noteq> edge_list_of H v" using nodes_inD(7) [OF N] v w by (auto simp: inj_on_def)
    then show ?thesis by (intro node_ok_mono [OF nodes_inD(9) [OF N w]]) (use False in \<open>auto simp: H'_def\<close>)
  qed
  have "gr_node_list g \<noteq> edge_list_of H v" using nodes_inD(8) [OF N] v by force
  moreover have "graph_fresh H'" using nodes_inD(3) [OF N] n by (fastforce simp: graph_fresh_def H'_def)
  ultimately show "nodes_in H' g ?L V (A(v := datas ns'))"
    unfolding nodes_in_def same using nodes_inD [OF N] L' ok by (auto simp: H'_def)
qed

lemma push_edge_rep:
  assumes N: "nodes_in H g L V A" and v: "v \<in> set V" and e: "e \<noteq> NULL" and sz: "Suc (length (A v)) < 2 ^ 32"
  shows "\<exists>H1 H2 L'. push_edge v e H = Some (E_SUCCESS, H1) \<and> add_edge_count v 1 H1 = Some H2 \<and>
    nodes_in H2 g L' V (A(v := e # A v)) \<and> relink H H2 \<and> g_edges H1 = g_edges H"
proof -
  obtain n co ns where n: "v \<noteq> NULL" "g_nodes H v = Some n" "read_gnode v H = Some n"
      "gn_edge_list n = edge_list_of H v" "L (edge_list_of H v) = Some (Some edge_list_free, co, ns)"
      "datas ns = A v" "gn_edge_count n = of_nat (length (A v))"
    using nodes_inD(9) [OF N v] by (rule node_okE)
  have len: "Suc (length ns) < 2 ^ 32" using sz n(6) by (metis length_map)
  obtain h' a where h': "list_push_head (edge_list_of H v) e (g_lists H) = Some (E_SUCCESS, h')"
      "lists_ok h' (L(edge_list_of H v \<mapsto> (Some edge_list_free, co, (a, e) # ns)))"
      "released h' = released (g_lists H)"
    using lists_ok_push_head [OF nodes_inD(1) [OF N] n(5) e len] by blast
  let ?H1 = "H\<lparr>g_lists := h'\<rparr>"
  let ?H2 = "H\<lparr>g_lists := h', g_nodes := (g_nodes H)(v \<mapsto> n\<lparr>gn_edge_count := of_nat (length ((a, e) # ns))\<rparr>)\<rparr>"
  have "push_edge v e H = Some (E_SUCCESS, ?H1)"
    using n(3,4) on_lists_quiet [where f = "list_push_head (edge_list_of H v) e", OF h'(1,3)]
    by (simp add: push_edge_def)
  moreover have "add_edge_count v 1 ?H1 = Some ?H2"
    using n(1,2,7) by (simp add: write_gnode_def add.commute flip: n(6))
  moreover note nodes_in_relist [OF N v n(2) h'(2)]
  ultimately show ?thesis using n(6) by fastforce
qed

lemma edge_compare_total:
  assumes "\<forall>e \<in> insert x D. e \<noteq> NULL \<and> E e \<noteq> None"
  shows "cmp_total_on (edge_compare E) x D"
  using assms by (fastforce simp: cmp_total_on_def edge_compare_def)

lemma drop_edge_rep:
  assumes N: "nodes_in H g L V A" and v: "v \<in> set V" and e: "e \<noteq> NULL"
    and t: "cmp_total_on (edge_compare (g_edges H)) e (set (A v))"
    and s: "A v = ds @ d # es" "edge_compare (g_edges H) e d = Some EQUAL"
      "\<forall>y \<in> set ds. edge_compare (g_edges H) e y \<noteq> Some EQUAL"
  shows "\<exists>H1 H2 L'. drop_edge v e H = Some (E_SUCCESS, H1) \<and> add_edge_count v (- 1) H1 = Some H2 \<and>
    nodes_in H2 g L' V (A(v := ds @ es)) \<and> relink H H2"
proof -
  obtain n co ns where n: "v \<noteq> NULL" "g_nodes H v = Some n" "read_gnode v H = Some n"
      "gn_edge_list n = edge_list_of H v" "L (edge_list_of H v) = Some (Some edge_list_free, co, ns)"
      "datas ns = A v" "gn_edge_count n = of_nat (length (A v))"
    using nodes_inD(9) [OF N v] by (rule node_okE)
  let ?c = "edge_compare (g_edges H)"
  let ?h = "retie (edge_list_of H v) ?c (g_lists H)"
  have L1: "lists_ok ?h (L(edge_list_of H v \<mapsto> (Some edge_list_free, Some ?c, ns)))"
    by (rule lists_ok_retie [OF nodes_inD(1) [OF N] n(5)])
  obtain h' ns' where h': "list_remove_data (edge_list_of H v) e ?h = Some (E_SUCCESS, h')"
      "lists_ok h' (L(edge_list_of H v \<mapsto> (Some edge_list_free, Some ?c, ns')))" "datas ns' = ds @ es"
      "released h' = released (g_lists H)"
    using lists_ok_remove_data [OF L1 _ e, of "edge_list_of H v" _ ?c ns ds d es] t s n(6)
    by (auto simp: edge_list_free_def)
  let ?H1 = "H\<lparr>g_lists := h'\<rparr>"
  let ?H2 = "H\<lparr>g_lists := h', g_nodes := (g_nodes H)(v \<mapsto> n\<lparr>gn_edge_count := of_nat (length ns')\<rparr>)\<rparr>"
  have "drop_edge v e H = Some (E_SUCCESS, ?H1)"
    using n(3,4) on_lists_quiet [where f = "\<lambda>h. list_remove_data (edge_list_of H v) e (retie (edge_list_of H v) ?c h)", OF h'(1,4)]
    by (simp add: drop_edge_def)
  moreover have "length (A v) = Suc (length ns')" using s(1) arg_cong [OF h'(3), of length] by simp
  then have "add_edge_count v (- 1) ?H1 = Some ?H2"
    using n(1,2,7) by (simp add: write_gnode_def)
  moreover note nodes_in_relist [OF N v n(2) h'(2)]
  ultimately show ?thesis using h'(3) by fastforce
qed

end
