(* ===== verification/Graph_Edges.thy ===== *)
theory Graph_Edges
  imports Graph_Rep
begin

text \<open>
  What \<open>graph_add_edge\<close> and \<open>graph_remove_edge\<close> do to a well-formed graph.
\<close>

section \<open>Adding an edge\<close>

definition link_edge :: "(ptr \<Rightarrow> ptr list) \<Rightarrow> ptr \<Rightarrow> ptr \<Rightarrow> bool \<Rightarrow> ptr \<Rightarrow> ptr \<Rightarrow> ptr list" where
  "link_edge A v1 v2 bi e =
     (let A1 = A(v1 := e # A v1) in if bi then A1(v2 := e # A1 v2) else A1)"

lemma link_edge_count:
  "e' \<noteq> e \<Longrightarrow> count_list (link_edge A v1 v2 bi e v) e' = count_list (A v) e'"
  "e \<notin> set (A v) \<Longrightarrow> count_list (link_edge A v1 v2 bi e v) e =
     incidence \<lparr>ed_node_1 = v1, ed_node_2 = v2, ed_weight = w, ed_is_directed = (\<not> bi)\<rparr> v"
  by (auto simp: link_edge_def incidence_def Let_def count_list_0_iff)

lemma link_edge_set: "set (link_edge A v1 v2 bi e v) \<subseteq> insert e (set (A v))"
  by (auto simp: link_edge_def Let_def)

lemma graph_rep_edge:
  assumes "graph_rep H g V A" and "v \<in> set V" and "e \<in> set (A v)"
  obtains ed where "e \<noteq> NULL" "g_edges H e = Some ed" "ed_node_1 ed \<in> set V" "ed_node_2 ed \<in> set V"
    "\<And>v. v \<in> set V \<Longrightarrow> count_list (A v) e = incidence ed v"
  using assms unfolding graph_rep_def edge_ok_def by blast

lemma graph_rep_link:
  assumes R: "graph_rep H g V A" and N: "nodes_in H' g L V (link_edge A v1 v2 bi e)"
    and E: "g_edges H' = (g_edges H)(e \<mapsto> ed)"
    and ed: "ed = \<lparr>ed_node_1 = v1, ed_node_2 = v2, ed_weight = w, ed_is_directed = (\<not> bi)\<rparr>"
    and e: "e \<noteq> NULL" "g_edges H e = None" and v: "v1 \<in> set V" "v2 \<in> set V"
  shows "graph_rep H' g V (link_edge A v1 v2 bi e)"
proof -
  have new: "e \<notin> set (A v)" if "v \<in> set V" for v
  proof
    assume "e \<in> set (A v)"
    with R that e(2) show False by (metis graph_rep_edge option.distinct(1))
  qed
  have "edge_ok H' V (link_edge A v1 v2 bi e) e" unfolding edge_ok_def
    using e(1) E ed v link_edge_count(2) [OF new] by simp
  moreover have "edge_ok H' V (link_edge A v1 v2 bi e) x" if x: "v \<in> set V" "x \<in> set (A v)" for v x
  proof -
    obtain xd where xd: "x \<noteq> NULL" "g_edges H x = Some xd" "ed_node_1 xd \<in> set V" "ed_node_2 xd \<in> set V"
      "\<And>v. v \<in> set V \<Longrightarrow> count_list (A v) x = incidence xd v"
      by (rule graph_rep_edge [OF R x]) blast
    have "x \<noteq> e" using xd(2) e(2) by auto
    then show ?thesis using xd E link_edge_count(1) [of x e] by (auto simp: edge_ok_def)
  qed
  ultimately have "edge_ok H' V (link_edge A v1 v2 bi e) x"
    if "v \<in> set V" "x \<in> set (link_edge A v1 v2 bi e v)" for v x
    using that link_edge_set [of A v1 v2 bi e v] by blast
  with N show ?thesis unfolding graph_rep_def by blast
qed

lemma nodes_in_new_edge:
  assumes N: "nodes_in H g L V A"
  shows "nodes_in (H\<lparr>g_brk := Suc (g_brk H), g_edges := (g_edges H)(g_brk H \<mapsto> ed)\<rparr>) g L V A"
proof -
  let ?H = "H\<lparr>g_brk := Suc (g_brk H), g_edges := (g_edges H)(g_brk H \<mapsto> ed)\<rparr>"
  have same: "edge_list_of ?H = edge_list_of H" by (simp add: edge_list_of_def fun_eq_iff)
  have "node_ok ?H L A v \<longleftrightarrow> node_ok H L A v" for v by (simp add: node_ok_def)
  then show ?thesis using N by (auto simp: nodes_in_def same graph_fresh_def)
qed

lemma graph_add_edge_rep:
  assumes R: "graph_rep H g V A" and c: "compares (gr_custom_compare g) same"
    and d: "data_1 \<noteq> NULL" "data_2 \<noteq> NULL"
    and v1: "lookup_node H same V data_1 = v1" "v1 \<noteq> NULL"
    and v2: "lookup_node H same V data_2 = v2" "v2 \<noteq> NULL"
    and sz: "Suc (Suc (length (A v1))) < 2 ^ 32" "Suc (length (A v2)) < 2 ^ 32"
  shows "\<exists>e H'. graph_add_edge (Some g) data_1 data_2 w bi H = Some (E_SUCCESS, H') \<and>
    graph_rep H' g V (link_edge A v1 v2 bi e) \<and> e \<noteq> NULL \<and> g_edges H e = None \<and>
    g_edges H' = (g_edges H)(e \<mapsto> \<lparr>ed_node_1 = v1, ed_node_2 = v2, ed_weight = w, ed_is_directed = (\<not> bi)\<rparr>) \<and>
    data_of H' = data_of H"
proof -
  obtain L where N: "nodes_in H g L V A" using R by (auto simp: graph_rep_def)
  note find = graph_find_node_rep [OF N c d(1)] graph_find_node_rep [OF N c d(2)]
  have in_V: "v1 \<in> set V" "v2 \<in> set V" using lookup_node_in v1 v2 by metis+
  let ?e = "g_brk H"
  let ?ed = "\<lparr>ed_node_1 = v1, ed_node_2 = v2, ed_weight = w, ed_is_directed = (\<not> bi)\<rparr>"
  let ?H0 = "H\<lparr>g_brk := Suc ?e, g_edges := (g_edges H)(?e \<mapsto> ?ed)\<rparr>"
  have fresh: "?e \<noteq> NULL" "g_edges H ?e = None" "g_plan H = []" "H\<lparr>g_plan := []\<rparr> = H"
    using nodes_inD(2,3) [OF N] by (auto simp: graph_fresh_def)
  have new: "calloc_edge H = (?e, H\<lparr>g_edges := (g_edges H)(?e \<mapsto>
       \<lparr>ed_node_1 = NULL, ed_node_2 = NULL, ed_weight = 0, ed_is_directed = False\<rparr>), g_brk := Suc ?e\<rparr>)"
    using fresh by (simp add: calloc_edge_def)
  have data: "data_of ?H0 = data_of H" by (simp add: data_of_def fun_eq_iff)
  have N0: "nodes_in ?H0 g L V A" by (rule nodes_in_new_edge [OF N])
  obtain H1 H2 L2 where P1: "push_edge v1 ?e ?H0 = Some (E_SUCCESS, H1)" "add_edge_count v1 1 H1 = Some H2"
      "nodes_in H2 g L2 V (A(v1 := ?e # A v1))" "relink ?H0 H2"
    using push_edge_rep [OF N0 in_V(1) fresh(1)] sz by auto
  show ?thesis
  proof (cases bi)
    case False
    have "graph_add_edge (Some g) data_1 data_2 w bi H = Some (E_SUCCESS, H2)"
      using d find v1 v2 new fresh(1) P1 False by (simp add: graph_add_edge_def write_edge_def)
    moreover have "graph_rep H2 g V (link_edge A v1 v2 bi ?e)"
      by (rule graph_rep_link [OF R _ _ refl fresh(1,2) in_V])
        (use P1(3,4) False in \<open>auto simp: link_edge_def relink_def\<close>)
    ultimately show ?thesis using P1(4) fresh(1,2) data by (intro exI [of _ ?e]) (auto simp: relink_def)
  next
    case True
    have "Suc (length ((A(v1 := ?e # A v1)) v2)) < 2 ^ 32" using sz by auto
    then obtain H3 H4 L4 where P2: "push_edge v2 ?e H2 = Some (E_SUCCESS, H3)" "add_edge_count v2 1 H3 = Some H4"
        "nodes_in H4 g L4 V ((A(v1 := ?e # A v1))(v2 := ?e # (A(v1 := ?e # A v1)) v2))" "relink H2 H4"
      using push_edge_rep [OF P1(3) in_V(2) fresh(1)] by blast
    have "graph_add_edge (Some g) data_1 data_2 w bi H = Some (E_SUCCESS, H4)"
      using d find v1 v2 new fresh(1) P1 P2 True by (simp add: graph_add_edge_def write_edge_def)
    moreover have "relink ?H0 H4" using relink_trans P1(4) P2(4) by blast
    moreover have "graph_rep H4 g V (link_edge A v1 v2 bi ?e)"
      by (rule graph_rep_link [OF R _ _ refl fresh(1,2) in_V])
        (use P2(3) \<open>relink ?H0 H4\<close> True in \<open>auto simp: link_edge_def relink_def\<close>)
    ultimately show ?thesis using fresh(1,2) data by (intro exI [of _ ?e]) (auto simp: relink_def)
  qed
qed

section \<open>Finding an edge\<close>

definition joins :: "edge_t \<Rightarrow> ptr \<Rightarrow> ptr \<Rightarrow> bool" where
  "joins ed v1 v2 \<longleftrightarrow>
     ed_node_1 ed = v1 \<and> ed_node_2 ed = v2 \<or> ed_node_1 ed = v2 \<and> ed_node_2 ed = v1 \<and> \<not> ed_is_directed ed"

text \<open>What the search returns: the first edge that joins the two nodes, otherwise the last edge.\<close>

definition found_edge :: "(ptr \<rightharpoonup> edge_t) \<Rightarrow> ptr \<Rightarrow> ptr \<Rightarrow> ptr list \<Rightarrow> ptr" where
  "found_edge E v1 v2 es =
     (case find (\<lambda>e. joins (the (E e)) v1 v2) es of
        Some e \<Rightarrow> e
      | None \<Rightarrow> if es = [] then NULL else last es)"

lemma find_edge_loop_rep:
  assumes "lists_ok (g_lists H) L" and "L lp = Some (fo, co, xs @ ys)"
    and "\<forall>e \<in> set (datas ys). e \<noteq> NULL \<and> g_edges H e \<noteq> None"
  shows "find_edge_loop H v1 v2 (at_node ys) e0 =
    Some (case find (\<lambda>e. joins (the (g_edges H e)) v1 v2) (datas ys) of
        Some e \<Rightarrow> e
      | None \<Rightarrow> if ys = [] then e0 else last (datas ys))"
  using assms(2,3)
proof (induction ys arbitrary: xs e0)
  case Nil
  then show ?case by (subst find_edge_loop.simps) simp
next
  case (Cons y ys)
  obtain a d where y: "y = (a, d)" by (cases y)
  obtain n where n: "read_node a (g_lists H) = Some n" "n_data n = d" "n_next n = at_node ys" "a \<noteq> NULL"
    using lists_ok_read_node [OF assms(1)] Cons.prems(1) y by blast
  obtain ed where ed: "g_edges H d = Some ed" "read_edge d H = Some ed"
    using Cons.prems(2) y by (auto simp: read_edge_def)
  have ih: "find_edge_loop H v1 v2 (at_node ys) d = Some (case find (\<lambda>e. joins (the (g_edges H e)) v1 v2) (datas ys) of
        Some e \<Rightarrow> e | None \<Rightarrow> if ys = [] then d else last (datas ys))"
    by (rule Cons.IH [of "xs @ [y]"]) (use Cons.prems in auto)
  show ?case
  proof (cases "joins ed v1 v2")
    case True
    then show ?thesis using y n ed by (subst find_edge_loop.simps) (simp add: joins_def)
  next
    case False
    then have "find_edge_loop H v1 v2 (at_node (y # ys)) e0 = find_edge_loop H v1 v2 (at_node ys) d"
      using y n ed by (subst find_edge_loop.simps) (auto simp: joins_def)
    then show ?thesis using ih False y ed by (simp split: option.splits)
  qed
qed

lemma graph_find_edge_rep:
  assumes R: "graph_rep H g V A" and v: "v1 \<in> set V" "v2 \<in> set V"
  shows "graph_find_edge (Some g) v1 v2 H = Some (found_edge (g_edges H) v1 v2 (A v1))"
proof -
  obtain L where N: "nodes_in H g L V A" using R by (auto simp: graph_rep_def)
  obtain n co ns where n: "v1 \<noteq> NULL" "read_gnode v1 H = Some n"
      "gn_edge_list n = edge_list_of H v1" "L (edge_list_of H v1) = Some (Some edge_list_free, co, ns)"
      "datas ns = A v1"
    using nodes_inD(9) [OF N v(1)] by (rule node_okE)
  obtain l where l: "read_list (edge_list_of H v1) (g_lists H) = Some l" "l_head l = at_node ns" "edge_list_of H v1 \<noteq> NULL"
    using lists_ok_read_list [OF nodes_inD(1) [OF N] n(4)] by blast
  have "\<forall>e \<in> set (datas ns). e \<noteq> NULL \<and> g_edges H e \<noteq> None"
    using R v(1) n(5) by (metis graph_rep_edge option.distinct(1))
  from find_edge_loop_rep [OF nodes_inD(1) [OF N], of _ _ _ "[]" ns v1 v2 NULL, OF _ this] n(4)
  have "find_edge_loop H v1 v2 (at_node ns) NULL = Some (found_edge (g_edges H) v1 v2 (A v1))"
    by (auto simp: found_edge_def n(5) [symmetric] split: option.splits)
  moreover have "v2 \<noteq> NULL" using nodes_inD(9) [OF N v(2)] by (simp add: node_ok_def)
  ultimately show ?thesis using n l by (simp add: graph_find_edge_def)
qed

section \<open>Removing an edge\<close>

definition unlink_edge :: "(ptr \<Rightarrow> ptr list) \<Rightarrow> ptr \<Rightarrow> ptr \<Rightarrow> bool \<Rightarrow> ptr \<Rightarrow> ptr \<Rightarrow> ptr list" where
  "unlink_edge A v1 v2 bi e =
     (let A1 = A(v1 := remove1 e (A v1)) in if bi then A1(v2 := remove1 e (A1 v2)) else A1)"

lemma count_list_remove1: "count_list (remove1 e xs) x = count_list xs x - (if x = e then 1 else 0)"
  by (induction xs) auto

lemma unlink_edge_count: "count_list (unlink_edge A v1 v2 bi e v) x =
    count_list (A v) x - (if x = e then (if v = v1 then 1 else 0) + (if bi \<and> v = v2 then 1 else 0) else 0)"
  by (auto simp: unlink_edge_def Let_def count_list_remove1)

lemma unlink_link: "unlink_edge (link_edge A v1 v2 bi e) v1 v2 bi e = A"
  by (auto simp: unlink_edge_def link_edge_def Let_def fun_eq_iff)

definition first_equal :: "(ptr \<rightharpoonup> edge_t) \<Rightarrow> ptr \<Rightarrow> ptr list \<Rightarrow> bool" where
  "first_equal E e es \<longleftrightarrow> find (\<lambda>y. edge_compare E e y = Some EQUAL) es = Some e"

lemma first_equal_split:
  assumes "first_equal E e es"
  obtains ds xs where "es = ds @ e # xs" "edge_compare E e e = Some EQUAL"
    "\<forall>y \<in> set ds. edge_compare E e y \<noteq> Some EQUAL" "remove1 e es = ds @ xs"
proof -
  obtain i where i: "i < length es" "edge_compare E e e = Some EQUAL" "e = es ! i"
      "\<forall>j < i. edge_compare E e (es ! j) \<noteq> Some EQUAL"
    using assms unfolding first_equal_def find_Some_iff by metis
  have "\<forall>y \<in> set (take i es). edge_compare E e y \<noteq> Some EQUAL" using i by (auto simp: in_set_conv_nth)
  moreover have "es = take i es @ e # drop (Suc i) es" using i(1,3) id_take_nth_drop by blast
  moreover from this have "remove1 e es = take i es @ drop (Suc i) es"
    using i(2) calculation(1) by (metis remove1_append remove1.simps(2))
  ultimately show ?thesis using that i(2) by blast
qed

lemma graph_rep_unlink:
  assumes R: "graph_rep H g V A" and N: "nodes_in H' g L V (unlink_edge A v1 v2 (\<not> ed_is_directed ed) e)"
    and E: "g_edges H' = (g_edges H)(e := None)" and v: "v1 \<in> set V" "e \<in> set (A v1)" "g_edges H e = Some ed"
    and j: "\<not> ed_is_directed ed \<Longrightarrow> joins ed v1 v2"
  shows "graph_rep H' g V (unlink_edge A v1 v2 (\<not> ed_is_directed ed) e)"
proof -
  let ?A = "unlink_edge A v1 v2 (\<not> ed_is_directed ed) e"
  have inc: "count_list (A w) e = incidence ed w" if "w \<in> set V" for w
    using R v that by (metis graph_rep_edge option.inject)
  have "count_list (A v1) e \<noteq> 0" using v(2) by (simp add: count_list_0_iff)
  then have "ed_node_1 ed = v1 \<or> \<not> ed_is_directed ed" using inc [OF v(1)] by (auto simp: incidence_def split: if_splits)
  then have "count_list (?A w) e = 0" if "w \<in> set V" for w
    using inc [OF that] j by (auto simp: unlink_edge_count incidence_def joins_def)
  then have gone: "e \<notin> set (?A w)" if "w \<in> set V" for w using that by (simp add: count_list_0_iff)
  have "edge_ok H' V ?A x" if x: "w \<in> set V" "x \<in> set (?A w)" for w x
  proof -
    have ne: "x \<noteq> e" using gone x by blast
    have "count_list (?A w) x \<noteq> 0" using x(2) by (simp add: count_list_0_iff)
    then have "x \<in> set (A w)" using ne by (simp add: unlink_edge_count count_list_0_iff)
    then have "edge_ok H V A x" using R x(1) by (auto simp: graph_rep_def)
    then show ?thesis using ne E by (auto simp: edge_ok_def unlink_edge_count)
  qed
  with N show ?thesis unfolding graph_rep_def by blast
qed

lemma graph_fresh_free: "graph_fresh H \<Longrightarrow> graph_fresh (H\<lparr>g_edges := (g_edges H)(e := None)\<rparr>)"
  by (simp add: graph_fresh_def)

lemma nodes_in_free_edge:
  assumes N: "nodes_in H g L V A"
  shows "nodes_in (H\<lparr>g_edges := (g_edges H)(e := None)\<rparr>) g L V A"
proof -
  let ?H = "H\<lparr>g_edges := (g_edges H)(e := None)\<rparr>"
  have same: "edge_list_of ?H = edge_list_of H" by (simp add: edge_list_of_def fun_eq_iff)
  have "node_ok ?H L A v \<longleftrightarrow> node_ok H L A v" for v by (simp add: node_ok_def)
  then show ?thesis using N graph_fresh_free [of H e] by (auto simp: nodes_in_def same)
qed

lemma graph_rep_total:
  assumes R: "graph_rep H g V A" and "v \<in> set V" "w \<in> set V" "e \<in> set (A v)"
  shows "cmp_total_on (edge_compare (g_edges H)) e (set (A w))"
proof (rule edge_compare_total)
  show "\<forall>x \<in> insert e (set (A w)). x \<noteq> NULL \<and> g_edges H x \<noteq> None"
    using assms by (metis graph_rep_edge insert_iff option.distinct(1))
qed

lemma cmp_total_on_mono: "cmp_total_on f x D \<Longrightarrow> D' \<subseteq> D \<Longrightarrow> cmp_total_on f x D'"
  by (auto simp: cmp_total_on_def)

text \<open>The removal of the edge that the search returns, when it is the first of its equals in the lists.\<close>

lemma graph_remove_edge_rep:
  assumes R: "graph_rep H g V A" and c: "compares (gr_custom_compare g) same"
    and d: "data_1 \<noteq> NULL" "data_2 \<noteq> NULL"
    and v1: "lookup_node H same V data_1 = v1" "v1 \<noteq> NULL"
    and v2: "lookup_node H same V data_2 = v2" "v2 \<noteq> NULL"
    and e: "found_edge (g_edges H) v1 v2 (A v1) = e" "g_edges H e = Some ed"
    and f1: "first_equal (g_edges H) e (A v1)"
    and f2: "\<not> ed_is_directed ed \<Longrightarrow> joins ed v1 v2 \<and>
       first_equal (g_edges H) e ((A(v1 := remove1 e (A v1))) v2)"
  shows "\<exists>H'. graph_remove_edge (Some g) data_1 data_2 H = Some (E_SUCCESS, H') \<and>
    graph_rep H' g V (unlink_edge A v1 v2 (\<not> ed_is_directed ed) e) \<and>
    g_edges H' = (g_edges H)(e := None) \<and> data_of H' = data_of H"
proof -
  obtain L where N: "nodes_in H g L V A" using R by (auto simp: graph_rep_def)
  note find = graph_find_node_rep [OF N c d(1)] graph_find_node_rep [OF N c d(2)]
  have in_V: "v1 \<in> set V" "v2 \<in> set V" using lookup_node_in v1 v2 by metis+
  note fe = graph_find_edge_rep [OF R in_V]
  obtain ds xs where s1: "A v1 = ds @ e # xs" "edge_compare (g_edges H) e e = Some EQUAL"
      "\<forall>y \<in> set ds. edge_compare (g_edges H) e y \<noteq> Some EQUAL" "remove1 e (A v1) = ds @ xs"
    using f1 by (rule first_equal_split)
  have eA: "e \<in> set (A v1)" using s1(1) by simp
  have e0: "e \<noteq> NULL" using R in_V(1) eA by (metis graph_rep_edge)
  obtain H1 H2 L2 where D1: "drop_edge v1 e H = Some (E_SUCCESS, H1)" "add_edge_count v1 (- 1) H1 = Some H2"
      "nodes_in H2 g L2 V (A(v1 := remove1 e (A v1)))" "relink H H2"
    using drop_edge_rep [OF N in_V(1) e0 graph_rep_total [OF R in_V(1) in_V(1) eA] s1(1-3)] s1(4) by auto
  have ed2: "g_edges H2 e = Some ed" "read_edge e H2 = Some ed"
    using D1(4) e(2) e0 by (auto simp: relink_def read_edge_def)
  have fin: "\<exists>H'. free_edge e H3 = Some H' \<and> graph_rep H' g V (unlink_edge A v1 v2 (\<not> ed_is_directed ed) e) \<and>
      g_edges H' = (g_edges H)(e := None) \<and> data_of H' = data_of H"
    if N3: "nodes_in H3 g L3 V (unlink_edge A v1 v2 (\<not> ed_is_directed ed) e)" and r: "relink H H3" for H3 L3
  proof -
    let ?H' = "H3\<lparr>g_edges := (g_edges H3)(e := None)\<rparr>"
    have E3: "g_edges H3 = g_edges H" "data_of H3 = data_of H" using r by (simp_all add: relink_def)
    have "graph_rep ?H' g V (unlink_edge A v1 v2 (\<not> ed_is_directed ed) e)"
      by (rule graph_rep_unlink [OF R nodes_in_free_edge [OF N3] _ in_V(1) eA e(2)]) (use f2 E3 in auto)
    moreover have "free_edge e H3 = Some ?H'" using e0 e(2) E3 by (simp add: free_edge_def)
    moreover have "data_of ?H' = data_of H" using E3 by (simp add: data_of_def fun_eq_iff)
    ultimately show ?thesis using E3 by auto
  qed
  show ?thesis
  proof (cases "ed_is_directed ed")
    case True
    obtain H' where "free_edge e H2 = Some H'" "graph_rep H' g V (unlink_edge A v1 v2 (\<not> ed_is_directed ed) e)"
        "g_edges H' = (g_edges H)(e := None)" "data_of H' = data_of H"
      using fin [OF _ D1(4)] D1(3) True by (auto simp: unlink_edge_def)
    moreover from this(1) have "graph_remove_edge (Some g) data_1 data_2 H = Some (E_SUCCESS, H')"
      using D1(1,2) find fe v1 v2 d e(1) e0 ed2 True by (simp add: graph_remove_edge_def)
    ultimately show ?thesis by blast
  next
    case False
    let ?A1 = "A(v1 := remove1 e (A v1))"
    obtain ds2 xs2 where s2: "?A1 v2 = ds2 @ e # xs2" "edge_compare (g_edges H) e e = Some EQUAL"
        "\<forall>y \<in> set ds2. edge_compare (g_edges H) e y \<noteq> Some EQUAL" "remove1 e (?A1 v2) = ds2 @ xs2"
      using conjunct2 [OF f2 [OF False]] by (rule first_equal_split)
    have t: "cmp_total_on (edge_compare (g_edges H)) e (set (?A1 v2))"
      by (rule cmp_total_on_mono [OF graph_rep_total [OF R in_V(1) in_V(2) eA]])
        (use set_remove1_subset [of e "A v1"] in auto)
    obtain H3 H4 L4 where D2: "drop_edge v2 e H2 = Some (E_SUCCESS, H3)" "add_edge_count v2 (- 1) H3 = Some H4"
        "nodes_in H4 g L4 V (?A1(v2 := remove1 e (?A1 v2)))" "relink H2 H4"
      using drop_edge_rep [OF D1(3) in_V(2) e0, of ds2 e xs2] t s2 D1(4) by (auto simp: relink_def)
    obtain H' where "free_edge e H4 = Some H'" "graph_rep H' g V (unlink_edge A v1 v2 (\<not> ed_is_directed ed) e)"
        "g_edges H' = (g_edges H)(e := None)" "data_of H' = data_of H"
      using fin [OF _ relink_trans [OF D1(4) D2(4)], of L4] D2(3) False by (auto simp: unlink_edge_def Let_def)
    moreover from this(1) have "graph_remove_edge (Some g) data_1 data_2 H = Some (E_SUCCESS, H')"
      using D1(1,2) D2(1,2) find fe v1 v2 d e(1) e0 ed2 False by (simp add: graph_remove_edge_def)
    ultimately show ?thesis by blast
  qed
qed

section \<open>Adding and removing an edge\<close>

lemma lookup_node_data: "data_of H' = data_of H \<Longrightarrow> lookup_node H' same V x = lookup_node H same V x"
  by (simp add: lookup_node_def)

lemma edge_compare_self: "E e = Some ed \<Longrightarrow> e \<noteq> NULL \<Longrightarrow> edge_compare E e e = Some EQUAL"
  by (simp add: edge_compare_def)

lemma edge_roundtrip:
  assumes R: "graph_rep H g V A" and c: "compares (gr_custom_compare g) same"
    and d: "data_1 \<noteq> NULL" "data_2 \<noteq> NULL"
    and v1: "lookup_node H same V data_1 = v1" "v1 \<noteq> NULL"
    and v2: "lookup_node H same V data_2 = v2" "v2 \<noteq> NULL"
    and sz: "Suc (Suc (length (A v1))) < 2 ^ 32" "Suc (length (A v2)) < 2 ^ 32"
  shows "\<exists>H1 H2. graph_add_edge (Some g) data_1 data_2 w bi H = Some (E_SUCCESS, H1) \<and>
    graph_remove_edge (Some g) data_1 data_2 H1 = Some (E_SUCCESS, H2) \<and>
    graph_rep H2 g V A \<and> g_edges H2 = g_edges H \<and> data_of H2 = data_of H"
proof -
  obtain e H1 where a: "graph_add_edge (Some g) data_1 data_2 w bi H = Some (E_SUCCESS, H1)"
      "graph_rep H1 g V (link_edge A v1 v2 bi e)" "e \<noteq> NULL" "g_edges H e = None"
      "g_edges H1 = (g_edges H)(e \<mapsto> \<lparr>ed_node_1 = v1, ed_node_2 = v2, ed_weight = w, ed_is_directed = (\<not> bi)\<rparr>)"
      "data_of H1 = data_of H"
    using graph_add_edge_rep [OF R c d v1 v2 sz] by blast
  let ?ed = "\<lparr>ed_node_1 = v1, ed_node_2 = v2, ed_weight = w, ed_is_directed = (\<not> bi)\<rparr>"
  let ?A = "link_edge A v1 v2 bi e"
  have e: "g_edges H1 e = Some ?ed" using a(5) by simp
  have self: "edge_compare (g_edges H1) e e = Some EQUAL" using edge_compare_self e a(3) by blast
  have "\<exists>es. ?A v1 = e # es" by (cases bi; cases "v1 = v2") (simp_all add: link_edge_def)
  then obtain es where es: "?A v1 = e # es" by blast
  have found: "found_edge (g_edges H1) v1 v2 (?A v1) = e" using e by (simp add: es found_edge_def joins_def)
  have f1: "first_equal (g_edges H1) e (?A v1)" using self by (simp add: es first_equal_def)
  have f2: "joins ?ed v1 v2 \<and> first_equal (g_edges H1) e ((?A(v1 := remove1 e (?A v1))) v2)" if "\<not> ed_is_directed ?ed"
    using that self by (auto simp: joins_def first_equal_def link_edge_def Let_def)
  note l = v1 [folded lookup_node_data [OF a(6)]] v2 [folded lookup_node_data [OF a(6)]]
  obtain H2 where r: "graph_remove_edge (Some g) data_1 data_2 H1 = Some (E_SUCCESS, H2)"
      "graph_rep H2 g V (unlink_edge ?A v1 v2 (\<not> ed_is_directed ?ed) e)" "g_edges H2 = (g_edges H1)(e := None)"
      "data_of H2 = data_of H1"
    using graph_remove_edge_rep [OF a(2) c d _ v1(2) _ v2(2) found e f1 f2] v1(1) v2(1) lookup_node_data [OF a(6)] by blast
  have "g_edges H2 = g_edges H" using r(3) a(4,5) by (simp add: fun_upd_idem)
  moreover have "graph_rep H2 g V A" using r(2) by (simp add: unlink_link)
  ultimately show ?thesis using a(1,6) r(1,4) by auto
qed

text \<open>Without an edge between the two nodes the last edge of the first one goes, if it is directed.\<close>

lemma remove_wrong_edge:
  assumes R: "graph_rep H g V A" and c: "compares (gr_custom_compare g) same"
    and d: "data_1 \<noteq> NULL" "data_2 \<noteq> NULL"
    and v1: "lookup_node H same V data_1 = v1" "v1 \<noteq> NULL"
    and v2: "lookup_node H same V data_2 = v2" "v2 \<noteq> NULL"
    and none: "\<forall>e \<in> set (A v1). \<not> joins (the (g_edges H e)) v1 v2"
    and e: "A v1 \<noteq> []" "g_edges H (last (A v1)) = Some ed" "ed_is_directed ed"
      "first_equal (g_edges H) (last (A v1)) (A v1)"
  shows "\<exists>H'. graph_remove_edge (Some g) data_1 data_2 H = Some (E_SUCCESS, H') \<and>
    g_edges H' = (g_edges H)(last (A v1) := None) \<and> ed_node_2 ed \<noteq> v2"
proof -
  have "find (\<lambda>e. joins (the (g_edges H e)) v1 v2) (A v1) = None" using none by (auto simp: find_None_iff)
  then have f: "found_edge (g_edges H) v1 v2 (A v1) = last (A v1)" using e(1) by (simp add: found_edge_def)
  have "v1 \<in> set V" using v1 lookup_node_in by metis
  then have "edge_ok H V A (last (A v1))" using R last_in_set [OF e(1)] by (auto simp: graph_rep_def)
  then have "count_list (A v1) (last (A v1)) = incidence ed v1"
    using e(1,2) \<open>v1 \<in> set V\<close> by (auto simp: edge_ok_def)
  moreover have "count_list (A v1) (last (A v1)) \<noteq> 0" using last_in_set [OF e(1)] by (simp add: count_list_0_iff)
  ultimately have "ed_node_1 ed = v1" using e(3) by (auto simp: incidence_def split: if_splits)
  moreover have "\<not> joins ed v1 v2" using none last_in_set [OF e(1)] e(2) by force
  ultimately have "ed_node_2 ed \<noteq> v2" by (simp add: joins_def)
  then show ?thesis using graph_remove_edge_rep [OF R c d v1 v2 f e(2,4)] e(3) by auto
qed

end
