(* ===== verification/Worklist.thy ===== *)
theory Worklist
  imports "HOL-Library.Multiset"
begin

text \<open>
  Graph search with a worklist, abstractly.  A search keeps the nodes that wait (\<open>W\<close>), the nodes
  visited so far (\<open>V\<close>) and the nodes acted on (\<open>D\<close>), all in order; it takes a node out of
  \<open>W\<close>, acts on it and appends its successors that have not been visited to \<open>W\<close> and \<open>V\<close>.
  Which node is taken is the discipline of the worklist: the locale \<open>worklist\<close> asks only that it
  is one of the waiting nodes.  The search then acts on exactly the reachable nodes, once each.
\<close>

section \<open>The search\<close>

text \<open>The successors that are newly visited, in order and without repetition.\<close>

fun fresh :: "'a list \<Rightarrow> 'a list \<Rightarrow> 'a list" where
  "fresh V [] = []"
| "fresh V (y # ys) = (if y \<in> set V then fresh V ys else y # fresh (V @ [y]) ys)"

lemma set_fresh: "set (fresh V ys) = set ys - set V"
  by (induction ys arbitrary: V) auto

lemma distinct_fresh: "distinct (fresh V ys)"
  by (induction ys arbitrary: V) (auto simp: set_fresh)

text \<open>\<open>search out succ W V D D'\<close>: started with \<open>W\<close>, \<open>V\<close> and \<open>D\<close>, the search ends
  when nothing waits any more and has then acted on \<open>D'\<close>.\<close>

inductive search :: "('a list \<Rightarrow> 'a \<times> 'a list) \<Rightarrow> ('a \<Rightarrow> 'a list) \<Rightarrow> 'a list \<Rightarrow> 'a list \<Rightarrow> 'a list \<Rightarrow> 'a list \<Rightarrow> bool"
  for out succ where
  search_done: "search out succ [] V D D"
| search_step: "W \<noteq> [] \<Longrightarrow> out W = (x, W') \<Longrightarrow>
    search out succ (W' @ fresh V (succ x)) (V @ fresh V (succ x)) (D @ [x]) D' \<Longrightarrow>
    search out succ W V D D'"

inductive_cases search_NilE: "search out succ [] V D D'"

text \<open>Nodes reachable from \<open>s\<close> along \<open>succ\<close>.\<close>

inductive_set reachable :: "('a \<Rightarrow> 'a list) \<Rightarrow> 'a \<Rightarrow> 'a set" for succ s where
  reach_start: "s \<in> reachable succ s"
| reach_step: "x \<in> reachable succ s \<Longrightarrow> y \<in> set (succ x) \<Longrightarrow> y \<in> reachable succ s"

definition search_inv :: "('a \<Rightarrow> 'a list) \<Rightarrow> 'a \<Rightarrow> 'a list \<Rightarrow> 'a list \<Rightarrow> 'a list \<Rightarrow> bool" where
  "search_inv succ s W V D \<longleftrightarrow>
     distinct (D @ W) \<and> set V = set (D @ W) \<and> s \<in> set V \<and> set V \<subseteq> reachable succ s \<and>
     (\<forall>x \<in> set D. set (succ x) \<subseteq> set V)"

lemma search_inv_start: "search_inv succ s [s] [s] []"
  by (simp add: search_inv_def reach_start)

lemma search_inv_end:
  assumes "search_inv succ s [] V D"
  shows "distinct D \<and> set D = reachable succ s"
proof -
  have "x \<in> set D" if "x \<in> reachable succ s" for x
    using that by induction (use assms in \<open>auto simp: search_inv_def\<close>)
  then show ?thesis using assms by (auto simp: search_inv_def)
qed

lemma reachable_closed:
  assumes "s \<in> U" and "\<And>x. x \<in> U \<Longrightarrow> set (succ x) \<subseteq> U"
  shows "reachable succ s \<subseteq> U"
proof
  fix x assume "x \<in> reachable succ s"
  then show "x \<in> U" by induction (use assms in auto)
qed

section \<open>Any discipline\<close>

locale worklist =
  fixes out :: "'a list \<Rightarrow> 'a \<times> 'a list"
  assumes out_mset: "W \<noteq> [] \<Longrightarrow> out W = (x, W') \<Longrightarrow> mset W = add_mset x (mset W')"
begin

lemma out_set:
  assumes "W \<noteq> []" and "out W = (x, W')"
  shows "set W = insert x (set W')" and "distinct (D @ W) \<longleftrightarrow> distinct (D @ x # W')"
    and "length W = Suc (length W')"
proof -
  note m = out_mset [OF assms]
  show "set W = insert x (set W')" using arg_cong [OF m, of set_mset] by simp
  have "mset (D @ W) = mset (D @ x # W')" using m by simp
  then show "distinct (D @ W) \<longleftrightarrow> distinct (D @ x # W')" by (rule mset_eq_imp_distinct_iff)
  show "length W = Suc (length W')" using arg_cong [OF m, of size] by simp
qed

lemma search_inv_step:
  assumes I: "search_inv succ s W V D" and w: "W \<noteq> []" "out W = (x, W')"
  shows "search_inv succ s (W' @ fresh V (succ x)) (V @ fresh V (succ x)) (D @ [x])"
proof -
  note o = out_set [OF w]
  have d: "distinct (D @ x # W')" using I o(2) [of D] unfolding search_inv_def by blast
  have V: "set V = insert x (set D \<union> set W')" using I o(1) by (auto simp: search_inv_def)
  have "x \<in> reachable succ s" using I V by (auto simp: search_inv_def)
  then have "set (succ x) \<subseteq> reachable succ s" by (auto intro: reach_step)
  moreover have "\<forall>y \<in> set D. set (succ y) \<subseteq> set V" "s \<in> set V" "set V \<subseteq> reachable succ s"
    using I unfolding search_inv_def by blast+
  ultimately show ?thesis using V d
    by (auto simp: search_inv_def set_fresh distinct_fresh)
qed

lemma search_correct:
  assumes "search out succ W V D D'" and "search_inv succ s W V D"
  shows "distinct D' \<and> set D' = reachable succ s"
  using assms
proof (induction rule: search.induct)
  case (search_done V D)
  then show ?case by (rule search_inv_end)
next
  case (search_step W x W' V D D')
  then show ?case using search_inv_step by blast
qed

lemma search_terminates:
  assumes "finite U" and "\<And>x. x \<in> U \<Longrightarrow> set (succ x) \<subseteq> U" and "search_inv succ s W V D" and "s \<in> U"
  shows "\<exists>D'. search out succ W V D D'"
  using assms(3)
proof (induction "card U - length D" arbitrary: W V D rule: less_induct)
  case less
  show ?case
  proof (cases "W = []")
    case True
    then show ?thesis using search_done by blast
  next
    case False
    obtain x W' where o: "out W = (x, W')" by fastforce
    note I = search_inv_step [OF less.prems False o]
    have "reachable succ s \<subseteq> U" by (rule reachable_closed) (use assms(2,4) in auto)
    moreover have "set (D @ [x]) \<subseteq> reachable succ s" and d: "distinct (D @ [x])"
      using I unfolding search_inv_def by (metis Un_subset_iff set_append, simp)
    ultimately have "set (D @ [x]) \<subseteq> U" by blast
    then have "length (D @ [x]) \<le> card U" using assms(1) d by (metis card_mono distinct_card)
    then have "card U - length (D @ [x]) < card U - length D" by simp
    from less.hyps [OF this I] show ?thesis using search_step [of W out x W', OF False o] by blast
  qed
qed

end

section \<open>First in first out, last in first out\<close>

definition out_last :: "'a list \<Rightarrow> 'a \<times> 'a list" where "out_last W = (last W, butlast W)"
definition out_first :: "'a list \<Rightarrow> 'a \<times> 'a list" where "out_first W = (hd W, tl W)"

interpretation lifo: worklist out_last
proof unfold_locales
  fix W W' :: "'a list" and x assume "W \<noteq> []" and "out_last W = (x, W')"
  then have "W = W' @ [x]" by (auto simp: out_last_def)
  then show "mset W = add_mset x (mset W')" by simp
qed

interpretation fifo: worklist out_first
proof unfold_locales
  fix W W' :: "'a list" and x assume "W \<noteq> []" and "out_first W = (x, W')"
  then have "W = x # W'" by (auto simp: out_first_def)
  then show "mset W = add_mset x (mset W')" by simp
qed

end
