(* ===== verification/Graph_Search.thy ===== *)
theory Graph_Search
  imports Graph_Rep Worklist
begin

text \<open>
  The traversals of DSA/adjacency_list/src/adjacency_list.c: depth first with the bounded stack,
  breadth first with the unbounded queue, both with a list of visited nodes.  The two visit
  functions and the two traversal loops of the source are the same up to the container and its
  functions, so they are one definition each, applied to the stack and to the queue.
\<close>

section \<open>Visiting and traversing\<close>

text \<open>\<open>container\<close> is \<open>None\<close> when the pointer is NULL.\<close>

definition visit_node ::
  "('c option \<Rightarrow> ptr \<Rightarrow> graph_heap \<Rightarrow> (int \<times> 'c option \<times> graph_heap) option) \<Rightarrow>
   'c option \<Rightarrow> ptr \<Rightarrow> ptr \<Rightarrow> graph_heap \<Rightarrow> (int \<times> 'c option \<times> graph_heap) option" where
  "visit_node push container visited_list node H =
     (case container of
        None \<Rightarrow> Some (E_FAILURE, container, H)
      | Some _ \<Rightarrow>
          if visited_list = NULL \<or> node = NULL then Some (E_FAILURE, container, H)
          else do {
            (exit_code, container, H) \<leftarrow> push container node H;
            if exit_code \<noteq> E_SUCCESS then Some (exit_code, container, H)
            else do {
              (exit_code, H) \<leftarrow> on_lists (list_push_tail visited_list node) H;
              if exit_code \<noteq> E_SUCCESS then Some (exit_code, container, H)
              else Some (E_SUCCESS, container, H) } })"

text \<open>The inner loop, over the edges of one node; the boolean says that it ran to its end.\<close>

partial_function (option) visit_edges ::
  "('c option \<Rightarrow> ptr \<Rightarrow> ptr \<Rightarrow> graph_heap \<Rightarrow> (int \<times> 'c option \<times> graph_heap) option) \<Rightarrow>
   ptr \<Rightarrow> ptr \<Rightarrow> 'c option \<Rightarrow> graph_heap \<Rightarrow> (bool \<times> 'c option \<times> graph_heap) option" where
  "visit_edges visit visited_list edge_node container H =
     (if edge_node = NULL then Some (True, container, H)
      else do {
        en \<leftarrow> read_node edge_node (g_lists H);
        edge \<leftarrow> read_edge (n_data en) H;
        let neighbor = ed_node_2 edge;
        seen \<leftarrow> list_contains visited_list neighbor (g_lists H);
        (ok, container, H) \<leftarrow> (if \<not> seen
           then do {
             (code, container, H) \<leftarrow> visit container visited_list neighbor H;
             Some (code = E_SUCCESS, container, H) }
           else Some (True, container, H));
        if \<not> ok then Some (False, container, H)
        else do {
          en \<leftarrow> read_node edge_node (g_lists H);
          visit_edges visit visited_list (n_next en) container H } })"

partial_function (option) traverse_loop ::
  "('c option \<Rightarrow> bool option) \<Rightarrow> ('c option \<Rightarrow> graph_heap \<Rightarrow> (ptr \<times> 'c option \<times> graph_heap) option) \<Rightarrow>
   ('c option \<Rightarrow> ptr \<Rightarrow> ptr \<Rightarrow> graph_heap \<Rightarrow> (int \<times> 'c option \<times> graph_heap) option) \<Rightarrow>
   ptr \<Rightarrow> 'c option \<Rightarrow> graph_heap \<Rightarrow> (int \<times> 'c option \<times> graph_heap) option" where
  "traverse_loop nonempty pop visit visited_list container H =
     do {
       more \<leftarrow> nonempty container;
       if more
       then do {
         (current, container, H) \<leftarrow> pop container H;
         if current = NULL then Some (E_FAILURE, container, H)
         else do {
           n \<leftarrow> read_gnode current H;
           let H = H\<lparr>g_acted := g_acted H @ [gn_data n]\<rparr>;
           l \<leftarrow> read_list (gn_edge_list n) (g_lists H);
           (ok, container, H) \<leftarrow> visit_edges visit visited_list (l_head l) container H;
           if \<not> ok then Some (E_FAILURE, container, H)
           else traverse_loop nonempty pop visit visited_list container H } }
       else Some (E_SUCCESS, container, H) }"

section \<open>Depth-first search\<close>

text \<open>The caller's addresses \<open>&visited_list\<close>, \<open>&stack\<close> and \<open>&start_node\<close> are never
  NULL; the values left in the variables are part of the result.\<close>

definition initialize_dfs ::
  "graph_t option \<Rightarrow> ptr \<Rightarrow> graph_heap \<Rightarrow> (int \<times> ptr \<times> stack_t option \<times> ptr \<times> graph_heap) option" where
  "initialize_dfs graph start_data H =
     (if graph = None \<or> start_data = NULL then Some (E_FAILURE, NULL, None, NULL, H)
      else do {
        start_node \<leftarrow> graph_find_node graph start_data H;
        if start_node = NULL then Some (E_FAILURE, NULL, None, NULL, H)
        else do {
          (visited_list, H) \<leftarrow> on_lists (list_new (Some default_free) (Some node_ptr_comp)) H;
          if visited_list = NULL then Some (E_FAILURE, NULL, None, start_node, H)
          else do {
            let (stack, sh) = stack_init MAX_STACK_SIZE (Some libc_free) (g_stack H);
            let H = H\<lparr>g_stack := sh\<rparr>;
            if stack = None
            then do {
              ((_, visited_list), H) \<leftarrow> on_lists (delete_list visited_list) H;
              Some (E_FAILURE, visited_list, None, start_node, H) }
            else Some (E_SUCCESS, visited_list, stack, start_node, H) } } })"

definition dfs_visit_node ::
  "stack_t option \<Rightarrow> ptr \<Rightarrow> ptr \<Rightarrow> graph_heap \<Rightarrow> (int \<times> stack_t option \<times> graph_heap) option" where
  "dfs_visit_node = visit_node (\<lambda>stack node. on_stack (stack_push stack node))"

definition traverse_dfs ::
  "stack_t option \<Rightarrow> ptr \<Rightarrow> bool \<Rightarrow> graph_heap \<Rightarrow> (int \<times> stack_t option \<times> graph_heap) option" where
  "traverse_dfs stack visited_list action_is_NULL H =
     (if stack = None \<or> visited_list = NULL \<or> action_is_NULL then Some (E_FAILURE, stack, H)
      else traverse_loop (\<lambda>stack. Some (stack_is_empty stack = E_FAILURE))
             (\<lambda>stack. on_stack (stack_pop stack)) dfs_visit_node visited_list stack H)"

text \<open>The exit of \<open>graph_dfs\<close> destroys the stack and the visited list; both calls ignore a NULL.\<close>

definition dfs_end :: "int \<Rightarrow> stack_t option \<Rightarrow> ptr \<Rightarrow> graph_heap \<Rightarrow> (int \<times> graph_heap) option" where
  "dfs_end exit_code stack visited_list H =
     do {
       (_, _, H) \<leftarrow> on_stack (stack_destroy stack) H;
       (_, H) \<leftarrow> on_lists (delete_list visited_list) H;
       Some (exit_code, H) }"

definition graph_dfs :: "graph_t option \<Rightarrow> ptr \<Rightarrow> bool \<Rightarrow> graph_heap \<Rightarrow> (int \<times> graph_heap) option" where
  "graph_dfs graph start_data action_is_NULL H =
     (if graph = None \<or> start_data = NULL \<or> action_is_NULL then dfs_end E_FAILURE None NULL H
      else do {
        (exit_code, visited_list, stack, start_node, H) \<leftarrow> initialize_dfs graph start_data H;
        if exit_code \<noteq> E_SUCCESS then dfs_end exit_code stack visited_list H
        else do {
          (exit_code, stack, H) \<leftarrow> dfs_visit_node stack visited_list start_node H;
          if exit_code \<noteq> E_SUCCESS then dfs_end exit_code stack visited_list H
          else do {
            (exit_code, stack, H) \<leftarrow> traverse_dfs stack visited_list action_is_NULL H;
            dfs_end exit_code stack visited_list H } } })"

section \<open>Breadth-first search\<close>

text \<open>\<open>sync_ok\<close>: the \<open>pthread\<close> objects of the queue could be initialised.  \<open>shutdown\<close>:
  \<open>signal_flag\<close> is \<open>SHUTDOWN\<close>.\<close>

definition bfs_visit_node ::
  "queue_t option \<Rightarrow> ptr \<Rightarrow> ptr \<Rightarrow> graph_heap \<Rightarrow> (int \<times> queue_t option \<times> graph_heap) option" where
  "bfs_visit_node = visit_node (\<lambda>queue node. on_queue (queue_enqueue queue node))"

definition initialize_bfs ::
  "bool \<Rightarrow> graph_t option \<Rightarrow> ptr \<Rightarrow> graph_heap \<Rightarrow> (int \<times> ptr \<times> queue_t option \<times> ptr \<times> graph_heap) option" where
  "initialize_bfs sync_ok graph start_data H =
     (if graph = None \<or> start_data = NULL then Some (E_FAILURE, NULL, None, NULL, H)
      else do {
        (visited_list, H) \<leftarrow> on_lists (list_new (Some default_free) (Some node_ptr_comp)) H;
        if visited_list = NULL then Some (E_FAILURE, NULL, None, NULL, H)
        else do {
          start_node \<leftarrow> graph_find_node graph start_data H;
          if start_node = NULL then Some (E_FAILURE, visited_list, None, NULL, H)
          else do {
            let (queue, qh) = queue_init sync_ok sync_ok sync_ok (Some libc_free) QUEUE_UNBOUNDED (g_queue H);
            let H = H\<lparr>g_queue := qh\<rparr>;
            if queue = None then Some (E_FAILURE, visited_list, None, start_node, H)
            else Some (E_SUCCESS, visited_list, queue, start_node, H) } } })"

definition traverse_bfs ::
  "bool \<Rightarrow> queue_t option \<Rightarrow> ptr \<Rightarrow> bool \<Rightarrow> graph_heap \<Rightarrow> (int \<times> queue_t option \<times> graph_heap) option" where
  "traverse_bfs shutdown queue visited_list action_is_NULL H =
     (if queue = None \<or> visited_list = NULL \<or> action_is_NULL then Some (E_FAILURE, queue, H)
      else traverse_loop (\<lambda>queue. map_option Not (queue_is_empty queue))
             (\<lambda>queue. on_queue (queue_dequeue shutdown queue)) bfs_visit_node visited_list queue H)"

definition bfs_end :: "bool \<Rightarrow> int \<Rightarrow> queue_t option \<Rightarrow> ptr \<Rightarrow> graph_heap \<Rightarrow> (int \<times> graph_heap) option" where
  "bfs_end shutdown exit_code queue visited_list H =
     do {
       (_, _, H) \<leftarrow> on_queue (queue_destroy shutdown queue) H;
       (_, H) \<leftarrow> on_lists (delete_list visited_list) H;
       Some (exit_code, H) }"

definition graph_bfs :: "bool \<Rightarrow> bool \<Rightarrow> graph_t option \<Rightarrow> ptr \<Rightarrow> bool \<Rightarrow> graph_heap \<Rightarrow> (int \<times> graph_heap) option" where
  "graph_bfs sync_ok shutdown graph start_data action_is_NULL H =
     (if graph = None \<or> start_data = NULL \<or> action_is_NULL then bfs_end shutdown E_FAILURE None NULL H
      else do {
        (exit_code, visited_list, queue, start_node, H) \<leftarrow> initialize_bfs sync_ok graph start_data H;
        if exit_code \<noteq> E_SUCCESS then bfs_end shutdown exit_code queue visited_list H
        else do {
          (exit_code, queue, H) \<leftarrow> bfs_visit_node queue visited_list start_node H;
          if exit_code \<noteq> E_SUCCESS then bfs_end shutdown exit_code queue visited_list H
          else do {
            (exit_code, queue, H) \<leftarrow> traverse_bfs shutdown queue visited_list action_is_NULL H;
            if exit_code \<noteq> E_SUCCESS then bfs_end shutdown exit_code queue visited_list H
            else bfs_end shutdown E_SUCCESS queue visited_list H } } })"

lemmas [code] = visit_edges.simps traverse_loop.simps

section \<open>What a traversal relies on\<close>

definition target :: "(ptr \<rightharpoonup> edge_t) \<Rightarrow> ptr \<Rightarrow> ptr" where
  "target E e = ed_node_2 (the (E e))"

text \<open>The neighbours of a node, in the order of its edge list: always the second end of the edge.\<close>

definition neighbors :: "(ptr \<rightharpoonup> edge_t) \<Rightarrow> (ptr \<Rightarrow> ptr list) \<Rightarrow> ptr \<Rightarrow> ptr list" where
  "neighbors E A v = map (target E) (A v)"

definition edges_inside :: "(ptr \<rightharpoonup> edge_t) \<Rightarrow> ptr list \<Rightarrow> ptr list \<Rightarrow> bool" where
  "edges_inside E Vg es \<longleftrightarrow> (\<forall>e \<in> set es. e \<noteq> NULL \<and> (\<exists>ed. E e = Some ed \<and> ed_node_2 ed \<in> set Vg))"

lemma neighbors_inside: "edges_inside E Vg (A v) \<Longrightarrow> set (neighbors E A v) \<subseteq> set Vg"
  by (fastforce simp: edges_inside_def target_def neighbors_def)

text \<open>The graph with the list of visited nodes beside it.\<close>

definition visiting :: "graph_heap \<Rightarrow> graph_t \<Rightarrow> list_store \<Rightarrow> ptr list \<Rightarrow> (ptr \<Rightarrow> ptr list) \<Rightarrow> ptr \<Rightarrow> ptr list \<Rightarrow> bool" where
  "visiting H g L Vg A vis V \<longleftrightarrow>
     nodes_in H g L Vg A \<and> vis \<notin> edge_list_of H ` set Vg \<and> vis \<noteq> gr_node_list g \<and>
     (\<exists>ns. L vis = Some (Some default_free, Some node_ptr_comp, ns) \<and> datas ns = V) \<and>
     (\<forall>v \<in> set Vg. edges_inside (g_edges H) Vg (A v))"

definition graph_core :: "graph_heap \<Rightarrow> _" where
  "graph_core H = (g_lists H, g_nodes H, g_edges H, g_brk H, g_plan H, g_released H, g_acted H)"

definition side :: "graph_heap \<Rightarrow> stack_heap \<times> queue_heap" where
  "side H = (g_stack H, g_queue H)"

definition keeps :: "graph_heap \<Rightarrow> graph_heap \<Rightarrow> bool" where
  "keeps H H' \<longleftrightarrow> g_nodes H' = g_nodes H \<and> g_edges H' = g_edges H \<and> g_brk H' = g_brk H \<and>
     g_plan H' = g_plan H \<and> g_released H' = g_released H"

lemma nodes_in_cong:
  assumes N: "nodes_in H g L V A" and "keeps H H'" and "lists_ok (g_lists H') L'"
    and "L' (gr_node_list g) = L (gr_node_list g)" and "\<And>v. v \<in> set V \<Longrightarrow> L' (edge_list_of H v) = L (edge_list_of H v)"
  shows "nodes_in H' g L' V A"
proof -
  have same: "edge_list_of H' = edge_list_of H"
    using assms(2) by (simp add: edge_list_of_def keeps_def fun_eq_iff)
  have "node_ok H' L' A v" if "v \<in> set V" for v
    by (rule node_ok_mono [OF nodes_inD(9) [OF N that]]) (use assms that in \<open>auto simp: keeps_def\<close>)
  moreover have "graph_fresh H'" using nodes_inD(3) [OF N] assms(2) by (simp add: graph_fresh_def keeps_def)
  ultimately show ?thesis using nodes_inD [OF N] assms unfolding nodes_in_def same by (auto simp: keeps_def)
qed

lemma visiting_cong:
  assumes "visiting H g L Vg A vis V" and "keeps H H'" and "g_lists H' = g_lists H"
  shows "visiting H' g L Vg A vis V"
proof -
  have "edge_list_of H' = edge_list_of H" "g_edges H' = g_edges H"
    using assms(2) by (simp_all add: edge_list_of_def keeps_def fun_eq_iff)
  moreover have N: "nodes_in H g L Vg A" using assms(1) by (simp add: visiting_def)
  then have "nodes_in H' g L Vg A"
    by (rule nodes_in_cong) (use nodes_inD(1) [OF N] assms(2,3) in auto)
  ultimately show ?thesis using assms(1) by (simp add: visiting_def)
qed

lemma visited_push:
  assumes T: "visiting H g L Vg A vis V" and x: "x \<noteq> NULL" and sz: "Suc (length V) < 2 ^ 32"
  shows "\<exists>h L'. on_lists (list_push_tail vis x) H = Some (E_SUCCESS, H\<lparr>g_lists := h\<rparr>) \<and>
    visiting (H\<lparr>g_lists := h\<rparr>) g L' Vg A vis (V @ [x]) \<and> (\<forall>p. p \<noteq> vis \<longrightarrow> L' p = L p)"
proof -
  have N: "nodes_in H g L Vg A" using T by (simp add: visiting_def)
  obtain ns where ns: "L vis = Some (Some default_free, Some node_ptr_comp, ns)" "datas ns = V"
    using T by (auto simp: visiting_def)
  have len: "Suc (length ns) < 2 ^ 32" using sz by (simp flip: ns(2))
  obtain h a where h: "list_push_tail vis x (g_lists H) = Some (E_SUCCESS, h)"
      "lists_ok h (L(vis \<mapsto> (Some default_free, Some node_ptr_comp, ns @ [(a, x)])))"
      "released h = released (g_lists H)"
    using lists_ok_push_tail [OF nodes_inD(1) [OF N] ns(1) x len] by blast
  let ?L = "L(vis \<mapsto> (Some default_free, Some node_ptr_comp, ns @ [(a, x)]))"
  have sep: "vis \<noteq> edge_list_of H v" if "v \<in> set Vg" for v using T that by (auto simp: visiting_def)
  have "nodes_in (H\<lparr>g_lists := h\<rparr>) g ?L Vg A"
    by (rule nodes_in_cong [OF N]) (use h(2) T sep in \<open>auto simp: keeps_def visiting_def\<close>)
  moreover have "edge_list_of (H\<lparr>g_lists := h\<rparr>) = edge_list_of H" by (simp add: edge_list_of_def fun_eq_iff)
  ultimately have "visiting (H\<lparr>g_lists := h\<rparr>) g ?L Vg A vis (V @ [x])"
    using T ns(2) by (simp add: visiting_def)
  moreover note on_lists_quiet [where f = "list_push_tail vis x", OF h(1,3)]
  ultimately show ?thesis by (intro exI [of _ h] exI [of _ ?L]) simp
qed

lemma visited_contains:
  assumes T: "visiting H g L Vg A vis V" and x: "x \<noteq> NULL"
  shows "list_contains vis x (g_lists H) = Some (x \<in> set V)"
proof -
  have N: "nodes_in H g L Vg A" using T by (simp add: visiting_def)
  obtain ns where ns: "L vis = Some (Some default_free, Some node_ptr_comp, ns)" "datas ns = V"
    using T by (auto simp: visiting_def)
  have "NULL \<notin> set V" using lists_okD(3) [OF nodes_inD(1) [OF N] ns(1)] ns(2) by (auto simp: list_rep_def)
  then have "(\<exists>d \<in> set (datas ns). node_ptr_comp d x = Some EQUAL) \<longleftrightarrow> x \<in> set V"
    using x ns(2) by (auto simp: node_ptr_comp_def)
  moreover have "\<forall>d \<in> set (datas ns). \<exists>c. node_ptr_comp d x = Some c" by (simp add: node_ptr_comp_def)
  ultimately show ?thesis using lists_ok_contains [OF nodes_inD(1) [OF N] ns(1) x] by simp
qed

lemma graph_rep_inside: "graph_rep H g V A \<Longrightarrow> v \<in> set V \<Longrightarrow> edges_inside (g_edges H) V (A v)"
  unfolding graph_rep_def edges_inside_def edge_ok_def by blast

text \<open>A new, empty list of visited nodes.\<close>

lemma visited_new:
  assumes R: "graph_rep H g V A" and N: "nodes_in H g L V A"
  shows "\<exists>vis h L'. on_lists (list_new (Some default_free) (Some node_ptr_comp)) H = Some (vis, H\<lparr>g_lists := h\<rparr>) \<and>
    visiting (H\<lparr>g_lists := h\<rparr>) g L' V A vis [] \<and> vis \<noteq> NULL"
proof -
  let ?vis = "brk (g_lists H)"
  let ?x = "(Some default_free, Some node_ptr_comp, [])"
  obtain h where h: "list_new (Some default_free) (Some node_ptr_comp) (g_lists H) = Some (?vis, h)"
      "lists_ok h (L(?vis \<mapsto> ?x))" "released h = released (g_lists H)" "?vis \<noteq> NULL" "L ?vis = None"
    using lists_ok_new [OF nodes_inD(1) [OF N]] by blast
  have sep: "edge_list_of H v \<noteq> ?vis" if "v \<in> set V" for v
    using nodes_inD(9) [OF N that] h(5) by (auto elim!: node_okE)
  have sep': "gr_node_list g \<noteq> ?vis" using nodes_inD(4) [OF N] h(5) by auto
  have "nodes_in (H\<lparr>g_lists := h\<rparr>) g (L(?vis \<mapsto> ?x)) V A"
    by (rule nodes_in_cong [OF N]) (use h(2) sep sep' in \<open>auto simp: keeps_def\<close>)
  moreover have "edge_list_of (H\<lparr>g_lists := h\<rparr>) = edge_list_of H" by (simp add: edge_list_of_def fun_eq_iff)
  moreover have "?vis \<notin> edge_list_of H ` set V" using sep by (metis imageE)
  ultimately have "visiting (H\<lparr>g_lists := h\<rparr>) g (L(?vis \<mapsto> ?x)) V A ?vis []"
    using sep' graph_rep_inside [OF R] by (simp add: visiting_def)
  with on_lists_quiet [where f = "list_new (Some default_free) (Some node_ptr_comp)", OF h(1,3)] h(4)
  show ?thesis by blast
qed

text \<open>Deleting the list of visited nodes leaves the graph as it was.\<close>

lemma visited_delete:
  assumes T: "visiting H g L V A vis W"
  shows "\<exists>h. on_lists (delete_list vis) H = Some ((E_SUCCESS, NULL), H\<lparr>g_lists := h\<rparr>) \<and>
    nodes_in (H\<lparr>g_lists := h\<rparr>) g (L(vis := None)) V A"
proof -
  have N: "nodes_in H g L V A" using T by (simp add: visiting_def)
  obtain ns where ns: "L vis = Some (Some default_free, Some node_ptr_comp, ns)"
    using T by (auto simp: visiting_def)
  obtain h where h: "list_delete (Some vis) (g_lists H) = Some (E_SUCCESS, Some NULL, h)"
      "lists_ok h (L(vis := None))" "released h = released (g_lists H) @ releases (Some default_free) (datas ns)"
    using lists_ok_delete [OF nodes_inD(1) [OF N] ns] by blast
  have quiet: "released h = released (g_lists H)" using h(3) by (simp add: releases_def default_free_def)
  have d: "delete_list vis (g_lists H) = Some ((E_SUCCESS, NULL), h)" using h(1) by (simp add: delete_list_def)
  have "nodes_in (H\<lparr>g_lists := h\<rparr>) g (L(vis := None)) V A"
    by (rule nodes_in_cong [OF N]) (use h(2) T in \<open>auto simp: keeps_def visiting_def\<close>)
  with on_lists_quiet [where f = "delete_list vis", OF d quiet] show ?thesis by blast
qed

lemma graph_rep_keeps:
  assumes "graph_rep H g V A" and "keeps H H'" and "nodes_in H' g L V A"
  shows "graph_rep H' g V A"
  using assms unfolding graph_rep_def edge_ok_def keeps_def by metis

section \<open>Traversals with any container\<close>

text \<open>
  The interface a traversal relies on: a container that holds a sequence of nodes, up to
  \<open>cap\<close> of them, gives them back in the order of its discipline and leaves the graph alone.
\<close>

locale graph_container = worklist out for out :: "ptr list \<Rightarrow> ptr \<times> ptr list" +
  fixes push :: "'c option \<Rightarrow> ptr \<Rightarrow> graph_heap \<Rightarrow> (int \<times> 'c option \<times> graph_heap) option"
    and pop :: "'c option \<Rightarrow> graph_heap \<Rightarrow> (ptr \<times> 'c option \<times> graph_heap) option"
    and nonempty :: "'c option \<Rightarrow> bool option"
    and holds :: "stack_heap \<times> queue_heap \<Rightarrow> 'c \<Rightarrow> ptr list \<Rightarrow> bool"
    and cap :: nat
  assumes push_ok: "holds (side H) c W \<Longrightarrow> x \<noteq> NULL \<Longrightarrow> length W < cap \<Longrightarrow>
      \<exists>c' H'. push (Some c) x H = Some (E_SUCCESS, Some c', H') \<and> holds (side H') c' (W @ [x]) \<and> graph_core H' = graph_core H"
    and pop_ok: "holds (side H) c W \<Longrightarrow> W \<noteq> [] \<Longrightarrow> out W = (x, W') \<Longrightarrow>
      \<exists>c' H'. pop (Some c) H = Some (x, Some c', H') \<and> holds (side H') c' W' \<and> graph_core H' = graph_core H"
    and nonempty_ok: "holds (side H) c W \<Longrightarrow> nonempty (Some c) = Some (W \<noteq> [])"
begin

lemma visit_node_ok:
  assumes h: "holds (side H) c W" and T: "visiting H g L Vg A vis V" and x: "x \<noteq> NULL"
    and sz: "length W < cap" "Suc (length V) < 2 ^ 32"
  shows "\<exists>c' H' L'. visit_node push (Some c) vis x H = Some (E_SUCCESS, Some c', H') \<and>
    holds (side H') c' (W @ [x]) \<and> visiting H' g L' Vg A vis (V @ [x]) \<and> keeps H H' \<and>
    g_acted H' = g_acted H \<and> (\<forall>p. p \<noteq> vis \<longrightarrow> L' p = L p)"
proof -
  obtain c' H1 where P: "push (Some c) x H = Some (E_SUCCESS, Some c', H1)" "holds (side H1) c' (W @ [x])"
      "graph_core H1 = graph_core H"
    using push_ok [OF h x sz(1)] by blast
  have k: "keeps H H1" "g_lists H1 = g_lists H" "g_acted H1 = g_acted H" using P(3) by (auto simp: keeps_def graph_core_def)
  have T1: "visiting H1 g L Vg A vis V" by (rule visiting_cong [OF T k(1,2)])
  obtain h' L' where V: "on_lists (list_push_tail vis x) H1 = Some (E_SUCCESS, H1\<lparr>g_lists := h'\<rparr>)"
      "visiting (H1\<lparr>g_lists := h'\<rparr>) g L' Vg A vis (V @ [x])" "\<forall>p. p \<noteq> vis \<longrightarrow> L' p = L p"
    using visited_push [OF T1 x sz(2)] by blast
  have "vis \<noteq> NULL" using T lists_ok_obj nodes_inD(1) unfolding visiting_def by blast
  then have "visit_node push (Some c) vis x H = Some (E_SUCCESS, Some c', H1\<lparr>g_lists := h'\<rparr>)"
    using P(1) V(1) x by (simp add: visit_node_def)
  moreover have "holds (side (H1\<lparr>g_lists := h'\<rparr>)) c' (W @ [x])" using P(2) by (simp add: side_def)
  ultimately show ?thesis using V k by (auto simp: keeps_def)
qed

lemma room:
  assumes "distinct W" and "set W \<subseteq> set V" and "set V \<subseteq> set Vg" and "t \<in> set Vg" and "t \<notin> set V"
  shows "length W < length Vg"
proof -
  have "length (t # W) = card (set (t # W))" using assms by (metis distinct.simps(2) distinct_card subsetD)
  also have "\<dots> \<le> card (set Vg)" using assms by (intro card_mono) auto
  also have "\<dots> \<le> length Vg" by (rule card_length)
  finally show ?thesis by simp
qed

lemma visiting_node:
  assumes "visiting H g L Vg A vis V" and "v \<in> set Vg"
  shows "node_ok H L A v" and "v \<noteq> NULL" and "length Vg < 2 ^ 32"
proof -
  have N: "nodes_in H g L Vg A" using assms(1) by (simp add: visiting_def)
  show "node_ok H L A v" by (rule nodes_inD(9) [OF N assms(2)])
  then show "v \<noteq> NULL" by (simp add: node_ok_def)
  obtain co ns where "L (gr_node_list g) = Some (Some (gr_custom_free g), co, ns)" "datas ns = Vg"
    using nodes_inD(4) [OF N] by blast
  then show "length Vg < 2 ^ 32" using lists_ok_read_list [OF nodes_inD(1) [OF N]] by (metis length_map)
qed

lemma visit_edges_ok:
  assumes "holds (side H) c W" and "visiting H g L Vg A vis V" and "L el = Some (fo, co, xs @ ys)" and "el \<noteq> vis"
    and "edges_inside (g_edges H) Vg (datas ys)"
    and "distinct W" and "distinct V" and "set W \<subseteq> set V" and "set V \<subseteq> set Vg" and cap: "length Vg \<le> cap"
  shows "\<exists>c' H' L'. visit_edges (visit_node push) vis (at_node ys) (Some c) H = Some (True, Some c', H') \<and>
    holds (side H') c' (W @ fresh V (map (target (g_edges H)) (datas ys))) \<and>
    visiting H' g L' Vg A vis (V @ fresh V (map (target (g_edges H)) (datas ys))) \<and>
    keeps H H' \<and> g_acted H' = g_acted H"
  using assms(1-9)
proof (induction ys arbitrary: xs H c W L V)
  case Nil
  then show ?case by (subst visit_edges.simps) (auto simp: keeps_def)
next
  case (Cons y ys)
  obtain a e where y: "y = (a, e)" by (cases y)
  have lo: "lists_ok (g_lists H) L" using Cons.prems(2) by (auto simp: visiting_def nodes_in_def)
  obtain n where n: "read_node a (g_lists H) = Some n" "n_data n = e" "n_next n = at_node ys" "a \<noteq> NULL"
    using lists_ok_read_node [OF lo] Cons.prems(3) y by blast
  obtain ed where ed: "read_edge e H = Some ed" "ed_node_2 ed \<in> set Vg" "target (g_edges H) e = ed_node_2 ed"
    using Cons.prems(5) y by (auto simp: edges_inside_def read_edge_def target_def)
  let ?t = "ed_node_2 ed"
  note tn = visiting_node [OF Cons.prems(2) ed(2)]
  note seen = visited_contains [OF Cons.prems(2) tn(2)]
  have rest: "edges_inside (g_edges H) Vg (datas ys)" using Cons.prems(5) by (simp add: edges_inside_def)
  show ?case
  proof (cases "?t \<in> set V")
    case True
    then have "visit_edges (visit_node push) vis (at_node (y # ys)) (Some c) H =
        visit_edges (visit_node push) vis (at_node ys) (Some c) H"
      using y n ed(1) seen by (subst visit_edges.simps) simp
    moreover have "L el = Some (fo, co, (xs @ [y]) @ ys)" using Cons.prems(3) by simp
    note Cons.IH [OF Cons.prems(1,2) this Cons.prems(4) rest Cons.prems(6-9)]
    ultimately show ?thesis using True y ed(3) by simp
  next
    case False
    have len: "length W < cap" "Suc (length V) < 2 ^ 32"
      using room [OF Cons.prems(6,8,9) ed(2) False] room [OF Cons.prems(7) _ Cons.prems(9) ed(2) False] cap tn(3) by auto
    obtain c1 H1 L1 where V: "visit_node push (Some c) vis ?t H = Some (E_SUCCESS, Some c1, H1)"
        "holds (side H1) c1 (W @ [?t])" "visiting H1 g L1 Vg A vis (V @ [?t])" "keeps H H1"
        "g_acted H1 = g_acted H" "\<forall>p. p \<noteq> vis \<longrightarrow> L1 p = L p"
      using visit_node_ok [OF Cons.prems(1,2) tn(2) len] by blast
    have E1: "g_edges H1 = g_edges H" using V(4) by (simp add: keeps_def)
    have L1: "L1 el = Some (fo, co, (xs @ [y]) @ ys)" using V(6) Cons.prems(3,4) by simp
    have "lists_ok (g_lists H1) L1" using V(3) by (auto simp: visiting_def nodes_in_def)
    then obtain n1 where n1: "read_node a (g_lists H1) = Some n1" "n_next n1 = at_node ys"
      using lists_ok_read_node [of "g_lists H1" L1 el fo co xs a e ys] L1 y by auto
    have "visit_edges (visit_node push) vis (at_node (y # ys)) (Some c) H =
        visit_edges (visit_node push) vis (at_node ys) (Some c1) H1"
      using y n ed(1) seen False V(1) n1 by (subst visit_edges.simps) simp
    moreover have "distinct (W @ [?t])" "distinct (V @ [?t])" "set (W @ [?t]) \<subseteq> set (V @ [?t])" "set (V @ [?t]) \<subseteq> set Vg"
      using Cons.prems(6-9) False ed(2) by auto
    note Cons.IH [OF V(2,3) L1 Cons.prems(4) rest [folded E1] this]
    ultimately show ?thesis using False y ed(3) E1 V(4,5) by (auto simp: keeps_def)
  qed
qed

text \<open>One round of the loop, and the loop as a whole, which follows the abstract search.\<close>

lemma traverse_step:
  assumes h: "holds (side H) c W" and T: "visiting H g L Vg A vis V" and w: "W \<noteq> []" "out W = (x, W')"
    and d: "distinct W" "distinct V" "set W \<subseteq> set V" "set V \<subseteq> set Vg" and cap: "length Vg \<le> cap"
  defines "ys \<equiv> fresh V (neighbors (g_edges H) A x)"
  shows "\<exists>c' H' L'. traverse_loop nonempty pop (visit_node push) vis (Some c) H =
      traverse_loop nonempty pop (visit_node push) vis (Some c') H' \<and>
    holds (side H') c' (W' @ ys) \<and> visiting H' g L' Vg A vis (V @ ys) \<and> keeps H H' \<and>
    g_acted H' = g_acted H @ [data_of H x]"
proof -
  obtain c1 H1 where P: "pop (Some c) H = Some (x, Some c1, H1)" "holds (side H1) c1 W'" "graph_core H1 = graph_core H"
    using pop_ok [OF h w] by blast
  have k1: "keeps H H1" "g_lists H1 = g_lists H" "g_acted H1 = g_acted H" using P(3) by (auto simp: keeps_def graph_core_def)
  have xV: "x \<in> set Vg" and W': "distinct W'" "set W' \<subseteq> set V"
    using d out_set(1) [OF w] out_set(2) [OF w, of "[]"] by auto
  let ?H2 = "H1\<lparr>g_acted := g_acted H1 @ [data_of H x]\<rparr>"
  have k2: "keeps H ?H2" "g_lists ?H2 = g_lists H" using k1 by (auto simp: keeps_def)
  have T2: "visiting ?H2 g L Vg A vis V" by (rule visiting_cong [OF T k2])
  obtain n co ns where n: "x \<noteq> NULL" "read_gnode x ?H2 = Some n" "gn_data n = data_of ?H2 x"
      "gn_edge_list n = edge_list_of ?H2 x" "L (edge_list_of ?H2 x) = Some (Some edge_list_free, co, ns)" "datas ns = A x"
    using visiting_node(1) [OF T2 xV] by (rule node_okE)
  have n1: "read_gnode x H1 = Some n" "gn_data n = data_of H x"
    using n(2,3) k1(1) by (auto simp: read_gnode_def data_of_def keeps_def)
  have lo: "lists_ok (g_lists ?H2) L" using T2 by (auto simp: visiting_def nodes_in_def)
  obtain l where l: "read_list (edge_list_of ?H2 x) (g_lists ?H2) = Some l" "l_head l = at_node ns"
    using lists_ok_read_list [OF lo n(5)] by blast
  have E2: "g_edges ?H2 = g_edges H" using k2(1) by (simp add: keeps_def)
  have ei: "edges_inside (g_edges ?H2) Vg (datas ns)" "edge_list_of ?H2 x \<noteq> vis"
    using T2 xV n(6) by (auto simp: visiting_def)
  have h2: "holds (side ?H2) c1 W'" using P(2) by (simp add: side_def)
  have L2: "L (edge_list_of ?H2 x) = Some (Some edge_list_free, co, [] @ ns)" using n(5) by simp
  obtain c3 H3 L3 where V: "visit_edges (visit_node push) vis (at_node ns) (Some c1) ?H2 = Some (True, Some c3, H3)"
      "holds (side H3) c3 (W' @ ys)" "visiting H3 g L3 Vg A vis (V @ ys)"
      "keeps ?H2 H3" "g_acted H3 = g_acted ?H2"
    using visit_edges_ok [OF h2 T2 L2 ei(2,1) W'(1) d(2) W'(2) d(4) cap]
    unfolding ys_def neighbors_def n(6) E2 by blast
  have "traverse_loop nonempty pop (visit_node push) vis (Some c) H =
      traverse_loop nonempty pop (visit_node push) vis (Some c3) H3"
    using nonempty_ok [OF h] w(1) P(1) n(1,4) n1 l V(1) by (subst traverse_loop.simps) simp
  with V k1(3) k2(1) show ?thesis by (auto simp: keeps_def)
qed

lemma traverse_loop_ok:
  assumes "search out (neighbors E A) W V D D'"
    and "holds (side H) c W" and "visiting H g L Vg A vis V" and "g_edges H = E"
    and "search_inv (neighbors E A) s W V D" and "distinct V" and "s \<in> set Vg" and cap: "length Vg \<le> cap"
  shows "\<exists>c' H' L' V' xs. traverse_loop nonempty pop (visit_node push) vis (Some c) H = Some (E_SUCCESS, Some c', H') \<and>
    holds (side H') c' [] \<and> visiting H' g L' Vg A vis V' \<and> keeps H H' \<and>
    D' = D @ xs \<and> g_acted H' = g_acted H @ map (data_of H) xs"
  using assms(1-7)
proof (induction arbitrary: H c L rule: search.induct)
  case (search_done V D)
  then show ?case by (subst traverse_loop.simps) (auto simp: nonempty_ok keeps_def)
next
  case (search_step W x W' V D D')
  let ?ys = "fresh V (neighbors E A x)"
  note I = search_inv_step [OF search_step.prems(4) search_step.hyps(1,2)]
  have "reachable (neighbors E A) s \<subseteq> set Vg"
    using search_step.prems(2,3,6)
    by (intro reachable_closed) (simp_all add: visiting_def neighbors_inside)
  then have sub: "distinct W" "set W \<subseteq> set V" "set V \<subseteq> set Vg"
    using search_step.prems(4) by (auto simp: search_inv_def)
  obtain c3 H3 L3 where S: "traverse_loop nonempty pop (visit_node push) vis (Some c) H =
      traverse_loop nonempty pop (visit_node push) vis (Some c3) H3"
      "holds (side H3) c3 (W' @ ?ys)" "visiting H3 g L3 Vg A vis (V @ ?ys)" "keeps H H3"
      "g_acted H3 = g_acted H @ [data_of H x]"
    using traverse_step [OF search_step.prems(1,2) search_step.hyps(1,2) sub(1) search_step.prems(5) sub(2,3) cap]
    unfolding search_step.prems(3) by blast
  have E3: "g_edges H3 = E" "data_of H3 = data_of H"
    using S(4) search_step.prems(3) by (auto simp: keeps_def data_of_def fun_eq_iff)
  have dV: "distinct (V @ ?ys)"
    using search_step.prems(5) by (auto simp: distinct_fresh set_fresh)
  obtain c4 H4 L4 V4 xs where "traverse_loop nonempty pop (visit_node push) vis (Some c3) H3 = Some (E_SUCCESS, Some c4, H4)"
      "holds (side H4) c4 []" "visiting H4 g L4 Vg A vis V4" "keeps H3 H4" "D' = (D @ [x]) @ xs"
      "g_acted H4 = g_acted H3 @ map (data_of H3) xs"
    using search_step.IH [OF S(2,3) E3(1) I dV search_step.prems(6)] by blast
  moreover from this have "keeps H H4" using S(4) by (simp add: keeps_def)
  ultimately show ?case unfolding S(1) using S(5) E3(2) by auto
qed

text \<open>From a start node, the traversal ends and acts on exactly the reachable nodes, once each.\<close>

lemma traversal:
  assumes h: "holds (side H) c []" and T: "visiting H g L Vg A vis []" and s: "s \<in> set Vg"
    and cap: "length Vg \<le> cap" "0 < cap"
  shows "\<exists>c1 H1 c2 H2 L2 V2 xs.
    visit_node push (Some c) vis s H = Some (E_SUCCESS, Some c1, H1) \<and>
    traverse_loop nonempty pop (visit_node push) vis (Some c1) H1 = Some (E_SUCCESS, Some c2, H2) \<and>
    holds (side H2) c2 [] \<and> visiting H2 g L2 Vg A vis V2 \<and> keeps H H2 \<and>
    g_acted H2 = g_acted H @ map (data_of H) xs \<and>
    distinct xs \<and> set xs = reachable (neighbors (g_edges H) A) s"
proof -
  let ?succ = "neighbors (g_edges H) A"
  obtain c1 H1 L1 where V: "visit_node push (Some c) vis s H = Some (E_SUCCESS, Some c1, H1)"
      "holds (side H1) c1 [s]" "visiting H1 g L1 Vg A vis [s]" "keeps H H1" "g_acted H1 = g_acted H"
    using visit_node_ok [OF h T visiting_node(2) [OF T s]] cap(2) by auto
  have E1: "g_edges H1 = g_edges H" "data_of H1 = data_of H"
    using V(4) by (auto simp: keeps_def data_of_def fun_eq_iff)
  have clos: "set (?succ x) \<subseteq> set Vg" if "x \<in> set Vg" for x
    using T that by (simp add: visiting_def neighbors_inside)
  obtain D' where D': "search out ?succ [s] [s] [] D'"
    using search_terminates [where succ = ?succ, OF finite_set clos search_inv_start s] by blast
  obtain c2 H2 L2 V2 where "traverse_loop nonempty pop (visit_node push) vis (Some c1) H1 = Some (E_SUCCESS, Some c2, H2)"
      "holds (side H2) c2 []" "visiting H2 g L2 Vg A vis V2" "keeps H1 H2"
      "g_acted H2 = g_acted H1 @ map (data_of H1) D'"
    using traverse_loop_ok [OF D' V(2,3) E1(1) search_inv_start _ s cap(1)] by auto
  moreover have "distinct D' \<and> set D' = reachable ?succ s" by (rule search_correct [OF D' search_inv_start])
  moreover have "keeps H H2" using V(4) \<open>keeps H1 H2\<close> by (simp add: keeps_def)
  ultimately show ?thesis using V(1,5) E1(2) by auto
qed

text \<open>A complete search: a new list of visited nodes, the traversal, and the list deleted again, whatever
  has been done to the container in between.\<close>

lemma search_run:
  assumes R: "graph_rep H g V A" and s: "s \<in> set V" and h: "holds (side H) c []" and cap: "length V \<le> cap" "0 < cap"
  shows "\<exists>vis h L1 c1 H2 c2 H3 xs.
    on_lists (list_new (Some default_free) (Some node_ptr_comp)) H = Some (vis, H\<lparr>g_lists := h\<rparr>) \<and>
    vis \<noteq> NULL \<and> nodes_in (H\<lparr>g_lists := h\<rparr>) g L1 V A \<and>
    visit_node push (Some c) vis s (H\<lparr>g_lists := h\<rparr>) = Some (E_SUCCESS, Some c1, H2) \<and>
    traverse_loop nonempty pop (visit_node push) vis (Some c1) H2 = Some (E_SUCCESS, Some c2, H3) \<and>
    holds (side H3) c2 [] \<and> g_acted H3 = g_acted H @ map (data_of H) xs \<and> distinct xs \<and>
    set xs = reachable (neighbors (g_edges H) A) s \<and>
    (\<forall>H4. graph_core H4 = graph_core H3 \<longrightarrow> (\<exists>h5. on_lists (delete_list vis) H4 = Some ((E_SUCCESS, NULL), H4\<lparr>g_lists := h5\<rparr>) \<and>
       graph_rep (H4\<lparr>g_lists := h5\<rparr>) g V A \<and> keeps H (H4\<lparr>g_lists := h5\<rparr>)))"
proof -
  obtain L where N: "nodes_in H g L V A" using R by (auto simp: graph_rep_def)
  obtain vis h L1 where v: "on_lists (list_new (Some default_free) (Some node_ptr_comp)) H = Some (vis, H\<lparr>g_lists := h\<rparr>)"
      "visiting (H\<lparr>g_lists := h\<rparr>) g L1 V A vis []" "vis \<noteq> NULL"
    using visited_new [OF R N] by blast
  let ?H1 = "H\<lparr>g_lists := h\<rparr>"
  have "holds (side ?H1) c []" using assms(3) by (simp add: side_def)
  from traversal [OF this v(2) s cap] obtain c1 H2 c2 H3 L3 V3 xs where
      t: "visit_node push (Some c) vis s ?H1 = Some (E_SUCCESS, Some c1, H2)"
      "traverse_loop nonempty pop (visit_node push) vis (Some c1) H2 = Some (E_SUCCESS, Some c2, H3)"
      "holds (side H3) c2 []" "visiting H3 g L3 V A vis V3" "keeps ?H1 H3"
      "g_acted H3 = g_acted ?H1 @ map (data_of ?H1) xs" "distinct xs"
      "set xs = reachable (neighbors (g_edges ?H1) A) s"
    by blast
  have "\<exists>h5. on_lists (delete_list vis) H4 = Some ((E_SUCCESS, NULL), H4\<lparr>g_lists := h5\<rparr>) \<and>
      graph_rep (H4\<lparr>g_lists := h5\<rparr>) g V A \<and> keeps H (H4\<lparr>g_lists := h5\<rparr>)" if c4: "graph_core H4 = graph_core H3" for H4
  proof -
    have "visiting H4 g L3 V A vis V3"
      by (rule visiting_cong [OF t(4)]) (use c4 in \<open>auto simp: keeps_def graph_core_def\<close>)
    from visited_delete [OF this] obtain h5 where
        d: "on_lists (delete_list vis) H4 = Some ((E_SUCCESS, NULL), H4\<lparr>g_lists := h5\<rparr>)"
        "nodes_in (H4\<lparr>g_lists := h5\<rparr>) g (L3(vis := None)) V A" by blast
    have "keeps H (H4\<lparr>g_lists := h5\<rparr>)" using t(5) c4 by (auto simp: keeps_def graph_core_def)
    with d graph_rep_keeps [OF R this d(2)] show ?thesis by blast
  qed
  moreover have "data_of ?H1 = data_of H" by (simp add: data_of_def fun_eq_iff)
  moreover have "nodes_in ?H1 g L1 V A" using v(2) by (simp add: visiting_def)
  moreover have "g_acted H3 = g_acted H @ map (data_of H) xs" "set xs = reachable (neighbors (g_edges H) A) s"
    using t(6,8) \<open>data_of ?H1 = data_of H\<close> by simp_all
  ultimately show ?thesis using v(1,3) t(1-3,7) by blast
qed

end

section \<open>The two containers\<close>

fun stack_holds :: "stack_heap \<times> queue_heap \<Rightarrow> stack_t \<Rightarrow> ptr list \<Rightarrow> bool" where
  "stack_holds (sh, _) s W \<longleftrightarrow>
     (\<exists>cs. stack_rep sh s cs \<and> map snd cs = W) \<and> stack_heap_ok sh \<and> s_plan sh = [] \<and>
     s_capacity s = MAX_STACK_SIZE \<and> s_customfree s = Some libc_free"

fun queue_holds :: "stack_heap \<times> queue_heap \<Rightarrow> queue_t \<Rightarrow> ptr list \<Rightarrow> bool" where
  "queue_holds (_, qh) q W \<longleftrightarrow>
     (\<exists>cs. queue_rep qh q cs \<and> map snd cs = W) \<and> queue_heap_ok qh \<and> q_plan qh = [] \<and>
     q_max_size q = QUEUE_UNBOUNDED \<and> q_customfree q = libc_free"

lemma on_stack_quiet:
  "f (g_stack H) = Some (r, s, h) \<Longrightarrow> s_released h = s_released (g_stack H) \<Longrightarrow>
   on_stack f H = Some (r, s, H\<lparr>g_stack := h\<rparr>)"
  by (simp add: on_stack_def)

lemma on_queue_quiet:
  "f (g_queue H) = Some (Returned r, q, h) \<Longrightarrow> q_released h = q_released (g_queue H) \<Longrightarrow>
   on_queue f H = Some (r, q, H\<lparr>g_queue := h\<rparr>)"
  by (simp add: on_queue_def)

lemma core_side_update [simp]:
  "graph_core (H\<lparr>g_stack := x\<rparr>) = graph_core H" "graph_core (H\<lparr>g_queue := y\<rparr>) = graph_core H"
  "side (H\<lparr>g_stack := x\<rparr>) = (x, g_queue H)" "side (H\<lparr>g_queue := y\<rparr>) = (g_stack H, y)"
  by (simp_all add: graph_core_def side_def)

lemma stack_holds_push:
  assumes "stack_holds (side H) s W" and "x \<noteq> NULL" and "length W < 2000"
  shows "\<exists>s' H'. on_stack (stack_push (Some s) x) H = Some (E_SUCCESS, Some s', H') \<and>
    stack_holds (side H') s' (W @ [x]) \<and> graph_core H' = graph_core H"
proof -
  obtain cs where cs: "stack_rep (g_stack H) s cs" "map snd cs = W" "stack_heap_ok (g_stack H)" "s_plan (g_stack H) = []"
      "s_capacity s = MAX_STACK_SIZE" "s_customfree s = Some libc_free"
    using assms(1) by (auto simp: side_def)
  have "length cs < unat (s_capacity s)" using assms(3) cs(2,5) by (auto simp: MAX_STACK_SIZE_def)
  from stack_push_rep [OF cs(1,3) this assms(2)] cs(4)
  obtain s' h' where "stack_push (Some s) x (g_stack H) = Some (E_SUCCESS, Some s', h')"
      "stack_rep h' s' (cs @ [(s_brk (g_stack H), x)])" "stack_heap_ok h'" "s_capacity s' = s_capacity s"
      "s_customfree s' = s_customfree s" "s_released h' = s_released (g_stack H)" "s_plan h' = []"
    by auto
  with cs on_stack_quiet [of "stack_push (Some s) x" H] show ?thesis by fastforce
qed

lemma stack_holds_pop:
  assumes "stack_holds (side H) s W" and "W \<noteq> []" and "out_last W = (x, W')"
  shows "\<exists>s' H'. on_stack (stack_pop (Some s)) H = Some (x, Some s', H') \<and>
    stack_holds (side H') s' W' \<and> graph_core H' = graph_core H"
proof -
  obtain cs where cs: "stack_rep (g_stack H) s cs" "map snd cs = W" "stack_heap_ok (g_stack H)" "s_plan (g_stack H) = []"
      "s_capacity s = MAX_STACK_SIZE" "s_customfree s = Some libc_free"
    using assms(1) by (auto simp: side_def)
  have "W = W' @ [x]" using assms(2,3) by (auto simp: out_last_def)
  then obtain ds a where ds: "cs = ds @ [(a, x)]" "map snd ds = W'" using cs(2) by (auto simp: map_eq_append_conv)
  obtain s' h' where "stack_pop (Some s) (g_stack H) = Some (x, Some s', h')" "stack_rep h' s' ds" "stack_heap_ok h'"
      "s_capacity s' = s_capacity s" "s_customfree s' = s_customfree s" "s_released h' = s_released (g_stack H)"
      "s_plan h' = s_plan (g_stack H)"
    using stack_pop_rep [OF cs(1) [unfolded ds(1)] cs(3)] by auto
  with cs ds on_stack_quiet [of "stack_pop (Some s)" H] show ?thesis by fastforce
qed

interpretation dfs: graph_container out_last "\<lambda>stack node. on_stack (stack_push stack node)"
  "\<lambda>stack. on_stack (stack_pop stack)" "\<lambda>stack. Some (stack_is_empty stack = E_FAILURE)" stack_holds 2000
proof unfold_locales
  fix H s W assume "stack_holds (side H) s W"
  then obtain cs where "stack_rep (g_stack H) s cs" "map snd cs = W" by (auto simp: side_def)
  then show "Some (stack_is_empty (Some s) = E_FAILURE) = Some (W \<noteq> [])"
    using stack_is_empty_iff [of "g_stack H" s cs] stack_codes(1) [of s] by auto
qed (rule stack_holds_push stack_holds_pop; assumption)+

lemma queue_holds_push:
  assumes "queue_holds (side H) q W" and "x \<noteq> NULL" and "length W < 2 ^ 32 - 1"
  shows "\<exists>q' H'. on_queue (queue_enqueue (Some q) x) H = Some (E_SUCCESS, Some q', H') \<and>
    queue_holds (side H') q' (W @ [x]) \<and> graph_core H' = graph_core H"
proof -
  obtain cs where cs: "queue_rep (g_queue H) q cs" "map snd cs = W" "queue_heap_ok (g_queue H)" "q_plan (g_queue H) = []"
      "q_max_size q = QUEUE_UNBOUNDED" "q_customfree q = libc_free"
    using assms(1) by (auto simp: side_def)
  have "\<not> q_full q cs" "Suc (length cs) < 2 ^ 32"
    using assms(3) cs(2,5) by (auto simp: q_full_def QUEUE_UNBOUNDED_def)
  from queue_enqueue_rep [OF cs(1,3) _ assms(2) this] cs(4)
  obtain q' h' where "queue_enqueue (Some q) x (g_queue H) = Some (Returned E_SUCCESS, Some q', h')"
      "queue_rep h' q' (cs @ [(q_brk (g_queue H), x)])" "queue_heap_ok h'" "q_max_size q' = q_max_size q"
      "q_customfree q' = q_customfree q" "q_released h' = q_released (g_queue H)" "q_plan h' = []"
    by auto
  with cs on_queue_quiet [of "queue_enqueue (Some q) x" H] show ?thesis by fastforce
qed

lemma queue_holds_pop:
  assumes "queue_holds (side H) q W" and "W \<noteq> []" and "out_first W = (x, W')"
  shows "\<exists>q' H'. on_queue (queue_dequeue sh (Some q)) H = Some (x, Some q', H') \<and>
    queue_holds (side H') q' W' \<and> graph_core H' = graph_core H"
proof -
  obtain cs where cs: "queue_rep (g_queue H) q cs" "map snd cs = W" "queue_heap_ok (g_queue H)" "q_plan (g_queue H) = []"
      "q_max_size q = QUEUE_UNBOUNDED" "q_customfree q = libc_free"
    using assms(1) by (auto simp: side_def)
  have "W = x # W'" using assms(2,3) by (auto simp: out_first_def)
  then obtain ds a where ds: "cs = (a, x) # ds" "map snd ds = W'" using cs(2) by (auto simp: map_eq_Cons_conv)
  obtain q' h' where "queue_dequeue sh (Some q) (g_queue H) = Some (Returned x, Some q', h')" "queue_rep h' q' ds"
      "queue_heap_ok h'" "q_max_size q' = q_max_size q" "q_customfree q' = q_customfree q"
      "h' = (g_queue H)\<lparr>q_nodes := (q_nodes (g_queue H))(a := None)\<rparr>"
    using queue_dequeue_rep [OF cs(1) [unfolded ds(1)] cs(3), of sh] by auto
  with cs ds on_queue_quiet [of "queue_dequeue sh (Some q)" H] show ?thesis by fastforce
qed

interpretation bfs: graph_container out_first "\<lambda>queue node. on_queue (queue_enqueue queue node)"
  "\<lambda>queue. on_queue (queue_dequeue sh queue)" "\<lambda>queue. map_option Not (queue_is_empty queue)"
  queue_holds "2 ^ 32 - 1" for sh
proof unfold_locales
  fix H q W assume "queue_holds (side H) q W"
  then obtain cs where "queue_rep (g_queue H) q cs" "map snd cs = W" by (auto simp: side_def)
  then show "map_option Not (queue_is_empty (Some q)) = Some (W \<noteq> [])"
    using queue_rep_empty [of "g_queue H" q cs] by (auto simp: queue_is_empty_def)
qed (rule queue_holds_push queue_holds_pop; assumption)+

section \<open>The complete searches\<close>

definition search_ready :: "graph_heap \<Rightarrow> bool" where
  "search_ready H \<longleftrightarrow> stack_heap_ok (g_stack H) \<and> s_plan (g_stack H) = [] \<and>
     queue_heap_ok (g_queue H) \<and> q_plan (g_queue H) = []"

text \<open>\<open>lookup_node\<close> decides where the search starts.\<close>

lemma graph_dfs_rep:
  assumes R: "graph_rep H g V A" and c: "compares (gr_custom_compare g) same" and x: "x \<noteq> NULL"
    and s: "lookup_node H same V x = s" "s \<noteq> NULL" and rd: "search_ready H" and cap: "length V \<le> 2000"
  shows "\<exists>H' xs. graph_dfs (Some g) x False H = Some (E_SUCCESS, H') \<and> graph_rep H' g V A \<and> keeps H H' \<and>
    g_acted H' = g_acted H @ map (data_of H) xs \<and> distinct xs \<and>
    set xs = reachable (neighbors (g_edges H) A) s"
proof -
  obtain L where N: "nodes_in H g L V A" using R by (auto simp: graph_rep_def)
  have sV: "s \<in> set V" using lookup_node_in s by metis
  let ?st = "\<lparr>s_capacity = MAX_STACK_SIZE, s_currentsz = 0, s_arr = replicate (unat MAX_STACK_SIZE) NULL,
     s_customfree = Some libc_free\<rparr>"
  have rdy: "stack_heap_ok (g_stack H)" "s_plan (g_stack H) = []" using rd by (simp_all add: search_ready_def)
  then have si: "stack_init MAX_STACK_SIZE (Some libc_free) (g_stack H) = (Some ?st, g_stack H)"
    by (simp add: stack_init_def Let_def)
  have "stack_holds (side H) ?st []" using rdy by (simp add: side_def stack_rep_def)
  from dfs.search_run [OF R sV this cap] obtain vis h c1 H2 c2 H3 xs where
      t: "on_lists (list_new (Some default_free) (Some node_ptr_comp)) H = Some (vis, H\<lparr>g_lists := h\<rparr>)" "vis \<noteq> NULL"
      "dfs_visit_node (Some ?st) vis s (H\<lparr>g_lists := h\<rparr>) = Some (E_SUCCESS, Some c1, H2)"
      "traverse_loop (\<lambda>stack. Some (stack_is_empty stack = E_FAILURE)) (\<lambda>stack. on_stack (stack_pop stack))
         dfs_visit_node vis (Some c1) H2 = Some (E_SUCCESS, Some c2, H3)"
      "stack_holds (side H3) c2 []" "g_acted H3 = g_acted H @ map (data_of H) xs" "distinct xs"
      "set xs = reachable (neighbors (g_edges H) A) s"
      "\<And>H4. graph_core H4 = graph_core H3 \<Longrightarrow> \<exists>h5. on_lists (delete_list vis) H4 = Some ((E_SUCCESS, NULL), H4\<lparr>g_lists := h5\<rparr>) \<and>
         graph_rep (H4\<lparr>g_lists := h5\<rparr>) g V A \<and> keeps H (H4\<lparr>g_lists := h5\<rparr>)"
    unfolding dfs_visit_node_def by auto
  obtain h4 where de: "stack_destroy (Some c2) (g_stack H3) = Some (E_SUCCESS, None, h4)"
      "s_released h4 = s_released (g_stack H3)"
    using t(5) stack_destroy_rep [of "g_stack H3" c2 "[]" libc_free] by (auto simp: side_def)
  note os = on_stack_quiet [of "stack_destroy (Some c2)" H3, OF de]
  obtain h5 where dl: "on_lists (delete_list vis) (H3\<lparr>g_stack := h4\<rparr>) = Some ((E_SUCCESS, NULL), H3\<lparr>g_stack := h4, g_lists := h5\<rparr>)"
      "graph_rep (H3\<lparr>g_stack := h4, g_lists := h5\<rparr>) g V A" "keeps H (H3\<lparr>g_stack := h4, g_lists := h5\<rparr>)"
    using t(9) [of "H3\<lparr>g_stack := h4\<rparr>"] by auto
  have "initialize_dfs (Some g) x H = Some (E_SUCCESS, vis, Some ?st, s, H\<lparr>g_lists := h\<rparr>)"
    using graph_find_node_rep [OF N c x] s x t(1,2) si by (simp add: initialize_dfs_def)
  then have "graph_dfs (Some g) x False H = Some (E_SUCCESS, H3\<lparr>g_stack := h4, g_lists := h5\<rparr>)"
    using x t(2-4) os dl(1) by (simp add: graph_dfs_def traverse_dfs_def dfs_end_def)
  with dl(2,3) t(6-8) show ?thesis by auto
qed

lemma graph_bfs_rep:
  assumes R: "graph_rep H g V A" and c: "compares (gr_custom_compare g) same" and x: "x \<noteq> NULL"
    and s: "lookup_node H same V x = s" "s \<noteq> NULL" and rd: "search_ready H"
  shows "\<exists>H' xs. graph_bfs True sh (Some g) x False H = Some (E_SUCCESS, H') \<and> graph_rep H' g V A \<and> keeps H H' \<and>
    g_acted H' = g_acted H @ map (data_of H) xs \<and> distinct xs \<and>
    set xs = reachable (neighbors (g_edges H) A) s"
proof -
  have sV: "s \<in> set V" using lookup_node_in s by metis
  have cap: "length V \<le> 2 ^ 32 - 1"
  proof -
    obtain L where N: "nodes_in H g L V A" using R by (auto simp: graph_rep_def)
    then obtain co ns where ns: "L (gr_node_list g) = Some (Some (gr_custom_free g), co, ns)" "datas ns = V"
      using nodes_inD(4) by blast
    have "length ns < 2 ^ 32" using lists_ok_read_list [OF nodes_inD(1) [OF N] ns(1)] by blast
    then show ?thesis by (simp flip: ns(2))
  qed
  let ?q = "\<lparr>q_current_size = 0, q_max_size = QUEUE_UNBOUNDED, q_head = NULL, q_tail = NULL, q_customfree = libc_free\<rparr>"
  have rdy: "queue_heap_ok (g_queue H)" "q_plan (g_queue H) = []" using rd by (simp_all add: search_ready_def)
  then have qi: "queue_init True True True (Some libc_free) QUEUE_UNBOUNDED (g_queue H) = (Some ?q, g_queue H)"
    by (simp add: queue_init_def Let_def)
  have "queue_holds (side H) ?q []" using rdy by (simp add: side_def queue_rep_def)
  from bfs.search_run [OF R sV this cap, of sh] obtain vis h L1 c1 H2 c2 H3 xs where
      t: "on_lists (list_new (Some default_free) (Some node_ptr_comp)) H = Some (vis, H\<lparr>g_lists := h\<rparr>)" "vis \<noteq> NULL"
      "nodes_in (H\<lparr>g_lists := h\<rparr>) g L1 V A"
      "bfs_visit_node (Some ?q) vis s (H\<lparr>g_lists := h\<rparr>) = Some (E_SUCCESS, Some c1, H2)"
      "traverse_loop (\<lambda>queue. map_option Not (queue_is_empty queue)) (\<lambda>queue. on_queue (queue_dequeue sh queue))
         bfs_visit_node vis (Some c1) H2 = Some (E_SUCCESS, Some c2, H3)"
      "queue_holds (side H3) c2 []" "g_acted H3 = g_acted H @ map (data_of H) xs" "distinct xs"
      "set xs = reachable (neighbors (g_edges H) A) s"
      "\<And>H4. graph_core H4 = graph_core H3 \<Longrightarrow> \<exists>h5. on_lists (delete_list vis) H4 = Some ((E_SUCCESS, NULL), H4\<lparr>g_lists := h5\<rparr>) \<and>
         graph_rep (H4\<lparr>g_lists := h5\<rparr>) g V A \<and> keeps H (H4\<lparr>g_lists := h5\<rparr>)"
    unfolding bfs_visit_node_def by auto
  obtain h4 where de: "queue_destroy sh (Some c2) (g_queue H3) = Some (Returned (), None, h4)"
      "q_released h4 = q_released (g_queue H3)"
    using t(6) queue_destroy_rep [of "g_queue H3" c2 "[]" sh] by (auto simp: side_def)
  note oq = on_queue_quiet [of "queue_destroy sh (Some c2)" H3, OF de]
  obtain h5 where dl: "on_lists (delete_list vis) (H3\<lparr>g_queue := h4\<rparr>) = Some ((E_SUCCESS, NULL), H3\<lparr>g_queue := h4, g_lists := h5\<rparr>)"
      "graph_rep (H3\<lparr>g_queue := h4, g_lists := h5\<rparr>) g V A" "keeps H (H3\<lparr>g_queue := h4, g_lists := h5\<rparr>)"
    using t(10) [of "H3\<lparr>g_queue := h4\<rparr>"] by auto
  have "lookup_node (H\<lparr>g_lists := h\<rparr>) same V x = s" using s(1) by (simp add: lookup_node_def data_of_def)
  then have "initialize_bfs True (Some g) x H = Some (E_SUCCESS, vis, Some ?q, s, H\<lparr>g_lists := h\<rparr>)"
    using graph_find_node_rep [OF t(3) c x] s(2) x t(1,2) qi by (simp add: initialize_bfs_def)
  then have "graph_bfs True sh (Some g) x False H = Some (E_SUCCESS, H3\<lparr>g_queue := h4, g_lists := h5\<rparr>)"
    using x t(2,4,5) oq dl(1) by (simp add: graph_bfs_def traverse_bfs_def bfs_end_def)
  with dl(2,3) t(7-9) show ?thesis by auto
qed

end
