(* ===== verification/Graph_Clear.thy ===== *)
theory Graph_Clear
  imports Graph_Rep
begin

text \<open>
  Clearing and destroying a graph: every node, its edge list and the node list are released, the
  edges are not; and when \<open>custom_free\<close> really frees its argument, every node is freed twice.
\<close>

section \<open>Cleaning up nodes\<close>

definition nodes_left :: "graph_heap \<Rightarrow> ptr \<Rightarrow> list_store \<Rightarrow> ptr list \<Rightarrow> (ptr \<Rightarrow> ptr list) \<Rightarrow> bool" where
  "nodes_left H lp L V A \<longleftrightarrow>
     lists_ok (g_lists H) L \<and> distinct V \<and> inj_on (edge_list_of H) (set V) \<and> lp \<notin> edge_list_of H ` set V \<and>
     (\<forall>v \<in> set V. node_ok H L A v)"

lemma cleanup_node_rep:
  assumes N: "nodes_left H lp L (v # V) A"
  shows "\<exists>H' L'. cleanup_node (Some g) v H = Some H' \<and> nodes_left H' lp L' V A \<and> L' lp = L lp \<and>
    g_nodes H' = (g_nodes H)(v := None) \<and> g_edges H' = g_edges H \<and>
    released (g_lists H') = released (g_lists H) \<and>
    g_released H' = g_released H @ gr_custom_free g (data_of H v) \<and> g_acted H' = g_acted H"
proof -
  let ?el = "edge_list_of H v"
  obtain n co ns where n: "v \<noteq> NULL" "g_nodes H v = Some n" "read_gnode v H = Some n" "gn_data n = data_of H v"
      "gn_edge_list n = ?el" "L ?el = Some (Some edge_list_free, co, ns)"
    using N by (auto simp: nodes_left_def elim: node_okE)
  have lo: "lists_ok (g_lists H) L" using N by (simp add: nodes_left_def)
  obtain h where h: "list_delete (Some ?el) (g_lists H) = Some (E_SUCCESS, Some NULL, h)" "lists_ok h (L(?el := None))"
      "released h = released (g_lists H) @ releases (Some edge_list_free) (datas ns)"
    using lists_ok_delete [OF lo n(6)] by blast
  have quiet: "released h = released (g_lists H)" using h(3) by (simp add: releases_def edge_list_free_def)
  have d: "delete_list ?el (g_lists H) = Some ((E_SUCCESS, NULL), h)" using h(1) by (simp add: delete_list_def)
  let ?H' = "H\<lparr>g_released := g_released H @ gr_custom_free g (data_of H v), g_lists := h, g_nodes := (g_nodes H)(v := None)\<rparr>"
  let ?H1 = "H\<lparr>g_released := g_released H @ gr_custom_free g (data_of H v),
     g_nodes := (g_nodes H)(v \<mapsto> n\<lparr>gn_data := NULL, gn_edge_count := 0\<rparr>)\<rparr>"
  have "on_lists (delete_list ?el) ?H1 = Some ((E_SUCCESS, NULL), ?H1\<lparr>g_lists := h\<rparr>)"
    by (rule on_lists_quiet) (use d quiet in simp_all)
  then have run: "cleanup_node (Some g) v H = Some ?H'"
    using n by (simp add: cleanup_node_def write_gnode_def free_gnode_def)
  have vV: "v \<notin> set V" using N by (simp add: nodes_left_def)
  have same: "edge_list_of ?H' w = edge_list_of H w" if "w \<in> set V" for w
    using that vV by (auto simp: edge_list_of_def)
  have sep: "edge_list_of H w \<noteq> ?el" if "w \<in> set V" for w
    using N that vV by (auto simp: nodes_left_def inj_on_def)
  have "node_ok ?H' (L(?el := None)) A w" if w: "w \<in> set V" for w
  proof -
    have "node_ok H L A w" using N w by (simp add: nodes_left_def)
    then show ?thesis by (rule node_ok_mono) (use sep [OF w] w vV in auto)
  qed
  moreover have "inj_on (edge_list_of ?H') (set V)" "lp \<notin> edge_list_of ?H' ` set V"
    using N same by (auto simp: nodes_left_def inj_on_def)
  ultimately have "nodes_left ?H' lp (L(?el := None)) V A"
    using N h(2) by (auto simp: nodes_left_def)
  moreover have "(L(?el := None)) lp = L lp" using N by (auto simp: nodes_left_def)
  ultimately show ?thesis using run quiet by (intro exI [of _ ?H'] exI [of _ "L(?el := None)"]) simp
qed

lemma clear_nodes_loop_rep:
  assumes "nodes_left H lp L (datas ys) A" and "L lp = Some (fo, co, xs @ ys)"
  shows "\<exists>H' L'. clear_nodes_loop (Some g) (at_node ys) H = Some H' \<and> lists_ok (g_lists H') L' \<and> L' lp = L lp \<and>
    g_nodes H' = g_nodes H |` (- set (datas ys)) \<and> g_edges H' = g_edges H \<and>
    released (g_lists H') = released (g_lists H) \<and>
    g_released H' = g_released H @ concat (map (\<lambda>v. gr_custom_free g (data_of H v)) (datas ys)) \<and>
    g_acted H' = g_acted H"
  using assms
proof (induction ys arbitrary: xs H L)
  case Nil
  then have "lists_ok (g_lists H) L" by (simp add: nodes_left_def)
  then show ?case by (subst clear_nodes_loop.simps) (auto simp: restrict_map_def)
next
  case (Cons y ys)
  obtain a v where y: "y = (a, v)" by (cases y)
  have lo: "lists_ok (g_lists H) L" using Cons.prems(1) by (simp add: nodes_left_def)
  obtain n where n: "read_node a (g_lists H) = Some n" "n_data n = v" "n_next n = at_node ys" "a \<noteq> NULL"
    using lists_ok_read_node [OF lo] Cons.prems(2) y by blast
  obtain H1 L1 where C: "cleanup_node (Some g) v H = Some H1" "nodes_left H1 lp L1 (datas ys) A" "L1 lp = L lp"
      "g_nodes H1 = (g_nodes H)(v := None)" "g_edges H1 = g_edges H" "released (g_lists H1) = released (g_lists H)"
      "g_released H1 = g_released H @ gr_custom_free g (data_of H v)" "g_acted H1 = g_acted H"
    using cleanup_node_rep [of H lp L v "datas ys" A g] Cons.prems(1) y by auto
  have "L1 lp = Some (fo, co, (xs @ [y]) @ ys)" using C(3) Cons.prems(2) by simp
  note ih = Cons.IH [OF C(2) this]
  have "clear_nodes_loop (Some g) (at_node (y # ys)) H = clear_nodes_loop (Some g) (at_node ys) H1"
    using y n C(1) by (subst clear_nodes_loop.simps) simp
  moreover have "g_nodes H1 |` (- set (datas ys)) = g_nodes H |` (- set (datas (y # ys)))"
    using C(4) y by (auto simp: restrict_map_def)
  moreover have "\<forall>w \<in> set ys. data_of H1 (snd w) = data_of H (snd w)"
    using C(4) Cons.prems(1) y by (auto simp: data_of_def nodes_left_def)
  then have "concat (map ((\<lambda>w. gr_custom_free g (data_of H1 w)) \<circ> snd) ys) =
      concat (map ((\<lambda>w. gr_custom_free g (data_of H w)) \<circ> snd) ys)"
    by (intro arg_cong [of _ _ concat]) simp
  ultimately show ?case using ih C(3,5-8) y by auto
qed

lemma nodes_in_left: "nodes_in H g L V A \<Longrightarrow> nodes_left H (gr_node_list g) L V A"
  by (auto simp: nodes_in_def nodes_left_def)

section \<open>Destroying a graph\<close>

lemma graph_clear_run:
  assumes R: "graph_rep H g V A"
  shows "\<exists>H1 h. graph_clear (Some g) H =
      do { N \<leftarrow> free_all (g_nodes H1) (concat (map (gr_custom_free g) V));
           Some (E_SUCCESS, Some (g\<lparr>gr_node_list := NULL, gr_node_count := 0\<rparr>), H1\<lparr>g_lists := h, g_nodes := N\<rparr>) } \<and>
    g_nodes H1 = g_nodes H |` (- set V) \<and> g_edges H1 = g_edges H \<and>
    g_released H1 = g_released H @ concat (map (\<lambda>v. gr_custom_free g (data_of H v)) V) \<and>
    list_objs h (gr_node_list g) = None"
proof -
  obtain L where N: "nodes_in H g L V A" using R by (auto simp: graph_rep_def)
  obtain co ns where ns: "L (gr_node_list g) = Some (Some (gr_custom_free g), co, ns)" "datas ns = V"
    using nodes_inD(4) [OF N] by blast
  obtain l where l: "read_list (gr_node_list g) (g_lists H) = Some l" "l_head l = at_node ns"
    using lists_ok_read_list [OF nodes_inD(1) [OF N] ns(1)] by blast
  obtain H1 L1 where C: "clear_nodes_loop (Some g) (at_node ns) H = Some H1" "lists_ok (g_lists H1) L1"
      "L1 (gr_node_list g) = L (gr_node_list g)" "g_nodes H1 = g_nodes H |` (- set V)" "g_edges H1 = g_edges H"
      "g_released H1 = g_released H @ concat (map (\<lambda>v. gr_custom_free g (data_of H v)) V)"
    using clear_nodes_loop_rep [of H "gr_node_list g" L ns A _ _ "[]" g] nodes_in_left [OF N] ns by auto
  obtain h where h: "list_delete (Some (gr_node_list g)) (g_lists H1) = Some (E_SUCCESS, Some NULL, h)"
      "released h = released (g_lists H1) @ concat (map (gr_custom_free g) V)"
    using lists_ok_delete [OF C(2), of "gr_node_list g"] C(3) ns by (auto simp: releases_def)
  have "list_objs h (gr_node_list g) = None"
    using h(1) by (auto simp: list_delete_def bind_Some_iff free_list_def free_at_def split: if_splits)
  moreover have "graph_clear (Some g) H = do { N \<leftarrow> free_all (g_nodes H1) (concat (map (gr_custom_free g) V));
      Some (E_SUCCESS, Some (g\<lparr>gr_node_list := NULL, gr_node_count := 0\<rparr>), H1\<lparr>g_lists := h, g_nodes := N\<rparr>) }"
    using l C(1) h by (simp add: graph_clear_def on_lists_def delete_list_def bind_assoc)
  ultimately show ?thesis using C by blast
qed

lemma graph_destroy_rep:
  assumes R: "graph_rep H g V A" and f: "\<forall>v \<in> set V. gr_custom_free g v = []"
  shows "\<exists>H'. graph_destroy (Some g) H = Some (E_SUCCESS, None, H') \<and>
    g_nodes H' = g_nodes H |` (- set V) \<and> g_edges H' = g_edges H \<and>
    g_released H' = g_released H @ concat (map (\<lambda>v. gr_custom_free g (data_of H v)) V)"
proof -
  have "concat (map (gr_custom_free g) V) = []" using f by simp
  with graph_clear_run [OF R] show ?thesis by (auto simp: graph_destroy_def)
qed

lemma graph_destroy_double_free:
  assumes R: "graph_rep H g V A" and f: "gr_custom_free g = libc_free" and V: "V \<noteq> []"
  shows "graph_destroy (Some g) H = None"
proof -
  obtain v V' where v: "V = v # V'" using V by (cases V) auto
  have "v \<noteq> NULL" using R v by (auto simp: graph_rep_def nodes_in_def node_ok_def)
  then have "concat (map (gr_custom_free g) V) = v # concat (map (gr_custom_free g) V')" using v f by (simp add: libc_free_def)
  moreover have "(g_nodes H |` (- set V)) v = None" using v by (simp add: restrict_map_def)
  ultimately show ?thesis using graph_clear_run [OF R] by (auto simp: graph_destroy_def free_at_def deref_def)
qed

text \<open>A graph that was cleared cannot be destroyed.\<close>

lemma clear_then_destroy:
  assumes R: "graph_rep H g V A" and f: "\<forall>v \<in> set V. gr_custom_free g v = []"
  shows "\<exists>g' H'. graph_clear (Some g) H = Some (E_SUCCESS, Some g', H') \<and> graph_destroy (Some g') H' = None"
proof -
  have nil: "concat (map (gr_custom_free g) V) = []" using f by simp
  obtain H' where r: "graph_clear (Some g) H = Some (E_SUCCESS, Some (g\<lparr>gr_node_list := NULL, gr_node_count := 0\<rparr>), H')"
    using graph_clear_run [OF R] unfolding nil by auto
  then show ?thesis by (auto simp: graph_destroy_def graph_clear_def read_list_def)
qed

end
