(* ===== verification/Graph_Samples.thy ===== *)
theory Graph_Samples
  imports Graph_Edges Graph_Search Graph_Clear
begin

text \<open>
  A concrete graph of three nodes: an edge from the first to the second, and an edge in both
  directions between the second and the third.
\<close>

section \<open>A graph of three nodes\<close>

text \<open>\<open>int_comp\<close> on the address of a pointer cell reads the low half of the pointer.\<close>

definition low_int :: "ptr \<Rightarrow> int" where
  "low_int d = sint (of_nat d :: 32 word)"

definition low_comp :: cell_cmp where
  "low_comp M = int_comp (\<lambda>p. map_option low_int (M p))"

lemma low_comp_compares: "compares low_comp (\<lambda>a b. low_int a = low_int b)"
  by (auto simp: compares_def low_comp_def int_comp_def)

definition edge_list :: "ptr \<Rightarrow> list_t" where
  "edge_list a = \<lparr>l_size = 1, l_head = a, l_tail = a, l_custom_free = Some edge_list_free,
                  l_compare_func = Some (edge_compare Map.empty)\<rparr>"

definition lists3 :: list_heap where
  "lists3 = \<lparr>nodes = [7 \<mapsto> \<lparr>n_data = 3, n_prev = 0, n_next = 5\<rparr>, 5 \<mapsto> \<lparr>n_data = 2, n_prev = 7, n_next = 3\<rparr>,
                      3 \<mapsto> \<lparr>n_data = 1, n_prev = 5, n_next = 0\<rparr>, 8 \<mapsto> \<lparr>n_data = 4, n_prev = 0, n_next = 0\<rparr>,
                      9 \<mapsto> \<lparr>n_data = 5, n_prev = 0, n_next = 0\<rparr>, 10 \<mapsto> \<lparr>n_data = 5, n_prev = 0, n_next = 0\<rparr>],
             list_objs = [1 \<mapsto> \<lparr>l_size = 3, l_head = 7, l_tail = 3, l_custom_free = Some default_free,
                               l_compare_func = Some (low_comp Map.empty)\<rparr>,
                          2 \<mapsto> edge_list 8, 4 \<mapsto> edge_list 9, 6 \<mapsto> edge_list 10],
             brk = 11, plan = [], released = [], acted = []\<rparr>"

definition graph3 :: graph_t where
  "graph3 = \<lparr>gr_node_count = 3, gr_node_list = 1, gr_custom_free = default_free, gr_custom_compare = low_comp\<rparr>"

definition gheap3 :: graph_heap where
  "gheap3 = \<lparr>g_lists = lists3,
             g_nodes = [1 \<mapsto> \<lparr>gn_data = 101, gn_edge_count = 1, gn_edge_list = 2\<rparr>,
                        2 \<mapsto> \<lparr>gn_data = 102, gn_edge_count = 1, gn_edge_list = 4\<rparr>,
                        3 \<mapsto> \<lparr>gn_data = 103, gn_edge_count = 1, gn_edge_list = 6\<rparr>],
             g_edges = [4 \<mapsto> \<lparr>ed_node_1 = 1, ed_node_2 = 2, ed_weight = 5, ed_is_directed = True\<rparr>,
                        5 \<mapsto> \<lparr>ed_node_1 = 2, ed_node_2 = 3, ed_weight = 7, ed_is_directed = False\<rparr>],
             g_stack = \<lparr>s_nodes = Map.empty, s_brk = 1, s_plan = [], s_released = []\<rparr>,
             g_queue = \<lparr>q_nodes = Map.empty, q_brk = 1, q_plan = [], q_released = []\<rparr>,
             g_brk = 6, g_plan = [], g_released = [], g_acted = []\<rparr>"

abbreviation nodes3 :: "ptr list" where "nodes3 \<equiv> [3, 2, 1]"

definition adj3 :: "ptr \<Rightarrow> ptr list" where
  "adj3 = (\<lambda>_. [])(1 := [4], 2 := [5], 3 := [5])"

definition store3 :: list_store where
  "store3 = [1 \<mapsto> (Some default_free, Some (low_comp Map.empty), [(7, 3), (5, 2), (3, 1)]),
             2 \<mapsto> (Some edge_list_free, Some (edge_compare Map.empty), [(8, 4)]),
             4 \<mapsto> (Some edge_list_free, Some (edge_compare Map.empty), [(9, 5)]),
             6 \<mapsto> (Some edge_list_free, Some (edge_compare Map.empty), [(10, 5)])]"

lemma store3_ok: "lists_ok lists3 store3"
proof -
  have "heap_ok lists3" by (auto simp: heap_ok_def lists3_def)
  moreover have "\<exists>l. list_rep lists3 lp l ns \<and> l_custom_free l = fo \<and> l_compare_func l = co"
    if "store3 lp = Some (fo, co, ns)" for lp fo co ns
    using that by (auto simp: store3_def list_rep_def lists3_def edge_list_def split: if_split_asm)
  moreover have "set (addrs ns) \<inter> set (addrs ns') = {}"
    if "p \<noteq> q" "store3 p = Some (fo, co, ns)" "store3 q = Some (fo', co', ns')" for p q fo co ns fo' co' ns'
    using that by (auto simp: store3_def split: if_split_asm)
  ultimately show ?thesis unfolding lists_ok_def by (simp add: lists3_def)
qed

lemma graph3_rep: "graph_rep gheap3 graph3 nodes3 adj3"
proof -
  have "graph_fresh gheap3" by (auto simp: graph_fresh_def gheap3_def)
  moreover have "inj_on (edge_list_of gheap3) (set nodes3)" "gr_node_list graph3 \<notin> edge_list_of gheap3 ` set nodes3"
    by (auto simp: inj_on_def edge_list_of_def gheap3_def graph3_def)
  moreover have "node_ok gheap3 store3 adj3 v" if "v \<in> set nodes3" for v
    using that by (auto simp: node_ok_def gheap3_def store3_def adj3_def)
  ultimately have "nodes_in gheap3 graph3 store3 nodes3 adj3"
    using store3_ok by (auto simp: nodes_in_def gheap3_def graph3_def store3_def)
  moreover have "\<forall>v \<in> set nodes3. \<forall>e \<in> set (adj3 v). edge_ok gheap3 nodes3 adj3 e"
    by (auto simp: edge_ok_def gheap3_def adj3_def incidence_def)
  ultimately show ?thesis unfolding graph_rep_def by blast
qed

lemma graph3_compares: "compares (gr_custom_compare graph3) (\<lambda>a b. low_int a = low_int b)"
  using low_comp_compares by (simp add: graph3_def)

lemma graph3_lookup:
  "lookup_node gheap3 (\<lambda>a b. low_int a = low_int b) nodes3 101 = 1"
  "lookup_node gheap3 (\<lambda>a b. low_int a = low_int b) nodes3 102 = 2"
  "lookup_node gheap3 (\<lambda>a b. low_int a = low_int b) nodes3 103 = 3"
  by (simp_all add: lookup_node_def data_of_def gheap3_def low_int_def)

lemma graph3_ready: "search_ready gheap3"
  by (auto simp: search_ready_def gheap3_def stack_heap_ok_def queue_heap_ok_def)

lemma graph3_free: "\<forall>v \<in> set nodes3. gr_custom_free graph3 v = []"
  by (simp add: graph3_def default_free_def)

end
