(* ===== verification/Adjacency_Matrix.thy ===== *)
theory Adjacency_Matrix
  imports Comparisons
begin

text \<open>
  DSA/adjacency_matrix/src/adjacency_matrix.c: a graph of a fixed number of nodes with a matrix of
  edge weights.  Rows of the matrix are heap objects, so that a row that is never freed shows; the
  array of row pointers, the array of nodes and the struct belong to the graph value (\<open>None\<close> for
  NULL).
\<close>

section \<open>State\<close>

record mnode =
  mn_data :: ptr
  mn_label :: ptr

record matrix_t =
  m_edges :: "ptr list option"
  m_nodes :: "mnode list option"
  m_num_nodes :: "64 word"
  m_is_directed :: bool
  m_custom_compare :: "CMP_F option"
  m_custom_free :: "FREE_F option"

record matrix_heap =
  m_rows :: "ptr \<rightharpoonup> (64 word) list"
  m_brk :: ptr
  m_plan :: alloc_plan
  m_released :: "ptr list"

abbreviation m_next :: "matrix_heap \<Rightarrow> matrix_heap" where
  "m_next h \<equiv> h\<lparr>m_plan := alloc_rest (m_plan h)\<rparr>"

section \<open>Operations\<close>

text \<open>The rows are freed up to the \<open>num_nodes\<close> field of the struct.\<close>

fun cleanup_rows :: "nat \<Rightarrow> int \<Rightarrow> matrix_t \<Rightarrow> matrix_heap \<Rightarrow> (matrix_t \<times> matrix_heap) option" where
  "cleanup_rows 0 idx g h = Some (g, h)"
| "cleanup_rows (Suc k) idx g h =
     do {
       edges \<leftarrow> m_edges g;
       row \<leftarrow> arr_get edges idx;
       if row \<noteq> NULL
       then do {
         R \<leftarrow> free_at (m_rows h) row;
         edges \<leftarrow> arr_set edges idx NULL;
         cleanup_rows k (idx + 1) (g\<lparr>m_edges := Some edges\<rparr>) (h\<lparr>m_rows := R\<rparr>) }
       else cleanup_rows k (idx + 1) g h }"

definition graph_cleanup :: "matrix_t option \<Rightarrow> matrix_heap \<Rightarrow> (matrix_t option \<times> matrix_heap) option" where
  "graph_cleanup graph h =
     (case graph of
        None \<Rightarrow> Some (None, h)
      | Some g \<Rightarrow> do { (_, h) \<leftarrow> cleanup_rows (unat (m_num_nodes g)) 0 g h; Some (None, h) })"

text \<open>The rows in order; \<open>False\<close> when an allocation failed.\<close>

fun alloc_rows :: "nat \<Rightarrow> int \<Rightarrow> nat \<Rightarrow> matrix_t \<Rightarrow> matrix_heap \<Rightarrow> (bool \<times> matrix_t \<times> matrix_heap) option" where
  "alloc_rows 0 idx num_nodes g h = Some (True, g, h)"
| "alloc_rows (Suc k) idx num_nodes g h =
     (if alloc_fails (m_plan h) then Some (False, g, m_next h)
      else do {
        edges \<leftarrow> m_edges g;
        edges \<leftarrow> arr_set edges idx (m_brk h);
        alloc_rows k (idx + 1) num_nodes (g\<lparr>m_edges := Some edges\<rparr>)
          (h\<lparr>m_rows := (m_rows h)(m_brk h \<mapsto> replicate num_nodes 0), m_brk := Suc (m_brk h),
             m_plan := alloc_rest (m_plan h)\<rparr>) })"

definition zero_matrix :: matrix_t where
  "zero_matrix = \<lparr>m_edges = None, m_nodes = None, m_num_nodes = 0, m_is_directed = False,
                  m_custom_compare = None, m_custom_free = None\<rparr>"

definition zero_mnode :: mnode where
  "zero_mnode = \<lparr>mn_data = NULL, mn_label = NULL\<rparr>"

definition matrix_init ::
  "64 word \<Rightarrow> bool \<Rightarrow> CMP_F option \<Rightarrow> FREE_F option \<Rightarrow> matrix_heap \<Rightarrow> (matrix_t option \<times> matrix_heap) option" where
  "matrix_init num_nodes is_directed custom_compare custom_free h =
     (if custom_compare = None \<or> custom_free = None then Some (None, h)
      else if alloc_fails (m_plan h) then graph_cleanup None (m_next h)
      else let g = zero_matrix; h = m_next h in
      if alloc_fails (m_plan h) then graph_cleanup (Some g) (m_next h)
      else let g = g\<lparr>m_edges := Some (replicate (unat num_nodes) NULL)\<rparr>; h = m_next h in do {
        (ok, g, h) \<leftarrow> alloc_rows (unat num_nodes) 0 (unat num_nodes) g h;
        if \<not> ok then graph_cleanup (Some g) h
        else if alloc_fails (m_plan h) then graph_cleanup (Some g) (m_next h)
        else Some (Some (g\<lparr>m_nodes := Some (replicate (unat num_nodes) zero_mnode), m_num_nodes := num_nodes,
                           m_is_directed := is_directed, m_custom_compare := custom_compare,
                           m_custom_free := custom_free\<rparr>), m_next h) })"

definition matrix_populate_node ::
  "matrix_t option \<Rightarrow> 64 word \<Rightarrow> ptr \<Rightarrow> ptr \<Rightarrow> (int \<times> matrix_t option) option" where
  "matrix_populate_node graph index data label =
     (case graph of
        None \<Rightarrow> Some (E_FAILURE, graph)
      | Some g \<Rightarrow>
          if data = NULL \<or> label = NULL then Some (E_FAILURE, graph)
          else do {
            nodes \<leftarrow> m_nodes g;
            nodes \<leftarrow> arr_set nodes (uint index) \<lparr>mn_data = data, mn_label = NULL\<rparr>;
            Some (E_SUCCESS, Some (g\<lparr>m_nodes := Some nodes\<rparr>)) })"

text \<open>\<open>free\<close> of the label does nothing: a label is NULL in every state the file makes, and a
  label that is not would be an object of the caller.\<close>

definition matrix_depopulate_node ::
  "matrix_t option \<Rightarrow> 64 word \<Rightarrow> matrix_heap \<Rightarrow> (int \<times> matrix_t option \<times> matrix_heap) option" where
  "matrix_depopulate_node graph index h =
     (case graph of
        None \<Rightarrow> Some (E_FAILURE, graph, h)
      | Some g \<Rightarrow> do {
          free \<leftarrow> m_custom_free g;
          nodes \<leftarrow> m_nodes g;
          x \<leftarrow> arr_get nodes (uint index);
          let h = h\<lparr>m_released := m_released h @ free (mn_data x) @ (if mn_label x = NULL then [] else [mn_label x])\<rparr>;
          nodes \<leftarrow> arr_set nodes (uint index) \<lparr>mn_data = NULL, mn_label = NULL\<rparr>;
          Some (E_SUCCESS, Some (g\<lparr>m_nodes := Some nodes\<rparr>), h) })"

section \<open>A well-formed matrix\<close>

definition matrix_ok :: "matrix_t \<Rightarrow> matrix_heap \<Rightarrow> bool" where
  "matrix_ok g h \<longleftrightarrow>
     (\<exists>es ns. m_edges g = Some es \<and> m_nodes g = Some ns \<and>
        length es = unat (m_num_nodes g) \<and> length ns = unat (m_num_nodes g) \<and>
        distinct es \<and> NULL \<notin> set es \<and>
        (\<forall>r \<in> set es. \<exists>ws. m_rows h r = Some ws \<and> length ws = unat (m_num_nodes g))) \<and>
     m_custom_compare g \<noteq> None \<and> m_custom_free g \<noteq> None"

text \<open>The addresses of the next rows, and the heap with them.\<close>

fun addresses :: "ptr \<Rightarrow> nat \<Rightarrow> ptr list" where
  "addresses b 0 = []"
| "addresses b (Suc k) = b # addresses (Suc b) k"

fun rows_from :: "nat \<Rightarrow> ptr \<Rightarrow> nat \<Rightarrow> (ptr \<rightharpoonup> (64 word) list) \<Rightarrow> ptr \<rightharpoonup> (64 word) list" where
  "rows_from n b 0 R = R"
| "rows_from n b (Suc k) R = rows_from n (Suc b) k (R(b \<mapsto> replicate n 0))"

lemma set_addresses [simp]: "set (addresses b k) = {b..<b + k}"
  by (induction k arbitrary: b) auto

lemma length_addresses [simp]: "length (addresses b k) = k"
  by (induction k arbitrary: b) auto

lemma distinct_addresses [simp]: "distinct (addresses b k)"
  by (induction k arbitrary: b) auto

lemma rows_from_apply: "rows_from n b k R p = (if b \<le> p \<and> p < b + k then Some (replicate n 0) else R p)"
  by (induction k arbitrary: b R) auto

text \<open>The rows as they are while allocations succeed.\<close>

lemma alloc_rows_prefix:
  assumes "m_edges g = Some es" and "i + (k + r) \<le> length es" and "m_plan h = replicate k False @ pl"
  shows "alloc_rows (k + r) (int i) n g h =
    alloc_rows r (int (i + k)) n (g\<lparr>m_edges := Some (take i es @ addresses (m_brk h) k @ drop (i + k) es)\<rparr>)
      (h\<lparr>m_rows := rows_from n (m_brk h) k (m_rows h), m_brk := m_brk h + k, m_plan := pl\<rparr>)"
  using assms
proof (induction k arbitrary: i g h es)
  case 0
  then have "g\<lparr>m_edges := Some es\<rparr> = g" and "h\<lparr>m_plan := pl\<rparr> = h" by simp_all
  then show ?case by simp
next
  case (Suc k)
  let ?es = "es[i := m_brk h]"
  let ?h = "h\<lparr>m_rows := (m_rows h)(m_brk h \<mapsto> replicate n 0), m_brk := Suc (m_brk h), m_plan := replicate k False @ pl\<rparr>"
  have len: "i < length es" using Suc.prems(2) by simp
  have es: "take (Suc i) ?es = take i es @ [m_brk h]" using len by (simp add: take_Suc_conv_app_nth)
  have "alloc_rows (Suc k + r) (int i) n g h = alloc_rows (k + r) (int (Suc i)) n (g\<lparr>m_edges := Some ?es\<rparr>) ?h"
    using Suc.prems len by (simp add: add.commute)
  also have "\<dots> = alloc_rows r (int (Suc i + k)) n
      (g\<lparr>m_edges := Some (take (Suc i) ?es @ addresses (Suc (m_brk h)) k @ drop (Suc i + k) ?es)\<rparr>)
      (h\<lparr>m_rows := rows_from n (m_brk h) (Suc k) (m_rows h), m_brk := m_brk h + Suc k, m_plan := pl\<rparr>)"
    using Suc.IH [of "g\<lparr>m_edges := Some ?es\<rparr>" ?es "Suc i" ?h] Suc.prems(2) by (simp del: fun_upd_apply)
  finally show ?case using es by simp
qed

section \<open>Initialising\<close>

lemma replicate_False_plan: "alloc_fails (replicate k False @ False # pl) = False" "alloc_rest (False # pl) = pl"
  by (cases k) simp_all

text \<open>With three allocations beside the rows succeeding, the matrix is complete and every weight 0.\<close>

lemma matrix_init_ok:
  assumes cb: "custom_compare = Some cmp" "custom_free = Some fr" and b: "0 < m_brk h"
    and pl: "m_plan h = [False, False] @ replicate (unat num_nodes) False @ [False]"
  shows "\<exists>g h'. matrix_init num_nodes is_directed custom_compare custom_free h = Some (Some g, h') \<and>
    matrix_ok g h' \<and> m_num_nodes g = num_nodes \<and> m_is_directed g = is_directed \<and>
    m_nodes g = Some (replicate (unat num_nodes) zero_mnode) \<and>
    (\<forall>r \<in> set (the (m_edges g)). m_rows h' r = Some (replicate (unat num_nodes) 0)) \<and>
    (\<forall>p < m_brk h. m_rows h' p = m_rows h p) \<and> m_released h' = m_released h"
proof -
  let ?n = "unat num_nodes"
  let ?g = "zero_matrix\<lparr>m_edges := Some (addresses (m_brk h) ?n)\<rparr>"
  let ?R = "rows_from ?n (m_brk h) ?n (m_rows h)"
  have rows: "alloc_rows ?n 0 ?n (zero_matrix\<lparr>m_edges := Some (replicate ?n NULL)\<rparr>) (m_next (m_next h)) =
      Some (True, ?g, h\<lparr>m_rows := ?R, m_brk := m_brk h + ?n, m_plan := [False]\<rparr>)"
    using alloc_rows_prefix [of "zero_matrix\<lparr>m_edges := Some (replicate ?n NULL)\<rparr>" "replicate ?n NULL" 0 ?n 0
        "m_next (m_next h)" "[False]" ?n] pl by simp
  let ?m = "?g\<lparr>m_nodes := Some (replicate ?n zero_mnode), m_num_nodes := num_nodes, m_is_directed := is_directed,
      m_custom_compare := custom_compare, m_custom_free := custom_free\<rparr>"
  let ?h = "h\<lparr>m_rows := ?R, m_brk := m_brk h + ?n, m_plan := []\<rparr>"
  have "matrix_init num_nodes is_directed custom_compare custom_free h = Some (Some ?m, ?h)"
    using rows pl cb by (simp add: matrix_init_def)
  moreover have "matrix_ok ?m ?h" using b cb by (auto simp: matrix_ok_def rows_from_apply)
  ultimately show ?thesis by (auto simp: rows_from_apply)
qed

text \<open>When the allocation of row \<open>j\<close> fails, or that of the nodes, the rows made before stay
  allocated and nothing points to them: \<open>graph_cleanup\<close> counts rows with \<open>num_nodes\<close>, which is
  set last.\<close>

lemma matrix_init_leaks:
  assumes cb: "custom_compare = Some cmp" "custom_free = Some fr"
    and j: "j \<le> unat num_nodes" and pl: "m_plan h = [False, False] @ replicate j False @ True # rest"
  shows "\<exists>h'. matrix_init num_nodes is_directed custom_compare custom_free h = Some (None, h') \<and>
    m_rows h' = rows_from (unat num_nodes) (m_brk h) j (m_rows h)"
proof -
  let ?n = "unat num_nodes"
  let ?e = "replicate ?n NULL"
  have rows: "alloc_rows ?n 0 ?n (zero_matrix\<lparr>m_edges := Some ?e\<rparr>) (m_next (m_next h)) =
      alloc_rows (?n - j) (int j) ?n (zero_matrix\<lparr>m_edges := Some (addresses (m_brk h) j @ drop j ?e)\<rparr>)
        (h\<lparr>m_rows := rows_from ?n (m_brk h) j (m_rows h), m_brk := m_brk h + j, m_plan := True # rest\<rparr>)"
    using alloc_rows_prefix [of "zero_matrix\<lparr>m_edges := Some ?e\<rparr>" ?e 0 j "?n - j" "m_next (m_next h)" "True # rest" ?n] pl j
    by simp
  show ?thesis
  proof (cases "?n - j")
    case 0
    then show ?thesis using rows pl cb by (simp add: matrix_init_def graph_cleanup_def zero_matrix_def)
  next
    case (Suc r)
    then show ?thesis using rows pl cb by (simp add: matrix_init_def graph_cleanup_def zero_matrix_def)
  qed
qed

section \<open>Nodes\<close>

lemma arr_get_word: "arr_get xs (uint i) = (if unat i < length xs then Some (xs ! unat i) else None)"
  using nat_less_iff [of "uint i" "length xs"] by (simp add: arr_get_def)

lemma arr_set_word: "arr_set xs (uint i) v = (if unat i < length xs then Some (xs[unat i := v]) else None)"
  using nat_less_iff [of "uint i" "length xs"] by (simp add: arr_set_def)

lemma matrix_populate_ok:
  assumes ok: "matrix_ok g h" and i: "index < m_num_nodes g" and "data \<noteq> NULL" and "label \<noteq> NULL"
  shows "\<exists>g'. matrix_populate_node (Some g) index data label = Some (E_SUCCESS, Some g') \<and> matrix_ok g' h \<and>
    m_nodes g' = Some ((the (m_nodes g))[unat index := \<lparr>mn_data = data, mn_label = NULL\<rparr>]) \<and> m_edges g' = m_edges g"
proof -
  have "unat index < unat (m_num_nodes g)" using i by (simp add: word_less_nat_alt)
  then show ?thesis using assms by (auto simp: matrix_populate_node_def matrix_ok_def arr_set_word)
qed

lemma matrix_depopulate_ok:
  assumes ok: "matrix_ok g h" and i: "index < m_num_nodes g" and fr: "m_custom_free g = Some fr"
    and n: "m_nodes g = Some ns" and l: "mn_label (ns ! unat index) = NULL"
  shows "\<exists>g' h'. matrix_depopulate_node (Some g) index h = Some (E_SUCCESS, Some g', h') \<and> matrix_ok g' h' \<and>
    m_nodes g' = Some (ns[unat index := zero_mnode]) \<and> m_released h' = m_released h @ fr (mn_data (ns ! unat index))"
proof -
  have "unat index < unat (m_num_nodes g)" using i by (simp add: word_less_nat_alt)
  then show ?thesis using assms
    by (auto simp: matrix_depopulate_node_def matrix_ok_def arr_set_word arr_get_word zero_mnode_def)
qed

text \<open>The index is not checked against the number of nodes.\<close>

lemma matrix_index_out:
  assumes ok: "matrix_ok g h" and i: "m_num_nodes g \<le> index" and d: "data \<noteq> NULL" "label \<noteq> NULL"
  shows "matrix_populate_node (Some g) index data label = None" and "matrix_depopulate_node (Some g) index h = None"
proof -
  have "unat (m_num_nodes g) \<le> unat index" using i by (simp add: word_le_nat_alt)
  then show "matrix_populate_node (Some g) index data label = None" "matrix_depopulate_node (Some g) index h = None"
    using ok d by (auto simp: matrix_populate_node_def matrix_depopulate_node_def matrix_ok_def arr_set_word arr_get_word)
qed

end
