(* ===== verification/Thread_Pool.thy ===== *)
theory Thread_Pool
  imports Queue
begin

text \<open>
  Threading/src/thread_pool.c on top of the queue: a pool is a queue of tasks and a number of worker
  threads.  The operations of the pool's clients are functions on the shared state; the workers are
  a step relation, one step per queue operation, task or test of the signal flag, interleaved with
  the clients in any order.  That a queue operation is one step is what \<open>Queue_Monitor\<close> shows of
  the queue.
\<close>

section \<open>State\<close>

text \<open>Function pointers are addresses, 0 is NULL; \<open>task_function_t\<close> and \<open>arg_free_t\<close> are only
  called, so the model logs the calls.\<close>

record task_t =
  t_exe_function :: ptr
  t_arg_free :: ptr
  t_arg :: ptr

datatype call = Execute ptr ptr | Free_arg ptr ptr

text \<open>Where a worker is: not created, at the head of its loop, calling \<open>queue_dequeue\<close>, inside
  \<open>pthread_cond_wait\<close> there, back with what the call returned, or ended.\<close>

datatype wpc = W_none | W_test | W_deq | W_wait | W_got ptr | W_exit

text \<open>A handle is \<open>None\<close> as \<open>calloc\<close> leaves it and \<open>Some t\<close> once thread \<open>t\<close> has been
  created for it.\<close>

record thread_pool_t =
  tp_thread_count :: nat
  tp_task_queue :: "queue_t option"
  tp_worker_threads :: "nat option list"

record pool_state =
  p_pool :: "thread_pool_t option"
  p_qheap :: queue_heap
  p_tasks :: "ptr \<rightharpoonup> task_t"
  p_brk :: ptr
  p_plan :: alloc_plan
  p_shutdown :: bool
  p_pc :: "nat \<Rightarrow> wpc"
  p_joined :: "nat \<Rightarrow> bool"
  p_calls :: "call list"
  p_added :: "(ptr \<times> task_t) list"   \<comment> \<open>ghost: tasks queued so far, oldest first\<close>
  p_taken :: "(ptr \<times> task_t) list"   \<comment> \<open>ghost: tasks taken by workers, oldest first\<close>
  p_done :: "(ptr \<times> task_t) list"    \<comment> \<open>ghost: tasks processed, in that order\<close>

definition MIN_THREADS :: nat where "MIN_THREADS = 2"

section \<open>Tasks\<close>

definition create_task :: "ptr \<Rightarrow> ptr \<Rightarrow> ptr \<Rightarrow> pool_state \<Rightarrow> ptr \<times> pool_state" where
  "create_task exe_function arg_free arg s =
     (if exe_function = NULL then (NULL, s)
      else if alloc_fails (p_plan s) then (NULL, s\<lparr>p_plan := alloc_rest (p_plan s)\<rparr>)
      else (p_brk s,
            s\<lparr>p_tasks := (p_tasks s)(p_brk s \<mapsto> \<lparr>t_exe_function = exe_function, t_arg_free = arg_free, t_arg = arg\<rparr>),
              p_brk := Suc (p_brk s), p_plan := alloc_rest (p_plan s)\<rparr>))"

definition process_task :: "ptr \<Rightarrow> pool_state \<Rightarrow> (int \<times> pool_state) option" where
  "process_task task s =
     (if task = NULL then Some (E_FAILURE, s)
      else do {
        t \<leftarrow> deref (p_tasks s) task;
        if t_exe_function t = NULL then Some (E_FAILURE, s)
        else do {
          let s = s\<lparr>p_calls := p_calls s @ [Execute (t_exe_function t) (t_arg t)]\<rparr>;
          let s = (if t_arg_free t \<noteq> NULL then s\<lparr>p_calls := p_calls s @ [Free_arg (t_arg_free t) (t_arg t)]\<rparr> else s);
          Some (E_SUCCESS, s) } })"

definition free_task :: "ptr \<Rightarrow> pool_state \<Rightarrow> pool_state option" where
  "free_task task s = do { T \<leftarrow> free_at (p_tasks s) task; Some (s\<lparr>p_tasks := T\<rparr>) }"

text \<open>The pool's queue has no bound, so \<open>queue_enqueue\<close> does not block.\<close>

definition thread_pool_add_task :: "ptr \<Rightarrow> ptr \<Rightarrow> ptr \<Rightarrow> pool_state \<Rightarrow> (int outcome \<times> pool_state) option" where
  "thread_pool_add_task task arg_free arg s =
     (case p_pool s of
        None \<Rightarrow> Some (Returned E_FAILURE, s)
      | Some pool \<Rightarrow>
          if task = NULL then Some (Returned E_FAILURE, s)
          else if p_shutdown s then Some (Returned E_FAILURE, s)
          else do {
            let (new_task, s) = create_task task arg_free arg s;
            if new_task = NULL then Some (Returned E_FAILURE, s)
            else do {
              (r, queue, h) \<leftarrow> queue_enqueue (tp_task_queue pool) new_task (p_qheap s);
              let s = s\<lparr>p_pool := Some (pool\<lparr>tp_task_queue := queue\<rparr>), p_qheap := h\<rparr>;
              (case r of
                 Blocked \<Rightarrow> Some (Blocked, s)
               | Returned exit_code \<Rightarrow>
                   if exit_code \<noteq> E_SUCCESS
                   then do { s \<leftarrow> free_task new_task s; Some (Returned exit_code, s) }
                   else Some (Returned E_SUCCESS,
                     s\<lparr>p_added := p_added s @ [(new_task, \<lparr>t_exe_function = task, t_arg_free = arg_free, t_arg = arg\<rparr>)]\<rparr>)) } })"

section \<open>Shutting down\<close>

text \<open>
  \<open>pthread_join\<close> waits until the thread has ended; joining a handle no thread was created for, or
  a thread that was joined before, is undefined.
\<close>

fun join_loop :: "nat \<Rightarrow> int \<Rightarrow> nat option list \<Rightarrow> pool_state \<Rightarrow> (unit outcome \<times> pool_state) option" where
  "join_loop 0 idx workers s = Some (Returned (), s)"
| "join_loop (Suc k) idx workers s =
     do {
       handle \<leftarrow> arr_get workers idx;
       t \<leftarrow> handle;
       if p_joined s t then None
       else if p_pc s t \<noteq> W_exit then Some (Blocked, s)
       else join_loop k (idx + 1) workers (s\<lparr>p_joined := (p_joined s)(t := True)\<rparr>) }"

fun woken :: "wpc \<Rightarrow> wpc" where
  "woken W_wait = W_deq"
| "woken p = p"

definition thread_pool_shutdown :: "pool_state \<Rightarrow> (int outcome \<times> pool_state) option" where
  "thread_pool_shutdown s =
     (case p_pool s of
        None \<Rightarrow> Some (Returned E_FAILURE, s)
      | Some pool \<Rightarrow> do {
          _ \<leftarrow> tp_task_queue pool;
          let s = s\<lparr>p_pc := woken \<circ> p_pc s\<rparr>;
          (r, s) \<leftarrow> join_loop (tp_thread_count pool) 0 (tp_worker_threads pool) s;
          (case r of
             Blocked \<Rightarrow> Some (Blocked, s)
           | Returned _ \<Rightarrow> Some (Returned E_SUCCESS, s)) })"

text \<open>\<open>queue_destroy\<close> releases the tasks left in the queue with \<open>free\<close>.\<close>

fun free_tasks :: "ptr list \<Rightarrow> (ptr \<rightharpoonup> task_t) \<Rightarrow> (ptr \<rightharpoonup> task_t) option" where
  "free_tasks [] T = Some T"
| "free_tasks (p # ps) T = do { T \<leftarrow> free_at T p; free_tasks ps T }"

definition thread_pool_destroy :: "pool_state \<Rightarrow> (int outcome \<times> pool_state) option" where
  "thread_pool_destroy s =
     (case p_pool s of
        None \<Rightarrow> Some (Returned E_FAILURE, s)
      | Some _ \<Rightarrow> do {
          (r, s) \<leftarrow> thread_pool_shutdown s;
          (case r of
             Blocked \<Rightarrow> Some (Blocked, s)
           | Returned _ \<Rightarrow> do {
               pool \<leftarrow> p_pool s;
               (r, _, h) \<leftarrow> queue_destroy (p_shutdown s) (tp_task_queue pool) (p_qheap s);
               T \<leftarrow> free_tasks (drop (length (q_released (p_qheap s))) (q_released h)) (p_tasks s);
               (case r of
                  Blocked \<Rightarrow> Some (Blocked, s)
                | Returned _ \<Rightarrow> Some (Returned E_SUCCESS, s\<lparr>p_pool := None, p_qheap := h, p_tasks := T\<rparr>)) }) })"

section \<open>Creating a pool\<close>

text \<open>\<open>create_ok t\<close>: the \<open>t\<close>-th call of \<open>pthread_create\<close> succeeds.  The loop returns the
  index at which it failed.\<close>

fun create_loop :: "nat \<Rightarrow> nat \<Rightarrow> (nat \<Rightarrow> bool) \<Rightarrow> thread_pool_t \<Rightarrow> pool_state \<Rightarrow> (bool \<times> pool_state) option" where
  "create_loop 0 idx create_ok pool s = Some (True, s\<lparr>p_pool := Some pool\<rparr>)"
| "create_loop (Suc k) idx create_ok pool s =
     (if create_ok idx
      then do {
        w \<leftarrow> arr_set (tp_worker_threads pool) (int idx) (Some idx);
        create_loop k (Suc idx) create_ok (pool\<lparr>tp_worker_threads := w\<rparr>) (s\<lparr>p_pc := (p_pc s)(idx := W_test)\<rparr>) }
      else Some (False, s\<lparr>p_pool := Some pool\<rparr>))"

definition thread_pool_create ::
  "bool \<Rightarrow> (nat \<Rightarrow> bool) \<Rightarrow> 64 word \<Rightarrow> pool_state \<Rightarrow> (unit outcome \<times> pool_state) option" where
  "thread_pool_create sync_ok create_ok thread_count s =
     (let s = s\<lparr>p_pool := None\<rparr> in
      if MIN_THREADS > unat thread_count then Some (Returned (), s)
      else if alloc_fails (p_plan s) then Some (Returned (), s\<lparr>p_plan := alloc_rest (p_plan s)\<rparr>)
      else do {
        let s = s\<lparr>p_plan := alloc_rest (p_plan s)\<rparr>;
        let (queue, h) = queue_init sync_ok sync_ok sync_ok (Some libc_free) QUEUE_UNBOUNDED (p_qheap s);
        let s = s\<lparr>p_qheap := h\<rparr>;
        if queue = None then Some (Returned (), s)
        else if alloc_fails (p_plan s)
        then do {
          let s = s\<lparr>p_plan := alloc_rest (p_plan s)\<rparr>;
          (r, _, h) \<leftarrow> queue_destroy (p_shutdown s) queue (p_qheap s);
          Some (r, s\<lparr>p_qheap := h\<rparr>) }
        else do {
          let s = s\<lparr>p_plan := alloc_rest (p_plan s)\<rparr>;
          let pool = \<lparr>tp_thread_count = unat thread_count, tp_task_queue = queue,
                      tp_worker_threads = replicate (unat thread_count) None\<rparr>;
          (ok, s) \<leftarrow> create_loop (unat thread_count) 0 create_ok pool s;
          if ok then Some (Returned (), s)
          else do {
            (r, s) \<leftarrow> thread_pool_shutdown s;
            (case r of
               Blocked \<Rightarrow> Some (Blocked, s)
             | Returned _ \<Rightarrow> do {
                 (r, s) \<leftarrow> thread_pool_destroy s;
                 Some (case r of Blocked \<Rightarrow> Blocked | Returned _ \<Rightarrow> Returned (), s) }) } } })"

section \<open>Workers\<close>

inductive pstep :: "pool_state \<Rightarrow> pool_state \<Rightarrow> bool" where
  continue: "p_pc s t = W_test \<Longrightarrow> \<not> p_shutdown s \<Longrightarrow> pstep s (s\<lparr>p_pc := (p_pc s)(t := W_deq)\<rparr>)"
| leave: "p_pc s t = W_test \<Longrightarrow> p_shutdown s \<Longrightarrow> pstep s (s\<lparr>p_pc := (p_pc s)(t := W_exit)\<rparr>)"
| wait: "p_pc s t = W_deq \<Longrightarrow> p_pool s = Some pool \<Longrightarrow>
    queue_dequeue (p_shutdown s) (tp_task_queue pool) (p_qheap s) = Some (Blocked, queue, h) \<Longrightarrow>
    pstep s (s\<lparr>p_pc := (p_pc s)(t := W_wait)\<rparr>)"
| wake: "p_pc s t = W_wait \<Longrightarrow> pstep s (s\<lparr>p_pc := (p_pc s)(t := W_deq)\<rparr>)"
| take_none: "p_pc s t = W_deq \<Longrightarrow> p_pool s = Some pool \<Longrightarrow>
    queue_dequeue (p_shutdown s) (tp_task_queue pool) (p_qheap s) = Some (Returned NULL, queue, h) \<Longrightarrow>
    pstep s (s\<lparr>p_pc := (p_pc s)(t := W_got NULL), p_pool := Some (pool\<lparr>tp_task_queue := queue\<rparr>), p_qheap := h\<rparr>)"
| take_task: "p_pc s t = W_deq \<Longrightarrow> p_pool s = Some pool \<Longrightarrow> task \<noteq> NULL \<Longrightarrow>
    queue_dequeue (p_shutdown s) (tp_task_queue pool) (p_qheap s) = Some (Returned task, queue, h) \<Longrightarrow>
    p_tasks s task = Some tk \<Longrightarrow>
    pstep s (s\<lparr>p_pc := (p_pc s)(t := W_got task), p_pool := Some (pool\<lparr>tp_task_queue := queue\<rparr>), p_qheap := h,
               p_taken := p_taken s @ [(task, tk)]\<rparr>)"
| got_none: "p_pc s t = W_got NULL \<Longrightarrow> pstep s (s\<lparr>p_pc := (p_pc s)(t := W_test)\<rparr>)"
| run: "p_pc s t = W_got task \<Longrightarrow> task \<noteq> NULL \<Longrightarrow> p_tasks s task = Some tk \<Longrightarrow>
    process_task task s = Some (code, s1) \<Longrightarrow> free_task task s1 = Some s2 \<Longrightarrow>
    pstep s (s2\<lparr>p_pc := (p_pc s2)(t := W_test), p_done := p_done s2 @ [(task, tk)]\<rparr>)"
| client: "thread_pool_add_task task arg_free arg s = Some (Returned code, s') \<Longrightarrow> pstep s s'"
| raise: "pstep s (s\<lparr>p_shutdown := True\<rparr>)"

inductive_cases pstepE: "pstep s s'"

inductive preach :: "pool_state \<Rightarrow> pool_state \<Rightarrow> bool" for s0 where
  init: "preach s0 s0"
| step: "preach s0 s \<Longrightarrow> pstep s s' \<Longrightarrow> preach s0 s'"

text \<open>A worker's next memory access is undefined behaviour.\<close>

definition pfaults :: "pool_state \<Rightarrow> nat \<Rightarrow> bool" where
  "pfaults s t \<longleftrightarrow>
     (case p_pc s t of
        W_deq \<Rightarrow> (case p_pool s of None \<Rightarrow> True
                  | Some pool \<Rightarrow> queue_dequeue (p_shutdown s) (tp_task_queue pool) (p_qheap s) = None)
      | W_got task \<Rightarrow> task \<noteq> NULL \<and> (process_task task s = None \<or> free_task task s = None)
      | _ \<Rightarrow> False)"

section \<open>The invariant\<close>

fun calls_of :: "task_t \<Rightarrow> call list" where
  "calls_of tk = Execute (t_exe_function tk) (t_arg tk) #
     (if t_arg_free tk \<noteq> NULL then [Free_arg (t_arg_free tk) (t_arg tk)] else [])"

text \<open>The queue of the pool holds exactly the tasks \<open>Q\<close>.\<close>

definition queue_part :: "pool_state \<Rightarrow> ptr list \<Rightarrow> bool" where
  "queue_part s Q \<longleftrightarrow>
     (\<exists>pool q cs. p_pool s = Some pool \<and> tp_task_queue pool = Some q \<and> queue_rep (p_qheap s) q cs \<and>
        queue_heap_ok (p_qheap s) \<and> q_max_size q = QUEUE_UNBOUNDED \<and> q_customfree q = libc_free \<and> map snd cs = Q)"

text \<open>Every task taken and not done is in the hands of exactly one worker.\<close>

fun task_of :: "wpc \<Rightarrow> ptr option" where
  "task_of (W_got p) = (if p = NULL then None else Some p)"
| "task_of _ = None"

definition in_hands :: "(nat \<Rightarrow> wpc) \<Rightarrow> ptr set \<Rightarrow> bool" where
  "in_hands pc P \<longleftrightarrow>
     P = {p. \<exists>t. task_of (pc t) = Some p} \<and>
     (\<forall>t t' p. task_of (pc t) = Some p \<longrightarrow> task_of (pc t') = Some p \<longrightarrow> t = t')"

text \<open>Every task added is in the queue, in the hands of one worker, or done; only the first two are
  allocated.\<close>

definition ledger :: "pool_state \<Rightarrow> (ptr \<times> task_t) list \<Rightarrow> bool" where
  "ledger s Q \<longleftrightarrow>
     p_taken s @ Q = p_added s \<and> distinct (map fst (p_added s)) \<and>
     (\<forall>x \<in> set (p_added s). fst x \<noteq> NULL \<and> fst x < p_brk s \<and> t_exe_function (snd x) \<noteq> NULL) \<and>
     p_tasks s = map_of (filter (\<lambda>x. x \<notin> set (p_done s)) (p_added s)) \<and>
     distinct (p_done s) \<and> set (p_done s) \<subseteq> set (p_taken s) \<and>
     in_hands (p_pc s) (fst ` (set (p_taken s) - set (p_done s))) \<and>
     p_calls s = concat (map (calls_of \<circ> snd) (p_done s))"

definition pinv :: "pool_state \<Rightarrow> (ptr \<times> task_t) list \<Rightarrow> bool" where
  "pinv s Q \<longleftrightarrow> queue_part s (map fst Q) \<and> 0 < p_brk s \<and> ledger s Q"

lemma ledgerD:
  assumes "ledger s Q"
  shows "p_taken s @ Q = p_added s" and "distinct (map fst (p_added s))"
    and "x \<in> set (p_added s) \<Longrightarrow> fst x \<noteq> NULL \<and> fst x < p_brk s \<and> t_exe_function (snd x) \<noteq> NULL"
    and "p_tasks s = map_of (filter (\<lambda>x. x \<notin> set (p_done s)) (p_added s))"
    and "distinct (p_done s)" and "set (p_done s) \<subseteq> set (p_taken s)"
    and "in_hands (p_pc s) (fst ` (set (p_taken s) - set (p_done s)))"
    and "p_calls s = concat (map (calls_of \<circ> snd) (p_done s))"
  using assms unfolding ledger_def by blast+

lemma distinct_fst_filter: "distinct (map fst xs) \<Longrightarrow> distinct (map fst (filter P xs))"
  by (induction xs) (auto simp: image_iff)

lemma ledger_task:
  assumes "ledger s Q" and "x \<in> set (p_added s)" and "x \<notin> set (p_done s)"
  shows "p_tasks s (fst x) = Some (snd x)"
proof -
  have "map_of (filter (\<lambda>x. x \<notin> set (p_done s)) (p_added s)) (fst x) = Some (snd x)"
    by (rule map_of_is_SomeI) (use assms distinct_fst_filter [OF ledgerD(2) [OF assms(1)]] in auto)
  then show ?thesis using ledgerD(4) [OF assms(1)] by simp
qed

lemma ledger_key:
  assumes "ledger s Q" and "(p, a) \<in> set (p_added s)" and "(p, b) \<in> set (p_added s)"
  shows "a = b"
  using map_of_is_SomeI [OF ledgerD(2) [OF assms(1)] assms(2)] map_of_is_SomeI [OF ledgerD(2) [OF assms(1)] assms(3)] by simp

lemma in_hands_move: "in_hands pc P \<Longrightarrow> task_of x = task_of (pc t) \<Longrightarrow> in_hands (pc(t := x)) P"
  unfolding in_hands_def by (auto split: if_splits)

lemma in_hands_take:
  "in_hands pc P \<Longrightarrow> task_of (pc t) = None \<Longrightarrow> p \<noteq> NULL \<Longrightarrow> p \<notin> P \<Longrightarrow> in_hands (pc(t := W_got p)) (insert p P)"
  unfolding in_hands_def by (auto split: if_splits) (metis option.distinct(1))

lemma in_hands_drop:
  "in_hands pc P \<Longrightarrow> task_of (pc t) = Some p \<Longrightarrow> task_of x = None \<Longrightarrow> in_hands (pc(t := x)) (P - {p})"
  unfolding in_hands_def by (auto split: if_splits) (metis option.inject)

text \<open>A worker moves between places where it holds no task.\<close>

lemma ledger_move:
  assumes "ledger s Q" and "task_of x = task_of (p_pc s t)"
  shows "ledger (s\<lparr>p_pc := (p_pc s)(t := x)\<rparr>) Q"
  using assms(1) in_hands_move [OF ledgerD(7) [OF assms(1)] assms(2)]
  by (simp add: ledger_def)

lemma queue_part_pc: "queue_part (s\<lparr>p_pc := pc\<rparr>) Q = queue_part s Q"
  by (simp add: queue_part_def)

lemma pinv_move: "pinv s Q \<Longrightarrow> task_of x = task_of (p_pc s t) \<Longrightarrow> pinv (s\<lparr>p_pc := (p_pc s)(t := x)\<rparr>) Q"
  using ledger_move by (simp add: pinv_def queue_part_pc)

section \<open>Preservation\<close>

lemma queue_part_dequeue:
  assumes "queue_part s (p # Q)" and "p_pool s = Some pool"
  shows "\<exists>q h. queue_dequeue sh (tp_task_queue pool) (p_qheap s) = Some (Returned p, Some q, h) \<and> p \<noteq> NULL \<and>
    queue_part (s\<lparr>p_pool := Some (pool\<lparr>tp_task_queue := Some q\<rparr>), p_qheap := h\<rparr>) Q"
proof -
  obtain q cs where q: "tp_task_queue pool = Some q" "queue_rep (p_qheap s) q cs" "queue_heap_ok (p_qheap s)"
      "q_max_size q = QUEUE_UNBOUNDED" "q_customfree q = libc_free" "map snd cs = p # Q"
    using assms unfolding queue_part_def by auto
  then obtain a ds where cs: "cs = (a, p) # ds" "map snd ds = Q" by (auto simp: map_eq_Cons_conv)
  have "p \<noteq> NULL" using q(2) cs(1) by (auto simp: queue_rep_def)
  moreover obtain q' h' where "queue_dequeue sh (Some q) (p_qheap s) = Some (Returned p, Some q', h')" "queue_rep h' q' ds"
      "queue_heap_ok h'" "q_max_size q' = q_max_size q" "q_customfree q' = q_customfree q"
    using queue_dequeue_rep [OF q(2) [unfolded cs(1)] q(3), of sh] by blast
  ultimately show ?thesis using q cs(2) by (intro exI [of _ q'] exI [of _ h']) (auto simp: queue_part_def)
qed

lemma queue_part_empty:
  assumes "queue_part s []" and "p_pool s = Some pool"
  shows "queue_dequeue sh (tp_task_queue pool) (p_qheap s) =
    Some (if sh then Returned NULL else Blocked, tp_task_queue pool, p_qheap s)"
  using assms queue_dequeue_empty by (auto simp: queue_part_def)

lemma queue_part_enqueue:
  assumes "queue_part s Q" and "p_pool s = Some pool" and "p \<noteq> NULL" and "Suc (length Q) < 2 ^ 32"
  shows "\<exists>c q h. queue_enqueue (tp_task_queue pool) p (p_qheap s) = Some (Returned c, Some q, h) \<and>
    queue_part (s\<lparr>p_pool := Some (pool\<lparr>tp_task_queue := Some q\<rparr>), p_qheap := h\<rparr>) (if c = E_SUCCESS then Q @ [p] else Q)"
proof -
  obtain q cs where q: "tp_task_queue pool = Some q" "queue_rep (p_qheap s) q cs" "queue_heap_ok (p_qheap s)"
      "q_max_size q = QUEUE_UNBOUNDED" "q_customfree q = libc_free" "map snd cs = Q"
    using assms(1,2) unfolding queue_part_def by auto
  show ?thesis
  proof (cases "alloc_fails (q_plan (p_qheap s))")
    case True
    let ?h = "p_qheap s\<lparr>q_plan := alloc_rest (q_plan (p_qheap s))\<rparr>"
    have "queue_enqueue (Some q) p (p_qheap s) = Some (Returned E_FAILURE, Some q, ?h)"
      using True assms(3) by (simp add: queue_enqueue_def queue_node_alloc_def)
    moreover have "queue_rep ?h q cs" "queue_heap_ok ?h" using q(2,3) by (simp_all add: queue_rep_def queue_heap_ok_def)
    ultimately show ?thesis using q by (intro exI) (auto simp: queue_part_def)
  next
    case False
    have "\<not> q_full q cs" "Suc (length cs) < 2 ^ 32" using q(4,6) assms(4) by (auto simp: q_full_def QUEUE_UNBOUNDED_def)
    from queue_enqueue_rep [OF q(2,3) False assms(3) this] obtain q' h' where
        "queue_enqueue (Some q) p (p_qheap s) = Some (Returned E_SUCCESS, Some q', h')"
        "queue_rep h' q' (cs @ [(q_brk (p_qheap s), p)])" "queue_heap_ok h'" "q_max_size q' = q_max_size q"
        "q_customfree q' = q_customfree q" by blast
    then show ?thesis using q by (intro exI [of _ E_SUCCESS] exI [of _ q'] exI [of _ h']) (force simp: queue_part_def)
  qed
qed

lemma map_of_drop:
  assumes "distinct (map fst xs)" and "x \<in> set xs"
  shows "map_of (filter (\<lambda>y. y \<noteq> x \<and> P y) xs) = (map_of (filter P xs))(fst x := None)"
  using assms
proof (induction xs)
  case (Cons z xs)
  show ?case
  proof (cases "z = x")
    case True
    then have "fst x \<notin> fst ` set xs" using Cons.prems(1) by auto
    then have "filter (\<lambda>y. y \<noteq> x \<and> P y) xs = filter P xs" "map_of (filter P xs) (fst x) = None"
      by (auto intro!: filter_cong simp: map_of_eq_None_iff)
    then show ?thesis using True by (auto simp: fun_upd_idem)
  next
    case False
    then have "x \<in> set xs" "fst z \<noteq> fst x" using Cons.prems by force+
    then show ?thesis using Cons False by (auto simp: fun_upd_twist)
  qed
qed simp

lemma map_of_snoc: "k \<notin> fst ` set xs \<Longrightarrow> map_of (xs @ [(k, v)]) = (map_of xs)(k \<mapsto> v)"
  by (induction xs) (auto simp: fun_upd_twist)

lemma ledger_take:
  assumes L: "ledger s (x # Q)" and t: "task_of (p_pc s t) = None"
  shows "ledger (s\<lparr>p_pc := (p_pc s)(t := W_got (fst x)), p_taken := p_taken s @ [x]\<rparr>) Q"
    and "p_tasks s (fst x) = Some (snd x)"
proof -
  have xs: "x \<in> set (p_added s)" using ledgerD(1) [OF L] by (metis in_set_conv_decomp)
  have dist: "distinct (map fst (p_taken s @ x # Q))" using ledgerD(1,2) [OF L] by simp
  then have new: "x \<notin> set (p_done s)" "fst x \<notin> fst ` (set (p_taken s) - set (p_done s))"
    using ledgerD(6) [OF L] by auto
  then show "p_tasks s (fst x) = Some (snd x)" using ledger_task [OF L xs] by blast
  have "fst ` (set (p_taken s @ [x]) - set (p_done s)) = insert (fst x) (fst ` (set (p_taken s) - set (p_done s)))"
    using new(1) by auto
  moreover have "in_hands ((p_pc s)(t := W_got (fst x))) (insert (fst x) (fst ` (set (p_taken s) - set (p_done s))))"
    by (rule in_hands_take [OF ledgerD(7) [OF L] t]) (use new(2) ledgerD(3) [OF L xs] in auto)
  ultimately show "ledger (s\<lparr>p_pc := (p_pc s)(t := W_got (fst x)), p_taken := p_taken s @ [x]\<rparr>) Q"
    using L by (auto simp: ledger_def)
qed

lemma ledger_run:
  assumes L: "ledger s Q" and t: "task_of (p_pc s t) = Some p"
  shows "\<exists>tk. p_tasks s p = Some tk \<and> process_task p s = Some (E_SUCCESS, s\<lparr>p_calls := p_calls s @ calls_of tk\<rparr>) \<and>
    ledger (s\<lparr>p_calls := p_calls s @ calls_of tk, p_tasks := (p_tasks s)(p := None), p_pc := (p_pc s)(t := W_test),
              p_done := p_done s @ [(p, tk)]\<rparr>) Q"
proof -
  have "p \<in> fst ` (set (p_taken s) - set (p_done s))" using ledgerD(7) [OF L] t by (auto simp: in_hands_def)
  then obtain tk where tk: "(p, tk) \<in> set (p_taken s)" "(p, tk) \<notin> set (p_done s)" by auto
  have ad: "(p, tk) \<in> set (p_added s)" using tk(1) ledgerD(1) [OF L] by (metis Un_iff set_append)
  have pt: "p_tasks s p = Some tk" using ledger_task [OF L ad tk(2)] by simp
  have nz: "p \<noteq> NULL" "t_exe_function tk \<noteq> NULL" using ledgerD(3) [OF L ad] by auto
  have "process_task p s = Some (E_SUCCESS, s\<lparr>p_calls := p_calls s @ calls_of tk\<rparr>)"
    using pt nz by (simp add: process_task_def Let_def)
  moreover have "(p_tasks s)(p := None) = map_of (filter (\<lambda>x. x \<notin> set (p_done s @ [(p, tk)])) (p_added s))"
    using map_of_drop [OF ledgerD(2) [OF L] ad, of "\<lambda>x. x \<notin> set (p_done s)"] ledgerD(4) [OF L] by simp
  moreover have "fst ` (set (p_taken s) - set (p_done s @ [(p, tk)])) = fst ` (set (p_taken s) - set (p_done s)) - {p}"
  proof -
    have "y = tk" if "(p, y) \<in> set (p_taken s)" for y
    proof -
      have "(p, y) \<in> set (p_added s)" using that ledgerD(1) [OF L] by (metis Un_iff set_append)
      then show ?thesis using ledger_key [OF L _ ad] by blast
    qed
    then show ?thesis by force
  qed
  moreover have "in_hands ((p_pc s)(t := W_test)) (fst ` (set (p_taken s) - set (p_done s)) - {p})"
    by (rule in_hands_drop [OF ledgerD(7) [OF L] t]) simp
  ultimately show ?thesis using L pt tk by (auto simp: ledger_def)
qed

lemma ledger_fresh: "ledger s Q \<Longrightarrow> p_tasks s (p_brk s) = None"
  using ledgerD(3) [of s Q] ledgerD(4) [of s Q] by (fastforce simp: map_of_eq_None_iff)

lemma ledger_add:
  assumes L: "ledger s Q" and b: "p_brk s \<noteq> NULL" and f: "t_exe_function tk \<noteq> NULL"
  shows "ledger (s\<lparr>p_tasks := (p_tasks s)(p_brk s \<mapsto> tk), p_brk := Suc (p_brk s), p_plan := pl,
      p_pool := po, p_qheap := h, p_added := p_added s @ [(p_brk s, tk)]\<rparr>) (Q @ [(p_brk s, tk)])"
proof -
  let ?x = "(p_brk s, tk)"
  have old: "\<And>x. x \<in> set (p_added s) \<Longrightarrow> fst x < p_brk s" using ledgerD(3) [OF L] by blast
  have nd: "?x \<notin> set (p_done s)"
  proof
    assume "?x \<in> set (p_done s)"
    then have "?x \<in> set (p_added s)" using ledgerD(1,6) [OF L] by (metis Un_iff set_append subsetD)
    then show False using old by fastforce
  qed
  have "p_brk s \<notin> fst ` set (filter (\<lambda>x. x \<notin> set (p_done s)) (p_added s))" using old by fastforce
  then have "map_of (filter (\<lambda>x. x \<notin> set (p_done s)) (p_added s) @ [?x]) = (p_tasks s)(p_brk s \<mapsto> tk)"
    using map_of_snoc ledgerD(4) [OF L] by metis
  moreover have "distinct (map fst (p_added s @ [?x]))" using ledgerD(2) [OF L] old by force
  moreover have "\<forall>x \<in> set (p_added s @ [?x]). fst x \<noteq> NULL \<and> fst x < Suc (p_brk s) \<and> t_exe_function (snd x) \<noteq> NULL"
    using ledgerD(3) [OF L] b f by fastforce
  ultimately show ?thesis using L nd by (simp add: ledger_def)
qed

lemma case_outcome_Some:
  "(case r of Returned x \<Rightarrow> f x | Blocked \<Rightarrow> g) = Some y \<longleftrightarrow> (\<exists>x. r = Returned x \<and> f x = Some y) \<or> r = Blocked \<and> g = Some y"
  by (cases r) auto

lemma add_task_added: "thread_pool_add_task f fr a s = Some (r, s') \<Longrightarrow> length (p_added s) \<le> length (p_added s')"
  by (auto simp: thread_pool_add_task_def create_task_def free_task_def bind_Some_iff Let_def case_outcome_Some
      split: if_split_asm option.split_asm prod.split_asm)

lemma add_task_pinv:
  assumes I: "pinv s Q" and run: "thread_pool_add_task f fr a s = Some (Returned c, s')"
    and w: "Suc (length (p_added s')) < 2 ^ 32"
  shows "\<exists>Q'. pinv s' Q'"
proof -
  have L: "ledger s Q" and Qp: "queue_part s (map fst Q)" and b: "p_brk s \<noteq> NULL" using I by (auto simp: pinv_def)
  then obtain pool where po: "p_pool s = Some pool" by (auto simp: queue_part_def)
  let ?tk = "\<lparr>t_exe_function = f, t_arg_free = fr, t_arg = a\<rparr>"
  consider (same) "s' = s" | (plan) "s' = s\<lparr>p_plan := alloc_rest (p_plan s)\<rparr>"
    | (go) "f \<noteq> NULL" "\<not> p_shutdown s" "\<not> alloc_fails (p_plan s)"
    using run po by (auto simp: thread_pool_add_task_def create_task_def split: if_splits)
  then show ?thesis
  proof cases
    case same
    then show ?thesis using I by blast
  next
    case plan
    then have "pinv s' Q" using I by (simp add: pinv_def queue_part_def ledger_def)
    then show ?thesis ..
  next
    case go
    let ?s1 = "s\<lparr>p_tasks := (p_tasks s)(p_brk s \<mapsto> ?tk), p_brk := Suc (p_brk s), p_plan := alloc_rest (p_plan s)\<rparr>"
    have "length Q \<le> length (p_added s)" using ledgerD(1) [OF L] by (metis le_add2 length_append)
    then have len: "Suc (length (map fst Q)) < 2 ^ 32" using w add_task_added [OF run] by simp
    have Q1: "queue_part ?s1 (map fst Q)" "p_pool ?s1 = Some pool" using Qp po by (simp_all add: queue_part_def)
    obtain c' q h where E: "queue_enqueue (tp_task_queue pool) (p_brk s) (p_qheap s) = Some (Returned c', Some q, h)"
        "queue_part (?s1\<lparr>p_pool := Some (pool\<lparr>tp_task_queue := Some q\<rparr>), p_qheap := h\<rparr>)
           (if c' = E_SUCCESS then map fst Q @ [p_brk s] else map fst Q)"
      using queue_part_enqueue [OF Q1 b len] by auto
    show ?thesis
    proof (cases "c' = E_SUCCESS")
      case True
      then have "s' = ?s1\<lparr>p_pool := Some (pool\<lparr>tp_task_queue := Some q\<rparr>), p_qheap := h, p_added := p_added s @ [(p_brk s, ?tk)]\<rparr>"
        using run po go b E(1) by (simp add: thread_pool_add_task_def create_task_def)
      then have "pinv s' (Q @ [(p_brk s, ?tk)])"
        using True E(2) ledger_add [OF L b, of ?tk] go(1) by (simp add: pinv_def queue_part_def)
      then show ?thesis ..
    next
      case False
      then have "s' = s\<lparr>p_brk := Suc (p_brk s), p_plan := alloc_rest (p_plan s), p_pool := Some (pool\<lparr>tp_task_queue := Some q\<rparr>),
          p_qheap := h, p_tasks := (p_tasks s)(p_brk s := None)\<rparr>"
        using run po go b E(1) by (simp add: thread_pool_add_task_def create_task_def free_task_def)
      then have "pinv s' Q" using False E(2) L ledger_fresh [OF L]
        by (fastforce simp: pinv_def queue_part_def ledger_def fun_upd_idem)
      then show ?thesis ..
    qed
  qed
qed

lemma pinv_fields:
  "pinv (s\<lparr>p_shutdown := b\<rparr>) Q = pinv s Q"
  by (simp add: pinv_def queue_part_def ledger_def)

lemma take_pinv:
  assumes I: "pinv s (x # Q)" and pc: "p_pc s t = W_deq" and po: "p_pool s = Some pool"
  shows "\<exists>q h. queue_dequeue sh (tp_task_queue pool) (p_qheap s) = Some (Returned (fst x), Some q, h) \<and>
    fst x \<noteq> NULL \<and> p_tasks s (fst x) = Some (snd x) \<and>
    pinv (s\<lparr>p_pc := (p_pc s)(t := W_got (fst x)), p_pool := Some (pool\<lparr>tp_task_queue := Some q\<rparr>), p_qheap := h,
            p_taken := p_taken s @ [x]\<rparr>) Q"
proof -
  have L: "ledger s (x # Q)" and Qp: "queue_part s (fst x # map fst Q)" using I by (auto simp: pinv_def)
  obtain q h where D: "queue_dequeue sh (tp_task_queue pool) (p_qheap s) = Some (Returned (fst x), Some q, h)" "fst x \<noteq> NULL"
      "queue_part (s\<lparr>p_pool := Some (pool\<lparr>tp_task_queue := Some q\<rparr>), p_qheap := h\<rparr>) (map fst Q)"
    using queue_part_dequeue [OF Qp po] by blast
  have "task_of (p_pc s t) = None" using pc by simp
  note T = ledger_take [OF L this]
  have "pinv (s\<lparr>p_pc := (p_pc s)(t := W_got (fst x)), p_pool := Some (pool\<lparr>tp_task_queue := Some q\<rparr>), p_qheap := h,
      p_taken := p_taken s @ [x]\<rparr>) Q"
    using D(3) T(1) I by (simp add: pinv_def queue_part_def ledger_def)
  with D(1,2) T(2) show ?thesis by blast
qed

lemma run_pinv:
  assumes I: "pinv s Q" and pc: "p_pc s t = W_got p" "p \<noteq> NULL"
  shows "\<exists>tk s1 s2. p_tasks s p = Some tk \<and> process_task p s = Some (E_SUCCESS, s1) \<and> free_task p s1 = Some s2 \<and>
    pinv (s2\<lparr>p_pc := (p_pc s2)(t := W_test), p_done := p_done s2 @ [(p, tk)]\<rparr>) Q \<and>
    p_pc s2 = p_pc s \<and> p_shutdown s2 = p_shutdown s"
proof -
  have L: "ledger s Q" using I by (simp add: pinv_def)
  obtain tk where tk: "p_tasks s p = Some tk" "process_task p s = Some (E_SUCCESS, s\<lparr>p_calls := p_calls s @ calls_of tk\<rparr>)"
      "ledger (s\<lparr>p_calls := p_calls s @ calls_of tk, p_tasks := (p_tasks s)(p := None), p_pc := (p_pc s)(t := W_test),
              p_done := p_done s @ [(p, tk)]\<rparr>) Q"
    using ledger_run [OF L, of t p] pc by auto
  let ?s1 = "s\<lparr>p_calls := p_calls s @ calls_of tk\<rparr>"
  let ?s2 = "?s1\<lparr>p_tasks := (p_tasks s)(p := None)\<rparr>"
  have "free_task p ?s1 = Some ?s2" using tk(1) pc(2) by (simp add: free_task_def)
  moreover have "pinv (?s2\<lparr>p_pc := (p_pc ?s2)(t := W_test), p_done := p_done ?s2 @ [(p, tk)]\<rparr>) Q"
    using tk(3) I by (simp add: pinv_def queue_part_def)
  ultimately show ?thesis using tk(1,2) by (intro exI [of _ tk] exI [of _ ?s1] exI [of _ ?s2]) simp
qed

lemma pstep_pinv:
  assumes "pstep s s'" and I: "pinv s Q" and w: "Suc (length (p_added s')) < 2 ^ 32"
  shows "\<exists>Q'. pinv s' Q'"
  using assms(1)
proof cases
  case (take_none t pool queue h)
  have "Q = []"
  proof (rule ccontr)
    assume "Q \<noteq> []"
    then obtain x Q' where "Q = x # Q'" by (cases Q) auto
    then show False using take_pinv [of s x Q' t pool "p_shutdown s"] I take_none(2-4) by auto
  qed
  then have "queue = tp_task_queue pool" "h = p_qheap s"
    using queue_part_empty [of s pool "p_shutdown s"] I take_none(3,4) by (auto simp: pinv_def split: if_splits)
  then have "s' = s\<lparr>p_pc := (p_pc s)(t := W_got NULL)\<rparr>" using take_none(1,3) by simp
  then show ?thesis using pinv_move [OF I, of "W_got NULL" t] take_none(2) by auto
next
  case (take_task t pool task queue h tk)
  then obtain x Q' where Q: "Q = x # Q'"
    using queue_part_empty [of s pool "p_shutdown s"] I by (cases Q) (auto simp: pinv_def split: if_splits)
  show ?thesis using take_pinv [OF I [unfolded Q] take_task(2,3), of "p_shutdown s"] take_task(1,5,6) by auto
next
  case (run t task tk code s1 s2)
  then show ?thesis using run_pinv [OF I run(2,3)] by auto
next
  case (client task arg_free arg code)
  then show ?thesis using add_task_pinv [OF I _ w] by blast
next
  case raise
  then show ?thesis using I pinv_fields by blast
qed (auto intro!: exI [of _ Q] pinv_move [OF I])

lemma pstep_added: "pstep s s' \<Longrightarrow> length (p_added s) \<le> length (p_added s')"
  by (erule pstepE) (auto simp: process_task_def free_task_def bind_Some_iff Let_def dest: add_task_added split: if_splits)

lemma preach_pinv:
  assumes "preach s0 s" and "pinv s0 Q" and "Suc (length (p_added s)) < 2 ^ 32"
  shows "\<exists>Q'. pinv s Q'"
  using assms
proof (induction rule: preach.induct)
  case (step s s')
  then have "Suc (length (p_added s)) < 2 ^ 32" using pstep_added by fastforce
  then show ?case using step pstep_pinv by blast
qed blast

lemma pinv_no_fault:
  assumes I: "pinv s Q"
  shows "\<not> pfaults s t"
proof (cases "p_pc s t")
  case W_deq
  obtain pool where po: "p_pool s = Some pool" using I by (auto simp: pinv_def queue_part_def)
  show ?thesis
  proof (cases Q)
    case Nil
    then show ?thesis using queue_part_empty [of s pool "p_shutdown s"] I W_deq po by (auto simp: pinv_def pfaults_def)
  next
    case (Cons x Q')
    then show ?thesis using take_pinv [of s x Q' t pool "p_shutdown s"] I W_deq po by (auto simp: pfaults_def)
  qed
next
  case (W_got p)
  then show ?thesis using run_pinv [OF I, of t p] by (cases "p = NULL") (auto simp: pfaults_def free_task_def bind_Some_iff)
qed (simp_all add: pfaults_def)

section \<open>Ending the workers\<close>

text \<open>Only the signal flag ends a worker.\<close>

lemma pstep_exit: "pstep s s' \<Longrightarrow> p_pc s' t = W_exit \<Longrightarrow> p_pc s t = W_exit \<or> p_shutdown s"
  by (erule pstepE) (auto simp: process_task_def free_task_def thread_pool_add_task_def create_task_def bind_Some_iff
      case_outcome_Some Let_def split: if_split_asm option.split_asm prod.split_asm)

lemma pstep_shutdown: "pstep s s' \<Longrightarrow> p_shutdown s \<Longrightarrow> p_shutdown s'"
  by (erule pstepE) (auto simp: process_task_def free_task_def thread_pool_add_task_def create_task_def bind_Some_iff
      case_outcome_Some Let_def split: if_split_asm option.split_asm prod.split_asm)

lemma preach_no_exit:
  assumes "preach s0 s" and "\<And>t. p_pc s0 t \<noteq> W_exit" and "\<not> p_shutdown s"
  shows "p_pc s t \<noteq> W_exit"
  using assms
proof (induction rule: preach.induct)
  case (step s s')
  then show ?case using pstep_exit pstep_shutdown by metis
qed simp

lemma preach_trans: "preach s1 s2 \<Longrightarrow> preach s0 s1 \<Longrightarrow> preach s0 s2"
  by (induction rule: preach.induct) (auto intro: preach.step)

text \<open>Once the flag is set, every worker can get to its end, after at most one more task.\<close>

definition can_end :: "pool_state \<Rightarrow> nat \<Rightarrow> bool" where
  "can_end s t \<longleftrightarrow> (\<exists>s' Q'. preach s s' \<and> pinv s' Q' \<and> p_shutdown s' \<and> p_pc s' = (p_pc s)(t := W_exit))"

lemma can_end_step: "pstep s s' \<Longrightarrow> p_pc s' = (p_pc s)(t := x) \<Longrightarrow> can_end s' t \<Longrightarrow> can_end s t"
  unfolding can_end_def using preach_trans preach.step [OF preach.init] by (metis fun_upd_upd)

lemma test_ends:
  assumes "pinv s Q" and "p_shutdown s" and "p_pc s t = W_test"
  shows "can_end s t"
proof -
  let ?s = "s\<lparr>p_pc := (p_pc s)(t := W_exit)\<rparr>"
  have "pinv ?s Q" using assms by (intro pinv_move) auto
  moreover have "preach s ?s" by (rule preach.step [OF preach.init pstep.leave [OF assms(3,2)]])
  ultimately show ?thesis using assms(2) unfolding can_end_def by (intro exI [of _ ?s] exI [of _ Q]) simp
qed

lemma got_ends:
  assumes I: "pinv s Q" and sh: "p_shutdown s" and pc: "p_pc s t = W_got p"
  shows "can_end s t"
proof (cases "p = NULL")
  case True
  have "pinv (s\<lparr>p_pc := (p_pc s)(t := W_test)\<rparr>) Q" using I pc True by (intro pinv_move) auto
  then have "can_end (s\<lparr>p_pc := (p_pc s)(t := W_test)\<rparr>) t" by (rule test_ends) (use sh in auto)
  from can_end_step [OF pstep.got_none _ this] pc True show ?thesis by simp
next
  case False
  obtain tk s1 s2 where r: "p_tasks s p = Some tk" "process_task p s = Some (E_SUCCESS, s1)" "free_task p s1 = Some s2"
      "pinv (s2\<lparr>p_pc := (p_pc s2)(t := W_test), p_done := p_done s2 @ [(p, tk)]\<rparr>) Q" "p_pc s2 = p_pc s" "p_shutdown s2 = p_shutdown s"
    using run_pinv [OF I pc False] by blast
  have "can_end (s2\<lparr>p_pc := (p_pc s2)(t := W_test), p_done := p_done s2 @ [(p, tk)]\<rparr>) t"
    by (rule test_ends [OF r(4)]) (use r sh in auto)
  from can_end_step [OF pstep.run [OF pc False r(1-3)] _ this] r(5) show ?thesis by simp
qed

lemma deq_ends:
  assumes I: "pinv s Q" and sh: "p_shutdown s" and pc: "p_pc s t = W_deq"
  shows "can_end s t"
proof -
  obtain pool where po: "p_pool s = Some pool" using I by (auto simp: pinv_def queue_part_def)
  show ?thesis
  proof (cases Q)
    case Nil
    then have d: "queue_dequeue (p_shutdown s) (tp_task_queue pool) (p_qheap s) = Some (Returned NULL, tp_task_queue pool, p_qheap s)"
      using queue_part_empty [of s pool "p_shutdown s"] I sh po by (simp add: pinv_def)
    let ?s = "s\<lparr>p_pc := (p_pc s)(t := W_got NULL), p_pool := Some (pool\<lparr>tp_task_queue := tp_task_queue pool\<rparr>), p_qheap := p_qheap s\<rparr>"
    have "?s = s\<lparr>p_pc := (p_pc s)(t := W_got NULL)\<rparr>" using po by simp
    then have "pinv ?s Q" using pinv_move [OF I, of "W_got NULL" t] pc by simp
    then have "can_end ?s t" by (rule got_ends [where p = NULL]) (use sh in auto)
    from can_end_step [OF pstep.take_none [OF pc po d] _ this] show ?thesis by simp
  next
    case (Cons x R)
    obtain q h where d: "queue_dequeue (p_shutdown s) (tp_task_queue pool) (p_qheap s) = Some (Returned (fst x), Some q, h)"
        "fst x \<noteq> NULL" "p_tasks s (fst x) = Some (snd x)"
        "pinv (s\<lparr>p_pc := (p_pc s)(t := W_got (fst x)), p_pool := Some (pool\<lparr>tp_task_queue := Some q\<rparr>), p_qheap := h,
          p_taken := p_taken s @ [x]\<rparr>) R"
      using take_pinv [OF I [unfolded Cons] pc po] by blast
    have "can_end (s\<lparr>p_pc := (p_pc s)(t := W_got (fst x)), p_pool := Some (pool\<lparr>tp_task_queue := Some q\<rparr>), p_qheap := h,
        p_taken := p_taken s @ [x]\<rparr>) t"
      by (rule got_ends [OF d(4)]) (use sh in auto)
    moreover have "pstep s (s\<lparr>p_pc := (p_pc s)(t := W_got (fst x)), p_pool := Some (pool\<lparr>tp_task_queue := Some q\<rparr>), p_qheap := h,
        p_taken := p_taken s @ [x]\<rparr>)"
      using pstep.take_task [OF pc po d(2,1,3)] by simp
    ultimately show ?thesis by (rule can_end_step [rotated 2]) simp
  qed
qed

lemma worker_ends:
  assumes I: "pinv s Q" and sh: "p_shutdown s" and t: "p_pc s t \<noteq> W_none"
  shows "can_end s t"
proof (cases "p_pc s t")
  case W_wait
  have "pinv (s\<lparr>p_pc := (p_pc s)(t := W_deq)\<rparr>) Q" using I W_wait by (intro pinv_move) auto
  then have "can_end (s\<lparr>p_pc := (p_pc s)(t := W_deq)\<rparr>) t" by (rule deq_ends) (use sh in auto)
  from can_end_step [OF pstep.wake [OF W_wait] _ this] show ?thesis by simp
next
  case W_exit
  then have "p_pc s = (p_pc s)(t := W_exit)" by (simp add: fun_upd_idem)
  then show ?thesis using I sh preach.init unfolding can_end_def by blast
qed (use t test_ends [OF I sh] deq_ends [OF I sh] got_ends [OF I sh] in auto)

lemma workers_end:
  assumes "pinv s Q" and "p_shutdown s" and "\<forall>t < n. p_pc s t \<noteq> W_none"
  shows "\<exists>s' Q'. preach s s' \<and> pinv s' Q' \<and> p_shutdown s' \<and> (\<forall>t < n. p_pc s' t = W_exit) \<and>
    (\<forall>t \<ge> n. p_pc s' t = p_pc s t)"
  using assms(3)
proof (induction n)
  case 0
  then show ?case using assms(1,2) preach.init by auto
next
  case (Suc n)
  then obtain s1 Q1 where s1: "preach s s1" "pinv s1 Q1" "p_shutdown s1" "\<forall>t < n. p_pc s1 t = W_exit"
      "\<forall>t \<ge> n. p_pc s1 t = p_pc s t" by auto
  have "can_end s1 n" by (rule worker_ends [OF s1(2,3)]) (use s1(5) Suc.prems in auto)
  then obtain s2 Q2 where "preach s1 s2" "pinv s2 Q2" "p_shutdown s2" "p_pc s2 = (p_pc s1)(n := W_exit)"
    unfolding can_end_def by blast
  then show ?case using preach_trans [OF _ s1(1)] s1(4,5) by (intro exI [of _ s2] exI [of _ Q2]) (auto simp: less_Suc_eq)
qed

section \<open>Creating, shutting down and destroying\<close>

text \<open>The pool object with its \<open>n\<close> workers.\<close>

definition pool_of :: "nat \<Rightarrow> pool_state \<Rightarrow> bool" where
  "pool_of n s \<longleftrightarrow> (\<exists>pool. p_pool s = Some pool \<and> tp_thread_count pool = n \<and>
     tp_worker_threads pool = map Some [0..<n] \<and> tp_task_queue pool \<noteq> None)"

lemma join_loop_ok:
  assumes "\<forall>t < n. p_pc s t = W_exit" and "\<forall>t. i \<le> t \<and> t < n \<longrightarrow> \<not> p_joined s t" and "i + k = n"
  shows "join_loop k (int i) (map Some [0..<n]) s = Some (Returned (), s\<lparr>p_joined := \<lambda>t. i \<le> t \<and> t < n \<or> p_joined s t\<rparr>)"
  using assms
proof (induction k arbitrary: i s)
  case 0
  then have "(\<lambda>t. i \<le> t \<and> t < n \<or> p_joined s t) = p_joined s" by auto
  then show ?case by simp
next
  case (Suc k)
  let ?s = "s\<lparr>p_joined := (p_joined s)(i := True)\<rparr>"
  have "join_loop k (int (Suc i)) (map Some [0..<n]) ?s =
      Some (Returned (), ?s\<lparr>p_joined := \<lambda>t. Suc i \<le> t \<and> t < n \<or> p_joined ?s t\<rparr>)"
    by (rule Suc.IH) (use Suc.prems in auto)
  moreover have "(\<lambda>t. Suc i \<le> t \<and> t < n \<or> p_joined ?s t) = (\<lambda>t. i \<le> t \<and> t < n \<or> p_joined s t)"
    using Suc.prems(3) by (auto simp: fun_eq_iff)
  moreover have "arr_get (map Some [0..<n]) (int i) = Some (Some i)" using Suc.prems(3) by simp
  ultimately show ?case using Suc.prems by (simp add: add.commute)
qed

lemma join_loop_waits:
  assumes "i < n" and "\<not> p_joined s i" and "p_pc s i \<noteq> W_exit"
  shows "join_loop (Suc k) (int i) (map Some [0..<n]) s = Some (Blocked, s)"
  using assms by simp

lemma shutdown_run:
  assumes "pool_of n s" and "\<forall>t < n. p_pc s t = W_exit" and "\<forall>t < n. \<not> p_joined s t"
  shows "thread_pool_shutdown s = Some (Returned E_SUCCESS,
    s\<lparr>p_pc := woken \<circ> p_pc s, p_joined := \<lambda>t. t < n \<or> p_joined s t\<rparr>)"
proof -
  obtain pool where p: "p_pool s = Some pool" "tp_thread_count pool = n" "tp_worker_threads pool = map Some [0..<n]"
      "tp_task_queue pool \<noteq> None"
    using assms(1) by (auto simp: pool_of_def)
  have "join_loop n (int 0) (map Some [0..<n]) (s\<lparr>p_pc := woken \<circ> p_pc s\<rparr>) =
      Some (Returned (), s\<lparr>p_pc := woken \<circ> p_pc s, p_joined := \<lambda>t. 0 \<le> t \<and> t < n \<or> p_joined s t\<rparr>)"
    by (subst join_loop_ok) (use assms(2,3) in auto)
  then show ?thesis using p by (auto simp: thread_pool_shutdown_def)
qed

lemma free_tasks_all:
  assumes "distinct ps" and "\<forall>p \<in> set ps. p \<noteq> NULL \<and> T p \<noteq> None"
  shows "free_tasks ps T = Some (T |` (- set ps))"
  using assms
proof (induction ps arbitrary: T)
  case Nil
  then show ?case by (simp add: restrict_map_def)
next
  case (Cons p ps)
  obtain x where x: "T p = Some x" using Cons.prems(2) by auto
  have "free_tasks ps (T(p := None)) = Some (T(p := None) |` (- set ps))"
    by (rule Cons.IH) (use Cons.prems in auto)
  moreover have "T(p := None) |` (- set ps) = T |` (- set (p # ps))" by (auto simp: restrict_map_def)
  ultimately show ?case using Cons.prems(2) x by simp
qed

text \<open>Destroying a pool whose workers have ended frees every task that was left, and calls nothing.\<close>

lemma ledger_ended:
  assumes L: "ledger s Q" and h: "\<And>t. task_of (p_pc s t) = None"
  shows "set (p_taken s) = set (p_done s)" and "p_tasks s = map_of Q" and "distinct (map fst Q)" and "NULL \<notin> fst ` set Q"
proof -
  show 1: "set (p_taken s) = set (p_done s)" using ledgerD(6,7) [OF L] h by (auto simp: in_hands_def)
  have d: "distinct (map fst (p_taken s @ Q))" using ledgerD(1,2) [OF L] by simp
  then show "distinct (map fst Q)" by simp
  have "set Q \<subseteq> set (p_added s)" using ledgerD(1) [OF L] by (metis Un_upper2 set_append)
  then show "NULL \<notin> fst ` set Q" using ledgerD(3) [OF L] by (metis imageE subsetD)
  have "filter (\<lambda>x. x \<notin> set (p_done s)) (p_taken s @ Q) = Q" using d 1 by (auto simp: filter_empty_conv filter_id_conv)
  then show "p_tasks s = map_of Q" using ledgerD(1,4) [OF L] by simp
qed

lemma destroy_run:
  assumes I: "pinv s Q" and po: "pool_of n s" and ex: "\<forall>t < n. p_pc s t = W_exit" and none: "\<forall>t \<ge> n. p_pc s t = W_none"
    and j: "\<forall>t < n. \<not> p_joined s t"
  shows "\<exists>s'. thread_pool_destroy s = Some (Returned E_SUCCESS, s') \<and> p_pool s' = None \<and> p_tasks s' = Map.empty \<and>
    p_calls s' = p_calls s \<and> set (p_taken s) = set (p_done s)"
proof -
  have L: "ledger s Q" using I by (simp add: pinv_def)
  have idle: "task_of (p_pc s t) = None" for t using ex none by (cases "t < n") auto
  note E = ledger_ended [OF L idle]
  obtain pool q cs where q: "p_pool s = Some pool" "tp_task_queue pool = Some q" "queue_rep (p_qheap s) q cs"
      "queue_heap_ok (p_qheap s)" "q_customfree q = libc_free" "map snd cs = map fst Q"
    using I by (auto simp: pinv_def queue_part_def)
  obtain h where h: "queue_destroy (p_shutdown s) (Some q) (p_qheap s) = Some (Returned (), None, h)"
      "q_released h = q_released (p_qheap s) @ concat (map libc_free (map fst Q))"
    using queue_destroy_rep [OF q(3,4), of "p_shutdown s"] q(5,6) by auto
  have rel: "concat (map libc_free (map fst Q)) = map fst Q"
    using E(4) by (induction Q) (auto simp: libc_free_def)
  have "free_tasks (map fst Q) (p_tasks s) = Some (p_tasks s |` (- set (map fst Q)))"
  proof (rule free_tasks_all)
    show "\<forall>p \<in> set (map fst Q). p \<noteq> NULL \<and> p_tasks s p \<noteq> None"
      using E(2,4) by (metis list.set_map map_of_eq_None_iff)
  qed (rule E(3))
  moreover have "p_tasks s |` (- set (map fst Q)) = Map.empty"
    using E(2) by (auto simp: restrict_map_def fun_eq_iff map_of_eq_None_iff)
  ultimately have "free_tasks (map fst Q) (p_tasks s) = Some Map.empty" by simp
  then show ?thesis using shutdown_run [OF po ex j] q(1,2) h rel E(1) by (simp add: thread_pool_destroy_def)
qed

lemma join_twice:
  assumes "0 < k" and "p_joined s 0"
  shows "join_loop k 0 (map Some [0..<k]) s = None"
proof -
  obtain m where m: "k = Suc m" using assms(1) by (cases k) auto
  have "arr_get (map Some [0..<k]) 0 = Some (Some 0)" using assms(1) by (simp add: arr_get_def nth_append)
  then show ?thesis using assms(2) unfolding m by simp
qed

text \<open>\<open>thread_pool_destroy\<close> joins the workers itself: after a \<open>thread_pool_shutdown\<close> that returned it
  joins them a second time.\<close>

lemma shutdown_then_destroy:
  assumes po: "pool_of n s" and n: "0 < n" and r: "thread_pool_shutdown s = Some (Returned E_SUCCESS, s')"
  shows "thread_pool_destroy s' = None"
proof -
  obtain pool where p: "p_pool s = Some pool" "tp_thread_count pool = n" "tp_worker_threads pool = map Some [0..<n]"
    using po by (auto simp: pool_of_def)
  have mono: "join_loop k i w u = Some (Returned (), u') \<Longrightarrow> p_pool u' = p_pool u \<and> (\<forall>t. p_joined u t \<longrightarrow> p_joined u' t)" for k i w u u'
    by (induction k arbitrary: i u) (fastforce simp: bind_Some_iff split: if_splits)+
  obtain m where m: "n = Suc m" using n by (cases n) auto
  obtain u where u: "join_loop n 0 (map Some [0..<n]) (s\<lparr>p_pc := woken \<circ> p_pc s\<rparr>) = Some (Returned (), u)" "s' = u"
    using r p by (auto simp: thread_pool_shutdown_def bind_Some_iff case_outcome_Some)
  have "p_joined u 0" "p_pool u = Some pool"
    using u(1) mono [of m 1 "map Some [0..<n]" _ u] p(1) by (auto simp: m arr_get_def split: if_splits simp del: upt_Suc dest!: mono)
  then have "join_loop n 0 (map Some [0..<n]) (u\<lparr>p_pc := woken \<circ> p_pc u\<rparr>) = None" using join_twice n by simp
  then have "thread_pool_shutdown u = None" using p(2,3) \<open>p_pool u = Some pool\<close>
    by (cases "tp_task_queue pool") (simp_all add: thread_pool_shutdown_def)
  then show ?thesis using u(2) \<open>p_pool u = Some pool\<close> by (simp add: thread_pool_destroy_def)
qed

text \<open>Without the signal, \<open>thread_pool_shutdown\<close> waits for ever.\<close>

lemma shutdown_waits:
  assumes po: "pool_of n s" and n: "0 < n" and pc: "p_pc s 0 \<noteq> W_exit" and j: "\<not> p_joined s 0"
  shows "\<exists>s'. thread_pool_shutdown s = Some (Blocked, s')"
proof -
  obtain pool where p: "p_pool s = Some pool" "tp_thread_count pool = n" "tp_worker_threads pool = map Some [0..<n]"
      "tp_task_queue pool \<noteq> None"
    using po by (auto simp: pool_of_def)
  obtain m where m: "n = Suc m" using n by (cases n) auto
  have "woken (p_pc s 0) \<noteq> W_exit" using pc by (cases "p_pc s 0") auto
  then have "join_loop n 0 (map Some [0..<n]) (s\<lparr>p_pc := woken \<circ> p_pc s\<rparr>) = Some (Blocked, s\<lparr>p_pc := woken \<circ> p_pc s\<rparr>)"
    using join_loop_waits [of 0 n "s\<lparr>p_pc := woken \<circ> p_pc s\<rparr>" m] n j m by simp
  then show ?thesis using p by (auto simp: thread_pool_shutdown_def)
qed

text \<open>The loop creates threads until one fails or all are there.\<close>

definition started :: "nat \<Rightarrow> nat \<Rightarrow> (nat \<Rightarrow> wpc) \<Rightarrow> nat \<Rightarrow> wpc" where
  "started i m pc t = (if i \<le> t \<and> t < i + m then W_test else pc t)"

lemma started_simps: "started i 0 pc = pc" "started (Suc i) m (pc(i := W_test)) = started i (Suc m) pc"
  by (auto simp: started_def fun_eq_iff)

lemma create_loop_run:
  assumes "\<forall>t. i \<le> t \<and> t < i + m \<longrightarrow> create_ok t" and "m \<le> k" and "m = k \<or> \<not> create_ok (i + m)"
    and "tp_worker_threads pool = map Some [0..<i] @ replicate k None"
  shows "create_loop k i create_ok pool s =
    Some (m = k, s\<lparr>p_pool := Some (pool\<lparr>tp_worker_threads := map Some [0..<i + m] @ replicate (k - m) None\<rparr>),
      p_pc := started i m (p_pc s)\<rparr>)"
  using assms
proof (induction k arbitrary: i m pool s)
  case 0
  then show ?case by (simp add: started_simps)
next
  case (Suc k)
  show ?case
  proof (cases m)
    case 0
    then show ?thesis using Suc.prems by (simp add: started_simps)
  next
    case (Suc m')
    let ?w = "map Some [0..<Suc i] @ replicate k None"
    have set: "arr_set (tp_worker_threads pool) (int i) (Some i) = Some ?w"
      using Suc.prems(4) by (simp add: list_update_append)
    have "create_loop k (Suc i) create_ok (pool\<lparr>tp_worker_threads := ?w\<rparr>) (s\<lparr>p_pc := (p_pc s)(i := W_test)\<rparr>) =
        Some (m' = k, s\<lparr>p_pool := Some (pool\<lparr>tp_worker_threads := map Some [0..<Suc i + m'] @ replicate (k - m') None\<rparr>),
          p_pc := started i m (p_pc s)\<rparr>)"
      by (subst Suc.IH [of _ m']) (use Suc.prems Suc in \<open>auto simp: started_simps\<close>)
    then show ?thesis using set Suc.prems(1) Suc by simp
  qed
qed

text \<open>The state before any pool exists.\<close>

definition pool_boot :: "pool_state \<Rightarrow> bool" where
  "pool_boot s \<longleftrightarrow> p_plan s = [] \<and> q_plan (p_qheap s) = [] \<and> queue_heap_ok (p_qheap s) \<and> 0 < p_brk s \<and>
     p_tasks s = Map.empty \<and> p_pc s = (\<lambda>_. W_none) \<and> p_joined s = (\<lambda>_. False) \<and>
     p_calls s = [] \<and> p_added s = [] \<and> p_taken s = [] \<and> p_done s = []"

abbreviation empty_queue :: queue_t where
  "empty_queue \<equiv> \<lparr>q_current_size = 0, q_max_size = QUEUE_UNBOUNDED, q_head = NULL, q_tail = NULL, q_customfree = libc_free\<rparr>"

lemma create_start:
  assumes "pool_boot s" and "2 \<le> unat n"
  shows "thread_pool_create True create_ok n s =
    do { (ok, s) \<leftarrow> create_loop (unat n) 0 create_ok
           \<lparr>tp_thread_count = unat n, tp_task_queue = Some empty_queue, tp_worker_threads = replicate (unat n) None\<rparr>
           (s\<lparr>p_pool := None\<rparr>);
         if ok then Some (Returned (), s)
         else do { (r, s) \<leftarrow> thread_pool_shutdown s;
                   (case r of Blocked \<Rightarrow> Some (Blocked, s)
                    | Returned _ \<Rightarrow> do { (r, s) \<leftarrow> thread_pool_destroy s;
                        Some (case r of Blocked \<Rightarrow> Blocked | Returned _ \<Rightarrow> Returned (), s) }) } }"
proof -
  have same: "s\<lparr>p_pool := None, p_qheap := p_qheap s\<lparr>q_plan := []\<rparr>, p_plan := []\<rparr> = s\<lparr>p_pool := None\<rparr>"
    using assms(1) by (simp add: pool_boot_def)
  show ?thesis
    using assms by (simp add: thread_pool_create_def pool_boot_def queue_init_def MIN_THREADS_def Let_def same)
qed

lemma create_run:
  assumes b: "pool_boot s" and n: "2 \<le> unat n" and ok: "\<forall>t < unat n. create_ok t"
  shows "\<exists>s'. thread_pool_create True create_ok n s = Some (Returned (), s') \<and> pinv s' [] \<and> pool_of (unat n) s' \<and>
    (\<forall>t. p_pc s' t = (if t < unat n then W_test else W_none)) \<and> (\<forall>t. \<not> p_joined s' t) \<and>
    p_shutdown s' = p_shutdown s \<and> p_added s' = []"
proof -
  let ?pool = "\<lparr>tp_thread_count = unat n, tp_task_queue = Some empty_queue, tp_worker_threads = replicate (unat n) None\<rparr>"
  let ?s' = "s\<lparr>p_pool := Some (?pool\<lparr>tp_worker_threads := map Some [0..<unat n]\<rparr>),
    p_pc := started 0 (unat n) (\<lambda>_. W_none)\<rparr>"
  have "create_loop (unat n) 0 create_ok ?pool (s\<lparr>p_pool := None\<rparr>) = Some (True, ?s')"
    using create_loop_run [of 0 "unat n" create_ok "unat n" ?pool "s\<lparr>p_pool := None\<rparr>"] ok b
    by (simp add: pool_boot_def)
  then have "thread_pool_create True create_ok n s = Some (Returned (), ?s')"
    using create_start [OF b n] by simp
  moreover have "pinv ?s' []"
    using b by (auto simp: pinv_def pool_boot_def queue_part_def queue_rep_def ledger_def in_hands_def started_def)
  moreover have "pool_of (unat n) ?s'" by (simp add: pool_of_def)
  ultimately show ?thesis using b by (intro exI [of _ ?s']) (simp add: pool_boot_def started_def)
qed

text \<open>When a thread cannot be created, the clean-up joins a worker that runs, or a handle without a thread.\<close>

lemma create_fails:
  assumes b: "pool_boot s" and n: "2 \<le> unat n" and i: "i < unat n" "\<forall>t < i. create_ok t" "\<not> create_ok i"
  shows "\<nexists>s'. thread_pool_create True create_ok n s = Some (Returned (), s')"
proof -
  let ?pool = "\<lparr>tp_thread_count = unat n, tp_task_queue = Some empty_queue, tp_worker_threads = replicate (unat n) None\<rparr>"
  let ?pool' = "?pool\<lparr>tp_worker_threads := map Some [0..<i] @ replicate (unat n - i) None\<rparr>"
  let ?s1 = "s\<lparr>p_pool := Some ?pool', p_pc := started 0 i (\<lambda>_. W_none)\<rparr>"
  have c: "create_loop (unat n) 0 create_ok ?pool (s\<lparr>p_pool := None\<rparr>) = Some (False, ?s1)"
    using create_loop_run [of 0 i create_ok "unat n" ?pool "s\<lparr>p_pool := None\<rparr>"] i b
    by (simp add: pool_boot_def)
  obtain m where m: "unat n = Suc m" using i(1) by (cases "unat n") auto
  let ?u = "?s1\<lparr>p_pc := woken \<circ> p_pc ?s1\<rparr>"
  have "p_pc ?u 0 \<noteq> W_exit" "\<not> p_joined ?u 0" using b by (simp_all add: started_def pool_boot_def)
  then have "join_loop (unat n) 0 (tp_worker_threads ?pool') ?u \<in> {None, Some (Blocked, ?u)}"
  proof (cases "i = 0")
    case True
    then have "arr_get (tp_worker_threads ?pool') 0 = Some None" using m by (simp add: arr_get_def)
    then show ?thesis unfolding m by simp
  next
    case False
    then have "arr_get (tp_worker_threads ?pool') 0 = Some (Some 0)" using m by (simp add: arr_get_def nth_append)
    then show ?thesis using \<open>p_pc ?u 0 \<noteq> W_exit\<close> \<open>\<not> p_joined ?u 0\<close> unfolding m by simp
  qed
  then have "thread_pool_shutdown ?s1 \<in> {None, Some (Blocked, ?s1\<lparr>p_pc := woken \<circ> p_pc ?s1\<rparr>)}"
    using b by (auto simp: thread_pool_shutdown_def pool_boot_def)
  then show ?thesis using c create_start [OF b n, of create_ok] by auto
qed

end
