(* ===== verification/Event_Handler.thy ===== *)
theory Event_Handler
  imports Socket_Manager Socket_IO Thread_Pool Number_Converter
begin

unbundle bit_operations_syntax

text \<open>
  Networking/tcp_server/src/event_handler.c: what the server does with the descriptors \<open>poll\<close>
  reports, on top of the socket manager and the thread pool, and the default request handler that
  the workers run.  Answers of the operating system that do not depend on the program are in the
  record \<open>net\<close>; logging and the textual form of addresses have no effect on the state.
\<close>

section \<open>State\<close>

record server_config_t =
  cf_port :: "string option"
  cf_max_clients :: int
  cf_timeout :: int
  cf_num_threads :: int
  cf_backlog_size :: int
  cf_client_request :: ptr

text \<open>The pointers to the manager and to its mutex in a \<open>job_arg_t\<close> are those of the only
  manager there is.\<close>

record job_arg_t =
  j_client_fd :: int

text \<open>\<open>sv_accepts\<close> are the connections that wait: what the coming calls of \<open>accept4\<close> return
  and the client's address in text; when there is none \<open>accept4\<close> returns -1, since the listening
  socket does not block.  \<open>sv_sock_mgr\<close> is \<open>None\<close> for a NULL pointer, and the pool pointer is
  in \<open>sv_pool\<close>.\<close>

record server_context_t =
  sv_fd :: int
  sv_sock_mgr :: "socket_manager_t option"
  sv_pool :: pool_state
  sv_config :: server_config_t
  sv_env :: sock_env
  sv_jobs :: "ptr \<rightharpoonup> job_arg_t"
  sv_brk :: ptr
  sv_plan :: alloc_plan
  sv_accepts :: "(int \<times> string) list"

record net =
  n_getaddrinfo :: "string \<Rightarrow> int \<times> nat list"
  n_socket :: "nat \<Rightarrow> int"
  n_setsockopt :: "nat \<Rightarrow> int"
  n_bind :: "int \<Rightarrow> nat \<Rightarrow> int"
  n_listen :: "int \<Rightarrow> int \<Rightarrow> int"
  n_getfl :: "int \<Rightarrow> 32 word option"
  n_setfl :: "int \<Rightarrow> 32 word \<Rightarrow> bool"

definition POLL_ERROR_EVENTS :: int where "POLL_ERROR_EVENTS = 8 OR 16 OR 32"

text \<open>The address of \<open>free_job_args\<close>.\<close>

definition FREE_JOB_ARGS :: ptr where "FREE_JOB_ARGS = 1"

definition close_fd :: "int \<Rightarrow> server_context_t \<Rightarrow> server_context_t" where
  "close_fd fd s = s\<lparr>sv_env := (sv_env s)\<lparr>sm_closed := sm_closed (sv_env s) @ [fd]\<rparr>\<rparr>"

definition accept4 :: "server_context_t \<Rightarrow> int \<times> string \<times> server_context_t" where
  "accept4 s =
     (case sv_accepts s of
        [] \<Rightarrow> (- 1, [], s)
      | (fd, addr) # rest \<Rightarrow> (fd, addr, s\<lparr>sv_accepts := rest\<rparr>))"

fun show_int :: "int \<Rightarrow> string" where
  "show_int i = (if i < 0 then ''-'' @ show_nat (nat (- i)) else show_nat (nat i))"

text \<open>\<open>snprintf\<close> returns the length of the whole text, also when it does not fit.\<close>

definition connection_text :: "string \<Rightarrow> int \<Rightarrow> string" where
  "connection_text addr fd = ''new connection from port: ['' @ addr @ ''] on socket: ['' @ show_int fd @ '']''"

section \<open>Clients\<close>

definition register_client ::
  "net \<Rightarrow> server_context_t option \<Rightarrow> (int outcome \<times> server_context_t option) option" where
  "register_client net server =
     (case server of
        None \<Rightarrow> Some (Returned E_FAILURE, None)
      | Some s \<Rightarrow>
          let (fd, addr, s) = accept4 s in
          if fd = - 1 then Some (Returned E_FAILURE, Some s)
          else let exit_code = set_fd_non_blocking (n_getfl net fd) (n_setfl net fd) in
          if exit_code \<noteq> E_SUCCESS then Some (Returned exit_code, Some (close_fd fd s))
          else do {
            (r, mgr, e) \<leftarrow> sock_fd_add (sv_sock_mgr s) fd (sv_env s);
            let s = s\<lparr>sv_sock_mgr := mgr, sv_env := e\<rparr>;
            (case r of
               Blocked \<Rightarrow> Some (Blocked, Some s)
             | Returned exit_code \<Rightarrow>
                 if exit_code \<noteq> E_SUCCESS then Some (Returned exit_code, Some (close_fd fd s))
                 else let exit_code = int (length (connection_text addr fd)) in
                 if exit_code \<noteq> E_SUCCESS then Some (Returned exit_code, Some (close_fd fd s))
                 else Some (Returned E_SUCCESS, Some s)) })"

definition create_job_args :: "int \<Rightarrow> server_context_t \<Rightarrow> int \<times> ptr \<times> server_context_t" where
  "create_job_args client_fd s =
     (if alloc_fails (sv_plan s) then (E_FAILURE, NULL, s\<lparr>sv_plan := alloc_rest (sv_plan s)\<rparr>)
      else (E_SUCCESS, sv_brk s,
            s\<lparr>sv_jobs := (sv_jobs s)(sv_brk s \<mapsto> \<lparr>j_client_fd = client_fd\<rparr>), sv_brk := Suc (sv_brk s),
              sv_plan := alloc_rest (sv_plan s)\<rparr>))"

definition free_job_args :: "ptr \<Rightarrow> server_context_t \<Rightarrow> server_context_t option" where
  "free_job_args arg s =
     (if arg = NULL then Some s else do { J \<leftarrow> free_at (sv_jobs s) arg; Some (s\<lparr>sv_jobs := J\<rparr>) })"

text \<open>The test for a NULL server comes after the pointer was followed.\<close>

definition handle_client_event ::
  "server_context_t option \<Rightarrow> int \<Rightarrow> (int outcome \<times> server_context_t option) option" where
  "handle_client_event server index =
     do {
       s \<leftarrow> server;
       case sv_sock_mgr s of
         None \<Rightarrow> Some (Returned E_FAILURE, Some s)
       | Some m \<Rightarrow>
           if fd_arr m = None then Some (Returned E_FAILURE, Some s)
           else do {
             x \<leftarrow> slot m index;
             client_fd \<leftarrow> p_fd x;
             let (exit_code, job, s) = create_job_args client_fd s;
             if exit_code \<noteq> E_SUCCESS then Some (Returned exit_code, Some s)
             else do {
               (r, pool) \<leftarrow> thread_pool_add_task (cf_client_request (sv_config s)) FREE_JOB_ARGS job (sv_pool s);
               let s = s\<lparr>sv_pool := pool\<rparr>;
               (case r of
                  Blocked \<Rightarrow> Some (Blocked, Some s)
                | Returned exit_code \<Rightarrow>
                    if exit_code \<noteq> E_SUCCESS
                    then do { J \<leftarrow> free_at (sv_jobs s) job; Some (Returned exit_code, Some (s\<lparr>sv_jobs := J\<rparr>)) }
                    else do {
                      (r, mgr) \<leftarrow> sock_fd_remove (sv_sock_mgr s) index;
                      Some (r, Some (s\<lparr>sv_sock_mgr := mgr\<rparr>)) }) } } }"

section \<open>One round of events\<close>

text \<open>One entry of the array; \<open>exit_code\<close> is that of the last event handled so far.\<close>

definition visit_entry ::
  "net \<Rightarrow> int \<Rightarrow> int \<Rightarrow> server_context_t \<Rightarrow> (int outcome \<times> server_context_t) option" where
  "visit_entry net idx exit_code s =
     (case sv_sock_mgr s of
        None \<Rightarrow> None
      | Some m \<Rightarrow>
          if fd_mutex_locked m then Some (Blocked, s)
          else do {
            entry \<leftarrow> slot m idx;
            revents \<leftarrow> p_revents entry;
            if revents AND POLL_ERROR_EVENTS \<noteq> 0
            then do {
              fd \<leftarrow> p_fd entry;
              m \<leftarrow> update_slot m idx (\<lambda>x. x\<lparr>p_fd := Some (- 1)\<rparr>);
              Some (Returned exit_code, (close_fd fd s)\<lparr>sv_sock_mgr := Some m\<rparr>) }
            else if revents AND POLLIN = 0 then Some (Returned exit_code, s)
            else do {
              fd \<leftarrow> p_fd entry;
              (r, server) \<leftarrow> (if fd = sv_fd s then register_client net (Some s) else handle_client_event (Some s) idx);
              s \<leftarrow> server;
              Some (r, s) } })"

fun connections_loop ::
  "net \<Rightarrow> nat \<Rightarrow> int \<Rightarrow> int \<Rightarrow> server_context_t \<Rightarrow> (int outcome \<times> server_context_t) option" where
  "connections_loop net 0 idx exit_code s = Some (Returned exit_code, s)"
| "connections_loop net (Suc k) idx exit_code s =
     do {
       (r, s) \<leftarrow> visit_entry net idx exit_code s;
       case r of
         Blocked \<Rightarrow> Some (Blocked, s)
       | Returned exit_code \<Rightarrow> connections_loop net k (idx + 1) exit_code s }"

definition handle_connections ::
  "net \<Rightarrow> server_context_t option \<Rightarrow> (int outcome \<times> server_context_t option) option" where
  "handle_connections net server =
     (case server of
        None \<Rightarrow> Some (Returned E_FAILURE, None)
      | Some s \<Rightarrow>
          (case sv_sock_mgr s of
             None \<Rightarrow> Some (Returned E_FAILURE, Some s)
           | Some m \<Rightarrow>
               if fd_mutex_locked m then Some (Blocked, Some s)
               else do {
                 (r, s) \<leftarrow> connections_loop net (nat (fd_count m)) 0 E_FAILURE s;
                 Some (r, Some s) }))"

section \<open>The request handler\<close>

definition process_job :: "int \<Rightarrow> int" where
  "process_job client_fd = - 1"

definition process_client_request :: "ptr \<Rightarrow> server_context_t \<Rightarrow> (unit outcome \<times> server_context_t) option" where
  "process_client_request arg s =
     (if arg = NULL then Some (Returned (), s)
      else do {
        job \<leftarrow> deref (sv_jobs s) arg;
        let exit_code = process_job (j_client_fd job);
        if exit_code \<noteq> E_SUCCESS \<and> exit_code = E_CONNECTION_CLOSED
        then Some (Returned (), close_fd (j_client_fd job) s)
        else do {
          (r, mgr, e) \<leftarrow> sock_fd_add (sv_sock_mgr s) (j_client_fd job) (sv_env s);
          let s = s\<lparr>sv_sock_mgr := mgr, sv_env := e\<rparr>;
          Some (case r of Blocked \<Rightarrow> Blocked | Returned _ \<Rightarrow> Returned (), s) } })"

end
