(* ===== verification/Signals.thy ===== *)
theory Signals
  imports Prelude
begin

text \<open>
  Signals/src: the two ways a process is told to stop.  signal_handler_single_thread.c installs a
  handler that sets the global flag, signal_handler_multi_thread.c is a thread that waits for one
  signal.  The state is the flag and what was written to the terminal.
\<close>

definition SHUTDOWN :: int where "SHUTDOWN = 1"
definition ACTIVE :: int where "ACTIVE = 0"

definition SIGHUP :: int where "SIGHUP = 1"
definition SIGINT :: int where "SIGINT = 2"
definition SIGTERM :: int where "SIGTERM = 15"

definition SIGNAL_LIST :: "int list" where "SIGNAL_LIST = [SIGINT, SIGTERM, SIGHUP]"

definition SIGINT_MSG :: string where
  "SIGINT_MSG = ''[Signal] SIGINT received. Initiating graceful shutdown...'' @ [CHR 0x0A]"
definition SIGTERM_MSG :: string where
  "SIGTERM_MSG = ''[Signal] SIGTERM received. Initiating graceful shutdown...'' @ [CHR 0x0A]"
definition SIGHUP_MSG :: string where
  "SIGHUP_MSG = ''[Signal] SIGHUP received. Reload signal ignored (no-op).'' @ [CHR 0x0A]"

record sig_state =
  signal_flag :: int
  sig_out :: string
  sig_handled :: "int list"

definition say :: "string \<Rightarrow> sig_state \<Rightarrow> sig_state" where
  "say msg s = s\<lparr>sig_out := sig_out s @ [CHR 0x0A] @ msg\<rparr>"

definition signal_handler :: "int \<Rightarrow> sig_state \<Rightarrow> sig_state" where
  "signal_handler sig s =
     (if sig = SIGINT then say SIGINT_MSG (s\<lparr>signal_flag := SHUTDOWN\<rparr>)
      else if sig = SIGTERM then say SIGTERM_MSG (s\<lparr>signal_flag := SHUTDOWN\<rparr>)
      else if sig = SIGHUP then say SIGHUP_MSG s
      else s)"

text \<open>\<open>sigaction_result\<close> is what the system call returns for a signal; a call that succeeds
  installs the handler.\<close>

fun setup_loop :: "(int \<Rightarrow> int) \<Rightarrow> int list \<Rightarrow> sig_state \<Rightarrow> int \<times> sig_state" where
  "setup_loop sigaction_result [] s = (E_SUCCESS, s)"
| "setup_loop sigaction_result (sig # sigs) s =
     (let exit_code = sigaction_result sig
      in if exit_code \<noteq> E_SUCCESS then (exit_code, s)
         else setup_loop sigaction_result sigs (s\<lparr>sig_handled := sig_handled s @ [sig]\<rparr>))"

definition signal_action_setup :: "(int \<Rightarrow> int) \<Rightarrow> sig_state \<Rightarrow> int \<times> sig_state" where
  "signal_action_setup sigaction_result s = setup_loop sigaction_result SIGNAL_LIST s"

text \<open>\<open>sigwait\<close> returns an exit code and the signal it took; the thread stores the flag before it
  looks at which signal it was.\<close>

definition signal_wait_thread :: "int \<times> int \<Rightarrow> sig_state \<Rightarrow> sig_state" where
  "signal_wait_thread sigwait_result s =
     (let (exit_code, sig) = sigwait_result
      in if exit_code \<noteq> E_SUCCESS then s
         else let s = s\<lparr>signal_flag := SHUTDOWN\<rparr>
              in if sig = SIGINT then say SIGINT_MSG s
                 else if sig = SIGTERM then say SIGTERM_MSG s
                 else if sig = SIGHUP then say SIGHUP_MSG s
                 else s)"

lemmas signal_defs = SIGHUP_def SIGINT_def SIGTERM_def SHUTDOWN_def ACTIVE_def

lemma say_flag [simp]: "signal_flag (say msg s) = signal_flag s"
  by (simp add: say_def)

text \<open>The flag is never cleared again, and under the handler only the two terminating signals set
  it.\<close>

lemma signal_handler_flag:
  "signal_flag (signal_handler sig s) = (if sig = SIGINT \<or> sig = SIGTERM then SHUTDOWN else signal_flag s)"
  by (simp add: signal_handler_def)

lemma signal_handler_run:
  "signal_flag (fold signal_handler sigs s) =
     (if SIGINT \<in> set sigs \<or> SIGTERM \<in> set sigs then SHUTDOWN else signal_flag s)"
  by (induction sigs arbitrary: s) (auto simp: signal_handler_flag)

lemma setup_loop_result:
  "setup_loop f sigs s =
     (case dropWhile (\<lambda>x. f x = E_SUCCESS) sigs of [] \<Rightarrow> E_SUCCESS | x # _ \<Rightarrow> f x,
      s\<lparr>sig_handled := sig_handled s @ takeWhile (\<lambda>x. f x = E_SUCCESS) sigs\<rparr>)"
  by (induction sigs arbitrary: s) (auto simp: Let_def)

text \<open>The two files disagree about SIGHUP: the handler ignores it, the waiting thread shuts down and
  writes that the signal was ignored.\<close>

lemma sighup_disagree:
  "signal_flag (signal_handler SIGHUP s) = signal_flag s"
  "signal_flag (signal_wait_thread (E_SUCCESS, SIGHUP) s) = SHUTDOWN"
  "sig_out (signal_wait_thread (E_SUCCESS, SIGHUP) s) = sig_out (signal_handler SIGHUP s)"
  by (simp_all add: signal_handler_def signal_wait_thread_def say_def signal_defs)

end
