(* ===== verification/Tcp_Server.thy ===== *)
theory Tcp_Server
  imports Event_Handler Signals
begin

text \<open>
  Networking/tcp_server/src/tcp_server.c: validation of the configuration, the listening socket, the
  loop around \<open>poll\<close> and \<open>start_tcp_server\<close>, on top of the event handler, the socket manager
  and the thread pool.
\<close>

section \<open>Configuration\<close>

definition MAX_TIMEOUT :: int where "MAX_TIMEOUT = 300"
definition MIN_TIMEOUT :: int where "MIN_TIMEOUT = 10"
definition MAX_BACKLOG :: int where "MAX_BACKLOG = 128"
definition MIN_BACKLOG :: int where "MIN_BACKLOG = 1"
definition MIN_NUM_THREADS :: int where "MIN_NUM_THREADS = 2"
definition MAX_NUM_THREADS :: int where "MAX_NUM_THREADS = 24"
definition MIN_CLIENTS :: int where "MIN_CLIENTS = 1"
definition MAX_CLIENTS :: int where "MAX_CLIENTS = 100"
definition WELL_KNOWN_PORT_MAX :: int where "WELL_KNOWN_PORT_MAX = 1023"

lemmas config_bounds = MAX_TIMEOUT_def MIN_TIMEOUT_def MAX_BACKLOG_def MIN_BACKLOG_def MIN_NUM_THREADS_def
  MAX_NUM_THREADS_def MIN_CLIENTS_def MAX_CLIENTS_def WELL_KNOWN_PORT_MAX_def

definition validate_config :: "server_config_t option \<Rightarrow> int" where
  "validate_config config =
     (case config of
        None \<Rightarrow> E_FAILURE
      | Some c \<Rightarrow>
          let (exit_code, port) = str_to_int32 (cf_port c) (Some 0) in
          if exit_code \<noteq> E_SUCCESS then exit_code
          else if 0 \<le> the port \<and> WELL_KNOWN_PORT_MAX \<ge> the port then E_FAILURE
          else if MIN_BACKLOG > cf_backlog_size c \<or> MAX_BACKLOG < cf_backlog_size c then E_FAILURE
          else if cf_timeout c \<noteq> - 1 \<and> (MIN_TIMEOUT > cf_timeout c \<or> MAX_TIMEOUT < cf_timeout c) then E_FAILURE
          else if MIN_NUM_THREADS > cf_num_threads c \<or> MAX_NUM_THREADS < cf_num_threads c then E_FAILURE
          else if MIN_CLIENTS > cf_max_clients c \<or> MAX_CLIENTS < cf_max_clients c then E_FAILURE
          else if cf_client_request c = NULL then E_FAILURE
          else E_SUCCESS)"

section \<open>The listening socket\<close>

text \<open>The addresses in turn: whether one was bound, the last exit code, the descriptor and the
  descriptors closed.\<close>

fun bind_loop :: "net \<Rightarrow> nat list \<Rightarrow> int \<Rightarrow> server_context_t \<Rightarrow> bool \<times> int \<times> server_context_t" where
  "bind_loop net [] exit_code s = (False, exit_code, s)"
| "bind_loop net (current # rest) exit_code s =
     (let (exit_code, fd, closed) = create_socket True (n_socket net current) (n_setsockopt net current) (sv_fd s);
          s = fold close_fd closed (s\<lparr>sv_fd := fd\<rparr>)
      in if exit_code \<noteq> E_SUCCESS then bind_loop net rest exit_code s
         else let exit_code = n_bind net (sv_fd s) current
              in if exit_code = E_SUCCESS then (True, exit_code, s)
                 else bind_loop net rest exit_code (close_fd (sv_fd s) s))"

text \<open>A NULL service makes \<open>getaddrinfo\<close> fail, since the node is NULL too.\<close>

definition initialize_server ::
  "net \<Rightarrow> server_context_t option \<Rightarrow> (int \<times> server_context_t option) option" where
  "initialize_server net server =
     (case server of
        None \<Rightarrow> Some (E_FAILURE, None)
      | Some s \<Rightarrow>
          let (exit_code, addr_list) =
            (case cf_port (sv_config s) of None \<Rightarrow> (- 2, []) | Some port \<Rightarrow> n_getaddrinfo net port) in
          if exit_code \<noteq> E_SUCCESS then Some (exit_code, Some s)
          else let (bound, exit_code, s) = bind_loop net addr_list exit_code s in
          if \<not> bound then Some (E_FAILURE, Some s)
          else let exit_code = set_fd_non_blocking (n_getfl net (sv_fd s)) (n_setfl net (sv_fd s)) in
          if exit_code \<noteq> E_SUCCESS then Some (exit_code, Some (close_fd (sv_fd s) s))
          else let exit_code = n_listen net (sv_fd s) (cf_backlog_size (sv_config s)) in
          if exit_code \<noteq> E_SUCCESS then Some (exit_code, Some s)
          else do {
            (exit_code, mgr, e) \<leftarrow> sock_mgr_init (sv_sock_mgr s) (sv_fd s) (cf_max_clients (sv_config s))
              DEFAULT_FD_CAPACITY (sv_env s);
            Some (exit_code, Some (s\<lparr>sv_sock_mgr := mgr, sv_env := e\<rparr>)) })"

section \<open>The loop around poll\<close>

text \<open>\<open>poll\<close> writes \<open>revents\<close> of the first \<open>fd_count\<close> entries, 0 for a negative
  descriptor, and returns the number of entries with an event.\<close>

definition poll_entry :: "(int \<Rightarrow> int) \<Rightarrow> pollfd \<Rightarrow> pollfd option" where
  "poll_entry events x =
     do { fd \<leftarrow> p_fd x; Some (x\<lparr>p_revents := Some (if fd < 0 then 0 else events fd)\<rparr>) }"

definition poll :: "(int \<Rightarrow> int) \<Rightarrow> socket_manager_t \<Rightarrow> (int \<times> socket_manager_t) option" where
  "poll events m =
     do {
       a \<leftarrow> fd_arr m;
       let n = nat (fd_count m);
       if length a < n then None
       else do {
         xs \<leftarrow> those (map (poll_entry events) (take n a));
         Some (int (length (filter (\<lambda>x. p_revents x \<noteq> Some 0) xs)), m\<lparr>fd_arr := Some (xs @ drop n a)\<rparr>) } }"

text \<open>
  What one call of \<open>poll\<close> does: it fails (\<open>True\<close>: with EINTR), or it waits until its timeout or
  until the given events are there.  While it waits the workers go on: \<open>others\<close> is what they make of
  the shared state before the \<open>n\<close>-th call returns.  The loop's variable \<open>signal\<close> is local and
  never assigned, so the loop does not look at the flag that a signal sets.  \<open>Blocked\<close>: the loop
  is still running when the answers given are used up.
\<close>

datatype poll_answer = Poll_failed bool | Poll_events "int \<Rightarrow> int"

fun server_loop ::
  "net \<Rightarrow> (nat \<Rightarrow> server_context_t \<Rightarrow> server_context_t) \<Rightarrow> nat \<Rightarrow> poll_answer list \<Rightarrow> int \<Rightarrow> int \<Rightarrow>
   server_context_t \<Rightarrow> (int outcome \<times> server_context_t) option" where
  "server_loop net others n [] signal exit_code s =
     (if signal \<noteq> ACTIVE then Some (Returned E_SUCCESS, s) else Some (Blocked, s))"
| "server_loop net others n (answer # answers) signal exit_code s =
     (if signal \<noteq> ACTIVE then Some (Returned E_SUCCESS, s)
      else if signal = SHUTDOWN then Some (Returned E_SUCCESS, s)
      else
        let s = others n s in
        case answer of
          Poll_failed eintr \<Rightarrow>
            if eintr then server_loop net others (Suc n) answers signal exit_code s
            else Some (Returned exit_code, s)
        | Poll_events events \<Rightarrow> do {
            m \<leftarrow> sv_sock_mgr s;
            if fd_mutex_locked m then Some (Blocked, s)
            else do {
              (poll_count, m) \<leftarrow> poll events m;
              let s = s\<lparr>sv_sock_mgr := Some m\<rparr>;
              if poll_count = 0 then server_loop net others (Suc n) answers signal exit_code s
              else do {
                (r, server) \<leftarrow> handle_connections net (Some s);
                s \<leftarrow> server;
                (case r of
                   Blocked \<Rightarrow> Some (Blocked, s)
                 | Returned exit_code \<Rightarrow>
                     if exit_code \<noteq> E_SUCCESS then Some (Returned exit_code, s)
                     else server_loop net others (Suc n) answers signal exit_code s) } } })"

definition run_server_loop ::
  "net \<Rightarrow> (nat \<Rightarrow> server_context_t \<Rightarrow> server_context_t) \<Rightarrow> poll_answer list \<Rightarrow> server_context_t option \<Rightarrow>
   (int outcome \<times> server_context_t option) option" where
  "run_server_loop net others answers server =
     (case server of
        None \<Rightarrow> Some (Returned E_FAILURE, None)
      | Some s \<Rightarrow>
          if sv_sock_mgr s = None then Some (Returned E_FAILURE, Some s)
          else do {
            (r, s) \<leftarrow> server_loop net others 0 answers ACTIVE E_FAILURE s;
            Some (r, Some s) })"

section \<open>The server\<close>

text \<open>\<open>sync_ok\<close> and \<open>create_ok\<close> are the answers of the pthread functions that
  \<open>thread_pool_create\<close> calls.  The manager is a local variable of zeros.\<close>

definition zero_manager :: socket_manager_t where
  "zero_manager = \<lparr>fd_arr = None, max_fds = 0, fd_count = 0, fd_capacity = 0, fd_mutex_locked = False\<rparr>"

definition stop_server :: "int \<Rightarrow> server_context_t \<Rightarrow> (int outcome \<times> server_context_t) option" where
  "stop_server exit_code s =
     do {
       (_, mgr, e) \<leftarrow> close_all_sockets (sv_sock_mgr s) (sv_env s);
       let s = s\<lparr>sv_sock_mgr := mgr, sv_env := e\<rparr>;
       (r, pool) \<leftarrow> thread_pool_destroy (sv_pool s);
       Some (case r of Blocked \<Rightarrow> Blocked | Returned _ \<Rightarrow> Returned exit_code, s\<lparr>sv_pool := pool\<rparr>) }"

definition start_tcp_server ::
  "net \<Rightarrow> bool \<Rightarrow> (nat \<Rightarrow> bool) \<Rightarrow> (nat \<Rightarrow> server_context_t \<Rightarrow> server_context_t) \<Rightarrow> poll_answer list \<Rightarrow>
   server_config_t option \<Rightarrow> server_context_t \<Rightarrow> (int outcome \<times> server_context_t) option" where
  "start_tcp_server net sync_ok create_ok others answers config s =
     (let s = s\<lparr>sv_fd := 0, sv_sock_mgr := None, sv_pool := (sv_pool s)\<lparr>p_pool := None\<rparr>\<rparr> in
      case config of
        None \<Rightarrow> stop_server E_FAILURE s
      | Some c \<Rightarrow>
          if cf_client_request c = NULL then stop_server E_FAILURE s
          else let exit_code = validate_config config in
          if exit_code \<noteq> E_SUCCESS then stop_server exit_code s
          else do {
            (r, pool) \<leftarrow> thread_pool_create sync_ok create_ok (word_of_int (cf_num_threads c)) (sv_pool s);
            (case r of
               Blocked \<Rightarrow> Some (Blocked, s\<lparr>sv_pool := pool\<rparr>)
             | Returned _ \<Rightarrow>
                 if p_pool pool = None then stop_server exit_code (s\<lparr>sv_pool := pool\<rparr>)
                 else do {
                   let s = s\<lparr>sv_sock_mgr := Some zero_manager, sv_pool := pool, sv_config := c\<rparr>;
                   (exit_code, server) \<leftarrow> initialize_server net (Some s);
                   s \<leftarrow> server;
                   if exit_code \<noteq> E_SUCCESS then stop_server exit_code s
                   else do {
                     (r, server) \<leftarrow> run_server_loop net others answers (Some s);
                     s \<leftarrow> server;
                     (case r of
                        Blocked \<Rightarrow> Some (Blocked, s)
                      | Returned exit_code \<Rightarrow> stop_server exit_code s) } }) })"

section \<open>What is accepted\<close>

text \<open>Exactly these configurations are accepted; ports below 0 and above 65535 are among them.\<close>

lemma validate_config_iff:
  "validate_config (Some c) = E_SUCCESS \<longleftrightarrow>
     (\<exists>p. str_to_int32 (cf_port c) (Some 0) = (E_SUCCESS, Some p) \<and> (p < 0 \<or> 1023 < p)) \<and>
     1 \<le> cf_backlog_size c \<and> cf_backlog_size c \<le> 128 \<and>
     (cf_timeout c = - 1 \<or> 10 \<le> cf_timeout c \<and> cf_timeout c \<le> 300) \<and>
     2 \<le> cf_num_threads c \<and> cf_num_threads c \<le> 24 \<and>
     1 \<le> cf_max_clients c \<and> cf_max_clients c \<le> 100 \<and> cf_client_request c \<noteq> NULL"
proof -
  obtain r v where r: "str_to_int32 (cf_port c) (Some 0) = (r, v)" by fastforce
  have v: "r = E_SUCCESS \<Longrightarrow> \<exists>p. v = Some p"
    using r by (auto simp: str_to_int32_def split: option.splits prod.splits if_splits)
  have "(validate_config (Some c) = E_SUCCESS) =
     (r = E_SUCCESS \<and> (the v < 0 \<or> 1023 < the v) \<and>
     1 \<le> cf_backlog_size c \<and> cf_backlog_size c \<le> 128 \<and>
     (cf_timeout c = - 1 \<or> 10 \<le> cf_timeout c \<and> cf_timeout c \<le> 300) \<and>
     2 \<le> cf_num_threads c \<and> cf_num_threads c \<le> 24 \<and>
     1 \<le> cf_max_clients c \<and> cf_max_clients c \<le> 100 \<and> cf_client_request c \<noteq> NULL)"
    by (simp add: validate_config_def r config_bounds not_le not_less)
  then show ?thesis using v r by auto
qed

section \<open>The loop\<close>

text \<open>No connection is ever registered with success.\<close>

lemma register_client_never:
  assumes "register_client net (Some s) = Some (Returned code, s')"
  shows "code \<noteq> E_SUCCESS"
  using assms
  by (auto simp: register_client_def connection_text_def bind_Some_iff case_outcome_Some Let_def exit_codes
      split: if_split_asm prod.split_asm)

text \<open>The only way for the loop to end with success is a \<open>poll\<close> that fails.\<close>

lemma server_loop_success:
  assumes "server_loop net others n answers ACTIVE code s = Some (Returned E_SUCCESS, s')"
  shows "Poll_failed False \<in> set answers"
  using assms
proof (induction answers arbitrary: n code s)
  case (Cons answer answers)
  show ?case
  proof (cases answer)
    case (Poll_failed b)
    then show ?thesis using Cons by (cases b) (auto simp: Let_def SHUTDOWN_def ACTIVE_def)
  next
    case (Poll_events events)
    then show ?thesis using Cons
      by (auto simp: bind_Some_iff case_outcome_Some Let_def SHUTDOWN_def ACTIVE_def split: if_split_asm prod.split_asm)
  qed
qed (simp add: ACTIVE_def)

text \<open>A signal interrupts \<open>poll\<close> and nothing else: the loop goes on, whatever the flag is.\<close>

lemma server_loop_interrupted:
  assumes "set answers \<subseteq> {Poll_failed True}"
  shows "\<exists>s'. server_loop net others n answers ACTIVE code s = Some (Blocked, s')"
  using assms by (induction answers arbitrary: n s) (auto simp: ACTIVE_def SHUTDOWN_def Let_def)

section \<open>The pool behind the server\<close>

text \<open>The handles of the workers, which no step changes.\<close>

definition pool_handles :: "pool_state \<Rightarrow> (nat \<times> nat option list) option" where
  "pool_handles s = map_option (\<lambda>p. (tp_thread_count p, tp_worker_threads p)) (p_pool s)"

lemma add_task_handles:
  "thread_pool_add_task f fr a s = Some (r, s') \<Longrightarrow> pool_handles s' = pool_handles s \<and> p_joined s' = p_joined s"
  by (auto simp: thread_pool_add_task_def create_task_def free_task_def pool_handles_def bind_Some_iff case_outcome_Some Let_def
      split: if_split_asm option.split_asm prod.split_asm)

lemma pstep_handles: "pstep s s' \<Longrightarrow> pool_handles s' = pool_handles s \<and> p_joined s' = p_joined s"
  by (erule pstepE) (auto simp: process_task_def free_task_def pool_handles_def bind_Some_iff Let_def
      dest: add_task_handles split: if_split_asm)

lemma preach_handles: "preach s0 s \<Longrightarrow> pool_handles s = pool_handles s0 \<and> p_joined s = p_joined s0"
  by (induction rule: preach.induct) (auto dest: pstep_handles)

lemma preach_pool_of:
  assumes "preach s0 s" and "pool_of n s0" and "pinv s0 Q" and "Suc (length (p_added s)) < 2 ^ 32"
  shows "pool_of n s"
proof -
  obtain Q' where "pinv s Q'" using preach_pinv assms by blast
  then show ?thesis using assms(2) preach_handles [OF assms(1)]
    by (auto simp: pool_of_def pool_handles_def pinv_def queue_part_def)
qed

text \<open>What the main thread does to the pool are steps of the pool.\<close>

lemma client_event_reach:
  assumes "handle_client_event (Some s) i = Some (Returned c, Some s')"
  shows "preach (sv_pool s) (sv_pool s')"
  using assms
  by (auto simp: handle_client_event_def create_job_args_def bind_Some_iff case_outcome_Some Let_def
      intro: preach.init preach.step [OF preach.init pstep.client]
      split: if_split_asm option.split_asm prod.split_asm)

lemma register_pool: "register_client net (Some s) = Some (r, Some s') \<Longrightarrow> sv_pool s' = sv_pool s"
  by (auto simp: register_client_def accept4_def close_fd_def bind_Some_iff case_outcome_Some Let_def
      split: if_split_asm list.split_asm prod.split_asm)

lemma register_reach: "register_client net (Some s) = Some (r, Some s') \<Longrightarrow> preach (sv_pool s) (sv_pool s')"
  using register_pool by (metis preach.init)

lemma visit_entry_reach:
  assumes "visit_entry net i c s = Some (Returned c', s')"
  shows "preach (sv_pool s) (sv_pool s')"
  using assms
  by (auto simp: visit_entry_def close_fd_def bind_Some_iff Let_def intro: preach.init client_event_reach register_reach
      split: if_split_asm option.split_asm prod.split_asm)

lemma connections_reach:
  "connections_loop net k i c s = Some (Returned c', s') \<Longrightarrow> preach (sv_pool s) (sv_pool s')"
proof (induction k arbitrary: i c s)
  case (Suc k)
  then obtain c1 s1 where "visit_entry net i c s = Some (Returned c1, s1)"
      "connections_loop net k (i + 1) c1 s1 = Some (Returned c', s')"
    by (auto simp: bind_Some_iff case_outcome_Some split: prod.split_asm)
  then show ?case using Suc.IH visit_entry_reach preach_trans by blast
qed (simp add: preach.init)

lemma server_loop_reach:
  assumes "server_loop net others n answers ACTIVE c s = Some (Returned c', s')"
    and "\<And>n s. preach (sv_pool s) (sv_pool (others n s))"
  shows "preach (sv_pool s) (sv_pool s')"
  using assms(1)
proof (induction answers arbitrary: n c s)
  case (Cons answer answers)
  show ?case
  proof (cases answer)
    case (Poll_failed b)
    then have "sv_pool s' = sv_pool (others n s) \<or> preach (sv_pool (others n s)) (sv_pool s')"
      using Cons by (cases b) (auto simp: Let_def SHUTDOWN_def ACTIVE_def)
    then show ?thesis using assms(2) preach_trans by metis
  next
    case (Poll_events events)
    let ?s = "others n s"
    consider m where "server_loop net others (Suc n) answers ACTIVE c (?s\<lparr>sv_sock_mgr := m\<rparr>) = Some (Returned c', s')"
      | m r s1 where "handle_connections net (Some (?s\<lparr>sv_sock_mgr := m\<rparr>)) = Some (Returned r, Some s1)"
          "s1 = s' \<or> server_loop net others (Suc n) answers ACTIVE r s1 = Some (Returned c', s')"
      using Cons.prems Poll_events
      by (auto simp: bind_Some_iff case_outcome_Some Let_def SHUTDOWN_def ACTIVE_def split: if_split_asm prod.split_asm)
    then show ?thesis
    proof cases
      case 1
      then have "preach (sv_pool ?s) (sv_pool s')" using Cons.IH by fastforce
      then show ?thesis using assms(2) preach_trans by blast
    next
      case 2
      from 2(1) have "preach (sv_pool ?s) (sv_pool s1)"
        by (auto simp: handle_connections_def bind_Some_iff intro: preach.init dest: connections_reach
            split: option.split_asm if_split_asm prod.split_asm)
      moreover have "preach (sv_pool s1) (sv_pool s')" using 2(2) Cons.IH preach.init by blast
      ultimately show ?thesis using assms(2) preach_trans by blast
    qed
  qed
qed (simp add: ACTIVE_def)

lemma bind_loop_frame:
  "bind_loop net addrs c s = (b, c', s') \<Longrightarrow> \<exists>f cl. s' = s\<lparr>sv_fd := f, sv_env := (sv_env s)\<lparr>sm_closed := cl\<rparr>\<rparr>"
proof (induction addrs arbitrary: c s)
  case Nil
  then have "s' = s\<lparr>sv_fd := sv_fd s, sv_env := (sv_env s)\<lparr>sm_closed := sm_closed (sv_env s)\<rparr>\<rparr>" by simp
  then show ?case by blast
next
  case (Cons a addrs)
  have closing: "fold close_fd fds s = s\<lparr>sv_env := (sv_env s)\<lparr>sm_closed := sm_closed (sv_env s) @ fds\<rparr>\<rparr>" for fds s
    by (induction fds arbitrary: s) (simp_all add: close_fd_def)
  show ?case using Cons.prems
    by (auto simp: Let_def closing close_fd_def dest!: Cons.IH split: prod.split_asm if_split_asm) blast+
qed

lemma initialize_pool: "initialize_server net (Some s) = Some (c, Some s') \<Longrightarrow> sv_pool s' = sv_pool s"
  by (auto simp: initialize_server_def close_fd_def bind_Some_iff Let_def dest!: bind_loop_frame
      split: if_split_asm prod.split_asm option.split_asm)

lemma join_loop_keeps: "join_loop k i ws s = Some (r, s') \<Longrightarrow> p_shutdown s' = p_shutdown s \<and> p_added s' = p_added s"
  by (induction k arbitrary: i s) (fastforce simp: bind_Some_iff split: if_split_asm)+

lemma destroy_keeps: "thread_pool_destroy s = Some (r, s') \<Longrightarrow> p_shutdown s' = p_shutdown s \<and> p_added s' = p_added s"
  by (auto simp: thread_pool_destroy_def thread_pool_shutdown_def bind_Some_iff case_outcome_Some Let_def
      dest!: join_loop_keeps split: option.split_asm prod.split_asm)

lemma Returned_case: "(case r of Returned x \<Rightarrow> Returned c | Blocked \<Rightarrow> Blocked) = Returned c' \<Longrightarrow> \<exists>x. r = Returned x"
  by (cases r) auto

text \<open>A server whose pool has workers does not return before the flag is raised.\<close>

lemma stop_server_stuck:
  assumes "stop_server c s = Some (Returned c', s')" and r: "preach p0 (sv_pool s)" and p0: "pinv p0 []" "pool_of n p0" "0 < n"
    "\<And>t. p_pc p0 t \<noteq> W_exit" "\<And>t. \<not> p_joined p0 t" and w: "Suc (length (p_added (sv_pool s'))) < 2 ^ 32"
  shows "p_shutdown (sv_pool s')"
proof (rule ccontr)
  assume no: "\<not> p_shutdown (sv_pool s')"
  obtain x P where d: "thread_pool_destroy (sv_pool s) = Some (Returned x, P)" "sv_pool s' = P"
    using assms(1) by (auto simp: stop_server_def bind_Some_iff dest: Returned_case)
  have same: "p_shutdown (sv_pool s) = p_shutdown P" "p_added (sv_pool s) = p_added P"
    using destroy_keeps [OF d(1)] by simp_all
  have "pool_of n (sv_pool s)" using preach_pool_of [OF r p0(2,1)] w d(2) same by simp
  moreover have "p_pc (sv_pool s) 0 \<noteq> W_exit" using preach_no_exit [OF r p0(4)] no d(2) same by simp
  moreover have "\<not> p_joined (sv_pool s) 0" using preach_handles [OF r] p0(5) by simp
  ultimately obtain s1 where "thread_pool_shutdown (sv_pool s) = Some (Blocked, s1)" using shutdown_waits p0(3) by blast
  moreover obtain pool where "p_pool (sv_pool s) = Some pool" using \<open>pool_of n (sv_pool s)\<close> by (auto simp: pool_of_def)
  ultimately show False using d(1) by (simp add: thread_pool_destroy_def)
qed

lemma start_tcp_server_stuck:
  assumes b: "pool_boot (sv_pool s)" and c: "validate_config (Some c) = E_SUCCESS" and ok: "\<And>t. create_ok t"
    and o: "\<And>n s. preach (sv_pool s) (sv_pool (others n s))"
    and run: "start_tcp_server net True create_ok others answers (Some c) s = Some (Returned code, s')"
    and w: "Suc (length (p_added (sv_pool s'))) < 2 ^ 32"
  shows "p_shutdown (sv_pool s')"
proof -
  let ?n = "word_of_int (cf_num_threads c) :: 64 word"
  let ?s = "s\<lparr>sv_fd := 0, sv_sock_mgr := None, sv_pool := (sv_pool s)\<lparr>p_pool := None\<rparr>\<rparr>"
  have n: "2 \<le> cf_num_threads c" "cf_num_threads c \<le> 24" and f: "cf_client_request c \<noteq> NULL"
    using c by (simp_all add: validate_config_iff)
  have un: "unat ?n = nat (cf_num_threads c)" using n by (simp add: unat_eq_nat_uint word_uint_eq_iff uint_word_of_int)
  have "pool_boot ((sv_pool s)\<lparr>p_pool := None\<rparr>)" using b by (simp add: pool_boot_def)
  moreover have "2 \<le> unat ?n" using un n by simp
  ultimately obtain p0 where p0:
      "thread_pool_create True create_ok ?n ((sv_pool s)\<lparr>p_pool := None\<rparr>) = Some (Returned (), p0)" "pinv p0 []"
      "pool_of (unat ?n) p0" "\<forall>t. p_pc p0 t = (if t < unat ?n then W_test else W_none)" "\<forall>t. \<not> p_joined p0 t"
    using create_run ok by blast
  have pc: "\<And>t. p_pc p0 t \<noteq> W_exit" "\<And>t. \<not> p_joined p0 t" using p0(4,5) by simp_all
  have pool: "p_pool p0 \<noteq> None" and n0: "0 < unat ?n" using p0(3) un n by (auto simp: pool_of_def)
  obtain s1 c1 where i: "initialize_server net (Some (?s\<lparr>sv_sock_mgr := Some zero_manager, sv_pool := p0, sv_config := c\<rparr>)) = Some (c1, Some s1)"
      and cont: "if c1 \<noteq> E_SUCCESS then stop_server c1 s1 = Some (Returned code, s')
        else \<exists>c2 s2. run_server_loop net others answers (Some s1) = Some (Returned c2, Some s2) \<and>
          stop_server c2 s2 = Some (Returned code, s')"
    using run f c p0(1) pool
    by (auto simp: start_tcp_server_def bind_Some_iff case_outcome_Some Let_def split: if_split_asm prod.split_asm)
  have s1: "sv_pool s1 = p0" using initialize_pool [OF i] by simp
  have "\<exists>c2 s2. stop_server c2 s2 = Some (Returned code, s') \<and> preach p0 (sv_pool s2)"
  proof (cases "c1 = E_SUCCESS")
    case True
    then obtain c2 s2 where "run_server_loop net others answers (Some s1) = Some (Returned c2, Some s2)"
        "stop_server c2 s2 = Some (Returned code, s')" using cont by auto
    moreover from this(1) have "preach p0 (sv_pool s2)" using s1 server_loop_reach o
      by (auto simp: run_server_loop_def bind_Some_iff intro: preach.init split: if_split_asm)
    ultimately show ?thesis by blast
  next
    case False
    then show ?thesis using cont s1 preach.init by auto
  qed
  then show ?thesis using stop_server_stuck [OF _ _ p0(2,3) n0 pc w] by blast
qed

text \<open>When the pool cannot be made, the server reports success and has done nothing.\<close>

lemma start_no_pool:
  assumes c: "validate_config (Some c) = E_SUCCESS" and al: "alloc_fails (p_plan (sv_pool s))"
  shows "\<exists>s'. start_tcp_server net sync_ok create_ok others answers (Some c) s = Some (Returned E_SUCCESS, s') \<and>
    sv_sock_mgr s' = None \<and> p_pool (sv_pool s') = None \<and> sv_env s' = sv_env s"
proof -
  have n: "2 \<le> cf_num_threads c" "cf_num_threads c \<le> 24" and f: "cf_client_request c \<noteq> NULL"
    using c by (simp_all add: validate_config_iff)
  then have "2 \<le> unat (word_of_int (cf_num_threads c) :: 64 word)"
    by (simp add: unat_eq_nat_uint uint_word_of_int)
  then show ?thesis using c al f
    by (simp add: start_tcp_server_def thread_pool_create_def MIN_THREADS_def stop_server_def close_all_sockets_def
        thread_pool_destroy_def)
qed

section \<open>One connection\<close>

lemma those_map_Some: "(\<And>x. x \<in> set xs \<Longrightarrow> f x = Some (g x)) \<Longrightarrow> those (map f xs) = Some (map g xs)"
  by (induction xs) simp_all

definition seen :: "(int \<Rightarrow> int) \<Rightarrow> int \<Rightarrow> int" where
  "seen events fd = (if fd < 0 then 0 else events fd)"

lemma poll_rep:
  assumes rep: "mgr_rep m fds" and a: "fd_arr m = Some a"
  shows "\<exists>m' a'. poll events m = Some (int (length (filter (\<lambda>fd. seen events fd \<noteq> 0) fds)), m') \<and> mgr_rep m' fds \<and>
    fd_arr m' = Some a' \<and> length a' = length a \<and> fd_capacity m' = fd_capacity m \<and>
    (\<forall>j < length fds. p_revents (a' ! j) = Some (seen events (fds ! j)))"
proof -
  have A: "fd_count m = int (length fds)" "length fds \<le> length a" "\<And>i. i < length fds \<Longrightarrow> watched (fds ! i) (a ! i)"
    using rep a by (auto simp: mgr_rep_def)
  let ?n = "length fds"
  let ?g = "\<lambda>x. x\<lparr>p_revents := Some (seen events (the (p_fd x)))\<rparr>"
  have fd: "p_fd (a ! i) = Some (fds ! i)" if "i < ?n" for i using A(3) [OF that] by (simp add: watched_def)
  have "poll_entry events x = Some (?g x)" if "x \<in> set (take ?n a)" for x
    using that fd A(2) by (auto simp: in_set_conv_nth poll_entry_def seen_def)
  then have xs: "those (map (poll_entry events) (take ?n a)) = Some (map ?g (take ?n a))" by (rule those_map_Some)
  have fds: "map (\<lambda>x. the (p_fd x)) (take ?n a) = fds" using fd A(2) by (intro nth_equalityI) simp_all
  have "length (filter (\<lambda>x. p_revents x \<noteq> Some 0) (map ?g (take ?n a))) =
      length (filter (\<lambda>fd. seen events fd \<noteq> 0) (map (\<lambda>x. the (p_fd x)) (take ?n a)))"
    by (simp add: filter_map o_def)
  then have cnt: "length (filter (\<lambda>x. p_revents x \<noteq> Some 0) (map ?g (take ?n a))) =
      length (filter (\<lambda>fd. seen events fd \<noteq> 0) fds)" by (simp only: fds)
  let ?m = "m\<lparr>fd_arr := Some (map ?g (take ?n a) @ drop ?n a)\<rparr>"
  have "poll events m = Some (int (length (filter (\<lambda>fd. seen events fd \<noteq> 0) fds)), ?m)"
    using a A(1,2) xs cnt by (simp add: poll_def Let_def)
  moreover have "mgr_rep ?m fds" using rep a A by (auto simp: mgr_rep_def nth_append watched_def)
  ultimately show ?thesis using A(2) fd by (intro exI [of _ ?m]) (simp add: nth_append)
qed

text \<open>The descriptor of a new client is added to the array, closed, and left in the array.\<close>

lemma register_client_run:
  assumes m: "sv_sock_mgr s = Some m" "mgr_rep m fds" "sm_can_grow m (sv_env s)"
    and acc: "sv_accepts s = (fd, addr) # rest" "fd \<noteq> - 1"
    and nb: "set_fd_non_blocking (n_getfl net fd) (n_setfl net fd) = E_SUCCESS"
  shows "\<exists>m' e. register_client net (Some s) = Some (Returned (int (length (connection_text addr fd))),
      Some (s\<lparr>sv_accepts := rest, sv_sock_mgr := Some m', sv_env := e\<rparr>)) \<and>
    mgr_rep m' (fds @ [fd]) \<and> sm_closed e = sm_closed (sv_env s) @ [fd]"
proof -
  let ?e = "if fd_count m = fd_capacity m then sm_alloc_next (sv_env s) else sv_env s"
  obtain m' where "sock_fd_add (Some m) fd (sv_env s) = Some (Returned E_SUCCESS, Some m', ?e)" "mgr_rep m' (fds @ [fd])"
    using sock_fd_add_rep [OF m(2,3)] by blast
  moreover have "int (length (connection_text addr fd)) \<noteq> E_SUCCESS" by (simp add: connection_text_def E_SUCCESS_def)
  ultimately show ?thesis using m(1) acc nb
    by (intro exI [of _ m'] exI [of _ "?e\<lparr>sm_closed := sm_closed (sv_env s) @ [fd]\<rparr>"])
       (simp add: register_client_def accept4_def close_fd_def)
qed

text \<open>So the first client that connects ends the loop, and its descriptor is closed a second time when
  the sockets are closed.\<close>

lemma first_client:
  assumes m: "sv_sock_mgr s = Some m" "mgr_rep m [sv_fd s]" "sm_can_grow m (sv_env s)" and fd: "0 \<le> sv_fd s"
    and acc: "sv_accepts s = (fd, addr) # rest" "fd \<noteq> - 1"
    and nb: "set_fd_non_blocking (n_getfl net fd) (n_setfl net fd) = E_SUCCESS"
    and ev: "events (sv_fd s) = POLLIN" and quiet: "others 0 s = s"
  shows "\<exists>s' mgr e. run_server_loop net others (Poll_events events # answers) (Some s) =
      Some (Returned (int (length (connection_text addr fd))), Some s') \<and>
    close_all_sockets (sv_sock_mgr s') (sv_env s') = Some (E_SUCCESS, mgr, e) \<and>
    sm_closed e = sm_closed (sv_env s) @ [fd, sv_fd s, fd]"
proof -
  obtain a where a: "fd_arr m = Some a" "fd_capacity m = int (length a)" "1 \<le> length a" using m(2) by (auto simp: mgr_rep_def)
  obtain m1 a1 where p: "poll events m = Some (1, m1)" "mgr_rep m1 [sv_fd s]" "fd_arr m1 = Some a1" "length a1 = length a"
      "fd_capacity m1 = fd_capacity m" "p_revents (a1 ! 0) = Some POLLIN"
    using poll_rep [OF m(2) a(1), of events] ev fd by (auto simp: seen_def POLLIN_def)
  have r1: "fd_count m1 = 1" "\<not> fd_mutex_locked m1" "p_fd (a1 ! 0) = Some (sv_fd s)"
    using p(2,3) by (auto simp: mgr_rep_def watched_def)
  let ?s = "s\<lparr>sv_sock_mgr := Some m1\<rparr>"
  have grow: "sm_can_grow m1 (sv_env ?s)"
    using m(2,3) p(2,5) by (auto simp: sm_can_grow_def mgr_rep_def)
  obtain m2 e where reg: "register_client net (Some ?s) = Some (Returned (int (length (connection_text addr fd))),
      Some (?s\<lparr>sv_accepts := rest, sv_sock_mgr := Some m2, sv_env := e\<rparr>))"
      "mgr_rep m2 [sv_fd s, fd]" "sm_closed e = sm_closed (sv_env s) @ [fd]"
    using register_client_run [of ?s m1 "[sv_fd s]", OF _ p(2) grow, of fd addr rest net] acc nb by auto
  have bits: "POLLIN AND POLL_ERROR_EVENTS = 0" "POLLIN AND POLLIN = 1" by (simp_all add: POLLIN_def POLL_ERROR_EVENTS_def)
  have slot: "slot m1 0 = Some (a1 ! 0)" using p(3,4) a(3) slot_known [of m1 a1 0] by (simp add: Suc_le_eq)
  have "visit_entry net 0 E_FAILURE ?s = Some (Returned (int (length (connection_text addr fd))),
      ?s\<lparr>sv_accepts := rest, sv_sock_mgr := Some m2, sv_env := e\<rparr>)"
    using reg(1) r1 p(6) slot bits by (simp add: visit_entry_def)
  then have "handle_connections net (Some ?s) = Some (Returned (int (length (connection_text addr fd))),
      Some (?s\<lparr>sv_accepts := rest, sv_sock_mgr := Some m2, sv_env := e\<rparr>))"
    using r1 by (simp add: handle_connections_def)
  moreover have "int (length (connection_text addr fd)) \<noteq> E_SUCCESS" by (simp add: connection_text_def E_SUCCESS_def)
  moreover have "\<not> fd_mutex_locked m" using m(2) by (simp add: mgr_rep_def)
  ultimately show ?thesis
    using m(1) p(1) reg(3) close_all_sockets_rep [OF reg(2), of e] quiet
    by (simp add: run_server_loop_def ACTIVE_def SHUTDOWN_def)
qed

end
