(* ===== verification/Server_Threads.thy ===== *)
theory Server_Threads
  imports Tcp_Server
begin

text \<open>
  The running server: the main thread goes through the entries that \<open>poll\<close> reported while the
  workers of the pool run requests, in any order.  A step of the main thread is one call of
  \<open>poll\<close> or one entry (one iteration of the loop in \<open>handle_connections\<close>), a step of a worker
  is a step of the pool together with what the calls of a finished task do to the server.  The
  theory shows that such a server never follows a dangling pointer, never frees twice and never
  reads an entry that was not written, and that a client is always in one place.
\<close>

section \<open>Steps\<close>

text \<open>Where the main thread is: before \<open>poll\<close>, before entry \<open>idx\<close> of \<open>cnt\<close> with an exit
  code, or out of its loop.\<close>

datatype main_pc = M_poll | M_visit nat nat int | M_done int

text \<open>The pool's calls; the workers run \<open>process_client_request\<close>.\<close>

fun perform :: "call \<Rightarrow> server_context_t \<Rightarrow> server_context_t option" where
  "perform (Execute f arg) s =
     do { (r, s) \<leftarrow> process_client_request arg s; if r = Blocked then None else Some s }"
| "perform (Free_arg f arg) s = free_job_args arg s"

fun perform_all :: "call list \<Rightarrow> server_context_t \<Rightarrow> server_context_t option" where
  "perform_all [] s = Some s"
| "perform_all (c # cs) s = do { s \<leftarrow> perform c s; perform_all cs s }"

definition new_calls :: "pool_state \<Rightarrow> pool_state \<Rightarrow> call list" where
  "new_calls p p' = drop (length (p_calls p)) (p_calls p')"

inductive sstep :: "net \<Rightarrow> main_pc \<times> server_context_t \<Rightarrow> main_pc \<times> server_context_t \<Rightarrow> bool" for net where
  polled: "sv_sock_mgr s = Some m \<Longrightarrow> \<not> fd_mutex_locked m \<Longrightarrow> poll events m = Some (k, m') \<Longrightarrow> k \<noteq> 0 \<Longrightarrow>
    sstep net (M_poll, s) (M_visit 0 (nat (fd_count m)) E_FAILURE, s\<lparr>sv_sock_mgr := Some m'\<rparr>)"
| visit: "idx < cnt \<Longrightarrow> visit_entry net (int idx) code s = Some (Returned code', s') \<Longrightarrow>
    sstep net (M_visit idx cnt code, s) (M_visit (Suc idx) cnt code', s')"
| again: "sstep net (M_visit cnt cnt E_SUCCESS, s) (M_poll, s)"
| leave: "code \<noteq> E_SUCCESS \<Longrightarrow> sstep net (M_visit cnt cnt code, s) (M_done code, s)"
| work: "pstep (sv_pool s) p \<Longrightarrow> p_added p = p_added (sv_pool s) \<Longrightarrow>
    perform_all (new_calls (sv_pool s) p) (s\<lparr>sv_pool := p\<rparr>) = Some s' \<Longrightarrow> sstep net (pc, s) (pc, s')"

text \<open>The array and the queue have not reached the limits of their counters.\<close>

definition small :: "server_context_t \<Rightarrow> bool" where
  "small s \<longleftrightarrow> (\<forall>m. sv_sock_mgr s = Some m \<longrightarrow> fd_capacity m \<le> 2 ^ 29) \<and> length (p_added (sv_pool s)) < 2 ^ 31"

inductive sreach :: "net \<Rightarrow> main_pc \<times> server_context_t \<Rightarrow> main_pc \<times> server_context_t \<Rightarrow> bool" for net x0 where
  init: "sreach net x0 x0"
| step: "sreach net x0 x \<Longrightarrow> sstep net x x' \<Longrightarrow> small (snd x') \<Longrightarrow> sreach net x0 x'"

section \<open>Invariant\<close>

text \<open>Tasks that are queued or held by a worker, and what they own.\<close>

definition live :: "pool_state \<Rightarrow> (ptr \<times> task_t) list" where
  "live p = filter (\<lambda>x. x \<notin> set (p_done p)) (p_added p)"

abbreviation arg_of :: "ptr \<times> task_t \<Rightarrow> ptr" where
  "arg_of x \<equiv> t_arg (snd x)"

definition jobs_ok :: "server_context_t \<Rightarrow> bool" where
  "jobs_ok s \<longleftrightarrow>
     distinct (map arg_of (live (sv_pool s))) \<and> dom (sv_jobs s) = arg_of ` set (live (sv_pool s)) \<and>
     (\<forall>x \<in> set (live (sv_pool s)). t_arg_free (snd x) = FREE_JOB_ARGS) \<and>
     (\<forall>p \<in> dom (sv_jobs s). p \<noteq> NULL \<and> p < sv_brk s) \<and> 0 < sv_brk s"

text \<open>The array: entries the main thread has still to visit were written by \<open>poll\<close>, and those
  behind the last descriptor report nothing.\<close>

definition entries_ok :: "main_pc \<Rightarrow> pollfd list \<Rightarrow> int list \<Rightarrow> bool" where
  "entries_ok pc a fds \<longleftrightarrow>
     (case pc of
        M_visit idx cnt _ \<Rightarrow> idx \<le> cnt \<and> cnt \<le> length a \<and>
          (\<forall>j. idx \<le> j \<and> j < cnt \<longrightarrow> p_revents (a ! j) \<noteq> None) \<and>
          (\<forall>j. length fds \<le> j \<and> j < cnt \<longrightarrow> p_revents (a ! j) = Some 0)
      | _ \<Rightarrow> True)"

definition sinv :: "main_pc \<times> server_context_t \<Rightarrow> int list \<Rightarrow> bool" where
  "sinv x fds \<longleftrightarrow>
     (let (pc, s) = x in
      (\<exists>m a. sv_sock_mgr s = Some m \<and> mgr_rep m fds \<and> fd_arr m = Some a \<and> a \<noteq> [] \<and> entries_ok pc a fds) \<and>
      (\<exists>Q. pinv (sv_pool s) Q) \<and> jobs_ok s \<and> cf_client_request (sv_config s) \<noteq> NULL \<and>
      sm_plan (sv_env s) = [])"

text \<open>Every descriptor the server has: watched, with a job, or closed.\<close>

definition job_fd :: "server_context_t \<Rightarrow> ptr \<times> task_t \<Rightarrow> int" where
  "job_fd s x = j_client_fd (the (sv_jobs s (arg_of x)))"

definition descriptors :: "server_context_t \<Rightarrow> int list \<Rightarrow> int multiset" where
  "descriptors s fds =
     mset fds + image_mset (job_fd s) (mset (live (sv_pool s))) + mset (sm_closed (sv_env s))"

section \<open>The array\<close>

lemma sock_fd_add_slots:
  assumes "sock_fd_add (Some m) f e = Some (Returned c, Some m', e')" and "fd_arr m = Some a"
  shows "\<exists>a'. fd_arr m' = Some a' \<and> length a \<le> length a' \<and> (\<forall>j < length a. p_revents (a' ! j) = p_revents (a ! j))"
  using assms
  by (auto simp: sock_fd_add_def sock_fd_increase_capacity_def update_slot_def arr_get_def arr_set_def bind_Some_iff Let_def
      nth_append nth_list_update split: if_split_asm prod.split_asm)

lemma sock_fd_remove_slots:
  assumes "mgr_rep m fds" and "i < length fds" and "fd_arr m = Some a"
    and "sock_fd_remove (Some m) (int i) = Some (r, Some m')"
  shows "\<exists>a'. fd_arr m' = Some a' \<and> length a' = length a \<and> p_revents (a' ! (length fds - 1)) = Some 0 \<and>
    (\<forall>j < length a. j \<noteq> i \<longrightarrow> j \<noteq> length fds - 1 \<longrightarrow> a' ! j = a ! j)"
proof -
  have A: "fd_count m = int (length fds)" "length fds \<le> length a" "\<not> fd_mutex_locked m"
    using assms(1,3) by (auto simp: mgr_rep_def)
  have n: "nat (int (length fds) - 1) = length fds - 1" using assms(2) by linarith
  show ?thesis using assms(2,3,4) A
    by (auto simp: sock_fd_remove_def update_slot_def slot_def arr_get_def arr_set_def bind_Some_iff Let_def n
        nth_list_update split: if_split_asm)
qed

text \<open>Adding a descriptor never fails, and keeps what the main thread has still to visit.\<close>

lemma add_fd:
  assumes m: "mgr_rep m fds" "fd_arr m = Some a" "a \<noteq> []" "entries_ok pc a fds" "fd_capacity m \<le> 2 ^ 29"
    and e: "sm_plan e = []"
  shows "\<exists>m' a' e'. sock_fd_add (Some m) f e = Some (Returned E_SUCCESS, Some m', e') \<and> mgr_rep m' (fds @ [f]) \<and>
    fd_arr m' = Some a' \<and> a' \<noteq> [] \<and> entries_ok pc a' (fds @ [f]) \<and> sm_plan e' = [] \<and> sm_closed e' = sm_closed e"
proof -
  have "sm_can_grow m e" using m e by (auto simp: sm_can_grow_def mgr_rep_def INT32_MAX_def)
  from sock_fd_add_rep [OF m(1) this] obtain m' where
    r: "sock_fd_add (Some m) f e = Some (Returned E_SUCCESS, Some m', if fd_count m = fd_capacity m then sm_alloc_next e else e)"
      "mgr_rep m' (fds @ [f])" by blast
  obtain a' where a': "fd_arr m' = Some a'" "length a \<le> length a'" "\<forall>j < length a. p_revents (a' ! j) = p_revents (a ! j)"
    using sock_fd_add_slots [OF r(1) m(2)] by blast
  moreover have "entries_ok pc a' (fds @ [f])" using m(4) a'(2,3) by (auto simp: entries_ok_def split: main_pc.splits)
  moreover have "a' \<noteq> []" using m(3) a'(2) by auto
  ultimately show ?thesis using r e by (intro exI [of _ m'] exI [of _ a'] exI) (auto split: if_splits)
qed

text \<open>Removing entry \<open>idx\<close>, once it has been visited.\<close>

lemma remove_fd:
  assumes m: "mgr_rep m fds" "fd_arr m = Some a" "entries_ok (M_visit idx cnt c) a fds" and i: "idx < length fds" "idx < cnt"
  shows "\<exists>m' a'. sock_fd_remove (Some m) (int idx) = Some (Returned E_SUCCESS, Some m') \<and>
    mgr_rep m' (swap_remove idx fds) \<and> fd_arr m' = Some a' \<and> length a' = length a \<and>
    entries_ok (M_visit (Suc idx) cnt c') a' (swap_remove idx fds)"
proof -
  obtain m' where r: "sock_fd_remove (Some m) (int idx) = Some (Returned E_SUCCESS, Some m')" "mgr_rep m' (swap_remove idx fds)"
    using sock_fd_remove_rep [OF m(1) i(1)] by blast
  obtain a' where a': "fd_arr m' = Some a'" "length a' = length a" "p_revents (a' ! (length fds - 1)) = Some 0"
      "\<forall>j < length a. j \<noteq> idx \<longrightarrow> j \<noteq> length fds - 1 \<longrightarrow> a' ! j = a ! j"
    using sock_fd_remove_slots [OF m(1) i(1) m(2) r(1)] by blast
  have E: "cnt \<le> length a" "\<And>j. idx \<le> j \<Longrightarrow> j < cnt \<Longrightarrow> p_revents (a ! j) \<noteq> None"
      "\<And>j. length fds \<le> j \<Longrightarrow> j < cnt \<Longrightarrow> p_revents (a ! j) = Some 0"
    using m(3) by (auto simp: entries_ok_def)
  have "p_revents (a' ! j) \<noteq> None" if "Suc idx \<le> j" "j < cnt" for j
    using a'(3,4) E(1,2) that by (cases "j = length fds - 1") auto
  moreover have "p_revents (a' ! j) = Some 0" if "length fds - 1 \<le> j" "j < cnt" for j
  proof (cases "j = length fds - 1")
    case False
    then have "length fds \<le> j" using that(1) by simp
    moreover have "j \<noteq> idx" using calculation i(1) by simp
    ultimately show ?thesis using a'(4) E(1,3) that(2) False by (metis less_le_trans)
  qed (use a'(3) in simp)
  ultimately have "entries_ok (M_visit (Suc idx) cnt c') a' (swap_remove idx fds)"
    using i E(1) a'(2) by (simp add: entries_ok_def length_swap_remove)
  then show ?thesis using r a'(1,2) by blast
qed

section \<open>The pool\<close>

lemma live_subset: "set (live p) \<subseteq> set (p_added p)"
  by (auto simp: live_def)

lemma add_task_total:
  assumes I: "pinv p Q" and f: "f \<noteq> NULL" and w: "length (p_added p) < 2 ^ 31"
  shows "\<exists>c p'. thread_pool_add_task f fr a p = Some (Returned c, p') \<and> (\<exists>Q'. pinv p' Q') \<and>
    (if c = E_SUCCESS then \<exists>x. live p' = live p @ [x] \<and> arg_of x = a \<and> t_arg_free (snd x) = fr else live p' = live p)"
proof -
  obtain pool where po: "p_pool p = Some pool" using I by (auto simp: pinv_def queue_part_def)
  have L: "ledger p Q" and Qp: "queue_part p (map fst Q)" and b: "p_brk p \<noteq> NULL" using I by (auto simp: pinv_def)
  have "length Q \<le> length (p_added p)" using ledgerD(1) [OF L] by (metis le_add2 length_append)
  then have len: "Suc (length (map fst Q)) < 2 ^ 32" using w by simp
  let ?tk = "\<lparr>t_exe_function = f, t_arg_free = fr, t_arg = a\<rparr>"
  let ?s1 = "p\<lparr>p_tasks := (p_tasks p)(p_brk p \<mapsto> ?tk), p_brk := Suc (p_brk p), p_plan := alloc_rest (p_plan p)\<rparr>"
  have "queue_part ?s1 (map fst Q)" "p_pool ?s1 = Some pool" using Qp po by (simp_all add: queue_part_def)
  from queue_part_enqueue [OF this b len] obtain c q h where
    E: "queue_enqueue (tp_task_queue pool) (p_brk p) (p_qheap p) = Some (Returned c, Some q, h)" by auto
  have fresh: "(p_brk p, ?tk) \<notin> set (p_done p)"
    using ledgerD(1,3,6) [OF L] by (metis fst_conv less_irrefl subsetD Un_iff set_append)
  have "\<exists>c p'. thread_pool_add_task f fr a p = Some (Returned c, p')"
    using po f b E by (simp add: thread_pool_add_task_def create_task_def free_task_def Let_def)
  then obtain c' p' where r: "thread_pool_add_task f fr a p = Some (Returned c', p')" by blast
  have s: "length (p_added p') \<le> Suc (length (p_added p))"
      "if c' = E_SUCCESS then \<exists>x. live p' = live p @ [x] \<and> arg_of x = a \<and> t_arg_free (snd x) = fr else live p' = live p"
    using r po f b E fresh
    by (auto simp: thread_pool_add_task_def create_task_def free_task_def live_def Let_def split: if_split_asm)
  have "\<exists>Q'. pinv p' Q'" using add_task_pinv [OF I r] s(1) w by simp
  then show ?thesis using r s(2) by blast
qed

text \<open>A step of the pool that adds no task either runs one live task or calls nothing.\<close>

lemma live_run:
  assumes "pinv p Q" and "p_tasks p t = Some tk"
  shows "(t, tk) \<in> set (live p)" and "t_exe_function tk \<noteq> NULL"
proof -
  have L: "ledger p Q" using assms(1) by (simp add: pinv_def)
  show x: "(t, tk) \<in> set (live p)" using ledgerD(4) [OF L] assms(2) by (auto simp: live_def dest: map_of_SomeD)
  show "t_exe_function tk \<noteq> NULL" using ledgerD(3) [OF L, of "(t, tk)"] x live_subset by auto
qed

lemma add_task_calls: "thread_pool_add_task f fr a s = Some (r, s') \<Longrightarrow> p_calls s' = p_calls s \<and> p_done s' = p_done s"
  by (auto simp: thread_pool_add_task_def create_task_def free_task_def bind_Some_iff case_outcome_Some Let_def
      split: if_split_asm option.split_asm prod.split_asm)

lemma pstep_calls:
  assumes "pstep p p'" and "p_added p' = p_added p" and I: "pinv p Q"
  shows "p_calls p' = p_calls p \<and> p_done p' = p_done p \<or>
    (\<exists>x \<in> set (live p). p_calls p' = p_calls p @ calls_of (snd x) \<and> p_done p' = p_done p @ [x])"
  using assms(1)
proof cases
  case (run t task tk code s1 s2)
  note l = live_run [OF I run(4)]
  have "p_calls p' = p_calls p @ calls_of tk" "p_done p' = p_done p @ [(task, tk)]"
    using run l(2) by (auto simp: process_task_def free_task_def bind_Some_iff Let_def split: if_split_asm)
  then show ?thesis using l(1) by (intro disjI2 bexI [of _ "(task, tk)"]) simp_all
next
  case (client task arg_free arg code)
  then show ?thesis using add_task_calls by blast
qed auto

section \<open>Steps of the main thread\<close>

lemma sinvE:
  assumes "sinv (pc, s) fds"
  obtains m a Q where "sv_sock_mgr s = Some m" and "mgr_rep m fds" and "fd_arr m = Some a" and "a \<noteq> []"
    and "entries_ok pc a fds" and "pinv (sv_pool s) Q" and "jobs_ok s" and "cf_client_request (sv_config s) \<noteq> NULL"
    and "sm_plan (sv_env s) = []"
  using assms unfolding sinv_def by auto

lemma entries_next: "entries_ok (M_visit idx cnt c) a fds \<Longrightarrow> idx < cnt \<Longrightarrow> entries_ok (M_visit (Suc idx) cnt c') a fds"
  by (simp add: entries_ok_def)

lemma sinv_next: "sinv (M_visit idx cnt c, s) fds \<Longrightarrow> idx < cnt \<Longrightarrow> sinv (M_visit (Suc idx) cnt c', s) fds"
  unfolding sinv_def using entries_next by fastforce

lemma sinv_code: "sinv (M_visit idx cnt c, s) fds \<Longrightarrow> sinv (M_visit idx cnt c', s) fds"
  by (simp add: sinv_def entries_ok_def)

text \<open>What does not touch the array, the pool or the jobs keeps the invariant.\<close>

lemma sinv_frame:
  assumes "sinv (pc, s) fds" and "sv_pool s' = sv_pool s" and "sv_jobs s' = sv_jobs s" and "sv_brk s \<le> sv_brk s'"
    and "sv_config s' = sv_config s" and "sv_sock_mgr s' = Some m'" "mgr_rep m' fds'" "fd_arr m' = Some a'" "a' \<noteq> []"
      "entries_ok pc' a' fds'" "sm_plan (sv_env s') = []"
  shows "sinv (pc', s') fds'"
proof -
  have "jobs_ok s'" using assms(1-4) by (fastforce simp: sinv_def jobs_ok_def)
  then show ?thesis using assms by (auto simp: sinv_def)
qed

lemma set_fd_code: "set_fd_non_blocking g f = E_SUCCESS \<or> set_fd_non_blocking g f = E_FAILURE"
  by (simp add: set_fd_non_blocking_def split: option.splits)

lemma register_ok:
  assumes I: "sinv (pc, s) fds" and small: "small s"
  shows "\<exists>c s' fds'. register_client net (Some s) = Some (Returned c, Some s') \<and> sinv (pc, s') fds' \<and>
    descriptors s fds \<subseteq># descriptors s' fds'"
proof -
  obtain m a Q where M: "sv_sock_mgr s = Some m" "mgr_rep m fds" "fd_arr m = Some a" "a \<noteq> []" "entries_ok pc a fds"
      "sm_plan (sv_env s) = []" using I by (rule sinvE) blast
  have cap: "fd_capacity m \<le> 2 ^ 29" using small M(1) by (simp add: small_def)
  obtain fd addr s1 where acc: "accept4 s = (fd, addr, s1)" by (metis prod_cases3)
  have s1: "sv_pool s1 = sv_pool s" "sv_jobs s1 = sv_jobs s" "sv_brk s1 = sv_brk s" "sv_config s1 = sv_config s"
      "sv_sock_mgr s1 = Some m" "sv_env s1 = sv_env s"
    using acc M(1) by (auto simp: accept4_def split: list.split_asm prod.split_asm)
  note frame = sinv_frame [OF I _ _ _ _ _ _ _ _ _, of _ _ _ _ pc]
  consider (none) "fd = - 1" | (block) "fd \<noteq> - 1" "set_fd_non_blocking (n_getfl net fd) (n_setfl net fd) \<noteq> E_SUCCESS"
    | (add) "fd \<noteq> - 1" "set_fd_non_blocking (n_getfl net fd) (n_setfl net fd) = E_SUCCESS" by blast
  then show ?thesis
  proof cases
    case none
    have "sinv (pc, s1) fds" by (rule frame [where m' = m and a' = a]) (use s1 M in simp_all)
    moreover have "descriptors s1 fds = descriptors s fds" using s1 by (simp add: descriptors_def job_fd_def [abs_def])
    ultimately show ?thesis using none acc by (auto simp: register_client_def)
  next
    case block
    have "sinv (pc, close_fd fd s1) fds" by (rule frame [where m' = m and a' = a]) (use s1 M in \<open>simp_all add: close_fd_def\<close>)
    moreover have "descriptors (close_fd fd s1) fds = add_mset fd (descriptors s fds)"
      using s1 by (simp add: descriptors_def job_fd_def [abs_def] close_fd_def)
    ultimately show ?thesis using block acc by (intro exI) (auto simp: register_client_def)
  next
    case add
    obtain m' a' e' where A: "sock_fd_add (Some m) fd (sv_env s) = Some (Returned E_SUCCESS, Some m', e')" "mgr_rep m' (fds @ [fd])"
        "fd_arr m' = Some a'" "a' \<noteq> []" "entries_ok pc a' (fds @ [fd])" "sm_plan e' = []" "sm_closed e' = sm_closed (sv_env s)"
      using add_fd [OF M(2-5) cap M(6), of fd] by blast
    let ?s = "close_fd fd (s1\<lparr>sv_sock_mgr := Some m', sv_env := e'\<rparr>)"
    have "int (length (connection_text addr fd)) \<noteq> E_SUCCESS" by (simp add: connection_text_def E_SUCCESS_def)
    then have "register_client net (Some s) = Some (Returned (int (length (connection_text addr fd))), Some ?s)"
      using add acc s1 A(1) by (simp add: register_client_def)
    moreover have "sinv (pc, ?s) (fds @ [fd])"
      by (rule frame [where m' = m' and a' = a']) (use s1 A in \<open>simp_all add: close_fd_def\<close>)
    moreover have "descriptors ?s (fds @ [fd]) = add_mset fd (add_mset fd (descriptors s fds))"
      using s1 A(7) by (simp add: descriptors_def job_fd_def [abs_def] close_fd_def)
    ultimately show ?thesis by (intro exI) auto
  qed
qed

text \<open>A new task with a new job.\<close>

lemma jobs_ok_add:
  assumes J: "jobs_ok s" and l: "live p' = live (sv_pool s) @ [x]" "arg_of x = sv_brk s" "t_arg_free (snd x) = FREE_JOB_ARGS"
    and s': "sv_jobs s' = (sv_jobs s)(sv_brk s \<mapsto> j)" "sv_brk s' = Suc (sv_brk s)" "sv_pool s' = p'"
  shows "jobs_ok s'" and "image_mset (job_fd s') (mset (live p')) =
    add_mset (j_client_fd j) (image_mset (job_fd s) (mset (live (sv_pool s))))"
proof -
  have lt: "arg_of y \<noteq> NULL \<and> arg_of y < sv_brk s" if "y \<in> set (live (sv_pool s))" for y
    using J that by (auto simp: jobs_ok_def)
  show "jobs_ok s'" using J l s' lt by (fastforce simp: jobs_ok_def)
  have "job_fd s' y = job_fd s y" if "y \<in># mset (live (sv_pool s))" for y
    using lt [of y] that s'(1) by (simp add: job_fd_def)
  then have "image_mset (job_fd s') (mset (live (sv_pool s))) = image_mset (job_fd s) (mset (live (sv_pool s)))"
    by (rule image_mset_cong)
  moreover have "job_fd s' x = j_client_fd j" using l(2) s'(1) by (simp add: job_fd_def)
  ultimately show "image_mset (job_fd s') (mset (live p')) =
      add_mset (j_client_fd j) (image_mset (job_fd s) (mset (live (sv_pool s))))" using l(1) by simp
qed

lemma event_ok:
  assumes I: "sinv (M_visit idx cnt c, s) fds" and i: "idx < length fds" "idx < cnt" and small: "small s"
  shows "\<exists>c' s' fds'. handle_client_event (Some s) (int idx) = Some (Returned c', Some s') \<and>
    sinv (M_visit (Suc idx) cnt c', s') fds' \<and> descriptors s fds = descriptors s' fds'"
proof -
  obtain m a Q where M: "sv_sock_mgr s = Some m" "mgr_rep m fds" "fd_arr m = Some a" "a \<noteq> []"
      "entries_ok (M_visit idx cnt c) a fds" "pinv (sv_pool s) Q" "jobs_ok s" "cf_client_request (sv_config s) \<noteq> NULL"
      "sm_plan (sv_env s) = []" using I by (rule sinvE) blast
  have slot: "slot m (int idx) = Some (a ! idx)" "p_fd (a ! idx) = Some (fds ! idx)"
    using M(2,3) i(1) by (auto simp: mgr_rep_def watched_def intro!: slot_known)
  have w: "length (p_added (sv_pool s)) < 2 ^ 31" using small by (simp add: small_def)
  note same = sinv_frame [OF I _ _ _ _ _ _ _ _ _, where m' = m and a' = a and fds' = fds]
  show ?thesis
  proof (cases "alloc_fails (sv_plan s)")
    case True
    let ?s = "s\<lparr>sv_plan := alloc_rest (sv_plan s)\<rparr>"
    have "handle_client_event (Some s) (int idx) = Some (Returned E_FAILURE, Some ?s)"
      using M(1,3) slot True by (simp add: handle_client_event_def create_job_args_def)
    moreover have "sinv (M_visit (Suc idx) cnt E_FAILURE, ?s) fds" by (rule same) (use M i entries_next in simp_all)
    moreover have "descriptors ?s fds = descriptors s fds" by (simp add: descriptors_def job_fd_def [abs_def])
    ultimately show ?thesis by metis
  next
    case False
    let ?j = "\<lparr>j_client_fd = fds ! idx\<rparr>"
    let ?s1 = "s\<lparr>sv_jobs := (sv_jobs s)(sv_brk s \<mapsto> ?j), sv_brk := Suc (sv_brk s), sv_plan := alloc_rest (sv_plan s)\<rparr>"
    have b: "sv_brk s \<noteq> NULL" "sv_jobs s (sv_brk s) = None" using M(7) by (auto simp: jobs_ok_def)
    obtain c' p' where T: "thread_pool_add_task (cf_client_request (sv_config s)) FREE_JOB_ARGS (sv_brk s) (sv_pool s) = Some (Returned c', p')"
        "\<exists>Q'. pinv p' Q'" "if c' = E_SUCCESS then \<exists>x. live p' = live (sv_pool s) @ [x] \<and> arg_of x = sv_brk s \<and>
          t_arg_free (snd x) = FREE_JOB_ARGS else live p' = live (sv_pool s)"
      using add_task_total [OF M(6,8) w] by blast
    show ?thesis
    proof (cases "c' = E_SUCCESS")
      case True
      obtain x where x: "live p' = live (sv_pool s) @ [x]" "arg_of x = sv_brk s" "t_arg_free (snd x) = FREE_JOB_ARGS"
        using T(3) True by auto
      obtain m' a' where R: "sock_fd_remove (Some m) (int idx) = Some (Returned E_SUCCESS, Some m')"
          "mgr_rep m' (swap_remove idx fds)" "fd_arr m' = Some a'" "length a' = length a"
          "entries_ok (M_visit (Suc idx) cnt E_SUCCESS) a' (swap_remove idx fds)"
        using remove_fd [OF M(2,3,5) i] by blast
      let ?s = "?s1\<lparr>sv_pool := p', sv_sock_mgr := Some m'\<rparr>"
      have h: "handle_client_event (Some s) (int idx) = Some (Returned E_SUCCESS, Some ?s)"
        using M(1,3) slot False T(1) True R(1) by (simp add: handle_client_event_def create_job_args_def)
      have J: "jobs_ok ?s" "image_mset (job_fd ?s) (mset (live p')) =
          add_mset (fds ! idx) (image_mset (job_fd s) (mset (live (sv_pool s))))"
        using jobs_ok_add [OF M(7) x, of ?s ?j] by simp_all
      have "a' \<noteq> []" using R(4) M(4) by auto
      then have "sinv (M_visit (Suc idx) cnt E_SUCCESS, ?s) (swap_remove idx fds)"
        using R J(1) T(2) M(8,9) by (auto simp: sinv_def)
      moreover have "descriptors ?s (swap_remove idx fds) = descriptors s fds"
        using J(2) i(1) by (simp add: descriptors_def swap_remove_mset)
      ultimately show ?thesis using h by metis
    next
      case False
      then have h: "handle_client_event (Some s) (int idx) = Some (Returned c', Some (?s1\<lparr>sv_pool := p', sv_jobs := sv_jobs s\<rparr>))"
        using M(1,3) slot \<open>\<not> alloc_fails (sv_plan s)\<close> T(1) b
        by (simp add: handle_client_event_def create_job_args_def fun_upd_idem)
      have l: "live p' = live (sv_pool s)" using T(3) False by simp
      let ?s = "?s1\<lparr>sv_pool := p', sv_jobs := sv_jobs s\<rparr>"
      have "jobs_ok ?s" using M(7) l by (fastforce simp: jobs_ok_def)
      then have "sinv (M_visit (Suc idx) cnt c', ?s) fds"
        using M T(2) entries_next [OF M(5) i(2)] by (auto simp: sinv_def)
      moreover have "descriptors ?s fds = descriptors s fds" using l by (simp add: descriptors_def job_fd_def [abs_def])
      ultimately show ?thesis using h by metis
    qed
  qed
qed

lemma error_ok:
  assumes I: "sinv (M_visit idx cnt c, s) fds" and i: "idx < length fds" "idx < cnt" and m: "sv_sock_mgr s = Some m"
  shows "\<exists>m'. update_slot m (int idx) (\<lambda>x. x\<lparr>p_fd := Some (- 1)\<rparr>) = Some m' \<and>
    sinv (M_visit (Suc idx) cnt c, (close_fd (fds ! idx) s)\<lparr>sv_sock_mgr := Some m'\<rparr>) (fds[idx := - 1]) \<and>
    descriptors s fds \<subseteq># descriptors ((close_fd (fds ! idx) s)\<lparr>sv_sock_mgr := Some m'\<rparr>) (fds[idx := - 1])"
proof -
  obtain a Q where M: "mgr_rep m fds" "fd_arr m = Some a" "a \<noteq> []"
      "entries_ok (M_visit idx cnt c) a fds" "sm_plan (sv_env s) = []" using I m by (auto elim!: sinvE)
  have len: "idx < length a" using M(1,2) i(1) by (auto simp: mgr_rep_def)
  let ?a = "a[idx := (a ! idx)\<lparr>p_fd := Some (- 1)\<rparr>]"
  let ?m = "m\<lparr>fd_arr := Some ?a\<rparr>"
  let ?s = "(close_fd (fds ! idx) s)\<lparr>sv_sock_mgr := Some ?m\<rparr>"
  have rep: "mgr_rep ?m (fds[idx := - 1])"
    using M(1,2) len by (auto simp: mgr_rep_def watched_def nth_list_update)
  have ent: "entries_ok (M_visit (Suc idx) cnt c) ?a (fds[idx := - 1])"
    using M(4) i by (auto simp: entries_ok_def nth_list_update)
  have "sinv (M_visit (Suc idx) cnt c, ?s) (fds[idx := - 1])"
    by (rule sinv_frame [OF I, where m' = ?m and a' = ?a]) (use rep ent M in \<open>simp_all add: close_fd_def\<close>)
  moreover have "descriptors s fds \<subseteq># descriptors ?s (fds[idx := - 1])"
  proof -
    have "mset fds = add_mset (fds ! idx) (mset fds - {#fds ! idx#})" using i(1) by simp
    then have "mset fds \<subseteq># add_mset (fds ! idx) (mset (fds[idx := - 1]))"
      using i(1) by (metis mset_update mset_subset_eq_add_mset_cancel add_mset_commute subset_mset.order_refl mset_subset_eq_add_right subset_mset.add_increasing2 union_mset_add_mset_right add.right_neutral empty_le)
    then show ?thesis by (auto simp: descriptors_def close_fd_def job_fd_def [abs_def] intro: subset_mset.add_mono)
  qed
  moreover have "update_slot m (int idx) (\<lambda>x. x\<lparr>p_fd := Some (- 1)\<rparr>) = Some ?m" using M(2) len by (simp add: update_slot_known)
  ultimately show ?thesis by blast
qed

lemma visit_ok:
  assumes I: "sinv (M_visit idx cnt c, s) fds" and i: "idx < cnt" and small: "small s"
  shows "\<exists>c' s' fds'. visit_entry net (int idx) c s = Some (Returned c', s') \<and>
    sinv (M_visit (Suc idx) cnt c', s') fds' \<and> descriptors s fds \<subseteq># descriptors s' fds'"
proof -
  obtain m a where M: "sv_sock_mgr s = Some m" "mgr_rep m fds" "fd_arr m = Some a"
      "entries_ok (M_visit idx cnt c) a fds" using I by (rule sinvE) blast
  have un: "\<not> fd_mutex_locked m" using M(2) by (simp add: mgr_rep_def)
  have E: "cnt \<le> length a" "p_revents (a ! idx) \<noteq> None" "length fds \<le> idx \<Longrightarrow> p_revents (a ! idx) = Some 0"
    using M(4) i by (auto simp: entries_ok_def)
  then obtain rv where rv: "p_revents (a ! idx) = Some rv" by auto
  have slot: "slot m (int idx) = Some (a ! idx)" using M(3) E(1) i by (intro slot_known) auto
  show ?thesis
  proof (cases "rv = 0")
    case True
    then have "visit_entry net (int idx) c s = Some (Returned c, s)"
      using M(1) un slot rv by (simp add: visit_entry_def)
    then show ?thesis using sinv_next [OF I i] by blast
  next
    case False
    then have len: "idx < length fds" using E(3) rv by (metis not_le option.inject)
    then have fd: "p_fd (a ! idx) = Some (fds ! idx)" using M(2,3) by (auto simp: mgr_rep_def watched_def)
    note step = visit_entry_def M(1) un slot rv fd
    consider (err) "rv AND POLL_ERROR_EVENTS \<noteq> 0" | (idle) "rv AND POLL_ERROR_EVENTS = 0" "rv AND POLLIN = 0"
      | (new) "rv AND POLL_ERROR_EVENTS = 0" "rv AND POLLIN \<noteq> 0" "fds ! idx = sv_fd s"
      | (event) "rv AND POLL_ERROR_EVENTS = 0" "rv AND POLLIN \<noteq> 0" "fds ! idx \<noteq> sv_fd s" by blast
    then show ?thesis
    proof cases
      case err
      then show ?thesis using error_ok [OF I len i M(1)] by (auto simp: step)
    next
      case idle
      then have "visit_entry net (int idx) c s = Some (Returned c, s)" by (simp add: step)
      then show ?thesis using sinv_next [OF I i] by blast
    next
      case new
      then show ?thesis using register_ok [OF sinv_next [OF I i] small, of net] sinv_code by (fastforce simp: step)
    next
      case event
      then show ?thesis using event_ok [OF I len i small] by (fastforce simp: step)
    qed
  qed
qed

section \<open>Steps of the workers\<close>

lemma mset_filter_neq: "distinct xs \<Longrightarrow> x \<in> set xs \<Longrightarrow> mset xs = add_mset x (mset (filter (\<lambda>y. y \<noteq> x) xs))"
proof -
  assume d: "distinct xs" and "x \<in> set xs"
  then obtain ys zs where xs: "xs = ys @ x # zs" by (meson split_list)
  then have "filter (\<lambda>y. y \<noteq> x) ys = ys" "filter (\<lambda>y. y \<noteq> x) zs = zs" using d by (auto simp: filter_id_conv)
  then show ?thesis using xs by (simp flip: mset_filter)
qed

lemma live_done:
  assumes "p_added p' = p_added p" and "p_done p' = p_done p @ [x]"
  shows "live p' = filter (\<lambda>y. y \<noteq> x) (live p)"
  using assms by (simp add: live_def) (rule filter_cong, auto)

text \<open>The task \<open>x\<close> has run: its client is watched again and its job is gone.\<close>

lemma run_ok:
  assumes I: "sinv (pc, s) fds" and p': "\<exists>Q'. pinv p' Q'" and x: "x \<in> set (live (sv_pool s))" and l: "live p' = filter (\<lambda>y. y \<noteq> x) (live (sv_pool s))"
    and cap: "small s"
  shows "\<exists>s' fds'. perform_all (calls_of (snd x)) (s\<lparr>sv_pool := p'\<rparr>) = Some s' \<and> sv_pool s' = p' \<and> sinv (pc, s') fds' \<and>
    descriptors s fds = descriptors s' fds'"
proof -
  obtain m a Q where M: "sv_sock_mgr s = Some m" "mgr_rep m fds" "fd_arr m = Some a" "a \<noteq> []" "entries_ok pc a fds"
      "pinv (sv_pool s) Q" "jobs_ok s" "cf_client_request (sv_config s) \<noteq> NULL" "sm_plan (sv_env s) = []"
    using I by (rule sinvE) blast
  have J: "arg_of x \<in> dom (sv_jobs s)" "arg_of x \<noteq> NULL" "t_arg_free (snd x) = FREE_JOB_ARGS" "distinct (map arg_of (live (sv_pool s)))"
    using M(7) x by (auto simp: jobs_ok_def)
  then obtain j where j: "sv_jobs s (arg_of x) = Some j" by auto
  have "fd_capacity m \<le> 2 ^ 29" using cap M(1) by (simp add: small_def)
  then obtain m' a' e' where A: "sock_fd_add (Some m) (j_client_fd j) (sv_env s) = Some (Returned E_SUCCESS, Some m', e')"
      "mgr_rep m' (fds @ [j_client_fd j])" "fd_arr m' = Some a'" "a' \<noteq> []" "entries_ok pc a' (fds @ [j_client_fd j])"
      "sm_plan e' = []" "sm_closed e' = sm_closed (sv_env s)"
    using add_fd [OF M(2-5) _ M(9), of "j_client_fd j"] by blast
  let ?s = "s\<lparr>sv_pool := p', sv_sock_mgr := Some m', sv_env := e', sv_jobs := (sv_jobs s)(arg_of x := None)\<rparr>"
  have run: "perform_all (calls_of (snd x)) (s\<lparr>sv_pool := p'\<rparr>) = Some ?s"
    using J j M(1) A(1)
    by (simp add: process_client_request_def process_job_def free_job_args_def FREE_JOB_ARGS_def exit_codes)
  have inj: "arg_of y \<noteq> arg_of x" if "y \<in> set (live (sv_pool s))" "y \<noteq> x" for y
    using J(4) x that by (auto simp: distinct_map inj_on_def)
  have set: "set (live p') = set (live (sv_pool s)) - {x}" using l by auto
  have "dom (sv_jobs ?s) = arg_of ` set (live p')" using M(7) inj set by (auto simp: jobs_ok_def)
  moreover have "distinct (map arg_of (live p'))" using J(4) l by (simp add: distinct_map inj_on_def)
  ultimately have "jobs_ok ?s" using M(7) set by (auto simp: jobs_ok_def)
  then have "sinv (pc, ?s) (fds @ [j_client_fd j])" using A p' M(8) by (auto simp: sinv_def)
  moreover have "descriptors s fds = descriptors ?s (fds @ [j_client_fd j])"
  proof -
    have "mset (live (sv_pool s)) = add_mset x (mset (live p'))"
      using mset_filter_neq [OF _ x] l J(4) by (simp add: distinct_map)
    moreover have "image_mset (job_fd ?s) (mset (live p')) = image_mset (job_fd s) (mset (live p'))"
      using inj set by (intro image_mset_cong) (auto simp: job_fd_def)
    ultimately show ?thesis using j A(7) by (simp add: descriptors_def job_fd_def)
  qed
  ultimately show ?thesis using run by (intro exI [of _ ?s] exI) simp
qed

lemma work_ok:
  assumes I: "sinv (pc, s) fds" and small: "small s" and st: "pstep (sv_pool s) p" "p_added p = p_added (sv_pool s)"
  shows "\<exists>s' fds'. perform_all (new_calls (sv_pool s) p) (s\<lparr>sv_pool := p\<rparr>) = Some s' \<and> sinv (pc, s') fds' \<and>
    descriptors s fds = descriptors s' fds'"
proof -
  obtain m a Q where M: "sv_sock_mgr s = Some m" "mgr_rep m fds" "fd_arr m = Some a" "a \<noteq> []" "entries_ok pc a fds"
      "pinv (sv_pool s) Q" "jobs_ok s" "cf_client_request (sv_config s) \<noteq> NULL" "sm_plan (sv_env s) = []"
    using I by (rule sinvE) blast
  have "Suc (length (p_added p)) < 2 ^ 32" using small st(2) by (simp add: small_def)
  then have p: "\<exists>Q'. pinv p Q'" using pstep_pinv [OF st(1) M(6)] by blast
  from pstep_calls [OF st M(6)] show ?thesis
  proof (elim disjE bexE conjE)
    assume same: "p_calls p = p_calls (sv_pool s)" "p_done p = p_done (sv_pool s)"
    let ?s = "s\<lparr>sv_pool := p\<rparr>"
    have l: "live p = live (sv_pool s)" using same(2) st(2) by (simp add: live_def)
    have "jobs_ok ?s" using M(7) l by (simp add: jobs_ok_def)
    then have "sinv (pc, ?s) fds" using M p by (auto simp: sinv_def)
    moreover have "descriptors s fds = descriptors ?s fds" using l by (simp add: descriptors_def job_fd_def [abs_def])
    moreover have "perform_all (new_calls (sv_pool s) p) ?s = Some ?s" using same(1) by (simp add: new_calls_def)
    ultimately show ?thesis by blast
  next
    fix x assume x: "x \<in> set (live (sv_pool s))" and c: "p_calls p = p_calls (sv_pool s) @ calls_of (snd x)"
      and d: "p_done p = p_done (sv_pool s) @ [x]"
    show ?thesis using run_ok [OF I p x live_done [OF st(2) d] small] c by (auto simp: new_calls_def)
  qed
qed

section \<open>Runs\<close>

lemma polled_ok:
  assumes I: "sinv (M_poll, s) fds" and m: "sv_sock_mgr s = Some m" and poll: "poll events m = Some (k, m')"
  shows "sinv (M_visit 0 (nat (fd_count m)) E_FAILURE, s\<lparr>sv_sock_mgr := Some m'\<rparr>) fds \<and>
    descriptors s fds = descriptors (s\<lparr>sv_sock_mgr := Some m'\<rparr>) fds"
proof -
  obtain a where M: "mgr_rep m fds" "fd_arr m = Some a" "a \<noteq> []" "sm_plan (sv_env s) = []" using I m by (auto elim!: sinvE)
  obtain a' where p: "mgr_rep m' fds" "fd_arr m' = Some a'" "length a' = length a"
      "\<forall>j < length fds. p_revents (a' ! j) = Some (seen events (fds ! j))"
    using poll_rep [OF M(1,2), of events] poll by auto
  have "fd_count m = int (length fds)" "length fds \<le> length a" using M(1,2) by (auto simp: mgr_rep_def)
  then have "entries_ok (M_visit 0 (nat (fd_count m)) E_FAILURE) a' fds" using p(3,4) by (simp add: entries_ok_def)
  moreover have "a' \<noteq> []" using p(3) M(3) by auto
  ultimately have "sinv (M_visit 0 (nat (fd_count m)) E_FAILURE, s\<lparr>sv_sock_mgr := Some m'\<rparr>) fds"
    using sinv_frame [OF I, of "s\<lparr>sv_sock_mgr := Some m'\<rparr>" m' fds a'] p(1,2) M(4) by simp
  then show ?thesis by (simp add: descriptors_def job_fd_def [abs_def])
qed

lemma sinv_main: "sinv (pc, s) fds \<Longrightarrow> sinv (M_poll, s) fds" "sinv (pc, s) fds \<Longrightarrow> sinv (M_done c, s) fds"
  by (auto simp: sinv_def entries_ok_def)

lemma sstep_ok:
  assumes "sstep net (pc, s) (pc', s')" and I: "sinv (pc, s) fds" and small: "small s"
  shows "\<exists>fds'. sinv (pc', s') fds' \<and> descriptors s fds \<subseteq># descriptors s' fds'"
  using assms(1)
proof cases
  case (polled m events k m')
  then show ?thesis using polled_ok [of s fds m events k m'] I by auto
next
  case (visit idx cnt code code')
  then show ?thesis using visit_ok [of idx cnt code s fds net] I small by auto
next
  case (again cnt)
  then show ?thesis using sinv_main(1) [OF I] by auto
next
  case (leave code cnt)
  then show ?thesis using sinv_main(2) [OF I] by auto
next
  case (work p)
  then show ?thesis using work_ok [OF I small work(2,3)] by auto
qed

lemma sreach_ok:
  assumes "sreach net x0 x" and "sinv x0 fds0" and "small (snd x0)"
  shows "\<exists>fds. sinv x fds \<and> small (snd x) \<and> descriptors (snd x0) fds0 \<subseteq># descriptors (snd x) fds"
  using assms
proof (induction rule: sreach.induct)
  case (step x x')
  then obtain fds where f: "sinv x fds" "small (snd x)" "descriptors (snd x0) fds0 \<subseteq># descriptors (snd x) fds" by blast
  obtain pc s pc' s' where "x = (pc, s)" "x' = (pc', s')" by fastforce
  then show ?case using sstep_ok [of net pc s pc' s' fds] f step.hyps(2,3) subset_mset.order_trans by fastforce
qed auto

text \<open>Nothing the server does next is undefined.\<close>

lemma sinv_safe:
  assumes I: "sinv (pc, s) fds" and small: "small s"
  shows "pc = M_visit idx cnt c \<Longrightarrow> idx < cnt \<Longrightarrow> \<exists>c' s'. visit_entry net (int idx) c s = Some (Returned c', s')"
    and "\<not> pfaults (sv_pool s) t"
    and "pstep (sv_pool s) p \<Longrightarrow> p_added p = p_added (sv_pool s) \<Longrightarrow>
      perform_all (new_calls (sv_pool s) p) (s\<lparr>sv_pool := p\<rparr>) \<noteq> None"
proof -
  show "\<exists>c' s'. visit_entry net (int idx) c s = Some (Returned c', s')" if "pc = M_visit idx cnt c" "idx < cnt"
    using visit_ok [of idx cnt c s fds net] I small that by auto
  show "\<not> pfaults (sv_pool s) t" using I pinv_no_fault by (rule sinvE) blast
  show "perform_all (new_calls (sv_pool s) p) (s\<lparr>sv_pool := p\<rparr>) \<noteq> None"
    if "pstep (sv_pool s) p" "p_added p = p_added (sv_pool s)"
    using work_ok [OF I small that] by auto
qed

text \<open>The server as \<open>start_tcp_server\<close> makes it.\<close>

lemma sinv_start:
  assumes "sv_sock_mgr s = Some m" "mgr_rep m [sv_fd s]" and "pinv (sv_pool s) []" "p_added (sv_pool s) = []"
    and "sv_jobs s = Map.empty" "0 < sv_brk s" and "cf_client_request (sv_config s) \<noteq> NULL" and "sm_plan (sv_env s) = []"
  shows "sinv (M_poll, s) [sv_fd s]"
proof -
  have "\<exists>a. fd_arr m = Some a \<and> a \<noteq> []" using assms(2) by (fastforce simp: mgr_rep_def)
  then show ?thesis using assms by (auto simp: sinv_def entries_ok_def jobs_ok_def live_def)
qed

lemma initialize_started:
  assumes run: "initialize_server net (Some s) = Some (E_SUCCESS, Some s')"
    and s: "sv_sock_mgr s = Some zero_manager" "sm_plan (sv_env s) = []" "0 < cf_max_clients (sv_config s)"
      "cf_client_request (sv_config s) \<noteq> NULL" "pinv (sv_pool s) []" "p_added (sv_pool s) = []"
      "sv_jobs s = Map.empty" "0 < sv_brk s"
  shows "sinv (M_poll, s') [sv_fd s']" and "small s'"
proof -
  obtain c1 addrs bound c2 s1 where b: "bind_loop net addrs c1 s = (bound, c2, s1)"
      "do { (exit_code, mgr, e) \<leftarrow> sock_mgr_init (sv_sock_mgr s1) (sv_fd s1) (cf_max_clients (sv_config s1))
              DEFAULT_FD_CAPACITY (sv_env s1);
            Some (exit_code, Some (s1\<lparr>sv_sock_mgr := mgr, sv_env := e\<rparr>)) } = Some (E_SUCCESS, Some s')"
    using run by (auto simp: initialize_server_def Let_def split: if_split_asm prod.split_asm option.split_asm)
  obtain f cl where s1: "s1 = s\<lparr>sv_fd := f, sv_env := (sv_env s)\<lparr>sm_closed := cl\<rparr>\<rparr>"
    using bind_loop_frame [OF b(1)] by blast
  have pl: "sm_plan ((sv_env s)\<lparr>sm_closed := cl\<rparr>) = []" "max_fds zero_manager \<le> 1" using s(2) by (simp_all add: zero_manager_def)
  obtain m where m: "sock_mgr_init (Some zero_manager) f (cf_max_clients (sv_config s)) DEFAULT_FD_CAPACITY
        ((sv_env s)\<lparr>sm_closed := cl\<rparr>) = Some (E_SUCCESS, Some m, (sv_env s)\<lparr>sm_closed := cl\<rparr>)" "mgr_rep m [f]"
    using sock_mgr_init_rep [OF pl s(3), of f] by blast
  have s': "s' = s\<lparr>sv_fd := f, sv_sock_mgr := Some m, sv_env := (sv_env s)\<lparr>sm_closed := cl\<rparr>\<rparr>"
    using b(2) m(1) s(1) by (simp add: s1)
  show "sinv (M_poll, s') [sv_fd s']" by (rule sinv_start) (use s m(2) in \<open>simp_all add: s'\<close>)
  have "fd_capacity m = DEFAULT_FD_CAPACITY" using m(1)
    by (auto simp: sock_mgr_init_def bind_Some_iff dest: arg_cong [where f = fd_capacity] split: if_split_asm prod.split_asm)
  then show "small s'" using s(6) by (simp add: s' small_def DEFAULT_FD_CAPACITY_def)
qed

section \<open>Pools in use\<close>

text \<open>\<open>pool_run n s\<close>: a pool of \<open>n\<close> threads was created and has got to \<open>s\<close>.\<close>

definition pool_run :: "64 word \<Rightarrow> pool_state \<Rightarrow> bool" where
  "pool_run n s \<longleftrightarrow>
     (\<exists>s0 s1. pool_boot s0 \<and> 2 \<le> unat n \<and> thread_pool_create True (\<lambda>_. True) n s0 = Some (Returned (), s1) \<and>
        preach s1 s \<and> Suc (length (p_added s)) < 2 ^ 32)"

lemma pstep_none: "pstep s s' \<Longrightarrow> p_pc s' t = W_none \<longleftrightarrow> p_pc s t = W_none"
  by (erule pstepE) (auto simp: process_task_def free_task_def thread_pool_add_task_def create_task_def bind_Some_iff
      case_outcome_Some Let_def split: if_split_asm option.split_asm prod.split_asm)

lemma preach_none: "preach s0 s \<Longrightarrow> p_pc s t = W_none \<longleftrightarrow> p_pc s0 t = W_none"
  by (induction rule: preach.induct) (auto dest: pstep_none)

lemma pool_runE:
  assumes "pool_run n s"
  obtains Q where "pinv s Q" and "pool_of (unat n) s" and "0 < unat n" and "\<And>t. \<not> p_joined s t"
    and "\<And>t. p_pc s t = W_none \<longleftrightarrow> unat n \<le> t" and "\<not> p_shutdown s \<Longrightarrow> p_pc s 0 \<noteq> W_exit"
proof -
  obtain s0 s1 where b: "pool_boot s0" "2 \<le> unat n" "thread_pool_create True (\<lambda>_. True) n s0 = Some (Returned (), s1)"
      "preach s1 s" "Suc (length (p_added s)) < 2 ^ 32" using assms by (auto simp: pool_run_def)
  obtain s2 where c: "thread_pool_create True (\<lambda>_. True) n s0 = Some (Returned (), s2)" "pinv s2 []" "pool_of (unat n) s2"
      "\<forall>t. p_pc s2 t = (if t < unat n then W_test else W_none)" "\<forall>t. \<not> p_joined s2 t"
    using create_run [OF b(1,2), of "\<lambda>_. True"] by blast
  have [simp]: "s2 = s1" using b(3) c(1) by simp
  obtain Q where Q: "pinv s Q" using preach_pinv [OF b(4) _ b(5)] c(2) by auto
  have "pool_of (unat n) s" using preach_pool_of [OF b(4) _ _ b(5)] c(2,3) by simp
  moreover have "p_pc s t = W_none \<longleftrightarrow> unat n \<le> t" for t using preach_none [OF b(4)] c(4) by auto
  moreover have "p_pc s 0 \<noteq> W_exit" if "\<not> p_shutdown s" by (rule preach_no_exit [OF b(4) _ that]) (use c(4) in auto)
  ultimately show ?thesis using that [OF Q] b(2) preach_handles [OF b(4)] c(5) by auto
qed

lemma pool_waits:
  assumes "pool_run n s" and "\<not> p_shutdown s"
  shows "(\<exists>s'. thread_pool_shutdown s = Some (Blocked, s')) \<and> (\<exists>s'. thread_pool_destroy s = Some (Blocked, s'))"
proof -
  obtain Q where P: "pool_of (unat n) s" "0 < unat n" "\<not> p_joined s 0" "p_pc s 0 \<noteq> W_exit"
    using assms by (auto elim!: pool_runE)
  obtain s' where "thread_pool_shutdown s = Some (Blocked, s')" using shutdown_waits [OF P(1,2,4,3)] by blast
  moreover obtain pool where "p_pool s = Some pool" using P(1) by (auto simp: pool_of_def)
  ultimately show ?thesis by (simp add: thread_pool_destroy_def)
qed

lemma pool_ends:
  assumes "pool_run n s" and "p_shutdown s"
  shows "\<exists>s' s''. preach s s' \<and> thread_pool_destroy s' = Some (Returned E_SUCCESS, s'') \<and> p_pool s'' = None \<and>
    p_tasks s'' = Map.empty \<and> p_calls s'' = p_calls s' \<and> set (p_taken s') = set (p_done s')"
proof -
  obtain Q where P: "pinv s Q" "pool_of (unat n) s" "\<And>t. \<not> p_joined s t" "\<And>t. p_pc s t = W_none \<longleftrightarrow> unat n \<le> t"
    using assms(1) by (auto elim!: pool_runE)
  obtain s' Q' where E: "preach s s'" "pinv s' Q'" "\<forall>t < unat n. p_pc s' t = W_exit" "\<forall>t \<ge> unat n. p_pc s' t = p_pc s t"
    using workers_end [OF P(1) assms(2), of "unat n"] P(4) by (metis not_le)
  have "pool_of (unat n) s'" using P(2) E(2) preach_handles [OF E(1)]
    by (auto simp: pool_of_def pool_handles_def pinv_def queue_part_def)
  moreover have "\<forall>t \<ge> unat n. p_pc s' t = W_none" using E(4) P(4) by simp
  moreover have "\<forall>t < unat n. \<not> p_joined s' t" using preach_handles [OF E(1)] P(3) by simp
  ultimately show ?thesis using destroy_run [OF E(2) _ E(3)] E(1) by blast
qed

section \<open>Servers in use\<close>

text \<open>\<open>server_run net x\<close>: a server with a new pool was initialised and has got to \<open>x\<close>.\<close>

definition server_ready :: "server_context_t \<Rightarrow> bool" where
  "server_ready s \<longleftrightarrow>
     sv_sock_mgr s = Some zero_manager \<and> sm_plan (sv_env s) = [] \<and> 0 < cf_max_clients (sv_config s) \<and>
     cf_client_request (sv_config s) \<noteq> NULL \<and> sv_jobs s = Map.empty \<and> 0 < sv_brk s \<and>
     (\<exists>n s0. pool_boot s0 \<and> 2 \<le> unat n \<and> thread_pool_create True (\<lambda>_. True) n s0 = Some (Returned (), sv_pool s))"

definition server_run :: "net \<Rightarrow> main_pc \<times> server_context_t \<Rightarrow> bool" where
  "server_run net x \<longleftrightarrow>
     (\<exists>s0 s1. server_ready s0 \<and> initialize_server net (Some s0) = Some (E_SUCCESS, Some s1) \<and> sreach net (M_poll, s1) x)"

lemma server_run_ok:
  assumes "server_run net (pc, s)"
  shows "\<exists>fds. sinv (pc, s) fds \<and> small s"
proof -
  obtain s0 s1 where r: "server_ready s0" "initialize_server net (Some s0) = Some (E_SUCCESS, Some s1)"
      "sreach net (M_poll, s1) (pc, s)" using assms by (auto simp: server_run_def)
  obtain n p where p: "pool_boot p" "2 \<le> unat n" "thread_pool_create True (\<lambda>_. True) n p = Some (Returned (), sv_pool s0)"
    using r(1) by (auto simp: server_ready_def)
  have "pinv (sv_pool s0) []" "p_added (sv_pool s0) = []" using create_run [OF p(1,2), of "\<lambda>_. True"] p(3) by auto
  then have "sinv (M_poll, s1) [sv_fd s1]" "small s1"
    using initialize_started [OF r(2)] r(1) by (auto simp: server_ready_def)
  then show ?thesis using sreach_ok [OF r(3)] by auto
qed

end
