(* ===== verification/Option_Handler.thy ===== *)
theory Option_Handler
  imports Number_Converter
begin

text \<open>
  apps/salt_vault/server/src/option_handler.c: the command line of the server, over a model of
  \<open>getopt\<close> with the option string \<open>n:p:h\<close>.  As in the GNU library, arguments that are not
  options are skipped and stay behind the options.
\<close>

section \<open>getopt\<close>

datatype opt_event = Opt_n string | Opt_p string | Opt_h | Opt_invalid char

definition takes_argument :: "char \<Rightarrow> bool" where
  "takes_argument c \<longleftrightarrow> c = CHR ''n'' \<or> c = CHR ''p''"

definition opt_with :: "char \<Rightarrow> string \<Rightarrow> opt_event" where
  "opt_with c a = (if c = CHR ''n'' then Opt_n a else Opt_p a)"

text \<open>The letters of one argument that starts with a dash, with the arguments behind it: an argument of
  an option is the rest of the letters or the next argument.\<close>

fun scan_letters :: "string \<Rightarrow> string list \<Rightarrow> opt_event list \<times> string list" where
  "scan_letters [] rest = ([], rest)"
| "scan_letters (c # cs) rest =
     (if takes_argument c
      then (if cs \<noteq> [] then ([opt_with c cs], rest)
            else (case rest of
                    [] \<Rightarrow> ([Opt_invalid c], [])
                  | a # rest \<Rightarrow> ([opt_with c a], rest)))
      else let (es, rest) = scan_letters cs rest
           in ((if c = CHR ''h'' then Opt_h else Opt_invalid c) # es, rest))"

lemma scan_letters_rest: "length (snd (scan_letters cs rest)) \<le> length rest"
  by (induction cs arbitrary: rest) (auto split: list.splits prod.splits simp: Let_def split_def)

text \<open>What successive calls return, in order, and the arguments left when \<open>getopt\<close> returns -1.\<close>

function getopt_all :: "string list \<Rightarrow> opt_event list \<times> string list" where
  "getopt_all [] = ([], [])"
| "getopt_all (a # args) =
     (if a = ''--'' then ([], args)
      else if a = [] \<or> hd a \<noteq> CHR ''-'' \<or> tl a = []
      then (let (es, extra) = getopt_all args in (es, a # extra))
      else let (es, args) = scan_letters (tl a) args; (es', extra) = getopt_all args
           in (es @ es', extra))"
  by pat_completeness auto
termination
proof (relation "measure length")
  fix a :: string and args :: "string list" and x es args'
  assume "x = scan_letters (tl a) args" and "(es, args') = x"
  then show "(args', a # args) \<in> measure length"
    using scan_letters_rest [of "tl a" args] by (metis in_measure le_imp_less_Suc length_Cons snd_conv)
qed simp_all

section \<open>Options\<close>

record options_t =
  n_flag :: bool
  n_value :: int
  p_flag :: bool
  p_value :: string

definition MIN_NUM_THREADS :: int where "MIN_NUM_THREADS = 2"
definition MAX_PORT_VALUE :: int where "MAX_PORT_VALUE = 65535"
definition MIN_PORT_VALUE :: int where "MIN_PORT_VALUE = 1025"

definition process_n_option :: "string option \<Rightarrow> options_t option \<Rightarrow> int \<times> options_t option" where
  "process_n_option optarg options_p =
     (case (optarg, options_p) of
        (Some arg, Some opt) \<Rightarrow>
          if n_flag opt then (E_FAILURE, options_p)
          else let opt = opt\<lparr>n_flag := True\<rparr>; (exit_code, num_threads) = str_to_int32 (Some arg) (Some 0)
               in if exit_code \<noteq> E_SUCCESS then (exit_code, Some opt)
                  else (case num_threads of
                          None \<Rightarrow> (exit_code, Some opt)
                        | Some num_threads \<Rightarrow>
                            if MIN_NUM_THREADS > num_threads then (E_FAILURE, Some opt)
                            else (E_SUCCESS, Some (opt\<lparr>n_value := num_threads\<rparr>)))
      | _ \<Rightarrow> (E_FAILURE, options_p))"

definition process_p_option :: "string option \<Rightarrow> options_t option \<Rightarrow> int \<times> options_t option" where
  "process_p_option optarg options_p =
     (case (optarg, options_p) of
        (Some arg, Some opt) \<Rightarrow>
          if p_flag opt then (E_FAILURE, options_p)
          else let opt = opt\<lparr>p_flag := True\<rparr>; (exit_code, port_number) = str_to_int32 (Some arg) (Some 0)
               in if exit_code \<noteq> E_SUCCESS then (exit_code, Some opt)
                  else (case port_number of
                          None \<Rightarrow> (exit_code, Some opt)
                        | Some port_number \<Rightarrow>
                            if MAX_PORT_VALUE < port_number \<or> MIN_PORT_VALUE > port_number then (E_FAILURE, Some opt)
                            else (E_SUCCESS, Some (opt\<lparr>p_value := arg\<rparr>)))
      | _ \<Rightarrow> (E_FAILURE, options_p))"

text \<open>What the reports write to the standard error stream.\<close>

definition report_invalid_options :: "char \<Rightarrow> string" where
  "report_invalid_options optopt =
     (if optopt = CHR ''n'' \<or> optopt = CHR ''p''
      then ''Option '' @ [CHR 0x27] @ ''-'' @ [optopt] @ [CHR 0x27] @ '' requires an argument.'' @ [CHR 0x0A]
      else ''Unknown option '' @ [CHR 0x27] @ ''-'' @ [optopt] @ [CHR 0x27] @ ''.'' @ [CHR 0x0A])"

definition report_extra_arguments :: "nat \<Rightarrow> nat \<Rightarrow> string list option \<Rightarrow> int \<times> string" where
  "report_extra_arguments optind argc argv =
     (case argv of
        None \<Rightarrow> (E_FAILURE, [])
      | Some args \<Rightarrow>
          if args = [] then (E_FAILURE, [])
          else if optind < argc
          then (E_FAILURE, ''Invalid arguments encountered: '' @
                  concat (map (\<lambda>a. a @ '' '') (take (argc - optind) (drop optind args))) @ [CHR 0x0A])
          else (E_SUCCESS, []))"

text \<open>The lines of the help menu.\<close>

definition print_help_menu :: "string list" where
  "print_help_menu =
     [''Admin Server - Water Treatment Simulator'',
      ''----------------------------------------------------------'',
      ''Usage: ./admin_server [options]'',
      ''Options:'',
      ''  -p PORT   Port to listen on; (MIN: 1025, MAX: 65535) defaults to 31337.'',
      ''  -n NUM    Number of threads in the pool; (MIN: 2) defaults to 4.'',
      ''  -h        Print this help menu and exit.'',
      '''',
      ''Description:'',
      ''  This is the main control server for the water treatment simulator.'',
      '''',
      ''Examples:'',
      ''------------------------NO ARGUMENTS:'',
      ''  ./admin_server'',
      '''',
      ''------------------------WITH ARGUMENTS:'',
      ''  ./admin_server -p 8080'',
      ''  ./admin_server -n 8'',
      ''  ./admin_server -p 8080 -n 8'',
      '''',
      ''------------------------HELP MENU:'',
      ''  ./admin_server -h'',
      '''',
      ''For more information, see the documentation.'']"

text \<open>The loop over the options: the exit code so far, the options, what was reported, and whether it
  ran to its end.\<close>

fun options_loop :: "opt_event list \<Rightarrow> int \<Rightarrow> options_t option \<Rightarrow> int \<times> options_t option \<times> string \<times> bool" where
  "options_loop [] exit_code opt = (exit_code, opt, [], True)"
| "options_loop (Opt_p a # es) exit_code opt =
     (let (exit_code, opt) = process_p_option (Some a) opt
      in if exit_code \<noteq> E_SUCCESS then (exit_code, opt, [], False) else options_loop es exit_code opt)"
| "options_loop (Opt_n a # es) exit_code opt =
     (let (exit_code, opt) = process_n_option (Some a) opt
      in if exit_code \<noteq> E_SUCCESS then (exit_code, opt, [], False) else options_loop es exit_code opt)"
| "options_loop (Opt_h # es) exit_code opt = (exit_code, opt, [], False)"
| "options_loop (Opt_invalid c # es) exit_code opt = (E_FAILURE, opt, report_invalid_options c, False)"

text \<open>The result: exit code, options, the lines on standard output and the text on standard error.
  \<open>argc\<close> is the number of elements of \<open>argv\<close>; \<open>getopt\<close> has moved the arguments that
  are not options to its end.\<close>

definition process_options ::
  "string list option \<Rightarrow> options_t option \<Rightarrow> int \<times> options_t option \<times> string list \<times> string" where
  "process_options argv options_p =
     (let (exit_code, opt, err) =
        (if argv = None \<or> argv = Some [] \<or> options_p = None then (E_FAILURE, options_p, [])
         else let args = the argv; argc = length args; (events, extra) = getopt_all (tl args);
                  (exit_code, opt, err, ended) = options_loop events E_FAILURE options_p
              in if \<not> ended then (exit_code, opt, err)
                 else let optind = argc - length extra; args = take optind args @ extra;
                          (exit_code, err) = report_extra_arguments optind argc (Some args)
                      in (exit_code, opt, err))
      in (exit_code, opt, if exit_code = E_FAILURE then print_help_menu else [], err))"

section \<open>What is accepted\<close>

definition thread_count_of :: "string \<Rightarrow> int option" where
  "thread_count_of a = (case str_to_int32 (Some a) (Some 0) of
     (c, Some v) \<Rightarrow> if c = E_SUCCESS \<and> 2 \<le> v then Some v else None | _ \<Rightarrow> None)"

definition port_of :: "string \<Rightarrow> int option" where
  "port_of a = (case str_to_int32 (Some a) (Some 0) of
     (c, Some v) \<Rightarrow> if c = E_SUCCESS \<and> 1025 \<le> v \<and> v \<le> 65535 then Some v else None | _ \<Rightarrow> None)"

lemma str_to_int32_out: "\<exists>c v. str_to_int32 (Some a) (Some 0) = (c, Some v) \<and> (c = E_SUCCESS \<or> c = E_FAILURE) \<and> v \<le> INT32_MAX"
  by (auto simp: str_to_int32_def limits split: prod.splits)

lemma process_n_option_run:
  "process_n_option (Some a) (Some opt) =
     (if n_flag opt then (E_FAILURE, Some opt)
      else case thread_count_of a of
             None \<Rightarrow> (E_FAILURE, Some (opt\<lparr>n_flag := True\<rparr>))
           | Some v \<Rightarrow> (E_SUCCESS, Some (opt\<lparr>n_flag := True, n_value := v\<rparr>)))"
  using str_to_int32_out [of a]
  by (auto simp: process_n_option_def thread_count_of_def MIN_NUM_THREADS_def)

lemma process_p_option_run:
  "process_p_option (Some a) (Some opt) =
     (if p_flag opt then (E_FAILURE, Some opt)
      else case port_of a of
             None \<Rightarrow> (E_FAILURE, Some (opt\<lparr>p_flag := True\<rparr>))
           | Some v \<Rightarrow> (E_SUCCESS, Some (opt\<lparr>p_flag := True, p_value := a\<rparr>)))"
  using str_to_int32_out [of a]
  by (auto simp: process_p_option_def port_of_def MAX_PORT_VALUE_def MIN_PORT_VALUE_def)

lemmas numeral_scan = scan_integer_def c_isspace_def c_isdigit_def digits_value_def

lemma str_to_int32_denotes:
  "CHR 0x00 \<notin> set a \<Longrightarrow> denotes a False m \<Longrightarrow> int m \<le> INT32_MAX \<Longrightarrow> str_to_int32 (Some a) (Some old) = (E_SUCCESS, Some (int m))"
  by (subst str_to_int32_iff) (auto simp: signed_value_def limits intro!: exI [of _ False] exI [of _ m])

lemma port_of_denotes:
  "CHR 0x00 \<notin> set a \<Longrightarrow> denotes a False m \<Longrightarrow> 1025 \<le> m \<Longrightarrow> m \<le> 65535 \<Longrightarrow> port_of a = Some (int m)"
  using str_to_int32_denotes [of a m 0] by (simp add: port_of_def limits)

lemma thread_count_of_denotes:
  "CHR 0x00 \<notin> set a \<Longrightarrow> denotes a False m \<Longrightarrow> 2 \<le> m \<Longrightarrow> int m \<le> INT32_MAX \<Longrightarrow> thread_count_of a = Some (int m)"
  using str_to_int32_denotes [of a m 0] by (simp add: thread_count_of_def)

text \<open>Options the server can be started with.\<close>

definition options_ok :: "options_t \<Rightarrow> bool" where
  "options_ok opt \<longleftrightarrow> 2 \<le> n_value opt \<and> port_of (p_value opt) \<noteq> None"

lemma thread_count_of_ge: "thread_count_of a = Some v \<Longrightarrow> 2 \<le> v"
  by (auto simp: thread_count_of_def split: prod.splits option.splits if_splits)

lemma options_loop_ok:
  "options_loop es c (Some opt) = (c', opt', e', b) \<Longrightarrow> options_ok opt \<Longrightarrow> c = E_SUCCESS \<or> c = E_FAILURE \<Longrightarrow>
   (\<exists>o'. opt' = Some o' \<and> options_ok o') \<and> (c' = E_SUCCESS \<or> c' = E_FAILURE)"
proof (induction es arbitrary: c opt)
  case (Cons e es)
  have keep: "options_ok (opt\<lparr>n_flag := True\<rparr>)" "options_ok (opt\<lparr>p_flag := True\<rparr>)"
    using Cons.prems(2) by (simp_all add: options_ok_def)
  show ?case
  proof (cases e)
    case (Opt_n a)
    show ?thesis
    proof (cases "thread_count_of a")
      case None
      then show ?thesis using Cons.prems Opt_n keep by (cases "n_flag opt") (auto simp: process_n_option_run)
    next
      case (Some v)
      have "options_ok (opt\<lparr>n_flag := True, n_value := v\<rparr>)"
        using Cons.prems(2) thread_count_of_ge [OF Some] by (simp add: options_ok_def)
      then show ?thesis using Cons.IH [of E_SUCCESS] Cons.prems Opt_n Some
        by (cases "n_flag opt") (auto simp: process_n_option_run)
    qed
  next
    case (Opt_p a)
    show ?thesis
    proof (cases "port_of a")
      case None
      then show ?thesis using Cons.prems Opt_p keep by (cases "p_flag opt") (auto simp: process_p_option_run)
    next
      case (Some v)
      then have "options_ok (opt\<lparr>p_flag := True, p_value := a\<rparr>)" using Cons.prems(2) by (simp add: options_ok_def)
      then show ?thesis using Cons.IH [of E_SUCCESS] Cons.prems Opt_p Some
        by (cases "p_flag opt") (auto simp: process_p_option_run)
    qed
  qed (use Cons.prems in auto)
qed auto

lemma process_options_ok:
  assumes "options_ok opt" and "process_options argv (Some opt) = (c, opt', out, err)"
  shows "(\<exists>o'. opt' = Some o' \<and> options_ok o') \<and> (c = E_SUCCESS \<or> c = E_FAILURE) \<and>
         out = (if c = E_FAILURE then print_help_menu else [])"
proof (cases "argv = None \<or> argv = Some []")
  case True
  then show ?thesis using assms by (auto simp: process_options_def)
next
  case False
  then obtain args where args: "argv = Some args" "args \<noteq> []" by auto
  obtain es ex where g: "getopt_all (tl args) = (es, ex)" by fastforce
  obtain c1 o1 e1 b where l: "options_loop es E_FAILURE (Some opt) = (c1, o1, e1, b)" by (metis prod_cases4)
  have "(\<exists>o'. o1 = Some o' \<and> options_ok o') \<and> (c1 = E_SUCCESS \<or> c1 = E_FAILURE)"
    by (rule options_loop_ok [OF l assms(1)]) simp
  then show ?thesis using assms(2) args g l
    by (auto simp: process_options_def report_extra_arguments_def Let_def split: if_splits)
qed

text \<open>
  Without \<open>-h\<close> the command line is accepted exactly when every argument of \<open>-n\<close> is a number
  of at least 2, every argument of \<open>-p\<close> a port from 1025 to 65535, no option is given twice, no
  option is unknown or lacks its argument, and nothing else is left.
\<close>

fun is_n :: "opt_event \<Rightarrow> bool" where
  "is_n (Opt_n _) = True"
| "is_n _ = False"

fun is_p :: "opt_event \<Rightarrow> bool" where
  "is_p (Opt_p _) = True"
| "is_p _ = False"

fun good_event :: "opt_event \<Rightarrow> bool" where
  "good_event (Opt_n a) = (thread_count_of a \<noteq> None)"
| "good_event (Opt_p a) = (port_of a \<noteq> None)"
| "good_event Opt_h = True"
| "good_event (Opt_invalid _) = False"

definition once :: "bool \<Rightarrow> (opt_event \<Rightarrow> bool) \<Rightarrow> opt_event list \<Rightarrow> bool" where
  "once used P es \<longleftrightarrow> length (filter P es) + (if used then 1 else 0) \<le> 1"

lemma once_Cons: "once used P (e # es) \<longleftrightarrow> (if P e then \<not> used \<and> once True P es else once used P es)"
  by (auto simp: once_def)

lemma options_loop_accepts:
  assumes "Opt_h \<notin> set es"
  shows "(\<exists>c o' e'. options_loop es code (Some opt) = (c, o', e', True)) \<longleftrightarrow>
    (\<forall>e \<in> set es. good_event e) \<and> once (n_flag opt) is_n es \<and> once (p_flag opt) is_p es"
  using assms
proof (induction es arbitrary: code opt)
  case (Cons e es)
  have IH: "(\<exists>c o' e'. options_loop es code (Some opt) = (c, o', e', True)) \<longleftrightarrow>
      (\<forall>e \<in> set es. good_event e) \<and> once (n_flag opt) is_n es \<and> once (p_flag opt) is_p es" for code opt
    using Cons by simp
  show ?case
  proof (cases e)
    case (Opt_n a)
    then show ?thesis by (cases "n_flag opt"; cases "thread_count_of a") (simp_all add: process_n_option_run once_Cons IH)
  next
    case (Opt_p a)
    then show ?thesis by (cases "p_flag opt"; cases "port_of a") (simp_all add: process_p_option_run once_Cons IH)
  qed (use Cons.prems in \<open>simp_all add: once_Cons\<close>)
qed (simp add: once_def)

lemma options_loop_stopped:
  "options_loop es code (Some opt) = (c, o', e', False) \<Longrightarrow> Opt_h \<notin> set es \<Longrightarrow> c \<noteq> E_SUCCESS"
proof (induction es arbitrary: code opt)
  case (Cons e es)
  then show ?case
    by (cases e) (auto simp: process_n_option_run process_p_option_run split: if_split_asm option.split_asm)
qed simp

lemma process_options_accepts:
  assumes "getopt_all (tl args) = (es, extra)" and "Opt_h \<notin> set es" and "args \<noteq> []"
  shows "fst (process_options (Some args) (Some opt)) = E_SUCCESS \<longleftrightarrow>
    (\<forall>e \<in> set es. good_event e) \<and> once (n_flag opt) is_n es \<and> once (p_flag opt) is_p es \<and> extra = []"
proof -
  obtain c o1 e1 b where l: "options_loop es E_FAILURE (Some opt) = (c, o1, e1, b)" by (metis prod_cases4)
  have b: "b \<longleftrightarrow> (\<forall>e \<in> set es. good_event e) \<and> once (n_flag opt) is_n es \<and> once (p_flag opt) is_p es"
    using options_loop_accepts [OF assms(2), of E_FAILURE opt] l by auto
  show ?thesis
  proof (cases b)
    case True
    then have "fst (process_options (Some args) (Some opt)) = E_SUCCESS \<longleftrightarrow> length args - length extra \<ge> length args"
      using assms(1,3) l by (auto simp: process_options_def report_extra_arguments_def Let_def)
    also have "\<dots> \<longleftrightarrow> extra = []" using assms(3) by (cases args; cases extra) auto
    finally show ?thesis using True b by simp
  next
    case False
    then have "c \<noteq> E_SUCCESS" using l options_loop_stopped [of es E_FAILURE opt c o1 e1] assms(2) by simp
    then have "fst (process_options (Some args) (Some opt)) \<noteq> E_SUCCESS"
      using False assms(1,3) l by (simp add: process_options_def)
    then show ?thesis using False b by blast
  qed
qed

text \<open>\<open>-h\<close> ends the loop with the code of the option before it: with one, the program starts and
  no help is printed.\<close>

lemma help_after_option:
  assumes "port_of p \<noteq> None" and "\<not> p_flag opt"
  shows "process_options (Some [prog, ''-p'', p, ''-h'']) (Some opt) =
    (E_SUCCESS, Some (opt\<lparr>p_flag := True, p_value := p\<rparr>), [], [])"
  using assms by (auto simp: process_options_def Let_def takes_argument_def opt_with_def process_p_option_run)

lemma help_alone: "process_options (Some [prog, ''-h'']) (Some opt) = (E_FAILURE, Some opt, print_help_menu, [])"
  by (simp add: process_options_def takes_argument_def)

end
