(* ===== verification/Server_Main.thy ===== *)
theory Server_Main
  imports Tcp_Server Option_Handler
begin

text \<open>
  apps/salt_vault/server/src/main.c: the options, the signal handler and the configuration put
  together and handed to \<open>start_tcp_server\<close>.
\<close>

definition MIN_ARGS :: int where "MIN_ARGS = 1"
definition MAX_ARGS :: int where "MAX_ARGS = 6"
definition DEFAULT_PORT_NUMBER :: string where "DEFAULT_PORT_NUMBER = ''31337''"
definition DEFAULT_THREAD_COUNT :: int where "DEFAULT_THREAD_COUNT = 4"
definition BACKLOG_SIZE :: int where "BACKLOG_SIZE = 10"
definition MAIN_MAX_CLIENTS :: int where "MAIN_MAX_CLIENTS = 10"
definition POLL_TIMEOUT :: int where "POLL_TIMEOUT = 10"

definition default_options :: options_t where
  "default_options = \<lparr>n_flag = False, n_value = DEFAULT_THREAD_COUNT, p_flag = False, p_value = DEFAULT_PORT_NUMBER\<rparr>"

definition config_of :: "options_t \<Rightarrow> server_config_t" where
  "config_of opt =
     \<lparr>cf_port = Some (p_value opt), cf_max_clients = MAIN_MAX_CLIENTS, cf_timeout = POLL_TIMEOUT,
      cf_num_threads = n_value opt, cf_backlog_size = BACKLOG_SIZE, cf_client_request = NULL\<rparr>"

text \<open>The outcome of \<open>main\<close> for the answers of the operating system.\<close>

definition main ::
  "(int \<Rightarrow> int) \<Rightarrow> net \<Rightarrow> bool \<Rightarrow> (nat \<Rightarrow> bool) \<Rightarrow> (nat \<Rightarrow> server_context_t \<Rightarrow> server_context_t) \<Rightarrow>
   poll_answer list \<Rightarrow> string list \<Rightarrow> sig_state \<Rightarrow> server_context_t \<Rightarrow> int outcome option" where
  "main sigaction_result net sync_ok create_ok others answers argv sig s =
     (let argc = int (length argv) in
      if MIN_ARGS > argc \<or> MAX_ARGS < argc then Some (Returned E_FAILURE)
      else let (exit_code, sig) = signal_action_setup sigaction_result sig in
      if exit_code \<noteq> E_SUCCESS then Some (Returned exit_code)
      else let (exit_code, opt, out, err) = process_options (Some argv) (Some default_options) in
      if exit_code \<noteq> E_SUCCESS then Some (Returned exit_code)
      else do {
        opt \<leftarrow> opt;
        (r, s) \<leftarrow> start_tcp_server net sync_ok create_ok others answers (Some (config_of opt)) s;
        Some r })"

lemma start_no_request:
  "start_tcp_server net sync_ok create_ok others answers (Some (config_of opt)) s =
     Some (Returned E_FAILURE, s\<lparr>sv_fd := 0, sv_sock_mgr := None, sv_pool := (sv_pool s)\<lparr>p_pool := None\<rparr>\<rparr>)"
  by (simp add: start_tcp_server_def config_of_def stop_server_def close_all_sockets_def thread_pool_destroy_def)

lemma signal_setup_code: "fst (signal_action_setup f sig) = E_SUCCESS \<longleftrightarrow> (\<forall>x \<in> set SIGNAL_LIST. f x = E_SUCCESS)"
  by (simp add: signal_action_setup_def SIGNAL_LIST_def Let_def)

lemma port_of_default: "port_of DEFAULT_PORT_NUMBER = Some 31337"
  using port_of_denotes [of DEFAULT_PORT_NUMBER 31337]
  by (simp add: DEFAULT_PORT_NUMBER_def scan_denotes numeral_scan)

lemma default_options_ok: "options_ok default_options"
  using port_of_default by (simp add: options_ok_def default_options_def DEFAULT_THREAD_COUNT_def)

text \<open>As it is, the program always ends at once and with an error.\<close>

lemma main_fails:
  "\<exists>c. main sigaction_result net sync_ok create_ok others answers argv sig s = Some (Returned c) \<and> c \<noteq> E_SUCCESS"
proof -
  obtain c1 sig1 where s1: "signal_action_setup sigaction_result sig = (c1, sig1)" by fastforce
  obtain c2 opt out err where o: "process_options (Some argv) (Some default_options) = (c2, opt, out, err)" by (metis prod_cases4)
  obtain o' where "opt = Some o'" using process_options_ok [OF default_options_ok o] by blast
  then show ?thesis using s1 o by (simp add: main_def Let_def start_no_request)
qed

text \<open>Options that are accepted make a configuration that is accepted, once a request function is
  given and the number of threads is at most 24.\<close>

lemma options_configure:
  assumes "options_ok opt" and "f \<noteq> NULL" and "n_value opt \<le> 24"
  shows "validate_config (Some ((config_of opt)\<lparr>cf_client_request := f\<rparr>)) = E_SUCCESS"
proof -
  obtain p where p: "port_of (p_value opt) = Some p" and n: "2 \<le> n_value opt" using assms(1) by (auto simp: options_ok_def)
  have "str_to_int32 (Some (p_value opt)) (Some 0) = (E_SUCCESS, Some p) \<and> 1025 \<le> p"
    using p by (auto simp: port_of_def split: prod.split_asm option.split_asm if_split_asm)
  then show ?thesis using n assms(2,3)
    by (auto simp: validate_config_iff config_of_def MAIN_MAX_CLIENTS_def POLL_TIMEOUT_def BACKLOG_SIZE_def)
qed

end
