(* ===== verification/Server_Samples.thy ===== *)
theory Server_Samples
  imports Server_Threads Server_Main
begin

text \<open>
  Concrete states for the properties of the pool and of the server: a pool of two workers, an
  operating system that answers every call with success, and a server that listens on descriptor 3.
\<close>

section \<open>A pool of two workers\<close>

definition pool0 :: pool_state where
  "pool0 = \<lparr>p_pool = None, p_qheap = \<lparr>q_nodes = Map.empty, q_brk = 1, q_plan = [], q_released = []\<rparr>, p_tasks = Map.empty,
            p_brk = 1, p_plan = [], p_shutdown = False, p_pc = (\<lambda>_. W_none), p_joined = (\<lambda>_. False), p_calls = [],
            p_added = [], p_taken = [], p_done = []\<rparr>"

definition pool2 :: pool_state where
  "pool2 = pool0\<lparr>p_pool := Some \<lparr>tp_thread_count = 2, tp_task_queue = Some empty_queue, tp_worker_threads = [Some 0, Some 1]\<rparr>,
                 p_pc := (\<lambda>_. W_none)(0 := W_test, 1 := W_test)\<rparr>"

lemma pool0_boot: "pool_boot pool0"
  by (simp add: pool_boot_def pool0_def queue_heap_ok_def)

lemma pool2_created: "thread_pool_create True (\<lambda>_. True) 2 pool0 = Some (Returned (), pool2)"
proof -
  have "unat (2 :: 64 word) = Suc (Suc 0)" by simp
  then show ?thesis using create_start [OF pool0_boot, of 2 "\<lambda>_. True"]
    by (simp add: pool2_def pool0_def arr_set_def numeral_2_eq_2)
qed

lemma pool2_run: "pool_run 2 pool2"
  unfolding pool_run_def using pool0_boot pool2_created preach.init by (fastforce simp: pool2_def pool0_def)

lemma pool_run_step: "pool_run n s \<Longrightarrow> pstep s s' \<Longrightarrow> Suc (length (p_added s')) < 2 ^ 32 \<Longrightarrow> pool_run n s'"
  unfolding pool_run_def by (blast intro: preach.step)

text \<open>With one task, before and after a worker has taken it, and stopped.\<close>

definition pool_task :: task_t where
  "pool_task = \<lparr>t_exe_function = 7, t_arg_free = 8, t_arg = 9\<rparr>"

lemma pool2_add: "\<exists>s. thread_pool_add_task 7 8 9 pool2 = Some (Returned E_SUCCESS, s) \<and> p_added s = [(1, pool_task)] \<and>
    p_pc s = p_pc pool2 \<and> p_shutdown s = False"
  by (simp add: thread_pool_add_task_def create_task_def pool2_def pool0_def pool_task_def queue_enqueue_def
      queue_node_alloc_def at_capacity_def enqueue_link_def QUEUE_UNBOUNDED_def Let_def)

definition pool_stopped :: pool_state where
  "pool_stopped = pool2\<lparr>p_shutdown := True, p_pc := (\<lambda>_. W_none)(0 := W_exit, 1 := W_exit)\<rparr>"

lemma pool_stopped_run: "pool_run 2 pool_stopped"
proof -
  let ?s1 = "pool2\<lparr>p_shutdown := True\<rparr>"
  let ?s2 = "?s1\<lparr>p_pc := (p_pc ?s1)(0 := W_exit)\<rparr>"
  let ?s3 = "?s2\<lparr>p_pc := (p_pc ?s2)(1 := W_exit)\<rparr>"
  have a: "p_added pool2 = []" by (simp add: pool2_def pool0_def)
  have "pool_run 2 ?s1" by (rule pool_run_step [OF pool2_run pstep.raise]) (simp add: a)
  moreover have "pstep ?s1 ?s2" by (rule pstep.leave) (simp_all add: pool2_def)
  ultimately have "pool_run 2 ?s2" by (rule pool_run_step) (simp add: a)
  moreover have "pstep ?s2 ?s3" by (rule pstep.leave) (simp_all add: pool2_def)
  ultimately have "pool_run 2 ?s3" by (rule pool_run_step) (simp add: a)
  moreover have "?s3 = pool_stopped" by (simp add: pool_stopped_def pool2_def fun_upd_twist)
  ultimately show ?thesis by simp
qed

section \<open>A server\<close>

definition net_ok :: net where
  "net_ok = \<lparr>n_getaddrinfo = (\<lambda>_. (0, [1])), n_socket = (\<lambda>_. 3), n_setsockopt = (\<lambda>_. 0), n_bind = (\<lambda>_ _. 0),
             n_listen = (\<lambda>_ _. 0), n_getfl = (\<lambda>_. Some 0), n_setfl = (\<lambda>_ _. True)\<rparr>"

definition config3 :: server_config_t where
  "config3 = \<lparr>cf_port = Some ''8080'', cf_max_clients = 10, cf_timeout = 10, cf_num_threads = 2, cf_backlog_size = 10,
              cf_client_request = 7\<rparr>"

definition server0 :: server_context_t where
  "server0 = \<lparr>sv_fd = 0, sv_sock_mgr = Some zero_manager, sv_pool = pool2, sv_config = config3,
              sv_env = \<lparr>sm_plan = [], sm_closed = []\<rparr>, sv_jobs = Map.empty, sv_brk = 1, sv_plan = [],
              sv_accepts = [(5, ''10.0.0.7'')]\<rparr>"

definition entry3 :: "int option \<Rightarrow> pollfd" where
  "entry3 revents = \<lparr>p_fd = Some 3, p_events = Some POLLIN, p_revents = revents\<rparr>"

definition manager3 :: "int option \<Rightarrow> socket_manager_t" where
  "manager3 revents = \<lparr>fd_arr = Some (entry3 revents # replicate 4 zero_pollfd), max_fds = 10, fd_count = 1, fd_capacity = 5,
               fd_mutex_locked = False\<rparr>"

definition server1 :: server_context_t where
  "server1 = server0\<lparr>sv_fd := 3, sv_sock_mgr := Some (manager3 (Some 0))\<rparr>"

lemma server0_ready: "server_ready server0"
proof -
  have "\<exists>n s0. pool_boot s0 \<and> 2 \<le> unat n \<and> thread_pool_create True (\<lambda>_. True) n s0 = Some (Returned (), pool2)"
    using pool0_boot pool2_created by (intro exI [of _ 2] exI [of _ pool0]) simp
  then show ?thesis by (simp add: server_ready_def server0_def config3_def)
qed

lemma server1_init: "initialize_server net_ok (Some server0) = Some (E_SUCCESS, Some server1)"
  by (simp add: initialize_server_def net_ok_def server0_def server1_def config3_def create_socket_def
      set_fd_non_blocking_def sock_mgr_init_def sock_fd_arr_init_def zero_manager_def update_slot_def arr_get_def arr_set_def
      DEFAULT_FD_CAPACITY_def manager3_def entry3_def zero_pollfd_def exit_codes eval_nat_numeral)

lemma server1_run: "server_run net_ok (M_poll, server1)"
  unfolding server_run_def using server0_ready server1_init sreach.init by blast

text \<open>After \<open>poll\<close> has reported a connection.\<close>

definition server2 :: server_context_t where
  "server2 = server1\<lparr>sv_sock_mgr := Some (manager3 (Some 1))\<rparr>"

lemma server2_reach: "sreach net_ok (M_poll, server1) (M_visit 0 1 E_FAILURE, server2)"
proof -
  have p: "poll (\<lambda>_. 1) (manager3 (Some 0)) = Some (1, manager3 (Some 1))"
    by (simp add: poll_def manager3_def poll_entry_def entry3_def)
  have m: "sv_sock_mgr server1 = Some (manager3 (Some 0))" "\<not> fd_mutex_locked (manager3 (Some 0))"
      "nat (fd_count (manager3 (Some 0))) = 1" by (simp_all add: server1_def manager3_def)
  have "sstep net_ok (M_poll, server1) (M_visit 0 1 E_FAILURE, server2)"
    using sstep.polled [OF m(1,2) p, of net_ok] m(3) by (simp add: server2_def)
  moreover have "small server2" by (simp add: small_def server2_def server1_def server0_def manager3_def pool2_def pool0_def)
  ultimately show ?thesis using sreach.step [OF sreach.init] by fastforce
qed

lemma server2_run: "server_run net_ok (M_visit 0 1 E_FAILURE, server2)"
  unfolding server_run_def using server0_ready server1_init server2_reach by blast

lemma manager3_rep: "mgr_rep (manager3 r) [3]"
  by (simp add: mgr_rep_def manager3_def watched_def entry3_def INT32_MAX_def)

lemma config3_valid: "validate_config (Some config3) = E_SUCCESS"
proof -
  have "denotes ''8080'' False 8080" by (simp add: scan_denotes numeral_scan)
  then have "str_to_int32 (Some ''8080'') (Some 0) = (E_SUCCESS, Some 8080)"
    using str_to_int32_denotes [of "''8080''" 8080 0] by (simp add: limits)
  then show ?thesis by (simp add: validate_config_iff config3_def)
qed

end
