(* ===== verification/Nacl_Words.thy ===== *)
theory Nacl_Words
  imports Prelude
begin

text \<open>
  Crypto/src/tweetnacl.c, the byte and word helpers: rotations, little- and big-endian loads and
  stores and the comparison of two byte strings.

  \<open>u32\<close> is \<open>unsigned long\<close>, which has 64 bits on the LP64 systems the program is built
  for: the code keeps values above \<open>2 ^ 32\<close> in it and masks them only where they matter.  The
  model keeps that width; the lemmas relate it to 32-bit arithmetic.  An array is the list of its
  elements; the helpers are only called on arrays of the sizes their loops read.
\<close>

unbundle bit_operations_syntax

type_synonym u8 = "8 word"
type_synonym u32 = "64 word"
type_synonym u64 = "64 word"

named_theorems nacl_length \<open>lengths of the arrays the code fills\<close>

section \<open>Helpers\<close>

definition L32 :: "u32 \<Rightarrow> nat \<Rightarrow> u32" where
  "L32 x c = push_bit c x OR drop_bit (32 - c) (x AND 0xffffffff)"

definition ld32 :: "u8 list \<Rightarrow> u32" where
  "ld32 x =
     (let u = ucast (x ! 3);
          u = push_bit 8 u OR ucast (x ! 2);
          u = push_bit 8 u OR ucast (x ! 1)
      in push_bit 8 u OR ucast (x ! 0))"

definition dl64 :: "u8 list \<Rightarrow> u64" where
  "dl64 x = fold (\<lambda>i u. push_bit 8 u OR ucast (x ! i)) [0..<8] 0"

text \<open>The stores give the bytes they write, in address order.\<close>

fun st_bytes :: "nat \<Rightarrow> u64 \<Rightarrow> u8 list" where
  "st_bytes 0 u = []"
| "st_bytes (Suc n) u = ucast u # st_bytes n (drop_bit 8 u)"

definition st32 :: "u32 \<Rightarrow> u8 list" where
  "st32 u = st_bytes 4 u"

definition ts64 :: "u64 \<Rightarrow> u8 list" where
  "ts64 u = rev (st_bytes 8 u)"

definition vn :: "u8 list \<Rightarrow> u8 list \<Rightarrow> nat \<Rightarrow> int" where
  "vn x y n =
     (let d = fold (\<lambda>i d. d OR (ucast (x ! i) XOR ucast (y ! i))) [0..<n] (0 :: u32)
      in sint (ucast ((1 AND drop_bit 8 (d - 1)) - 1) :: 32 word))"

definition crypto_verify_16 :: "u8 list \<Rightarrow> u8 list \<Rightarrow> int" where
  "crypto_verify_16 x y = vn x y 16"

definition crypto_verify_32 :: "u8 list \<Rightarrow> u8 list \<Rightarrow> int" where
  "crypto_verify_32 x y = vn x y 32"

lemma list16:
  "length x = 16 \<Longrightarrow> \<exists>a b c d e f g h i j k l m n p q. x = [a, b, c, d, e, f, g, h, i, j, k, l, m, n, p, q]"
  by (auto simp: eval_nat_numeral length_Suc_conv)

section \<open>Rotation\<close>

text \<open>The low 32 bits of \<open>L32\<close> are a rotation of the low 32 bits of its argument, whatever
  the upper half of the 64-bit register holds.\<close>

lemma low_mask: "(0xffffffff :: u32) = mask 32"
  by (simp add: mask_eq_exp_minus_1)

lemma rotl_index: "0 < c \<Longrightarrow> c < 32 \<Longrightarrow> n < 32 \<Longrightarrow>
    (n + 32 - c) mod 32 = (if c \<le> n then n - c else n + 32 - c)" for n c :: nat
  by (cases "c \<le> n") (simp_all add: mod_if)

lemma bit_L32_low:
  assumes "0 < c" "c < 32" "n < 32"
  shows "bit (L32 x c) n = bit x (if c \<le> n then n - c else n + 32 - c)"
  using assms by (auto simp: L32_def low_mask bit_simps add.commute [of 32] simp del: add_2_eq_Suc')

lemma ucast_L32 [simp]:
  assumes "0 < c" "c < 32"
  shows "(ucast (L32 x c) :: 32 word) = word_rotl c (ucast x)"
proof (rule bit_word_eqI)
  fix n assume "n < LENGTH(32)"
  then have n: "n < 32" by simp
  have "bit (ucast (L32 x c) :: 32 word) n = bit (L32 x c) n"
    using n by (simp add: bit_ucast_iff)
  also have "\<dots> = bit (word_rotl c (ucast x :: 32 word)) n"
    using n assms by (auto simp: bit_L32_low bit_word_rotl_iff rotl_index bit_ucast_iff)
  finally show "bit (ucast (L32 x c) :: 32 word) n = bit (word_rotl c (ucast x :: 32 word)) n" .
qed

lemma ucast_of_int_64: "ucast (of_int k :: u32) = (of_int k :: 32 word)"
  by transfer (simp add: min_def)

lemma ucast32_add [simp]: "(ucast (a + b :: u32) :: 32 word) = ucast a + ucast b"
  using ucast_of_int_64 [of "uint a + uint b"] ucast_of_int_64 [of "uint a"]
    ucast_of_int_64 [of "uint b"] by simp

lemma ucast32_diff [simp]: "(ucast (a - b :: u32) :: 32 word) = ucast a - ucast b"
  using ucast_of_int_64 [of "uint a - uint b"] ucast_of_int_64 [of "uint a"]
    ucast_of_int_64 [of "uint b"] by simp

lemma ucast32_xor [simp]: "(ucast (a XOR b :: u32) :: 32 word) = ucast a XOR ucast b"
  by (rule bit_word_eqI) (simp add: bit_simps)

section \<open>Bytes as numbers\<close>

text \<open>\<open>le_nat\<close> reads bytes as a little-endian number, \<open>le_bytes\<close> writes one.\<close>

fun le_nat :: "u8 list \<Rightarrow> nat" where
  "le_nat [] = 0"
| "le_nat (b # bs) = unat b + 256 * le_nat bs"

fun le_bytes :: "nat \<Rightarrow> nat \<Rightarrow> u8 list" where
  "le_bytes 0 v = []"
| "le_bytes (Suc n) v = of_nat v # le_bytes n (v div 256)"

lemma length_le_bytes [simp]: "length (le_bytes n v) = n"
  by (induction n v rule: le_bytes.induct) simp_all

lemma le_bytes_zero: "le_bytes n 0 = replicate n 0"
  by (induction n) simp_all

lemma le_nat_bound: "le_nat bs < 256 ^ length bs"
proof (induction bs)
  case (Cons b bs)
  have "unat b < 256" using unsigned_less [of b, where ?'a = nat] by simp
  then show ?case using Cons by simp
qed simp

lemma le_nat_append: "le_nat (xs @ ys) = le_nat xs + 256 ^ length xs * le_nat ys"
  by (induction xs) (simp_all add: algebra_simps)

lemma le_nat_le_bytes: "le_nat (le_bytes n v) = v mod 256 ^ n"
proof (induction n v rule: le_bytes.induct)
  case (2 n v)
  have "unat (of_nat v :: u8) = v mod 256" by (simp add: unat_of_nat take_bit_eq_mod)
  then show ?case using 2 by (simp add: mod_mult2_eq mult.commute)
qed simp

lemma of_nat_byte: "of_nat (a + 256 * b) = (of_nat a :: u8)"
proof -
  have "(256 :: u8) = 0" by simp
  then show ?thesis by (simp only: of_nat_add of_nat_mult of_nat_numeral) simp
qed

lemma le_bytes_le_nat: "le_bytes (length bs) (le_nat bs) = bs"
proof (induction bs)
  case (Cons b bs)
  have b: "unat b < 256" using unsigned_less [of b, where ?'a = nat] by simp
  have "of_nat (unat b + 256 * le_nat bs) = b" using of_nat_byte [of "unat b"] by simp
  then show ?case using Cons b by (simp del: of_nat_add)
qed simp

lemma le_bytes_mod: "le_bytes n (v mod 256 ^ n) = le_bytes n v"
  using le_bytes_le_nat [of "le_bytes n v"] by (simp add: le_nat_le_bytes)

lemma le_nat_inject: "length xs = length ys \<Longrightarrow> le_nat xs = le_nat ys \<longleftrightarrow> xs = ys"
  by (metis le_bytes_le_nat)

section \<open>Loads and stores\<close>

lemma st_bytes_eq: "n \<le> 8 \<Longrightarrow> st_bytes n u = le_bytes n (unat u)"
proof (induction n u rule: st_bytes.induct)
  case (2 n u)
  have "(ucast u :: u8) = of_nat (unat u)" by simp
  moreover have "unat (drop_bit 8 u) = unat u div 256" by (simp add: unat_drop_bit_eq drop_bit_nat_def)
  ultimately show ?case using 2 by simp
qed simp

lemma st32_eq: "st32 u = le_bytes 4 (unat (ucast u :: 32 word))"
proof -
  have "unat (ucast u :: 32 word) = unat u mod 256 ^ 4"
    by (simp add: unsigned_ucast_eq take_bit_eq_mod)
  then show ?thesis by (simp add: st32_def st_bytes_eq le_bytes_mod [of 4, simplified])
qed

lemma ts64_eq: "ts64 u = rev (le_bytes 8 (unat u))"
  by (simp add: ts64_def st_bytes_eq)

lemma length_st32 [simp, nacl_length]: "length (st32 u) = 4"
  by (simp add: st32_eq)

lemma length_ts64 [simp, nacl_length]: "length (ts64 u) = 8"
  by (simp add: ts64_eq)

lemma or_byte:
  assumes "unat (u :: u64) < 2 ^ 56"
  shows "unat (push_bit 8 u OR ucast (b :: u8)) = 256 * unat u + unat b"
proof -
  have "push_bit 8 u AND ucast b = 0"
    by (rule bit_word_eqI) (auto simp: bit_simps dest: bit_imp_le_length)
  then have "push_bit 8 u OR ucast b = push_bit 8 u + ucast b"
    by (simp add: disjunctive_add_eq_or)
  moreover have "unat (ucast b :: u64) = unat b" by (simp add: unsigned_ucast_eq take_bit_nat_eq_self_iff less_le_trans [OF unsigned_less])
  moreover have "unat (push_bit 8 u) = 256 * unat u"
    using assms by (simp add: push_bit_eq_mult unat_mult_lem [THEN iffD1])
  ultimately show ?thesis
    using assms unsigned_less [of b, where ?'a = nat] by (simp add: unat_add_lem [THEN iffD1])
qed

lemma byte_bound: "unat (b :: u8) < 256"
  using unsigned_less [of b, where ?'a = nat] by simp

lemma ucast_byte [simp]: "unat (ucast (b :: u8) :: u64) = unat b"
  using byte_bound [of b] by (simp add: unsigned_ucast_eq take_bit_nat_eq_self_iff)

lemma ld32_bytes: "unat (ld32 (a # b # c # d # bs)) = le_nat [a, b, c, d]"
  using byte_bound [of a] byte_bound [of b] byte_bound [of c] byte_bound [of d]
  by (simp add: ld32_def Let_def or_byte del: push_bit_push_bit push_bit_or)

lemma list4: "4 \<le> length x \<Longrightarrow> \<exists>a b c d bs. x = a # b # c # d # bs"
  by (auto simp: eval_nat_numeral Suc_le_length_iff)

lemma unat_ld32: "4 \<le> length x \<Longrightarrow> unat (ld32 x) = le_nat (take 4 x)"
  using list4 [of x] by (auto simp: ld32_bytes)

lemma ucast_ld32: "4 \<le> length x \<Longrightarrow> (ucast (ld32 x) :: 32 word) = of_nat (le_nat (take 4 x))"
  using unat_ld32 [of x] by (metis of_nat_unat)

lemma dl64_loop:
  assumes "n \<le> 8" "n \<le> length x"
  shows "unat (fold (\<lambda>i u. push_bit 8 u OR ucast (x ! i)) [0..<n] (0 :: u64)) = le_nat (rev (take n x))"
  using assms
proof (induction n)
  case (Suc n)
  have "le_nat (rev (take n x)) < 256 ^ n"
    using le_nat_bound [of "rev (take n x)"] Suc.prems by simp
  also have "(256 :: nat) ^ n \<le> 256 ^ 7" using Suc.prems by (intro power_increasing) auto
  finally have "le_nat (rev (take n x)) < 2 ^ 56" by simp
  then show ?case
    using Suc by (simp add: or_byte take_Suc_conv_app_nth)
qed simp

lemma unat_dl64: "8 \<le> length x \<Longrightarrow> unat (dl64 x) = le_nat (rev (take 8 x))"
  unfolding dl64_def by (rule dl64_loop) auto

lemma ts64_dl64: "length x = 8 \<Longrightarrow> ts64 (dl64 x) = x"
  using le_bytes_le_nat [of "rev x"] by (simp add: ts64_eq unat_dl64)

lemma dl64_ts64: "dl64 (ts64 u) = u"
  by (rule word_unat_eq_iff [THEN iffD2])
     (use unsigned_less [of u, where ?'a = nat] in \<open>simp add: ts64_eq unat_dl64 le_nat_le_bytes\<close>)

section \<open>Comparison\<close>

lemma vn_loop_byte:
  "fold (\<lambda>i d. d OR (ucast (x ! i) XOR ucast (y ! i))) is (ucast (e :: u8) :: u32) =
   ucast (fold (\<lambda>i d. d OR (x ! i XOR y ! i)) is e)"
proof (induction "is" arbitrary: e)
  case (Cons i "is")
  have "(ucast e OR (ucast (x ! i) XOR ucast (y ! i)) :: u32) = ucast (e OR (x ! i XOR y ! i))"
    by (rule bit_word_eqI) (auto simp: bit_simps)
  then show ?case using Cons by simp
qed simp

lemma xor_zero_iff: "a XOR b = 0 \<longleftrightarrow> a = (b :: u8)"
  by (metis xor.left_neutral xor.assoc xor_self_eq xor.right_neutral)

lemma vn_loop_zero:
  "n \<le> length x \<Longrightarrow> n \<le> length y \<Longrightarrow>
   fold (\<lambda>i d. d OR (x ! i XOR y ! i)) [0..<n] (0 :: u8) = 0 \<longleftrightarrow> take n x = take n y"
  by (induction n) (auto simp: or_eq_0_iff take_Suc_conv_app_nth xor_zero_iff)

lemma vn_iff:
  assumes "n \<le> length x" "n \<le> length y"
  shows "vn x y n = (if take n x = take n y then 0 else - 1)"
proof -
  define e where "e = fold (\<lambda>i d. d OR (x ! i XOR y ! i)) [0..<n] (0 :: u8)"
  have r: "vn x y n = sint (ucast ((1 AND drop_bit 8 (ucast e - 1 :: u32)) - 1) :: 32 word)"
    using vn_loop_byte [of x y "[0..<n]" 0] by (simp add: vn_def e_def)
  have z: "e = 0 \<longleftrightarrow> take n x = take n y" unfolding e_def by (rule vn_loop_zero) fact+
  show ?thesis
  proof (cases "e = 0")
    case True
    have "(1 AND drop_bit 8 (- 1 :: u32)) - 1 = 0" by (simp add: mask_eq_exp_minus_1)
    then show ?thesis using True z by (simp add: r)
  next
    case False
    then have "(ucast e :: u32) \<noteq> 0" by (metis ucast_byte unat_eq_zero)
    then have "unat (ucast e - 1 :: u32) < 256"
      using byte_bound [of e] by (simp add: unat_minus_one)
    then have "drop_bit 8 (ucast e - 1 :: u32) = 0"
      by (simp add: word_unat_eq_iff unat_drop_bit_eq drop_bit_nat_def)
    moreover have "(ucast (- 1 :: u32) :: 32 word) = - 1"
      by (rule bit_word_eqI) (simp add: bit_simps)
    ultimately show ?thesis using False z by (simp add: r)
  qed
qed

end
