(* ===== verification/Nacl_Field.thy ===== *)
theory Nacl_Field
  imports Nacl_Words
begin

text \<open>
  Crypto/src/tweetnacl.c, arithmetic modulo \<open>2 ^ 255 - 19\<close>.  A field element is an array of 16
  signed limbs of nominally 16 bits in \<open>i64\<close> variables.  A limb is an \<open>int\<close>; an \<open>i64\<close>
  operation whose result does not fit 64 bits is undefined behaviour (\<open>None\<close>).  The lemmas show
  that with limbs below \<open>2 ^ 20\<close> no operation overflows and each computes its field operation.
\<close>

section \<open>Checked 64-bit arithmetic\<close>

type_synonym gf = "int list"

definition in_i64 :: "int \<Rightarrow> bool" where
  "in_i64 x \<longleftrightarrow> - (2 ^ 63) \<le> x \<and> x < 2 ^ 63"

text \<open>\<open>i64s es r\<close> is \<open>r\<close>, provided the values \<open>es\<close> of the \<open>i64\<close> expressions evaluated
  on the way all fit.\<close>

definition i64s :: "int list \<Rightarrow> 'a \<Rightarrow> 'a option" where
  "i64s es r = (if list_all in_i64 es then Some r else None)"

primrec foldM :: "('a \<Rightarrow> 's \<Rightarrow> 's option) \<Rightarrow> 'a list \<Rightarrow> 's \<Rightarrow> 's option" where
  "foldM f [] s = Some s"
| "foldM f (x # xs) s = do { s \<leftarrow> f x s; foldM f xs s }"

lemma foldM_append: "foldM f (xs @ ys) s = do { s \<leftarrow> foldM f xs s; foldM f ys s }"
  by (induction xs arbitrary: s) simp_all

section \<open>The code\<close>

definition gf0 :: gf where "gf0 = replicate 16 0"
definition gf1 :: gf where "gf1 = 1 # replicate 15 0"
definition gf_121665 :: gf where "gf_121665 = [0xDB41, 1] @ replicate 14 0"

definition set25519 :: "gf \<Rightarrow> gf" where
  "set25519 a = map (\<lambda>i. a ! i) [0..<16]"

definition car_step :: "nat \<Rightarrow> gf \<Rightarrow> gf option" where
  "car_step i o1 =
     (let oi = o1 ! i + 65536; o1 = o1[i := oi];
          c = drop_bit 16 oi;
          k = (i + 1) * (if i < 15 then 1 else 0);
          inc = c - 1 + 37 * (c - 1) * (if i = 15 then 1 else 0);
          o2 = o1[k := o1 ! k + inc];
          o3 = o2[i := o2 ! i - push_bit 16 c]
      in i64s [oi, c - 1, 37 * (c - 1), inc, o1 ! k + inc, push_bit 16 c, o2 ! i - push_bit 16 c] o3)"

definition car25519 :: "gf \<Rightarrow> gf option" where
  "car25519 x = foldM car_step [0..<16] x"

definition sel25519 :: "gf \<Rightarrow> gf \<Rightarrow> int \<Rightarrow> gf \<times> gf" where
  "sel25519 p q b =
     (let c = NOT (b - 1)
      in fold (\<lambda>i (p, q). let t = c AND (p ! i XOR q ! i) in (p[i := p ! i XOR t], q[i := q ! i XOR t]))
           [0..<16] (p, q))"

definition sub_step :: "gf \<Rightarrow> nat \<Rightarrow> gf \<Rightarrow> gf" where
  "sub_step t i m =
     (let m = m[i := t ! i - 0xffff - (drop_bit 16 (m ! (i - 1)) AND 1)]
      in m[i - 1 := m ! (i - 1) AND 0xffff])"

definition pack_step :: "gf \<Rightarrow> gf" where
  "pack_step t =
     (let m = (replicate 16 0)[0 := t ! 0 - 0xffed];
          m = fold (sub_step t) [1..<15] m;
          m = m[15 := t ! 15 - 0x7fff - (drop_bit 16 (m ! 14) AND 1)];
          b = drop_bit 16 (m ! 15) AND 1;
          m = m[14 := m ! 14 AND 0xffff]
      in fst (sel25519 t m (1 - b)))"

definition pack25519 :: "gf \<Rightarrow> u8 list option" where
  "pack25519 n = do {
     t \<leftarrow> car25519 (set25519 n);
     t \<leftarrow> car25519 t;
     t \<leftarrow> car25519 t;
     let t = pack_step (pack_step t);
     Some (concat (map (\<lambda>i. [of_int (t ! i AND 0xff), of_int (drop_bit 8 (t ! i))]) [0..<16]))
   }"

definition neq25519 :: "gf \<Rightarrow> gf \<Rightarrow> int option" where
  "neq25519 a b = do { c \<leftarrow> pack25519 a; d \<leftarrow> pack25519 b; Some (crypto_verify_32 c d) }"

definition par25519 :: "gf \<Rightarrow> u8 option" where
  "par25519 a = do { d \<leftarrow> pack25519 a; Some (d ! 0 AND 1) }"

definition unpack25519 :: "u8 list \<Rightarrow> gf" where
  "unpack25519 n =
     (let x = map (\<lambda>i. uint (n ! (2 * i)) + push_bit 8 (uint (n ! (2 * i + 1)))) [0..<16]
      in x[15 := x ! 15 AND 0x7fff])"

text \<open>\<open>A\<close>, \<open>Z\<close>, \<open>M\<close> and \<open>S\<close> of the source.\<close>

definition A_gf :: "gf \<Rightarrow> gf \<Rightarrow> gf option" where
  "A_gf a b = (let x = map (\<lambda>i. a ! i + b ! i) [0..<16] in i64s x x)"

definition Z_gf :: "gf \<Rightarrow> gf \<Rightarrow> gf option" where
  "Z_gf a b = (let x = map (\<lambda>i. a ! i - b ! i) [0..<16] in i64s x x)"

definition mul_step :: "gf \<Rightarrow> gf \<Rightarrow> nat \<times> nat \<Rightarrow> int list \<Rightarrow> int list option" where
  "mul_step a b = (\<lambda>(i, j) t.
     let e = t ! (i + j) + a ! i * b ! j in i64s [a ! i * b ! j, e] (t[i + j := e]))"

definition fold_step :: "nat \<Rightarrow> int list \<Rightarrow> int list option" where
  "fold_step i t = (let e = t ! i + 38 * t ! (i + 16) in i64s [38 * t ! (i + 16), e] (t[i := e]))"

definition M_gf :: "gf \<Rightarrow> gf \<Rightarrow> gf option" where
  "M_gf a b = do {
     t \<leftarrow> foldM (mul_step a b) (List.product [0..<16] [0..<16]) (replicate 31 0);
     t \<leftarrow> foldM fold_step [0..<15] t;
     x \<leftarrow> car25519 (take 16 t);
     car25519 x
   }"

definition S_gf :: "gf \<Rightarrow> gf option" where
  "S_gf a = M_gf a a"

definition inv25519 :: "gf \<Rightarrow> gf option" where
  "inv25519 i = foldM (\<lambda>a c. do {
       c \<leftarrow> S_gf c;
       if a \<noteq> 2 \<and> a \<noteq> 4 then M_gf c i else Some c
     }) (rev [0..<254]) (set25519 i)"

definition pow2523 :: "gf \<Rightarrow> gf option" where
  "pow2523 i = foldM (\<lambda>a c. do {
       c \<leftarrow> S_gf c;
       if a \<noteq> 1 then M_gf c i else Some c
     }) (rev [0..<251]) (set25519 i)"

section \<open>Values and digits\<close>

definition p25519 :: int where "p25519 = 2 ^ 255 - 19"

fun gval :: "int list \<Rightarrow> int" where
  "gval [] = 0"
| "gval (x # xs) = x + 65536 * gval xs"

fun digits :: "nat \<Rightarrow> int \<Rightarrow> int list" where
  "digits 0 v = []"
| "digits (Suc n) v = v mod 65536 # digits n (v div 65536)"

definition bounded :: "int \<Rightarrow> int list \<Rightarrow> bool" where
  "bounded B xs \<longleftrightarrow> (\<forall>x\<in>set xs. \<bar>x\<bar> \<le> B)"

lemma length_digits [simp]: "length (digits n v) = n"
  by (induction n v rule: digits.induct) simp_all

lemma gval_append: "gval (xs @ ys) = gval xs + 65536 ^ length xs * gval ys"
  by (induction xs) (simp_all add: algebra_simps)

lemma gval_digits: "gval (digits n v) = v mod 65536 ^ n"
proof (induction n v rule: digits.induct)
  case (2 n v)
  have "v mod 65536 ^ Suc n = 65536 * (v div 65536 mod 65536 ^ n) + v mod 65536"
    using zmod_zmult2_eq [of "65536 ^ n" v 65536] by simp
  then show ?case using 2 by simp
qed simp

lemma digits_gval: "(\<And>x. x \<in> set xs \<Longrightarrow> 0 \<le> x \<and> x < 65536) \<Longrightarrow> digits (length xs) (gval xs) = xs"
  by (induction xs) auto

lemma digits_Suc: "digits (Suc n) v = digits n v @ [v div 65536 ^ n mod 65536]"
  by (induction n v rule: digits.induct) (simp_all add: zdiv_zmult2_eq)

lemma set_digits: "x \<in> set (digits n v) \<Longrightarrow> 0 \<le> x \<and> x < 65536"
  by (induction n v rule: digits.induct) auto

lemma digits_mod: "digits n (v mod 65536 ^ n) = digits n v"
  using digits_gval [of "digits n v"] set_digits by (simp add: gval_digits)

section \<open>Carrying\<close>

lemma drop_bit_16 [simp]: "drop_bit 16 (x :: int) = x div 65536"
  by (simp add: drop_bit_int_def)

lemma push_bit_16 [simp]: "push_bit 16 (x :: int) = 65536 * x"
  by (simp add: push_bit_int_def)

lemma carry_abs: "\<bar>a\<bar> \<le> B \<Longrightarrow> \<bar>c\<bar> \<le> B \<Longrightarrow> 2 \<le> B \<Longrightarrow> \<bar>(a + c) div 65536\<bar> \<le> B" for a c B :: int
  by (simp add: abs_le_iff) linarith

lemma gval_div_bound:
  assumes "bounded B xs" "2 \<le> B"
  shows "\<bar>gval xs div 65536 ^ length xs\<bar> \<le> B"
  using assms(1)
proof (induction xs rule: rev_induct)
  case (snoc x xs)
  have "gval (xs @ [x]) div 65536 ^ length (xs @ [x]) = (gval xs div 65536 ^ length xs + x) div 65536"
    by (simp add: gval_append zdiv_zmult2_eq mult.commute [of 65536] div_mult_self2)
  then show ?case
    using snoc carry_abs [of "gval xs div 65536 ^ length xs" B x] assms(2) by (simp add: bounded_def)
qed (use assms in simp)

lemma carry_in_i64:
  assumes "\<bar>a\<bar> \<le> 2 ^ 57" "\<bar>b\<bar> \<le> 2 ^ 57"
  shows "in_i64 (a + 65536)" "in_i64 (a div 65536)" "in_i64 (37 * (a div 65536))" "in_i64 (b + a div 65536)"
    "in_i64 (38 * (a div 65536))" "in_i64 (b + 38 * (a div 65536))"
    "in_i64 (65536 * (a div 65536) + 65536)" "in_i64 (a mod 65536)"
  using assms by (simp_all add: in_i64_def abs_le_iff) linarith+

lemma carry_div: "(a + 65536) div 65536 = a div 65536 + 1" for a :: int
  by simp

lemma carry_rest: "a - 65536 * (a div 65536) = a mod 65536" for a :: int
  by (simp add: minus_mult_div_eq_mod)

lemma car_step_inner:
  assumes "length ys = i" "i < 15" "\<bar>a\<bar> \<le> 2 ^ 57" "\<bar>b\<bar> \<le> 2 ^ 57"
  shows "car_step i (ys @ a # b # zs) = Some (ys @ a mod 65536 # (b + a div 65536) # zs)"
proof -
  have l: "(ys @ a # b # zs) ! i = a" "(ys @ v # b # zs) ! Suc i = b"
    "(ys @ a # b # zs)[i := v] = ys @ v # b # zs" "(ys @ v # b # zs)[Suc i := w] = ys @ v # w # zs"
    "(ys @ v # w # zs) ! i = v" "(ys @ v # w # zs)[i := u] = ys @ u # w # zs" for v w u
    using assms(1) by (auto simp: nth_append list_update_append)
  show ?thesis
    using assms(2) carry_in_i64 [OF assms(3,4)]
    by (simp add: car_step_def Let_def l i64s_def carry_div carry_rest)
qed

lemma car_step_last:
  assumes "length ys = 14" "\<bar>a\<bar> \<le> 2 ^ 57" "\<bar>b\<bar> \<le> 2 ^ 57"
  shows "car_step 15 (b # ys @ [a]) = Some ((b + 38 * (a div 65536)) # ys @ [a mod 65536])"
proof -
  have l: "(ys @ [v]) ! 14 = v" "(ys @ [v])[14 := u] = ys @ [u]" for v u
    using assms(1) by (simp_all add: nth_append list_update_append)
  show ?thesis
    using carry_in_i64 [OF assms(2,3)]
    by (simp add: car_step_def Let_def l i64s_def carry_div carry_rest)
qed

text \<open>The state after \<open>k\<close> steps.\<close>

definition car_state :: "gf \<Rightarrow> nat \<Rightarrow> gf" where
  "car_state x k = digits k (gval x) @ (x ! k + gval (take k x) div 65536 ^ k) # drop (Suc k) x"

lemma gval_split: "k \<le> length x \<Longrightarrow> gval x = gval (take k x) + 65536 ^ k * gval (drop k x)"
  using gval_append [of "take k x" "drop k x"] by (simp add: min_def)

lemma bounded_nth: "bounded B x \<Longrightarrow> i < length x \<Longrightarrow> \<bar>x ! i\<bar> \<le> B"
  by (simp add: bounded_def)

lemma bounded_take: "bounded B x \<Longrightarrow> bounded B (take k x)"
  by (auto simp: bounded_def dest: in_set_takeD)

lemma car_limb:
  assumes "k < length x"
  shows "(x ! k + gval (take k x) div 65536 ^ k) div 65536 = gval (take (Suc k) x) div 65536 ^ Suc k"
    and "(x ! k + gval (take k x) div 65536 ^ k) mod 65536 = gval x div 65536 ^ k mod 65536"
proof -
  have s: "gval (take (Suc k) x) div 65536 ^ k = x ! k + gval (take k x) div 65536 ^ k"
    using assms by (simp add: take_Suc_conv_app_nth gval_append add.commute)
  then show "(x ! k + gval (take k x) div 65536 ^ k) div 65536 = gval (take (Suc k) x) div 65536 ^ Suc k"
    by (simp add: zdiv_zmult2_eq mult.commute [of 65536] flip: s)
  have "gval x = gval (take (Suc k) x) + 65536 ^ k * (65536 * gval (drop (Suc k) x))"
    using gval_split [of "Suc k" x] assms by simp
  then have "gval x div 65536 ^ k = gval (take (Suc k) x) div 65536 ^ k + 65536 * gval (drop (Suc k) x)"
    by simp
  then show "(x ! k + gval (take k x) div 65536 ^ k) mod 65536 = gval x div 65536 ^ k mod 65536"
    using s by simp
qed

lemma car_limb_bound:
  assumes "bounded B x" "2 \<le> B" "2 * B \<le> C" "k < length x"
  shows "\<bar>x ! k + gval (take k x) div 65536 ^ k\<bar> \<le> C"
  using gval_div_bound [OF bounded_take [OF assms(1), of k] assms(2)] bounded_nth [OF assms(1,4)] assms(3,4)
  by simp

lemma car_state_prefix:
  assumes "length x = 16" "bounded B x" "2 \<le> B" "2 * B \<le> 2 ^ 57" "k \<le> 15"
  shows "foldM car_step [0..<k] x = Some (car_state x k)"
  using assms(5)
proof (induction k)
  case 0
  then show ?case using assms(1) by (cases x) (simp_all add: car_state_def)
next
  case (Suc k)
  let ?a = "x ! k + gval (take k x) div 65536 ^ k"
  have k: "k < 15" "Suc k < length x" using Suc.prems assms(1) by simp_all
  have d: "drop (Suc k) x = x ! Suc k # drop (Suc (Suc k)) x" using k by (simp add: Cons_nth_drop_Suc)
  have a: "\<bar>?a\<bar> \<le> 2 ^ 57" using car_limb_bound [OF assms(2-4)] k by simp
  have b: "\<bar>x ! Suc k\<bar> \<le> 2 ^ 57" using bounded_nth [OF assms(2) k(2)] assms(3,4) by simp
  have "car_step k (car_state x k) =
      Some (digits k (gval x) @ ?a mod 65536 # (x ! Suc k + ?a div 65536) # drop (Suc (Suc k)) x)"
    unfolding car_state_def d by (rule car_step_inner [OF _ k(1) a b]) simp
  also have "\<dots> = Some (car_state x (Suc k))"
    using k by (simp add: car_state_def car_limb digits_Suc del: digits.simps)
  finally show ?case using Suc by (simp add: foldM_append)
qed

lemma car25519_value:
  assumes "length x = 16" "bounded B x" "2 \<le> B" "2 * B \<le> 2 ^ 57"
  defines "v \<equiv> gval x"
  shows "car25519 x = Some ((digits 16 v)[0 := digits 16 v ! 0 + 38 * (v div 2 ^ 256)])"
proof -
  let ?a = "x ! 15 + gval (take 15 x) div 65536 ^ 15"
  have a: "\<bar>?a\<bar> \<le> 2 ^ 57" using car_limb_bound [OF assms(2-4), of 15] assms(1) by simp
  obtain b ys where d: "digits 15 v = b # ys" and l: "length ys = 14"
    by (metis length_digits length_Suc_conv numeral_nat(2) Suc_numeral add_One numeral_eq_Suc pred_numeral_simps)
  have "b \<in> set (digits 15 v)" using d by simp
  then have b: "\<bar>b\<bar> \<le> 2 ^ 57" using set_digits [of b 15 v] by simp
  have st: "car_state x 15 = b # ys @ [?a]" using assms(1) d by (simp add: car_state_def v_def)
  have "[0..<16] = [0..<15] @ [15]" by (simp add: upt_rec)
  then have "car25519 x = car_step 15 (b # ys @ [?a])"
    using car_state_prefix [OF assms(1-4), of 15] st by (simp add: car25519_def foldM_append)
  also have "\<dots> = Some ((b + 38 * (?a div 65536)) # ys @ [?a mod 65536])"
    by (rule car_step_last [OF l a b])
  also have "?a div 65536 = v div 2 ^ 256"
    using car_limb(1) [of 15 x] assms(1) by (simp add: v_def)
  also have "?a mod 65536 = v div 65536 ^ 15 mod 65536"
    using car_limb(2) [of 15 x] assms(1) by (simp add: v_def)
  finally show ?thesis
    using digits_Suc [of 15 v] d by (simp del: digits.simps)
qed

section \<open>Elements and their values\<close>

text \<open>\<open>gf_elem B a x\<close>: the array \<open>a\<close> has limbs of absolute value at most \<open>B\<close> and stands for
  \<open>x\<close> modulo \<open>p25519\<close>.\<close>

definition gf_elem :: "int \<Rightarrow> gf \<Rightarrow> int \<Rightarrow> bool" where
  "gf_elem B a x \<longleftrightarrow> length a = 16 \<and> bounded B a \<and> gval a mod p25519 = x mod p25519"

lemma elem_mod [simp]: "gf_elem B a (x mod p25519) \<longleftrightarrow> gf_elem B a x"
  by (simp add: gf_elem_def)

lemma elem_mono: "gf_elem B a x \<Longrightarrow> B \<le> C \<Longrightarrow> gf_elem C a x"
  by (force simp: gf_elem_def bounded_def)

lemma elem_cong: "gf_elem B a x \<Longrightarrow> x mod p25519 = y mod p25519 \<Longrightarrow> gf_elem B a y"
  by (simp add: gf_elem_def)

lemma fold_mod_p: "(a + 2 ^ 256 * b) mod p25519 = (a + 38 * b) mod p25519"
proof -
  have "a + 2 ^ 256 * b = a + 38 * b + (2 * b) * p25519" by (simp add: p25519_def)
  then show ?thesis by (simp only: mod_mult_self1)
qed

lemma gval_update_0: "xs \<noteq> [] \<Longrightarrow> gval (xs[0 := xs ! 0 + d]) = gval xs + d"
  by (cases xs) simp_all

definition carried :: "int \<Rightarrow> gf" where
  "carried v = (digits 16 v)[0 := digits 16 v ! 0 + 38 * (v div 2 ^ 256)]"

lemma length_carried [simp]: "length (carried v) = 16"
  by (simp add: carried_def)

lemma gval_carried: "gval (carried v) = v mod 2 ^ 256 + 38 * (v div 2 ^ 256)"
proof -
  have "digits 16 v \<noteq> []" by (metis length_digits list.size(3) zero_neq_numeral)
  then show ?thesis by (simp add: carried_def gval_update_0 gval_digits)
qed

lemma gval_carried_mod: "gval (carried v) mod p25519 = v mod p25519"
  using fold_mod_p [of "v mod 2 ^ 256" "v div 2 ^ 256"] by (simp add: gval_carried)

lemma carried_bound:
  assumes "\<bar>v div 2 ^ 256\<bar> \<le> c" "65535 + 38 * c \<le> B"
  shows "bounded B (carried v)"
proof -
  have d: "0 \<le> x \<and> x < 65536" if "x \<in> set (digits 16 v)" for x using set_digits [OF that] .
  have "digits 16 v ! 0 \<in> set (digits 16 v)" by (rule nth_mem) simp
  then have "\<bar>digits 16 v ! 0 + 38 * (v div 2 ^ 256)\<bar> \<le> B" using d [of "digits 16 v ! 0"] assms by (simp add: abs_le_iff)
  moreover have "0 \<le> c" using assms(1) by linarith
  ultimately show ?thesis
    using d assms(2) set_update_subset_insert [of "digits 16 v" 0 "digits 16 v ! 0 + 38 * (v div 2 ^ 256)"]
    by (force simp: bounded_def carried_def)
qed

lemma gval_abs: "bounded B xs \<Longrightarrow> 65535 * \<bar>gval xs\<bar> \<le> B * (65536 ^ length xs - 1)"
proof (induction xs)
  case (Cons x xs)
  then have x: "\<bar>x\<bar> \<le> B" and ih: "65535 * \<bar>gval xs\<bar> \<le> B * (65536 ^ length xs - 1)"
    by (simp_all add: bounded_def)
  have "65535 * \<bar>gval (x # xs)\<bar> \<le> 65535 * \<bar>x\<bar> + 65536 * (65535 * \<bar>gval xs\<bar>)"
    using abs_triangle_ineq [of x "65536 * gval xs"] by (simp add: abs_mult)
  also have "\<dots> \<le> 65535 * B + 65536 * (B * (65536 ^ length xs - 1))" using x ih by simp
  finally show ?case by (simp add: algebra_simps)
qed simp

lemma abs_div_le:
  fixes v N c :: int
  assumes "0 < N" "- (c * N) \<le> v" "v < (c + 1) * N"
  shows "\<bar>v div N\<bar> \<le> c"
proof -
  have "- c = (- c * N) div N" using assms(1) by (subst nonzero_mult_div_cancel_right) simp_all
  also have "\<dots> \<le> v div N" using assms by (intro zdiv_mono1) simp_all
  finally have "- c \<le> v div N" .
  moreover have "v div N < c + 1"
  proof (rule ccontr)
    assume "\<not> v div N < c + 1"
    then have "(c + 1) * N \<le> v div N * N" using assms(1) by (intro mult_right_mono) simp_all
    then show False using assms(1,3) div_mult_mod_eq [of v N] pos_mod_sign [OF assms(1), of v] by linarith
  qed
  ultimately show ?thesis by simp
qed

lemma second_carry:
  fixes m q :: int
  assumes "0 \<le> m" "m < 2 ^ 256" "\<bar>q\<bar> \<le> 2 ^ 40"
  shows "\<bar>(m + 38 * q) div 2 ^ 256\<bar> \<le> 1"
  using assms by (intro abs_div_le) (simp_all add: abs_le_iff)

lemma car_twice:
  assumes "length x = 16" "bounded (2 ^ 55) x"
  shows "\<exists>y v. car25519 x = Some y \<and> car25519 y = Some (carried v) \<and>
    gval (carried v) mod p25519 = gval x mod p25519 \<and> \<bar>v div 2 ^ 256\<bar> \<le> 1"
proof -
  define y where "y = carried (gval x)"
  have c: "\<bar>gval x div 2 ^ 256\<bar> \<le> 2 ^ 40"
    using gval_abs [OF assms(2)] assms(1) by (intro abs_div_le) (simp_all add: abs_le_iff)
  have 1: "car25519 x = Some y"
    using car25519_value [OF assms] by (simp add: y_def carried_def)
  have y: "length y = 16" "bounded (2 ^ 46) y"
    using carried_bound [OF c, of "2 ^ 46"] by (simp_all add: y_def)
  have 2: "car25519 y = Some (carried (gval y))"
    using car25519_value [OF y] by (simp add: carried_def)
  have v: "gval y = gval x mod 2 ^ 256 + 38 * (gval x div 2 ^ 256)" by (simp add: y_def gval_carried)
  have "\<bar>gval y div 2 ^ 256\<bar> \<le> 1" unfolding v by (rule second_carry [OF _ _ c]) simp_all
  then show ?thesis using 1 2 by (intro exI [of _ y] exI [of _ "gval y"]) (simp add: gval_carried_mod y_def)
qed

section \<open>Addition, subtraction, multiplication\<close>

lemma gval_map2:
  "length a = n \<Longrightarrow> length b = n \<Longrightarrow> gval (map (\<lambda>i. a ! i + b ! i) [0..<n]) = gval a + gval b"
  "length a = n \<Longrightarrow> length b = n \<Longrightarrow> gval (map (\<lambda>i. a ! i - b ! i) [0..<n]) = gval a - gval b"
proof -
  have s: "map (\<lambda>i. f ((x # xs) ! i) ((y # ys) ! i)) [0..<Suc n] = f x y # map (\<lambda>i. f (xs ! i) (ys ! i)) [0..<n]"
    for f :: "int \<Rightarrow> int \<Rightarrow> int" and x xs y ys n
    by (simp add: upt_conv_Cons map_Suc_upt [symmetric] comp_def del: upt_Suc)
  show "length a = n \<Longrightarrow> length b = n \<Longrightarrow> gval (map (\<lambda>i. a ! i + b ! i) [0..<n]) = gval a + gval b"
    by (induction n arbitrary: a b) (auto simp: length_Suc_conv s [of "(+)"] algebra_simps simp del: upt_Suc)
  show "length a = n \<Longrightarrow> length b = n \<Longrightarrow> gval (map (\<lambda>i. a ! i - b ! i) [0..<n]) = gval a - gval b"
    by (induction n arbitrary: a b) (auto simp: length_Suc_conv s [of "(-)"] right_diff_distrib simp del: upt_Suc)
qed

lemma A_gf_elem:
  assumes "gf_elem B a x" "gf_elem C b y" "B + C \<le> D" "D \<le> 2 ^ 62"
  shows "\<exists>r. A_gf a b = Some r \<and> gf_elem D r (x + y)"
proof -
  let ?r = "map (\<lambda>i. a ! i + b ! i) [0..<16]"
  have "\<bar>a ! i + b ! i\<bar> \<le> D" if "i < 16" for i
    using assms that bounded_nth [of B a i] bounded_nth [of C b i] by (simp add: gf_elem_def)
  then have b: "bounded D ?r" by (simp add: bounded_def)
  then have "list_all in_i64 ?r" using assms(4) by (force simp: bounded_def list_all_iff in_i64_def abs_le_iff)
  moreover have "gval ?r mod p25519 = (x + y) mod p25519"
    using assms gval_map2(1) [of a 16 b] by (simp add: gf_elem_def) (metis mod_add_cong)
  ultimately show ?thesis using b by (simp add: A_gf_def i64s_def gf_elem_def Let_def)
qed

lemma Z_gf_elem:
  assumes "gf_elem B a x" "gf_elem C b y" "B + C \<le> D" "D \<le> 2 ^ 62"
  shows "\<exists>r. Z_gf a b = Some r \<and> gf_elem D r (x - y)"
proof -
  let ?r = "map (\<lambda>i. a ! i - b ! i) [0..<16]"
  have "\<bar>a ! i - b ! i\<bar> \<le> D" if "i < 16" for i
    using assms that bounded_nth [of B a i] bounded_nth [of C b i] by (simp add: gf_elem_def)
  then have b: "bounded D ?r" by (simp add: bounded_def)
  then have "list_all in_i64 ?r" using assms(4) by (force simp: bounded_def list_all_iff in_i64_def abs_le_iff)
  moreover have "gval ?r mod p25519 = (x - y) mod p25519"
    using assms gval_map2(2) [of a 16 b] by (simp add: gf_elem_def) (metis mod_diff_cong)
  ultimately show ?thesis using b by (simp add: Z_gf_def i64s_def gf_elem_def Let_def)
qed

text \<open>The product loop: the value of the accumulator is the sum of the terms added so far, and it
  grows by at most one product per step.\<close>

lemma gval_update: "k < length t \<Longrightarrow> gval (t[k := t ! k + e]) = gval t + e * 65536 ^ k"
  by (induction t arbitrary: k) (auto simp: nth_Cons algebra_simps split: nat.splits)

lemma bounded_update: "bounded B t \<Longrightarrow> \<bar>e\<bar> \<le> B \<Longrightarrow> bounded B (t[k := e])"
  using set_update_subset_insert [of t k e] by (auto simp: bounded_def)

lemma mul_loop:
  assumes "length a = 16" "length b = 16" "bounded (2 ^ 20) a" "bounded (2 ^ 20) b"
    and "set ps \<subseteq> {..<16} \<times> {..<16}" "length t = 31" "bounded (N * 2 ^ 40) t" "0 \<le> N" "N + int (length ps) \<le> 256"
  shows "\<exists>t'. foldM (mul_step a b) ps t = Some t' \<and> length t' = 31 \<and>
    bounded ((N + int (length ps)) * 2 ^ 40) t' \<and>
    gval t' = gval t + (\<Sum>(i, j)\<leftarrow>ps. a ! i * b ! j * 65536 ^ (i + j))"
  using assms(5-)
proof (induction ps arbitrary: t N)
  case (Cons ij ps)
  obtain i j where ij: "ij = (i, j)" by fastforce
  have r: "i < 16" "j < 16" "i + j < length t" using Cons.prems ij by auto
  have p: "\<bar>a ! i * b ! j\<bar> \<le> 2 ^ 40"
    using mult_mono [OF bounded_nth [OF assms(3), of i] bounded_nth [OF assms(4), of j]] r assms(1,2)
    by (simp add: abs_mult)
  let ?e = "t ! (i + j) + a ! i * b ! j"
  have e: "\<bar>?e\<bar> \<le> (N + 1) * 2 ^ 40"
    using bounded_nth [OF Cons.prems(3) r(3)] p by (simp add: distrib_right)
  moreover have "(N + 1) * 2 ^ 40 \<le> 256 * 2 ^ 40" using Cons.prems(5) by simp
  ultimately have "in_i64 ?e" "in_i64 (a ! i * b ! j)" using p by (simp_all add: in_i64_def abs_le_iff)
  then have st: "mul_step a b ij t = Some (t[i + j := ?e])" by (simp add: mul_step_def ij i64s_def Let_def)
  have "bounded ((N + 1) * 2 ^ 40) t" using Cons.prems(3) by (force simp: bounded_def distrib_right)
  then have "bounded ((N + 1) * 2 ^ 40) (t[i + j := ?e])" using e by (rule bounded_update)
  then show ?case
    using Cons.IH [of "t[i + j := ?e]" "N + 1"] Cons.prems st gval_update [OF r(3), of "a ! i * b ! j"]
    by (auto simp: ij add.assoc)
qed simp

lemma product_sum:
  assumes "length a = n" "length b = m"
  shows "(\<Sum>(i, j)\<leftarrow>List.product [0..<n] [0..<m]. a ! i * b ! j * 65536 ^ (i + j)) = gval a * gval b"
proof -
  have v: "gval c = (\<Sum>i<length c. c ! i * 65536 ^ i)" for c
    by (induction c) (simp_all add: sum.lessThan_Suc_shift sum_distrib_left algebra_simps del: sum.lessThan_Suc)
  have "(\<Sum>(i, j)\<leftarrow>List.product [0..<n] [0..<m]. a ! i * b ! j * 65536 ^ (i + j)) =
      (\<Sum>(i, j)\<in>{..<n} \<times> {..<m}. a ! i * b ! j * 65536 ^ (i + j))"
    by (simp add: sum_list_distinct_conv_sum_set distinct_product atLeast0LessThan)
  also have "\<dots> = (\<Sum>i<n. \<Sum>j<m. (a ! i * 65536 ^ i) * (b ! j * 65536 ^ j))"
    by (simp add: sum.cartesian_product power_add mult_ac)
  also have "\<dots> = (\<Sum>i<n. a ! i * 65536 ^ i) * (\<Sum>j<m. b ! j * 65536 ^ j)"
    by (simp add: sum_product)
  finally show ?thesis using v [of a] v [of b] assms by simp
qed

lemma fold_loop:
  assumes "length t = 31" "bounded (2 ^ 48) t" "n \<le> 15"
  shows "foldM fold_step [0..<n] t =
    Some (map (\<lambda>i. t ! i + 38 * t ! (i + 16)) [0..<n] @ drop n t)"
  using assms(3)
proof (induction n)
  case (Suc n)
  let ?p = "map (\<lambda>i. t ! i + 38 * t ! (i + 16)) [0..<n]" and ?e = "t ! n + 38 * t ! (n + 16)"
  have d: "drop n t = t ! n # drop (Suc n) t" using Suc.prems assms(1) by (simp add: Cons_nth_drop_Suc)
  have n: "(?p @ drop n t) ! n = t ! n" "(?p @ drop n t) ! (n + 16) = t ! (n + 16)"
    "(?p @ drop n t)[n := v] = ?p @ v # drop (Suc n) t" for v
    using Suc.prems assms(1) by (simp_all add: nth_append list_update_append d add.commute)
  have "in_i64 (38 * t ! (n + 16))" "in_i64 ?e"
    using bounded_nth [OF assms(2), of n] bounded_nth [OF assms(2), of "n + 16"] Suc.prems assms(1)
    by (simp_all add: in_i64_def abs_le_iff)
  then have "fold_step n (?p @ drop n t) = Some (?p @ ?e # drop (Suc n) t)"
    by (simp only: fold_step_def n Let_def i64s_def) simp
  then show ?case using Suc by (simp add: foldM_append)
qed simp

lemma gval_scale: "gval (map ((*) c) xs) = c * gval xs"
  by (induction xs) (simp_all add: algebra_simps)

lemma fold_loop_value:
  assumes "length t = 31"
  shows "gval (map (\<lambda>i. t ! i + 38 * t ! (i + 16)) [0..<15] @ [t ! 15]) mod p25519 = gval t mod p25519"
proof -
  have 1: "t = take 15 t @ t ! 15 # drop (Suc 15) t" by (rule id_take_nth_drop) (use assms in simp)
  define lo hi where "lo = take 15 t" and "hi = map (\<lambda>x. 38 * x) (drop 16 t)"
  have l: "length lo = 15" "length hi = 15" using assms by (simp_all add: lo_def hi_def)
  have e: "map (\<lambda>i. t ! i + 38 * t ! (i + 16)) [0..<15] = map (\<lambda>i. lo ! i + hi ! i) [0..<15]"
    using assms by (simp add: lo_def hi_def add.commute)
  have "gval hi = 38 * gval (drop 16 t)"
    unfolding hi_def by (rule gval_scale)
  then have "gval (map (\<lambda>i. t ! i + 38 * t ! (i + 16)) [0..<15] @ [t ! 15]) =
      (gval lo + 65536 ^ 15 * t ! 15) + 38 * gval (drop 16 t)"
    unfolding e using gval_map2(1) [OF l] by (simp add: gval_append)
  moreover have "gval t = (gval lo + 65536 ^ 15 * t ! 15) + 2 ^ 256 * gval (drop 16 t)"
    using assms by (subst 1) (simp add: gval_append lo_def)
  ultimately show ?thesis by (simp only: fold_mod_p)
qed

lemma M_gf_elem:
  assumes "gf_elem (2 ^ 20) a x" "gf_elem (2 ^ 20) b y"
  shows "\<exists>r. M_gf a b = Some r \<and> gf_elem (2 ^ 17) r (x * y)"
proof -
  have ab: "length a = 16" "length b = 16" "bounded (2 ^ 20) a" "bounded (2 ^ 20) b"
    using assms by (simp_all add: gf_elem_def)
  have "bounded (0 * 2 ^ 40) (replicate 31 0)" by (simp add: bounded_def)
  then obtain t where t: "foldM (mul_step a b) (List.product [0..<16] [0..<16]) (replicate 31 0) = Some t"
    "length t = 31" "bounded (256 * 2 ^ 40) t"
    "gval t = gval (replicate 31 0) + (\<Sum>(i, j)\<leftarrow>List.product [0..<16] [0..<16]. a ! i * b ! j * 65536 ^ (i + j))"
    using mul_loop [OF ab, of "List.product [0..<16] [0..<16]" "replicate 31 0" 0]
    by (auto simp: atLeast0LessThan)
  define u where "u = map (\<lambda>i. t ! i + 38 * t ! (i + 16)) [0..<15] @ [t ! 15]"
  have tb: "bounded (2 ^ 48) t" using t(3) by simp
  have "gval (replicate n 0) = 0" for n by (induction n) simp_all
  then have tv: "gval t = gval a * gval b" using t(4) product_sum [OF ab(1,2)] by simp
  have f: "foldM fold_step [0..<15] t = Some (u @ drop 16 t)"
    using fold_loop [OF t(2) tb, of 15] t(2) by (simp add: u_def Cons_nth_drop_Suc [of 15 t, simplified])
  have u: "length u = 16" "gval u mod p25519 = gval t mod p25519"
    using fold_loop_value [OF t(2)] by (simp_all add: u_def)
  have "\<bar>t ! i + 38 * t ! (i + 16)\<bar> \<le> 2 ^ 55" if "i < 15" for i
    using bounded_nth [OF tb, of i] bounded_nth [OF tb, of "i + 16"] that t(2) by (simp add: abs_le_iff)
  then have ub: "bounded (2 ^ 55) u"
    using bounded_nth [OF tb, of 15] t(2) by (simp add: u_def bounded_def)
  obtain y' v where c: "car25519 u = Some y'" "car25519 y' = Some (carried v)"
    "gval (carried v) mod p25519 = gval u mod p25519" "\<bar>v div 2 ^ 256\<bar> \<le> 1"
    using car_twice [OF u(1) ub] by blast
  have "bounded (2 ^ 17) (carried v)" by (rule carried_bound [OF c(4)]) simp
  moreover have "gval (carried v) mod p25519 = (x * y) mod p25519"
    using c(3) u(2) tv assms by (simp add: gf_elem_def) (metis mod_mult_cong)
  moreover have "M_gf a b = Some (carried v)"
    using t(1) f c(1,2) u(1) by (simp add: M_gf_def)
  ultimately show ?thesis by (simp add: gf_elem_def)
qed

lemma S_gf_elem: "gf_elem (2 ^ 20) a x \<Longrightarrow> \<exists>r. S_gf a = Some r \<and> gf_elem (2 ^ 17) r (x * x)"
  unfolding S_gf_def by (rule M_gf_elem)

section \<open>Selection\<close>

lemma sel_loop:
  fixes p q :: "int list"
  assumes "length p = length q" "n \<le> length p"
  shows "fold (\<lambda>i (p, q). let t = - 1 AND (p ! i XOR q ! i) in (p[i := p ! i XOR t], q[i := q ! i XOR t]))
      [0..<n] (p, q) = (take n q @ drop n p, take n p @ drop n q)"
  using assms(2)
proof (induction n)
  case (Suc n)
  have d: "drop n p = p ! n # drop (Suc n) p" "drop n q = q ! n # drop (Suc n) q"
    using Suc.prems assms(1) by (simp_all add: Cons_nth_drop_Suc)
  have x: "a XOR (a XOR b) = b" "b XOR (a XOR b) = a" for a b :: int
    by (simp_all add: xor.assoc [symmetric], metis xor.assoc xor.commute xor_self_eq xor.right_neutral)
  show ?case
    using Suc assms(1) by (simp add: nth_append list_update_append take_Suc_conv_app_nth d x Let_def)
qed simp

lemma sel25519_swap:
  assumes "length p = 16" "length q = 16" "b = 0 \<or> b = 1"
  shows "sel25519 p q b = (if b = 1 then (q, p) else (p, q))"
proof (cases "b = 1")
  case True
  then show ?thesis using sel_loop [of p q 16] assms by (simp add: sel25519_def)
next
  case False
  then have b: "b = 0" using assms(3) by simp
  have "fold (\<lambda>i (p, q). let t = 0 AND (p ! i XOR q ! i) in (p[i := p ! i XOR t], q[i := q ! i XOR t]))
      is (p, q) = (p, q)" for "is" and p q :: "int list"
    by (induction "is" arbitrary: p q) simp_all
  then show ?thesis using b by (simp add: sel25519_def)
qed

section \<open>Packing\<close>

text \<open>A full carry from limbs just outside 16 bits leaves digits.\<close>

lemma digits_periodic: "digits n (v + k * 65536 ^ n) = digits n v"
  by (metis digits_mod mod_mult_self1)

lemma digits_add_low:
  assumes "0 \<le> v mod 65536 + d" "v mod 65536 + d < 65536"
  shows "(digits (Suc n) v)[0 := v mod 65536 + d] = digits (Suc n) (v + d)"
proof -
  define r q where "r = v mod 65536 + d" and "q = v div 65536"
  have e: "v + d = r + 65536 * q" by (simp add: r_def q_def)
  have "(v + d) mod 65536 = r" "(v + d) div 65536 = q"
    using assms unfolding e by (simp_all flip: r_def)
  then show ?thesis by (simp add: r_def q_def)
qed

lemma carried_low:
  assumes "0 \<le> v mod 65536 + 38 * (v div 2 ^ 256)" "v mod 65536 + 38 * (v div 2 ^ 256) < 65536"
  shows "carried v = digits 16 (v + 38 * (v div 2 ^ 256))"
proof -
  have "digits 16 u ! 0 = u mod 65536" for u using digits.simps(2) [of 15 u] by simp
  then show ?thesis using digits_add_low [OF assms, of 15] by (simp add: carried_def)
qed

lemma carried_digits:
  assumes "- 38 \<le> v" "v < 2 ^ 256 + 38"
  shows "\<exists>w. carried v = digits 16 w \<and> 0 \<le> w \<and> w < 2 ^ 256 \<and> w mod p25519 = v mod p25519"
proof -
  let ?w = "v mod 2 ^ 256 + 38 * (v div 2 ^ 256)"
  have c: "v < 0 \<and> v div 2 ^ 256 = - 1 \<and> v mod 2 ^ 256 = v + 2 ^ 256 \<and> v mod 65536 = v + 65536 \<or>
      0 \<le> v \<and> v < 2 ^ 256 \<and> v div 2 ^ 256 = 0 \<and> v mod 2 ^ 256 = v \<or>
      2 ^ 256 \<le> v \<and> v div 2 ^ 256 = 1 \<and> v mod 2 ^ 256 = v - 2 ^ 256 \<and> v mod 65536 = v - 2 ^ 256"
  proof -
    consider "v < 0" | "0 \<le> v" "v < 2 ^ 256" | "2 ^ 256 \<le> v" by linarith
    then show ?thesis
    proof cases
      case 1
      have "v div 2 ^ 256 = - 1" by (rule int_div_pos_eq [of _ _ _ "v + 2 ^ 256"]) (use 1 assms in simp_all)
      moreover have "v mod 2 ^ 256 = v + 2 ^ 256" by (rule int_mod_pos_eq [of _ _ "- 1"]) (use 1 assms in simp_all)
      moreover have "v mod 65536 = v + 65536" by (rule int_mod_pos_eq [of _ _ "- 1"]) (use 1 assms in simp_all)
      ultimately show ?thesis using 1 by simp
    next
      case 2
      then show ?thesis by simp
    next
      case 3
      have "v div 2 ^ 256 = 1" by (rule int_div_pos_eq [of _ _ _ "v - 2 ^ 256"]) (use 3 assms in simp_all)
      moreover have "v mod 2 ^ 256 = v - 2 ^ 256" by (rule int_mod_pos_eq [of _ _ 1]) (use 3 assms in simp_all)
      moreover have "v mod 65536 = v - 2 ^ 256" by (rule int_mod_pos_eq [of _ _ "2 ^ 240"]) (use 3 assms in simp_all)
      ultimately show ?thesis using 3 by simp
    qed
  qed
  have "0 \<le> v mod 65536 + 38 * (v div 2 ^ 256) \<and> v mod 65536 + 38 * (v div 2 ^ 256) < 65536"
    using c assms by auto
  then have "carried v = digits 16 (v + 38 * (v div 2 ^ 256))" by (intro carried_low) simp_all
  also have "v + 38 * (v div 2 ^ 256) = ?w + (v div 2 ^ 256) * 2 ^ 256" by simp
  also have "digits 16 (?w + (v div 2 ^ 256) * 2 ^ 256) = digits 16 ?w"
    using digits_periodic [of 16 ?w "v div 2 ^ 256"] by simp
  finally have "carried v = digits 16 ?w" .
  moreover have "0 \<le> ?w \<and> ?w < 2 ^ 256" using c assms by auto
  moreover have "?w mod p25519 = v mod p25519" using gval_carried_mod [of v] by (simp add: gval_carried)
  ultimately show ?thesis by blast
qed

text \<open>The trial subtraction of \<open>p25519\<close>, limb by limb with a borrow.\<close>

definition p_limbs :: gf where
  "p_limbs = 0xffed # replicate 14 0xffff @ [0x7fff]"

definition borrow_state :: "gf \<Rightarrow> nat \<Rightarrow> gf" where
  "borrow_state x k = digits k (gval x) @ (x ! k + gval (take k x) div 65536 ^ k) # replicate (15 - k) 0"

definition reduced :: "int list \<Rightarrow> bool" where
  "reduced t \<longleftrightarrow> (\<forall>y\<in>set t. 0 \<le> y \<and> y < 65536)"

lemma gval_reduced: "reduced t \<Longrightarrow> 0 \<le> gval t \<and> gval t < 65536 ^ length t"
proof (induction t)
  case (Cons a t)
  then have "0 \<le> a" "a < 65536" "0 \<le> gval t" "gval t < 65536 ^ length t" by (simp_all add: reduced_def)
  then show ?case by simp
qed simp

lemma reduced_take: "reduced t \<Longrightarrow> reduced (take k t)"
  by (auto simp: reduced_def dest: in_set_takeD)

lemma reduced_digits: "reduced (digits n v)"
  by (simp add: reduced_def set_digits)

lemma reduced_nth: "reduced t \<Longrightarrow> i < length t \<Longrightarrow> 0 \<le> t ! i \<and> t ! i < 65536"
  by (simp add: reduced_def)

lemma p_limbs_facts: "length p_limbs = 16" "reduced p_limbs" "gval p_limbs = p25519"
  "p_limbs ! 0 = 0xffed" "0 < i \<Longrightarrow> i < 15 \<Longrightarrow> p_limbs ! i = 0xffff" "p_limbs ! 15 = 0x7fff"
proof -
  show "gval p_limbs = p25519" by (simp add: p_limbs_def p25519_def eval_nat_numeral)
  show "0 < i \<Longrightarrow> i < 15 \<Longrightarrow> p_limbs ! i = 0xffff"
    by (simp add: p_limbs_def nth_Cons nth_append split: nat.splits)
qed (auto simp: p_limbs_def reduced_def nth_append)

lemma borrow_bit:
  assumes "- 65536 \<le> x" "x < (65536 :: int)"
  shows "drop_bit 16 x AND 1 = - (x div 65536)" "x div 65536 = (if x < 0 then - 1 else 0)"
proof -
  show d: "x div 65536 = (if x < 0 then - 1 else 0)"
    using assms int_div_pos_eq [of x 65536 "- 1" "x + 65536"] by simp
  show "drop_bit 16 x AND 1 = - (x div 65536)" by (simp add: d)
qed

lemma sub_carry:
  assumes "length t = n" "length q = n" "reduced t" "reduced q"
  shows "gval (map (\<lambda>i. t ! i - q ! i) [0..<n]) div 65536 ^ n = (if gval t < gval q then - 1 else 0)"
proof -
  have v: "gval (map (\<lambda>i. t ! i - q ! i) [0..<n]) = gval t - gval q" by (rule gval_map2) fact+
  have b: "0 \<le> gval t" "gval t < 65536 ^ n" "0 \<le> gval q" "gval q < 65536 ^ n"
    using gval_reduced [OF assms(3)] gval_reduced [OF assms(4)] assms(1,2) by simp_all
  then show ?thesis
    unfolding v using int_div_pos_eq [of "gval t - gval q" "65536 ^ n" "- 1" "gval t - gval q + 65536 ^ n"]
    by simp
qed

text \<open>\<open>diff t\<close> are the limb differences; the borrow into limb \<open>k\<close> is the floor of their
  value below it.\<close>

definition diff_p :: "gf \<Rightarrow> gf" where
  "diff_p t = map (\<lambda>i. t ! i - p_limbs ! i) [0..<16]"

lemma diff_p_carry:
  assumes "length t = 16" "reduced t" "k \<le> 16"
  shows "gval (take k (diff_p t)) div 65536 ^ k \<in> {- 1, 0}"
proof -
  have "take k (diff_p t) = map (\<lambda>i. take k t ! i - take k p_limbs ! i) [0..<k]"
    using assms(3) by (simp add: diff_p_def take_map)
  then show ?thesis
    using sub_carry [of "take k t" k "take k p_limbs"] assms p_limbs_facts(1,2)
    by (simp add: reduced_take)
qed

lemma diff_p_limb:
  assumes "length t = 16" "reduced t" "k < 16"
  defines "a \<equiv> diff_p t ! k + gval (take k (diff_p t)) div 65536 ^ k"
  shows "- 65536 \<le> a" "a < 65536"
  using diff_p_carry [OF assms(1,2), of k] reduced_nth [OF assms(2), of k]
    reduced_nth [OF p_limbs_facts(2), of k] assms p_limbs_facts(1)
  by (auto simp: diff_p_def)

lemma and_ffff: "x AND 0xffff = x mod (65536 :: int)"
proof -
  have "x AND 0xffff = take_bit 16 x" by (simp add: take_bit_eq_mask mask_eq_exp_minus_1)
  then show ?thesis by (simp add: take_bit_eq_mod)
qed

lemma sub_step_state:
  assumes "length t = 16" "reduced t" "Suc k < 15"
  shows "sub_step t (Suc k) (borrow_state (diff_p t) k) = borrow_state (diff_p t) (Suc k)"
proof -
  let ?x = "diff_p t"
  let ?a = "?x ! k + gval (take k ?x) div 65536 ^ k"
  have l: "length ?x = 16" by (simp add: diff_p_def)
  have r: "replicate (15 - k) (0 :: int) = 0 # replicate (15 - Suc k) 0"
    using assms(3) by (simp add: Suc_diff_Suc flip: replicate_Suc)
  have "?a div 65536 = gval (take (Suc k) ?x) div 65536 ^ Suc k"
    and m: "?a mod 65536 = gval ?x div 65536 ^ k mod 65536"
    using car_limb [of k ?x] l assms(3) by simp_all
  then have b: "drop_bit 16 ?a AND 1 = - (gval (take (Suc k) ?x) div 65536 ^ Suc k)"
    using borrow_bit(1) [of ?a] diff_p_limb [OF assms(1,2), of k] assms(3) by simp
  have xk: "t ! Suc k - 0xffff = ?x ! Suc k"
    using assms(3) p_limbs_facts(5) [of "Suc k"] by (simp add: diff_p_def)
  have n: "borrow_state ?x k ! k = ?a" by (simp add: borrow_state_def nth_append)
  have "sub_step t (Suc k) (borrow_state ?x k) =
      (borrow_state ?x k)[Suc k := ?x ! Suc k + gval (take (Suc k) ?x) div 65536 ^ Suc k, k := ?a mod 65536]"
    unfolding sub_step_def Let_def diff_Suc_1 n b xk [symmetric] by (simp add: n and_ffff)
  also have "\<dots> = borrow_state ?x (Suc k)"
    unfolding borrow_state_def r m digits_Suc by (simp add: list_update_append del: digits.simps power_Suc)
  finally show ?thesis .
qed

lemma sub_loop:
  assumes "length t = 16" "reduced t" "k < 15"
  shows "fold (sub_step t) [1..<Suc k] ((replicate 16 0)[0 := t ! 0 - 0xffed]) = borrow_state (diff_p t) k"
  using assms(3)
proof (induction k)
  case 0
  show ?case using p_limbs_facts(4) by (simp add: borrow_state_def diff_p_def eval_nat_numeral)
next
  case (Suc k)
  have "[1..<Suc (Suc k)] = [1..<Suc k] @ [Suc k]" by simp
  then show ?case using Suc sub_step_state [OF assms(1,2), of k] by simp
qed

lemma car_limb_at:
  assumes "length x = 16"
  shows "(x ! 14 + gval (take 14 x) div 65536 ^ 14) div 65536 = gval (take 15 x) div 65536 ^ 15"
    "(x ! 14 + gval (take 14 x) div 65536 ^ 14) mod 65536 = gval x div 65536 ^ 14 mod 65536"
    "(x ! 15 + gval (take 15 x) div 65536 ^ 15) div 65536 = gval x div 65536 ^ 16"
    "(x ! 15 + gval (take 15 x) div 65536 ^ 15) mod 65536 = gval x div 65536 ^ 15 mod 65536"
proof -
  have s: "Suc 14 = 15" "Suc 15 = 16" "take 16 x = x" using assms by simp_all
  show "(x ! 14 + gval (take 14 x) div 65536 ^ 14) div 65536 = gval (take 15 x) div 65536 ^ 15"
    "(x ! 15 + gval (take 15 x) div 65536 ^ 15) div 65536 = gval x div 65536 ^ 16"
    using car_limb(1) [of 14 x] car_limb(1) [of 15 x] assms by (simp_all only: s)
  show "(x ! 14 + gval (take 14 x) div 65536 ^ 14) mod 65536 = gval x div 65536 ^ 14 mod 65536"
    "(x ! 15 + gval (take 15 x) div 65536 ^ 15) mod 65536 = gval x div 65536 ^ 15 mod 65536"
    by (rule car_limb(2), simp add: assms)+
qed

lemma pack_step_value:
  assumes "length t = 16" "reduced t"
  shows "pack_step t = digits 16 (if p25519 \<le> gval t then gval t - p25519 else gval t)"
proof -
  define x where "x = diff_p t"
  define a where "a = x ! 14 + gval (take 14 x) div 65536 ^ 14"
  define c where "c = x ! 15 + gval (take 15 x) div 65536 ^ 15"
  have l: "length x = 16" by (simp add: x_def diff_p_def)
  note cl = car_limb_at [OF l, folded a_def c_def]
  have v: "gval x = gval t - p25519"
    using gval_map2(2) [of t 16 p_limbs] assms(1) p_limbs_facts(1,3) by (simp add: x_def diff_p_def)
  have ab: "- 65536 \<le> a" "a < 65536" "- 65536 \<le> c" "c < 65536"
    using diff_p_limb [OF assms, of 14] diff_p_limb [OF assms, of 15] by (simp_all add: a_def c_def x_def)
  have lp: "fold (sub_step t) [1..<15] ((replicate 16 0)[0 := t ! 0 - 0xffed]) = digits 14 (gval x) @ [a, 0]"
    using sub_loop [OF assms, of 14] by (simp add: borrow_state_def x_def a_def del: digits.simps)
  have "t ! 15 - 0x7fff - (drop_bit 16 a AND 1) = c"
    using p_limbs_facts(6) borrow_bit(1) [OF ab(1,2)] cl(1) by (simp add: c_def x_def diff_p_def)
  moreover have "drop_bit 16 c AND 1 = (if gval t < p25519 then 1 else 0)"
    using borrow_bit(1) [OF ab(3,4)] cl(3) sub_carry [OF assms(1) p_limbs_facts(1) assms(2) p_limbs_facts(2)]
    by (simp add: x_def diff_p_def p_limbs_facts(3))
  moreover have "a AND 0xffff = gval x div 65536 ^ 14 mod 65536" using cl(2) by (simp add: and_ffff)
  moreover have "(d @ [a, 0]) ! 14 = a" "(d @ [a, 0])[15 := u] = d @ [a, u]" "(d @ [a, u]) ! 15 = u"
    "(d @ [a, u]) ! 14 = a" "(d @ [a, u])[14 := w] = d @ [w, u]" if "length d = 14" for d :: gf and u w
    using that by (simp_all add: nth_append list_update_append)
  moreover have "digits 15 (gval x) = digits 14 (gval x) @ [gval x div 65536 ^ 14 mod 65536]"
    using digits_Suc [of 14 "gval x"] by (simp del: digits.simps)
  ultimately have ps: "pack_step t =
      fst (sel25519 t (digits 15 (gval x) @ [c]) (1 - (if gval t < p25519 then 1 else 0)))"
    unfolding pack_step_def Let_def lp by simp
  show ?thesis
  proof (cases "gval t < p25519")
    case True
    moreover have "digits 16 (gval t) = t"
      using digits_gval [of t] assms by (simp add: reduced_def)
    ultimately show ?thesis using ps assms(1) by (simp add: sel25519_swap)
  next
    case False
    then have "c div 65536 = 0"
      using cl(3) sub_carry [OF assms(1) p_limbs_facts(1) assms(2) p_limbs_facts(2)]
      by (simp add: x_def diff_p_def p_limbs_facts(3))
    then have "c = gval x div 65536 ^ 15 mod 65536" using cl(4) div_mult_mod_eq [of c 65536] by simp
    then have "digits 15 (gval x) @ [c] = digits 16 (gval x)"
      using digits_Suc [of 15 "gval x"] by (simp del: digits.simps)
    then show ?thesis using ps False assms(1) v by (simp add: sel25519_swap)
  qed
qed

text \<open>The packed bytes are the canonical residue, little-endian.\<close>

lemma gval_digits_reduced: "0 \<le> v \<Longrightarrow> v < 2 ^ 256 \<Longrightarrow> gval (digits 16 v) = v"
  by (simp add: gval_digits)

lemma bytes_of_digits:
  "concat (map (\<lambda>d. [of_int (d AND 0xff), of_int (drop_bit 8 d)]) (digits n v)) = le_bytes (2 * n) (nat v)"
  if "0 \<le> v"
  using that
proof (induction n v rule: digits.induct)
  case (2 n v)
  have w: "(of_int (x mod 256) :: u8) = of_int x" for x
    by transfer (simp add: take_bit_eq_mod)
  have "v mod 65536 AND 255 = take_bit 8 (v mod 65536)" by (simp add: take_bit_eq_mask mask_eq_exp_minus_1)
  also have "\<dots> = v mod 256" by (simp add: take_bit_eq_mod mod_mod_cancel)
  finally have b: "(of_int (v mod 65536 AND 255) :: u8) = of_nat (nat v)"
    using w [of v] 2 by simp
  have "drop_bit 8 (v mod 65536) = v div 256 mod 256"
    using zmod_zmult2_eq [of 256 v 256] by (simp add: drop_bit_int_def)
  then have c: "(of_int (drop_bit 8 (v mod 65536)) :: u8) = of_nat (nat v div 256)"
    using w [of "v div 256"] 2 by (simp add: nat_div_distrib flip: of_nat_nat)
  have "nat (v div 65536) = nat v div 256 div 256" using 2 by (simp add: nat_div_distrib div_mult2_eq [symmetric])
  then show ?case using 2 b c by simp
qed simp

lemma third_carry:
  fixes m q :: int
  assumes "0 \<le> m" "m < 2 ^ 256" "\<bar>q\<bar> \<le> 1"
  shows "- 38 \<le> m + 38 * q" "m + 38 * q < 2 ^ 256 + 38"
  using assms by (simp_all add: abs_le_iff)

theorem pack25519_value:
  assumes "gf_elem B a x" "2 \<le> B" "B \<le> 2 ^ 55"
  shows "pack25519 a = Some (le_bytes 32 (nat (x mod p25519)))"
proof -
  have a: "length a = 16" "bounded (2 ^ 55) a" "gval a mod p25519 = x mod p25519"
    using elem_mono [OF assms(1,3)] by (simp_all add: gf_elem_def)
  have st: "set25519 a = a" using a(1) by (simp add: set25519_def list_eq_iff_nth_eq)
  obtain y v where c: "car25519 a = Some y" "car25519 y = Some (carried v)"
    "gval (carried v) mod p25519 = gval a mod p25519" "\<bar>v div 2 ^ 256\<bar> \<le> 1"
    using car_twice [OF a(1,2)] by blast
  define u where "u = gval (carried v)"
  have "bounded (2 ^ 17) (carried v)" by (rule carried_bound [OF c(4)]) simp
  then have c3: "car25519 (carried v) = Some (carried u)"
    using car25519_value [of "carried v" "2 ^ 17"] by (simp add: u_def carried_def)
  have "- 38 \<le> u" "u < 2 ^ 256 + 38"
    using third_carry [of "v mod 2 ^ 256" "v div 2 ^ 256"] c(4) by (simp_all add: u_def gval_carried)
  then obtain w where w: "carried u = digits 16 w" "0 \<le> w" "w < 2 ^ 256" "w mod p25519 = u mod p25519"
    using carried_digits by blast
  define w1 where "w1 = (if p25519 \<le> w then w - p25519 else w)"
  define w2 where "w2 = (if p25519 \<le> w1 then w1 - p25519 else w1)"
  have w1: "0 \<le> w1" "w1 < 2 ^ 256" using w by (auto simp: w1_def p25519_def)
  have p1: "pack_step (digits 16 w) = digits 16 w1"
    using pack_step_value [of "digits 16 w"] w by (simp add: reduced_digits gval_digits_reduced w1_def)
  have p2: "pack_step (digits 16 w1) = digits 16 w2"
    using pack_step_value [of "digits 16 w1"] w1 by (simp add: reduced_digits gval_digits_reduced w2_def)
  have w2: "0 \<le> w2" "w2 < p25519" using w by (auto simp: w1_def w2_def p25519_def)
  have "w2 mod p25519 = w mod p25519" by (auto simp: w1_def w2_def)
  then have wx: "w2 = x mod p25519" using w2 w(4) c(3) a(3) by (simp add: u_def)
  have "map (\<lambda>i. [of_int (digits 16 w2 ! i AND 0xff), of_int (drop_bit 8 (digits 16 w2 ! i))]) [0..<16] =
      (map (\<lambda>d. [of_int (d AND 0xff), of_int (drop_bit 8 d)]) (digits 16 w2) :: u8 list list)"
    by (simp add: list_eq_iff_nth_eq)
  then have "concat (map (\<lambda>i. [of_int (digits 16 w2 ! i AND 0xff), of_int (drop_bit 8 (digits 16 w2 ! i))]) [0..<16]) =
      (le_bytes 32 (nat w2) :: u8 list)"
    using bytes_of_digits [OF w2(1), of 16] by (simp only:) simp
  then show ?thesis
    using st c(1,2) c3 w(1) p1 p2 wx by (simp add: pack25519_def)
qed

section \<open>Powers\<close>

text \<open>Square and multiply: \<open>skip\<close> are the positions whose exponent bit is zero.\<close>

definition power_loop :: "(nat \<Rightarrow> bool) \<Rightarrow> gf \<Rightarrow> nat list \<Rightarrow> gf \<Rightarrow> gf option" where
  "power_loop skip i = foldM (\<lambda>a c. do {
       c \<leftarrow> S_gf c;
       if \<not> skip a then M_gf c i else Some c
     })"

definition exponent :: "(nat \<Rightarrow> bool) \<Rightarrow> nat list \<Rightarrow> nat \<Rightarrow> nat" where
  "exponent skip as e = fold (\<lambda>a e. 2 * e + (if skip a then 0 else 1)) as e"

lemma power_loop_elem:
  assumes "gf_elem (2 ^ 20) i x" "gf_elem (2 ^ 20) c (x ^ e)"
  shows "\<exists>r. power_loop skip i as c = Some r \<and> gf_elem (2 ^ 20) r (x ^ exponent skip as e)"
  using assms(2)
proof (induction "as" arbitrary: c e)
  case Nil
  then show ?case by (simp add: power_loop_def exponent_def)
next
  case (Cons a "as")
  obtain s where s: "S_gf c = Some s" "gf_elem (2 ^ 17) s (x ^ e * x ^ e)" using S_gf_elem [OF Cons.prems] by blast
  have sq: "gf_elem (2 ^ 20) s (x ^ (2 * e))"
    using elem_mono [OF s(2), of "2 ^ 20"] by (simp add: mult_2 power_add)
  show ?case
  proof (cases "skip a")
    case True
    then show ?thesis using Cons.IH [OF sq] s(1) by (simp add: power_loop_def exponent_def)
  next
    case False
    obtain r where r: "M_gf s i = Some r" "gf_elem (2 ^ 17) r (x ^ (2 * e) * x)"
      using M_gf_elem [OF sq assms(1)] by blast
    have "gf_elem (2 ^ 20) r (x ^ (2 * e + 1))" using elem_mono [OF r(2), of "2 ^ 20"] by (simp add: mult.commute)
    then show ?thesis using Cons.IH [of r "2 * e + 1"] False s(1) r(1) by (simp add: power_loop_def exponent_def)
  qed
qed

lemma set25519_id: "length a = 16 \<Longrightarrow> set25519 a = a"
  by (simp add: set25519_def list_eq_iff_nth_eq)

lemma exponent_run: "(\<And>a. a \<in> set as \<Longrightarrow> \<not> skip a) \<Longrightarrow> exponent skip as e + 1 = (e + 1) * 2 ^ length as"
proof (induction "as" arbitrary: e)
  case (Cons a "as")
  then show ?case using Cons.IH [of "2 * e + 1"] by (simp add: exponent_def)
qed (simp add: exponent_def)

lemma exponent_append: "exponent skip (as @ bs) e = exponent skip bs (exponent skip as e)"
  by (simp add: exponent_def)

lemma exponent_upt:
  assumes "\<And>a. k \<le> a \<Longrightarrow> \<not> skip a" "k \<le> n"
  shows "exponent skip (rev [0..<n]) e = exponent skip (rev [0..<k]) ((e + 1) * 2 ^ (n - k) - 1)"
proof -
  have "rev [0..<n] = rev [k..<n] @ rev [0..<k]"
    using assms(2) upt_add_eq_append [of 0 k "n - k"] by simp
  moreover have "exponent skip (rev [k..<n]) e + 1 = (e + 1) * 2 ^ (n - k)"
    using exponent_run [of "rev [k..<n]" skip e] assms by simp
  then have "exponent skip (rev [k..<n]) e = (e + 1) * 2 ^ (n - k) - 1" by linarith
  ultimately show ?thesis by (simp add: exponent_append)
qed

lemma inv_exponent: "exponent (\<lambda>a. a = 2 \<or> a = 4) (rev [0..<254]) 1 = nat (p25519 - 2)"
proof -
  have r: "rev [0..<5] = [4, 3, 2, 1, 0 :: nat]" by (simp add: upt_rec)
  have "exponent (\<lambda>a. a = 2 \<or> a = 4) (rev [0..<254]) 1 =
      exponent (\<lambda>a. a = 2 \<or> a = 4) (rev [0..<5]) ((1 + 1) * 2 ^ (254 - 5) - 1)"
    by (rule exponent_upt) auto
  then show ?thesis unfolding r by (simp add: exponent_def p25519_def)
qed

lemma pow2523_exponent: "exponent (\<lambda>a. a = 1) (rev [0..<251]) 1 = nat ((p25519 - 5) div 8)"
proof -
  have r: "rev [0..<2] = [1, 0 :: nat]" by (simp add: upt_rec)
  have "exponent (\<lambda>a. a = 1) (rev [0..<251]) 1 = exponent (\<lambda>a. a = 1) (rev [0..<2]) ((1 + 1) * 2 ^ (251 - 2) - 1)"
    by (rule exponent_upt) auto
  then show ?thesis unfolding r by (simp add: exponent_def p25519_def)
qed

theorem inv25519_elem:
  assumes "gf_elem (2 ^ 20) i x"
  shows "\<exists>r. inv25519 i = Some r \<and> gf_elem (2 ^ 20) r (x ^ nat (p25519 - 2))"
proof -
  have l: "inv25519 i = power_loop (\<lambda>a. a = 2 \<or> a = 4) i (rev [0..<254]) i"
    using assms by (simp add: inv25519_def power_loop_def set25519_id gf_elem_def)
  have "gf_elem (2 ^ 20) i (x ^ 1)" using assms by simp
  from power_loop_elem [OF assms this, of "\<lambda>a. a = 2 \<or> a = 4" "rev [0..<254]"]
  show ?thesis unfolding l inv_exponent .
qed

theorem pow2523_elem:
  assumes "gf_elem (2 ^ 20) i x"
  shows "\<exists>r. pow2523 i = Some r \<and> gf_elem (2 ^ 20) r (x ^ nat ((p25519 - 5) div 8))"
proof -
  have l: "pow2523 i = power_loop (\<lambda>a. a = 1) i (rev [0..<251]) i"
    using assms by (simp add: pow2523_def power_loop_def set25519_id gf_elem_def)
  have "gf_elem (2 ^ 20) i (x ^ 1)" using assms by simp
  from power_loop_elem [OF assms this, of "\<lambda>a. a = 1" "rev [0..<251]"]
  show ?thesis unfolding l pow2523_exponent .
qed

section \<open>Unpacking and comparing\<close>

lemma unpack_limbs:
  "2 * k \<le> length n \<Longrightarrow>
   gval (map (\<lambda>i. uint (n ! (2 * i)) + push_bit 8 (uint (n ! (2 * i + 1)))) [0..<k]) = int (le_nat (take (2 * k) n))"
proof (induction k)
  case (Suc k)
  have "take (2 * Suc k) n = take (2 * k) n @ [n ! (2 * k), n ! (2 * k + 1)]"
    using Suc.prems by (simp add: take_Suc_conv_app_nth)
  moreover have "(256 :: int) ^ (2 * k) = 65536 ^ k" by (simp add: power_mult)
  moreover have "uint b = int (unat b)" for b :: u8 by simp
  ultimately show ?case
    using Suc by (simp add: gval_append le_nat_append push_bit_int_def algebra_simps)
qed simp

lemma split_mod:
  assumes "0 \<le> l" "l < (N :: int)" "0 < d"
  shows "(l + N * h) mod (N * d) = l + N * (h mod d)"
  using zmod_zmult2_eq [of d "l + N * h" N] assms by simp

theorem unpack25519_elem:
  assumes "length n = 32"
  shows "gf_elem (2 ^ 17) (unpack25519 n) (int (le_nat n mod 2 ^ 255))"
proof -
  define x where "x = map (\<lambda>i. uint (n ! (2 * i)) + push_bit 8 (uint (n ! (2 * i + 1)))) [0..<16]"
  have b: "0 \<le> uint (c :: u8)" "uint c < 256" for c using uint_lt2p [of c] by simp_all
  have "0 \<le> x ! i \<and> x ! i < 65536" if "i < 16" for i
    using b [of "n ! (2 * i)"] b [of "n ! (2 * i + 1)"] that by (simp add: x_def push_bit_int_def)
  then have r: "reduced x" by (auto simp: reduced_def in_set_conv_nth x_def)
  have v: "gval x = int (le_nat n)" using unpack_limbs [of 16 n] assms by (simp add: x_def)
  define lo where "lo = take 15 x"
  have l: "length lo = 15" "length x = 16" by (simp_all add: lo_def x_def)
  have sp: "x = lo @ [x ! 15]" using id_take_nth_drop [of 15 x] l by (simp add: lo_def)
  have m: "z AND 0x7fff = z mod 32768" for z :: int
  proof -
    have "z AND 0x7fff = take_bit 15 z" by (simp add: take_bit_eq_mask mask_eq_exp_minus_1)
    then show ?thesis by (simp add: take_bit_eq_mod)
  qed
  have y: "unpack25519 n = lo @ [x ! 15 mod 32768]"
    unfolding unpack25519_def Let_def x_def [symmetric] m using l by (subst sp) (simp add: list_update_append)
  have "reduced lo" using r by (simp add: lo_def reduced_take)
  then have lb: "0 \<le> gval lo" "gval lo < 65536 ^ 15" using gval_reduced [of lo] l by simp_all
  have "int (le_nat n) = gval lo + 65536 ^ 15 * x ! 15" using v sp l by (metis gval.simps gval_append mult_zero_right add_0_right)
  then have "gval (unpack25519 n) = int (le_nat n) mod 2 ^ 255"
    using split_mod [OF lb, of 32768 "x ! 15"] l by (simp add: y gval_append)
  moreover have "bounded (2 ^ 17) (unpack25519 n)"
    using \<open>reduced lo\<close> by (force simp: y bounded_def reduced_def abs_le_iff)
  ultimately show ?thesis using l by (simp add: gf_elem_def zmod_int) (simp add: y)
qed

theorem neq25519_iff:
  assumes "gf_elem (2 ^ 20) a x" "gf_elem (2 ^ 20) b y"
  shows "neq25519 a b = Some (if x mod p25519 = y mod p25519 then 0 else - 1)"
proof -
  have p: "0 \<le> z mod p25519" "z mod p25519 < 2 ^ 256" for z
    using pos_mod_bound [of p25519 z] by (simp_all add: p25519_def)
  have "le_nat (le_bytes 32 (nat (z mod p25519))) = nat (z mod p25519)" for z
    using p [of z] by (simp add: le_nat_le_bytes nat_less_iff)
  then have "le_bytes 32 (nat (x mod p25519)) = le_bytes 32 (nat (y mod p25519)) \<longleftrightarrow> x mod p25519 = y mod p25519"
    using p by (metis eq_nat_nat_iff)
  then show ?thesis
    using pack25519_value [OF assms(1)] pack25519_value [OF assms(2)]
    by (simp add: neq25519_def crypto_verify_32_def vn_iff)
qed

end
