(* ===== verification/Nacl_Stream.thy ===== *)
theory Nacl_Stream
  imports Nacl_Words
begin

text \<open>
  Crypto/src/tweetnacl.c, the Salsa20 core and the stream cipher: \<open>core\<close>, the two wrappers
  \<open>crypto_core_salsa20\<close> and \<open>crypto_core_hsalsa20\<close>, and the stream functions over them.
  The reference is the published definition of Salsa20: quarter rounds on 32-bit words, ten double
  rounds, the feed-forward, and a keystream of blocks numbered by a 64-bit counter.
\<close>

section \<open>The core\<close>

definition core_load :: "u8 list \<Rightarrow> u8 list \<Rightarrow> u8 list \<Rightarrow> u32 list" where
  "core_load inp k c =
     fold (\<lambda>i x. x[5 * i := ld32 (drop (4 * i) c), 1 + i := ld32 (drop (4 * i) k),
                   6 + i := ld32 (drop (4 * i) inp), 11 + i := ld32 (drop (16 + 4 * i) k)])
       [0..<4] (replicate 16 0)"

definition core_round :: "u32 list \<Rightarrow> u32 list" where
  "core_round x =
     fold (\<lambda>j w.
       let t0 = x ! (5 * j mod 16); t1 = x ! ((5 * j + 4) mod 16);
           t2 = x ! ((5 * j + 8) mod 16); t3 = x ! ((5 * j + 12) mod 16);
           t1 = t1 XOR L32 (t0 + t3) 7;
           t2 = t2 XOR L32 (t1 + t0) 9;
           t3 = t3 XOR L32 (t2 + t1) 13;
           t0 = t0 XOR L32 (t3 + t2) 18
       in w[4 * j + j mod 4 := t0, 4 * j + (j + 1) mod 4 := t1,
            4 * j + (j + 2) mod 4 := t2, 4 * j + (j + 3) mod 4 := t3])
       [0..<4] (replicate 16 0)"

definition core :: "u8 list \<Rightarrow> u8 list \<Rightarrow> u8 list \<Rightarrow> bool \<Rightarrow> u8 list" where
  "core inp k c h =
     (let x = core_load inp k c; y = x;
          x = (core_round ^^ 20) x
      in if h
         then let x = map2 (+) x y;
                  x = fold (\<lambda>i x. x[5 * i := x ! (5 * i) - ld32 (drop (4 * i) c),
                                    6 + i := x ! (6 + i) - ld32 (drop (4 * i) inp)]) [0..<4] x
              in concat (map (\<lambda>i. st32 (x ! (5 * i))) [0..<4]) @
                 concat (map (\<lambda>i. st32 (x ! (6 + i))) [0..<4])
         else concat (map (\<lambda>i. st32 (x ! i + y ! i)) [0..<16]))"

definition crypto_core_salsa20 :: "u8 list \<Rightarrow> u8 list \<Rightarrow> u8 list \<Rightarrow> u8 list" where
  "crypto_core_salsa20 inp k c = core inp k c False"

definition crypto_core_hsalsa20 :: "u8 list \<Rightarrow> u8 list \<Rightarrow> u8 list \<Rightarrow> u8 list" where
  "crypto_core_hsalsa20 inp k c = core inp k c True"

definition sigma :: "u8 list" where
  "sigma = map of_char ''expand 32-byte k''"

section \<open>The stream\<close>

text \<open>The counter in \<open>z[8..15]\<close> is incremented byte by byte with the carry in \<open>u\<close>.\<close>

definition next_block :: "u8 list \<Rightarrow> u8 list" where
  "next_block z =
     snd (fold (\<lambda>i (u, z). let u = u + ucast (z ! i) in (drop_bit 8 u, z[i := ucast u]))
            [8..<16] (1 :: u32, z))"

definition m_byte :: "u8 list option \<Rightarrow> nat \<Rightarrow> u8" where
  "m_byte m i = (case m of None \<Rightarrow> 0 | Some m \<Rightarrow> m ! i)"

text \<open>The loop of \<open>crypto_stream_salsa20_xor\<close>: the bytes written through \<open>c\<close>.  The
  subtractions from \<open>b\<close> are guarded by \<open>b >= 64\<close> and never wrap, so the count is a
  natural number; \<open>m\<close> advances with \<open>c\<close>.\<close>

function salsa20_xor_loop :: "u8 list option \<Rightarrow> nat \<Rightarrow> u8 list \<Rightarrow> u8 list \<Rightarrow> u8 list" where
  "salsa20_xor_loop m b z k =
     (if 64 \<le> b
      then let x = crypto_core_salsa20 z k sigma
           in map (\<lambda>i. m_byte m i XOR x ! i) [0..<64] @
              salsa20_xor_loop (map_option (drop 64) m) (b - 64) (next_block z) k
      else if b \<noteq> 0
      then let x = crypto_core_salsa20 z k sigma
           in map (\<lambda>i. m_byte m i XOR x ! i) [0..<b]
      else [])"
  by pat_completeness auto
termination by (relation "measure (\<lambda>(m, b, z, k). b)") auto

declare salsa20_xor_loop.simps [simp del]

text \<open>The exported functions get the caller's buffers; a buffer shorter than what the code reads
  or writes is undefined behaviour.  They return 0 and the output buffer after the call.\<close>

definition crypto_stream_salsa20_xor ::
  "u8 list \<Rightarrow> u8 list option \<Rightarrow> u64 \<Rightarrow> u8 list \<Rightarrow> u8 list \<Rightarrow> (int \<times> u8 list) option" where
  "crypto_stream_salsa20_xor c m b n k =
     (if b = 0 then Some (0, c)
      else if length c < unat b \<or> (case m of None \<Rightarrow> False | Some m \<Rightarrow> length m < unat b) \<or> length n < 8 \<or> length k < 32
      then None
      else let z = take 8 n @ replicate 8 0
           in Some (0, salsa20_xor_loop m (unat b) z k @ drop (unat b) c))"

definition crypto_stream_salsa20 ::
  "u8 list \<Rightarrow> u64 \<Rightarrow> u8 list \<Rightarrow> u8 list \<Rightarrow> (int \<times> u8 list) option" where
  "crypto_stream_salsa20 c d n k = crypto_stream_salsa20_xor c None d n k"

definition crypto_stream :: "u8 list \<Rightarrow> u64 \<Rightarrow> u8 list \<Rightarrow> u8 list \<Rightarrow> (int \<times> u8 list) option" where
  "crypto_stream c d n k =
     (if length n < 16 \<or> length k < 32 then None
      else let s = crypto_core_hsalsa20 n k sigma in crypto_stream_salsa20 c d (drop 16 n) s)"

definition crypto_stream_xor ::
  "u8 list \<Rightarrow> u8 list \<Rightarrow> u64 \<Rightarrow> u8 list \<Rightarrow> u8 list \<Rightarrow> (int \<times> u8 list) option" where
  "crypto_stream_xor c m d n k =
     (if length n < 16 \<or> length k < 32 then None
      else let s = crypto_core_hsalsa20 n k sigma in crypto_stream_salsa20_xor c (Some m) d (drop 16 n) s)"

section \<open>Reference definition of Salsa20\<close>

type_synonym word32 = "32 word"

definition quarterround :: "word32 \<times> word32 \<times> word32 \<times> word32 \<Rightarrow> word32 \<times> word32 \<times> word32 \<times> word32" where
  "quarterround = (\<lambda>(y0, y1, y2, y3).
     let z1 = y1 XOR word_rotl 7 (y0 + y3);
         z2 = y2 XOR word_rotl 9 (z1 + y0);
         z3 = y3 XOR word_rotl 13 (z2 + z1);
         z0 = y0 XOR word_rotl 18 (z3 + z2)
     in (z0, z1, z2, z3))"

text \<open>A state is the list of the 16 words of a 4 by 4 matrix in row order.  \<open>columnround\<close>
  starts each column at the diagonal, \<open>rowround\<close> each row.\<close>

definition columnround :: "word32 list \<Rightarrow> word32 list" where
  "columnround x =
     (let (y0, y4, y8, y12) = quarterround (x!0, x!4, x!8, x!12);
          (y5, y9, y13, y1) = quarterround (x!5, x!9, x!13, x!1);
          (y10, y14, y2, y6) = quarterround (x!10, x!14, x!2, x!6);
          (y15, y3, y7, y11) = quarterround (x!15, x!3, x!7, x!11)
      in [y0, y1, y2, y3, y4, y5, y6, y7, y8, y9, y10, y11, y12, y13, y14, y15])"

definition rowround :: "word32 list \<Rightarrow> word32 list" where
  "rowround y =
     (let (z0, z1, z2, z3) = quarterround (y!0, y!1, y!2, y!3);
          (z5, z6, z7, z4) = quarterround (y!5, y!6, y!7, y!4);
          (z10, z11, z8, z9) = quarterround (y!10, y!11, y!8, y!9);
          (z15, z12, z13, z14) = quarterround (y!15, y!12, y!13, y!14)
      in [z0, z1, z2, z3, z4, z5, z6, z7, z8, z9, z10, z11, z12, z13, z14, z15])"

definition doubleround :: "word32 list \<Rightarrow> word32 list" where
  "doubleround x = rowround (columnround x)"

definition le32 :: "u8 list \<Rightarrow> nat \<Rightarrow> word32" where
  "le32 bs i = of_nat (le_nat (take 4 (drop (4 * i) bs)))"

definition salsa20_state :: "u8 list \<Rightarrow> u8 list \<Rightarrow> u8 list \<Rightarrow> word32 list" where
  "salsa20_state inp k c =
     [le32 c 0, le32 k 0, le32 k 1, le32 k 2, le32 k 3, le32 c 1, le32 inp 0, le32 inp 1,
      le32 inp 2, le32 inp 3, le32 c 2, le32 k 4, le32 k 5, le32 k 6, le32 k 7, le32 c 3]"

definition words_bytes :: "word32 list \<Rightarrow> u8 list" where
  "words_bytes ws = concat (map (\<lambda>w. le_bytes 4 (unat w)) ws)"

definition Salsa20 :: "u8 list \<Rightarrow> u8 list \<Rightarrow> u8 list \<Rightarrow> u8 list" where
  "Salsa20 inp k c =
     (let x = salsa20_state inp k c in words_bytes (map2 (+) x ((doubleround ^^ 10) x)))"

definition HSalsa20 :: "u8 list \<Rightarrow> u8 list \<Rightarrow> u8 list \<Rightarrow> u8 list" where
  "HSalsa20 inp k c =
     (let z = (doubleround ^^ 10) (salsa20_state inp k c)
      in words_bytes [z!0, z!5, z!10, z!15, z!6, z!7, z!8, z!9])"

section \<open>The core is Salsa20\<close>

lemma upt4: "[0..<4] = [0, 1, 2, 3]" "[0..<16] = [0, 1, 2, 3, 4, 5, 6, 7, 8, 9, 10, 11, 12, 13, 14, 15]"
  by (simp_all add: upt_rec)

lemma replicate16: "replicate 16 (a :: 'a) = [a, a, a, a, a, a, a, a, a, a, a, a, a, a, a, a]"
  by (simp add: eval_nat_numeral)

text \<open>One round of the code works on columns and stores the result transposed, so that a second
  round works on the rows.\<close>

definition transpose16 :: "'a list \<Rightarrow> 'a list" where
  "transpose16 x = map (\<lambda>i. x ! i) [0, 4, 8, 12, 1, 5, 9, 13, 2, 6, 10, 14, 3, 7, 11, 15]"

lemma core_round_column:
  "length x = 16 \<Longrightarrow> map ucast (core_round x) = transpose16 (columnround (map ucast x))"
  by (auto dest!: list16 simp: core_round_def columnround_def quarterround_def transpose16_def
      upt4 replicate16 Let_def)

lemma column_transpose:
  "length x = 16 \<Longrightarrow> transpose16 (columnround (transpose16 x)) = rowround x"
  by (auto dest!: list16 simp: rowround_def columnround_def quarterround_def transpose16_def Let_def)

lemma length_columnround [simp]: "length (columnround x) = 16"
  by (simp add: columnround_def quarterround_def Let_def)

lemma length_rowround [simp]: "length (rowround x) = 16"
  by (simp add: rowround_def quarterround_def Let_def)

lemma length_doubleround [simp]: "length (doubleround x) = 16"
  by (simp add: doubleround_def)

lemma length_core_round [simp, nacl_length]: "length (core_round x) = 16"
  by (simp add: core_round_def upt4 Let_def)

lemma length_core_rounds: "length x = 16 \<Longrightarrow> length ((core_round ^^ n) x) = 16"
  by (induction n) simp_all

lemma length_doublerounds: "length x = 16 \<Longrightarrow> length ((doubleround ^^ n) x) = 16"
  by (induction n) simp_all

lemma core_two_rounds:
  "length x = 16 \<Longrightarrow> map ucast (core_round (core_round x)) = doubleround (map ucast x)"
  by (simp add: core_round_column column_transpose doubleround_def)

lemma core_rounds:
  "length x = 16 \<Longrightarrow> map ucast ((core_round ^^ (2 * n)) x) = (doubleround ^^ n) (map ucast x)"
  by (induction n) (simp_all add: core_two_rounds length_core_rounds)

lemma length_core_load [simp, nacl_length]: "length (core_load inp k c) = 16"
  by (simp add: core_load_def upt4)

lemma core_load_state:
  assumes "16 \<le> length inp" "32 \<le> length k" "16 \<le> length c"
  shows "map ucast (core_load inp k c) = salsa20_state inp k c"
  using assms
  by (simp add: core_load_def salsa20_state_def le32_def upt4 replicate16 ucast_ld32)

lemma length_salsa20_state [simp]: "length (salsa20_state inp k c) = 16"
  by (simp add: salsa20_state_def)

lemma core_state_20:
  assumes "16 \<le> length inp" "32 \<le> length k" "16 \<le> length c"
  shows "map ucast ((core_round ^^ 20) (core_load inp k c)) = (doubleround ^^ 10) (salsa20_state inp k c)"
  using core_rounds [of "core_load inp k c" 10] assms by (simp add: core_load_state)

theorem core_salsa20:
  assumes "16 \<le> length inp" "32 \<le> length k" "16 \<le> length c"
  shows "crypto_core_salsa20 inp k c = Salsa20 inp k c"
proof -
  define y where "y = core_load inp k c"
  define x where "x = (core_round ^^ 20) y"
  have l: "length x = 16" "length y = 16" by (simp_all add: x_def y_def length_core_rounds)
  have "concat (map (\<lambda>i. st32 (x ! i + y ! i)) [0..<16]) =
      words_bytes (map2 (+) (map ucast y) (map ucast x))"
    using list16 [OF l(1)] list16 [OF l(2)]
    by (auto simp: words_bytes_def upt4 st32_eq add.commute)
  then show ?thesis
    using core_state_20 [OF assms] core_load_state [OF assms]
    by (simp add: crypto_core_salsa20_def core_def Salsa20_def Let_def flip: y_def x_def)
qed

lemma core_load_eq:
  "core_load inp k c =
     [ld32 c, ld32 k, ld32 (drop 4 k), ld32 (drop 8 k), ld32 (drop 12 k), ld32 (drop 4 c),
      ld32 inp, ld32 (drop 4 inp), ld32 (drop 8 inp), ld32 (drop 12 inp), ld32 (drop 8 c),
      ld32 (drop 16 k), ld32 (drop 20 k), ld32 (drop 24 k), ld32 (drop 28 k), ld32 (drop 12 c)]"
  by (simp add: core_load_def upt4 replicate16)

lemma hsalsa_output:
  assumes "length x = 16"
  shows "(let x = map2 (+) x (core_load inp k c);
              x = fold (\<lambda>i x. x[5 * i := x ! (5 * i) - ld32 (drop (4 * i) c),
                                6 + i := x ! (6 + i) - ld32 (drop (4 * i) inp)]) [0..<4] x
          in concat (map (\<lambda>i. st32 (x ! (5 * i))) [0..<4]) @
             concat (map (\<lambda>i. st32 (x ! (6 + i))) [0..<4])) =
     (let z = map ucast x in words_bytes [z!0, z!5, z!10, z!15, z!6, z!7, z!8, z!9])"
  using list16 [OF assms] by (auto simp: core_load_eq upt4 words_bytes_def st32_eq Let_def)

theorem core_hsalsa20:
  assumes "16 \<le> length inp" "32 \<le> length k" "16 \<le> length c"
  shows "crypto_core_hsalsa20 inp k c = HSalsa20 inp k c"
  using hsalsa_output [of "(core_round ^^ 20) (core_load inp k c)" inp k c]
  by (simp only: crypto_core_hsalsa20_def core_def HSalsa20_def Let_def if_True
      core_state_20 [OF assms] length_core_rounds length_core_load)

section \<open>The stream is the Salsa20 keystream\<close>

text \<open>Block \<open>j\<close> of the keystream is \<open>Salsa20\<close> of the nonce and the counter \<open>j\<close> in
  little-endian order; XSalsa20 derives the key of the stream from the first 16 bytes of the nonce.\<close>

definition keystream :: "u8 list \<Rightarrow> u8 list \<Rightarrow> nat \<Rightarrow> u8" where
  "keystream n k i = Salsa20 (take 8 n @ le_bytes 8 (i div 64)) k sigma ! (i mod 64)"

definition xsalsa20 :: "u8 list \<Rightarrow> u8 list \<Rightarrow> nat \<Rightarrow> u8" where
  "xsalsa20 n k = keystream (drop 16 n) (HSalsa20 (take 16 n) k sigma)"

lemma length_sigma [simp]: "length sigma = 16"
  by (simp add: sigma_def)

fun carry_bytes :: "u32 \<Rightarrow> u8 list \<Rightarrow> u8 list" where
  "carry_bytes u [] = []"
| "carry_bytes u (b # bs) = (let u = u + ucast b in ucast u # carry_bytes (drop_bit 8 u) bs)"

lemma carry_bytes_eq:
  "unat u \<le> 256 \<Longrightarrow> carry_bytes u bs = le_bytes (length bs) (unat u + le_nat bs)"
proof (induction bs arbitrary: u)
  case (Cons b bs)
  have b: "unat b < 256" by (rule byte_bound)
  have s: "unat (u + ucast b) = unat u + unat b"
    using Cons.prems b by (subst unat_add_lem [THEN iffD1]) simp_all
  have d: "unat (drop_bit 8 (u + ucast b)) = (unat u + unat b) div 256"
    by (simp add: unat_drop_bit_eq drop_bit_nat_def s)
  have h: "(ucast (u + ucast b) :: u8) = of_nat (unat u + (unat b + 256 * le_nat bs))"
  proof -
    have "of_nat (unat u + (unat b + 256 * le_nat bs)) = (of_nat (unat u + unat b) :: u8)"
      using of_nat_byte [of "unat u + unat b" "le_nat bs"] by (simp only: add.assoc)
    moreover have "(ucast (u + ucast b) :: u8) = of_nat (unat (u + ucast b))" by simp
    ultimately show ?thesis by (simp only: s)
  qed
  have "(unat u + unat b) div 256 \<le> 256" using Cons.prems b by simp
  moreover have "(unat u + (unat b + 256 * le_nat bs)) div 256 = (unat u + unat b) div 256 + le_nat bs"
    using div_mult_self2 [of 256 "unat u + unat b" "le_nat bs"] by (simp add: add.assoc)
  ultimately show ?case
    using Cons.IH [of "drop_bit 8 (u + ucast b)"] d h
    by (simp add: Let_def)
qed simp

lemma next_block_carry: "length z = 16 \<Longrightarrow> next_block z = take 8 z @ carry_bytes 1 (drop 8 z)"
  by (auto dest!: list16 simp: next_block_def upt_rec Let_def)

lemma next_block_counter:
  assumes "length p = 8"
  shows "next_block (p @ le_bytes 8 j) = p @ le_bytes 8 (Suc j)"
proof -
  have "le_bytes 8 (1 + j mod 256 ^ 8) = le_bytes 8 (Suc j)"
    using le_bytes_mod [of 8 "1 + j mod 256 ^ 8"] le_bytes_mod [of 8 "Suc j"]
    by (metis mod_add_right_eq plus_1_eq_Suc)
  then show ?thesis
    using assms by (simp add: next_block_carry carry_bytes_eq le_nat_le_bytes)
qed

lemma length_Salsa20: "length (Salsa20 inp k c) = 64"
proof -
  have "length (words_bytes ws) = 4 * length ws" for ws
    by (induction ws) (simp_all add: words_bytes_def)
  then show ?thesis by (simp add: Salsa20_def Let_def length_doublerounds)
qed

lemma length_HSalsa20 [simp]: "length (HSalsa20 inp k c) = 32"
  by (simp add: HSalsa20_def words_bytes_def Let_def)

lemma salsa20_xor_loop_keystream:
  assumes "length p = 8" "32 \<le> length k" "case m of None \<Rightarrow> True | Some m \<Rightarrow> b \<le> length m"
  shows "salsa20_xor_loop m b (p @ le_bytes 8 j) k =
    map (\<lambda>i. m_byte m i XOR keystream p k (64 * j + i)) [0..<b]"
  using assms
proof (induction b arbitrary: m j rule: less_induct)
  case (less b)
  have x: "crypto_core_salsa20 (p @ le_bytes 8 j) k sigma = Salsa20 (p @ le_bytes 8 j) k sigma"
    by (rule core_salsa20) (use less.prems in auto)
  have ks: "Salsa20 (p @ le_bytes 8 j) k sigma ! i = keystream p k (64 * j + i)" if "i < 64" for i
    using less.prems that by (simp add: keystream_def)
  show ?case
  proof (cases "64 \<le> b")
    case True
    have split: "[0..<b] = [0..<64] @ map (\<lambda>i. i + 64) [0..<b - 64]"
      using True upt_add_eq_append [of 0 64 "b - 64"] by (simp add: map_add_upt)
    have m: "m_byte (map_option (drop 64) m) i = m_byte m (i + 64)" if "i < b - 64" for i
      using True less.prems that by (cases m) (simp_all add: m_byte_def add.commute)
    have m': "case map_option (drop 64) m of None \<Rightarrow> True | Some m \<Rightarrow> b - 64 \<le> length m"
      using less.prems by (cases m) simp_all
    have "salsa20_xor_loop (map_option (drop 64) m) (b - 64) (p @ le_bytes 8 (Suc j)) k =
        map (\<lambda>i. m_byte m (i + 64) XOR keystream p k (64 * j + (i + 64))) [0..<b - 64]"
      using less.IH [of "b - 64" "map_option (drop 64) m" "Suc j"] True less.prems m'
      by (simp add: m add.assoc add.commute [of 64])
    then have "salsa20_xor_loop m b (p @ le_bytes 8 j) k =
        map (\<lambda>i. m_byte m i XOR keystream p k (64 * j + i)) [0..<64] @
        map (\<lambda>i. m_byte m (i + 64) XOR keystream p k (64 * j + (i + 64))) [0..<b - 64]"
      using True less.prems
      by (subst salsa20_xor_loop.simps)
         (simp add: x ks Let_def next_block_counter)
    then show ?thesis by (simp add: split)
  next
    case False
    then show ?thesis by (subst salsa20_xor_loop.simps) (auto simp: x ks Let_def)
  qed
qed

theorem crypto_stream_salsa20_xor_keystream:
  assumes "unat b \<le> length c" "unat b \<le> length m" "8 \<le> length n" "32 \<le> length k"
  shows "crypto_stream_salsa20_xor c (Some m) b n k =
    Some (0, map (\<lambda>i. m ! i XOR keystream n k i) [0..<unat b] @ drop (unat b) c)"
proof -
  have "keystream (take 8 n) k i = keystream n k i" for i by (simp add: keystream_def)
  then have "salsa20_xor_loop (Some m) (unat b) (take 8 n @ replicate 8 0) k =
      map (\<lambda>i. m ! i XOR keystream n k i) [0..<unat b]"
    using salsa20_xor_loop_keystream [of "take 8 n" k "unat b" "Some m" 0] assms
    by (simp add: le_bytes_zero m_byte_def)
  then show ?thesis
    using assms by (auto simp: crypto_stream_salsa20_xor_def unat_eq_zero)
qed

theorem crypto_stream_salsa20_keystream:
  assumes "unat b \<le> length c" "8 \<le> length n" "32 \<le> length k"
  shows "crypto_stream_salsa20 c b n k = Some (0, map (keystream n k) [0..<unat b] @ drop (unat b) c)"
proof -
  have "keystream (take 8 n) k i = keystream n k i" for i by (simp add: keystream_def)
  then have "salsa20_xor_loop None (unat b) (take 8 n @ replicate 8 0) k = map (keystream n k) [0..<unat b]"
    using salsa20_xor_loop_keystream [of "take 8 n" k "unat b" None 0] assms
    by (simp add: le_bytes_zero m_byte_def)
  then show ?thesis
    using assms by (auto simp: crypto_stream_salsa20_def crypto_stream_salsa20_xor_def unat_eq_zero)
qed

lemma hsalsa_take: "HSalsa20 (take 16 n) k c = HSalsa20 n k c"
  by (simp add: HSalsa20_def salsa20_state_def le32_def drop_take min_def)

lemma crypto_stream_xor_keystream:
  assumes "unat d \<le> length c" "unat d \<le> length m" "24 \<le> length n" "32 \<le> length k"
  shows "crypto_stream_xor c m d n k =
    Some (0, map (\<lambda>i. m ! i XOR xsalsa20 n k i) [0..<unat d] @ drop (unat d) c)"
  using assms
  by (simp add: crypto_stream_xor_def Let_def core_hsalsa20 crypto_stream_salsa20_xor_keystream
      xsalsa20_def hsalsa_take)

lemma crypto_stream_keystream:
  assumes "unat d \<le> length c" "24 \<le> length n" "32 \<le> length k"
  shows "crypto_stream c d n k = Some (0, map (xsalsa20 n k) [0..<unat d] @ drop (unat d) c)"
  using assms
  by (simp add: crypto_stream_def Let_def core_hsalsa20 crypto_stream_salsa20_keystream
      xsalsa20_def hsalsa_take)

end
