(* ===== verification/Nacl_Auth.thy ===== *)
theory Nacl_Auth
  imports Nacl_Words
begin

text \<open>
  Crypto/src/tweetnacl.c, the one-time authenticator: \<open>add1305\<close>, \<open>crypto_onetimeauth\<close> and
  its verification.  A number of 136 bits is an array of 17 limbs of one byte, kept in 64-bit words
  and reduced lazily.  The reference is Poly1305 on natural numbers modulo \<open>2 ^ 130 - 5\<close>; the
  lemmas show that no limb overflows and that the last conditional subtraction leaves the residue.
\<close>

section \<open>The code\<close>

fun add1305_loop :: "u32 \<Rightarrow> u32 list \<Rightarrow> u32 list \<Rightarrow> u32 list" where
  "add1305_loop u (a # h) (b # c) =
     (let u = u + (a + b) in (u AND 255) # add1305_loop (drop_bit 8 u) h c)"
| "add1305_loop u _ _ = []"

definition add1305 :: "u32 list \<Rightarrow> u32 list \<Rightarrow> u32 list" where
  "add1305 h c = add1305_loop 0 h c"

definition minusp :: "u32 list" where
  "minusp = [5, 0, 0, 0, 0, 0, 0, 0, 0, 0, 0, 0, 0, 0, 0, 0, 252]"

definition clamp_r :: "u8 list \<Rightarrow> u32 list" where
  "clamp_r k =
     (let r = map ucast (take 16 k) @ [0]
      in r[3 := r ! 3 AND 15, 4 := r ! 4 AND 252, 7 := r ! 7 AND 15, 8 := r ! 8 AND 252,
           11 := r ! 11 AND 15, 12 := r ! 12 AND 252, 15 := r ! 15 AND 15])"

text \<open>The 17 products of one step and the carry pass over 16 limbs, which gives the limbs and the
  carry out.\<close>

definition mul1305 :: "u32 list \<Rightarrow> u32 list \<Rightarrow> u32 list" where
  "mul1305 h r =
     map (\<lambda>i. fold (\<lambda>j x. x + h ! j * (if j \<le> i then r ! (i - j) else 320 * r ! (i + 17 - j))) [0..<17] 0)
       [0..<17]"

fun carry1305 :: "u32 \<Rightarrow> u32 list \<Rightarrow> u32 list \<times> u32" where
  "carry1305 u [] = ([], u)"
| "carry1305 u (a # h) =
     (let u = u + a; (h', u') = carry1305 (drop_bit 8 u) h in ((u AND 255) # h', u'))"

definition squeeze1305 :: "u32 list \<Rightarrow> u32 list" where
  "squeeze1305 h =
     (let (l, u) = carry1305 0 (take 16 h);
          u = u + h ! 16;
          h16 = u AND 3;
          (l, u) = carry1305 (5 * drop_bit 2 u) l
      in l @ [u + h16])"

text \<open>The message block as limbs: up to 16 bytes, a one, zeros.\<close>

definition block1305 :: "u8 list \<Rightarrow> nat \<Rightarrow> u32 list" where
  "block1305 m j = map ucast (take j m) @ [1] @ replicate (16 - j) 0"

function onetimeauth_loop :: "u32 list \<Rightarrow> u32 list \<Rightarrow> u8 list \<Rightarrow> nat \<Rightarrow> u32 list" where
  "onetimeauth_loop h r m n =
     (if 0 < n
      then let j = min 16 n;
               h = add1305 h (block1305 m j);
               h = squeeze1305 (mul1305 h r)
           in onetimeauth_loop h r (drop j m) (n - j)
      else h)"
  by pat_completeness auto
termination by (relation "measure (\<lambda>(h, r, m, n). n)") auto

declare onetimeauth_loop.simps [simp del]

definition freeze1305 :: "u32 list \<Rightarrow> u32 list" where
  "freeze1305 h =
     (let g = h;
          h = add1305 h minusp;
          s = - drop_bit 7 (h ! 16)
      in map2 (\<lambda>g h. h XOR (s AND (g XOR h))) g h)"

definition crypto_onetimeauth :: "u8 list \<Rightarrow> u64 \<Rightarrow> u8 list \<Rightarrow> u8 list option" where
  "crypto_onetimeauth m n k =
     (if length m < unat n \<or> length k < 32 then None
      else let h = onetimeauth_loop (replicate 17 0) (clamp_r k) m (unat n);
               h = freeze1305 h;
               c = map ucast (take 16 (drop 16 k)) @ [0];
               h = add1305 h c
           in Some (map ucast (take 16 h)))"

definition crypto_onetimeauth_verify :: "u8 list \<Rightarrow> u8 list \<Rightarrow> u64 \<Rightarrow> u8 list \<Rightarrow> int option" where
  "crypto_onetimeauth_verify h m n k =
     (if length h < 16 then None
      else do { x \<leftarrow> crypto_onetimeauth m n k; Some (crypto_verify_16 h x) })"

section \<open>Reference definition of Poly1305\<close>

definition p1305 :: nat where "p1305 = 2 ^ 130 - 5"

fun poly1305_acc :: "nat \<Rightarrow> nat \<Rightarrow> u8 list \<Rightarrow> nat" where
  "poly1305_acc r acc [] = acc"
| "poly1305_acc r acc (b # m) =
     poly1305_acc r ((acc + le_nat (take 16 (b # m) @ [1])) * r mod p1305) (drop 16 (b # m))"

definition poly1305_clamp :: "nat \<Rightarrow> nat" where
  "poly1305_clamp r = r AND 0x0ffffffc0ffffffc0ffffffc0fffffff"

definition poly1305 :: "u8 list \<Rightarrow> u8 list \<Rightarrow> u8 list" where
  "poly1305 m k =
     le_bytes 16 (poly1305_acc (poly1305_clamp (le_nat (take 16 k))) 0 m + le_nat (take 16 (drop 16 k)))"

section \<open>Limbs\<close>

fun limbs :: "u32 list \<Rightarrow> nat" where
  "limbs [] = 0"
| "limbs (x # xs) = unat x + 256 * limbs xs"

definition small_limbs :: "nat \<Rightarrow> u32 list \<Rightarrow> bool" where
  "small_limbs b xs \<longleftrightarrow> list_all (\<lambda>x. unat x < b) xs"

lemma small_simps [simp]:
  "small_limbs b []" "small_limbs b (x # xs) \<longleftrightarrow> unat x < b \<and> small_limbs b xs" "small_limbs b (xs @ ys) \<longleftrightarrow> small_limbs b xs \<and> small_limbs b ys"
  by (simp_all add: small_limbs_def)

lemma limbs_append: "limbs (xs @ ys) = limbs xs + 256 ^ length xs * limbs ys"
  by (induction xs) (simp_all add: algebra_simps)

lemma limbs_ucast [simp]: "limbs (map ucast (bs :: u8 list)) = le_nat bs"
  by (induction bs) simp_all

lemma small_ucast [simp]: "small_limbs 256 (map ucast (bs :: u8 list))"
  by (induction bs) (simp_all add: byte_bound)

lemma small_mono: "small_limbs a xs \<Longrightarrow> a \<le> b \<Longrightarrow> small_limbs b xs"
  by (auto simp: small_limbs_def list_all_iff intro: less_le_trans)

lemma limbs_bound: "small_limbs 256 xs \<Longrightarrow> limbs xs < 256 ^ length xs"
  by (induction xs) auto

lemma limbs_wide_bound: "small_limbs b xs \<Longrightarrow> 255 * limbs xs + b \<le> b * 256 ^ length xs"
  by (induction xs) auto

lemma limbs_replicate_0 [simp]: "limbs (replicate n 0) = 0"
  by (induction n) simp_all

lemma low_byte: "unat (u AND 255 :: u32) = unat u mod 256"
proof -
  have "u AND 255 = take_bit 8 u" by (simp add: take_bit_eq_mask mask_eq_exp_minus_1)
  then show ?thesis unfolding take_bit_eq_mod by (simp add: unat_mod_distrib)
qed

lemma high_bytes: "unat (drop_bit 8 u :: u32) = unat u div 256"
  by (simp add: unat_drop_bit_eq drop_bit_nat_def)

lemma unat_sum: "unat (a :: u32) + unat b < 2 ^ 64 \<Longrightarrow> unat (a + b) = unat a + unat b"
  by (simp add: unat_add_lem [THEN iffD1])

lemma carry1305_value:
  assumes "carry1305 u h = (l, u')" "small_limbs (2 ^ 62) h" "unat u < 2 ^ 62"
  shows "limbs l + 256 ^ length h * unat u' = unat u + limbs h \<and> small_limbs 256 l \<and>
    length l = length h \<and> unat u' < 2 ^ 62"
  using assms
proof (induction h arbitrary: u l u')
  case (Cons a h)
  obtain l' where r: "carry1305 (drop_bit 8 (u + a)) h = (l', u')" and l: "l = ((u + a) AND 255) # l'"
    using Cons.prems(1) by (auto simp: Let_def split: prod.splits)
  have s: "unat (u + a) = unat u + unat a" using Cons.prems by (intro unat_sum) simp
  then have "unat (drop_bit 8 (u + a)) < 2 ^ 62"
    using Cons.prems(2,3) less_mult_imp_div_less [of "unat u + unat a" "2 ^ 62" 256]
    by (simp add: high_bytes)
  then have ih: "limbs l' + 256 ^ length h * unat u' = (unat u + unat a) div 256 + limbs h"
      "small_limbs 256 l'" "length l' = length h" "unat u' < 2 ^ 62"
    using Cons.IH [OF r] Cons.prems(2) by (simp_all add: high_bytes s)
  have "limbs l + 256 ^ Suc (length h) * unat u' =
      (unat u + unat a) mod 256 + 256 * (limbs l' + 256 ^ length h * unat u')"
    by (simp add: l low_byte s distrib_left mult.assoc)
  also have "\<dots> = unat u + limbs (a # h)"
    unfolding ih(1) by (simp add: algebra_simps)
  finally show ?case using ih l by (simp add: low_byte)
qed auto

lemma add1305_loop_carry: "length h = length c \<Longrightarrow> add1305_loop u h c = fst (carry1305 u (map2 (+) h c))"
  by (induction u h c rule: add1305_loop.induct) (auto simp: Let_def split: prod.splits)

lemma limbs_map2_add:
  assumes "length h = length c" "small_limbs (2 ^ 60) h" "small_limbs (2 ^ 60) c"
  shows "limbs (map2 (+) h c) = limbs h + limbs c" "small_limbs (2 ^ 62) (map2 (+) h c)"
  using assms by (induction h c rule: list_induct2) (auto simp: unat_sum)

lemma add1305_value:
  assumes "length h = 17" "length c = 17" "small_limbs (2 ^ 60) h" "small_limbs (2 ^ 60) c"
  shows "limbs (add1305 h c) = (limbs h + limbs c) mod 2 ^ 136"
    and "small_limbs 256 (add1305 h c)" and "length (add1305 h c) = 17"
proof -
  obtain l u where r: "carry1305 0 (map2 (+) h c) = (l, u)" by fastforce
  have v: "limbs l + 256 ^ 17 * unat u = limbs h + limbs c" "small_limbs 256 l" "length l = 17"
    using carry1305_value [OF r] limbs_map2_add [of h c] assms by simp_all
  have "limbs l < 2 ^ 136" using limbs_bound [OF v(2)] v(3) by simp
  then have "limbs l = (limbs l + 256 ^ 17 * unat u) mod 2 ^ 136" by simp
  then have "limbs l = (limbs h + limbs c) mod 2 ^ 136" by (simp only: v(1))
  then show "limbs (add1305 h c) = (limbs h + limbs c) mod 2 ^ 136"
    using r assms by (simp add: add1305_def add1305_loop_carry)
  show "small_limbs 256 (add1305 h c)" "length (add1305 h c) = 17"
    using v r assms by (simp_all add: add1305_def add1305_loop_carry)
qed

section \<open>Multiplication\<close>

lemma limbs_sum: "limbs xs = (\<Sum>i<length xs. unat (xs ! i) * 256 ^ i)"
  by (induction xs) (simp_all add: sum.lessThan_Suc_shift sum_distrib_left algebra_simps del: sum.lessThan_Suc)

text \<open>Shifting a number by \<open>j\<close> limbs and folding the limbs above \<open>n\<close> back with the factor
  \<open>c\<close> of \<open>B ^ n\<close> is a multiplication by \<open>B ^ j\<close> modulo \<open>p\<close>.\<close>

lemma rotate_fold_mod:
  fixes B c p :: nat
  assumes c: "B ^ n mod p = c mod p" and j: "j < n"
  shows "(\<Sum>i<n. B ^ i * (if j \<le> i then r (i - j) else c * r (i + n - j))) mod p =
    (B ^ j * (\<Sum>l<n. r l * B ^ l)) mod p"
proof -
  let ?t = "\<lambda>i. B ^ i * (if j \<le> i then r (i - j) else c * r (i + n - j))"
  have low: "(\<Sum>i\<in>{j..<n}. ?t i) = (\<Sum>l<n - j. B ^ (j + l) * r l)"
    by (rule sum.reindex_bij_witness [of _ "\<lambda>l. l + j" "\<lambda>i. i - j"]) (use j in auto)
  have high: "(\<Sum>i<j. ?t i) = c * (\<Sum>i<j. B ^ i * r (i + n - j))"
    by (simp add: sum_distrib_left mult_ac)
  have split: "(\<Sum>i<n. ?t i) = (\<Sum>i<j. ?t i) + (\<Sum>i\<in>{j..<n}. ?t i)"
    using j sum.atLeastLessThan_concat [of 0 j n ?t] by (simp add: lessThan_atLeast0)
  have "(\<Sum>i<n. ?t i) mod p =
      (B ^ n * (\<Sum>i<j. B ^ i * r (i + n - j)) + (\<Sum>l<n - j. B ^ (j + l) * r l)) mod p"
    unfolding split high low by (intro mod_add_cong mod_mult_cong refl) (simp add: c)
  also have "B ^ n * (\<Sum>i<j. B ^ i * r (i + n - j)) = (\<Sum>l\<in>{n - j..<n}. B ^ (j + l) * r l)"
    unfolding sum_distrib_left
    by (rule sum.reindex_bij_witness [of _ "\<lambda>l. l + j - n" "\<lambda>i. i + n - j"])
       (use j in \<open>auto simp: add.commute simp flip: power_add mult.assoc\<close>)
  also have "\<dots> + (\<Sum>l<n - j. B ^ (j + l) * r l) = (\<Sum>l<n. B ^ (j + l) * r l)"
    using j sum.atLeastLessThan_concat [of 0 "n - j" n "\<lambda>l. B ^ (j + l) * r l"]
    by (simp add: lessThan_atLeast0)
  also have "\<dots> = B ^ j * (\<Sum>l<n. r l * B ^ l)"
    by (simp add: sum_distrib_left power_add mult_ac)
  finally show ?thesis .
qed

lemma mod_sum_cong':
  fixes f g :: "'a \<Rightarrow> nat"
  shows "(\<And>x. x \<in> A \<Longrightarrow> f x mod p = g x mod p) \<Longrightarrow> sum f A mod p = sum g A mod p"
  by (induction A rule: infinite_finite_induct) (auto intro: mod_add_cong)

lemma schoolbook_mod:
  fixes B c p :: nat
  assumes c: "B ^ n mod p = c mod p"
  shows "(\<Sum>i<n. B ^ i * (\<Sum>j<n. h j * (if j \<le> i then r (i - j) else c * r (i + n - j)))) mod p =
    ((\<Sum>j<n. h j * B ^ j) * (\<Sum>l<n. r l * B ^ l)) mod p"
proof -
  let ?k = "\<lambda>i j. if j \<le> i then r (i - j) else c * r (i + n - j)"
  have e1: "(\<Sum>i<n. B ^ i * (\<Sum>j<n. h j * ?k i j)) = (\<Sum>j<n. h j * (\<Sum>i<n. B ^ i * ?k i j))"
  proof -
    have "(\<Sum>i<n. B ^ i * (\<Sum>j<n. h j * ?k i j)) = (\<Sum>i<n. \<Sum>j<n. h j * (B ^ i * ?k i j))"
      by (intro sum.cong refl) (simp add: sum_distrib_left mult.left_commute)
    also have "\<dots> = (\<Sum>j<n. \<Sum>i<n. h j * (B ^ i * ?k i j))" by (rule sum.swap)
    finally show ?thesis by (simp only: sum_distrib_left)
  qed
  have e2: "(\<Sum>j<n. h j * (\<Sum>i<n. B ^ i * ?k i j)) mod p =
      (\<Sum>j<n. h j * (B ^ j * (\<Sum>l<n. r l * B ^ l))) mod p"
    by (intro mod_sum_cong' mod_mult_cong refl rotate_fold_mod [OF c]) simp
  have e3: "(\<Sum>j<n. h j * (B ^ j * (\<Sum>l<n. r l * B ^ l))) = (\<Sum>j<n. h j * B ^ j) * (\<Sum>l<n. r l * B ^ l)"
    by (simp add: sum_distrib_right mult.assoc)
  show ?thesis unfolding e1 e2 e3 ..
qed

lemma fold_sum: "fold (\<lambda>j x. x + f j) [0..<n] (0 :: u32) = (\<Sum>j<n. f j)"
  by (induction n) simp_all

lemma unat_sum_bound:
  fixes f :: "nat \<Rightarrow> u32"
  assumes "\<And>j. j < n \<Longrightarrow> unat (f j) \<le> b" "n * b < 2 ^ 64"
  shows "unat (\<Sum>j<n. f j) = (\<Sum>j<n. unat (f j)) \<and> (\<Sum>j<n. unat (f j)) \<le> n * b"
  using assms
proof (induction n)
  case (Suc n)
  then have ih: "unat (\<Sum>j<n. f j) = (\<Sum>j<n. unat (f j))" "(\<Sum>j<n. unat (f j)) \<le> n * b"
    and f: "unat (f n) \<le> b" by simp_all
  then have "unat (\<Sum>j<n. f j) + unat (f n) < 2 ^ 64"
    using Suc.prems(2) by simp
  then have "unat ((\<Sum>j<n. f j) + f n) = unat (\<Sum>j<n. f j) + unat (f n)" by (rule unat_sum)
  then show ?case using ih f by simp
qed simp

lemma unat_prod: "unat (a :: u32) * unat b < 2 ^ 64 \<Longrightarrow> unat (a * b) = unat a * unat b"
  by (simp add: unat_mult_lem [THEN iffD1])

lemma small_nth: "small_limbs b xs \<Longrightarrow> i < length xs \<Longrightarrow> unat (xs ! i) < b"
  by (auto simp: small_limbs_def list_all_length)

lemma prod_le: "a < 256 \<Longrightarrow> b \<le> c \<Longrightarrow> a * b \<le> 256 * (c :: nat)"
  by (simp add: mult_le_mono)

lemma mul1305_factor:
  assumes "length h = 17" "length r = 17" "small_limbs 256 h" "small_limbs 256 r" "i < 17" "j < 17"
  shows "unat (h ! j * (if j \<le> i then r ! (i - j) else 320 * r ! (i + 17 - j))) =
      unat (h ! j) * (if j \<le> i then unat (r ! (i - j)) else 320 * unat (r ! (i + 17 - j))) \<and>
    unat (h ! j * (if j \<le> i then r ! (i - j) else 320 * r ! (i + 17 - j))) \<le> 256 * 81920"
proof -
  define f where "f = (if j \<le> i then r ! (i - j) else 320 * r ! (i + 17 - j))"
  define g where "g = (if j \<le> i then unat (r ! (i - j)) else 320 * unat (r ! (i + 17 - j)))"
  have h: "unat (h ! j) < 256" using assms by (intro small_nth) auto
  have r: "unat (r ! l) < 256" if "l < 17" for l using assms that by (intro small_nth) auto
  have g: "g \<le> 81920"
  proof (cases "j \<le> i")
    case True
    have "unat (r ! (i - j)) < 256" using assms by (intro r) simp
    then show ?thesis using True by (simp add: g_def)
  next
    case False
    then have "unat (r ! (i + 17 - j)) < 256" using assms by (intro r) simp
    then show ?thesis using False by (simp add: g_def)
  qed
  have fg: "unat f = g"
  proof (cases "j \<le> i")
    case False
    then have "unat (r ! (i + 17 - j)) < 256" using assms by (intro r) simp
    then show ?thesis using False by (simp add: f_def g_def unat_prod)
  qed (simp add: f_def g_def)
  have b: "unat (h ! j) * g \<le> 256 * 81920" using h g by (rule prod_le)
  then have "unat (h ! j * f) = unat (h ! j) * g" using fg by (subst unat_prod) simp_all
  then show ?thesis using b by (simp add: f_def g_def)
qed

lemma mul1305_value:
  assumes "length h = 17" "length r = 17" "small_limbs 256 h" "small_limbs 256 r"
  shows "limbs (mul1305 h r) mod p1305 = limbs h * limbs r mod p1305"
    and "small_limbs (2 ^ 29) (mul1305 h r)" and "length (mul1305 h r) = 17"
proof -
  let ?f = "\<lambda>i j. h ! j * (if j \<le> i then r ! (i - j) else 320 * r ! (i + 17 - j))"
  let ?g = "\<lambda>i j. unat (h ! j) * (if j \<le> i then unat (r ! (i - j)) else 320 * unat (r ! (i + 17 - j)))"
  have n: "mul1305 h r ! i = (\<Sum>j<17. ?f i j)" if "i < 17" for i
    using that by (simp add: mul1305_def fold_sum cong: if_cong)
  show l: "length (mul1305 h r) = 17" by (simp add: mul1305_def)
  have v: "unat (\<Sum>j<17. ?f i j) = (\<Sum>j<17. ?g i j) \<and> unat (\<Sum>j<17. ?f i j) < 2 ^ 29" if i: "i < 17" for i
  proof -
    have "unat (\<Sum>j<17. ?f i j) = (\<Sum>j<17. unat (?f i j)) \<and> (\<Sum>j<17. unat (?f i j)) \<le> 17 * (256 * 81920)"
      using mul1305_factor [OF assms i, THEN conjunct2] by (rule unat_sum_bound) simp_all
    moreover have "(\<Sum>j<17. unat (?f i j)) = (\<Sum>j<17. ?g i j)"
      using mul1305_factor [OF assms i, THEN conjunct1] by (intro sum.cong refl) simp
    ultimately show ?thesis by simp
  qed
  from v [THEN conjunct2] show "small_limbs (2 ^ 29) (mul1305 h r)"
    by (simp add: small_limbs_def list_all_length l n)
  have "limbs (mul1305 h r) = (\<Sum>i<17. 256 ^ i * (\<Sum>j<17. ?g i j))"
    unfolding limbs_sum l by (intro sum.cong refl) (simp add: n v [THEN conjunct1] mult.commute)
  moreover have "(\<Sum>i<17. 256 ^ i * (\<Sum>j<17. ?g i j)) mod p1305 =
      ((\<Sum>j<17. unat (h ! j) * 256 ^ j) * (\<Sum>l<17. unat (r ! l) * 256 ^ l)) mod p1305"
    by (rule schoolbook_mod) (simp add: p1305_def)
  ultimately show "limbs (mul1305 h r) mod p1305 = limbs h * limbs r mod p1305"
    by (simp only: limbs_sum assms)
qed

section \<open>Reduction\<close>

lemma p1305_fold: "(x + 2 ^ 130 * y) mod p1305 = (x + 5 * y) mod p1305"
proof -
  have "x + 2 ^ 130 * y = x + 5 * y + p1305 * y" by (simp add: p1305_def)
  then show ?thesis by (simp only: mod_mult_self2)
qed

lemma low_two: "unat (u AND 3 :: u32) = unat u mod 4" "unat (drop_bit 2 u :: u32) = unat u div 4"
proof -
  have "u AND 3 = take_bit 2 u" by (simp add: take_bit_eq_mask mask_eq_exp_minus_1)
  then show "unat (u AND 3) = unat u mod 4" unfolding take_bit_eq_mod by (simp add: unat_mod_distrib)
qed (simp add: unat_drop_bit_eq drop_bit_nat_def)

lemma split_quarter: "b * n = b * (n mod 4) + 4 * b * (n div 4)" for b n :: nat
proof -
  have "b * n = b * (n mod 4 + 4 * (n div 4))" by simp
  then show ?thesis by (simp only: distrib_left mult.assoc mult.left_commute)
qed

lemma squeeze1305_value:
  assumes "length h = 17" "small_limbs (2 ^ 29) h"
  shows "limbs (squeeze1305 h) mod p1305 = limbs h mod p1305"
    and "limbs (squeeze1305 h) < 2 ^ 130 + 2 ^ 40"
    and "small_limbs 256 (squeeze1305 h)" and "length (squeeze1305 h) = 17"
proof -
  obtain l u where r: "carry1305 0 (take 16 h) = (l, u)" by fastforce
  define v where "v = u + h ! 16"
  obtain l' u' where r': "carry1305 (5 * drop_bit 2 v) l = (l', u')" by fastforce
  have h: "h = take 16 h @ [h ! 16]" using assms(1) by (simp add: take_Suc_conv_app_nth [of 16 h, simplified, symmetric])
  have s16: "small_limbs (2 ^ 29) (take 16 h)" and h16: "unat (h ! 16) < 2 ^ 29"
    using assms(2) by (subst (asm) h, simp)+
  have c1: "limbs l + 256 ^ 16 * unat u = limbs (take 16 h)" "small_limbs 256 l" "length l = 16"
    using carry1305_value [OF r] small_mono [OF s16, of "2 ^ 62"] assms(1) by simp_all
  have "limbs (take 16 h) < 2 ^ 29 * 256 ^ 16"
    using limbs_wide_bound [OF s16] assms(1) by simp
  then have "256 ^ 16 * unat u < 256 ^ 16 * 2 ^ 29" using c1(1) by simp
  then have "unat u < 2 ^ 29" by simp
  then have v: "unat v = unat u + unat (h ! 16)" "unat v < 2 ^ 30"
    using h16 unat_sum [of u "h ! 16"] by (simp_all add: v_def)
  have d5: "unat (5 * drop_bit 2 v) = 5 * (unat v div 4)"
    using v(2) by (subst unat_prod) (simp_all add: low_two)
  have c2: "limbs l' + 256 ^ 16 * unat u' = 5 * (unat v div 4) + limbs l" "small_limbs 256 l'" "length l' = 16"
    using carry1305_value [OF r'] small_mono [OF c1(2), of "2 ^ 62"] c1(3) v(2) by (simp_all add: d5)
  have u': "unat u' \<le> 1"
    using c2(1) limbs_bound [OF c1(2)] v(2) c1(3) by simp
  have q: "squeeze1305 h = l' @ [u' + (v AND 3)]"
    by (simp add: squeeze1305_def r r' flip: v_def)
  have t: "unat (u' + (v AND 3)) = unat u' + unat v mod 4"
    using u' by (subst unat_sum) (simp_all add: low_two)
  have val: "limbs (squeeze1305 h) = 5 * (unat v div 4) + limbs l + 256 ^ 16 * (unat v mod 4)"
    using c2(1,3) by (simp add: q limbs_append t algebra_simps)
  have "limbs h = limbs l + 256 ^ 16 * unat v"
    by (subst h) (use c1 assms(1) v(1) in \<open>simp add: limbs_append algebra_simps\<close>)
  then have "limbs h = limbs l + 256 ^ 16 * (unat v mod 4) + 2 ^ 130 * (unat v div 4)"
    using split_quarter [of "256 ^ 16" "unat v"] by simp
  then show "limbs (squeeze1305 h) mod p1305 = limbs h mod p1305"
    by (simp only: p1305_fold val) (simp add: add_ac)
  show "small_limbs 256 (squeeze1305 h)" "length (squeeze1305 h) = 17"
    using c2 t u' by (simp_all add: q)
  have "limbs l < 256 ^ 16" using limbs_bound [OF c1(2)] c1(3) by simp
  then show "limbs (squeeze1305 h) < 2 ^ 130 + 2 ^ 40"
    using v(2) unfolding val by simp
qed

lemma limbs_top:
  assumes "length g = 17" "small_limbs 256 g"
  shows "limbs g = limbs (take 16 g) + 2 ^ 128 * unat (g ! 16) \<and> limbs (take 16 g) < 2 ^ 128"
proof -
  have g: "g = take 16 g @ [g ! 16]"
    using assms(1) by (simp add: take_Suc_conv_app_nth [of 16 g, simplified, symmetric])
  have "small_limbs 256 (take 16 g)" using assms(2) by (subst (asm) g) simp
  then have "limbs (take 16 g) < 2 ^ 128" using limbs_bound [of "take 16 g"] assms(1) by simp
  moreover have "limbs g = limbs (take 16 g) + 2 ^ 128 * unat (g ! 16)"
    by (subst g) (use assms(1) in \<open>simp add: limbs_append\<close>)
  ultimately show ?thesis by simp
qed

lemma select_all: "map2 (\<lambda>g h. h XOR (- 1 AND (g XOR h))) g h = g" if "length g = length h" for g h :: "u32 list"
  using that by (induction g h rule: list_induct2) (simp_all add: xor.left_commute)

lemma select_none: "map2 (\<lambda>g h. h XOR (0 AND (g XOR h))) g h = h" if "length g = length h" for g h :: "u32 list"
  using that by (induction g h rule: list_induct2) simp_all

lemma freeze1305_value:
  assumes "length h = 17" "small_limbs 256 h" "limbs h < 2 * p1305"
  shows "limbs (freeze1305 h) = limbs h mod p1305 \<and> small_limbs 256 (freeze1305 h) \<and> length (freeze1305 h) = 17"
proof -
  have mp: "length minusp = 17" "small_limbs (2 ^ 60) minusp" "limbs minusp = 2 ^ 136 - p1305"
    by (simp_all add: minusp_def p1305_def)
  define g where "g = add1305 h minusp"
  have g: "limbs g = (limbs h + (2 ^ 136 - p1305)) mod 2 ^ 136" "small_limbs 256 g" "length g = 17"
    unfolding g_def using add1305_value [of h minusp] small_mono [OF assms(2), of "2 ^ 60"] assms(1) mp by simp_all
  have fr: "freeze1305 h = map2 (\<lambda>g h. h XOR (- drop_bit 7 (g' ! 16) AND (g XOR h))) h g'" if "g' = g" for g'
    using that by (simp add: freeze1305_def g_def Let_def)
  have d: "unat (drop_bit 7 (g ! 16)) = unat (g ! 16) div 128"
    by (simp add: unat_drop_bit_eq drop_bit_nat_def)
  have g16: "unat (g ! 16) < 256" using g by (intro small_nth) auto
  show ?thesis
  proof (cases "limbs h < p1305")
    case True
    then have "2 ^ 128 * 128 \<le> limbs g" using g(1) by (simp add: p1305_def)
    then have "128 \<le> unat (g ! 16)" using limbs_top [OF g(3,2)] by simp
    then have "unat (drop_bit 7 (g ! 16)) = 1" using d g16 by simp
    then have "- drop_bit 7 (g ! 16) = - 1" by (metis unat_1 word_unat_eq_iff)
    then have "freeze1305 h = h" using fr [OF refl] select_all [of h g] assms(1) g(3) by simp
    then show ?thesis using assms True by simp
  next
    case False
    then have "limbs h + (2 ^ 136 - p1305) = 2 ^ 136 + (limbs h - p1305)" by (simp add: p1305_def)
    then have v: "limbs g = limbs h - p1305"
      using g(1) assms(3) by (simp only: mod_add_self1) (simp add: p1305_def)
    then have "limbs g < 2 ^ 130" using assms(3) by (simp add: p1305_def)
    then have "unat (g ! 16) < 128" using limbs_top [OF g(3,2)] by simp
    then have "unat (drop_bit 7 (g ! 16)) = 0" using d by simp
    then have "- drop_bit 7 (g ! 16) = 0" by (simp add: unat_eq_zero)
    then have "freeze1305 h = g" using fr [OF refl] select_none [of h g] assms(1) g(3) by simp
    moreover have "limbs h mod p1305 = limbs h - p1305"
      using False assms(3) by (simp add: mod_if [of "limbs h"] not_less)
    ultimately show ?thesis using g v by simp
  qed
qed

section \<open>The authenticator is Poly1305\<close>

definition clamp_mask :: "u8 list" where
  "clamp_mask = [255, 255, 255, 15, 252, 255, 255, 15, 252, 255, 255, 15, 252, 255, 255, 15]"

lemma and_low_byte:
  fixes a b c d :: nat
  assumes "a < 256" "c < 256"
  shows "(a + 256 * b) AND (c + 256 * d) = (a AND c) + 256 * (b AND d)"
proof -
  let ?x = "a + 256 * b" and ?y = "c + 256 * d"
  have t: "take_bit 8 ?x = a" "take_bit 8 ?y = c" "drop_bit 8 ?x = b" "drop_bit 8 ?y = d"
    using assms by (simp_all add: take_bit_nat_def drop_bit_nat_def)
  have "?x AND ?y = push_bit 8 (drop_bit 8 (?x AND ?y)) + take_bit 8 (?x AND ?y)"
    by (rule bits_ident [symmetric])
  also have "\<dots> = push_bit 8 (b AND d) + (a AND c)" by (simp only: drop_bit_and take_bit_and t)
  finally show ?thesis by (simp add: push_bit_nat_def mult.commute)
qed

lemma le_nat_and: "length bs = length ms \<Longrightarrow> le_nat bs AND le_nat ms = le_nat (map2 (AND) bs ms)"
  by (induction bs ms rule: list_induct2) (simp_all add: and_low_byte byte_bound unsigned_and_eq)

lemma ucast_and_byte: "(ucast (a AND b) :: u32) = ucast a AND ucast b" for a b :: u8
  by (rule bit_word_eqI) (auto simp: bit_simps)

lemma clamp_r_mask:
  assumes "32 \<le> length k"
  shows "clamp_r k = map ucast (map2 (AND) (take 16 k) clamp_mask) @ [0]"
proof -
  have f: "a AND 255 = a" for a :: u8
  proof -
    have "(255 :: u8) = - 1" by simp
    then show ?thesis by (simp only: and.right_neutral)
  qed
  obtain k' where k': "take 16 k = k'" "length k' = 16" using assms by simp
  then show ?thesis
    by (auto dest!: list16 simp: clamp_r_def clamp_mask_def f ucast_and_byte)
qed

lemma clamp_r_value:
  assumes "32 \<le> length k"
  shows "limbs (clamp_r k) = poly1305_clamp (le_nat (take 16 k))" "small_limbs 256 (clamp_r k)" "length (clamp_r k) = 17"
proof -
  have "le_nat clamp_mask = 0x0ffffffc0ffffffc0ffffffc0fffffff" by (simp add: clamp_mask_def)
  then show "limbs (clamp_r k) = poly1305_clamp (le_nat (take 16 k))"
    using assms le_nat_and [of "take 16 k" clamp_mask]
    by (simp add: clamp_r_mask limbs_append poly1305_clamp_def clamp_mask_def del: map_map)
qed (use assms in \<open>simp_all add: clamp_r_mask clamp_mask_def del: map_map\<close>)

lemma block1305_value:
  assumes "j \<le> 16" "j \<le> length m"
  shows "limbs (block1305 m j) = le_nat (take j m @ [1])" "small_limbs 256 (block1305 m j)" "length (block1305 m j) = 17"
proof -
  have "small_limbs 256 (replicate n 0)" for n by (induction n) simp_all
  then show "small_limbs 256 (block1305 m j)" by (simp add: block1305_def)
qed (use assms in \<open>simp_all add: block1305_def limbs_append le_nat_append\<close>)

lemma block_bound:
  assumes "j \<le> 16" "j \<le> length m"
  shows "le_nat (take j m @ [1]) \<le> 2 ^ 129"
proof -
  have "le_nat (take j m) < 256 ^ j" using le_nat_bound [of "take j m"] assms by simp
  moreover have "(256 :: nat) ^ j \<le> 256 ^ 16" using assms by (intro power_increasing) auto
  ultimately show ?thesis using assms by (simp add: le_nat_append)
qed

lemma poly1305_acc_unfold:
  "m \<noteq> [] \<Longrightarrow> poly1305_acc r acc m = poly1305_acc r ((acc + le_nat (take 16 m @ [1])) * r mod p1305) (drop 16 m)"
  by (cases m) simp_all

lemma poly1305_acc_mod: "poly1305_acc r (acc mod p1305) m mod p1305 = poly1305_acc r acc m mod p1305"
proof (cases m)
  case (Cons b m')
  have "(acc mod p1305 + le_nat (take 16 m @ [1])) * r mod p1305 = (acc + le_nat (take 16 m @ [1])) * r mod p1305"
    by (intro mod_mult_cong mod_add_cong refl) simp
  then show ?thesis using Cons by simp
qed simp

lemma poly1305_acc_bound: "acc < p1305 \<Longrightarrow> poly1305_acc r acc m < p1305"
  by (induction r acc m rule: poly1305_acc.induct) (simp_all add: p1305_def)

lemma onetimeauth_loop_value:
  assumes "length h = 17" "small_limbs 256 h" "limbs h < 2 ^ 130 + 2 ^ 40"
    and "length r = 17" "small_limbs 256 r" "n \<le> length m"
  shows "limbs (onetimeauth_loop h r m n) mod p1305 = poly1305_acc (limbs r) (limbs h) (take n m) mod p1305 \<and>
    limbs (onetimeauth_loop h r m n) < 2 ^ 130 + 2 ^ 40 \<and>
    small_limbs 256 (onetimeauth_loop h r m n) \<and> length (onetimeauth_loop h r m n) = 17"
  using assms
proof (induction h r m n rule: onetimeauth_loop.induct)
  case (1 h r m n)
  show ?case
  proof (cases "0 < n")
    case True
    define j where "j = min 16 n"
    define h1 where "h1 = add1305 h (block1305 m j)"
    define h2 where "h2 = squeeze1305 (mul1305 h1 r)"
    have j: "j \<le> 16" "j \<le> length m" "j \<le> n" using "1.prems" by (auto simp: j_def)
    note b = block1305_value [OF j(1,2)]
    have bb: "limbs (block1305 m j) \<le> 2 ^ 129"
      using block_bound [OF j(1,2)] b(1) by simp
    have h1: "limbs h1 = limbs h + le_nat (take j m @ [1])" "small_limbs 256 h1" "length h1 = 17"
      using add1305_value [of h "block1305 m j"] small_mono [OF "1.prems"(2), of "2 ^ 60"]
        small_mono [OF b(2), of "2 ^ 60"] "1.prems"(1,3) b bb by (simp_all add: h1_def)
    note m1 = mul1305_value [OF h1(3) "1.prems"(4) h1(2) "1.prems"(5)]
    note h2 = squeeze1305_value [OF m1(3,2), folded h2_def]
    have ih: "limbs (onetimeauth_loop h2 r (drop j m) (n - j)) mod p1305 =
        poly1305_acc (limbs r) (limbs h2) (take (n - j) (drop j m)) mod p1305 \<and>
      limbs (onetimeauth_loop h2 r (drop j m) (n - j)) < 2 ^ 130 + 2 ^ 40 \<and>
      small_limbs 256 (onetimeauth_loop h2 r (drop j m) (n - j)) \<and> length (onetimeauth_loop h2 r (drop j m) (n - j)) = 17"
      using "1.IH" [OF True j_def h1_def h2_def] h2 "1.prems"(4,5,6) j by simp
    have lp: "onetimeauth_loop h r m n = onetimeauth_loop h2 r (drop j m) (n - j)"
      using True by (subst onetimeauth_loop.simps) (simp add: Let_def j_def h1_def h2_def)
    have "limbs h2 mod p1305 = (limbs h + le_nat (take j m @ [1])) * limbs r mod p1305"
      using h2(1) m1(1) h1(1) by simp
    moreover have "take 16 (take n m) = take j m" "drop 16 (take n m) = take (n - j) (drop j m)"
      by (auto simp: j_def min_def drop_take)
    moreover have "take n m \<noteq> []" using True "1.prems"(6) by auto
    ultimately have "poly1305_acc (limbs r) (limbs h) (take n m) mod p1305 =
        poly1305_acc (limbs r) (limbs h2) (take (n - j) (drop j m)) mod p1305"
      using poly1305_acc_mod [of "limbs r" "limbs h2"] by (simp add: poly1305_acc_unfold)
    then show ?thesis using ih lp by simp
  next
    case False
    then show ?thesis using "1.prems" by (simp add: onetimeauth_loop.simps)
  qed
qed

lemma ucast_limbs: "small_limbs 256 xs \<Longrightarrow> map ucast xs = (le_bytes (length xs) (limbs xs) :: u8 list)"
proof (induction xs)
  case (Cons x xs)
  have "of_nat (unat x + 256 * limbs xs) = (ucast x :: u8)"
    using of_nat_byte [of "unat x"] by (simp del: of_nat_add)
  moreover have "(unat x + 256 * limbs xs) div 256 = limbs xs" using Cons.prems by simp
  ultimately have "le_bytes (length (x # xs)) (limbs (x # xs)) = ucast x # le_bytes (length xs) (limbs xs)"
    by (simp del: of_nat_add)
  then show ?case using Cons by simp
qed simp

lemma take_le_bytes: "take i (le_bytes n v) = le_bytes (min i n) v"
proof (induction n v arbitrary: i rule: le_bytes.induct)
  case (2 n v)
  then show ?case by (cases i) simp_all
qed simp

theorem crypto_onetimeauth_poly1305:
  assumes "unat n \<le> length m" "32 \<le> length k"
  shows "crypto_onetimeauth m n k = Some (poly1305 (take (unat n) m) k)"
proof -
  define r where "r = limbs (clamp_r k)"
  define a where "a = poly1305_acc r 0 (take (unat n) m)"
  define h where "h = onetimeauth_loop (replicate 17 0) (clamp_r k) m (unat n)"
  note c = clamp_r_value [OF assms(2)]
  have z: "small_limbs 256 (replicate n 0)" for n by (induction n) simp_all
  have h: "limbs h mod p1305 = a mod p1305" "limbs h < 2 ^ 130 + 2 ^ 40" "small_limbs 256 h" "length h = 17"
    using onetimeauth_loop_value [of "replicate 17 0" "clamp_r k" "unat n" m] c(2,3) z assms(1)
    by (simp_all add: h_def a_def r_def)
  have "a < p1305" unfolding a_def by (rule poly1305_acc_bound) (simp add: p1305_def)
  moreover have "limbs h < 2 * p1305" using h(2) by (simp add: p1305_def)
  ultimately have f: "limbs (freeze1305 h) = a" "small_limbs 256 (freeze1305 h)" "length (freeze1305 h) = 17"
    using freeze1305_value [OF h(4,3)] h(1) by simp_all
  define s where "s = map ucast (take 16 (drop 16 k)) @ [0 :: u32]"
  have s: "limbs s = le_nat (take 16 (drop 16 k))" "small_limbs 256 s" "length s = 17"
    using assms(2) by (simp_all add: s_def limbs_append)
  have sb: "limbs s < 2 ^ 128" using le_nat_bound [of "take 16 (drop 16 k)"] assms(2) s(1) by simp
  define t where "t = add1305 (freeze1305 h) s"
  have t: "limbs t = a + limbs s" "small_limbs 256 t" "length t = 17"
    using add1305_value [OF f(3) s(3)] small_mono [OF f(2), of "2 ^ 60"] small_mono [OF s(2), of "2 ^ 60"]
      f(1) sb \<open>a < p1305\<close> by (simp_all add: t_def p1305_def)
  have "map ucast (take 16 t) = take 16 (map ucast t :: u8 list)" by (simp add: take_map)
  also have "\<dots> = le_bytes 16 (a + limbs s)" using ucast_limbs [OF t(2)] t(1,3) by (simp add: take_le_bytes)
  finally show ?thesis
    using assms s(1) c(1)
    by (simp add: crypto_onetimeauth_def Let_def poly1305_def a_def r_def flip: h_def s_def t_def)
qed

theorem crypto_onetimeauth_verify_iff:
  assumes "16 \<le> length h" "unat n \<le> length m" "32 \<le> length k"
  shows "crypto_onetimeauth_verify h m n k =
    Some (if take 16 h = poly1305 (take (unat n) m) k then 0 else - 1)"
  using assms by (simp add: crypto_onetimeauth_verify_def crypto_onetimeauth_poly1305
      crypto_verify_16_def vn_iff poly1305_def)

end
