(* ===== verification/Nacl_Secretbox.thy ===== *)
theory Nacl_Secretbox
  imports Nacl_Stream Nacl_Auth
begin

text \<open>
  Crypto/src/tweetnacl.c, the authenticated cipher: \<open>crypto_secretbox\<close> and
  \<open>crypto_secretbox_open\<close>.  Message and ciphertext are buffers of \<open>d\<close> bytes whose first 32
  are padding; the first 32 bytes of the keystream are the key of the authenticator.  The result is
  the return value and the output buffer; the output and the input buffers do not overlap.
\<close>

section \<open>The code\<close>

definition crypto_secretbox ::
  "u8 list \<Rightarrow> u8 list \<Rightarrow> u64 \<Rightarrow> u8 list \<Rightarrow> u8 list \<Rightarrow> (int \<times> u8 list) option" where
  "crypto_secretbox c m d n k =
     (if d < 32 then Some (- 1, c)
      else do {
        (_, c) \<leftarrow> crypto_stream_xor c m d n k;
        tag \<leftarrow> crypto_onetimeauth (drop 32 c) (d - 32) c;
        let c = take 16 c @ tag @ drop 32 c;
        Some (0, replicate 16 0 @ drop 16 c)
      })"

definition crypto_secretbox_open ::
  "u8 list \<Rightarrow> u8 list \<Rightarrow> u64 \<Rightarrow> u8 list \<Rightarrow> u8 list \<Rightarrow> (int \<times> u8 list) option" where
  "crypto_secretbox_open m c d n k =
     (if d < 32 then Some (- 1, m)
      else do {
        (_, x) \<leftarrow> crypto_stream (replicate 32 0) 32 n k;
        v \<leftarrow> crypto_onetimeauth_verify (drop 16 c) (drop 32 c) (d - 32) x;
        if v \<noteq> 0 then Some (- 1, m)
        else do {
          (_, m) \<leftarrow> crypto_stream_xor m c d n k;
          Some (0, replicate 32 0 @ drop 32 m)
        }
      })"

section \<open>What it computes\<close>

text \<open>\<open>xor_stream n k i bs\<close> is \<open>bs\<close> against the keystream from byte \<open>i\<close> on.\<close>

definition xor_stream :: "u8 list \<Rightarrow> u8 list \<Rightarrow> nat \<Rightarrow> u8 list \<Rightarrow> u8 list" where
  "xor_stream n k i bs = map (\<lambda>j. bs ! j XOR xsalsa20 n k (i + j)) [0..<length bs]"

definition auth_key :: "u8 list \<Rightarrow> u8 list \<Rightarrow> u8 list" where
  "auth_key n k = map (xsalsa20 n k) [0..<32]"

text \<open>A sealed message: 16 zero bytes, the Poly1305 tag of the ciphertext, the ciphertext.\<close>

definition sealed :: "u8 list \<Rightarrow> u8 list \<Rightarrow> u8 list \<Rightarrow> u8 list" where
  "sealed n k msg =
     (let ct = xor_stream n k 32 msg in replicate 16 0 @ poly1305 ct (auth_key n k) @ ct)"

lemma length_xor_stream [simp]: "length (xor_stream n k i bs) = length bs"
  by (simp add: xor_stream_def)

lemma xor_stream_invol [simp]: "xor_stream n k i (xor_stream n k i bs) = bs"
  by (rule nth_equalityI) (simp_all add: xor_stream_def xor.assoc)

lemma length_auth_key [simp]: "length (auth_key n k) = 32"
  by (simp add: auth_key_def)

lemma length_poly1305 [simp]: "length (poly1305 m k) = 16"
  by (simp add: poly1305_def)

lemma length_sealed [simp]: "length (sealed n k msg) = 32 + length msg"
  by (simp add: sealed_def Let_def)

lemma drop_xor_stream: "drop j (xor_stream n k i bs) = xor_stream n k (i + j) (drop j bs)"
  by (cases "j \<le> length bs") (auto intro!: nth_equalityI simp: xor_stream_def add_ac)

lemma crypto_stream_xor_bytes:
  assumes "length c = unat d" "length m = unat d" "24 \<le> length n" "32 \<le> length k"
  shows "crypto_stream_xor c m d n k = Some (0, xor_stream n k 0 m)"
  using assms by (simp add: crypto_stream_xor_keystream xor_stream_def)

lemma unat_minus_32: "\<not> d < (32 :: u64) \<Longrightarrow> unat (d - 32) = unat d - 32"
  by (simp add: not_less unat_sub)

lemma xor_stream_pad:
  assumes "32 \<le> length m" "take 32 m = replicate 32 0"
  shows "take 32 (xor_stream n k 0 m) = auth_key n k"
proof (rule nth_equalityI)
  fix i assume "i < length (take 32 (xor_stream n k 0 m))"
  then have i: "i < 32" "i < length m" using assms(1) by simp_all
  then have "m ! i = 0" using assms(2) by (metis nth_replicate nth_take)
  then show "take 32 (xor_stream n k 0 m) ! i = auth_key n k ! i"
    using i by (simp add: xor_stream_def auth_key_def)
qed (use assms(1) in simp)

lemma poly1305_key: "poly1305 m (take 32 k) = poly1305 m k"
  by (simp add: poly1305_def drop_take)

theorem crypto_secretbox_result:
  assumes "length c = unat d" "length m = unat d" "32 \<le> length m" "24 \<le> length n" "32 \<le> length k"
  shows "crypto_secretbox c m d n k =
    Some (0, replicate 16 0 @ poly1305 (xor_stream n k 32 (drop 32 m)) (take 32 (xor_stream n k 0 m)) @
             xor_stream n k 32 (drop 32 m))"
proof -
  have d: "\<not> d < 32" using assms(2,3) by (simp add: word_less_nat_alt)
  define x where "x = xor_stream n k 0 m"
  have s: "crypto_stream_xor c m d n k = Some (0, x)"
    unfolding x_def by (rule crypto_stream_xor_bytes) (use assms in simp_all)
  have x: "length x = unat d" "drop 32 x = xor_stream n k 32 (drop 32 m)"
    using assms drop_xor_stream [of 32 n k 0 m] by (simp_all add: x_def)
  have t: "crypto_onetimeauth (drop 32 x) (d - 32) x = Some (poly1305 (drop 32 x) (take 32 x))"
    using crypto_onetimeauth_poly1305 [of "d - 32" "drop 32 x" x] d x(1) poly1305_key [of "drop 32 x" x]
      assms(2,3) by (simp add: unat_minus_32)
  have "length (take 16 x) = 16" using x(1) assms(2,3) by simp
  then show ?thesis using d s t x(2) by (simp add: crypto_secretbox_def Let_def x_def [symmetric])
qed

theorem crypto_secretbox_seals:
  assumes "length c = unat d" "length m = unat d" "32 \<le> length m" "take 32 m = replicate 32 0"
    and "24 \<le> length n" "32 \<le> length k"
  shows "crypto_secretbox c m d n k = Some (0, sealed n k (drop 32 m))"
  using crypto_secretbox_result [OF assms(1-3,5,6)] xor_stream_pad [OF assms(3,4)]
  by (simp add: sealed_def Let_def)

theorem crypto_secretbox_open_iff:
  assumes "length m = unat d" "length c = unat d" "32 \<le> length c" "24 \<le> length n" "32 \<le> length k"
  shows "crypto_secretbox_open m c d n k =
    Some (if take 16 (drop 16 c) = poly1305 (drop 32 c) (auth_key n k)
          then (0, replicate 32 0 @ xor_stream n k 32 (drop 32 c)) else (- 1, m))"
proof -
  have d: "\<not> d < 32" using assms(2,3) by (simp add: word_less_nat_alt)
  have x: "crypto_stream (replicate 32 0) 32 n k = Some (0, auth_key n k)"
    using crypto_stream_keystream [of 32 "replicate 32 0" n k] assms(4,5) by (simp add: auth_key_def)
  have v: "crypto_onetimeauth_verify (drop 16 c) (drop 32 c) (d - 32) (auth_key n k) =
      Some (if take 16 (drop 16 c) = poly1305 (drop 32 c) (auth_key n k) then 0 else - 1)"
    using crypto_onetimeauth_verify_iff [of "drop 16 c" "d - 32" "drop 32 c" "auth_key n k"] assms d
    by (simp add: unat_minus_32)
  have "crypto_stream_xor m c d n k = Some (0, xor_stream n k 0 c)"
    by (rule crypto_stream_xor_bytes) (use assms in simp_all)
  then show ?thesis
    using d x v drop_xor_stream [of 32 n k 0 c] by (simp add: crypto_secretbox_open_def)
qed

lemma secretbox_short:
  "d < 32 \<Longrightarrow> crypto_secretbox c m d n k = Some (- 1, c)"
  "d < 32 \<Longrightarrow> crypto_secretbox_open m c d n k = Some (- 1, m)"
  by (simp_all add: crypto_secretbox_def crypto_secretbox_open_def)

lemma secretbox_open_sealed:
  assumes "length m = unat d" "unat d = 32 + length msg" "24 \<le> length n" "32 \<le> length k"
  shows "crypto_secretbox_open m (sealed n k msg) d n k = Some (0, replicate 32 0 @ msg)"
  using crypto_secretbox_open_iff [of m d "sealed n k msg" n k] assms
  by (simp add: sealed_def Let_def)

lemma sealed_iff:
  assumes "32 \<le> length c"
  shows "drop 16 c = drop 16 (sealed n k msg) \<longleftrightarrow>
    take 16 (drop 16 c) = poly1305 (drop 32 c) (auth_key n k) \<and> msg = xor_stream n k 32 (drop 32 c)"
proof -
  have "drop 16 c = take 16 (drop 16 c) @ drop 32 c"
    using append_take_drop_id [of 16 "drop 16 c"] by simp
  then have "drop 16 c = drop 16 (sealed n k msg) \<longleftrightarrow>
      take 16 (drop 16 c) @ drop 32 c = poly1305 (xor_stream n k 32 msg) (auth_key n k) @ xor_stream n k 32 msg"
    by (simp add: sealed_def Let_def)
  also have "\<dots> \<longleftrightarrow> take 16 (drop 16 c) = poly1305 (xor_stream n k 32 msg) (auth_key n k) \<and> drop 32 c = xor_stream n k 32 msg"
    using assms by (intro append_eq_append_conv) simp
  finally show ?thesis by (metis xor_stream_invol)
qed

end
