(* ===== verification/Nacl_Curve.thy ===== *)
theory Nacl_Curve
  imports Nacl_Field Nacl_Secretbox
begin

text \<open>
  Crypto/src/tweetnacl.c, scalar multiplication on Curve25519 and the public-key box built on it.
  The reference is the function X25519 of RFC 7748 on integers modulo \<open>2 ^ 255 - 19\<close>: the
  Montgomery ladder over the bits of the clamped scalar and a final inversion.
\<close>

section \<open>The code\<close>

definition clamp_scalar :: "u8 list \<Rightarrow> u8 list" where
  "clamp_scalar n =
     (let z = take 31 n @ [(n ! 31 AND 127) OR 64] in z[0 := z ! 0 AND 248])"

text \<open>The field operations of one iteration, in the order of the source.\<close>

definition ladder_arith :: "gf \<Rightarrow> gf \<times> gf \<times> gf \<times> gf \<Rightarrow> (gf \<times> gf \<times> gf \<times> gf) option" where
  "ladder_arith x = (\<lambda>(a, b, c, d). do {
     e \<leftarrow> A_gf a c;
     a \<leftarrow> Z_gf a c;
     c \<leftarrow> A_gf b d;
     b \<leftarrow> Z_gf b d;
     d \<leftarrow> S_gf e;
     f \<leftarrow> S_gf a;
     a \<leftarrow> M_gf c a;
     c \<leftarrow> M_gf b e;
     e \<leftarrow> A_gf a c;
     a \<leftarrow> Z_gf a c;
     b \<leftarrow> S_gf a;
     c \<leftarrow> Z_gf d f;
     a \<leftarrow> M_gf c gf_121665;
     a \<leftarrow> A_gf a d;
     c \<leftarrow> M_gf c a;
     a \<leftarrow> M_gf d f;
     d \<leftarrow> M_gf b x;
     b \<leftarrow> S_gf e;
     Some (a, b, c, d)
   })"

definition ladder_step :: "u8 list \<Rightarrow> gf \<Rightarrow> nat \<Rightarrow> gf \<times> gf \<times> gf \<times> gf \<Rightarrow> (gf \<times> gf \<times> gf \<times> gf) option" where
  "ladder_step z x i = (\<lambda>(a, b, c, d).
     let r = uint (drop_bit (i mod 8) (z ! (i div 8)) AND 1);
         (a, b) = sel25519 a b r;
         (c, d) = sel25519 c d r
     in do {
       (a, b, c, d) \<leftarrow> ladder_arith x (a, b, c, d);
       let (a, b) = sel25519 a b r;
       let (c, d) = sel25519 c d r;
       Some (a, b, c, d)
     })"

text \<open>The scalar \<open>n\<close> and the point \<open>p\<close> are arrays of 32 bytes; a shorter one is read out of
  bounds.\<close>

definition crypto_scalarmult :: "u8 list \<Rightarrow> u8 list \<Rightarrow> u8 list option" where
  "crypto_scalarmult n p =
     (if length n < 32 \<or> length p < 32 then None
      else do {
        let z = clamp_scalar n;
        let x = unpack25519 p;
        (a, b, c, d) \<leftarrow> foldM (ladder_step z x) (rev [0..<255]) (gf1, x, gf0, gf1);
        c \<leftarrow> inv25519 c;
        a \<leftarrow> M_gf a c;
        pack25519 a
      })"

definition base_point :: "u8 list" where "base_point = 9 # replicate 31 0"

definition crypto_scalarmult_base :: "u8 list \<Rightarrow> u8 list option" where
  "crypto_scalarmult_base n = crypto_scalarmult n base_point"

text \<open>\<open>randombytes\<close> is declared but not defined in the repository: the 32 bytes it delivers are
  an argument.  The result is the pair of the public and the secret key.\<close>

definition crypto_box_keypair :: "u8 list \<Rightarrow> (u8 list \<times> u8 list) option" where
  "crypto_box_keypair random =
     do { y \<leftarrow> crypto_scalarmult_base random; Some (y, random) }"

definition crypto_box_beforenm :: "u8 list \<Rightarrow> u8 list \<Rightarrow> u8 list option" where
  "crypto_box_beforenm y x =
     do { s \<leftarrow> crypto_scalarmult x y; Some (crypto_core_hsalsa20 (replicate 16 0) s sigma) }"

definition crypto_box_afternm ::
  "u8 list \<Rightarrow> u8 list \<Rightarrow> u64 \<Rightarrow> u8 list \<Rightarrow> u8 list \<Rightarrow> (int \<times> u8 list) option" where
  "crypto_box_afternm c m d n k = crypto_secretbox c m d n k"

definition crypto_box_open_afternm ::
  "u8 list \<Rightarrow> u8 list \<Rightarrow> u64 \<Rightarrow> u8 list \<Rightarrow> u8 list \<Rightarrow> (int \<times> u8 list) option" where
  "crypto_box_open_afternm m c d n k = crypto_secretbox_open m c d n k"

definition crypto_box ::
  "u8 list \<Rightarrow> u8 list \<Rightarrow> u64 \<Rightarrow> u8 list \<Rightarrow> u8 list \<Rightarrow> u8 list \<Rightarrow> (int \<times> u8 list) option" where
  "crypto_box c m d n y x =
     do { k \<leftarrow> crypto_box_beforenm y x; crypto_box_afternm c m d n k }"

definition crypto_box_open ::
  "u8 list \<Rightarrow> u8 list \<Rightarrow> u64 \<Rightarrow> u8 list \<Rightarrow> u8 list \<Rightarrow> u8 list \<Rightarrow> (int \<times> u8 list) option" where
  "crypto_box_open m c d n y x =
     do { k \<leftarrow> crypto_box_beforenm y x; crypto_box_open_afternm m c d n k }"

section \<open>Reference: X25519\<close>

text \<open>The state is \<open>(x_2, x_3, z_2, z_3)\<close>, all modulo \<open>p25519\<close>.\<close>

type_synonym ladder = "int \<times> int \<times> int \<times> int"

definition montgomery :: "int \<Rightarrow> ladder \<Rightarrow> ladder" where
  "montgomery u = (\<lambda>(x2, x3, z2, z3).
     let A = x2 + z2; AA = A * A;
         B = x2 - z2; BB = B * B;
         E = AA - BB;
         C = x3 + z3; D = x3 - z3;
         DA = D * A; CB = C * B
     in (AA * BB mod p25519,
         (DA + CB) * (DA + CB) mod p25519,
         E * (AA + 121665 * E) mod p25519,
         u * ((DA - CB) * (DA - CB)) mod p25519))"

definition ladder_swap :: "bool \<Rightarrow> ladder \<Rightarrow> ladder" where
  "ladder_swap b = (\<lambda>(x2, x3, z2, z3). if b then (x3, x2, z3, z2) else (x2, x3, z2, z3))"

definition decode_scalar :: "u8 list \<Rightarrow> nat" where
  "decode_scalar n = le_nat ((take 31 n @ [(n ! 31 AND 127) OR 64])[0 := n ! 0 AND 248])"

definition X25519 :: "u8 list \<Rightarrow> u8 list \<Rightarrow> u8 list" where
  "X25519 n p =
     (let k = decode_scalar n;
          u = int (le_nat (take 32 p) mod 2 ^ 255);
          (x2, x3, z2, z3) =
            fold (\<lambda>i s. ladder_swap (bit k i) (montgomery u (ladder_swap (bit k i) s))) (rev [0..<255]) (1, u, 0, 1)
      in le_bytes 32 (nat (x2 * z2 ^ nat (p25519 - 2) mod p25519)))"

section \<open>Bits of the scalar\<close>

lemma bit_byte_nat:
  fixes b :: u8
  shows "bit (unat b + 256 * m) i = (if i < 8 then bit b i else bit m (i - 8))"
proof -
  let ?v = "unat b + 256 * m"
  have t: "take_bit 8 ?v = unat b" "drop_bit 8 ?v = m"
    using byte_bound [of b] by (simp_all add: take_bit_nat_def drop_bit_nat_def)
  show ?thesis
  proof (cases "i < 8")
    case True
    then have "bit ?v i = bit (take_bit 8 ?v) i" by (simp add: bit_take_bit_iff)
    then show ?thesis using True t(1) by (simp add: bit_unsigned_iff)
  next
    case False
    then have "bit ?v i = bit (drop_bit 8 ?v) (i - 8)" by (simp add: bit_drop_bit_eq)
    then show ?thesis using False t(2) by simp
  qed
qed

lemma bit_le_nat: "i < 8 * length bs \<Longrightarrow> bit (le_nat bs) i = bit (bs ! (i div 8)) (i mod 8)"
proof (induction bs arbitrary: i)
  case (Cons b bs)
  show ?case
  proof (cases "i < 8")
    case False
    then have "i div 8 = Suc ((i - 8) div 8)" "i mod 8 = (i - 8) mod 8" by (simp_all add: le_div_geq le_mod_geq)
    then show ?thesis using Cons False by (simp add: bit_byte_nat)
  qed (simp add: bit_byte_nat)
qed simp

lemma scalar_bit:
  assumes "32 \<le> length n" "i < 255"
  shows "uint (drop_bit (i mod 8) (clamp_scalar n ! (i div 8)) AND 1) = (if bit (decode_scalar n) i then 1 else 0)"
proof -
  have l: "length (clamp_scalar n) = 32" "decode_scalar n = le_nat (clamp_scalar n)"
    using assms(1) by (simp_all add: clamp_scalar_def decode_scalar_def nth_append)
  have "drop_bit k b AND 1 = (if bit b k then 1 else 0)" for b :: u8 and k
    by (simp add: bit_iff_odd_drop_bit odd_iff_mod_2_eq_one and_one_eq)
  then show ?thesis using bit_le_nat [of i "clamp_scalar n"] assms(2) l by simp
qed

section \<open>The ladder\<close>

definition simulates :: "gf \<times> gf \<times> gf \<times> gf \<Rightarrow> ladder \<Rightarrow> bool" where
  "simulates = (\<lambda>(a, b, c, d) (x2, x3, z2, z3).
     gf_elem (2 ^ 17) a x2 \<and> gf_elem (2 ^ 17) b x3 \<and> gf_elem (2 ^ 17) c z2 \<and> gf_elem (2 ^ 17) d z3)"

lemma sel_elem:
  assumes "gf_elem B p x" "gf_elem B q y"
  shows "sel25519 p q (if b then 1 else 0) = (if b then (q, p) else (p, q))"
  using assms by (simp add: sel25519_swap gf_elem_def)

lemma elem_121665: "gf_elem (2 ^ 20) gf_121665 121665"
  by (simp add: gf_elem_def gf_121665_def bounded_def) (simp add: eval_nat_numeral)

lemma ladder_arith_simulates:
  assumes "simulates (a, b, c, d) (x2, x3, z2, z3)" "gf_elem (2 ^ 17) x u"
  shows "\<exists>s. ladder_arith x (a, b, c, d) = Some s \<and> simulates s (montgomery u (x2, x3, z2, z3))"
proof -
  have i: "gf_elem (2 ^ 17) a x2" "gf_elem (2 ^ 17) b x3" "gf_elem (2 ^ 17) c z2" "gf_elem (2 ^ 17) d z3"
    using assms(1) by (simp_all add: simulates_def)
  note up = elem_mono [where C = "2 ^ 20"]
  have add: "\<exists>r. A_gf p q = Some r \<and> gf_elem (2 ^ 20) r (v + w)"
    and sub: "\<exists>r. Z_gf p q = Some r \<and> gf_elem (2 ^ 20) r (v - w)"
    if "gf_elem (2 ^ 17) p v" "gf_elem (2 ^ 17) q w" for p q v w
    by (rule A_gf_elem [OF that] Z_gf_elem [OF that]; simp)+
  obtain e where e: "A_gf a c = Some e" "gf_elem (2 ^ 20) e (x2 + z2)" using add [OF i(1,3)] by blast
  obtain a1 where a1: "Z_gf a c = Some a1" "gf_elem (2 ^ 20) a1 (x2 - z2)" using sub [OF i(1,3)] by blast
  obtain c1 where c1: "A_gf b d = Some c1" "gf_elem (2 ^ 20) c1 (x3 + z3)" using add [OF i(2,4)] by blast
  obtain b1 where b1: "Z_gf b d = Some b1" "gf_elem (2 ^ 20) b1 (x3 - z3)" using sub [OF i(2,4)] by blast
  let ?AA = "(x2 + z2) * (x2 + z2)" and ?BB = "(x2 - z2) * (x2 - z2)"
  let ?CB = "(x3 + z3) * (x2 - z2)" and ?DA = "(x3 - z3) * (x2 + z2)"
  obtain d1 where d1: "S_gf e = Some d1" "gf_elem (2 ^ 17) d1 ?AA" using S_gf_elem [OF e(2)] by blast
  obtain f where f: "S_gf a1 = Some f" "gf_elem (2 ^ 17) f ?BB" using S_gf_elem [OF a1(2)] by blast
  obtain a2 where a2: "M_gf c1 a1 = Some a2" "gf_elem (2 ^ 17) a2 ?CB" using M_gf_elem [OF c1(2) a1(2)] by blast
  obtain c2 where c2: "M_gf b1 e = Some c2" "gf_elem (2 ^ 17) c2 ?DA" using M_gf_elem [OF b1(2) e(2)] by blast
  obtain e1 where e1: "A_gf a2 c2 = Some e1" "gf_elem (2 ^ 20) e1 (?CB + ?DA)" using add [OF a2(2) c2(2)] by blast
  obtain a3 where a3: "Z_gf a2 c2 = Some a3" "gf_elem (2 ^ 20) a3 (?CB - ?DA)" using sub [OF a2(2) c2(2)] by blast
  obtain b2 where b2: "S_gf a3 = Some b2" "gf_elem (2 ^ 17) b2 ((?CB - ?DA) * (?CB - ?DA))"
    using S_gf_elem [OF a3(2)] by blast
  obtain c3 where c3: "Z_gf d1 f = Some c3" "gf_elem (2 ^ 20) c3 (?AA - ?BB)" using sub [OF d1(2) f(2)] by blast
  obtain a4 where a4: "M_gf c3 gf_121665 = Some a4" "gf_elem (2 ^ 17) a4 ((?AA - ?BB) * 121665)"
    using M_gf_elem [OF c3(2) elem_121665] by blast
  obtain a5 where a5: "A_gf a4 d1 = Some a5" "gf_elem (2 ^ 20) a5 ((?AA - ?BB) * 121665 + ?AA)"
    using add [OF a4(2) d1(2)] by blast
  obtain c4 where c4: "M_gf c3 a5 = Some c4" "gf_elem (2 ^ 17) c4 ((?AA - ?BB) * ((?AA - ?BB) * 121665 + ?AA))"
    using M_gf_elem [OF c3(2) a5(2)] by blast
  obtain a6 where a6: "M_gf d1 f = Some a6" "gf_elem (2 ^ 17) a6 (?AA * ?BB)"
    using M_gf_elem [OF up [OF d1(2)] up [OF f(2)]] by auto
  obtain d2 where d2: "M_gf b2 x = Some d2" "gf_elem (2 ^ 17) d2 ((?CB - ?DA) * (?CB - ?DA) * u)"
    using M_gf_elem [OF up [OF b2(2)] up [OF assms(2)]] by auto
  obtain b3 where b3: "S_gf e1 = Some b3" "gf_elem (2 ^ 17) b3 ((?CB + ?DA) * (?CB + ?DA))"
    using S_gf_elem [OF e1(2)] by blast
  have "ladder_arith x (a, b, c, d) = Some (a6, b3, c4, d2)"
    by (simp add: ladder_arith_def e a1 c1 b1 d1 f a2 c2 e1 a3 b2 c3 a4 a5 c4 a6 d2 b3)
  moreover have "simulates (a6, b3, c4, d2) (montgomery u (x2, x3, z2, z3))"
  proof -
    have "?DA + ?CB = ?CB + ?DA" "(?DA - ?CB) * (?DA - ?CB) = (?CB - ?DA) * (?CB - ?DA)"
      "?AA + 121665 * (?AA - ?BB) = (?AA - ?BB) * 121665 + ?AA"
      by (simp_all add: algebra_simps)
    then show ?thesis
      using a6(2) b3(2) c4(2) d2(2)
      by (simp only: simulates_def montgomery_def prod.case Let_def elem_mod mult.commute [of u])
  qed
  ultimately show ?thesis by blast
qed

lemma ladder_step_simulates:
  assumes "simulates s t" "gf_elem (2 ^ 17) x u" "32 \<le> length n" "i < 255"
  shows "\<exists>s'. ladder_step (clamp_scalar n) x i s = Some s' \<and>
    simulates s' (ladder_swap (bit (decode_scalar n) i) (montgomery u (ladder_swap (bit (decode_scalar n) i) t)))"
proof -
  obtain a b c d where s: "s = (a, b, c, d)" by (cases s) auto
  obtain x2 x3 z2 z3 where t: "t = (x2, x3, z2, z3)" by (cases t) auto
  define k where "k = bit (decode_scalar n) i"
  note r = scalar_bit [OF assms(3,4), folded k_def]
  have e: "gf_elem (2 ^ 17) a x2" "gf_elem (2 ^ 17) b x3" "gf_elem (2 ^ 17) c z2" "gf_elem (2 ^ 17) d z3"
    using assms(1) by (simp_all add: simulates_def s t)
  define s1 where "s1 = (if k then (b, a, d, c) else (a, b, c, d))"
  have "simulates s1 (ladder_swap k t)" using e by (simp add: s1_def t ladder_swap_def simulates_def)
  then obtain a' b' c' d' where l: "ladder_arith x s1 = Some (a', b', c', d')"
    "simulates (a', b', c', d') (montgomery u (ladder_swap k t))"
    using ladder_arith_simulates [of _ _ _ _ _ _ _ _ x u] assms(2) by (cases s1; cases "ladder_swap k t") (auto, blast)
  obtain y2 y3 w2 w3 where m: "montgomery u (ladder_swap k t) = (y2, y3, w2, w3)" by (cases "montgomery u (ladder_swap k t)") auto
  have e': "gf_elem (2 ^ 17) a' y2" "gf_elem (2 ^ 17) b' y3" "gf_elem (2 ^ 17) c' w2" "gf_elem (2 ^ 17) d' w3"
    using l(2) by (simp_all add: simulates_def m)
  have "ladder_step (clamp_scalar n) x i s = Some (if k then (b', a', d', c') else (a', b', c', d'))"
    using l(1) unfolding ladder_step_def s s1_def
    by (cases k) (simp_all add: r sel_elem [OF e(1,2), of True, simplified] sel_elem [OF e(3,4), of True, simplified]
      sel_elem [OF e(1,2), of False, simplified] sel_elem [OF e(3,4), of False, simplified]
      sel_elem [OF e'(1,2), of True, simplified] sel_elem [OF e'(3,4), of True, simplified]
      sel_elem [OF e'(1,2), of False, simplified] sel_elem [OF e'(3,4), of False, simplified])
  moreover have "simulates (if k then (b', a', d', c') else (a', b', c', d')) (ladder_swap k (montgomery u (ladder_swap k t)))"
    unfolding m using e' by (simp add: ladder_swap_def simulates_def)
  ultimately show ?thesis by (simp add: k_def)
qed

lemma ladder_simulates:
  assumes "simulates s t" "gf_elem (2 ^ 17) x u" "32 \<le> length n" "set is \<subseteq> {..<255}"
  shows "\<exists>s'. foldM (ladder_step (clamp_scalar n) x) is s = Some s' \<and>
    simulates s' (fold (\<lambda>i s. ladder_swap (bit (decode_scalar n) i) (montgomery u (ladder_swap (bit (decode_scalar n) i) s))) is t)"
  using assms(1,4)
proof (induction "is" arbitrary: s t)
  case (Cons i "is")
  then obtain s' where "ladder_step (clamp_scalar n) x i s = Some s'"
    "simulates s' (ladder_swap (bit (decode_scalar n) i) (montgomery u (ladder_swap (bit (decode_scalar n) i) t)))"
    using ladder_step_simulates [OF Cons.prems(1) assms(2,3), of i] by auto
  then show ?case using Cons.IH Cons.prems(2) by simp
qed simp

lemma set_rev_upt: "set (rev [0..<n]) \<subseteq> {..<n}"
  by auto

theorem crypto_scalarmult_X25519:
  assumes "32 \<le> length n" "length p = 32"
  shows "crypto_scalarmult n p = Some (X25519 n p)"
proof -
  define positions where "positions = rev [0..<255 :: nat]"
  define x where "x = unpack25519 p"
  define u where "u = int (le_nat p mod 2 ^ 255)"
  let ?st = "\<lambda>i s. ladder_swap (bit (decode_scalar n) i) (montgomery u (ladder_swap (bit (decode_scalar n) i) s))"
  have x: "gf_elem (2 ^ 17) x u" unfolding x_def u_def by (rule unpack25519_elem) fact
  have "gf_elem (2 ^ 17) gf1 1" "gf_elem (2 ^ 17) gf0 0"
    by (simp_all add: gf_elem_def gf1_def gf0_def bounded_def) (simp_all add: eval_nat_numeral)
  then have sim: "simulates (gf1, x, gf0, gf1) (1, u, 0, 1)" using x by (simp add: simulates_def)
  obtain s where s: "foldM (ladder_step (clamp_scalar n) x) positions (gf1, x, gf0, gf1) = Some s"
    "simulates s (fold ?st positions (1, u, 0, 1))"
    using ladder_simulates [OF sim x assms(1) set_rev_upt [of 255]] unfolding positions_def by blast
  obtain a b c d where q: "s = (a, b, c, d)" by (cases s) auto
  obtain x2 x3 z2 z3 where t: "fold ?st positions (1, u, 0, 1) = (x2, x3, z2, z3)"
    by (rule prod_cases4)
  have "gf_elem (2 ^ 17) a x2 \<and> gf_elem (2 ^ 17) c z2" using s(2) unfolding t q by (simp add: simulates_def)
  then have e: "gf_elem (2 ^ 20) a x2" "gf_elem (2 ^ 20) c z2"
    using elem_mono [of "2 ^ 17" _ _ "2 ^ 20"] by simp_all
  obtain c' where c': "inv25519 c = Some c'" "gf_elem (2 ^ 20) c' (z2 ^ nat (p25519 - 2))"
    using inv25519_elem [OF e(2)] by blast
  obtain a' where a': "M_gf a c' = Some a'" "gf_elem (2 ^ 17) a' (x2 * z2 ^ nat (p25519 - 2))"
    using M_gf_elem [OF e(1) c'(2)] by blast
  have "pack25519 a' = Some (le_bytes 32 (nat (x2 * z2 ^ nat (p25519 - 2) mod p25519)))"
    by (rule pack25519_value [OF a'(2)]) simp_all
  then have "crypto_scalarmult n p = Some (le_bytes 32 (nat (x2 * z2 ^ nat (p25519 - 2) mod p25519)))"
    unfolding crypto_scalarmult_def positions_def [symmetric] x_def [symmetric] Let_def
    using assms s(1) q c'(1) a'(1) by simp
  moreover have "X25519 n p = le_bytes 32 (nat (x2 * z2 ^ nat (p25519 - 2) mod p25519))"
    unfolding X25519_def positions_def [symmetric] Let_def using assms(2) t by (simp add: u_def)
  ultimately show ?thesis by simp
qed

section \<open>Keys and boxes\<close>

lemma length_X25519 [simp]: "length (X25519 n p) = 32"
  by (simp add: X25519_def Let_def split: prod.splits)

lemma crypto_box_keypair_result:
  assumes "length r = 32"
  shows "crypto_box_keypair r = Some (X25519 r base_point, r)"
  using assms by (simp add: crypto_box_keypair_def crypto_scalarmult_base_def crypto_scalarmult_X25519
      base_point_def)

lemma crypto_box_beforenm_result:
  assumes "length y = 32" "32 \<le> length x"
  shows "crypto_box_beforenm y x = Some (HSalsa20 (replicate 16 0) (X25519 x y) sigma)"
  using assms by (simp add: crypto_box_beforenm_def crypto_scalarmult_X25519 core_hsalsa20)

text \<open>A box opens with the same shared key; the two parties compute the same key when X25519 gives
  both the same point.\<close>

theorem crypto_box_roundtrip:
  assumes "length c = unat d" "length m = unat d" "length p = unat d" "32 \<le> length m"
    and "take 32 m = replicate 32 0" "24 \<le> length n"
    and "length y = 32" "length x = 32" "length y' = 32" "length x' = 32"
    and "X25519 x y = X25519 x' y'"
  shows "\<exists>ct. crypto_box c m d n y x = Some (0, ct) \<and> crypto_box_open p ct d n y' x' = Some (0, m)"
proof -
  define k where "k = HSalsa20 (replicate 16 0) (X25519 x y) sigma"
  have k: "crypto_box_beforenm y x = Some k" "crypto_box_beforenm y' x' = Some k" "length k = 32"
    using assms(7-) by (simp_all add: crypto_box_beforenm_result k_def)
  have m: "replicate 32 0 @ drop 32 m = m" using assms(5) by (metis append_take_drop_id)
  have "unat d = 32 + length (drop 32 m)" using assms(2,4) by simp
  then have "crypto_secretbox_open p (sealed n k (drop 32 m)) d n k = Some (0, replicate 32 0 @ drop 32 m)"
    using assms(3,6) k(3) by (intro secretbox_open_sealed) simp_all
  then have "crypto_secretbox_open p (sealed n k (drop 32 m)) d n k = Some (0, m)" unfolding m .
  moreover have "crypto_secretbox c m d n k = Some (0, sealed n k (drop 32 m))"
    by (rule crypto_secretbox_seals [OF assms(1,2,4,5,6)]) (simp add: k(3))
  ultimately show ?thesis
    using k by (simp add: crypto_box_def crypto_box_open_def crypto_box_afternm_def crypto_box_open_afternm_def)
qed

end
