(* ===== verification/Nacl_Hash.thy ===== *)
theory Nacl_Hash
  imports Nacl_Words
begin

text \<open>
  Crypto/src/tweetnacl.c, the hash function: \<open>crypto_hashblocks\<close> and \<open>crypto_hash\<close>.  The
  code keeps a window of 16 message words that it advances in place every 16 rounds, and it pads
  only the last block in a local buffer.  The reference is SHA-512 as its standard states it: pad the
  whole message, extend each block to a schedule of 80 words, iterate the compression function.
\<close>

section \<open>The code\<close>

definition R64 :: "u64 \<Rightarrow> nat \<Rightarrow> u64" where
  "R64 x c = drop_bit c x OR push_bit (64 - c) x"

definition Ch :: "u64 \<Rightarrow> u64 \<Rightarrow> u64 \<Rightarrow> u64" where
  "Ch x y z = (x AND y) XOR (NOT x AND z)"

definition Maj :: "u64 \<Rightarrow> u64 \<Rightarrow> u64 \<Rightarrow> u64" where
  "Maj x y z = (x AND y) XOR (x AND z) XOR (y AND z)"

definition Sigma0 :: "u64 \<Rightarrow> u64" where "Sigma0 x = R64 x 28 XOR R64 x 34 XOR R64 x 39"
definition Sigma1 :: "u64 \<Rightarrow> u64" where "Sigma1 x = R64 x 14 XOR R64 x 18 XOR R64 x 41"
definition sigma0 :: "u64 \<Rightarrow> u64" where "sigma0 x = R64 x 1 XOR R64 x 8 XOR drop_bit 7 x"
definition sigma1 :: "u64 \<Rightarrow> u64" where "sigma1 x = R64 x 19 XOR R64 x 61 XOR drop_bit 6 x"

definition K512 :: "u64 list" where
  "K512 =
    [0x428a2f98d728ae22, 0x7137449123ef65cd, 0xb5c0fbcfec4d3b2f,
     0xe9b5dba58189dbbc, 0x3956c25bf348b538, 0x59f111f1b605d019,
     0x923f82a4af194f9b, 0xab1c5ed5da6d8118, 0xd807aa98a3030242,
     0x12835b0145706fbe, 0x243185be4ee4b28c, 0x550c7dc3d5ffb4e2,
     0x72be5d74f27b896f, 0x80deb1fe3b1696b1, 0x9bdc06a725c71235,
     0xc19bf174cf692694, 0xe49b69c19ef14ad2, 0xefbe4786384f25e3,
     0x0fc19dc68b8cd5b5, 0x240ca1cc77ac9c65, 0x2de92c6f592b0275,
     0x4a7484aa6ea6e483, 0x5cb0a9dcbd41fbd4, 0x76f988da831153b5,
     0x983e5152ee66dfab, 0xa831c66d2db43210, 0xb00327c898fb213f,
     0xbf597fc7beef0ee4, 0xc6e00bf33da88fc2, 0xd5a79147930aa725,
     0x06ca6351e003826f, 0x142929670a0e6e70, 0x27b70a8546d22ffc,
     0x2e1b21385c26c926, 0x4d2c6dfc5ac42aed, 0x53380d139d95b3df,
     0x650a73548baf63de, 0x766a0abb3c77b2a8, 0x81c2c92e47edaee6,
     0x92722c851482353b, 0xa2bfe8a14cf10364, 0xa81a664bbc423001,
     0xc24b8b70d0f89791, 0xc76c51a30654be30, 0xd192e819d6ef5218,
     0xd69906245565a910, 0xf40e35855771202a, 0x106aa07032bbd1b8,
     0x19a4c116b8d2d0c8, 0x1e376c085141ab53, 0x2748774cdf8eeb99,
     0x34b0bcb5e19b48a8, 0x391c0cb3c5c95a63, 0x4ed8aa4ae3418acb,
     0x5b9cca4f7763e373, 0x682e6ff3d6b2b8a3, 0x748f82ee5defb2fc,
     0x78a5636f43172f60, 0x84c87814a1f0ab72, 0x8cc702081a6439ec,
     0x90befffa23631e28, 0xa4506cebde82bde9, 0xbef9a3f7b2c67915,
     0xc67178f2e372532b, 0xca273eceea26619c, 0xd186b8c721c0c207,
     0xeada7dd6cde0eb1e, 0xf57d4f7fee6ed178, 0x06f067aa72176fba,
     0x0a637dc5a2c898a6, 0x113f9804bef90dae, 0x1b710b35131c471b,
     0x28db77f523047d84, 0x32caab7b40c72493, 0x3c9ebe0a15c9bebc,
     0x431d67c49c100d4c, 0x4cc5d4becb3e42b6, 0x597f299cfc657e2a,
     0x5fcb6fab3ad6faec, 0x6c44198c4a475817]"

text \<open>One pass of the round loop: the working variables \<open>a\<close> and the window \<open>w\<close>.\<close>

definition window_update :: "u64 list \<Rightarrow> u64 list" where
  "window_update w =
     fold (\<lambda>j w. w[j := w ! j + (w ! ((j + 9) mod 16) + sigma0 (w ! ((j + 1) mod 16)) +
                       sigma1 (w ! ((j + 14) mod 16)))]) [0..<16] w"

definition hash_round :: "nat \<Rightarrow> u64 list \<times> u64 list \<Rightarrow> u64 list \<times> u64 list" where
  "hash_round i = (\<lambda>(a, w).
     let b = a;
         t = a ! 7 + Sigma1 (a ! 4) + Ch (a ! 4) (a ! 5) (a ! 6) + K512 ! i + w ! (i mod 16);
         b = b[7 := t + Sigma0 (a ! 0) + Maj (a ! 0) (a ! 1) (a ! 2)];
         b = b[3 := b ! 3 + t];
         a = fold (\<lambda>j a. a[(j + 1) mod 8 := b ! j]) [0..<8] a;
         w = (if i mod 16 = 15 then window_update w else w)
     in (a, w))"

definition hash_block :: "u64 list \<Rightarrow> u8 list \<Rightarrow> u64 list" where
  "hash_block z m =
     (let w = map (\<lambda>i. dl64 (drop (8 * i) m)) [0..<16];
          (a, w) = fold hash_round [0..<80] (z, w)
      in map2 (+) a z)"

fun hashblocks_loop :: "u64 list \<Rightarrow> u8 list \<Rightarrow> nat \<Rightarrow> u64 list" where
  "hashblocks_loop z m n =
     (if 128 \<le> n then hashblocks_loop (hash_block z m) (drop 128 m) (n - 128) else z)"

declare hashblocks_loop.simps [simp del]

text \<open>\<open>crypto_hashblocks\<close> gives the state array \<open>x\<close> after the call; its return value, the
  number of bytes left over, is not used by \<open>crypto_hash\<close>.\<close>

definition crypto_hashblocks :: "u8 list \<Rightarrow> u8 list \<Rightarrow> nat \<Rightarrow> nat \<times> u8 list" where
  "crypto_hashblocks x m n =
     (let z = map (\<lambda>i. dl64 (drop (8 * i) x)) [0..<8]
      in (n mod 128, concat (map ts64 (hashblocks_loop z m n))))"

definition iv :: "u8 list" where
  "iv =
    [0x6a, 0x09, 0xe6, 0x67, 0xf3, 0xbc, 0xc9, 0x08,
     0xbb, 0x67, 0xae, 0x85, 0x84, 0xca, 0xa7, 0x3b,
     0x3c, 0x6e, 0xf3, 0x72, 0xfe, 0x94, 0xf8, 0x2b,
     0xa5, 0x4f, 0xf5, 0x3a, 0x5f, 0x1d, 0x36, 0xf1,
     0x51, 0x0e, 0x52, 0x7f, 0xad, 0xe6, 0x82, 0xd1,
     0x9b, 0x05, 0x68, 0x8c, 0x2b, 0x3e, 0x6c, 0x1f,
     0x1f, 0x83, 0xd9, 0xab, 0xfb, 0x41, 0xbd, 0x6b,
     0x5b, 0xe0, 0xcd, 0x19, 0x13, 0x7e, 0x21, 0x79]"

text \<open>The message pointer is moved to the last \<open>n & 127\<close> bytes; they go to the zeroed local
  buffer \<open>x\<close> with the padding bit and the length in bits.\<close>

definition crypto_hash :: "u8 list \<Rightarrow> u64 \<Rightarrow> u8 list option" where
  "crypto_hash m n =
     (if length m < unat n then None
      else let b = n;
               h = snd (crypto_hashblocks iv m (unat n));
               tail = unat (n AND 127);
               m = drop (unat n - tail) m;
               x = take tail m @ replicate (256 - tail) 0;
               x = x[tail := 128];
               n = 256 - 128 * (if tail < 112 then 1 else 0);
               x = x[n - 9 := ucast (drop_bit 61 b)];
               x = take (n - 8) x @ ts64 (push_bit 3 b) @ drop n x;
               h = snd (crypto_hashblocks h x n)
           in Some h)"

section \<open>Reference definition of SHA-512\<close>

definition SHA_Sigma0 :: "u64 \<Rightarrow> u64" where
  "SHA_Sigma0 x = word_rotr 28 x XOR word_rotr 34 x XOR word_rotr 39 x"
definition SHA_Sigma1 :: "u64 \<Rightarrow> u64" where
  "SHA_Sigma1 x = word_rotr 14 x XOR word_rotr 18 x XOR word_rotr 41 x"
definition SHA_sigma0 :: "u64 \<Rightarrow> u64" where
  "SHA_sigma0 x = word_rotr 1 x XOR word_rotr 8 x XOR drop_bit 7 x"
definition SHA_sigma1 :: "u64 \<Rightarrow> u64" where
  "SHA_sigma1 x = word_rotr 19 x XOR word_rotr 61 x XOR drop_bit 6 x"

definition be64 :: "u8 list \<Rightarrow> nat \<Rightarrow> u64" where
  "be64 bs i = of_nat (le_nat (rev (take 8 (drop (8 * i) bs))))"

text \<open>The message schedule of a block.\<close>

fun schedule :: "u8 list \<Rightarrow> nat \<Rightarrow> u64" where
  "schedule blk t =
     (if t < 16 then be64 blk t
      else SHA_sigma1 (schedule blk (t - 2)) + schedule blk (t - 7) +
           SHA_sigma0 (schedule blk (t - 15)) + schedule blk (t - 16))"

declare schedule.simps [simp del]

definition sha_step :: "u8 list \<Rightarrow> nat \<Rightarrow> u64 list \<Rightarrow> u64 list" where
  "sha_step blk t v =
     (case v of [a, b, c, d, e, f, g, h] \<Rightarrow>
        (let T1 = h + SHA_Sigma1 e + ((e AND f) XOR (NOT e AND g)) + K512 ! t + schedule blk t;
             T2 = SHA_Sigma0 a + ((a AND b) XOR (a AND c) XOR (b AND c))
         in [T1 + T2, a, b, c, d + T1, e, f, g])
      | _ \<Rightarrow> v)"

definition sha_compress :: "u64 list \<Rightarrow> u8 list \<Rightarrow> u64 list" where
  "sha_compress H blk = map2 (+) (fold (sha_step blk) [0..<80] H) H"

function sha_blocks :: "u64 list \<Rightarrow> u8 list \<Rightarrow> u64 list" where
  "sha_blocks H m = (if length m < 128 then H else sha_blocks (sha_compress H (take 128 m)) (drop 128 m))"
  by pat_completeness auto
termination by (relation "measure (length \<circ> snd)") auto

declare sha_blocks.simps [simp del]

definition H0 :: "u64 list" where
  "H0 = [0x6a09e667f3bcc908, 0xbb67ae8584caa73b, 0x3c6ef372fe94f82b, 0xa54ff53a5f1d36f1,
         0x510e527fade682d1, 0x9b05688c2b3e6c1f, 0x1f83d9abfb41bd6b, 0x5be0cd19137e2179]"

text \<open>A one bit, zeros up to 16 bytes before a block boundary, the length in bits.\<close>

definition sha_pad :: "u8 list \<Rightarrow> u8 list" where
  "sha_pad m =
     m @ [0x80] @ replicate ((239 - length m mod 128) mod 128) 0 @ rev (le_bytes 16 (8 * length m))"

definition SHA512 :: "u8 list \<Rightarrow> u8 list" where
  "SHA512 m = concat (map (\<lambda>w. rev (le_bytes 8 (unat w))) (sha_blocks H0 (sha_pad m)))"

section \<open>Rounds\<close>

lemma R64_rotr: "0 < c \<Longrightarrow> c < 64 \<Longrightarrow> R64 x c = word_rotr c x"
proof (rule bit_word_eqI)
  fix n assume c: "0 < c" "c < 64" and "n < LENGTH(64)"
  then have n: "n < 64" by simp
  have "(n + c) mod 64 = (if c + n < 64 then c + n else c + n - 64)"
    using c n by (simp add: mod_if add.commute [of n c])
  moreover have "bit (R64 x c) n = (if c + n < 64 then bit x (c + n) else bit x (c + n - 64))"
    using c n by (auto simp: R64_def bit_simps add.commute [of n c] dest: bit_imp_le_length)
  ultimately show "bit (R64 x c) n = bit (word_rotr c x) n"
    using c n by (simp add: bit_word_rotr_iff)
qed

lemmas sha_functions = Sigma0_def Sigma1_def sigma0_def sigma1_def
  SHA_Sigma0_def SHA_Sigma1_def SHA_sigma0_def SHA_sigma1_def R64_rotr

lemma sigma_eq: "Sigma0 x = SHA_Sigma0 x" "Sigma1 x = SHA_Sigma1 x" "sigma0 x = SHA_sigma0 x" "sigma1 x = SHA_sigma1 x"
  by (simp_all add: sha_functions)

lemma list8: "length x = 8 \<Longrightarrow> \<exists>a b c d e f g h. x = [a, b, c, d, e, f, g, h]"
  by (auto simp: eval_nat_numeral length_Suc_conv)

lemma upt8: "[0..<8] = [0, 1, 2, 3, 4, 5, 6, 7]"
  by (simp add: upt_rec)

lemma fst_hash_round:
  assumes "length a = 8" "w ! (i mod 16) = schedule blk i"
  shows "fst (hash_round i (a, w)) = sha_step blk i a"
  using list8 [OF assms(1)] assms(2)
  by (auto simp: hash_round_def sha_step_def sigma_eq Ch_def Maj_def upt8 Let_def add_ac)

lemma length_sha_step [simp]: "length v = 8 \<Longrightarrow> length (sha_step blk t v) = 8"
  by (auto dest!: list8 simp: sha_step_def Let_def)

text \<open>The window holds 16 consecutive words of the schedule.\<close>

definition window :: "u8 list \<Rightarrow> nat \<Rightarrow> u64 list" where
  "window blk s = map (\<lambda>j. schedule blk (s + j)) [0..<16]"

lemma schedule_step:
  "16 \<le> t \<Longrightarrow> schedule blk t = schedule blk (t - 16) + (schedule blk (t - 7) +
     SHA_sigma0 (schedule blk (t - 15)) + SHA_sigma1 (schedule blk (t - 2)))"
  by (subst schedule.simps) (simp add: add_ac)

lemma window_update_prefix:
  assumes "k \<le> 16"
  shows "fold (\<lambda>j w. w[j := w ! j + (w ! ((j + 9) mod 16) + sigma0 (w ! ((j + 1) mod 16)) +
                       sigma1 (w ! ((j + 14) mod 16)))]) [0..<k] (window blk s) =
    map (\<lambda>j. schedule blk (if j < k then s + 16 + j else s + j)) [0..<16]"
  using assms
proof (induction k)
  case (Suc k)
  let ?w = "map (\<lambda>j. schedule blk (if j < k then s + 16 + j else s + j)) [0..<16]"
  have m: "?w ! ((k + i) mod 16) = schedule blk (s + (k + i))" if "0 < i" "i < 16" for i
    using Suc.prems that by (auto simp: mod_if)
  have "?w ! k + (?w ! ((k + 9) mod 16) + sigma0 (?w ! ((k + 1) mod 16)) + sigma1 (?w ! ((k + 14) mod 16))) =
      schedule blk (s + 16 + k)"
    using Suc.prems schedule_step [of "s + 16 + k" blk]
    by (simp only: m sigma_eq) (simp add: add_ac)
  then show ?case
    using Suc by (auto intro!: nth_equalityI simp: nth_list_update less_Suc_eq)
qed (simp add: window_def)

lemma window_update_window: "window_update (window blk s) = window blk (s + 16)"
  unfolding window_update_def using window_update_prefix [of 16 blk s] by (simp add: window_def add_ac)

lemma hash_rounds:
  assumes "length a = 8"
  shows "fold hash_round [0..<n] (a, window blk 0) =
    (fold (sha_step blk) [0..<n] a, window blk (16 * (n div 16))) \<and> length (fold (sha_step blk) [0..<n] a) = 8"
proof (induction n)
  case (Suc n)
  let ?a = "fold (sha_step blk) [0..<n] a" and ?w = "window blk (16 * (n div 16))"
  have "?w ! (n mod 16) = schedule blk n" by (simp add: window_def)
  then have f: "fst (hash_round n (?a, ?w)) = sha_step blk n ?a"
    using Suc by (intro fst_hash_round) simp_all
  have "snd (hash_round n (?a, ?w)) = window blk (16 * (Suc n div 16))"
    using window_update_window [of blk "16 * (n div 16)"]
    by (auto simp: hash_round_def Let_def div_Suc mod_Suc add.commute)
  then have "hash_round n (?a, ?w) = (sha_step blk n ?a, window blk (16 * (Suc n div 16)))"
    using f by (simp add: prod_eq_iff)
  then show ?case using Suc by simp
qed (use assms in simp)

section \<open>Blocks\<close>

lemma dl64_be64: "128 \<le> length m \<Longrightarrow> i < 16 \<Longrightarrow> dl64 (drop (8 * i) m) = be64 (take 128 m) i"
proof -
  assume m: "128 \<le> length m" "i < 16"
  then have "unat (dl64 (drop (8 * i) m)) = le_nat (rev (take 8 (drop (8 * i) m)))"
    by (intro unat_dl64) simp
  moreover have "take 8 (drop (8 * i) (take 128 m)) = take 8 (drop (8 * i) m)"
    using m by (simp add: drop_take min_def)
  ultimately have "be64 (take 128 m) i = of_nat (unat (dl64 (drop (8 * i) m)))"
    by (simp only: be64_def)
  then show ?thesis by simp
qed

lemma hash_block_compress:
  assumes "length z = 8" "128 \<le> length m"
  shows "hash_block z m = sha_compress z (take 128 m)"
proof -
  have "map (\<lambda>i. dl64 (drop (8 * i) m)) [0..<16] = window (take 128 m) 0"
    using assms(2) by (simp add: window_def schedule.simps dl64_be64)
  then show ?thesis
    using hash_rounds [OF assms(1), of 80 "take 128 m"] by (simp add: hash_block_def sha_compress_def)
qed

lemma length_sha_compress [simp]: "length H = 8 \<Longrightarrow> length (sha_compress H blk) = 8"
  using hash_rounds [of H 80 blk] by (simp add: sha_compress_def)

lemma length_sha_blocks [simp]: "length H = 8 \<Longrightarrow> length (sha_blocks H m) = 8"
proof (induction H m rule: sha_blocks.induct)
  case (1 H m)
  then show ?case by (subst sha_blocks.simps) simp
qed

lemma hashblocks_loop_blocks:
  "length z = 8 \<Longrightarrow> n \<le> length m \<Longrightarrow> hashblocks_loop z m n = sha_blocks z (take n m)"
proof (induction z m n rule: hashblocks_loop.induct)
  case (1 z m n)
  show ?case
  proof (cases "128 \<le> n")
    case True
    have "take 128 (take n m) = take 128 m" "drop 128 (take n m) = take (n - 128) (drop 128 m)"
      using True by (simp_all add: min_def drop_take)
    then show ?thesis
      using 1 True hash_block_compress [of z m]
      by (subst hashblocks_loop.simps, subst sha_blocks.simps) simp
  next
    case False
    then show ?thesis using 1 by (subst hashblocks_loop.simps, subst sha_blocks.simps) simp
  qed
qed

lemma sha_blocks_append:
  "length xs mod 128 = 0 \<Longrightarrow> sha_blocks H (xs @ ys) = sha_blocks (sha_blocks H xs) ys"
proof (induction H xs rule: sha_blocks.induct)
  case (1 H xs)
  show ?case
  proof (cases "length xs < 128")
    case True
    then have "xs = []" using 1(2) by simp
    then show ?thesis by (simp add: sha_blocks.simps [of H "[]"])
  next
    case False
    then have "sha_blocks H (xs @ ys) = sha_blocks (sha_compress H (take 128 xs)) (drop 128 xs @ ys)"
      by (subst sha_blocks.simps) simp
    also have "\<dots> = sha_blocks (sha_blocks (sha_compress H (take 128 xs)) (drop 128 xs)) ys"
      using False 1 by (simp add: le_mod_geq)
    also have "sha_blocks (sha_compress H (take 128 xs)) (drop 128 xs) = sha_blocks H xs"
      using False by (subst (2) sha_blocks.simps) simp
    finally show ?thesis .
  qed
qed

lemma sha_blocks_short: "length m < 128 \<Longrightarrow> sha_blocks H m = H"
  by (subst sha_blocks.simps) simp

lemma sha_blocks_whole: "sha_blocks H m = sha_blocks H (take (length m - length m mod 128) m)"
proof -
  let ?k = "length m - length m mod 128"
  have "sha_blocks H (take ?k m @ drop ?k m) = sha_blocks (sha_blocks H (take ?k m)) (drop ?k m)"
    by (rule sha_blocks_append) (simp add: min.absorb2 minus_mod_eq_mult_div)
  then show ?thesis by (simp add: sha_blocks_short)
qed

section \<open>The hash is SHA-512\<close>

lemma words_roundtrip:
  "map (\<lambda>i. dl64 (drop (8 * i) (concat (map ts64 ws)))) [0..<length ws] = ws"
proof (induction ws)
  case (Cons w ws)
  have d: "dl64 (ts64 w @ xs) = w" for xs
  proof -
    have "dl64 (ts64 w @ xs) = dl64 (ts64 w)" by (rule word_unat_eq_iff [THEN iffD2]) (simp add: unat_dl64)
    then show ?thesis by (simp add: dl64_ts64)
  qed
  have "[0..<length (w # ws)] = 0 # map Suc [0..<length ws]"
    by (simp add: upt_conv_Cons map_Suc_upt del: upt_Suc)
  then show ?case using Cons d by (simp add: comp_def)
qed simp

lemma crypto_hashblocks_blocks:
  assumes "length z = 8" "n \<le> length m"
  shows "snd (crypto_hashblocks (concat (map ts64 z)) m n) = concat (map ts64 (sha_blocks z (take n m)))"
  using assms words_roundtrip [of z] by (simp add: crypto_hashblocks_def hashblocks_loop_blocks)

lemma iv_H0: "iv = concat (map ts64 H0)"
  by code_simp

lemma le_bytes_split: "le_bytes (i + n) v = le_bytes i v @ le_bytes n (v div 256 ^ i)"
  by (induction i v rule: le_bytes.induct) (simp_all add: div_mult2_eq)

lemma hash_length_field:
  "rev (le_bytes 16 (8 * unat (b :: u64))) = replicate 7 0 @ ucast (drop_bit 61 b) # ts64 (push_bit 3 b)"
proof -
  let ?v = "8 * unat b"
  have b: "unat b < 2 ^ 64" using unsigned_less [of b, where ?'a = nat] by simp
  have "le_bytes 16 ?v = le_bytes 8 ?v @ le_bytes 8 (?v div 256 ^ 8)"
    using le_bytes_split [of 8 8 ?v] by simp
  moreover have "?v div 256 ^ 8 = unat (drop_bit 61 b)"
    by (simp add: unat_drop_bit_eq drop_bit_nat_def)
  moreover have "unat (push_bit 3 b) = ?v mod 256 ^ 8"
    by (simp add: push_bit_eq_mult unat_word_ariths mult.commute)
  moreover have "le_bytes 8 (unat (drop_bit 61 b)) = ucast (drop_bit 61 b) # replicate 7 0"
  proof -
    have "unat (drop_bit 61 b) div 256 = 0" using b by (simp add: unat_drop_bit_eq drop_bit_nat_def)
    then show ?thesis using le_bytes.simps(2) [of 7 "unat (drop_bit 61 b)"] by (simp add: le_bytes_zero)
  qed
  ultimately show ?thesis by (simp add: ts64_eq le_bytes_mod [of 8, simplified])
qed

lemma hash_tail_buffer:
  fixes t f :: "u8 list"
  assumes "length t < 128" "n = 256 - 128 * (if length t < 112 then 1 else 0)" "length f = 8"
  shows "take n (take (n - 8) ((t @ replicate (256 - length t) 0)[length t := 128, n - 9 := v]) @ f @
            drop n ((t @ replicate (256 - length t) 0)[length t := 128, n - 9 := v])) =
    t @ [128] @ replicate ((239 - length t) mod 128) 0 @ replicate 7 0 @ v # f"
proof -
  let ?l = "length t"
  have n: "?l + 17 \<le> n" "n \<le> 256" "n - 10 - ?l = (239 - ?l) mod 128 + 7"
    using assms(1,2) by (auto simp: mod_if)
  have x: "(t @ replicate (256 - ?l) 0)[?l := 128, n - 9 := v] =
      t @ 128 # (replicate (255 - ?l) 0)[n - 10 - ?l := v]"
  proof -
    have "replicate (256 - ?l) (0 :: u8) = 0 # replicate (255 - ?l) 0"
    proof -
      have "256 - ?l = Suc (255 - ?l)" using assms(1) by simp
      then show ?thesis by (simp only: replicate_Suc)
    qed
    moreover have "n - 9 - ?l = Suc (n - 10 - ?l)" "\<not> n - 9 < ?l" using n(1,2) by simp_all
    ultimately show ?thesis by (simp add: list_update_append del: diff_diff_left)
  qed
  define e where "e = n - 10 - ?l"
  have n8: "n - 8 = ?l + Suc (Suc e)" and e: "e < 255 - ?l" using n(1,2) by (simp_all add: e_def)
  have "(replicate (255 - ?l) 0)[e := v] = replicate e 0 @ v # replicate (255 - ?l - Suc e) 0"
    using e by (simp add: upd_conv_take_nth_drop min_def)
  then have "take (n - 8) (t @ 128 # (replicate (255 - ?l) 0)[e := v]) = t @ 128 # replicate e 0 @ [v]"
    unfolding n8 by simp
  then have A: "take (n - 8) ((t @ replicate (256 - ?l) 0)[?l := 128, n - 9 := v]) =
      t @ [128] @ replicate ((239 - ?l) mod 128) 0 @ replicate 7 0 @ [v]" (is "?A = ?B")
    by (simp only: x n(3) replicate_add e_def) simp
  have "take n (B @ f @ rest) = B @ f" if "length B = n - 8" for B rest :: "u8 list"
    using that assms(3) n(1) by simp
  moreover have "length ?B = n - 8" using n by simp
  ultimately have "take n (?B @ f @ rest) = ?B @ f" for rest by blast
  then show ?thesis unfolding A by simp
qed

lemma low_seven: "unat (n AND 127 :: u64) = unat n mod 128"
proof -
  have "n AND 127 = take_bit 7 n" by (simp add: take_bit_eq_mask mask_eq_exp_minus_1)
  then show ?thesis unfolding take_bit_eq_mod by (simp add: unat_mod_distrib)
qed

theorem crypto_hash_SHA512:
  assumes "unat n \<le> length m"
  shows "crypto_hash m n = Some (SHA512 (take (unat n) m))"
proof -
  define msg where "msg = take (unat n) m"
  define r where "r = unat n mod 128"
  have len: "length msg = unat n" using assms by (simp add: msg_def)
  define t where "t = drop (unat n - r) msg"
  define p where "p = take (unat n - r) msg"
  have r: "r < 128" "r \<le> unat n" by (simp_all add: r_def)
  have t: "length t = r" "length p mod 128 = 0" "msg = p @ t"
    using r len by (simp_all add: t_def p_def) (simp add: r_def minus_mod_eq_mult_div)
  have tl: "take r (drop (unat n - r) m) = t"
    using r assms by (simp add: t_def msg_def drop_take)
  define q where "q = 256 - 128 * (if r < 112 then 1 else 0 :: nat)"
  define x where "x = take (q - 8) ((t @ replicate (256 - r) 0)[r := 128, q - 9 := ucast (drop_bit 61 n)]) @
      ts64 (push_bit 3 n) @ drop q ((t @ replicate (256 - r) 0)[r := 128, q - 9 := ucast (drop_bit 61 n)])"
  have "take q x = t @ [128] @ replicate ((239 - r) mod 128) 0 @ replicate 7 0 @
      ucast (drop_bit 61 n) # ts64 (push_bit 3 n)"
    using hash_tail_buffer [of t q "ts64 (push_bit 3 n)" "ucast (drop_bit 61 n)"] t(1) r(1)
    by (simp only: x_def q_def length_ts64)
  then have pad: "p @ take q x = sha_pad msg"
    using t(3) len hash_length_field [of n] by (simp add: sha_pad_def r_def)
  have qx: "q \<le> length x" using t r by (auto simp: x_def q_def)
  have "snd (crypto_hashblocks iv m (unat n)) = concat (map ts64 (sha_blocks H0 p))"
    using crypto_hashblocks_blocks [of H0 "unat n" m] assms sha_blocks_whole [of H0 msg] len
    by (simp add: iv_H0 p_def r_def msg_def [symmetric]) (simp add: H0_def)
  moreover have "snd (crypto_hashblocks (concat (map ts64 (sha_blocks H0 p))) x q) =
      concat (map ts64 (sha_blocks H0 (sha_pad msg)))"
    using crypto_hashblocks_blocks [of "sha_blocks H0 p" q x] qx t(2) sha_blocks_append [of p H0 "take q x"]
    by (simp add: pad) (simp add: H0_def)
  moreover have "crypto_hash m n = Some (snd (crypto_hashblocks (snd (crypto_hashblocks iv m (unat n))) x q))"
  proof -
    have "(length m < unat n) = False" using assms by simp
    then show ?thesis
      by (simp only: crypto_hash_def Let_def low_seven r_def [symmetric] if_False tl x_def q_def)
  qed
  moreover have "ts64 = (\<lambda>w. rev (le_bytes 8 (unat w)))" by (rule ext) (rule ts64_eq)
  ultimately show ?thesis by (simp add: SHA512_def flip: msg_def)
qed

lemma length_SHA512 [simp]: "length (SHA512 m) = 64"
proof -
  have "length (concat (map (\<lambda>w. rev (le_bytes 8 (unat w))) ws)) = 8 * length ws" for ws :: "u64 list"
    by (induction ws) simp_all
  then show ?thesis by (simp add: SHA512_def) (simp add: H0_def)
qed

end
