(* ===== verification/Encryption.thy ===== *)
theory Encryption
  imports Nacl_Curve Nacl_Hash
begin

text \<open>
  Crypto/src/encryption.c: challenges, key pairs, session keys and the encryption of chunks, over the
  functions of tweetnacl.c.  A pointer argument is an option (\<open>None\<close> is NULL) of the buffer it
  points to; a buffer shorter than what is read or written is undefined behaviour.  Results of the
  system calls and the bytes of \<open>randombytes\<close> are arguments.
\<close>

section \<open>Sizes (encryption.h, tweetnacl.h)\<close>

definition crypto_hash_BYTES :: nat where "crypto_hash_BYTES = 64"
definition crypto_box_PUBLICKEYBYTES :: nat where "crypto_box_PUBLICKEYBYTES = 32"
definition crypto_box_SECRETKEYBYTES :: nat where "crypto_box_SECRETKEYBYTES = 32"
definition crypto_box_BEFORENMBYTES :: nat where "crypto_box_BEFORENMBYTES = 32"
definition crypto_secretbox_KEYBYTES :: nat where "crypto_secretbox_KEYBYTES = 32"
definition crypto_secretbox_NONCEBYTES :: nat where "crypto_secretbox_NONCEBYTES = 24"

definition CHALLENGE_SIZE :: nat where "CHALLENGE_SIZE = 32"
definition RESPONSE_SIZE :: nat where "RESPONSE_SIZE = crypto_hash_BYTES"
definition PUBLIC_KEY_SIZE :: nat where "PUBLIC_KEY_SIZE = crypto_box_PUBLICKEYBYTES"
definition SECRET_KEY_SIZE :: nat where "SECRET_KEY_SIZE = crypto_box_SECRETKEYBYTES"
definition SESSION_KEY_SIZE :: nat where "SESSION_KEY_SIZE = crypto_secretbox_KEYBYTES"

lemmas crypto_sizes = crypto_hash_BYTES_def crypto_box_PUBLICKEYBYTES_def crypto_box_SECRETKEYBYTES_def
  crypto_box_BEFORENMBYTES_def crypto_secretbox_KEYBYTES_def crypto_secretbox_NONCEBYTES_def
  CHALLENGE_SIZE_def RESPONSE_SIZE_def PUBLIC_KEY_SIZE_def SECRET_KEY_SIZE_def SESSION_KEY_SIZE_def

section \<open>Operations\<close>

text \<open>Writing an array result to the start of a caller's buffer.\<close>

definition write_buf :: "u8 list \<Rightarrow> u8 list \<Rightarrow> u8 list option" where
  "write_buf buf bytes = (if length buf < length bytes then None else Some (bytes @ drop (length bytes) buf))"

text \<open>\<open>open_result\<close> is the descriptor, \<open>read_result\<close> the count and the bytes \<open>read\<close>
  stored.  The result is the exit code, the buffer and the descriptors closed.\<close>

definition encryption_generate_challenge ::
  "int \<Rightarrow> int \<times> u8 list \<Rightarrow> u8 list option \<Rightarrow> (int \<times> u8 list option \<times> int list) option" where
  "encryption_generate_challenge open_result read_result challenge =
     (case challenge of
        None \<Rightarrow> Some (E_FAILURE, None, [])
      | Some buf \<Rightarrow>
          if 0 > open_result then Some (E_FAILURE, Some buf, [])
          else do {
            let (bytes_read, bytes) = read_result;
            buf \<leftarrow> write_buf buf bytes;
            if int CHALLENGE_SIZE \<noteq> bytes_read then Some (E_FAILURE, Some buf, [open_result])
            else Some (E_SUCCESS, Some buf, [open_result])
          })"

definition encryption_hash_challenge :: "u8 list option \<Rightarrow> u8 list option \<Rightarrow> (int \<times> u8 list option) option" where
  "encryption_hash_challenge challenge response =
     (case (challenge, response) of
        (Some c, Some r) \<Rightarrow> do {
          h \<leftarrow> crypto_hash c (of_nat CHALLENGE_SIZE);
          r \<leftarrow> write_buf r h;
          Some (E_SUCCESS, Some r)
        }
      | _ \<Rightarrow> Some (E_FAILURE, response))"

definition encryption_generate_key_pair ::
  "u8 list \<Rightarrow> u8 list option \<Rightarrow> u8 list option \<Rightarrow> (int \<times> u8 list option \<times> u8 list option) option" where
  "encryption_generate_key_pair random public_key secret_key =
     (case (public_key, secret_key) of
        (Some y, Some x) \<Rightarrow> do {
          (py, px) \<leftarrow> crypto_box_keypair random;
          y \<leftarrow> write_buf y py;
          x \<leftarrow> write_buf x px;
          Some (E_SUCCESS, Some y, Some x)
        }
      | _ \<Rightarrow> Some (E_FAILURE, public_key, secret_key))"

definition encryption_derive_session_key ::
  "u8 list option \<Rightarrow> u8 list option \<Rightarrow> u8 list option \<Rightarrow> (int \<times> u8 list option) option" where
  "encryption_derive_session_key client_public server_private session_key =
     (case (client_public, server_private, session_key) of
        (Some y, Some x, Some k) \<Rightarrow> do {
          shared_secret \<leftarrow> crypto_box_beforenm y x;
          h \<leftarrow> crypto_hash shared_secret (of_nat crypto_box_BEFORENMBYTES);
          k \<leftarrow> write_buf k h;
          Some (E_SUCCESS, Some k)
        }
      | _ \<Rightarrow> Some (E_FAILURE, session_key))"

definition encryption_encrypt_chunk ::
  "u8 list option \<Rightarrow> u64 \<Rightarrow> u8 list option \<Rightarrow> u8 list option \<Rightarrow> u8 list option \<Rightarrow> (int \<times> u8 list option) option" where
  "encryption_encrypt_chunk plain_text len nonce key cipher_text =
     (case (plain_text, nonce, key, cipher_text) of
        (Some m, Some n, Some k, Some c) \<Rightarrow> do {
          (_, c) \<leftarrow> crypto_secretbox c m len n k;
          Some (E_SUCCESS, Some c)
        }
      | _ \<Rightarrow> Some (E_FAILURE, cipher_text))"

definition encryption_decrypt_chunk ::
  "u8 list option \<Rightarrow> u64 \<Rightarrow> u8 list option \<Rightarrow> u8 list option \<Rightarrow> u8 list option \<Rightarrow> (int \<times> u8 list option) option" where
  "encryption_decrypt_chunk cipher_text len nonce key plain_text =
     (case (cipher_text, nonce, key, plain_text) of
        (Some c, Some n, Some k, Some m) \<Rightarrow> do {
          (exit_code, m) \<leftarrow> crypto_secretbox_open m c len n k;
          if 0 \<noteq> exit_code then Some (exit_code, Some m) else Some (E_SUCCESS, Some m)
        }
      | _ \<Rightarrow> Some (E_FAILURE, plain_text))"

section \<open>Chunks\<close>

lemma encrypt_chunk_seals:
  assumes "length m = unat len" "length c = unat len" "32 \<le> length m" "take 32 m = replicate 32 0"
    and "24 \<le> length n" "32 \<le> length k"
  shows "encryption_encrypt_chunk (Some m) len (Some n) (Some k) (Some c) =
    Some (E_SUCCESS, Some (sealed n k (drop 32 m)))"
  using crypto_secretbox_seals [OF assms(2,1,3-6)] by (simp add: encryption_encrypt_chunk_def)

lemma decrypt_chunk_result:
  assumes "length c = unat len" "length m = unat len" "32 \<le> length c" "24 \<le> length n" "32 \<le> length k"
  shows "encryption_decrypt_chunk (Some c) len (Some n) (Some k) (Some m) =
    Some (if take 16 (drop 16 c) = poly1305 (drop 32 c) (auth_key n k)
          then (E_SUCCESS, Some (replicate 32 0 @ xor_stream n k 32 (drop 32 c))) else (E_FAILURE, Some m))"
  using crypto_secretbox_open_iff [OF assms(2,1,3-5)]
  by (simp add: encryption_decrypt_chunk_def exit_codes)

text \<open>Decrypting an encrypted chunk gives it back exactly when its first 32 bytes are zero: with any
  other padding the keys of the authenticator differ, and an accepted chunk has zeros there.\<close>

lemma chunk_roundtrip:
  assumes "length m = unat len" "length c = unat len" "length p = unat len" "32 \<le> length m"
    and "24 \<le> length n" "32 \<le> length k"
  shows "\<exists>ct. encryption_encrypt_chunk (Some m) len (Some n) (Some k) (Some c) = Some (E_SUCCESS, Some ct) \<and>
    length ct = length m \<and>
    (encryption_decrypt_chunk (Some ct) len (Some n) (Some k) (Some p) = Some (E_SUCCESS, Some m) \<longleftrightarrow>
     take 32 m = replicate 32 0)"
proof -
  define ct where "ct = replicate 16 0 @ poly1305 (xor_stream n k 32 (drop 32 m)) (take 32 (xor_stream n k 0 m)) @
      xor_stream n k 32 (drop 32 m)"
  have e: "encryption_encrypt_chunk (Some m) len (Some n) (Some k) (Some c) = Some (E_SUCCESS, Some ct)"
    using crypto_secretbox_result [OF assms(2,1,4-6)] by (simp add: encryption_encrypt_chunk_def ct_def)
  have l: "length ct = length m" using assms(4) by (simp add: ct_def)
  have ct: "drop 32 ct = xor_stream n k 32 (drop 32 m)"
    "take 16 (drop 16 ct) = poly1305 (drop 32 ct) (take 32 (xor_stream n k 0 m))"
    by (simp_all add: ct_def)
  have d: "encryption_decrypt_chunk (Some ct) len (Some n) (Some k) (Some p) =
    Some (if take 16 (drop 16 ct) = poly1305 (drop 32 ct) (auth_key n k)
          then (E_SUCCESS, Some (replicate 32 0 @ drop 32 m)) else (E_FAILURE, Some p))"
    using decrypt_chunk_result [of ct len p n k] assms l ct(1) by simp
  have "take 32 m = replicate 32 0 \<longleftrightarrow>
      encryption_decrypt_chunk (Some ct) len (Some n) (Some k) (Some p) = Some (E_SUCCESS, Some m)"
  proof
    assume z: "take 32 m = replicate 32 0"
    then have "replicate 32 0 @ drop 32 m = m" by (metis append_take_drop_id)
    then show "encryption_decrypt_chunk (Some ct) len (Some n) (Some k) (Some p) = Some (E_SUCCESS, Some m)"
      using d ct(2) xor_stream_pad [OF assms(4) z] by simp
  next
    assume "encryption_decrypt_chunk (Some ct) len (Some n) (Some k) (Some p) = Some (E_SUCCESS, Some m)"
    then have "m = replicate 32 0 @ drop 32 m" using d by (auto split: if_splits)
    then show "take 32 m = replicate 32 0" by (metis append_eq_conv_conj length_replicate)
  qed
  then show ?thesis using e l by blast
qed

text \<open>A chunk shorter than the padding is reported as encrypted, and nothing is written.\<close>

lemma encrypt_short_chunk:
  "len < 32 \<Longrightarrow> encryption_encrypt_chunk (Some m) len (Some n) (Some k) (Some c) = Some (E_SUCCESS, Some c)"
  "len < 32 \<Longrightarrow> encryption_decrypt_chunk (Some c) len (Some n) (Some k) (Some m) = Some (E_FAILURE, Some m)"
  by (simp_all add: encryption_encrypt_chunk_def encryption_decrypt_chunk_def secretbox_short exit_codes)

section \<open>Challenges and keys\<close>

lemma hash_challenge_response:
  assumes "CHALLENGE_SIZE \<le> length c" "RESPONSE_SIZE \<le> length r"
  shows "encryption_hash_challenge (Some c) (Some r) =
    Some (E_SUCCESS, Some (SHA512 (take CHALLENGE_SIZE c) @ drop RESPONSE_SIZE r))"
  using assms crypto_hash_SHA512 [of 32 c]
  by (simp add: encryption_hash_challenge_def write_buf_def crypto_sizes)

lemma derive_session_key_result:
  assumes "length y = PUBLIC_KEY_SIZE" "SECRET_KEY_SIZE \<le> length x"
  shows "encryption_derive_session_key (Some y) (Some x) (Some k) =
    (if length k < crypto_hash_BYTES then None
     else Some (E_SUCCESS, Some (SHA512 (HSalsa20 (replicate 16 0) (X25519 x y) sigma) @ drop 64 k)))"
  using assms crypto_hash_SHA512 [of 32 "HSalsa20 (replicate 16 0) (X25519 x y) sigma"]
  by (simp add: encryption_derive_session_key_def crypto_box_beforenm_result write_buf_def crypto_sizes)

lemma derive_session_key_overflows:
  assumes "length y = PUBLIC_KEY_SIZE" "length x = SECRET_KEY_SIZE" "length k = SESSION_KEY_SIZE"
  shows "encryption_derive_session_key (Some y) (Some x) (Some k) = None"
  using assms derive_session_key_result [of y x k] by (simp add: crypto_sizes)

lemma generate_key_pair_result:
  assumes "length r = 32" "length y = PUBLIC_KEY_SIZE" "length x = SECRET_KEY_SIZE"
  shows "encryption_generate_key_pair r (Some y) (Some x) = Some (E_SUCCESS, Some (X25519 r base_point), Some r)"
  using assms by (simp add: encryption_generate_key_pair_def crypto_box_keypair_result write_buf_def crypto_sizes)

lemma generate_challenge_closes:
  assumes "length c = CHALLENGE_SIZE" "length bytes \<le> CHALLENGE_SIZE" "0 \<le> fd"
  shows "\<exists>buf. encryption_generate_challenge fd (k, bytes) (Some c) =
    Some (if k = 32 then E_SUCCESS else E_FAILURE, Some buf, [fd])"
  using assms by (simp add: encryption_generate_challenge_def write_buf_def crypto_sizes)

end
