(* ===== verification/Nacl_ModL.thy ===== *)
theory Nacl_ModL
  imports Nacl_Field
begin

text \<open>
  Crypto/src/tweetnacl.c, reduction of scalars modulo the group order \<open>L\<close>: \<open>modL\<close> and
  \<open>reduce\<close>.  The table \<open>L\<close> is of type \<open>u64\<close>, so the expressions that use it are computed
  modulo \<open>2 ^ 64\<close> and converted back; all other arithmetic is checked.
\<close>

unbundle bit_operations_syntax

section \<open>The code\<close>

definition L_table :: "int list" where
  "L_table = [0xed, 0xd3, 0xf5, 0x5c, 0x1a, 0x63, 0x12, 0x58, 0xd6, 0x9c, 0xf7, 0xa2, 0xde, 0xf9, 0xde, 0x14,
              0, 0, 0, 0, 0, 0, 0, 0, 0, 0, 0, 0, 0, 0, 0, 0x10]"

text \<open>The conversion of an unsigned 64-bit result to \<open>i64\<close>.\<close>

definition to_i64 :: "int \<Rightarrow> int" where
  "to_i64 v = (v + 2 ^ 63) mod 2 ^ 64 - 2 ^ 63"

definition modL_digit :: "nat \<Rightarrow> nat \<Rightarrow> int list \<times> int \<Rightarrow> (int list \<times> int) option" where
  "modL_digit i j = (\<lambda>(x, carry).
     let v = to_i64 (x ! j + (carry - 16 * x ! i * L_table ! (j - (i - 32))));
         carry = drop_bit 8 (v + 128)
     in i64s [16 * x ! i, v + 128, push_bit 8 carry, v - push_bit 8 carry] (x[j := v - push_bit 8 carry], carry))"

definition modL_step :: "nat \<Rightarrow> int list \<Rightarrow> int list option" where
  "modL_step i x = do {
     (x, carry) \<leftarrow> foldM (modL_digit i) [i - 32..<i - 12] (x, 0);
     let j = i - 12;
     i64s [x ! j + carry] (x[j := x ! j + carry, i := 0])
   }"

definition modL_quotient :: "nat \<Rightarrow> int list \<times> int \<Rightarrow> (int list \<times> int) option" where
  "modL_quotient j = (\<lambda>(x, carry).
     let v = to_i64 (x ! j + (carry - drop_bit 4 (x ! 31) * L_table ! j))
     in Some (x[j := v AND 255], drop_bit 8 v))"

definition modL_correct :: "int \<Rightarrow> nat \<Rightarrow> int list \<Rightarrow> int list" where
  "modL_correct carry j x = x[j := to_i64 (x ! j - carry * L_table ! j)]"

definition modL_output :: "nat \<Rightarrow> int list \<times> u8 list \<Rightarrow> (int list \<times> u8 list) option" where
  "modL_output i = (\<lambda>(x, r).
     let v = x ! (i + 1) + drop_bit 8 (x ! i)
     in i64s [v] (x[i + 1 := v], r @ [of_int (x ! i AND 255)]))"

definition modL :: "int list \<Rightarrow> u8 list option" where
  "modL x = do {
     x \<leftarrow> foldM modL_step (rev [32..<64]) x;
     (x, carry) \<leftarrow> foldM modL_quotient [0..<32] (x, 0);
     let x = fold (modL_correct carry) [0..<32] x;
     (x, r) \<leftarrow> foldM modL_output [0..<32] (x, []);
     Some r
   }"

text \<open>\<open>modL\<close> writes 32 of the 64 bytes that \<open>reduce\<close> has cleared.\<close>

definition reduce :: "u8 list \<Rightarrow> u8 list option" where
  "reduce r = do { s \<leftarrow> modL (map uint (take 64 r)); Some (s @ replicate 32 0) }"

section \<open>Values\<close>

definition group_order :: int where
  "group_order = 2 ^ 252 + 27742317777372353535851937790883648493"

text \<open>The value of limbs of 8 bits.\<close>

fun bval :: "int list \<Rightarrow> int" where
  "bval [] = 0"
| "bval (x # xs) = x + 256 * bval xs"

lemma bval_append: "bval (xs @ ys) = bval xs + 256 ^ length xs * bval ys"
  by (induction xs) (simp_all add: algebra_simps)

lemma bval_update: "j < length x \<Longrightarrow> bval (x[j := v]) = bval x + (v - x ! j) * 256 ^ j"
proof (induction x arbitrary: j)
  case (Cons y x)
  show ?case
  proof (cases j)
    case (Suc k)
    then have "bval (x[k := v]) = bval x + (v - x ! k) * 256 ^ k" using Cons by simp
    then show ?thesis using Suc by (simp add: distrib_left)
  qed simp
qed simp

lemma bval_bytes: "bval (map uint bs) = int (le_nat bs)"
  by (induction bs) simp_all

definition L_prefix :: "nat \<Rightarrow> int" where
  "L_prefix t = bval (take t L_table)"

lemma length_L_table [simp]: "length L_table = 32"
  by (simp add: L_table_def)

lemma L_prefix_Suc: "t < 32 \<Longrightarrow> L_prefix (Suc t) = L_prefix t + L_table ! t * 256 ^ t"
  by (simp add: L_prefix_def take_Suc_conv_app_nth bval_append)

lemma L_prefix_20: "16 * L_prefix 20 = 16 * group_order - 2 ^ 256"
  by (simp add: L_prefix_def L_table_def group_order_def)

lemma L_prefix_32: "L_prefix 32 = group_order"
  by (simp add: L_prefix_def L_table_def group_order_def)

lemma to_i64_id: "\<bar>v\<bar> < 2 ^ 63 \<Longrightarrow> to_i64 v = v"
  unfolding to_i64_def by (subst mod_pos_pos_trivial) (simp_all add: abs_less_iff)

lemma L_digit_bound: "t < 32 \<Longrightarrow> 0 \<le> L_table ! t \<and> L_table ! t \<le> 255"
proof -
  have "\<forall>l \<in> set L_table. 0 \<le> l \<and> l \<le> 255" by (simp add: L_table_def)
  then show "t < 32 \<Longrightarrow> 0 \<le> L_table ! t \<and> L_table ! t \<le> 255" by simp
qed

lemma L_digit_zero: "16 \<le> t \<Longrightarrow> t < 20 \<Longrightarrow> L_table ! t = 0"
proof -
  assume "16 \<le> t" "t < 20"
  then have "t = 16 \<or> t = 17 \<or> t = 18 \<or> t = 19" by auto
  then show ?thesis by (auto simp: L_table_def)
qed

section \<open>One digit\<close>

text \<open>The carry after \<open>t\<close> digits, when the digits 1 to 19 are at most \<open>X\<close> and the factor is
  at most \<open>E\<close>.\<close>

definition shifted :: "int \<Rightarrow> int" where
  "shifted v = drop_bit 8 (v + 128)"

lemma shifted_bounds:
  shows "\<bar>v - 256 * shifted v\<bar> \<le> 128" and "256 * \<bar>shifted v\<bar> \<le> \<bar>v\<bar> + 128"
proof -
  have "256 * shifted v = v + 128 - (v + 128) mod 256"
    by (simp add: shifted_def drop_bit_int_def minus_mod_eq_mult_div)
  moreover have "0 \<le> (v + 128) mod 256" "(v + 128) mod 256 < 256" by simp_all
  ultimately show "\<bar>v - 256 * shifted v\<bar> \<le> 128" "256 * \<bar>shifted v\<bar> \<le> \<bar>v\<bar> + 128" by linarith+
qed

lemma modL_digit_result:
  assumes "\<bar>x ! j\<bar> \<le> 2 ^ 30" "\<bar>carry\<bar> \<le> 2 ^ 30" "\<bar>x ! i\<bar> \<le> 2 ^ 30" "j - (i - 32) < 32"
  defines "v \<equiv> x ! j + carry - 16 * x ! i * L_table ! (j - (i - 32))"
  shows "modL_digit i j (x, carry) = Some (x[j := v - 256 * shifted v], shifted v)"
proof -
  have "\<bar>x ! i\<bar> * L_table ! (j - (i - 32)) \<le> 2 ^ 30 * 255"
    by (rule mult_mono) (use assms(3) L_digit_bound [OF assms(4)] in auto)
  then have "\<bar>16 * x ! i * L_table ! (j - (i - 32))\<bar> \<le> 16 * 2 ^ 30 * 255"
    using L_digit_bound [OF assms(4)] by (simp add: abs_mult)
  then have v: "\<bar>v\<bar> \<le> 2 ^ 44" using assms(1,2) unfolding v_def by simp
  then have t: "to_i64 (x ! j + (carry - 16 * x ! i * L_table ! (j - (i - 32)))) = v"
    unfolding v_def by (subst to_i64_id) (simp_all add: algebra_simps)
  have "in_i64 (16 * x ! i)" "in_i64 (v + 128)" "in_i64 (256 * shifted v)" "in_i64 (v - 256 * shifted v)"
    using assms(3) v shifted_bounds [of v] by (simp_all add: in_i64_def abs_le_iff)
  then show ?thesis
    unfolding modL_digit_def prod.case t Let_def
    by (simp add: i64s_def shifted_def push_bit_int_def mult.commute [of _ 256])
qed

section \<open>The digits of one step\<close>

text \<open>A bound of the carry after \<open>t\<close> digits: from digit 16 on the table has zeros and the carry
  shrinks.\<close>

fun carry_bound :: "int \<Rightarrow> nat \<Rightarrow> int" where
  "carry_bound X t = (if t \<le> 16 then 17 * 2 ^ 22 else (X + carry_bound X (t - 1) + 128) div 256)"

declare carry_bound.simps [simp del]

lemma carry_bound_le: "0 \<le> X \<Longrightarrow> X \<le> 2 ^ 22 \<Longrightarrow> 0 \<le> carry_bound X t \<and> carry_bound X t \<le> 17 * 2 ^ 22"
proof (induction X t rule: carry_bound.induct)
  case (1 X t)
  show ?case
  proof (cases "t \<le> 16")
    case False
    then show ?thesis using 1 by (subst (1 2) carry_bound.simps) (auto intro: div_int_pos_iff [THEN iffD2])
  qed (simp add: carry_bound.simps)
qed

definition modL_inv :: "nat \<Rightarrow> nat \<Rightarrow> int list \<Rightarrow> int \<Rightarrow> int list \<Rightarrow> int \<Rightarrow> bool" where
  "modL_inv i t x X y c \<longleftrightarrow>
     length y = 64 \<and> (\<forall>k<64. k < i - 32 \<or> i - 32 + t \<le> k \<longrightarrow> y ! k = x ! k) \<and>
     (\<forall>k. i - 32 \<le> k \<and> k < i - 32 + t \<longrightarrow> \<bar>y ! k\<bar> \<le> 128) \<and>
     bval y + c * 256 ^ (i - 32 + t) = bval x - 16 * x ! i * L_prefix t * 256 ^ (i - 32) \<and>
     \<bar>c\<bar> \<le> carry_bound X t"

lemma carry_next:
  assumes "t < 20" "\<bar>xj\<bar> \<le> 2 ^ 22" "16 \<le> t \<Longrightarrow> \<bar>xj\<bar> \<le> X" "\<bar>xi\<bar> \<le> 2 ^ 22" "\<bar>c\<bar> \<le> carry_bound X t" "0 \<le> X" "X \<le> 2 ^ 22"
  shows "\<bar>shifted (xj + c - 16 * xi * L_table ! t)\<bar> \<le> carry_bound X (Suc t)"
proof (cases "t < 16")
  case True
  have "\<bar>xi\<bar> * L_table ! t \<le> 2 ^ 22 * 255"
    by (rule mult_mono) (use assms(1,4) L_digit_bound [of t] in auto)
  then have "\<bar>16 * xi * L_table ! t\<bar> \<le> 16 * 2 ^ 22 * 255"
    using L_digit_bound [of t] assms(1) by (simp add: abs_mult)
  moreover have "\<bar>c\<bar> \<le> 17 * 2 ^ 22" using assms(5) carry_bound_le [OF assms(6,7), of t] by linarith
  ultimately have "\<bar>xj + c - 16 * xi * L_table ! t\<bar> \<le> 4098 * 2 ^ 22" using assms(2) by simp
  then have "\<bar>shifted (xj + c - 16 * xi * L_table ! t)\<bar> \<le> 17 * 2 ^ 22"
    using shifted_bounds(2) [of "xj + c - 16 * xi * L_table ! t"] by simp
  then show ?thesis using True by (simp add: carry_bound.simps)
next
  case False
  then have "L_table ! t = 0" using L_digit_zero [of t] assms(1) by simp
  then have "256 * \<bar>shifted (xj + c - 16 * xi * L_table ! t)\<bar> \<le> X + carry_bound X t + 128"
    using shifted_bounds(2) [of "xj + c"] assms(3,5) False by simp
  then have "\<bar>shifted (xj + c - 16 * xi * L_table ! t)\<bar> \<le> (X + carry_bound X t + 128) div 256" by linarith
  then show ?thesis using False by (subst carry_bound.simps) simp
qed

lemma modL_digits:
  assumes "length x = 64" "32 \<le> i" "i < 64" "t \<le> 20" "\<bar>x ! i\<bar> \<le> 2 ^ 22" "0 \<le> X" "X \<le> 2 ^ 22"
    and "\<And>k. k < 20 \<Longrightarrow> \<bar>x ! (i - 32 + k)\<bar> \<le> 2 ^ 22" "\<And>k. 16 \<le> k \<Longrightarrow> k < 20 \<Longrightarrow> \<bar>x ! (i - 32 + k)\<bar> \<le> X"
  shows "\<exists>y c. foldM (modL_digit i) [i - 32..<i - 32 + t] (x, 0) = Some (y, c) \<and> modL_inv i t x X y c"
  using assms(4)
proof (induction t)
  case 0
  then show ?case using assms(1) by (simp add: modL_inv_def L_prefix_def carry_bound.simps)
next
  case (Suc t)
  define j where "j = i - 32 + t"
  obtain y c where y: "foldM (modL_digit i) [i - 32..<j] (x, 0) = Some (y, c)" and inv: "modL_inv i t x X y c"
    using Suc by (auto simp: j_def)
  have j: "j < 64" "j < i" "t < 20" "j - (i - 32) = t" using Suc.prems assms(2,3) by (auto simp: j_def)
  have yj: "y ! j = x ! j" "y ! i = x ! i" "length y = 64" using inv j assms(3) by (auto simp: modL_inv_def j_def)
  have b: "\<bar>x ! j\<bar> \<le> 2 ^ 22" "\<bar>c\<bar> \<le> carry_bound X t" "\<bar>c\<bar> \<le> 17 * 2 ^ 22"
    using assms(8) [of t] inv j(3) carry_bound_le [OF assms(6,7), of t] by (auto simp: modL_inv_def j_def)
  define v where "v = x ! j + c - 16 * x ! i * L_table ! t"
  have d: "modL_digit i j (y, c) = Some (y[j := v - 256 * shifted v], shifted v)"
    using modL_digit_result [of y j c i] b assms(5) j yj by (simp add: v_def)
  have c': "\<bar>shifted v\<bar> \<le> carry_bound X (Suc t)"
    unfolding v_def by (rule carry_next) (use j b assms(5-7) assms(9) [of t] in \<open>auto simp: j_def\<close>)
  have "bval (y[j := v - 256 * shifted v]) + shifted v * 256 ^ Suc j =
      bval y + c * 256 ^ j - 16 * x ! i * L_table ! t * 256 ^ j"
    using bval_update [of j y "v - 256 * shifted v"] j(1) yj(1,3) by (simp add: v_def algebra_simps)
  also have "\<dots> = bval x - 16 * x ! i * L_prefix (Suc t) * 256 ^ (i - 32)"
    using inv L_prefix_Suc [of t] j(3) by (simp add: modL_inv_def j_def power_add algebra_simps)
  finally have val: "bval (y[j := v - 256 * shifted v]) + shifted v * 256 ^ Suc j =
      bval x - 16 * x ! i * L_prefix (Suc t) * 256 ^ (i - 32)" .
  have "modL_inv i (Suc t) x X (y[j := v - 256 * shifted v]) (shifted v)"
    unfolding modL_inv_def
  proof (intro conjI allI impI)
    show "length (y[j := v - 256 * shifted v]) = 64" using yj(3) by simp
    show "y[j := v - 256 * shifted v] ! k = x ! k" if "k < 64" "k < i - 32 \<or> i - 32 + Suc t \<le> k" for k
      using that inv by (auto simp: modL_inv_def j_def)
    show "\<bar>y[j := v - 256 * shifted v] ! k\<bar> \<le> 128" if "i - 32 \<le> k \<and> k < i - 32 + Suc t" for k
      using that inv shifted_bounds(1) [of v] j(1) yj(3) by (cases "k = j") (auto simp: modL_inv_def j_def)
    show "bval (y[j := v - 256 * shifted v]) + shifted v * 256 ^ (i - 32 + Suc t) =
        bval x - 16 * x ! i * L_prefix (Suc t) * 256 ^ (i - 32)" using val by (simp add: j_def)
  qed (rule c')
  moreover have "foldM (modL_digit i) [i - 32..<i - 32 + Suc t] (x, 0) = Some (y[j := v - 256 * shifted v], shifted v)"
    using y d by (simp add: j_def foldM_append)
  ultimately show ?case by blast
qed


section \<open>The first loop\<close>

text \<open>Bounds of the limbs before step \<open>i\<close>: untouched ones, those the previous step has reduced, and
  those that received its last carry.\<close>

definition limb_bound :: "nat \<Rightarrow> nat \<Rightarrow> int" where
  "limb_bound i k =
     (if i < k then 0 else if i = 63 \<or> k + 32 \<le> i then 2 ^ 21 else if k + 12 \<le> i then 128
      else if k \<le> 50 then 129 else 2 ^ 22)"

definition limbs_ok :: "nat \<Rightarrow> int list \<Rightarrow> bool" where
  "limbs_ok i x \<longleftrightarrow> length x = 64 \<and> (\<forall>k<64. \<bar>x ! k\<bar> \<le> limb_bound i k)"

lemma carry_bound_values: "carry_bound 128 20 = 1" "carry_bound 2097152 20 = 8224"
  by (simp_all add: carry_bound.simps)

lemma modL_step_result:
  assumes "limbs_ok i x" "32 \<le> i" "i < 64"
  shows "\<exists>y. modL_step i x = Some y \<and> limbs_ok (i - 1) y \<and> bval y mod group_order = bval x mod group_order"
proof -
  define X :: int where "X = (if i = 63 then 2 ^ 21 else 128)"
  have XX: "0 \<le> X" "X \<le> 2 ^ 22" by (simp_all add: X_def)
  have x: "length x = 64" "\<And>k. k < 64 \<Longrightarrow> \<bar>x ! k\<bar> \<le> limb_bound i k"
    using assms(1) by (simp_all add: limbs_ok_def)
  have "limb_bound i i \<le> 2 ^ 22" using assms(2) by (simp add: limb_bound_def)
  then have xi: "\<bar>x ! i\<bar> \<le> 2 ^ 22" using x(2) [of i] assms(3) by linarith
  have xs: "\<bar>x ! (i - 32 + k)\<bar> \<le> 2 ^ 22" "16 \<le> k \<Longrightarrow> \<bar>x ! (i - 32 + k)\<bar> \<le> X" if "k < 20" for k
  proof -
    have "limb_bound i (i - 32 + k) \<le> 2 ^ 22" "16 \<le> k \<Longrightarrow> limb_bound i (i - 32 + k) \<le> X"
      using that assms(2,3) by (auto simp: limb_bound_def X_def)
    then show "\<bar>x ! (i - 32 + k)\<bar> \<le> 2 ^ 22" "16 \<le> k \<Longrightarrow> \<bar>x ! (i - 32 + k)\<bar> \<le> X"
      using x(2) [of "i - 32 + k"] that assms(2,3) by force+
  qed
  define j where "j = i - 12"
  have j: "i - 32 + 20 = j" "j < 64" "j \<noteq> i" using assms(2,3) by (auto simp: j_def)
  obtain z c where z: "foldM (modL_digit i) [i - 32..<j] (x, 0) = Some (z, c)" and inv: "modL_inv i 20 x X z c"
    using modL_digits [OF x(1) assms(2,3) _ xi XX xs, of 20] unfolding j(1) by auto
  have zz: "length z = 64" "z ! j = x ! j" "z ! i = x ! i" "\<bar>c\<bar> \<le> carry_bound X 20"
    using inv j assms(3) by (auto simp: modL_inv_def j_def)
  have c: "\<bar>c\<bar> \<le> (if i = 63 then 8224 else 1)" using zz(4) by (simp add: X_def carry_bound_values split: if_splits)
  define y where "y = z[j := x ! j + c, i := 0]"
  have "limb_bound i j \<le> 2 ^ 21" using assms(2) by (auto simp: limb_bound_def j_def)
  then have xj: "\<bar>x ! j + c\<bar> \<le> 2 ^ 22" using x(2) [of j] j(2) c by (auto split: if_splits)
  then have s: "modL_step i x = Some y"
    using z zz by (simp add: modL_step_def j_def [symmetric] i64s_def y_def in_i64_def abs_le_iff)
  have "\<bar>y ! k\<bar> \<le> limb_bound (i - 1) k" if "k < 64" for k
  proof -
    consider "k = i" | "k = j" | "k \<noteq> i" "i - 32 \<le> k" "k < j" | "k \<noteq> i" "k \<noteq> j" "k < i - 32 \<or> j < k" by linarith
    then show ?thesis
    proof cases
      case 1
      then show ?thesis using zz(1) assms(3) by (simp add: y_def limb_bound_def)
    next
      case 2
      have "\<bar>x ! j + c\<bar> \<le> limb_bound (i - 1) j"
        using x(2) [of j] j(2) c assms(2,3) xj abs_triangle_ineq [of "x ! j" c] by (cases "i = 63") (auto simp: limb_bound_def j_def split: if_splits)
      then show ?thesis using 2 j zz(1) by (simp add: y_def)
    next
      case 3
      then have "\<bar>z ! k\<bar> \<le> 128" using inv j(1) by (auto simp: modL_inv_def)
      then show ?thesis using 3 assms(2,3) by (auto simp: y_def limb_bound_def j_def)
    next
      case 4
      then have "y ! k = x ! k" using inv that j(1) by (auto simp: y_def modL_inv_def)
      then show ?thesis using x(2) [OF that] 4 assms(2,3) by (auto simp: limb_bound_def j_def split: if_splits)
    qed
  qed
  then have ok: "limbs_ok (i - 1) y" using zz(1) by (simp add: limbs_ok_def y_def)
  have p: "(256 :: int) ^ i = 2 ^ 256 * 256 ^ (i - 32)"
    using power_add [of "256 :: int" 32 "i - 32"] assms(2) by simp
  have "bval y = bval z + c * 256 ^ j - x ! i * 256 ^ i"
    using bval_update [of i "z[j := x ! j + c]" 0] bval_update [of j z "x ! j + c"] j zz assms(3)
    by (simp add: y_def)
  also have "\<dots> = bval x - 16 * L_prefix 20 * x ! i * 256 ^ (i - 32) - x ! i * (2 ^ 256 * 256 ^ (i - 32))"
    using inv j(1) by (simp add: modL_inv_def p algebra_simps)
  also have "\<dots> = bval x + (- 16 * x ! i * 256 ^ (i - 32)) * group_order"
    unfolding L_prefix_20 by (simp add: algebra_simps)
  finally have "bval y mod group_order = bval x mod group_order" by (simp only: mod_mult_self1)
  then show ?thesis using s ok by blast
qed


lemma modL_loop:
  assumes "limbs_ok 63 x" "n \<le> 32"
  shows "\<exists>y. foldM modL_step (rev [64 - n..<64]) x = Some y \<and> limbs_ok (63 - n) y \<and>
    bval y mod group_order = bval x mod group_order"
  using assms(2)
proof (induction n)
  case 0
  then show ?case using assms(1) by simp
next
  case (Suc n)
  then obtain y where y: "foldM modL_step (rev [64 - n..<64]) x = Some y" "limbs_ok (63 - n) y"
    "bval y mod group_order = bval x mod group_order" by auto
  have "32 \<le> 63 - n" "63 - n < 64" using Suc.prems by simp_all
  then obtain z where z: "modL_step (63 - n) y = Some z" "limbs_ok (63 - n - 1) z" "bval z mod group_order = bval y mod group_order"
    using modL_step_result [OF y(2)] by blast
  have "64 - Suc n = 63 - n" "Suc (63 - n) = 64 - n" using Suc.prems by simp_all
  then have "rev [64 - Suc n..<64] = rev [64 - n..<64] @ [63 - n]"
    using upt_conv_Cons [of "63 - n" 64] by (simp del: upt_Suc)
  then show ?case using y z by (simp add: foldM_append)
qed

section \<open>The second loop\<close>

lemma bval_abs:
  assumes "\<And>x. x \<in> set xs \<Longrightarrow> \<bar>x\<bar> \<le> B"
  shows "255 * \<bar>bval xs\<bar> \<le> B * (256 ^ length xs - 1)"
  using assms
proof (induction xs)
  case (Cons x xs)
  have "255 * \<bar>bval xs\<bar> \<le> B * (256 ^ length xs - 1)" "\<bar>x\<bar> \<le> B" using Cons by simp_all
  moreover have "\<bar>bval (x # xs)\<bar> \<le> \<bar>x\<bar> + 256 * \<bar>bval xs\<bar>" by simp
  ultimately show ?case by (simp add: algebra_simps)
qed simp

lemma bval_bytes_bound: "(\<And>x. x \<in> set xs \<Longrightarrow> 0 \<le> x \<and> x \<le> 255) \<Longrightarrow> 0 \<le> bval xs \<and> bval xs < 256 ^ length xs"
proof (induction xs)
  case (Cons x xs)
  then have "0 \<le> bval xs" "bval xs < 256 ^ length xs" "0 \<le> x" "x \<le> 255" by simp_all
  then show ?case by simp
qed simp

lemma bval_zero: "(\<And>x. x \<in> set xs \<Longrightarrow> x = 0) \<Longrightarrow> bval xs = 0"
  by (induction xs) simp_all

text \<open>Limbs of which only the first 32 are not zero.\<close>

lemma bval_low:
  assumes "length y = 64" "\<And>k. 32 \<le> k \<Longrightarrow> k < 64 \<Longrightarrow> y ! k = 0"
  shows "bval y = bval (take 32 y)"
proof -
  have "bval (drop 32 y) = 0" by (rule bval_zero) (use assms in \<open>auto simp: in_set_conv_nth\<close>)
  then show ?thesis using bval_append [of "take 32 y" "drop 32 y"] by simp
qed

definition quotient_inv :: "nat \<Rightarrow> int list \<Rightarrow> int list \<Rightarrow> int \<Rightarrow> bool" where
  "quotient_inv t y z c \<longleftrightarrow>
     length z = 64 \<and> (\<forall>k<64. t \<le> k \<longrightarrow> z ! k = y ! k) \<and> (\<forall>k<t. 0 \<le> z ! k \<and> z ! k \<le> 255) \<and>
     bval z + c * 256 ^ t = bval y - drop_bit 4 (y ! 31) * L_prefix t \<and> \<bar>c\<bar> \<le> 20"

lemma limbs_31:
  assumes "limbs_ok 31 y"
  shows "length y = 64" "\<And>k. k < 32 \<Longrightarrow> \<bar>y ! k\<bar> \<le> 129" "\<And>k. 32 \<le> k \<Longrightarrow> k < 64 \<Longrightarrow> y ! k = 0"
proof -
  show "length y = 64" using assms by (simp add: limbs_ok_def)
  have b: "\<bar>y ! k\<bar> \<le> limb_bound 31 k" if "k < 64" for k using assms that by (simp add: limbs_ok_def)
  show "\<bar>y ! k\<bar> \<le> 129" if "k < 32" for k
    using b [of k] that by (auto simp: limb_bound_def split: if_splits)
  show "y ! k = 0" if "32 \<le> k" "k < 64" for k using b [OF that(2)] that(1) by (simp add: limb_bound_def)
qed

lemma quotient_bound: "\<bar>v\<bar> \<le> 129 \<Longrightarrow> \<bar>drop_bit 4 (v :: int)\<bar> \<le> 9"
  by (simp add: drop_bit_int_def abs_le_iff) linarith

lemma modL_quotients:
  assumes "limbs_ok 31 y" "t \<le> 32"
  shows "\<exists>z c. foldM modL_quotient [0..<t] (y, 0) = Some (z, c) \<and> quotient_inv t y z c"
  using assms(2)
proof (induction t)
  case 0
  then show ?case using limbs_31 [OF assms(1)] by (simp add: quotient_inv_def L_prefix_def)
next
  case (Suc t)
  note y = limbs_31 [OF assms(1)]
  obtain z c where z: "foldM modL_quotient [0..<t] (y, 0) = Some (z, c)" and inv: "quotient_inv t y z c"
    using Suc by auto
  define q where "q = drop_bit 4 (y ! 31)"
  define v where "v = y ! t + c - q * L_table ! t"
  have zt: "z ! t = y ! t" "z ! 31 = y ! 31" "length z = 64" "\<bar>c\<bar> \<le> 20"
    using inv Suc.prems by (simp_all add: quotient_inv_def)
  have "\<bar>q\<bar> * L_table ! t \<le> 9 * 255"
    by (rule mult_mono) (use quotient_bound [OF y(2) [of 31]] L_digit_bound [of t] Suc.prems in \<open>auto simp: q_def\<close>)
  then have "\<bar>q * L_table ! t\<bar> \<le> 9 * 255" using L_digit_bound [of t] Suc.prems by (simp add: abs_mult)
  then have v: "\<bar>v\<bar> \<le> 3000" using y(2) [of t] zt(4) Suc.prems by (simp add: v_def)
  then have i: "to_i64 (z ! t + (c - drop_bit 4 (z ! 31) * L_table ! t)) = v"
    unfolding zt q_def [symmetric] by (subst to_i64_id) (simp_all add: v_def)
  have m: "v AND 255 = v mod 256" using take_bit_eq_mask [of 8 v] by (simp add: take_bit_eq_mod mask_eq_exp_minus_1)
  have d: "modL_quotient t (z, c) = Some (z[t := v mod 256], v div 256)"
    unfolding modL_quotient_def prod.case i Let_def m by (simp add: drop_bit_int_def)
  have "bval (z[t := v mod 256]) + v div 256 * 256 ^ Suc t = bval z + (v - y ! t) * 256 ^ t"
  proof -
    have "bval (z[t := v mod 256]) = bval z + (v mod 256 - y ! t) * 256 ^ t"
      using bval_update [of t z "v mod 256"] zt Suc.prems by simp
    moreover have "v = v mod 256 + 256 * (v div 256)" by simp
    then have "(v - y ! t) * 256 ^ t = (v mod 256 + 256 * (v div 256) - y ! t) * 256 ^ t" by (rule arg_cong)
    ultimately show ?thesis by (simp only: power_Suc) (simp only: algebra_simps)
  qed
  also have "\<dots> = bval y - q * L_prefix (Suc t)"
    using inv L_prefix_Suc [of t] Suc.prems by (simp add: quotient_inv_def v_def q_def algebra_simps)
  finally have "bval (z[t := v mod 256]) + v div 256 * 256 ^ Suc t = bval y - q * L_prefix (Suc t)" .
  moreover have "\<bar>v div 256\<bar> \<le> 20" using v by (simp add: abs_le_iff) linarith
  moreover have "0 \<le> z[t := v mod 256] ! k \<and> z[t := v mod 256] ! k \<le> 255" if "k < Suc t" for k
  proof (cases "k = t")
    case True
    have "v mod 256 < 256" by simp
    then show ?thesis using True zt(3) Suc.prems by simp
  qed (use that inv in \<open>simp add: quotient_inv_def\<close>)
  ultimately have "quotient_inv (Suc t) y (z[t := v mod 256]) (v div 256)"
    using inv zt(3) by (auto simp: quotient_inv_def q_def)
  then show ?case using z d by (simp add: foldM_append)
qed

text \<open>The rest after the quotient lies within the order, so the last carry is 0 or -1.\<close>

lemma quotient_range:
  assumes "limbs_ok 31 y"
  defines "W \<equiv> bval y - drop_bit 4 (y ! 31) * group_order"
  shows "- group_order \<le> W" "W < group_order"
proof -
  note y = limbs_31 [OF assms(1)]
  define q where "q = drop_bit 4 (y ! 31)"
  define r where "r = y ! 31 mod 16"
  have r: "y ! 31 = 16 * q + r" "0 \<le> r" "r < 16" by (simp_all add: q_def r_def drop_bit_int_def)
  have "255 * \<bar>bval (take 31 y)\<bar> \<le> 129 * (256 ^ length (take 31 y) - 1)"
    by (rule bval_abs) (use y in \<open>auto simp: in_set_conv_nth\<close>)
  then have low: "\<bar>bval (take 31 y)\<bar> \<le> 2 ^ 248 - 2 ^ 246" using y(1) by simp
  have q: "\<bar>q\<bar> \<le> 9" unfolding q_def by (rule quotient_bound) (use y(2) [of 31] in simp)
  have "take 32 y = take 31 y @ [y ! 31]" using take_Suc_conv_app_nth [of 31 y] y(1) by simp
  then have "bval y = bval (take 31 y) + 256 ^ 31 * (16 * q + r)"
    using bval_low [OF y(1,3)] y(1) r(1) by (simp add: bval_append)
  then have "W = bval (take 31 y) + 2 ^ 248 * r - q * 27742317777372353535851937790883648493"
    unfolding W_def q_def [symmetric] group_order_def by (simp add: algebra_simps)
  then show "- group_order \<le> W" "W < group_order" using low q r(2,3) by (simp_all add: group_order_def abs_le_iff)
qed


section \<open>The correction and the output\<close>

lemma modL_correct_fold:
  assumes "length z = 64" "\<And>k. k < 32 \<Longrightarrow> 0 \<le> z ! k \<and> z ! k \<le> 255" "c = 0 \<or> c = - 1" "t \<le> 32"
  shows "\<exists>y. fold (modL_correct c) [0..<t] z = y \<and> length y = 64 \<and> (\<forall>k<64. t \<le> k \<longrightarrow> y ! k = z ! k) \<and>
    (\<forall>k<t. 0 \<le> y ! k \<and> y ! k \<le> 510) \<and> bval y = bval z - c * L_prefix t"
  using assms(4)
proof (induction t)
  case 0
  then show ?case using assms(1) by (simp add: L_prefix_def)
next
  case (Suc t)
  define y where "y = fold (modL_correct c) [0..<t] z"
  have y: "length y = 64" "\<forall>k<64. t \<le> k \<longrightarrow> y ! k = z ! k" "\<forall>k<t. 0 \<le> y ! k \<and> y ! k \<le> 510" "bval y = bval z - c * L_prefix t"
    using Suc by (simp_all add: y_def)
  define v where "v = z ! t - c * L_table ! t"
  have v: "0 \<le> v" "v \<le> 510" using assms(2) [of t] assms(3) L_digit_bound [of t] Suc.prems by (auto simp: v_def)
  have s: "fold (modL_correct c) [0..<Suc t] z = y[t := v]"
    using y(2) Suc.prems v by (simp add: y_def [symmetric] modL_correct_def) (simp add: v_def to_i64_id)
  have "bval (y[t := v]) = bval z - c * L_prefix (Suc t)"
    using bval_update [of t y v] y Suc.prems L_prefix_Suc [of t] by (simp add: v_def algebra_simps)
  then show ?case unfolding s using y v Suc.prems by (auto simp: nth_list_update)
qed

definition output_inv :: "nat \<Rightarrow> int list \<Rightarrow> int list \<Rightarrow> u8 list \<Rightarrow> bool" where
  "output_inv t x y r \<longleftrightarrow>
     length y = 64 \<and> length r = t \<and> (\<forall>k<64. t < k \<longrightarrow> y ! k = x ! k) \<and> 0 \<le> y ! t \<and> y ! t \<le> 600 \<and>
     int (le_nat r) + (y ! t - x ! t) * 256 ^ t = bval (take t x)"

lemma modL_output_fold:
  assumes "length x = 64" "\<And>k. k < 64 \<Longrightarrow> 0 \<le> x ! k \<and> x ! k \<le> 510" "t \<le> 32"
  shows "\<exists>y r. foldM modL_output [0..<t] (x, []) = Some (y, r) \<and> output_inv t x y r"
  using assms(3)
proof (induction t)
  case 0
  then show ?case using assms(1) assms(2) [of 0] by (simp add: output_inv_def)
next
  case (Suc t)
  then obtain y r where y: "foldM modL_output [0..<t] (x, []) = Some (y, r)" and inv: "output_inv t x y r" by auto
  define m where "m = y ! t mod 256"
  define d where "d = y ! t div 256"
  have yt: "y ! t = m + 256 * d" "0 \<le> m" "m < 256" by (simp_all add: m_def d_def)
  moreover have "0 \<le> y ! t" "y ! t \<le> 600" using inv by (simp_all add: output_inv_def)
  ultimately have d: "0 \<le> d" "d \<le> 2" by linarith+
  have n: "y ! (t + 1) = x ! (t + 1)" "length y = 64" "length r = t" using inv Suc.prems by (simp_all add: output_inv_def)
  have a: "y ! t AND 255 = m" using take_bit_eq_mask [of 8 "y ! t"] by (simp add: take_bit_eq_mod mask_eq_exp_minus_1 m_def)
  have b: "drop_bit 8 (y ! t) = d" by (simp add: drop_bit_int_def d_def)
  have v: "0 \<le> x ! (t + 1) + d" "x ! (t + 1) + d \<le> 600" using assms(2) [of "t + 1"] d Suc.prems by simp_all
  have s: "modL_output t (y, r) = Some (y[t + 1 := x ! (t + 1) + d], r @ [of_int m])"
    using v n(1) by (simp add: modL_output_def a b i64s_def in_i64_def Let_def)
  have u: "uint (of_int m :: u8) = m"
    using yt(2,3) by (simp add: take_bit_eq_mod unsigned_of_int)
  have "int (le_nat (r @ [of_int m])) + d * 256 ^ Suc t = int (le_nat r) + y ! t * 256 ^ t"
    by (simp add: le_nat_append n(3) u yt(1) algebra_simps)
  also have "\<dots> = bval (take t x) + x ! t * 256 ^ t" using inv by (simp add: output_inv_def algebra_simps)
  also have "\<dots> = bval (take (Suc t) x)"
    using take_Suc_conv_app_nth [of t x] assms(1) Suc.prems by (simp add: bval_append)
  finally have "output_inv (Suc t) x (y[t + 1 := x ! (t + 1) + d]) (r @ [of_int m])"
    using inv v n Suc.prems by (simp add: output_inv_def)
  then show ?case using y s by (simp add: foldM_append)
qed

section \<open>The result\<close>

theorem modL_result:
  assumes "length x = 64" "\<And>k. k < 64 \<Longrightarrow> \<bar>x ! k\<bar> \<le> 2 ^ 21"
  shows "modL x = Some (le_bytes 32 (nat (bval x mod group_order)))"
proof -
  have "limbs_ok 63 x" using assms by (auto simp: limbs_ok_def limb_bound_def)
  then obtain y where y: "foldM modL_step (rev [32..<64]) x = Some y" "limbs_ok 31 y" "bval y mod group_order = bval x mod group_order"
    using modL_loop [of x 32] by auto
  define W where "W = bval y - drop_bit 4 (y ! 31) * group_order"
  have W: "- group_order \<le> W" "W < group_order" using quotient_range [OF y(2)] by (simp_all add: W_def)
  have Wm: "W mod group_order = bval x mod group_order"
    using y(3) unfolding W_def by (metis mod_diff_right_eq mod_mult_self2_is_0 diff_0_right mod_diff_left_eq)
  obtain z c where z: "foldM modL_quotient [0..<32] (y, 0) = Some (z, c)" and inv: "quotient_inv 32 y z c"
    using modL_quotients [OF y(2), of 32] by blast
  have zl: "length z = 64" "\<And>k. k < 32 \<Longrightarrow> 0 \<le> z ! k \<and> z ! k \<le> 255" and zz: "\<And>k. 32 \<le> k \<Longrightarrow> k < 64 \<Longrightarrow> z ! k = 0"
    and zv: "bval z + c * 2 ^ 256 = W"
    using inv limbs_31(3) [OF y(2)] by (simp_all add: quotient_inv_def W_def L_prefix_32)
  have "0 \<le> bval (take 32 z) \<and> bval (take 32 z) < 256 ^ length (take 32 z)"
    by (rule bval_bytes_bound) (use zl in \<open>auto simp: in_set_conv_nth\<close>)
  then have zb: "0 \<le> bval z" "bval z < 2 ^ 256" using bval_low [OF zl(1) zz] zl(1) by simp_all
  have o: "0 < group_order" "group_order < 2 ^ 256" by (simp_all add: group_order_def)
  have c: "c = (if 0 \<le> W then 0 else - 1)"
    using zb zv W o by (simp add: group_order_def split: if_splits)
  obtain w where w: "fold (modL_correct c) [0..<32] z = w" "length w = 64" "\<forall>k<64. 32 \<le> k \<longrightarrow> w ! k = z ! k"
    "\<forall>k<32. 0 \<le> w ! k \<and> w ! k \<le> 510" "bval w = bval z - c * group_order"
    using modL_correct_fold [OF zl, of c 32] c unfolding L_prefix_32 by (auto split: if_splits)
  have "0 \<le> w ! k \<and> w ! k \<le> 510" if "k < 64" for k using w(3,4) zz that by (cases "k < 32") auto
  then obtain u r where u: "foldM modL_output [0..<32] (w, []) = Some (u, r)" "output_inv 32 w u r"
    using modL_output_fold [OF w(2), of 32] by auto
  have "bval w = bval (take 32 w)" by (rule bval_low) (use w zz in auto)
  then have "int (le_nat r) + (u ! 32 - w ! 32) * 2 ^ 256 = bval w" using u(2) by (simp add: output_inv_def)
  then have "int (le_nat r) mod 2 ^ 256 = bval w mod 2 ^ 256" by (metis mod_mult_self1)
  moreover have "bval w = W mod group_order + (if 0 \<le> W then 0 else 2 ^ 256)"
  proof (cases "0 \<le> W")
    case True
    then show ?thesis using w(5) zv c W by simp
  next
    case False
    then have "(W + group_order) mod group_order = W + group_order" using W by (intro mod_pos_pos_trivial) simp_all
    then have "W mod group_order = W + group_order" by simp
    then show ?thesis using False w(5) zv c by simp
  qed
  then have "bval w mod 2 ^ 256 = W mod group_order mod 2 ^ 256" by (cases "0 \<le> W") simp_all
  moreover have "length r = 32" using u(2) by (simp add: output_inv_def)
  then have "int (le_nat r) mod 2 ^ 256 = int (le_nat r)" using le_nat_bound [of r] by simp
  moreover have "W mod group_order mod 2 ^ 256 = W mod group_order"
    using o pos_mod_bound [OF o(1), of W] by (intro mod_pos_pos_trivial) (simp, linarith)
  ultimately have "int (le_nat r) = bval x mod group_order" using Wm by simp
  then have "le_nat r = nat (bval x mod group_order)" by simp
  then have "r = le_bytes 32 (nat (bval x mod group_order))" using le_bytes_le_nat [of r] \<open>length r = 32\<close> by simp
  then show ?thesis using y(1) z w(1) u(1) by (simp add: modL_def del: upt_rec_numeral)
qed

lemma byte_uint: "0 \<le> uint (b :: u8) \<and> uint b \<le> 255"
  using uint_lt2p [of b] by simp

theorem reduce_result:
  assumes "length r = 64"
  shows "reduce r = Some (le_bytes 32 (le_nat r mod nat group_order) @ replicate 32 0)"
proof -
  have "\<bar>map uint r ! k\<bar> \<le> 2 ^ 21" if "k < 64" for k
    using byte_uint [of "r ! k"] that assms by simp
  then have "modL (map uint r) = Some (le_bytes 32 (nat (bval (map uint r) mod group_order)))"
    using modL_result [of "map uint r"] assms by simp
  moreover have "nat (int (le_nat r) mod group_order) = le_nat r mod nat group_order"
    by (simp add: nat_mod_distrib group_order_def)
  ultimately show ?thesis using assms by (simp add: reduce_def bval_bytes)
qed

end
