(* ===== verification/Nacl_Edwards.thy ===== *)
theory Nacl_Edwards
  imports Nacl_Curve Nacl_Hash
begin

text \<open>
  Crypto/src/tweetnacl.c, points of the twisted Edwards curve of Ed25519: \<open>add\<close>, \<open>cswap\<close>,
  \<open>pack\<close>, \<open>scalarmult\<close>, \<open>scalarbase\<close> and \<open>unpackneg\<close>.  A point is an array of four
  field elements (extended coordinates).  The reference is RFC 8032 on integers modulo
  \<open>2 ^ 255 - 19\<close>.
\<close>

unbundle bit_operations_syntax

section \<open>The code\<close>

definition D_gf :: gf where
  "D_gf = [0x78a3, 0x1359, 0x4dca, 0x75eb, 0xd8ab, 0x4141, 0x0a4d, 0x0070,
           0xe898, 0x7779, 0x4079, 0x8cc7, 0xfe73, 0x2b6f, 0x6cee, 0x5203]"

definition D2_gf :: gf where
  "D2_gf = [0xf159, 0x26b2, 0x9b94, 0xebd6, 0xb156, 0x8283, 0x149a, 0x00e0,
            0xd130, 0xeef3, 0x80f2, 0x198e, 0xfce7, 0x56df, 0xd9dc, 0x2406]"

definition X_gf :: gf where
  "X_gf = [0xd51a, 0x8f25, 0x2d60, 0xc956, 0xa7b2, 0x9525, 0xc760, 0x692c,
           0xdc5c, 0xfdd6, 0xe231, 0xc0a4, 0x53fe, 0xcd6e, 0x36d3, 0x2169]"

definition Y_gf :: gf where
  "Y_gf = [0x6658, 0x6666, 0x6666, 0x6666, 0x6666, 0x6666, 0x6666, 0x6666,
           0x6666, 0x6666, 0x6666, 0x6666, 0x6666, 0x6666, 0x6666, 0x6666]"

definition I_gf :: gf where
  "I_gf = [0xa0b0, 0x4a0e, 0x1b27, 0xc4ee, 0xe478, 0xad2f, 0x1806, 0x2f43,
           0xd7a7, 0x3dfb, 0x0099, 0x2b4d, 0xdf0b, 0x4fc1, 0x2480, 0x2b83]"

type_synonym point = "gf \<times> gf \<times> gf \<times> gf"

text \<open>\<open>add\<close> reads both points before it writes the first, so \<open>add(p, p)\<close> doubles.\<close>

definition add_point :: "point \<Rightarrow> point \<Rightarrow> point option" where
  "add_point p q = (case (p, q) of ((p0, p1, p2, p3), (q0, q1, q2, q3)) \<Rightarrow> do {
     a \<leftarrow> Z_gf p1 p0;
     t \<leftarrow> Z_gf q1 q0;
     a \<leftarrow> M_gf a t;
     b \<leftarrow> A_gf p0 p1;
     t \<leftarrow> A_gf q0 q1;
     b \<leftarrow> M_gf b t;
     c \<leftarrow> M_gf p3 q3;
     c \<leftarrow> M_gf c D2_gf;
     d \<leftarrow> M_gf p2 q2;
     d \<leftarrow> A_gf d d;
     e \<leftarrow> Z_gf b a;
     f \<leftarrow> Z_gf d c;
     g \<leftarrow> A_gf d c;
     h \<leftarrow> A_gf b a;
     p0 \<leftarrow> M_gf e f;
     p1 \<leftarrow> M_gf h g;
     p2 \<leftarrow> M_gf g f;
     p3 \<leftarrow> M_gf e h;
     Some (p0, p1, p2, p3)
   })"

definition cswap :: "point \<Rightarrow> point \<Rightarrow> int \<Rightarrow> point \<times> point" where
  "cswap p q b = (case (p, q) of ((p0, p1, p2, p3), (q0, q1, q2, q3)) \<Rightarrow>
     let (p0, q0) = sel25519 p0 q0 b;
         (p1, q1) = sel25519 p1 q1 b;
         (p2, q2) = sel25519 p2 q2 b;
         (p3, q3) = sel25519 p3 q3 b
     in ((p0, p1, p2, p3), (q0, q1, q2, q3)))"

definition pack_point :: "point \<Rightarrow> u8 list option" where
  "pack_point p = (case p of (p0, p1, p2, p3) \<Rightarrow> do {
     zi \<leftarrow> inv25519 p2;
     tx \<leftarrow> M_gf p0 zi;
     ty \<leftarrow> M_gf p1 zi;
     r \<leftarrow> pack25519 ty;
     b \<leftarrow> par25519 tx;
     Some (r[31 := r ! 31 XOR push_bit 7 b])
   })"

definition scalarmult_step :: "u8 list \<Rightarrow> nat \<Rightarrow> point \<times> point \<Rightarrow> (point \<times> point) option" where
  "scalarmult_step s i = (\<lambda>(p, q). do {
     let b = uint (drop_bit (i mod 8) (s ! (i div 8)) AND 1);
     let (p, q) = cswap p q b;
     q \<leftarrow> add_point q p;
     p \<leftarrow> add_point p p;
     Some (cswap p q b)
   })"

text \<open>The result is the pair of both points, since \<open>q\<close> is changed too.\<close>

definition scalarmult :: "point \<Rightarrow> u8 list \<Rightarrow> (point \<times> point) option" where
  "scalarmult q s = foldM (scalarmult_step s) (rev [0..<256]) ((gf0, gf1, gf1, gf0), q)"

definition scalarbase :: "u8 list \<Rightarrow> point option" where
  "scalarbase s = do {
     t \<leftarrow> M_gf X_gf Y_gf;
     (p, q) \<leftarrow> scalarmult (X_gf, Y_gf, gf1, t) s;
     Some p
   }"

text \<open>\<open>None\<close> is undefined behaviour, \<open>Some None\<close> the result -1.\<close>

definition unpackneg :: "u8 list \<Rightarrow> point option option" where
  "unpackneg p = do {
     let r2 = gf1;
     let r1 = unpack25519 p;
     num \<leftarrow> S_gf r1;
     den \<leftarrow> M_gf num D_gf;
     num \<leftarrow> Z_gf num r2;
     den \<leftarrow> A_gf r2 den;
     den2 \<leftarrow> S_gf den;
     den4 \<leftarrow> S_gf den2;
     den6 \<leftarrow> M_gf den4 den2;
     t \<leftarrow> M_gf den6 num;
     t \<leftarrow> M_gf t den;
     t \<leftarrow> pow2523 t;
     t \<leftarrow> M_gf t num;
     t \<leftarrow> M_gf t den;
     t \<leftarrow> M_gf t den;
     r0 \<leftarrow> M_gf t den;
     chk \<leftarrow> S_gf r0;
     chk \<leftarrow> M_gf chk den;
     neq \<leftarrow> neq25519 chk num;
     r0 \<leftarrow> (if neq \<noteq> 0 then M_gf r0 I_gf else Some r0);
     chk \<leftarrow> S_gf r0;
     chk \<leftarrow> M_gf chk den;
     neq \<leftarrow> neq25519 chk num;
     if neq \<noteq> 0 then Some None
     else do {
       par \<leftarrow> par25519 r0;
       r0 \<leftarrow> (if par = drop_bit 7 (p ! 31) then Z_gf gf0 r0 else Some r0);
       r3 \<leftarrow> M_gf r0 r1;
       Some (Some (r0, r1, r2, r3))
     }
   }"

section \<open>Reference: RFC 8032\<close>

definition ed_d :: int where
  "ed_d = 37095705934669439343138083508754565189542113879843219016388785533085940283555"

definition ed_x :: int where
  "ed_x = 15112221349535400772501151409588531511454012693041857206046113283949847762202"

definition ed_y :: int where
  "ed_y = 46316835694926478169428394003475163141307993866256225615783033603165251855960"

definition ed_sqrt_m1 :: int where
  "ed_sqrt_m1 = 19681161376707505956807079304988542015446066515923890162744021073123829784752"

type_synonym ed_point = "int \<times> int \<times> int \<times> int"

definition ed_add :: "ed_point \<Rightarrow> ed_point \<Rightarrow> ed_point" where
  "ed_add = (\<lambda>(x1, y1, z1, t1) (x2, y2, z2, t2).
     let A = (y1 - x1) * (y2 - x2); B = (y1 + x1) * (y2 + x2);
         C = t1 * 2 * ed_d * t2; D = z1 * 2 * z2;
         E = B - A; F = D - C; G = D + C; H = B + A
     in (E * F mod p25519, G * H mod p25519, F * G mod p25519, E * H mod p25519))"

text \<open>One bit of the ladder, and the multiple of a point by a scalar of 256 bits.\<close>

definition ed_step :: "bool \<Rightarrow> ed_point \<times> ed_point \<Rightarrow> ed_point \<times> ed_point" where
  "ed_step b = (\<lambda>(P, Q). if b then (ed_add P Q, ed_add Q Q) else (ed_add P P, ed_add Q P))"

definition ed_multiple :: "nat \<Rightarrow> ed_point \<Rightarrow> ed_point" where
  "ed_multiple k Q = fst (fold (\<lambda>i. ed_step (bit k i)) (rev [0..<256]) ((0, 1, 1, 0), Q))"

definition ed_base :: ed_point where
  "ed_base = (ed_x, ed_y, 1, ed_x * ed_y mod p25519)"

text \<open>The encoding: \<open>y\<close> with the parity of \<open>x\<close> in the last bit.\<close>

definition ed_encode :: "ed_point \<Rightarrow> u8 list" where
  "ed_encode = (\<lambda>(x, y, z, t).
     let zi = z ^ nat (p25519 - 2); ax = x * zi mod p25519; ay = y * zi mod p25519
     in le_bytes 32 (nat (ay + 2 ^ 255 * (ax mod 2))))"

lemma length_ed_encode [simp]: "length (ed_encode P) = 32"
  by (cases P) (simp add: ed_encode_def Let_def)

section \<open>Constants\<close>

text \<open>The constants are those of the curve: \<open>d = -121665/121666\<close>, a square root of -1, and a base
  point that satisfies the equation of the curve and has \<open>y = 4/5\<close>.\<close>

lemma ed_constants:
  "121666 * ed_d mod p25519 = - 121665 mod p25519"
  "ed_sqrt_m1 * ed_sqrt_m1 mod p25519 = - 1 mod p25519"
  "5 * ed_y mod p25519 = 4"
  unfolding ed_d_def ed_sqrt_m1_def ed_y_def p25519_def by code_simp+

lemma ed_base_squares:
  "ed_x * ed_x mod p25519 = 26187595835145689230469591415084376402084551887632582719101735842039498021991"
  "ed_y * ed_y mod p25519 = 37053468555941182535542715202780130513046395093004980492626426882532201484768"
  "(26187595835145689230469591415084376402084551887632582719101735842039498021991 :: int) * 37053468555941182535542715202780130513046395093004980492626426882532201484768 mod p25519 = 30655112042971184558329056706696549839726511367961720624960021019854854290862"
  "((37053468555941182535542715202780130513046395093004980492626426882532201484768 :: int) - 26187595835145689230469591415084376402084551887632582719101735842039498021991) mod p25519 = (1 + ed_d * 30655112042971184558329056706696549839726511367961720624960021019854854290862) mod p25519"
  unfolding ed_x_def ed_y_def ed_d_def p25519_def by code_simp+

lemma ed_base_on_curve:
  "(ed_y * ed_y - ed_x * ed_x) mod p25519 = (1 + ed_d * (ed_x * ed_x * (ed_y * ed_y))) mod p25519"
proof -
  have "ed_x * ed_x * (ed_y * ed_y) mod p25519 = 30655112042971184558329056706696549839726511367961720624960021019854854290862"
    using mod_mult_eq [of "ed_x * ed_x" p25519 "ed_y * ed_y"] unfolding ed_base_squares by simp
  then have "(1 + ed_d * (ed_x * ed_x * (ed_y * ed_y))) mod p25519 = (1 + ed_d * 30655112042971184558329056706696549839726511367961720624960021019854854290862) mod p25519"
    by (metis mod_add_right_eq mod_mult_right_eq)
  moreover have "(ed_y * ed_y - ed_x * ed_x) mod p25519 = (37053468555941182535542715202780130513046395093004980492626426882532201484768 - 26187595835145689230469591415084376402084551887632582719101735842039498021991) mod p25519"
    using mod_diff_eq [of "ed_y * ed_y" p25519 "ed_x * ed_x"] unfolding ed_base_squares by simp
  ultimately show ?thesis unfolding ed_base_squares by simp
qed

lemma gval_constants:
  "gval D_gf = ed_d" "gval D2_gf = 16295367250680780974490674513165176452449235426866156013048779062215315747161"
  "gval X_gf = ed_x" "gval Y_gf = ed_y" "gval I_gf = ed_sqrt_m1"
  by (simp_all only: D_gf_def D2_gf_def X_gf_def Y_gf_def I_gf_def gval.simps ed_d_def ed_x_def ed_y_def ed_sqrt_m1_def)
    simp_all

lemma limbs_constants:
  "length D_gf = 16" "length D2_gf = 16" "length X_gf = 16" "length Y_gf = 16" "length I_gf = 16"
  "bounded (2 ^ 17) D_gf" "bounded (2 ^ 17) D2_gf" "bounded (2 ^ 17) X_gf" "bounded (2 ^ 17) Y_gf" "bounded (2 ^ 17) I_gf"
  by (simp_all add: bounded_def D_gf_def D2_gf_def X_gf_def Y_gf_def I_gf_def)

lemma elem_constants:
  "gf_elem (2 ^ 17) D_gf ed_d" "gf_elem (2 ^ 17) D2_gf (2 * ed_d)" "gf_elem (2 ^ 17) X_gf ed_x"
  "gf_elem (2 ^ 17) Y_gf ed_y" "gf_elem (2 ^ 17) I_gf ed_sqrt_m1"
  using limbs_constants by (simp_all add: gf_elem_def gval_constants) (simp add: ed_d_def p25519_def)

lemma elem_0_1: "gf_elem (2 ^ 17) gf1 1" "gf_elem (2 ^ 17) gf0 0"
  by (simp_all add: gf_elem_def gf1_def gf0_def bounded_def) (simp_all add: eval_nat_numeral)

section \<open>Addition\<close>

definition point_elem :: "point \<Rightarrow> ed_point \<Rightarrow> bool" where
  "point_elem = (\<lambda>(a, b, c, d) (x, y, z, t).
     gf_elem (2 ^ 17) a x \<and> gf_elem (2 ^ 17) b y \<and> gf_elem (2 ^ 17) c z \<and> gf_elem (2 ^ 17) d t)"

lemma field_ops:
  assumes "gf_elem (2 ^ 18) p v" "gf_elem (2 ^ 18) q w"
  shows "\<exists>r. A_gf p q = Some r \<and> gf_elem (2 ^ 20) r (v + w)" "\<exists>r. Z_gf p q = Some r \<and> gf_elem (2 ^ 20) r (v - w)"
    "\<exists>r. M_gf p q = Some r \<and> gf_elem (2 ^ 17) r (v * w)"
  by (rule A_gf_elem [OF assms] Z_gf_elem [OF assms]; simp)+
    (rule M_gf_elem [OF elem_mono [OF assms(1)] elem_mono [OF assms(2)]]; simp)

lemma field_ops_small:
  assumes "gf_elem (2 ^ 17) p v" "gf_elem (2 ^ 17) q w"
  shows "\<exists>r. A_gf p q = Some r \<and> gf_elem (2 ^ 18) r (v + w)" "\<exists>r. Z_gf p q = Some r \<and> gf_elem (2 ^ 18) r (v - w)"
    "\<exists>r. M_gf p q = Some r \<and> gf_elem (2 ^ 17) r (v * w)"
  by (rule A_gf_elem [OF assms] Z_gf_elem [OF assms]; simp)+
    (rule M_gf_elem [OF elem_mono [OF assms(1)] elem_mono [OF assms(2)]]; simp)

lemma add_point_elem:
  assumes "point_elem p P" "point_elem q Q"
  shows "\<exists>r. add_point p q = Some r \<and> point_elem r (ed_add P Q)"
proof -
  obtain p0 p1 p2 p3 q0 q1 q2 q3 where p: "p = (p0, p1, p2, p3)" and q: "q = (q0, q1, q2, q3)"
    by (cases p; cases q) auto
  obtain x1 y1 z1 t1 x2 y2 z2 t2 where P: "P = (x1, y1, z1, t1)" and Q: "Q = (x2, y2, z2, t2)"
    by (cases P; cases Q) auto
  have e: "gf_elem (2 ^ 17) p0 x1" "gf_elem (2 ^ 17) p1 y1" "gf_elem (2 ^ 17) p2 z1" "gf_elem (2 ^ 17) p3 t1"
    "gf_elem (2 ^ 17) q0 x2" "gf_elem (2 ^ 17) q1 y2" "gf_elem (2 ^ 17) q2 z2" "gf_elem (2 ^ 17) q3 t2"
    using assms by (simp_all add: point_elem_def p q P Q)
  let ?A = "(y1 - x1) * (y2 - x2)" and ?B = "(x1 + y1) * (x2 + y2)" and ?C = "t1 * t2 * (2 * ed_d)" and ?D = "z1 * z2 + z1 * z2"
  obtain a where a: "Z_gf p1 p0 = Some a" "gf_elem (2 ^ 18) a (y1 - x1)" using field_ops_small(2) [OF e(2,1)] by blast
  obtain t where t: "Z_gf q1 q0 = Some t" "gf_elem (2 ^ 18) t (y2 - x2)" using field_ops_small(2) [OF e(6,5)] by blast
  obtain a' where a': "M_gf a t = Some a'" "gf_elem (2 ^ 17) a' ?A" using field_ops(3) [OF a(2) t(2)] by blast
  obtain b where b: "A_gf p0 p1 = Some b" "gf_elem (2 ^ 18) b (x1 + y1)" using field_ops_small(1) [OF e(1,2)] by blast
  obtain s where s: "A_gf q0 q1 = Some s" "gf_elem (2 ^ 18) s (x2 + y2)" using field_ops_small(1) [OF e(5,6)] by blast
  obtain b' where b': "M_gf b s = Some b'" "gf_elem (2 ^ 17) b' ?B" using field_ops(3) [OF b(2) s(2)] by blast
  obtain c where c: "M_gf p3 q3 = Some c" "gf_elem (2 ^ 17) c (t1 * t2)" using field_ops_small(3) [OF e(4,8)] by blast
  obtain c' where c': "M_gf c D2_gf = Some c'" "gf_elem (2 ^ 17) c' ?C"
    using field_ops_small(3) [OF c(2) elem_constants(2)] by blast
  obtain d where d: "M_gf p2 q2 = Some d" "gf_elem (2 ^ 17) d (z1 * z2)" using field_ops_small(3) [OF e(3,7)] by blast
  obtain d' where d': "A_gf d d = Some d'" "gf_elem (2 ^ 18) d' ?D" using field_ops_small(1) [OF d(2) d(2)] by blast
  have c18: "gf_elem (2 ^ 18) c' ?C" using elem_mono [OF c'(2)] by simp
  obtain ee where ee: "Z_gf b' a' = Some ee" "gf_elem (2 ^ 18) ee (?B - ?A)" using field_ops_small(2) [OF b'(2) a'(2)] by blast
  obtain f where f: "Z_gf d' c' = Some f" "gf_elem (2 ^ 20) f (?D - ?C)" using field_ops(2) [OF d'(2) c18] by blast
  obtain g where g: "A_gf d' c' = Some g" "gf_elem (2 ^ 20) g (?D + ?C)" using field_ops(1) [OF d'(2) c18] by blast
  obtain h where h: "A_gf b' a' = Some h" "gf_elem (2 ^ 18) h (?B + ?A)" using field_ops_small(1) [OF b'(2) a'(2)] by blast
  have e20: "gf_elem (2 ^ 20) ee (?B - ?A)" "gf_elem (2 ^ 20) h (?B + ?A)" using elem_mono [OF ee(2)] elem_mono [OF h(2)] by simp_all
  obtain r0 where r0: "M_gf ee f = Some r0" "gf_elem (2 ^ 17) r0 ((?B - ?A) * (?D - ?C))" using M_gf_elem [OF e20(1) f(2)] by blast
  obtain r1 where r1: "M_gf h g = Some r1" "gf_elem (2 ^ 17) r1 ((?B + ?A) * (?D + ?C))" using M_gf_elem [OF e20(2) g(2)] by blast
  obtain r2 where r2: "M_gf g f = Some r2" "gf_elem (2 ^ 17) r2 ((?D + ?C) * (?D - ?C))" using M_gf_elem [OF g(2) f(2)] by blast
  obtain r3 where r3: "M_gf ee h = Some r3" "gf_elem (2 ^ 17) r3 ((?B - ?A) * (?B + ?A))" using M_gf_elem [OF e20] by blast
  have "add_point p q = Some (r0, r1, r2, r3)"
    by (simp add: add_point_def p q a t a' b s b' c c' d d' ee f g h r0 r1 r2 r3)
  moreover have "(y1 + x1) * (y2 + x2) = ?B" "t1 * 2 * ed_d * t2 = ?C" "z1 * 2 * z2 = ?D" by (simp_all add: algebra_simps)
  then have "point_elem (r0, r1, r2, r3) (ed_add P Q)"
    using r0(2) r1(2) r2(2) r3(2)
    by (simp only: point_elem_def ed_add_def P Q prod.case Let_def elem_mod mult.commute [of "?D + ?C"])
  ultimately show ?thesis by blast
qed

section \<open>Multiples\<close>

lemma cswap_elem:
  assumes "point_elem p P" "point_elem q Q"
  shows "cswap p q (if b then 1 else 0) = (if b then (q, p) else (p, q))"
proof -
  obtain p0 p1 p2 p3 q0 q1 q2 q3 where p: "p = (p0, p1, p2, p3)" and q: "q = (q0, q1, q2, q3)"
    by (cases p; cases q) auto
  have "length p0 = 16 \<and> length p1 = 16 \<and> length p2 = 16 \<and> length p3 = 16"
    "length q0 = 16 \<and> length q1 = 16 \<and> length q2 = 16 \<and> length q3 = 16"
    using assms by (cases P; cases Q; auto simp: point_elem_def p q gf_elem_def)+
  then show ?thesis by (simp add: cswap_def p q sel25519_swap)
qed

lemma drop_bit_and_1: "uint (drop_bit k b AND 1) = (if bit (b :: u8) k then 1 else 0)"
proof -
  have "drop_bit k b AND 1 = (if bit b k then 1 else 0)"
    by (simp add: bit_iff_odd_drop_bit odd_iff_mod_2_eq_one and_one_eq)
  then show ?thesis by simp
qed

lemma scalarmult_step_elem:
  assumes "point_elem p P" "point_elem q Q" "length s = 32" "i < 256"
  shows "\<exists>p' q'. scalarmult_step s i (p, q) = Some (p', q') \<and>
    point_elem p' (fst (ed_step (bit (le_nat s) i) (P, Q))) \<and> point_elem q' (snd (ed_step (bit (le_nat s) i) (P, Q)))"
proof -
  define k where "k = bit (le_nat s) i"
  have k: "uint (drop_bit (i mod 8) (s ! (i div 8)) AND 1) = (if k then 1 else 0)"
    using bit_le_nat [of i s] assms(3,4) by (simp add: drop_bit_and_1 k_def)
  have dbl: "\<exists>r. add_point p p = Some r \<and> point_elem r (ed_add P P)" "\<exists>r. add_point q q = Some r \<and> point_elem r (ed_add Q Q)"
    "\<exists>r. add_point p q = Some r \<and> point_elem r (ed_add P Q)" "\<exists>r. add_point q p = Some r \<and> point_elem r (ed_add Q P)"
    by (rule add_point_elem; rule assms(1,2))+
  have sw: "cswap u v (if k then 1 else 0) = (if k then (v, u) else (u, v))"
    if "point_elem u U" "point_elem v V" for u v U V by (rule cswap_elem [OF that])
  show ?thesis
  proof (cases k)
    case True
    obtain a where a: "add_point p q = Some a" "point_elem a (ed_add P Q)" using dbl(3) by blast
    obtain b where b: "add_point q q = Some b" "point_elem b (ed_add Q Q)" using dbl(2) by blast
    have "scalarmult_step s i (p, q) = Some (a, b)"
      unfolding scalarmult_step_def prod.case Let_def k using True sw [OF assms(1,2)] sw [OF b(2) a(2)] a(1) b(1) by simp
    then show ?thesis using a(2) b(2) True by (simp add: ed_step_def k_def)
  next
    case False
    obtain a where a: "add_point q p = Some a" "point_elem a (ed_add Q P)" using dbl(4) by blast
    obtain b where b: "add_point p p = Some b" "point_elem b (ed_add P P)" using dbl(1) by blast
    have "scalarmult_step s i (p, q) = Some (b, a)"
      unfolding scalarmult_step_def prod.case Let_def k using False sw [OF assms(1,2)] sw [OF b(2) a(2)] a(1) b(1) by simp
    then show ?thesis using a(2) b(2) False by (simp add: ed_step_def k_def)
  qed
qed

lemma scalarmult_fold:
  assumes "point_elem p P" "point_elem q Q" "length s = 32" "set is \<subseteq> {..<256}"
  shows "\<exists>p' q'. foldM (scalarmult_step s) is (p, q) = Some (p', q') \<and>
    point_elem p' (fst (fold (\<lambda>i. ed_step (bit (le_nat s) i)) is (P, Q))) \<and>
    point_elem q' (snd (fold (\<lambda>i. ed_step (bit (le_nat s) i)) is (P, Q)))"
  using assms(1,2,4)
proof (induction "is" arbitrary: p q P Q)
  case (Cons i "is")
  obtain p' q' where s: "scalarmult_step s i (p, q) = Some (p', q')"
    "point_elem p' (fst (ed_step (bit (le_nat s) i) (P, Q)))" "point_elem q' (snd (ed_step (bit (le_nat s) i) (P, Q)))"
    using scalarmult_step_elem [OF Cons.prems(1,2) assms(3), of i] Cons.prems(3) by auto
  then show ?case using Cons.IH [OF s(2,3)] Cons.prems(3) by simp
qed simp

lemma point_elem_id: "point_elem (gf0, gf1, gf1, gf0) (0, 1, 1, 0)"
  using elem_0_1 by (simp add: point_elem_def)

theorem scalarmult_elem:
  assumes "point_elem q Q" "length s = 32"
  shows "\<exists>p' q'. scalarmult q s = Some (p', q') \<and> point_elem p' (ed_multiple (le_nat s) Q)"
  using scalarmult_fold [OF point_elem_id assms set_rev_upt [of 256]]
  unfolding scalarmult_def ed_multiple_def by blast

lemma point_elem_base: "\<exists>t. M_gf X_gf Y_gf = Some t \<and> point_elem (X_gf, Y_gf, gf1, t) ed_base"
proof -
  obtain t where t: "M_gf X_gf Y_gf = Some t" "gf_elem (2 ^ 17) t (ed_x * ed_y)"
    using field_ops_small(3) [OF elem_constants(3,4)] by blast
  then show ?thesis using elem_constants(3,4) elem_0_1(1) by (simp add: point_elem_def ed_base_def)
qed

theorem scalarbase_elem:
  assumes "length s = 32"
  shows "\<exists>p. scalarbase s = Some p \<and> point_elem p (ed_multiple (le_nat s) ed_base)"
  using point_elem_base scalarmult_elem [OF _ assms] by (fastforce simp: scalarbase_def)

section \<open>Encoding\<close>

lemma xor_128: "u < 128 \<Longrightarrow> (of_nat u :: u8) XOR 128 = of_nat (u + 128)"
proof -
  have "list_all (\<lambda>u. (of_nat u :: u8) XOR 128 = of_nat (u + 128)) [0..<128]" by code_simp
  then show "u < 128 \<Longrightarrow> (of_nat u :: u8) XOR 128 = of_nat (u + 128)" by (simp add: list_all_iff del: of_nat_add)
qed

lemma le_bytes_sign:
  assumes "v < 2 ^ 255"
  shows "(le_bytes 32 v)[31 := le_bytes 32 v ! 31 XOR push_bit 7 (of_nat (e mod 2))] = le_bytes 32 (v + 2 ^ 255 * (e mod 2))"
proof -
  have s: "le_bytes 32 w = le_bytes 31 w @ [of_nat (w div 256 ^ 31)]" for w
    using le_bytes_split [of 31 1 w] by simp
  have u: "v div 256 ^ 31 < 128" using assms by (simp add: div_less_iff_less_mult)
  have d: "(v + 2 ^ 255) div 256 ^ 31 = v div 256 ^ 31 + 128"
    using div_mult_self2 [of "256 ^ 31" v 128] by simp
  have m: "le_bytes 31 (v + 2 ^ 255) = le_bytes 31 v"
  proof -
    have "v + 2 ^ 255 = v + 256 ^ 31 * 128" by simp
    then have "(v + 2 ^ 255) mod 256 ^ 31 = v mod 256 ^ 31" by (simp only: mod_mult_self2)
    then show ?thesis using le_bytes_mod [of 31 "v + 2 ^ 255"] le_bytes_mod [of 31 v] by metis
  qed
  show ?thesis
  proof (cases "e mod 2 = 0")
    case False
    then have e: "e mod 2 = 1" by simp
    have "push_bit 7 (of_nat (e mod 2)) = (128 :: u8)" by (simp add: e push_bit_eq_mult)
    then have "(le_bytes 32 v)[31 := le_bytes 32 v ! 31 XOR push_bit 7 (of_nat (e mod 2))] =
        le_bytes 31 v @ [of_nat (v div 256 ^ 31 + 128)]"
      unfolding s [of v] using xor_128 [OF u] by (simp add: nth_append list_update_append del: of_nat_add)
    moreover have "le_bytes 32 (v + 2 ^ 255) = le_bytes 31 v @ [of_nat (v div 256 ^ 31 + 128)]"
      unfolding s [of "v + 2 ^ 255"] m d ..
    ultimately show ?thesis by (simp only: e mult_1_right)
  qed (simp del: le_bytes.simps)
qed

lemma par25519_value:
  assumes "gf_elem (2 ^ 17) a x"
  shows "par25519 a = Some (of_nat (nat (x mod p25519) mod 2))"
proof -
  have "pack25519 a = Some (le_bytes 32 (nat (x mod p25519)))" by (rule pack25519_value [OF assms]) simp_all
  moreover have "le_bytes 32 w ! 0 AND 1 = of_nat (w mod 2)" for w
  proof -
    have "le_bytes n w ! 0 = of_nat w" if "0 < n" for n using that by (cases n) simp_all
    then have "le_bytes 32 w ! 0 = of_nat w" by simp
    moreover have "(of_nat w :: u8) AND 1 = of_nat (w mod 2)"
      using of_nat_and_eq [of w 1, where 'a = u8] by (simp only: and_one_eq of_nat_1)
    ultimately show ?thesis by simp
  qed
  ultimately show ?thesis by (simp add: par25519_def)
qed


lemma p25519_pos: "0 < p25519" "p25519 < 2 ^ 255"
  by (simp_all add: p25519_def)

theorem pack_point_result:
  assumes "point_elem p P"
  shows "pack_point p = Some (ed_encode P)"
proof -
  obtain p0 p1 p2 p3 where p: "p = (p0, p1, p2, p3)" by (cases p) auto
  obtain x y z t where P: "P = (x, y, z, t)" by (cases P) auto
  have e: "gf_elem (2 ^ 17) p0 x" "gf_elem (2 ^ 17) p1 y" "gf_elem (2 ^ 17) p2 z"
    using assms by (simp_all add: point_elem_def p P)
  then have e20: "gf_elem (2 ^ 20) p0 x" "gf_elem (2 ^ 20) p1 y" "gf_elem (2 ^ 20) p2 z"
    using elem_mono [of "2 ^ 17" _ _ "2 ^ 20"] by simp_all
  define zi where "zi = z ^ nat (p25519 - 2)"
  obtain i where i: "inv25519 p2 = Some i" "gf_elem (2 ^ 20) i zi" using inv25519_elem [OF e20(3)] by (auto simp: zi_def)
  obtain tx where tx: "M_gf p0 i = Some tx" "gf_elem (2 ^ 17) tx (x * zi)" using M_gf_elem [OF e20(1) i(2)] by blast
  obtain ty where ty: "M_gf p1 i = Some ty" "gf_elem (2 ^ 17) ty (y * zi)" using M_gf_elem [OF e20(2) i(2)] by blast
  define ax where "ax = nat (x * zi mod p25519)"
  define ay where "ay = nat (y * zi mod p25519)"
  have pk: "pack25519 ty = Some (le_bytes 32 ay)" unfolding ay_def by (rule pack25519_value [OF ty(2)]) simp_all
  have ay: "ay < 2 ^ 255" using pos_mod_bound [OF p25519_pos(1), of "y * zi"] p25519_pos(2) by (simp add: ay_def nat_less_iff)
  have "pack_point p = Some (le_bytes 32 (ay + 2 ^ 255 * (ax mod 2)))"
    using le_bytes_sign [OF ay, of ax]
    by (simp add: pack_point_def p i tx ty pk par25519_value [OF tx(2)] ax_def [symmetric] del: le_bytes.simps)
  moreover have "nat (y * zi mod p25519 + 2 ^ 255 * (x * zi mod p25519 mod 2)) = ay + 2 ^ 255 * (ax mod 2)"
    using pos_mod_sign [OF p25519_pos(1)] by (simp add: ax_def ay_def nat_add_distrib nat_mult_distrib nat_mod_distrib)
  ultimately show ?thesis unfolding ed_encode_def P prod.case Let_def zi_def [symmetric] by simp
qed

section \<open>Decoding\<close>

text \<open>Reference: the point with the encoded \<open>y\<close> and the negated \<open>x\<close>, if there is one.\<close>

definition ed_root :: "int \<Rightarrow> int \<Rightarrow> int" where
  "ed_root u v = u * v ^ 3 * (u * v ^ 7) ^ nat ((p25519 - 5) div 8)"

definition ed_decode_neg :: "u8 list \<Rightarrow> ed_point option" where
  "ed_decode_neg b =
     (let y = int (le_nat b mod 2 ^ 255); u = y * y - 1; v = 1 + y * y * ed_d;
          x = ed_root u v;
          x = (if x * x * v mod p25519 = u mod p25519 then x else x * ed_sqrt_m1)
      in if x * x * v mod p25519 \<noteq> u mod p25519 then None
         else let x = (if nat (x mod p25519) mod 2 = le_nat b div 2 ^ 255 then - x else x)
              in Some (x, y, 1, x * y))"

lemma sign_bit:
  assumes "length b = 32"
  shows "drop_bit 7 (b ! 31) = (of_nat (le_nat b div 2 ^ 255) :: u8)" "le_nat b div 2 ^ 255 < 2"
proof -
  have b: "take 31 b @ [b ! 31] = b" using assms take_Suc_conv_app_nth [of 31 b] by simp
  have "le_nat b = le_nat (take 31 b) + 256 ^ 31 * unat (b ! 31)"
    using le_nat_append [of "take 31 b" "[b ! 31]"] assms unfolding b by simp
  moreover have "le_nat (take 31 b) < 256 ^ 31" using le_nat_bound [of "take 31 b"] assms by simp
  ultimately have q: "le_nat b div 256 ^ 31 = unat (b ! 31)" by simp
  have "le_nat b div 2 ^ 255 = le_nat b div 256 ^ 31 div 128" by (simp add: div_mult2_eq [symmetric])
  then have d: "le_nat b div 2 ^ 255 = unat (b ! 31) div 128" unfolding q .
  have "of_nat (unat (drop_bit 7 (b ! 31))) = drop_bit 7 (b ! 31)" by simp
  then show "drop_bit 7 (b ! 31) = (of_nat (le_nat b div 2 ^ 255) :: u8)"
    unfolding d unat_drop_bit_eq by (simp add: drop_bit_nat_def)
  show "le_nat b div 2 ^ 255 < 2" unfolding d using byte_bound [of "b ! 31"] by simp
qed


lemma mult20:
  assumes "gf_elem (2 ^ 20) a x" "gf_elem (2 ^ 20) b y"
  shows "\<exists>r. M_gf a b = Some r \<and> gf_elem (2 ^ 20) r (x * y)"
  using M_gf_elem [OF assms] elem_mono by fastforce

lemma small_of_nat_eq: "m < 2 \<Longrightarrow> n < 2 \<Longrightarrow> (of_nat m :: u8) = of_nat n \<longleftrightarrow> m = n"
  by (auto simp: less_2_cases_iff)

theorem unpackneg_result:
  assumes "length b = 32"
  shows "(ed_decode_neg b = None \<and> unpackneg b = Some None) \<or>
    (\<exists>p P. ed_decode_neg b = Some P \<and> unpackneg b = Some (Some p) \<and> point_elem p P)"
proof -
  note up = elem_mono [of "2 ^ 17" _ _ "2 ^ 20"]
  define y where "y = int (le_nat b mod 2 ^ 255)"
  define u where "u = y * y - 1"
  define v where "v = 1 + y * y * ed_d"
  define r1 where "r1 = unpack25519 b"
  have y: "gf_elem (2 ^ 17) r1 y" unfolding r1_def y_def by (rule unpack25519_elem [OF assms])
  obtain yy where yy: "S_gf r1 = Some yy" "gf_elem (2 ^ 17) yy (y * y)" using field_ops_small(3) [OF y y] by (auto simp: S_gf_def)
  obtain dy where dy: "M_gf yy D_gf = Some dy" "gf_elem (2 ^ 17) dy (y * y * ed_d)"
    using field_ops_small(3) [OF yy(2) elem_constants(1)] by blast
  obtain num where "Z_gf yy gf1 = Some num" "gf_elem (2 ^ 18) num u"
    using field_ops_small(2) [OF yy(2) elem_0_1(1)] by (auto simp: u_def)
  then have num: "Z_gf yy gf1 = Some num" "gf_elem (2 ^ 20) num u" using elem_mono [of "2 ^ 18" num u "2 ^ 20"] by simp_all
  obtain den where "A_gf gf1 dy = Some den" "gf_elem (2 ^ 18) den v"
    using field_ops_small(1) [OF elem_0_1(1) dy(2)] by (auto simp: v_def)
  then have den: "A_gf gf1 dy = Some den" "gf_elem (2 ^ 20) den v" using elem_mono [of "2 ^ 18" den v "2 ^ 20"] by simp_all
  obtain d2 where d2: "S_gf den = Some d2" "gf_elem (2 ^ 20) d2 (v * v)" using mult20 [OF den(2) den(2)] by (auto simp: S_gf_def)
  obtain d4 where d4: "S_gf d2 = Some d4" "gf_elem (2 ^ 20) d4 (v * v * (v * v))" using mult20 [OF d2(2) d2(2)] by (auto simp: S_gf_def)
  obtain d6 where d6: "M_gf d4 d2 = Some d6" "gf_elem (2 ^ 20) d6 (v * v * (v * v) * (v * v))" using mult20 [OF d4(2) d2(2)] by blast
  obtain t1 where t1: "M_gf d6 num = Some t1" "gf_elem (2 ^ 20) t1 (v * v * (v * v) * (v * v) * u)" using mult20 [OF d6(2) num(2)] by blast
  obtain t2 where t2: "M_gf t1 den = Some t2" "gf_elem (2 ^ 20) t2 (v * v * (v * v) * (v * v) * u * v)" using mult20 [OF t1(2) den(2)] by blast
  define w where "w = (v * v * (v * v) * (v * v) * u * v) ^ nat ((p25519 - 5) div 8)"
  obtain t3 where t3: "pow2523 t2 = Some t3" "gf_elem (2 ^ 20) t3 w" using pow2523_elem [OF t2(2)] by (auto simp: w_def)
  obtain t4 where t4: "M_gf t3 num = Some t4" "gf_elem (2 ^ 20) t4 (w * u)" using mult20 [OF t3(2) num(2)] by blast
  obtain t5 where t5: "M_gf t4 den = Some t5" "gf_elem (2 ^ 20) t5 (w * u * v)" using mult20 [OF t4(2) den(2)] by blast
  obtain t6 where t6: "M_gf t5 den = Some t6" "gf_elem (2 ^ 20) t6 (w * u * v * v)" using mult20 [OF t5(2) den(2)] by blast
  define x0 where "x0 = ed_root u v"
  have "w * u * v * v * v = x0" by (simp add: x0_def ed_root_def w_def power_numeral_reduce algebra_simps)
  then obtain r0 where r0: "M_gf t6 den = Some r0" "gf_elem (2 ^ 17) r0 x0" using M_gf_elem [OF t6(2) den(2)] by auto
  have chk: "\<exists>c. S_gf r = Some c \<and> (\<exists>c'. M_gf c den = Some c' \<and>
      neq25519 c' num = Some (if x * x * v mod p25519 = u mod p25519 then 0 else - 1))" if r: "gf_elem (2 ^ 17) r x" for r x
  proof -
    obtain c where c: "S_gf r = Some c" "gf_elem (2 ^ 20) c (x * x)" using mult20 [OF up [OF r] up [OF r]] by (auto simp: S_gf_def)
    obtain c' where "M_gf c den = Some c'" "gf_elem (2 ^ 20) c' (x * x * v)" using mult20 [OF c(2) den(2)] by blast
    then show ?thesis using c neq25519_iff [OF _ num(2)] by blast
  qed
  define x where "x = (if x0 * x0 * v mod p25519 = u mod p25519 then x0 else x0 * ed_sqrt_m1)"
  obtain rI where rI: "M_gf r0 I_gf = Some rI" "gf_elem (2 ^ 17) rI (x0 * ed_sqrt_m1)"
    using field_ops_small(3) [OF r0(2) elem_constants(5)] by blast
  define rx where "rx = (if x0 * x0 * v mod p25519 = u mod p25519 then r0 else rI)"
  have rx: "gf_elem (2 ^ 17) rx x" using r0(2) rI(2) by (simp add: rx_def x_def)
  obtain c0 c0' where c0: "S_gf r0 = Some c0" "M_gf c0 den = Some c0'"
    "neq25519 c0' num = Some (if x0 * x0 * v mod p25519 = u mod p25519 then 0 else - 1)" using chk [OF r0(2)] by blast
  obtain c1 c1' where c1: "S_gf rx = Some c1" "M_gf c1 den = Some c1'"
    "neq25519 c1' num = Some (if x * x * v mod p25519 = u mod p25519 then 0 else - 1)" using chk [OF rx] by blast
  have mid: "(if (if x0 * x0 * v mod p25519 = u mod p25519 then 0 else - 1) \<noteq> (0 :: int) then M_gf r0 I_gf else Some r0) = Some rx"
    using rI(1) by (simp add: rx_def)
  define s where "s = le_nat b div 2 ^ 255"
  have par: "par25519 rx = Some (of_nat (nat (x mod p25519) mod 2))" by (rule par25519_value [OF rx])
  have sgn: "(of_nat (nat (x mod p25519) mod 2) = drop_bit 7 (b ! 31)) \<longleftrightarrow> nat (x mod p25519) mod 2 = s"
    unfolding sign_bit(1) [OF assms] s_def [symmetric] using sign_bit(2) [OF assms] by (intro small_of_nat_eq) (simp_all add: s_def)
  have "gval (replicate n 0) = 0" for n by (induction n) simp_all
  then have "gf_elem 0 gf0 0" by (simp add: gf_elem_def gf0_def bounded_def)
  then obtain rn where rn: "Z_gf gf0 rx = Some rn" "gf_elem (2 ^ 17) rn (0 - x)"
    using Z_gf_elem [OF _ rx, of 0 gf0 0 "2 ^ 17"] by auto
  define X where "X = (if nat (x mod p25519) mod 2 = s then - x else x)"
  define rX where "rX = (if nat (x mod p25519) mod 2 = s then rn else rx)"
  have rX: "gf_elem (2 ^ 17) rX X" using rn(2) rx by (simp add: rX_def X_def)
  have last: "(if nat (x mod p25519) mod 2 = s then Z_gf gf0 rx else Some rx) = Some rX" using rn(1) by (simp add: rX_def)
  obtain r3 where r3: "M_gf rX r1 = Some r3" "gf_elem (2 ^ 17) r3 (X * y)" using field_ops_small(3) [OF rX y] by blast
  have dec: "ed_decode_neg b = (if x * x * v mod p25519 \<noteq> u mod p25519 then None else Some (X, y, 1, X * y))"
    unfolding ed_decode_neg_def Let_def y_def [symmetric] u_def [symmetric] v_def [symmetric] x0_def [symmetric]
      x_def [symmetric] s_def [symmetric] X_def [symmetric] ..
  have code: "unpackneg b = (if x * x * v mod p25519 \<noteq> u mod p25519 then Some None else Some (Some (rX, r1, gf1, r3)))"
    unfolding unpackneg_def Let_def r1_def [symmetric] yy(1) Option.bind.simps dy(1) num(1) den(1) d2(1) d4(1) d6(1) t1(1) t2(1)
      t3(1) t4(1) t5(1) t6(1) r0(1) c0 mid c1 par sgn last r3(1)
    by simp
  show ?thesis
  proof (cases "x * x * v mod p25519 = u mod p25519")
    case True
    have "point_elem (rX, r1, gf1, r3) (X, y, 1, X * y)" using rX y elem_0_1(1) r3(2) by (simp add: point_elem_def)
    then show ?thesis using True dec code by simp
  qed (simp add: dec code)
qed


section \<open>What the reference means on the curve\<close>

text \<open>Extended coordinates \<open>P\<close> of the affine point \<open>(x, y)\<close>, and the points of the curve.\<close>

definition affine :: "ed_point \<Rightarrow> int \<Rightarrow> int \<Rightarrow> bool" where
  "affine P x y = (case P of (X, Y, Z, T) \<Rightarrow>
     X mod p25519 = x * Z mod p25519 \<and> Y mod p25519 = y * Z mod p25519 \<and> T mod p25519 = x * y * Z mod p25519)"

definition on_curve :: "int \<Rightarrow> int \<Rightarrow> bool" where
  "on_curve x y \<longleftrightarrow> (y * y - x * x) mod p25519 = (1 + ed_d * (x * x * (y * y))) mod p25519"

lemma mod_p_cong: "a mod p25519 = b mod p25519 \<longleftrightarrow> (\<exists>k. a = b + p25519 * k)"
  by (metis mod_eq_dvd_iff dvd_def add_diff_cancel_left' diff_add_cancel add.commute)

lemma ed_add_mod:
  assumes "x1 mod p25519 = x1' mod p25519" "y1 mod p25519 = y1' mod p25519" "z1 mod p25519 = z1' mod p25519" "t1 mod p25519 = t1' mod p25519"
    and "x2 mod p25519 = x2' mod p25519" "y2 mod p25519 = y2' mod p25519" "z2 mod p25519 = z2' mod p25519" "t2 mod p25519 = t2' mod p25519"
  shows "ed_add (x1, y1, z1, t1) (x2, y2, z2, t2) = ed_add (x1', y1', z1', t1') (x2', y2', z2', t2')"
proof -
  note c = mod_mult_cong mod_add_cong mod_diff_cong
  show ?thesis unfolding ed_add_def prod.case Let_def
    by (intro arg_cong2 [where f = Pair] c assms refl)
qed

text \<open>The addition law of the twisted Edwards curve: the sum \<open>(x3, y3)\<close> satisfies
  \<open>x3 (1 + d x1 x2 y1 y2) = x1 y2 + x2 y1\<close> and \<open>y3 (1 - d x1 x2 y1 y2) = y1 y2 + x1 x2\<close>.\<close>

theorem ed_add_affine:
  assumes "affine P x1 y1" "affine Q x2 y2"
    and "x3 * (1 + ed_d * (x1 * x2 * y1 * y2)) mod p25519 = (x1 * y2 + x2 * y1) mod p25519"
    and "y3 * (1 - ed_d * (x1 * x2 * y1 * y2)) mod p25519 = (y1 * y2 + x1 * x2) mod p25519"
  shows "affine (ed_add P Q) x3 y3"
proof -
  obtain X1 Y1 z1 T1 X2 Y2 z2 T2 where P: "P = (X1, Y1, z1, T1)" and Q: "Q = (X2, Y2, z2, T2)" by (cases P; cases Q) auto
  define w where "w = 2 * (z1 * z2)"
  define k where "k = ed_d * (x1 * x2 * y1 * y2)"
  define e where "e = x1 * y2 + x2 * y1"
  define h where "h = y1 * y2 + x1 * x2"
  have "ed_add P Q = ed_add (x1 * z1, y1 * z1, z1, x1 * y1 * z1) (x2 * z2, y2 * z2, z2, x2 * y2 * z2)"
    unfolding P Q by (rule ed_add_mod) (use assms(1,2) in \<open>simp_all add: affine_def P Q\<close>)
  also have "\<dots> = (w * e * (w * (1 - k)) mod p25519, w * (1 + k) * (w * h) mod p25519,
      w * (1 - k) * (w * (1 + k)) mod p25519, w * e * (w * h) mod p25519)"
  proof -
    have "(y1 * z1 + x1 * z1) * (y2 * z2 + x2 * z2) - (y1 * z1 - x1 * z1) * (y2 * z2 - x2 * z2) = w * e"
      "z1 * 2 * z2 - x1 * y1 * z1 * 2 * ed_d * (x2 * y2 * z2) = w * (1 - k)"
      "z1 * 2 * z2 + x1 * y1 * z1 * 2 * ed_d * (x2 * y2 * z2) = w * (1 + k)"
      "(y1 * z1 + x1 * z1) * (y2 * z2 + x2 * z2) + (y1 * z1 - x1 * z1) * (y2 * z2 - x2 * z2) = w * h"
      by (simp_all add: w_def k_def e_def h_def algebra_simps)
    then show ?thesis unfolding ed_add_def prod.case Let_def by simp
  qed
  finally have r: "ed_add P Q = (w * e * (w * (1 - k)) mod p25519, w * (1 + k) * (w * h) mod p25519,
      w * (1 - k) * (w * (1 + k)) mod p25519, w * e * (w * h) mod p25519)" .
  have ex: "x3 * (1 + k) mod p25519 = e mod p25519" and ey: "y3 * (1 - k) mod p25519 = h mod p25519"
    using assms(3,4) by (simp_all add: k_def e_def h_def)
  have "(w * e * (w * (1 - k))) mod p25519 = (x3 * (w * (1 - k) * (w * (1 + k)))) mod p25519"
    using mod_mult_cong [OF ex [symmetric] refl, of "w * (w * (1 - k))"] by (simp add: mult_ac)
  moreover have "(w * (1 + k) * (w * h)) mod p25519 = (y3 * (w * (1 - k) * (w * (1 + k)))) mod p25519"
    using mod_mult_cong [OF ey [symmetric] refl, of "w * (w * (1 + k))"] by (simp add: mult_ac)
  moreover have "(w * e * (w * h)) mod p25519 = (x3 * y3 * (w * (1 - k) * (w * (1 + k)))) mod p25519"
    using mod_mult_cong [OF mod_mult_cong [OF ex [symmetric] ey [symmetric]] refl, of "w * w"] by (simp add: mult_ac)
  ultimately show ?thesis unfolding r affine_def prod.case by (metis mod_mod_trivial mod_mult_right_eq)
qed

lemma ed_base_affine: "affine ed_base ed_x ed_y" "on_curve ed_x ed_y"
  using ed_base_on_curve by (simp_all add: affine_def ed_base_def on_curve_def)

text \<open>A decoded point lies on the curve.\<close>

theorem ed_decode_on_curve:
  assumes "ed_decode_neg b = Some P"
  shows "\<exists>x. affine P x (int (le_nat b mod 2 ^ 255)) \<and> on_curve x (int (le_nat b mod 2 ^ 255))"
proof -
  define y where "y = int (le_nat b mod 2 ^ 255)"
  define v where "v = 1 + y * y * ed_d"
  define u where "u = y * y - 1"
  define x0 where "x0 = (if ed_root u v * ed_root u v * v mod p25519 = u mod p25519 then ed_root u v else ed_root u v * ed_sqrt_m1)"
  define x where "x = (if nat (x0 mod p25519) mod 2 = le_nat b div 2 ^ 255 then - x0 else x0)"
  have "ed_decode_neg b = (if x0 * x0 * v mod p25519 \<noteq> u mod p25519 then None else Some (x, y, 1, x * y))"
    unfolding ed_decode_neg_def Let_def y_def [symmetric] u_def [symmetric] v_def [symmetric] x0_def [symmetric] x_def [symmetric] ..
  then have P: "P = (x, y, 1, x * y)" and "x0 * x0 * v mod p25519 = u mod p25519"
    using assms by (simp_all split: if_splits)
  moreover have "x * x = x0 * x0" by (simp add: x_def)
  ultimately have "x * x * (1 + y * y * ed_d) mod p25519 = (y * y - 1) mod p25519" by (simp add: v_def u_def)
  then obtain k where "x * x * (1 + y * y * ed_d) = y * y - 1 + p25519 * k" unfolding mod_p_cong by blast
  then have "y * y - x * x = 1 + ed_d * (x * x * (y * y)) + p25519 * (- k)" by (simp add: algebra_simps)
  then have "on_curve x y" unfolding on_curve_def mod_p_cong by blast
  then show ?thesis using P by (auto simp: y_def affine_def)
qed

end
