(* ===== verification/Nacl_Sign.thy ===== *)
theory Nacl_Sign
  imports Nacl_ModL Nacl_Edwards
begin

text \<open>
  Crypto/src/tweetnacl.c, the signatures: \<open>crypto_sign_keypair\<close>, \<open>crypto_sign\<close> and
  \<open>crypto_sign_open\<close>.  The buffers a caller passes do not overlap; one that is too short is
  undefined behaviour.  The reference is Ed25519 of RFC 8032, with the private key followed by the
  public key as the code stores them.
\<close>

unbundle bit_operations_syntax

section \<open>The code\<close>

definition clamp_hash :: "u8 list \<Rightarrow> u8 list" where
  "clamp_hash d = (let d = d[0 := d ! 0 AND 248]; d = d[31 := d ! 31 AND 127] in d[31 := d ! 31 OR 64])"

text \<open>The result is the pair of the public and the secret key; the bytes of \<open>randombytes\<close> are an
  argument.\<close>

definition crypto_sign_keypair :: "u8 list \<Rightarrow> (u8 list \<times> u8 list) option" where
  "crypto_sign_keypair random = do {
     d \<leftarrow> crypto_hash random 32;
     let d = clamp_hash d;
     p \<leftarrow> scalarbase d;
     pk \<leftarrow> pack_point p;
     Some (pk, take 32 random @ pk)
   }"

text \<open>\<open>x\<close> is \<open>r\<close> plus the product of \<open>h\<close> and \<open>d\<close>; the products are of type \<open>u64\<close>.\<close>

definition sign_product :: "u8 list \<Rightarrow> u8 list \<Rightarrow> int list \<Rightarrow> int list" where
  "sign_product h d x =
     fold (\<lambda>i x. fold (\<lambda>j x. x[i + j := to_i64 (x ! (i + j) + uint (h ! i) * uint (d ! j))]) [0..<32] x) [0..<32] x"

definition crypto_sign ::
  "u8 list \<Rightarrow> u8 list \<Rightarrow> u64 \<Rightarrow> u8 list \<Rightarrow> (int \<times> u8 list \<times> u64) option" where
  "crypto_sign sm m n sk =
     (if length sm < unat n + 64 \<or> length m < unat n \<or> length sk < 64 then None
      else do {
        d \<leftarrow> crypto_hash sk 32;
        let d = clamp_hash d;
        let smlen = n + 64;
        let sm = take 64 sm @ take (unat n) m @ drop (64 + unat n) sm;
        let sm = take 32 sm @ take 32 (drop 32 d) @ drop 64 sm;
        r \<leftarrow> crypto_hash (drop 32 sm) (n + 32);
        r \<leftarrow> reduce r;
        p \<leftarrow> scalarbase r;
        e \<leftarrow> pack_point p;
        let sm = e @ drop 32 sm;
        let sm = take 32 sm @ take 32 (drop 32 sk) @ drop 64 sm;
        h \<leftarrow> crypto_hash sm (n + 64);
        h \<leftarrow> reduce h;
        let x = map uint (take 32 r) @ replicate 32 0;
        s \<leftarrow> modL (sign_product h d x);
        let sm = take 32 sm @ s @ drop 64 sm;
        Some (0, sm, smlen)
      })"

text \<open>The result is the return value, the message buffer and \<open>*mlen\<close>.\<close>

definition crypto_sign_open ::
  "u8 list \<Rightarrow> u8 list \<Rightarrow> u64 \<Rightarrow> u8 list \<Rightarrow> (int \<times> u8 list \<times> u64) option" where
  "crypto_sign_open m sm n pk =
     (if n < 64 then Some (- 1, m, - 1)
      else if length sm < unat n \<or> length m < unat n \<or> length pk < 32 then None
      else do {
        q \<leftarrow> unpackneg (take 32 pk);
        (case q of
           None \<Rightarrow> Some (- 1, m, - 1)
         | Some q \<Rightarrow> do {
             let m = take (unat n) sm @ drop (unat n) m;
             let m = take 32 m @ take 32 pk @ drop 64 m;
             h \<leftarrow> crypto_hash m n;
             h \<leftarrow> reduce h;
             (p, q) \<leftarrow> scalarmult q h;
             q \<leftarrow> scalarbase (drop 32 sm);
             p \<leftarrow> add_point p q;
             t \<leftarrow> pack_point p;
             let n = n - 64;
             if crypto_verify_32 sm t \<noteq> 0 then Some (- 1, replicate (unat n) 0 @ drop (unat n) m, - 1)
             else Some (0, take (unat n) (drop 64 sm) @ drop (unat n) m, n)
           })
      })"

section \<open>Reference: Ed25519\<close>

definition ed_order :: nat where "ed_order = nat group_order"

definition ed_hash :: "u8 list \<Rightarrow> nat" where
  "ed_hash bs = le_nat (SHA512 bs) mod ed_order"

definition ed_public :: "u8 list \<Rightarrow> u8 list" where
  "ed_public seed = ed_encode (ed_multiple (decode_scalar (SHA512 seed)) ed_base)"

lemma length_ed_public: "length (ed_public seed) = 32"
  by (simp add: ed_public_def)

definition ed_sign :: "u8 list \<Rightarrow> u8 list \<Rightarrow> u8 list \<Rightarrow> u8 list" where
  "ed_sign seed public msg =
     (let d = SHA512 seed;
          r = ed_hash (drop 32 d @ msg);
          R = ed_encode (ed_multiple r ed_base);
          k = ed_hash (R @ public @ msg)
      in R @ le_bytes 32 ((r + k * decode_scalar d) mod ed_order))"

definition ed_verify :: "u8 list \<Rightarrow> u8 list \<Rightarrow> u8 list \<Rightarrow> bool" where
  "ed_verify public sig msg =
     (case ed_decode_neg public of
        None \<Rightarrow> False
      | Some A \<Rightarrow>
          let k = ed_hash (take 32 sig @ public @ msg); s = le_nat (take 32 (drop 32 sig))
          in ed_encode (ed_add (ed_multiple k A) (ed_multiple s ed_base)) = take 32 sig)"

section \<open>Scalars\<close>

lemma ed_order_bound: "0 < ed_order" "ed_order < 256 ^ 32"
  by (simp_all add: ed_order_def group_order_def)

lemma foldM_cong: "(\<And>x. x \<in> set xs \<Longrightarrow> f x = g x) \<Longrightarrow> foldM f xs s = foldM g xs s"
  by (induction xs arbitrary: s) (auto cong: Option.bind_cong)

lemma scalarmult_take:
  assumes "32 \<le> length s"
  shows "scalarmult q s = scalarmult q (take 32 s)" "scalarbase s = scalarbase (take 32 s)"
proof -
  show e: "scalarmult q s = scalarmult q (take 32 s)" for q
    unfolding scalarmult_def by (rule foldM_cong) (auto simp: scalarmult_step_def)
  show "scalarbase s = scalarbase (take 32 s)" unfolding scalarbase_def e [symmetric] ..
qed

lemma le_nat_digits: "v < 256 ^ 32 \<Longrightarrow> le_nat (le_bytes 32 v) = v"
  by (simp add: le_nat_le_bytes)

lemma reduce_hash:
  "reduce (SHA512 bs) = Some (le_bytes 32 (ed_hash bs) @ replicate 32 0)"
  by (simp add: reduce_result ed_hash_def ed_order_def)

lemma ed_hash_bound: "ed_hash bs < 256 ^ 32"
  using mod_less_divisor [OF ed_order_bound(1), of "le_nat (SHA512 bs)"] ed_order_bound(2) by (simp add: ed_hash_def)

section \<open>The product of scalars\<close>

definition limbs_within :: "int \<Rightarrow> int list \<Rightarrow> bool" where
  "limbs_within B x \<longleftrightarrow> length x = 64 \<and> (\<forall>k<64. 0 \<le> x ! k \<and> x ! k \<le> B)"

lemma byte_product: "0 \<le> uint (a :: u8) * uint (b :: u8) \<and> uint a * uint b \<le> 65025"
proof -
  have "uint a * uint b \<le> 255 * 255" by (rule mult_mono) (use byte_uint [of a] byte_uint [of b] in auto)
  then show ?thesis by simp
qed

text \<open>One row: every limb of the row grows by one product.\<close>

definition product_row :: "u8 \<Rightarrow> u8 list \<Rightarrow> nat \<Rightarrow> nat \<Rightarrow> int list \<Rightarrow> int list" where
  "product_row a d i n x = fold (\<lambda>j x. x[i + j := to_i64 (x ! (i + j) + uint a * uint (d ! j))]) [0..<n] x"

definition product_rows :: "u8 list \<Rightarrow> u8 list \<Rightarrow> nat \<Rightarrow> int list \<Rightarrow> int list" where
  "product_rows h d n x = fold (\<lambda>i. product_row (h ! i) d i 32) [0..<n] x"

lemma sign_product_rows: "sign_product h d x = product_rows h d 32 x"
  unfolding sign_product_def product_rows_def product_row_def ..

lemma take_Suc_value: "n < length d \<Longrightarrow> int (le_nat (take (Suc n) d)) = int (le_nat (take n d)) + 256 ^ n * uint (d ! n)"
  by (simp add: take_Suc_conv_app_nth le_nat_append)

lemma product_row_result:
  assumes "limbs_within B x" "B \<le> 2 ^ 22" "i < 32" "length d = 64" "n \<le> 32"
  shows "limbs_within (B + 65025) (product_row a d i n x) \<and> (\<forall>k<64. i + n \<le> k \<longrightarrow> product_row a d i n x ! k = x ! k) \<and>
    bval (product_row a d i n x) = bval x + uint a * int (le_nat (take n d)) * 256 ^ i"
  using assms(5)
proof (induction n)
  case 0
  then show ?case using assms(1) by (auto simp: product_row_def limbs_within_def intro: order_trans)
next
  case (Suc n)
  define z where "z = product_row a d i n x"
  have z: "limbs_within (B + 65025) z" "\<forall>k<64. i + n \<le> k \<longrightarrow> z ! k = x ! k"
    "bval z = bval x + uint a * int (le_nat (take n d)) * 256 ^ i" "length z = 64"
    using Suc by (simp_all add: z_def limbs_within_def)
  define v where "v = x ! (i + n) + uint a * uint (d ! n)"
  have k: "i + n < 64" using assms(3) Suc.prems by simp
  have "0 \<le> x ! (i + n) \<and> x ! (i + n) \<le> B" using assms(1) k by (simp add: limbs_within_def)
  then have v: "0 \<le> v" "v \<le> B + 65025" using byte_product [of a "d ! n"] by (simp_all add: v_def)
  have "product_row a d i (Suc n) x = z[i + n := to_i64 (z ! (i + n) + uint a * uint (d ! n))]" by (simp add: product_row_def z_def)
  also have "z ! (i + n) + uint a * uint (d ! n) = v" using z(2) k by (simp add: v_def)
  also have "to_i64 v = v" using v assms(2) by (intro to_i64_id) simp
  finally have s: "product_row a d i (Suc n) x = z[i + n := v]" .
  have "bval (z[i + n := v]) = bval x + uint a * int (le_nat (take (Suc n) d)) * 256 ^ i"
    using bval_update [of "i + n" z v] z k Suc.prems assms(4) take_Suc_value [of n d]
    by (simp add: v_def power_add algebra_simps)
  moreover have "z[i + n := v] ! m = (if m = i + n then v else z ! m)" for m using k z(4) by simp
  ultimately show ?case unfolding s using z v by (simp add: limbs_within_def)
qed

lemma product_rows_result:
  assumes "limbs_within 255 x" "length h = 64" "length d = 64" "n \<le> 32"
  shows "limbs_within (255 + 65025 * int n) (product_rows h d n x) \<and>
    bval (product_rows h d n x) = bval x + int (le_nat (take n h)) * int (le_nat (take 32 d))"
  using assms(4)
proof (induction n)
  case 0
  then show ?case using assms(1) by (simp add: product_rows_def)
next
  case (Suc n)
  define z where "z = product_rows h d n x"
  have z: "limbs_within (255 + 65025 * int n) z" "bval z = bval x + int (le_nat (take n h)) * int (le_nat (take 32 d))"
    using Suc by (simp_all add: z_def)
  have s: "product_rows h d (Suc n) x = product_row (h ! n) d n 32 z" by (simp add: product_rows_def z_def)
  have "255 + 65025 * int n \<le> 2 ^ 22" "n < 32" using Suc.prems by simp_all
  from product_row_result [OF z(1) this assms(3), of 32 "h ! n"]
  have "limbs_within (255 + 65025 * int n + 65025) (product_row (h ! n) d n 32 z)"
    "bval (product_row (h ! n) d n 32 z) = bval z + uint (h ! n) * int (le_nat (take 32 d)) * 256 ^ n" by simp_all
  then show ?case unfolding s using z(2) take_Suc_value [of n h] Suc.prems assms(2) by (simp add: algebra_simps)
qed

lemma sign_product_result:
  assumes "length r = 32" "length h = 64" "length d = 64"
  shows "modL (sign_product h d (map uint r @ replicate 32 0)) =
    Some (le_bytes 32 ((le_nat r + le_nat (take 32 h) * le_nat (take 32 d)) mod ed_order))"
proof -
  let ?x = "map uint r @ replicate 32 0" and ?y = "sign_product h d (map uint r @ replicate 32 0)"
  have "limbs_within 255 ?x" using byte_uint assms(1) by (auto simp: limbs_within_def nth_append)
  then have y: "limbs_within (255 + 65025 * int 32) ?y"
    "bval ?y = bval ?x + int (le_nat (take 32 h)) * int (le_nat (take 32 d))"
    using product_rows_result [of ?x h d 32] assms(2,3) unfolding sign_product_rows by auto
  have "bval (replicate n 0) = 0" for n by (induction n) simp_all
  then have x: "bval ?x = int (le_nat r)" by (simp add: bval_append bval_bytes)
  have "\<bar>?y ! k\<bar> \<le> 2 ^ 21" if "k < 64" for k using y(1) that by (fastforce simp: limbs_within_def)
  then have "modL ?y = Some (le_bytes 32 (nat (bval ?y mod group_order)))"
    using y(1) by (intro modL_result) (simp_all add: limbs_within_def)
  moreover have order: "0 \<le> group_order" by (simp add: group_order_def)
  have "bval ?y = int (le_nat r + le_nat (take 32 h) * le_nat (take 32 d))" using y(2) x by simp
  then have "nat (bval ?y mod group_order) = (le_nat r + le_nat (take 32 h) * le_nat (take 32 d)) mod ed_order"
    unfolding ed_order_def by (simp only: nat_mod_distrib of_nat_0_le_iff nat_int order)
  ultimately show ?thesis by simp
qed


section \<open>Keys\<close>

lemma clamp_hash_scalar:
  assumes "length d = 64"
  shows "length (clamp_hash d) = 64" "le_nat (take 32 (clamp_hash d)) = decode_scalar d" "drop 32 (clamp_hash d) = drop 32 d"
proof -
  show "length (clamp_hash d) = 64" using assms by (simp add: clamp_hash_def Let_def)
  show "drop 32 (clamp_hash d) = drop 32 d" using assms by (simp add: clamp_hash_def Let_def drop_update_cancel)
  have "take 32 (clamp_hash d) = (take 31 d @ [(d ! 31 AND 127) OR 64])[0 := d ! 0 AND 248]"
    using assms by (intro nth_equalityI) (auto simp: clamp_hash_def Let_def nth_list_update nth_append less_Suc_eq)
  then show "le_nat (take 32 (clamp_hash d)) = decode_scalar d" by (simp add: decode_scalar_def)
qed

lemma scalarbase_bytes:
  assumes "32 \<le> length s"
  shows "\<exists>p. scalarbase s = Some p \<and> point_elem p (ed_multiple (le_nat (take 32 s)) ed_base)"
  using scalarbase_elem [of "take 32 s"] assms unfolding scalarmult_take(2) [OF assms] by simp

lemma scalarbase_reduced:
  assumes "k < 256 ^ 32"
  shows "\<exists>p. scalarbase (le_bytes 32 k @ replicate 32 0) = Some p \<and> point_elem p (ed_multiple k ed_base)"
  using scalarbase_bytes [of "le_bytes 32 k @ replicate 32 0"] le_nat_digits [OF assms] by simp

theorem crypto_sign_keypair_result:
  assumes "length seed = 32"
  shows "crypto_sign_keypair seed = Some (ed_public seed, seed @ ed_public seed)"
proof -
  have h: "crypto_hash seed 32 = Some (SHA512 seed)" using crypto_hash_SHA512 [of 32 seed] assms by simp
  note c = clamp_hash_scalar [OF length_SHA512 [of seed]]
  obtain p where p: "scalarbase (clamp_hash (SHA512 seed)) = Some p"
    "point_elem p (ed_multiple (decode_scalar (SHA512 seed)) ed_base)"
    using scalarbase_bytes [of "clamp_hash (SHA512 seed)"] c by auto
  show ?thesis using h p(1) pack_point_result [OF p(2)] assms by (simp add: crypto_sign_keypair_def ed_public_def)
qed

section \<open>Signing\<close>

theorem crypto_sign_result:
  assumes "unat n + 64 \<le> length sm" "unat n \<le> length m" "length sm < 2 ^ 64" "length seed = 32" "length pk = 32"
  defines "msg \<equiv> take (unat n) m"
  shows "crypto_sign sm m n (seed @ pk) = Some (0, ed_sign seed pk msg @ msg @ drop (64 + unat n) sm, n + 64)"
proof -
  let ?rest = "drop (64 + unat n) sm"
  define d where "d = SHA512 seed"
  have h0: "crypto_hash (seed @ pk) 32 = Some d" using crypto_hash_SHA512 [of 32 "seed @ pk"] assms(4) by (simp add: d_def)
  have d: "length d = 64" by (simp add: d_def)
  note c = clamp_hash_scalar [OF d]
  have msg: "length msg = unat n" using assms(2) by (simp add: msg_def)
  have n: "unat (n + 32) = 32 + unat n" "unat (n + 64) = 64 + unat n"
    using assms(1,3) by (simp_all add: unat_word_ariths)
  define b1 where "b1 = take 32 (take 64 sm) @ drop 32 d @ msg @ ?rest"
  have b1: "take 32 (take 64 sm @ msg @ ?rest) @ take 32 (drop 32 (clamp_hash d)) @ drop 64 (take 64 sm @ msg @ ?rest) = b1"
    using assms(1) d c(3) by (simp add: b1_def)
  have d1: "drop 32 b1 = drop 32 d @ msg @ ?rest" using assms(1) by (simp add: b1_def)
  define r where "r = ed_hash (drop 32 d @ msg)"
  have h1: "crypto_hash (drop 32 b1) (n + 32) = Some (SHA512 (drop 32 d @ msg))"
    using crypto_hash_SHA512 [of "n + 32" "drop 32 b1"] msg d n(1) unfolding d1 by simp
  obtain p where p: "scalarbase (le_bytes 32 r @ replicate 32 0) = Some p" "point_elem p (ed_multiple r ed_base)"
    using scalarbase_reduced [of r] ed_hash_bound by (auto simp: r_def)
  define R where "R = ed_encode (ed_multiple r ed_base)"
  have R: "pack_point p = Some R" "length R = 32" using pack_point_result [OF p(2)] by (simp_all add: R_def)
  define b2 where "b2 = R @ pk @ msg @ ?rest"
  have b2: "take 32 (R @ drop 32 b1) @ take 32 (drop 32 (seed @ pk)) @ drop 64 (R @ drop 32 b1) = b2"
    using assms(4,5) R(2) d unfolding d1 by (simp add: b2_def)
  define k where "k = ed_hash (R @ pk @ msg)"
  have h2: "crypto_hash b2 (n + 64) = Some (SHA512 (R @ pk @ msg))"
    using crypto_hash_SHA512 [of "n + 64" b2] msg assms(5) R(2) n(2) by (simp add: b2_def)
  have kb: "r < 256 ^ 32" "k < 256 ^ 32" unfolding r_def k_def by (rule ed_hash_bound)+
  define s where "s = le_bytes 32 ((r + k * decode_scalar d) mod ed_order)"
  have pr: "modL (sign_product (le_bytes 32 k @ replicate 32 0) (clamp_hash d) (map uint (take 32 (le_bytes 32 r @ replicate 32 0)) @ replicate 32 0)) = Some s"
    using sign_product_result [of "le_bytes 32 r" "le_bytes 32 k @ replicate 32 0" "clamp_hash d"] c le_nat_digits kb
    by (simp add: s_def)
  have "\<not> (length sm < unat n + 64 \<or> length m < unat n \<or> length (seed @ pk) < 64)" using assms by simp
  then have "crypto_sign sm m n (seed @ pk) = Some (0, take 32 b2 @ s @ drop 64 b2, n + 64)"
    by (simp only: crypto_sign_def if_False h0 Option.bind.simps Let_def msg_def [symmetric] b1 h1 reduce_hash
        r_def [symmetric] p(1) R(1) b2 h2 k_def [symmetric] pr)
  moreover have "ed_sign seed pk msg = R @ s"
    by (simp add: ed_sign_def Let_def d_def [symmetric] r_def [symmetric] R_def [symmetric] k_def [symmetric] s_def)
  ultimately show ?thesis using R(2) assms(5) by (simp add: b2_def)
qed

section \<open>Verifying\<close>

lemma verify_32_iff:
  assumes "32 \<le> length x" "length t = 32"
  shows "crypto_verify_32 x t = 0 \<longleftrightarrow> take 32 x = t"
  using vn_iff [of 32 x t] assms by (simp add: crypto_verify_32_def)

theorem crypto_sign_open_result:
  assumes "64 \<le> unat n" "unat n \<le> length sm" "unat n \<le> length m" "length pk = 32"
  defines "msg \<equiv> take (unat n - 64) (drop 64 sm)"
  shows "if ed_verify pk (take 64 sm) msg
    then crypto_sign_open m sm n pk = Some (0, msg @ drop (unat n - 64) (take 32 sm @ pk @ msg @ drop (unat n) m), n - 64)
    else \<exists>m'. crypto_sign_open m sm n pk = Some (- 1, m', - 1) \<and> (m' = m \<or> take (unat n - 64) m' = replicate (unat n - 64) 0)"
proof -
  have n: "\<not> n < 64" "unat (n - 64) = unat n - 64" using assms(1) by (simp_all add: word_less_nat_alt unat_sub word_le_nat_alt)
  have len: "\<not> (length sm < unat n \<or> length m < unat n \<or> length pk < 32)" using assms by simp
  show ?thesis
  proof (cases "ed_decode_neg pk")
    case None
    then have "unpackneg pk = Some None" using unpackneg_result [OF assms(4)] by simp
    then have "crypto_sign_open m sm n pk = Some (- 1, m, - 1)" using n(1) len assms(4) by (simp add: crypto_sign_open_def)
    then show ?thesis using None by (simp add: ed_verify_def)
  next
    case (Some A)
    then obtain q where q: "unpackneg pk = Some (Some q)" "point_elem q A" using unpackneg_result [OF assms(4)] by auto
    let ?rest = "drop (unat n) m"
    have pk: "take 32 pk = pk" using assms(4) by simp
    define b where "b = take 32 sm @ pk @ msg @ ?rest"
    have b: "take 32 (take (unat n) sm @ ?rest) @ pk @ drop 64 (take (unat n) sm @ ?rest) = b"
      using assms(1,2,4) by (simp add: b_def msg_def drop_take min_def)
    have lb: "length (take 32 sm @ pk @ msg) = unat n" using assms by (simp add: msg_def)
    have h: "crypto_hash b n = Some (SHA512 (take 32 sm @ pk @ msg))"
    proof -
      have e: "b = (take 32 sm @ pk @ msg) @ ?rest" by (simp add: b_def)
      have "take (length X) (X @ Y) = X" "length X \<le> length (X @ Y)" for X Y :: "u8 list" by simp_all
      from this [of "take 32 sm @ pk @ msg" ?rest]
      have "take (unat n) b = take 32 sm @ pk @ msg" "unat n \<le> length b" unfolding e [symmetric] lb .
      then show ?thesis using crypto_hash_SHA512 [of n b] by simp
    qed
    define k where "k = ed_hash (take 32 sm @ pk @ msg)"
    have k: "k < 256 ^ 32" unfolding k_def by (rule ed_hash_bound)
    obtain p q' where p: "scalarmult q (le_bytes 32 k @ replicate 32 0) = Some (p, q')" "point_elem p (ed_multiple k A)"
      using scalarmult_elem [OF q(2), of "le_bytes 32 k"] le_nat_digits [OF k]
        scalarmult_take(1) [of "le_bytes 32 k @ replicate 32 0" q] by auto
    define s where "s = le_nat (take 32 (drop 32 sm))"
    obtain u where u: "scalarbase (drop 32 sm) = Some u" "point_elem u (ed_multiple s ed_base)"
    proof -
      have "32 \<le> length (drop 32 sm)" using assms(1,2) by simp
      then show ?thesis using scalarbase_bytes [of "drop 32 sm"] that by (auto simp: s_def)
    qed
    obtain v where v: "add_point p u = Some v" "point_elem v (ed_add (ed_multiple k A) (ed_multiple s ed_base))"
      using add_point_elem [OF p(2) u(2)] by blast
    define t where "t = ed_encode (ed_add (ed_multiple k A) (ed_multiple s ed_base))"
    have t: "pack_point v = Some t" "length t = 32" using pack_point_result [OF v(2)] by (simp_all add: t_def)
    have code: "crypto_sign_open m sm n pk =
      (if crypto_verify_32 sm t \<noteq> 0 then Some (- 1, replicate (unat (n - 64)) 0 @ drop (unat (n - 64)) b, - 1)
       else Some (0, take (unat (n - 64)) (drop 64 sm) @ drop (unat (n - 64)) b, n - 64))"
      using n(1) len q(1)
      by (simp only: crypto_sign_open_def if_False pk Option.bind.simps option.case prod.case Let_def b
          h reduce_hash k_def [symmetric] p(1) u(1) v(1) t(1))
    have "crypto_verify_32 sm t = 0 \<longleftrightarrow> ed_verify pk (take 64 sm) msg"
      using verify_32_iff [of sm t] assms(1,2) t(2)
      by (auto simp: ed_verify_def Some Let_def drop_take k_def [symmetric] s_def [symmetric] t_def [symmetric])
    then show ?thesis unfolding code n(2) by (auto simp: msg_def b_def)
  qed
qed

end
