(* ===== verification/File_IO.thy ===== *)
theory File_IO
  imports C_Strings
begin

text \<open>
  IO/src/file_io.c and IO/src/threadsafe_io.c: reading lines, closing files and the output functions
  that take \<open>stdout_mutex\<close>.  A stream open for reading is the text still to be read; failures of
  the C library's calls are arguments.  \<open>stdout_mutex\<close> is not recursive: a thread that finds it
  locked for good never returns (\<open>Blocked\<close>).
\<close>

section \<open>The program's input and output state\<close>

text \<open>\<open>streams\<close> counts the \<open>FILE\<close> objects opened and not closed, \<open>blocks\<close> the heap
  blocks allocated and not freed.\<close>

record io =
  stdout_locked :: bool
  stdout_text :: string
  log_text :: string
  streams :: nat
  blocks :: nat
  allocs :: alloc_plan

definition io_calloc :: "io \<Rightarrow> bool \<times> io" where
  "io_calloc s =
     (if alloc_fails (allocs s) then (False, s\<lparr>allocs := alloc_rest (allocs s)\<rparr>)
      else (True, s\<lparr>blocks := Suc (blocks s), allocs := alloc_rest (allocs s)\<rparr>))"

definition io_free :: "io \<Rightarrow> io" where
  "io_free s = s\<lparr>blocks := blocks s - 1\<rparr>"

section \<open>Lines of a stream\<close>

text \<open>\<open>getline\<close>: up to and including the next newline; nothing at the end of the file.\<close>

definition getline :: "string \<Rightarrow> (string \<times> string) option" where
  "getline rest =
     (if rest = [] then None
      else let line = takeWhile (\<lambda>c. c \<noteq> CHR 0x0A) rest;
               n = (if length line < length rest then Suc (length line) else length line)
           in Some (take n rest, drop n rest))"

text \<open>\<open>fgets\<close> with room for \<open>n\<close> characters and the terminator.\<close>

definition fgets :: "nat \<Rightarrow> string \<Rightarrow> (string \<times> string) option" where
  "fgets n rest =
     (case getline rest of
        None \<Rightarrow> None
      | Some (line, _) \<Rightarrow> if n = 0 then None else Some (take n line, drop (length (take n line)) rest))"

section \<open>file\_io.c\<close>

text \<open>\<open>read_line\<close>: \<open>read_error\<close> says that \<open>getline\<close> fails with \<open>errno\<close> set.  A null
  stream reaches \<open>getline\<close>.  The result is the exit code, \<open>*line\<close> and the rest of the stream.\<close>

definition read_line ::
  "bool \<Rightarrow> string option \<Rightarrow> string option option \<Rightarrow> (int \<times> string option option \<times> string option) option" where
  "read_line read_error read_fd line =
     (case line of
        None \<Rightarrow> Some (E_FAILURE, None, read_fd)
      | Some old \<Rightarrow>
          (case read_fd of
             None \<Rightarrow> None
           | Some rest \<Rightarrow>
               if read_error then Some (E_FAILURE, Some old, Some rest)
               else (case getline rest of
                       None \<Rightarrow> Some (E_EOF, Some old, Some rest)
                     | Some (l, rest) \<Rightarrow> Some (E_SUCCESS, Some (Some l), Some rest))))"

definition file_exists :: "int \<Rightarrow> bool \<Rightarrow> int" where
  "file_exists access_result filepath_given = (if \<not> filepath_given then E_FAILURE else access_result)"

definition safe_fclose :: "bool \<Rightarrow> bool \<Rightarrow> io \<Rightarrow> int \<times> io" where
  "safe_fclose fclose_ok file_given s =
     (if \<not> file_given then (E_FAILURE, s)
      else let s = s\<lparr>streams := streams s - 1\<rparr>
           in if \<not> fclose_ok then (E_FAILURE, s) else (E_SUCCESS, s))"

definition safe_close :: "int \<Rightarrow> int" where
  "safe_close close_result = (if - 1 = close_result then E_FAILURE else E_SUCCESS)"

text \<open>\<open>safe_fgets\<close> gives the line read and the rest of the stream.  The size is converted to
  \<open>int\<close>.\<close>

definition safe_fgets :: "bool \<Rightarrow> nat \<Rightarrow> string option \<Rightarrow> string option \<times> string option" where
  "safe_fgets buffer_given bufsize stream =
     (case stream of
        None \<Rightarrow> (None, None)
      | Some rest \<Rightarrow>
          if \<not> buffer_given then (None, Some rest)
          else (case fgets (bufsize - 1) rest of
                  None \<Rightarrow> (None, Some rest)
                | Some (line, rest) \<Rightarrow> (Some line, Some rest)))"

section \<open>threadsafe\_io.c\<close>

text \<open>The text is what the format and its arguments expand to.\<close>

definition ts_printf :: "string \<Rightarrow> io \<Rightarrow> unit outcome \<times> io" where
  "ts_printf text s =
     (if stdout_locked s then (Blocked, s)
      else (Returned (), s\<lparr>stdout_text := stdout_text s @ text\<rparr>))"

text \<open>\<open>ts_snprintf\<close> gives the exit code and what the buffer holds; \<open>vsnprintf\<close>'s negative result
  is converted to a huge \<open>size_t\<close>.\<close>

definition ts_snprintf ::
  "string option \<Rightarrow> nat \<Rightarrow> string option \<Rightarrow> io \<Rightarrow> (int \<times> string option) outcome \<times> io" where
  "ts_snprintf buffer buffer_size text s =
     (case (buffer, text) of
        (Some b, Some t) \<Rightarrow>
          if stdout_locked s then (Blocked, s)
          else let result = (if INT32_MAX < int (length t) then - 1 else of_nat (length t) :: 64 word);
                   b = (if buffer_size = 0 then b else fst (snprintf_s buffer_size t))
               in if of_nat buffer_size \<le> result then (Returned (E_FAILURE, Some b), s)
                  else (Returned (E_SUCCESS, Some b), s)
      | _ \<Rightarrow> (Returned (E_FAILURE, buffer), s))"

datatype out_file = Stdout | Stderr | Other_file

definition ts_fprintf :: "bool \<Rightarrow> out_file option \<Rightarrow> string option \<Rightarrow> io \<Rightarrow> int outcome \<times> io" where
  "ts_fprintf write_ok file text s =
     (case (file, text) of
        (Some f, Some t) \<Rightarrow>
          if (f = Stdout \<or> f = Stderr) \<and> stdout_locked s then (Blocked, s)
          else let s = (if f = Stdout \<and> write_ok then s\<lparr>stdout_text := stdout_text s @ t\<rparr> else s)
               in if \<not> write_ok then (Returned E_FAILURE, s) else (Returned E_SUCCESS, s)
      | _ \<Rightarrow> (Returned E_FAILURE, s))"

section \<open>Reading a file line by line\<close>

lemma getline_shorter: "getline rest = Some (l, r) \<Longrightarrow> length r < length rest \<and> l @ r = rest \<and> l \<noteq> []"
  by (auto simp: getline_def Let_def split: if_splits)

lemma fgets_shorter:
  assumes "fgets n rest = Some (l, r)"
  shows "length r < length rest \<and> l @ r = rest \<and> l \<noteq> [] \<and> length l \<le> n"
proof -
  obtain l0 r0 where g: "getline rest = Some (l0, r0)" and n: "n \<noteq> 0"
    and l: "l = take n l0" and r: "r = drop (length l) rest"
    using assms by (auto simp: fgets_def split: option.splits if_splits)
  have "rest = l @ (drop n l0 @ r0)" "l0 \<noteq> []" using getline_shorter [OF g] l by auto
  then have "l @ r = rest" "l \<noteq> []" using r l n by auto
  then show ?thesis using l by auto
qed

text \<open>Calling \<open>read_line\<close> until it does not succeed: the exit code it ends with and the lines.\<close>

function read_all :: "string \<Rightarrow> int \<times> string list" where
  "read_all rest =
     (case read_line False (Some rest) (Some None) of
        Some (code, Some (Some l), Some rest') \<Rightarrow>
          if code = E_SUCCESS \<and> length rest' < length rest
          then (let (c, ls) = read_all rest' in (c, l # ls)) else (code, [])
      | Some (code, _, _) \<Rightarrow> (code, [])
      | None \<Rightarrow> (E_FAILURE, []))"
  by pat_completeness auto
termination by (relation "measure length") auto

declare read_all.simps [simp del]

lemma read_all_lines:
  "fst (read_all rest) = E_EOF \<and> concat (snd (read_all rest)) = rest"
proof (induction rest rule: length_induct)
  case (1 rest)
  show ?case
  proof (cases "getline rest")
    case None
    then have "rest = []" by (simp add: getline_def Let_def split: if_splits)
    then show ?thesis using None by (subst (1 2) read_all.simps) (simp add: read_line_def)
  next
    case (Some lr)
    obtain l r where lr: "lr = (l, r)" by fastforce
    note g = getline_shorter [OF Some [unfolded lr]]
    have "read_all rest = (let (c, ls) = read_all r in (c, l # ls))"
      using Some lr g by (subst read_all.simps) (simp add: read_line_def)
    then show ?thesis using 1 g by (auto split: prod.splits)
  qed
qed

lemma ts_snprintf_result:
  assumes "\<not> stdout_locked s" "int (length t) \<le> INT32_MAX" "int n \<le> INT32_MAX"
  shows "ts_snprintf (Some b) n (Some t) s =
    (Returned (if length t < n then E_SUCCESS else E_FAILURE, Some (if n = 0 then b else take (n - 1) t)), s)"
proof -
  have "unat (of_nat k :: 64 word) = k" if "int k \<le> INT32_MAX" for k
    using that by (simp add: INT32_MAX_def unat_of_nat)
  then have "(of_nat n :: 64 word) \<le> of_nat (length t) \<longleftrightarrow> n \<le> length t"
    using assms(2,3) by (simp add: word_le_nat_alt)
  then show ?thesis using assms by (simp add: ts_snprintf_def snprintf_s_def Let_def)
qed

end
