(* ===== verification/System_Info.thy ===== *)
theory System_Info
  imports File_IO Number_Converter
begin

text \<open>
  System/src/system_info.c: queries that scan files below /proc and /etc and return freshly allocated
  strings.  The text of a file (or \<open>None\<close> when \<open>fopen\<close> fails) is an argument.  A character
  buffer is its whole array, since the code reads past the end of a line in places: \<open>fgets\<close>
  leaves what earlier lines put behind the terminator.
\<close>

section \<open>Character buffers\<close>

definition SYS_BUFFER_SIZE :: nat where "SYS_BUFFER_SIZE = 1020"
definition PRETTY_NAME_LEN :: nat where "PRETTY_NAME_LEN = 12"
definition MODEL_NAME_LEN :: nat where "MODEL_NAME_LEN = 10"
definition KILOBYTE :: int where "KILOBYTE = 1024"

definition NUL :: char where "NUL = CHR 0x00"

text \<open>The C string at an offset of an array; without a terminator the read leaves the array.\<close>

definition cstr :: "string \<Rightarrow> nat \<Rightarrow> string option" where
  "cstr buf k = (if NUL \<in> set (drop k buf) then Some (takeWhile (\<lambda>c. c \<noteq> NUL) (drop k buf)) else None)"

text \<open>\<open>strchr(buf + k, c)\<close> as an index of the array.\<close>

definition strchr :: "string \<Rightarrow> nat \<Rightarrow> char \<Rightarrow> nat option option" where
  "strchr buf k c =
     do { s \<leftarrow> cstr buf k;
          Some (if c \<in> set s then Some (k + length (takeWhile (\<lambda>d. d \<noteq> c) s)) else None) }"

definition fgets_into :: "string \<Rightarrow> string \<Rightarrow> string" where
  "fgets_into line buf = line @ [NUL] @ drop (Suc (length line)) buf"

section \<open>Parsing one line\<close>

type_synonym parsed = "(string option outcome \<times> string \<times> io) option"

definition get_os_name :: "string option \<Rightarrow> io \<Rightarrow> parsed" where
  "get_os_name buffer s =
     (case buffer of
        None \<Rightarrow> Some (Returned None, [], s)
      | Some buf \<Rightarrow>
          (let (ok, s) = io_calloc s
           in if \<not> ok then Some (Returned None, buf, s)
              else do {
                text \<leftarrow> cstr buf 0;
                if strncmp text ''PRETTY_NAME='' PRETTY_NAME_LEN \<noteq> 0 then Some (Returned (Some ''''), buf, s)
                else do {
                  name \<leftarrow> strchr buf 0 (CHR 0x22);
                  (case name of
                     None \<Rightarrow> Some (Returned (Some ''''), buf, s)
                   | Some i \<Rightarrow> do {
                       end \<leftarrow> strchr buf (Suc i) (CHR 0x22);
                       (case end of
                          None \<Rightarrow> Some (Returned (Some ''''), buf, s)
                        | Some j \<Rightarrow> do {
                            let buf = buf[j := NUL];
                            name \<leftarrow> cstr buf (Suc i);
                            (case ts_snprintf (Some '''') SYS_BUFFER_SIZE (Some name) s of
                               (Blocked, s) \<Rightarrow> Some (Blocked, buf, s)
                             | (Returned (code, result), s) \<Rightarrow>
                                 if code \<noteq> E_SUCCESS then Some (Returned None, buf, io_free s)
                                 else Some (Returned result, buf, s))
                          }) })
                }
              }))"

definition parse_cpu_model :: "string option \<Rightarrow> io \<Rightarrow> parsed" where
  "parse_cpu_model buffer s =
     (case buffer of
        None \<Rightarrow> Some (Returned None, [], s)
      | Some buf \<Rightarrow> do {
          text \<leftarrow> cstr buf 0;
          if strncmp text ''model name'' MODEL_NAME_LEN \<noteq> 0 then Some (Returned None, buf, s)
          else let (ok, s) = io_calloc s
               in if \<not> ok then Some (Returned None, buf, s)
                  else do {
                    newline \<leftarrow> strchr buf 0 (CHR 0x0A);
                    let buf = (case newline of None \<Rightarrow> buf | Some i \<Rightarrow> buf[i := NUL]);
                    colon \<leftarrow> strchr buf 0 (CHR '':'');
                    (case colon of
                       None \<Rightarrow> None
                     | Some i \<Rightarrow> do {
                         model \<leftarrow> cstr buf (i + 2);
                         (case ts_snprintf (Some '''') SYS_BUFFER_SIZE (Some model) s of
                            (Blocked, s) \<Rightarrow> Some (Blocked, buf, s)
                          | (Returned (code, result), s) \<Rightarrow> Some (Returned result, buf, s))
                       })
                  }
        })"

text \<open>Division of \<open>long\<close> truncates toward zero.\<close>

definition c_div :: "int \<Rightarrow> int \<Rightarrow> int" where
  "c_div a b = sgn a * sgn b * (\<bar>a\<bar> div \<bar>b\<bar>)"

definition show_long :: "int \<Rightarrow> string" where
  "show_long v = (if v < 0 then ''-'' @ show_nat (nat (- v)) else show_nat (nat v))"

definition parse_memory_info :: "string option \<Rightarrow> io \<Rightarrow> parsed" where
  "parse_memory_info buffer s =
     (case buffer of
        None \<Rightarrow> Some (Returned None, [], s)
      | Some buf \<Rightarrow> do {
          text \<leftarrow> cstr buf 0;
          if strncmp text ''MemTotal'' 8 \<noteq> 0 then Some (Returned None, buf, s)
          else let (ok, s) = io_calloc s
               in if \<not> ok then Some (Returned None, buf, s)
                  else do {
                    colon \<leftarrow> strchr buf 0 (CHR '':'');
                    (case colon of
                       None \<Rightarrow> None
                     | Some i \<Rightarrow> do {
                         mem_kb_str \<leftarrow> cstr buf (i + 1);
                         let mem_kb = fst (strtol mem_kb_str);
                         let mem_mb = c_div mem_kb KILOBYTE;
                         (case ts_snprintf (Some '''') SYS_BUFFER_SIZE (Some (show_long mem_mb @ '' MB'')) s of
                            (Blocked, s) \<Rightarrow> Some (Blocked, buf, s)
                          | (Returned (code, result), s) \<Rightarrow>
                              if code \<noteq> E_SUCCESS then Some (Returned None, buf, io_free s)
                              else Some (Returned result, buf, s))
                       })
                  }
        })"

section \<open>Scanning a file\<close>

text \<open>The loop that the three file queries share: read a line, parse it, stop at the first result.\<close>

function scan_lines ::
  "(string option \<Rightarrow> io \<Rightarrow> parsed) \<Rightarrow> string \<Rightarrow> string \<Rightarrow> io \<Rightarrow> (string option outcome \<times> io) option" where
  "scan_lines parse rest buf s =
     (case fgets (SYS_BUFFER_SIZE - 1) rest of
        None \<Rightarrow> Some (Returned None, s)
      | Some (line, rest') \<Rightarrow> do {
          (result, buf, s) \<leftarrow> parse (Some (fgets_into line buf)) s;
          (case result of
             Blocked \<Rightarrow> Some (Blocked, s)
           | Returned (Some r) \<Rightarrow> Some (Returned (Some r), s)
           | Returned None \<Rightarrow> scan_lines parse rest' buf s)
        })"
  by pat_completeness auto
termination
  by (relation "measure (\<lambda>(parse, rest, buf, s). length rest)") (auto dest: fgets_shorter)

declare scan_lines.simps [simp del]

definition query_file ::
  "(string option \<Rightarrow> io \<Rightarrow> parsed) \<Rightarrow> string option \<Rightarrow> bool \<Rightarrow> io \<Rightarrow> (string option outcome \<times> io) option" where
  "query_file parse text fclose_ok s =
     (case text of
        None \<Rightarrow> Some (Returned None, s)
      | Some t \<Rightarrow> do {
          (result, s) \<leftarrow> scan_lines parse t (replicate SYS_BUFFER_SIZE NUL) (s\<lparr>streams := Suc (streams s)\<rparr>);
          (case result of
             Blocked \<Rightarrow> Some (Blocked, s)
           | Returned r \<Rightarrow> Some (Returned r, snd (safe_fclose fclose_ok True s)))
        })"

definition get_operating_system :: "string option \<Rightarrow> bool \<Rightarrow> io \<Rightarrow> (string option outcome \<times> io) option" where
  "get_operating_system os_release fclose_ok s = query_file get_os_name os_release fclose_ok s"

definition get_cpu_info :: "string option \<Rightarrow> bool \<Rightarrow> io \<Rightarrow> (string option outcome \<times> io) option" where
  "get_cpu_info cpuinfo fclose_ok s = query_file parse_cpu_model cpuinfo fclose_ok s"

definition get_memory_info :: "string option \<Rightarrow> bool \<Rightarrow> io \<Rightarrow> (string option outcome \<times> io) option" where
  "get_memory_info meminfo fclose_ok s = query_file parse_memory_info meminfo fclose_ok s"

section \<open>Host name and architecture\<close>

text \<open>The names \<open>gethostname\<close> and \<open>uname\<close> deliver, or \<open>None\<close> when they fail.\<close>

definition print_name :: "string \<Rightarrow> io \<Rightarrow> string option outcome \<times> io" where
  "print_name name s =
     (case ts_snprintf (Some '''') SYS_BUFFER_SIZE (Some name) s of
        (Blocked, s) \<Rightarrow> (Blocked, s)
      | (Returned (code, result), s) \<Rightarrow>
          if code \<noteq> E_SUCCESS then (Returned None, io_free s) else (Returned result, s))"

definition get_hostname :: "string option \<Rightarrow> io \<Rightarrow> string option outcome \<times> io" where
  "get_hostname hostname s =
     (let (ok, s) = io_calloc s
      in if \<not> ok then (Returned None, s)
         else case hostname of
                None \<Rightarrow> (Returned None, io_free s)
              | Some name \<Rightarrow> print_name name s)"

definition get_cpu_architecture :: "string option \<Rightarrow> io \<Rightarrow> string option outcome \<times> io" where
  "get_cpu_architecture machine s =
     (case machine of
        None \<Rightarrow> (Returned None, s)
      | Some name \<Rightarrow>
          (let (ok, s) = io_calloc s
           in if \<not> ok then (Returned None, s) else print_name name s))"

section \<open>Network interfaces\<close>

text \<open>\<open>strtok(buffer, " :")\<close>: the first token, if any.\<close>

definition strtok :: "string \<Rightarrow> string option" where
  "strtok line =
     (let sep = (\<lambda>c. c = CHR '' '' \<or> c = CHR '':'');
          t = takeWhile (\<lambda>c. \<not> sep c) (dropWhile sep (takeWhile (\<lambda>c. c \<noteq> NUL) line))
      in if t = [] then None else Some t)"

text \<open>Each \<open>snprintf\<close> writes at \<open>result_ptr\<close>, \<open>off\<close> bytes into the array of
  \<open>BUFFER_SIZE\<close>, and advances it by the length of the whole text.  A pointer past the end of the
  array is undefined, and so is a null token.\<close>

function interfaces_loop :: "string \<Rightarrow> nat \<Rightarrow> string \<Rightarrow> string option" where
  "interfaces_loop rest off result =
     (case fgets (SYS_BUFFER_SIZE - 1) rest of
        None \<Rightarrow> Some result
      | Some (line, rest') \<Rightarrow> do {
          interface \<leftarrow> strtok line;
          let text = ''  '' @ interface @ [CHR 0x0A];
          let written = fst (snprintf_s (SYS_BUFFER_SIZE - off) text);
          if SYS_BUFFER_SIZE < off + length text then None
          else interfaces_loop rest' (off + length text) (result @ written)
        })"
  by pat_completeness auto
termination
  by (relation "measure (\<lambda>(rest, off, result). length rest)") (auto dest: fgets_shorter)

declare interfaces_loop.simps [simp del]

definition interfaces_header :: string where
  "interfaces_header = ''Network Interfaces:'' @ [CHR 0x0A]"

definition get_network_interfaces ::
  "string option \<Rightarrow> bool \<Rightarrow> io \<Rightarrow> (string option outcome \<times> io) option" where
  "get_network_interfaces netdev fclose_ok s =
     (case netdev of
        None \<Rightarrow> Some (Returned None, s)
      | Some rest \<Rightarrow>
          (let s = s\<lparr>streams := Suc (streams s)\<rparr>;
               (ok, s) = io_calloc s
           in if \<not> ok then Some (Returned None, s)
              else case safe_fgets True SYS_BUFFER_SIZE (Some rest) of
                (Some _, Some rest) \<Rightarrow>
                  (case safe_fgets True SYS_BUFFER_SIZE (Some rest) of
                     (Some _, Some rest) \<Rightarrow>
                       (case ts_snprintf (Some '''') SYS_BUFFER_SIZE (Some interfaces_header) s of
                          (Blocked, s) \<Rightarrow> Some (Blocked, s)
                        | (Returned (code, result), s) \<Rightarrow>
                            if code \<noteq> E_SUCCESS then Some (Returned None, io_free s)
                            else do {
                              text \<leftarrow> interfaces_loop rest (length interfaces_header) interfaces_header;
                              let (code, s) = safe_fclose fclose_ok True s;
                              if code \<noteq> E_SUCCESS then Some (Returned None, io_free s)
                              else Some (Returned (Some text), s)
                            })
                   | _ \<Rightarrow> Some (Returned None, io_free s))
              | _ \<Rightarrow> Some (Returned None, io_free s)))"

section \<open>Lines and buffers\<close>

definition is_line :: "string \<Rightarrow> bool" where
  "is_line l \<longleftrightarrow> CHR 0x0A \<notin> set l \<and> NUL \<notin> set l \<and> length l \<le> SYS_BUFFER_SIZE - 2"

definition unlines :: "string list \<Rightarrow> string" where
  "unlines ls = concat (map (\<lambda>l. l @ [CHR 0x0A]) ls)"

lemma takeWhile_stop: "c \<notin> set l \<Longrightarrow> takeWhile (\<lambda>d. d \<noteq> c) (l @ c # r) = l"
  by (induction l) auto

lemma getline_line: "CHR 0x0A \<notin> set l \<Longrightarrow> getline (l @ CHR 0x0A # rest) = Some (l @ [CHR 0x0A], rest)"
  by (simp add: getline_def takeWhile_stop Let_def)

lemma fgets_line:
  assumes "is_line l"
  shows "fgets (SYS_BUFFER_SIZE - 1) (l @ CHR 0x0A # rest) = Some (l @ [CHR 0x0A], rest)"
proof -
  have "take (SYS_BUFFER_SIZE - 1) (l @ [CHR 0x0A]) = l @ [CHR 0x0A]"
    using assms by (auto simp: is_line_def SYS_BUFFER_SIZE_def)
  then show ?thesis using assms by (simp add: fgets_def getline_line is_line_def SYS_BUFFER_SIZE_def)
qed

text \<open>Strings and characters found in an array that holds a terminated string.\<close>

lemma drop_prefix: "drop (length p) (p @ q) = q"
  by simp

lemma cstr_at: "NUL \<notin> set l \<Longrightarrow> k \<le> length l \<Longrightarrow> cstr (l @ NUL # r) k = Some (drop k l)"
  by (auto simp: cstr_def intro!: takeWhile_stop dest: in_set_dropD)

lemma strchr_at:
  assumes "NUL \<notin> set (pre @ c # post)" "k \<le> length pre" "c \<notin> set (drop k pre)"
  shows "strchr (pre @ c # post @ NUL # r) k c = Some (Some (length pre))"
proof -
  have "cstr (pre @ c # post @ NUL # r) k = Some (drop k pre @ c # post)"
    using cstr_at [of "pre @ c # post" k r] assms(1,2) by simp
  then show ?thesis using assms(2,3) by (simp add: strchr_def takeWhile_stop)
qed

lemma fgets_into_append: "fgets_into l buf = l @ NUL # drop (Suc (length l)) buf"
  by (simp add: fgets_into_def)

lemma ts_snprintf_fits:
  assumes "\<not> stdout_locked s" "length t < SYS_BUFFER_SIZE"
  shows "ts_snprintf (Some b) SYS_BUFFER_SIZE (Some t) s = (Returned (E_SUCCESS, Some t), s)"
  using ts_snprintf_result [OF assms(1), of t SYS_BUFFER_SIZE b] assms(2)
  by (simp add: SYS_BUFFER_SIZE_def INT32_MAX_def)

lemma line_no_NUL: "is_line l \<Longrightarrow> NUL \<notin> set (l @ [CHR 0x0A])"
  by (simp add: is_line_def NUL_def)

lemma cstr_line: "is_line l \<Longrightarrow> cstr (fgets_into (l @ [CHR 0x0A]) buf) 0 = Some (l @ [CHR 0x0A])"
  using cstr_at [OF line_no_NUL, of l 0] by (simp add: fgets_into_append)

text \<open>A parser that ignores the lines before reaches the line it is for.\<close>

lemma scan_skip:
  assumes "\<And>l buf. l \<in> set ls \<Longrightarrow> parse (Some (fgets_into (l @ [CHR 0x0A]) buf)) s =
      Some (Returned None, fgets_into (l @ [CHR 0x0A]) buf, s)"
    and "\<And>l. l \<in> set ls \<Longrightarrow> is_line l"
  shows "\<exists>buf'. scan_lines parse (unlines ls @ rest) buf s = scan_lines parse rest buf' s"
  using assms
proof (induction ls arbitrary: buf)
  case (Cons l ls)
  have "scan_lines parse (unlines (l # ls) @ rest) buf s =
      scan_lines parse (unlines ls @ rest) (fgets_into (l @ [CHR 0x0A]) buf) s"
    using Cons.prems(1) [of l buf] fgets_line [OF Cons.prems(2) [of l], of "unlines ls @ rest"]
    by (subst scan_lines.simps) (simp add: unlines_def)
  then show ?case using Cons by simp
qed (auto simp: unlines_def)

section \<open>The operating system\<close>

text \<open>The first line decides: \<open>get_os_name\<close> gives an empty string, not NULL, for a line that is
  not the one looked for.\<close>

lemma starts_with:
  assumes "CHR 0x0A \<notin> set key" "n = length key"
  shows "strncmp (l @ [CHR 0x0A]) key n = 0 \<longleftrightarrow> take n l = key"
proof
  assume "strncmp (l @ [CHR 0x0A]) key n = 0"
  then have e: "take n (l @ [CHR 0x0A]) = key" using assms(2) by (simp add: strncmp_eq_0_iff)
  then have "CHR 0x0A \<notin> set (take n (l @ [CHR 0x0A]))" using assms(1) by simp
  then have "n \<le> length l" by (cases "n - length l") auto
  then show "take n l = key" using e by simp
next
  assume e: "take n l = key"
  then have "n \<le> length l" using assms(2) by (metis length_take min.cobounded1)
  then show "strncmp (l @ [CHR 0x0A]) key n = 0" using e assms(2) by (simp add: strncmp_eq_0_iff)
qed

lemma get_os_name_other:
  assumes "is_line l" "take 12 l \<noteq> ''PRETTY_NAME=''" "\<not> alloc_fails (allocs s)"
  shows "get_os_name (Some (fgets_into (l @ [CHR 0x0A]) buf)) s =
    Some (Returned (Some ''''), fgets_into (l @ [CHR 0x0A]) buf, snd (io_calloc s))"
proof -
  have "strncmp (l @ [CHR 0x0A]) ''PRETTY_NAME='' PRETTY_NAME_LEN \<noteq> 0"
    using starts_with [of "''PRETTY_NAME=''" PRETTY_NAME_LEN l] assms(2) by (simp add: PRETTY_NAME_LEN_def)
  then show ?thesis
    using assms(1,3) by (simp add: get_os_name_def io_calloc_def cstr_line)
qed

lemma get_operating_system_other:
  assumes "is_line l" "take 12 l \<noteq> ''PRETTY_NAME=''" "\<not> alloc_fails (allocs s)"
  shows "get_operating_system (Some (l @ CHR 0x0A # rest)) ok s =
    Some (Returned (Some ''''), snd (io_calloc s))"
proof -
  let ?s = "s\<lparr>streams := Suc (streams s)\<rparr>"
  have "get_os_name (Some (fgets_into (l @ [CHR 0x0A]) buf)) ?s =
      Some (Returned (Some ''''), fgets_into (l @ [CHR 0x0A]) buf, snd (io_calloc ?s))" for buf
    by (rule get_os_name_other) (use assms in simp_all)
  then have "scan_lines get_os_name (l @ CHR 0x0A # rest) buf ?s = Some (Returned (Some ''''), snd (io_calloc ?s))" for buf
    using assms(1) by (subst scan_lines.simps) (simp add: fgets_line del: One_nat_def)
  then show ?thesis
    using assms(3) by (simp add: get_operating_system_def query_file_def safe_fclose_def io_calloc_def Let_def)
qed


lemma get_os_name_found:
  assumes l: "l = ''PRETTY_NAME='' @ CHR 0x22 # name @ CHR 0x22 # tail" and "is_line l" "CHR 0x22 \<notin> set name"
    "\<not> alloc_fails (allocs s)" "\<not> stdout_locked s"
  shows "\<exists>buf'. get_os_name (Some (fgets_into (l @ [CHR 0x0A]) buf)) s =
    Some (Returned (Some name), buf', snd (io_calloc s))"
proof -
  let ?q = "CHR 0x22" and ?k = "''PRETTY_NAME=''" and ?t = "tail @ [CHR 0x0A]"
  define r where "r = drop (Suc (length (l @ [CHR 0x0A]))) buf"
  have b: "fgets_into (l @ [CHR 0x0A]) buf = ?k @ ?q # (name @ ?q # ?t) @ NUL # r"
    unfolding fgets_into_append r_def l by simp
  have nul: "NUL \<notin> set (?k @ ?q # name @ ?q # ?t)" using line_no_NUL [OF assms(2)] unfolding l by simp
  have "strncmp (l @ [CHR 0x0A]) ?k PRETTY_NAME_LEN = 0"
    using l by (simp add: strncmp_eq_0_iff PRETTY_NAME_LEN_def)
  moreover have "strchr (?k @ ?q # (name @ ?q # ?t) @ NUL # r) 0 ?q = Some (Some 12)"
    using strchr_at [of ?k ?q "name @ ?q # ?t" 0 r] nul by simp
  moreover have "strchr (?k @ ?q # (name @ ?q # ?t) @ NUL # r) 13 ?q = Some (Some (13 + length name))"
    using strchr_at [of "?k @ ?q # name" ?q ?t 13 r] nul assms(3) by simp
  moreover have "(?k @ ?q # (name @ ?q # ?t) @ NUL # r)[13 + length name := NUL] =
      (?k @ ?q # name) @ NUL # ?t @ NUL # r"
    using list_update_length [of "?k @ ?q # name" ?q "?t @ NUL # r" NUL] by simp
  moreover have "cstr ((?k @ ?q # name) @ NUL # ?t @ NUL # r) 13 = Some name"
    using cstr_at [of "?k @ ?q # name" 13 "?t @ NUL # r"] nul by simp
  moreover have "length name < SYS_BUFFER_SIZE" using assms(2) l by (simp add: is_line_def SYS_BUFFER_SIZE_def)
  moreover have "cstr (?k @ ?q # (name @ ?q # ?t) @ NUL # r) 0 = Some (l @ [CHR 0x0A])"
    using cstr_line [OF assms(2), of buf] unfolding b .
  ultimately show ?thesis
    using assms(4,5) unfolding b get_os_name_def
    by (simp add: io_calloc_def ts_snprintf_fits Let_def del: append.simps append_assoc list_update.simps)
qed


section \<open>A query of a whole file\<close>

text \<open>A parser that passes over the lines before and finds its answer in the next one.\<close>

lemma query_file_found:
  assumes skip: "\<And>l buf s. l \<in> set ls \<Longrightarrow> parse (Some (fgets_into (l @ [CHR 0x0A]) buf)) s =
      Some (Returned None, fgets_into (l @ [CHR 0x0A]) buf, s)"
    and lines: "\<And>l. l \<in> set ls \<Longrightarrow> is_line l" and "is_line l"
    and found: "\<And>buf s. \<not> alloc_fails (allocs s) \<Longrightarrow> \<not> stdout_locked s \<Longrightarrow>
      \<exists>buf'. parse (Some (fgets_into (l @ [CHR 0x0A]) buf)) s = Some (Returned (Some r), buf', snd (io_calloc s))"
    and s: "\<not> alloc_fails (allocs s)" "\<not> stdout_locked s"
  shows "query_file parse (Some (unlines ls @ l @ CHR 0x0A # rest)) ok s = Some (Returned (Some r), snd (io_calloc s))"
proof -
  let ?s = "s\<lparr>streams := Suc (streams s)\<rparr>" and ?b = "replicate SYS_BUFFER_SIZE NUL"
  obtain b where b: "scan_lines parse (unlines ls @ l @ CHR 0x0A # rest) ?b ?s = scan_lines parse (l @ CHR 0x0A # rest) b ?s"
    using scan_skip [of ls parse ?s "l @ CHR 0x0A # rest" ?b] skip lines by blast
  obtain b' where "parse (Some (fgets_into (l @ [CHR 0x0A]) b)) ?s = Some (Returned (Some r), b', snd (io_calloc ?s))"
    using found [of ?s b] s by auto
  then have "scan_lines parse (l @ CHR 0x0A # rest) b ?s = Some (Returned (Some r), snd (io_calloc ?s))"
    using assms(3) by (subst scan_lines.simps) (simp add: fgets_line del: One_nat_def)
  then show ?thesis
    using s b by (simp add: query_file_def safe_fclose_def io_calloc_def Let_def)
qed

lemma query_file_first:
  assumes "is_line l" "\<not> alloc_fails (allocs s)" "\<not> stdout_locked s"
    and "\<And>buf s. \<not> alloc_fails (allocs s) \<Longrightarrow> \<not> stdout_locked s \<Longrightarrow>
      \<exists>buf'. parse (Some (fgets_into (l @ [CHR 0x0A]) buf)) s = Some (Returned (Some r), buf', snd (io_calloc s))"
  shows "query_file parse (Some (l @ CHR 0x0A # rest)) ok s = Some (Returned (Some r), snd (io_calloc s))"
  using query_file_found [of "[]" parse l r s rest ok] assms by (simp add: unlines_def)

text \<open>So the name is the quoted text when the first line is the one looked for.\<close>

lemma get_operating_system_found:
  assumes "is_line (''PRETTY_NAME='' @ CHR 0x22 # name @ CHR 0x22 # tail)" "CHR 0x22 \<notin> set name"
    "\<not> alloc_fails (allocs s)" "\<not> stdout_locked s"
  shows "get_operating_system (Some ((''PRETTY_NAME='' @ CHR 0x22 # name @ CHR 0x22 # tail) @ CHR 0x0A # rest)) ok s =
    Some (Returned (Some name), snd (io_calloc s))"
  unfolding get_operating_system_def
  by (rule query_file_first [OF assms(1,3,4)], rule get_os_name_found [OF refl assms(1,2)])

section \<open>Processor and memory\<close>

lemma parse_cpu_model_skip:
  assumes "is_line l" "take 10 l \<noteq> ''model name''"
  shows "parse_cpu_model (Some (fgets_into (l @ [CHR 0x0A]) buf)) s =
    Some (Returned None, fgets_into (l @ [CHR 0x0A]) buf, s)"
proof -
  have "strncmp (l @ [CHR 0x0A]) ''model name'' MODEL_NAME_LEN \<noteq> 0"
    using starts_with [of "''model name''" MODEL_NAME_LEN l] assms(2) by (simp add: MODEL_NAME_LEN_def)
  then show ?thesis using assms(1) by (simp add: parse_cpu_model_def cstr_line)
qed

lemma parse_cpu_model_found:
  assumes l: "l = ''model name'' @ ws @ CHR '':'' # CHR '' '' # model" and "is_line l" "CHR '':'' \<notin> set ws"
    "\<not> alloc_fails (allocs s)" "\<not> stdout_locked s"
  shows "\<exists>buf'. parse_cpu_model (Some (fgets_into (l @ [CHR 0x0A]) buf)) s =
    Some (Returned (Some model), buf', snd (io_calloc s))"
proof -
  let ?k = "''model name''" and ?n = "CHR 0x0A"
  define r where "r = drop (Suc (length (l @ [?n]))) buf"
  have nul: "NUL \<notin> set l" "?n \<notin> set l" using assms(2) by (simp_all add: is_line_def)
  have b: "fgets_into (l @ [?n]) buf = l @ ?n # NUL # r" unfolding fgets_into_append r_def by simp
  have "strncmp (l @ [?n]) ?k MODEL_NAME_LEN = 0" using l by (simp add: strncmp_eq_0_iff MODEL_NAME_LEN_def)
  moreover have "strchr (l @ ?n # NUL # r) 0 ?n = Some (Some (length l))"
    by (rule strchr_at [where post = "[]", simplified]) (use nul in \<open>auto simp: NUL_def\<close>)
  moreover have "(l @ ?n # NUL # r)[length l := NUL] = l @ NUL # NUL # r" by simp
  moreover have "strchr (l @ NUL # NUL # r) 0 (CHR '':'') = Some (Some (10 + length ws))"
    using strchr_at [of "?k @ ws" "CHR '':''" "CHR '' '' # model" 0 "NUL # r"] nul(1) assms(3)
    unfolding l by simp
  moreover have len: "length (?k @ ws @ '': '') = 10 + length ws + 2" and pre: "l = (?k @ ws @ '': '') @ model"
    using l by simp_all
  have "drop (length (?k @ ws @ '': '')) l = model" unfolding pre by (rule drop_prefix)
  then have "drop (10 + length ws + 2) l = model" unfolding len .
  then have "cstr (l @ NUL # NUL # r) (10 + length ws + 2) = Some model"
    using cstr_at [of l "10 + length ws + 2" "NUL # r"] nul(1) l by (simp del: drop_Suc_Cons)
  moreover have "length model < SYS_BUFFER_SIZE" using assms(2) l by (simp add: is_line_def SYS_BUFFER_SIZE_def)
  moreover have "cstr (l @ ?n # NUL # r) 0 = Some (l @ [?n])" using cstr_line [OF assms(2), of buf] unfolding b .
  ultimately show ?thesis
    using assms(4,5) unfolding b parse_cpu_model_def
    by (simp add: io_calloc_def ts_snprintf_fits Let_def)
qed

lemma get_cpu_info_result:
  assumes "\<And>l. l \<in> set ls \<Longrightarrow> is_line l \<and> take 10 l \<noteq> ''model name''"
    and "is_line (''model name'' @ ws @ CHR '':'' # CHR '' '' # model)" "CHR '':'' \<notin> set ws"
    and "\<not> alloc_fails (allocs s)" "\<not> stdout_locked s"
  shows "get_cpu_info (Some (unlines ls @ (''model name'' @ ws @ CHR '':'' # CHR '' '' # model) @ CHR 0x0A # rest)) ok s =
    Some (Returned (Some model), snd (io_calloc s))"
  unfolding get_cpu_info_def
  by (rule query_file_found [OF _ _ assms(2) _ assms(4,5)])
    (use assms(1) parse_cpu_model_skip parse_cpu_model_found [OF refl assms(2,3)] in blast)+

lemma strtol_text:
  assumes "\<forall>c \<in> set ws. c_isspace c" "int n \<le> LONG_MAX" "rest = [] \<or> \<not> c_isdigit (hd rest)"
  shows "fst (strtol (ws @ show_nat n @ rest)) = int n"
proof -
  have d: "\<forall>c \<in> set (show_nat n). c_isdigit c" using show_nat_digits by blast
  obtain c ds where sn: "show_nat n = c # ds" using show_nat_nonempty [of n] by (cases "show_nat n") auto
  then have c: "\<not> c_isspace c" "c \<noteq> CHR ''-''" "c \<noteq> CHR ''+''" using d digit_not_space by auto
  have "dropWhile c_isspace (ws @ show_nat n @ rest) = show_nat n @ rest"
    using assms(1) c(1) sn by (simp add: dropWhile_append2)
  moreover have "sign_split (show_nat n @ rest) = ([], show_nat n @ rest)" using c sn by simp
  moreover have "takeWhile c_isdigit (show_nat n @ rest) = show_nat n"
    using d assms(3) by (cases rest) (auto simp: takeWhile_append2)
  ultimately show ?thesis
    using assms(2) by (simp add: strtol_def scan_integer_def show_nat_nonempty show_nat_value Let_def limits)
qed

lemma parse_memory_info_skip:
  assumes "is_line l" "take 8 l \<noteq> ''MemTotal''"
  shows "parse_memory_info (Some (fgets_into (l @ [CHR 0x0A]) buf)) s =
    Some (Returned None, fgets_into (l @ [CHR 0x0A]) buf, s)"
proof -
  have "strncmp (l @ [CHR 0x0A]) ''MemTotal'' 8 \<noteq> 0"
    using starts_with [of "''MemTotal''" 8 l] assms(2) by simp
  then show ?thesis using assms(1) by (simp add: parse_memory_info_def cstr_line)
qed


lemma show_long_nat: "show_long (int n) = show_nat n"
  by (simp add: show_long_def)

lemma c_div_nat: "c_div (int n) KILOBYTE = int (n div 1024)"
  by (cases "n = 0") (simp_all add: c_div_def KILOBYTE_def zdiv_int)

lemma parse_memory_info_found:
  assumes l: "l = ''MemTotal:'' @ ws @ show_nat kb @ unit_text" and "is_line l"
    and "\<forall>c \<in> set ws. c_isspace c" "int kb \<le> LONG_MAX" "unit_text = [] \<or> \<not> c_isdigit (hd unit_text)"
    and "\<not> alloc_fails (allocs s)" "\<not> stdout_locked s"
  shows "\<exists>buf'. parse_memory_info (Some (fgets_into (l @ [CHR 0x0A]) buf)) s =
    Some (Returned (Some (show_nat (kb div 1024) @ '' MB'')), buf', snd (io_calloc s))"
proof -
  let ?n = "CHR 0x0A" and ?v = "ws @ show_nat kb @ unit_text @ [CHR 0x0A]"
  define r where "r = drop (Suc (length (l @ [?n]))) buf"
  define b where "b = fgets_into (l @ [?n]) buf"
  have l': "l @ [?n] = ''MemTotal:'' @ ?v" using l by simp
  have nul: "NUL \<notin> set (l @ [?n])" by (rule line_no_NUL [OF assms(2)])
  have b': "b = (l @ [?n]) @ NUL # r" unfolding b_def fgets_into_append r_def ..
  have "strncmp (l @ [?n]) ''MemTotal'' 8 = 0" using l by (simp add: strncmp_eq_0_iff)
  moreover have "strchr b 0 (CHR '':'') = Some (Some 8)"
    using strchr_at [of "''MemTotal''" "CHR '':''" ?v 0 r] nul unfolding b' l' by simp
  moreover have "cstr b 9 = Some ?v"
    using cstr_at [OF nul, of 9 r] drop_prefix [of "''MemTotal:''" ?v] unfolding b' l' by simp
  moreover have "fst (strtol ?v) = int kb"
    using strtol_text [OF assms(3,4), of "unit_text @ [?n]"] assms(5)
    by (cases unit_text) (auto simp: c_isdigit_def)
  moreover have "cstr b 0 = Some (l @ [?n])" unfolding b_def by (rule cstr_line [OF assms(2)])
  moreover have "length (show_nat (kb div 1024) @ '' MB'') < SYS_BUFFER_SIZE"
  proof -
    have "kb div 1024 < 10 ^ 19" using assms(4) by (auto simp: LONG_MAX_def)
    then have "length (show_nat (kb div 1024)) \<le> 19" by (rule show_nat_length) simp
    then show ?thesis by (simp add: SYS_BUFFER_SIZE_def)
  qed
  ultimately show ?thesis
    using assms(6,7) unfolding parse_memory_info_def b_def [symmetric]
    by (simp add: io_calloc_def ts_snprintf_fits Let_def c_div_nat show_long_nat)
qed

lemma get_memory_info_result:
  assumes "\<And>l. l \<in> set ls \<Longrightarrow> is_line l \<and> take 8 l \<noteq> ''MemTotal''"
    and "is_line (''MemTotal:'' @ ws @ show_nat kb @ unit_text)" "\<forall>c \<in> set ws. c_isspace c"
    and "int kb \<le> LONG_MAX" "unit_text = [] \<or> \<not> c_isdigit (hd unit_text)"
    and "\<not> alloc_fails (allocs s)" "\<not> stdout_locked s"
  shows "get_memory_info (Some (unlines ls @ (''MemTotal:'' @ ws @ show_nat kb @ unit_text) @ CHR 0x0A # rest)) ok s =
    Some (Returned (Some (show_nat (kb div 1024) @ '' MB'')), snd (io_calloc s))"
  unfolding get_memory_info_def
  by (rule query_file_found [OF _ _ assms(2) _ assms(6,7)])
    (use assms(1) parse_memory_info_skip parse_memory_info_found [OF refl assms(2-5)] in blast)+

section \<open>The list of interfaces\<close>

definition interface_line :: "string \<Rightarrow> string" where
  "interface_line name = ''  '' @ name @ [CHR 0x0A]"

text \<open>The two kinds of end of the loop: everything fits, or the pointer leaves the array.\<close>

lemma interfaces_loop_step:
  assumes "is_line l" "strtok (l @ [CHR 0x0A]) = Some name"
  shows "interfaces_loop (l @ CHR 0x0A # rest) off result =
    (if SYS_BUFFER_SIZE < off + length (interface_line name) then None
     else interfaces_loop rest (off + length (interface_line name))
       (result @ take (SYS_BUFFER_SIZE - off - 1) (interface_line name)))"
  using assms by (subst interfaces_loop.simps)
    (simp add: fgets_line snprintf_s_def interface_line_def Let_def del: One_nat_def)

lemma interfaces_loop_fits:
  assumes "list_all2 (\<lambda>l name. is_line l \<and> strtok (l @ [CHR 0x0A]) = Some name) ls names"
    and "off + length (concat (map interface_line names)) < SYS_BUFFER_SIZE"
  shows "interfaces_loop (unlines ls) off result = Some (result @ concat (map interface_line names))"
  using assms
proof (induction arbitrary: off result rule: list_all2_induct)
  case Nil
  then show ?case by (subst interfaces_loop.simps) (simp add: unlines_def fgets_def getline_def)
next
  case (Cons l ls name names)
  have "unlines (l # ls) = l @ CHR 0x0A # unlines ls" by (simp add: unlines_def)
  moreover have "take (SYS_BUFFER_SIZE - off - 1) (interface_line name) = interface_line name"
    using Cons.prems by simp
  ultimately show ?case using Cons by (simp add: interfaces_loop_step)
qed

lemma interfaces_loop_overflows:
  assumes "list_all2 (\<lambda>l name. is_line l \<and> strtok (l @ [CHR 0x0A]) = Some name) ls names"
    and "SYS_BUFFER_SIZE < off + length (concat (map interface_line names))" "off \<le> SYS_BUFFER_SIZE"
  shows "interfaces_loop (unlines ls) off result = None"
  using assms
proof (induction arbitrary: off result rule: list_all2_induct)
  case (Cons l ls name names)
  have "unlines (l # ls) = l @ CHR 0x0A # unlines ls" by (simp add: unlines_def)
  then show ?case using Cons by (simp add: interfaces_loop_step)
qed simp

lemma get_network_interfaces_loop:
  assumes "is_line h1" "is_line h2" "\<not> alloc_fails (allocs s)" "\<not> stdout_locked s"
  shows "get_network_interfaces (Some (unlines [h1, h2] @ rest)) ok s =
    do { text \<leftarrow> interfaces_loop rest 20 interfaces_header;
         Some (if ok then (Returned (Some text), snd (io_calloc s))
               else (Returned None, s\<lparr>allocs := alloc_rest (allocs s)\<rparr>)) }"
proof -
  have h: "safe_fgets True SYS_BUFFER_SIZE (Some (l @ CHR 0x0A # rest)) = (Some (l @ [CHR 0x0A]), Some rest)"
    if "is_line l" for l rest using fgets_line [OF that] by (simp add: safe_fgets_def)
  have "length interfaces_header = 20" "length interfaces_header < SYS_BUFFER_SIZE"
    by (simp_all add: interfaces_header_def SYS_BUFFER_SIZE_def)
  then show ?thesis
    using assms by (cases "interfaces_loop rest 20 interfaces_header")
      (simp_all add: get_network_interfaces_def unlines_def h io_calloc_def Let_def ts_snprintf_fits
        safe_fclose_def io_free_def)
qed

text \<open>A calloc failure or a short file leaves the stream open.\<close>

lemma get_network_interfaces_leaks:
  "alloc_fails (allocs s) \<Longrightarrow> get_network_interfaces (Some t) ok s =
    Some (Returned None, s\<lparr>streams := Suc (streams s), allocs := alloc_rest (allocs s)\<rparr>)"
  by (simp add: get_network_interfaces_def io_calloc_def)


section \<open>Resources\<close>

text \<open>A query that returns owns one block exactly when it returns a string, and leaves the streams,
  the mutex and the outputs as they were.\<close>

definition owned_blocks :: "string option \<Rightarrow> nat" where
  "owned_blocks r = (if r = None then 0 else 1)"

definition balanced :: "io \<Rightarrow> string option \<Rightarrow> io \<Rightarrow> bool" where
  "balanced s r s' \<longleftrightarrow> blocks s' = blocks s + owned_blocks r \<and> streams s' = streams s \<and>
     stdout_locked s' = stdout_locked s \<and> stdout_text s' = stdout_text s \<and> log_text s' = log_text s"

definition snprintf_outcome :: "string \<Rightarrow> nat \<Rightarrow> string \<Rightarrow> int \<times> string" where
  "snprintf_outcome b n t =
     (if of_nat n \<le> (if INT32_MAX < int (length t) then - 1 else of_nat (length t) :: 64 word) then E_FAILURE else E_SUCCESS,
      if n = 0 then b else fst (snprintf_s n t))"

definition parser_balanced :: "(string option \<Rightarrow> io \<Rightarrow> parsed) \<Rightarrow> bool" where
  "parser_balanced parse \<longleftrightarrow>
     (\<forall>buf s r buf' s'. parse (Some buf) s = Some (Returned r, buf', s') \<longrightarrow> balanced s r s')"

lemma ts_snprintf_cases:
  "ts_snprintf (Some b) n (Some t) s =
    (if stdout_locked s then (Blocked, s) else (Returned (fst (snprintf_outcome b n t), Some (snd (snprintf_outcome b n t))), s))"
  by (simp add: ts_snprintf_def snprintf_outcome_def Let_def)

lemma get_os_name_balanced: "parser_balanced get_os_name"
  by (auto simp: parser_balanced_def get_os_name_def io_calloc_def io_free_def balanced_def owned_blocks_def Let_def bind_eq_Some_conv ts_snprintf_cases
      split: if_splits option.splits prod.splits outcome.splits)

lemma parse_cpu_model_balanced: "parser_balanced parse_cpu_model"
  by (auto simp: parser_balanced_def parse_cpu_model_def io_calloc_def io_free_def balanced_def owned_blocks_def Let_def bind_eq_Some_conv ts_snprintf_cases
      split: if_splits option.splits prod.splits outcome.splits)

lemma parse_memory_info_balanced: "parser_balanced parse_memory_info"
  by (auto simp: parser_balanced_def parse_memory_info_def io_calloc_def io_free_def balanced_def owned_blocks_def Let_def bind_eq_Some_conv ts_snprintf_cases
      split: if_splits option.splits prod.splits outcome.splits)

lemma balanced_trans: "balanced s None s1 \<Longrightarrow> balanced s1 r s2 \<Longrightarrow> balanced s r s2"
  by (simp add: balanced_def owned_blocks_def)

lemma scan_lines_balanced:
  assumes "parser_balanced parse" "scan_lines parse rest buf s = Some (Returned r, s')"
  shows "balanced s r s'"
  using assms(2)
proof (induction rest arbitrary: buf s rule: length_induct)
  case (1 rest)
  show ?case
  proof (cases "fgets (SYS_BUFFER_SIZE - 1) rest")
    case None
    then show ?thesis using 1(2) by (subst (asm) scan_lines.simps) (simp add: balanced_def owned_blocks_def)
  next
    case (Some lr)
    obtain l rest' where lr: "lr = (l, rest')" by fastforce
    obtain q b s1 where p: "parse (Some (fgets_into l buf)) s = Some (q, b, s1)"
      and k: "(case q of Blocked \<Rightarrow> Some (Blocked, s1) | Returned (Some r) \<Rightarrow> Some (Returned (Some r), s1)
        | Returned None \<Rightarrow> scan_lines parse rest' b s1) = Some (Returned r, s')"
      using 1(2) Some lr by (subst (asm) scan_lines.simps) (auto simp: bind_eq_Some_conv simp del: One_nat_def)
    have "length rest' < length rest" using fgets_shorter [of _ rest l rest'] Some lr by blast
    moreover have "balanced s q' s1" if "q = Returned q'" for q'
      using assms(1) p that unfolding parser_balanced_def by blast
    ultimately show ?thesis
      using k 1(1) balanced_trans [of s s1 r s'] by (cases q) (auto split: option.splits)
  qed
qed

lemma query_file_balanced:
  assumes "parser_balanced parse" "query_file parse contents ok s = Some (Returned r, s')"
  shows "balanced s r s'"
proof (cases contents)
  case None
  then show ?thesis using assms(2) by (simp add: query_file_def balanced_def owned_blocks_def)
next
  case (Some t)
  let ?s = "s\<lparr>streams := Suc (streams s)\<rparr>"
  obtain s1 where "scan_lines parse t (replicate SYS_BUFFER_SIZE NUL) ?s = Some (Returned r, s1)"
    and s': "s' = snd (safe_fclose ok True s1)"
    using assms(2) Some by (cases "scan_lines parse t (replicate SYS_BUFFER_SIZE NUL) ?s")
      (auto simp: query_file_def split: outcome.splits prod.splits)
  then show ?thesis using scan_lines_balanced [OF assms(1)] by (fastforce simp: balanced_def safe_fclose_def Let_def)
qed

lemma get_hostname_balanced: "get_hostname h s = (Returned r, s') \<Longrightarrow> balanced s r s'"
  by (auto simp: get_hostname_def print_name_def io_calloc_def io_free_def balanced_def owned_blocks_def Let_def ts_snprintf_cases
      split: if_splits option.splits prod.splits outcome.splits)

lemma get_cpu_architecture_balanced: "get_cpu_architecture m s = (Returned r, s') \<Longrightarrow> balanced s r s'"
  by (auto simp: get_cpu_architecture_def print_name_def io_calloc_def io_free_def balanced_def owned_blocks_def Let_def ts_snprintf_cases
      split: if_splits option.splits prod.splits outcome.splits)

lemma file_queries_balanced:
  "get_operating_system t ok s = Some (Returned r, s') \<Longrightarrow> balanced s r s'"
  "get_cpu_info t ok s = Some (Returned r, s') \<Longrightarrow> balanced s r s'"
  "get_memory_info t ok s = Some (Returned r, s') \<Longrightarrow> balanced s r s'"
  by (auto simp: get_operating_system_def get_cpu_info_def get_memory_info_def
      dest: query_file_balanced [OF get_os_name_balanced] query_file_balanced [OF parse_cpu_model_balanced]
        query_file_balanced [OF parse_memory_info_balanced])

lemma length_interfaces_header: "length interfaces_header = 20"
  by (simp add: interfaces_header_def)

lemma print_name_fits:
  "length t < SYS_BUFFER_SIZE \<Longrightarrow> \<not> stdout_locked s \<Longrightarrow> print_name t s = (Returned (Some t), s)"
  by (simp add: print_name_def ts_snprintf_fits)

end
