(* ===== verification/Runtime_Log.thy ===== *)
theory Runtime_Log
  imports System_Info
begin

text \<open>
  Logging/src/runtime_log.c and the macros of Logging/include/log.h.  The answers of the clock, the
  formatted message and the outcomes of the file operations are the fields of \<open>log_env\<close>; the
  console and the log file are texts of the state \<open>io\<close>, which also says whether
  \<open>stdout_mutex\<close> is held and how many streams are open.
\<close>

section \<open>Colours and destinations\<close>

datatype fg_color_t =
    FG_DEFAULT | FG_RED | FG_GREEN | FG_YELLOW | FG_BLUE | FG_MAGENTA | FG_CYAN | FG_WHITE
  | FG_BRIGHT_RED | FG_BRIGHT_GREEN | FG_BRIGHT_YELLOW | FG_BRIGHT_BLUE | FG_BRIGHT_MAGENTA
  | FG_BRIGHT_CYAN | FG_BRIGHT_WHITE

datatype bg_color_t =
    BG_NONE | BG_RED | BG_GREEN | BG_YELLOW | BG_BLUE | BG_MAGENTA | BG_CYAN | BG_WHITE
  | BG_BRIGHT_RED | BG_BRIGHT_GREEN | BG_BRIGHT_YELLOW | BG_BRIGHT_BLUE | BG_BRIGHT_MAGENTA
  | BG_BRIGHT_CYAN | BG_BRIGHT_WHITE

record log_color_t =
  foreground :: fg_color_t
  background :: bg_color_t

datatype log_dest_t = LOG_CONSOLE | LOG_FILE | LOG_BOTH

text \<open>The values C gives to the enumerators.\<close>

fun fg_index :: "fg_color_t \<Rightarrow> nat" where
  "fg_index FG_DEFAULT = 0"
| "fg_index FG_RED = 1"
| "fg_index FG_GREEN = 2"
| "fg_index FG_YELLOW = 3"
| "fg_index FG_BLUE = 4"
| "fg_index FG_MAGENTA = 5"
| "fg_index FG_CYAN = 6"
| "fg_index FG_WHITE = 7"
| "fg_index FG_BRIGHT_RED = 8"
| "fg_index FG_BRIGHT_GREEN = 9"
| "fg_index FG_BRIGHT_YELLOW = 10"
| "fg_index FG_BRIGHT_BLUE = 11"
| "fg_index FG_BRIGHT_MAGENTA = 12"
| "fg_index FG_BRIGHT_CYAN = 13"
| "fg_index FG_BRIGHT_WHITE = 14"

fun bg_index :: "bg_color_t \<Rightarrow> nat" where
  "bg_index BG_NONE = 0"
| "bg_index BG_RED = 1"
| "bg_index BG_GREEN = 2"
| "bg_index BG_YELLOW = 3"
| "bg_index BG_BLUE = 4"
| "bg_index BG_MAGENTA = 5"
| "bg_index BG_CYAN = 6"
| "bg_index BG_WHITE = 7"
| "bg_index BG_BRIGHT_RED = 8"
| "bg_index BG_BRIGHT_GREEN = 9"
| "bg_index BG_BRIGHT_YELLOW = 10"
| "bg_index BG_BRIGHT_BLUE = 11"
| "bg_index BG_BRIGHT_MAGENTA = 12"
| "bg_index BG_BRIGHT_CYAN = 13"
| "bg_index BG_BRIGHT_WHITE = 14"

definition fg_ansi_codes :: "nat list" where
  "fg_ansi_codes = [39, 31, 32, 33, 34, 35, 36, 37, 91, 92, 93, 94, 95, 96, 97]"

definition bg_ansi_codes :: "nat list" where
  "bg_ansi_codes = [49, 41, 42, 43, 44, 45, 46, 47, 101, 102, 103, 104, 105, 106, 107]"

definition MAX_MSG_SIZE :: nat where "MAX_MSG_SIZE = 500"
definition TIME_BUFFER_SIZE :: nat where "TIME_BUFFER_SIZE = 80"
definition COLOR_CODE_SIZE :: nat where "COLOR_CODE_SIZE = 32"
definition LOG_BUFFER_SIZE :: nat where "LOG_BUFFER_SIZE = 1024"

definition ESC :: char where "ESC = CHR 0x1B"
definition NEWLINE :: char where "NEWLINE = CHR 0x0A"

section \<open>Helpers of message\_log\<close>

text \<open>\<open>strftime_written\<close> is what \<open>strftime\<close> returns and \<open>strftime_text\<close> what the buffer
  holds then; \<open>message\<close> is the expansion of the format, \<open>None\<close> when \<open>vsnprintf\<close> fails.
  A \<open>fprintf\<close> that fails adds nothing to the log file.\<close>

record log_env =
  clock :: int
  localtime_ok :: bool
  strftime_written :: nat
  strftime_text :: string
  message :: "string option"
  fopen_ok :: bool
  fprintf_ok :: bool
  fclose_ok :: bool

definition get_timestamp :: "log_env \<Rightarrow> string option \<Rightarrow> nat \<Rightarrow> bool \<times> string option" where
  "get_timestamp env buffer bufsize =
     (case buffer of
        None \<Rightarrow> (False, None)
      | Some b \<Rightarrow>
          if E_FAILURE = clock env then (False, Some b)
          else if \<not> localtime_ok env then (False, Some b)
          else if 0 = strftime_written env then (False, Some (strftime_text env))
          else (True, Some (strftime_text env)))"

definition get_color_code :: "log_color_t \<Rightarrow> string option \<Rightarrow> nat \<Rightarrow> int \<times> string option" where
  "get_color_code color buffer bufsize =
     (case buffer of
        None \<Rightarrow> (E_FAILURE, None)
      | Some b \<Rightarrow>
          let (b, chars_written) =
            snprintf_s bufsize
              ([ESC, CHR ''[''] @ show_nat (fg_ansi_codes ! fg_index (foreground color)) @ '';'' @
               show_nat (bg_ansi_codes ! bg_index (background color)) @ ''m'')
          in if - 1 = int chars_written then (E_FAILURE, Some b) else (E_SUCCESS, Some b))"

definition unlock_stdout :: "io \<Rightarrow> io" where
  "unlock_stdout s = s\<lparr>stdout_locked := False\<rparr>"

section \<open>message\_log\<close>

definition console_line :: "string \<Rightarrow> string \<Rightarrow> string \<Rightarrow> string \<Rightarrow> bool \<Rightarrow> string" where
  "console_line color time pfx msg show_time =
     (if show_time
      then color @ ''['' @ time @ '']['' @ pfx @ '']: '' @ msg @ [ESC] @ ''[0m'' @ [NEWLINE]
      else color @ ''['' @ pfx @ '']: '' @ msg @ [ESC] @ ''[0m'' @ [NEWLINE])"

definition file_line :: "string \<Rightarrow> string \<Rightarrow> string \<Rightarrow> bool \<Rightarrow> string" where
  "file_line time pfx msg show_time =
     (if show_time then ''['' @ time @ '']['' @ pfx @ '']: '' @ msg @ [NEWLINE]
      else ''['' @ pfx @ '']: '' @ msg @ [NEWLINE])"

text \<open>The part that prints to the file, reached with \<open>stdout_mutex\<close> held: a failed
  \<open>fprintf\<close> or \<open>fclose\<close> leaves without unlocking it.\<close>

definition log_to_file :: "log_env \<Rightarrow> string \<Rightarrow> int \<Rightarrow> io \<Rightarrow> int \<times> io" where
  "log_to_file env line exit_code s =
     (if \<not> fprintf_ok env then (exit_code, s)
      else let s = s\<lparr>log_text := log_text s @ line\<rparr>;
               (exit_code, s) = safe_fclose (fclose_ok env) True s
           in if E_SUCCESS \<noteq> exit_code then (exit_code, s) else (E_SUCCESS, unlock_stdout s))"

definition message_log ::
  "log_env \<Rightarrow> string option \<Rightarrow> fg_color_t \<Rightarrow> bg_color_t \<Rightarrow> log_dest_t \<Rightarrow> bool \<Rightarrow> bool \<Rightarrow> io \<Rightarrow> int outcome \<times> io" where
  "message_log env pfx fg_color bg_color destination show_time format_given s =
     (case pfx of
        None \<Rightarrow> (Returned E_FAILURE, s)
      | Some pre \<Rightarrow>
          if \<not> format_given then (Returned E_FAILURE, s)
          else if stdout_locked s then (Blocked, s)
          else
            let s = s\<lparr>stdout_locked := True\<rparr>;
                log_color = \<lparr>foreground = fg_color, background = bg_color\<rparr>;
                (exit_code, color_code) = get_color_code log_color (Some '''') COLOR_CODE_SIZE
            in if E_SUCCESS \<noteq> exit_code then (Returned exit_code, unlock_stdout s)
               else
                 let (stamped, time_buffer) =
                       (if show_time then get_timestamp env (Some '''') TIME_BUFFER_SIZE else (False, Some ''''));
                     exit_code = (if show_time then (if stamped then 1 else 0) else exit_code)
                 in if show_time \<and> E_SUCCESS \<noteq> exit_code then (Returned exit_code, unlock_stdout s)
                    else case message env of
                      None \<Rightarrow> (Returned E_FAILURE, unlock_stdout s)
                    | Some m \<Rightarrow>
                        let msg_buffer = fst (snprintf_s MAX_MSG_SIZE m);
                            to_file = (LOG_FILE = destination \<or> LOG_BOTH = destination);
                            to_console = (destination = LOG_CONSOLE \<or> destination = LOG_BOTH)
                        in if to_file \<and> \<not> fopen_ok env then (Returned exit_code, unlock_stdout s)
                           else
                             let s = (if to_file then s\<lparr>streams := Suc (streams s)\<rparr> else s);
                                 s = (if to_console
                                      then s\<lparr>stdout_text := stdout_text s @
                                        console_line (the color_code) (the time_buffer) pre msg_buffer show_time\<rparr>
                                      else s)
                             in if to_file
                                then (let (exit_code, s) =
                                        log_to_file env (file_line (the time_buffer) pre msg_buffer show_time) exit_code s
                                      in (Returned exit_code, s))
                                else (Returned E_SUCCESS, unlock_stdout s))"

section \<open>print\_boxed\_info\<close>

primrec dashes :: "nat \<Rightarrow> string" where
  "dashes 0 = []"
| "dashes (Suc n) = ''-'' @ dashes n"

text \<open>\<open>%-*s\<close>: the string, padded on the right to a width.\<close>

definition pad_right :: "nat \<Rightarrow> string \<Rightarrow> string" where
  "pad_right width s = s @ replicate (width - length s) (CHR '' '')"

definition box_rule :: "nat \<Rightarrow> string" where
  "box_rule max_len = ''+'' @ dashes (max_len + 2) @ ''+'' @ [NEWLINE]"

definition box_row :: "nat \<Rightarrow> string \<Rightarrow> string" where
  "box_row max_len text = ''| '' @ pad_right max_len text @ '' |'' @ [NEWLINE]"

definition temp_text :: "string \<Rightarrow> string \<Rightarrow> string" where
  "temp_text label v = fst (snprintf_s LOG_BUFFER_SIZE (label @ v))"

definition longer :: "nat \<Rightarrow> string \<Rightarrow> nat" where
  "longer max_len temp = (if max_len > length temp then max_len else length temp)"

text \<open>The text that \<open>print_boxed_info\<close> writes to its stream.\<close>

definition print_boxed_info :: "string \<Rightarrow> string \<Rightarrow> string \<Rightarrow> string \<Rightarrow> string \<Rightarrow> string \<Rightarrow> string" where
  "print_boxed_info header hostname operating_system cpu architecture memory =
     (let max_len = length header;
          max_len = longer max_len (temp_text ''Hostname: '' hostname);
          max_len = longer max_len (temp_text ''Operating System: '' operating_system);
          max_len = longer max_len (temp_text ''CPU: '' cpu);
          max_len = longer max_len (temp_text ''Architecture: '' architecture);
          max_len = longer max_len (temp_text ''Memory: '' memory);
          max_len = max_len + 2
      in box_rule max_len @ box_row max_len header @ box_rule max_len @
         box_row max_len (temp_text ''Hostname: '' hostname) @
         box_row max_len (temp_text ''Operating System: '' operating_system) @
         box_row max_len (temp_text ''CPU: '' cpu) @
         box_row max_len (temp_text ''Architecture: '' architecture) @
         box_row max_len (temp_text ''Memory: '' memory) @
         box_rule max_len)"

section \<open>log\_system\_info\<close>

text \<open>What the machine answers to the five queries.\<close>

record machine =
  host_name :: "string option"
  os_release :: "string option"
  cpuinfo :: "string option"
  uname_machine :: "string option"
  meminfo :: "string option"

definition or_NA :: "string option \<Rightarrow> string" where
  "or_NA s = (case s of Some t \<Rightarrow> t | None \<Rightarrow> ''N/A'')"

definition free_string :: "string option \<Rightarrow> io \<Rightarrow> io" where
  "free_string p s = (if p = None then s else io_free s)"

text \<open>Sequencing of queries: undefined behaviour and a thread that never returns end the run.\<close>

definition and_then ::
  "('a outcome \<times> io) option \<Rightarrow> ('a \<Rightarrow> io \<Rightarrow> ('b outcome \<times> io) option) \<Rightarrow> ('b outcome \<times> io) option" where
  "and_then r k =
     (case r of
        None \<Rightarrow> None
      | Some (Blocked, s) \<Rightarrow> Some (Blocked, s)
      | Some (Returned a, s) \<Rightarrow> k a s)"

text \<open>The end of \<open>log_system_info\<close>, from \<open>fopen\<close> on.\<close>

definition report_system_info ::
  "bool \<Rightarrow> string option \<Rightarrow> string option \<Rightarrow> string option \<Rightarrow> string option \<Rightarrow> string option \<Rightarrow> io \<Rightarrow> int \<times> io" where
  "report_system_info log_opens hostname operating_system cpu arch memory s =
     (let free_all = (\<lambda>s. free_string memory (free_string arch (free_string cpu
            (free_string operating_system (free_string hostname s)))))
      in if \<not> log_opens then (E_FAILURE, free_all s)
         else let box = print_boxed_info ''SYSTEM INFO'' (or_NA hostname) (or_NA operating_system)
                    (or_NA cpu) (or_NA arch) (or_NA memory);
                  s = s\<lparr>streams := Suc (streams s), log_text := log_text s @ box\<rparr>;
                  s = s\<lparr>streams := streams s - 1\<rparr>;
                  s = s\<lparr>stdout_text := stdout_text s @ box\<rparr>
              in (E_SUCCESS, free_all s))"

definition log_system_info :: "machine \<Rightarrow> bool \<Rightarrow> bool \<Rightarrow> io \<Rightarrow> (int outcome \<times> io) option" where
  "log_system_info mach fclose_queries log_opens s =
     and_then (Some (get_hostname (host_name mach) s)) (\<lambda>hostname s.
     and_then (get_operating_system (os_release mach) fclose_queries s) (\<lambda>operating_system s.
     and_then (get_cpu_info (cpuinfo mach) fclose_queries s) (\<lambda>cpu s.
     and_then (Some (get_cpu_architecture (uname_machine mach) s)) (\<lambda>arch s.
     and_then (get_memory_info (meminfo mach) fclose_queries s) (\<lambda>memory s.
       let (exit_code, s) = report_system_info log_opens hostname operating_system cpu arch memory s
       in Some (Returned exit_code, s))))))"

section \<open>The macros of log.h\<close>

datatype log_level = DEBUG_LEVEL | TRACE_LEVEL | INFO_LEVEL | WARN_LEVEL | CRITICAL_LEVEL | EMERG_LEVEL

definition LOG_LEVEL :: "bool \<Rightarrow> nat" where
  "LOG_LEVEL ndebug = (if ndebug then 0 else 6)"

fun level_value :: "log_level \<Rightarrow> nat" where
  "level_value DEBUG_LEVEL = 6"
| "level_value TRACE_LEVEL = 5"
| "level_value INFO_LEVEL = 4"
| "level_value WARN_LEVEL = 3"
| "level_value CRITICAL_LEVEL = 2"
| "level_value EMERG_LEVEL = 1"

definition ansi :: "string \<Rightarrow> string" where
  "ansi code = [ESC] @ ''['' @ code @ ''m''"

fun level_color :: "log_level \<Rightarrow> string" where
  "level_color DEBUG_LEVEL = ansi ''36''"
| "level_color TRACE_LEVEL = ansi ''34''"
| "level_color INFO_LEVEL = ansi ''97''"
| "level_color WARN_LEVEL = ansi ''33''"
| "level_color CRITICAL_LEVEL = ansi ''31''"
| "level_color EMERG_LEVEL = ansi ''1'' @ ansi ''31''"

fun level_str :: "log_level \<Rightarrow> string" where
  "level_str DEBUG_LEVEL = ''DBG''"
| "level_str TRACE_LEVEL = ''TRC''"
| "level_str INFO_LEVEL = ''INF''"
| "level_str WARN_LEVEL = ''WRN''"
| "level_str CRITICAL_LEVEL = ''CRT''"
| "level_str EMERG_LEVEL = ''EMG''"

text \<open>\<open>strrchr(path, '/')\<close> as the text after the last slash.\<close>

definition strrchr_slash :: "string \<Rightarrow> string option" where
  "strrchr_slash path =
     (if CHR ''/'' \<in> set path then Some (rev (takeWhile (\<lambda>c. c \<noteq> CHR ''/'') (rev path))) else None)"

definition FILENAME :: "string \<Rightarrow> string" where
  "FILENAME path = (case strrchr_slash path of Some name \<Rightarrow> name | None \<Rightarrow> path)"

definition LOG_macro :: "bool \<Rightarrow> log_level \<Rightarrow> string \<Rightarrow> nat \<Rightarrow> string \<Rightarrow> string \<Rightarrow> io \<Rightarrow> io" where
  "LOG_macro ndebug level file line func msg s =
     (if level_value level \<le> LOG_LEVEL ndebug
      then let s = s\<lparr>stdout_text := stdout_text s @ level_color level @ ''['' @ level_str level @ '']'' @
                 ansi ''0'' @ '' '' @ FILENAME file @ '':'' @ show_nat line @ '' ('' @ func @ ''): ''\<rparr>;
               s = s\<lparr>stdout_text := stdout_text s @ msg\<rparr>
           in s\<lparr>stdout_text := stdout_text s @ [NEWLINE]\<rparr>
      else s)"

lemma FILENAME_basename:
  "CHR ''/'' \<notin> set name \<Longrightarrow> FILENAME (dir @ CHR ''/'' # name) = name \<and> FILENAME name = name"
  using takeWhile_stop [of "CHR ''/''" "rev name" "rev dir"]
  by (simp add: FILENAME_def strrchr_slash_def)

text \<open>The number of debug output lines: one when enabled, none in a release build.\<close>

lemma LOG_macro_release: "LOG_macro True level file line func msg s = s"
  by (cases level) (simp_all add: LOG_macro_def LOG_LEVEL_def)

lemma LOG_macro_debug:
  "stdout_text (LOG_macro False level file line func msg s) =
    stdout_text s @ level_color level @ ''['' @ level_str level @ '']'' @ ansi ''0'' @ '' '' @ FILENAME file @
    '':'' @ show_nat line @ '' ('' @ func @ ''): '' @ msg @ [NEWLINE]"
  by (cases level) (simp_all add: LOG_macro_def LOG_LEVEL_def)

section \<open>Colour codes\<close>

definition color_code :: "fg_color_t \<Rightarrow> bg_color_t \<Rightarrow> string" where
  "color_code fg bg =
     [ESC, CHR ''[''] @ show_nat (fg_ansi_codes ! fg_index fg) @ '';'' @ show_nat (bg_ansi_codes ! bg_index bg) @ ''m''"

lemma fg_code_small: "fg_ansi_codes ! fg_index fg < 10 ^ 3"
  by (cases fg) (simp_all add: fg_ansi_codes_def)

lemma bg_code_small: "bg_ansi_codes ! bg_index bg < 10 ^ 3"
  by (cases bg) (simp_all add: bg_ansi_codes_def)

text \<open>The buffer of 32 characters always holds the whole code.\<close>

lemma color_code_fits: "length (color_code fg bg) < COLOR_CODE_SIZE"
  using show_nat_length [OF fg_code_small, of fg] show_nat_length [OF bg_code_small, of bg]
  by (simp add: color_code_def COLOR_CODE_SIZE_def)

lemma get_color_code_result:
  "get_color_code \<lparr>foreground = fg, background = bg\<rparr> (Some b) COLOR_CODE_SIZE = (E_SUCCESS, Some (color_code fg bg))"
  using color_code_fits [of fg bg]
  by (auto simp: get_color_code_def color_code_def snprintf_s_def Let_def)

section \<open>What a call of message\_log does\<close>

definition to_console :: "log_dest_t \<Rightarrow> bool" where
  "to_console d \<longleftrightarrow> d \<noteq> LOG_FILE"

definition to_file :: "log_dest_t \<Rightarrow> bool" where
  "to_file d \<longleftrightarrow> d \<noteq> LOG_CONSOLE"

definition log_entry :: "string \<Rightarrow> string \<Rightarrow> string" where
  "log_entry pfx msg = ''['' @ pfx @ '']: '' @ take 499 msg"

text \<open>A call without a time stamp, when nothing fails.\<close>

lemma message_log_plain:
  assumes "\<not> stdout_locked s" "message env = Some m" "fopen_ok env" "fprintf_ok env" "fclose_ok env"
  shows "message_log env (Some pfx) fg bg dest False True s =
    (Returned E_SUCCESS,
     s\<lparr>stdout_text := stdout_text s @ (if to_console dest then color_code fg bg @ log_entry pfx m @ [ESC] @ ''[0m'' @ [NEWLINE] else ''''),
       log_text := log_text s @ (if to_file dest then log_entry pfx m @ [NEWLINE] else '''')\<rparr>)"
  using assms
  by (cases dest) (simp_all add: message_log_def get_color_code_result log_to_file_def safe_fclose_def
      unlock_stdout_def to_console_def to_file_def log_entry_def console_line_def file_line_def snprintf_s_def
      MAX_MSG_SIZE_def Let_def)

text \<open>With a time stamp the sense of \<open>get_timestamp\<close>'s result is inverted: a working clock ends the call.\<close>

definition clock_works :: "log_env \<Rightarrow> bool" where
  "clock_works env \<longleftrightarrow> clock env \<noteq> E_FAILURE \<and> localtime_ok env \<and> strftime_written env \<noteq> 0"

lemma message_log_time:
  assumes "\<not> stdout_locked s" "clock_works env"
  shows "message_log env (Some pfx) fg bg dest True True s = (Returned 1, s)"
  using assms
  by (simp add: message_log_def get_color_code_result get_timestamp_def clock_works_def unlock_stdout_def Let_def E_SUCCESS_def)

lemma message_log_no_file:
  assumes "\<not> stdout_locked s" "message env = Some m" "\<not> fopen_ok env" "to_file dest"
  shows "message_log env (Some pfx) fg bg dest False True s = (Returned E_SUCCESS, s)"
  using assms
  by (cases dest) (simp_all add: message_log_def get_color_code_result unlock_stdout_def to_file_def Let_def)

text \<open>A failed write or close: the mutex stays locked, and a failed write leaves the stream open.\<close>

lemma message_log_stuck:
  assumes "\<not> stdout_locked s" "message env = Some m" "fopen_ok env" "to_file dest" "\<not> (fprintf_ok env \<and> fclose_ok env)"
    and "message_log env (Some pfx) fg bg dest False True s = (r, s')"
  shows "stdout_locked s' \<and> r = Returned (if fprintf_ok env then E_FAILURE else E_SUCCESS) \<and>
    streams s' = (if fprintf_ok env then streams s else Suc (streams s))"
  using assms
  by (cases dest) (auto simp: message_log_def get_color_code_result unlock_stdout_def to_file_def
      log_to_file_def safe_fclose_def Let_def split: if_splits)

lemma message_log_blocked:
  "stdout_locked s \<Longrightarrow> message_log env (Some pfx) fg bg dest show_time True s = (Blocked, s)"
  by (simp add: message_log_def)

lemma ts_printf_blocked: "stdout_locked s \<Longrightarrow> ts_printf text s = (Blocked, s)"
  by (simp add: ts_printf_def)

section \<open>A sequence of calls\<close>

record log_call =
  call_env :: log_env
  call_prefix :: string
  call_fg :: fg_color_t
  call_bg :: bg_color_t
  call_dest :: log_dest_t

fun log_calls :: "log_call list \<Rightarrow> io \<Rightarrow> int list outcome \<times> io" where
  "log_calls [] s = (Returned [], s)"
| "log_calls (c # cs) s =
     (case message_log (call_env c) (Some (call_prefix c)) (call_fg c) (call_bg c) (call_dest c) False True s of
        (Blocked, s) \<Rightarrow> (Blocked, s)
      | (Returned code, s) \<Rightarrow>
          (case log_calls cs s of
             (Blocked, s) \<Rightarrow> (Blocked, s)
           | (Returned codes, s) \<Rightarrow> (Returned (code # codes), s)))"

definition call_works :: "log_call \<Rightarrow> bool" where
  "call_works c \<longleftrightarrow> message (call_env c) \<noteq> None \<and> fopen_ok (call_env c) \<and> fprintf_ok (call_env c) \<and> fclose_ok (call_env c)"

definition call_entry :: "log_call \<Rightarrow> string" where
  "call_entry c = log_entry (call_prefix c) (the (message (call_env c)))"

lemma log_calls_in_order:
  assumes "\<not> stdout_locked s" "\<And>c. c \<in> set cs \<Longrightarrow> call_works c"
  shows "log_calls cs s =
    (Returned (map (\<lambda>c. E_SUCCESS) cs),
     s\<lparr>stdout_text := stdout_text s @ concat (map (\<lambda>c. color_code (call_fg c) (call_bg c) @ call_entry c @ [ESC] @ ''[0m'' @ [NEWLINE])
         (filter (\<lambda>c. to_console (call_dest c)) cs)),
       log_text := log_text s @ concat (map (\<lambda>c. call_entry c @ [NEWLINE]) (filter (\<lambda>c. to_file (call_dest c)) cs))\<rparr>)"
  using assms
proof (induction cs arbitrary: s)
  case (Cons c cs)
  have w: "call_works c" using Cons.prems(2) by simp
  then obtain m where m: "message (call_env c) = Some m" by (auto simp: call_works_def)
  have "message_log (call_env c) (Some (call_prefix c)) (call_fg c) (call_bg c) (call_dest c) False True s =
    (Returned E_SUCCESS,
     s\<lparr>stdout_text := stdout_text s @ (if to_console (call_dest c) then color_code (call_fg c) (call_bg c) @ call_entry c @ [ESC] @ ''[0m'' @ [NEWLINE] else ''''),
       log_text := log_text s @ (if to_file (call_dest c) then call_entry c @ [NEWLINE] else '''')\<rparr>)"
    using message_log_plain [OF Cons.prems(1) m] w by (simp add: call_works_def call_entry_def m)
  then show ?case using Cons by simp
qed simp


section \<open>The box\<close>

definition box_width :: "string list \<Rightarrow> nat" where
  "box_width texts = fold (\<lambda>t w. max w (length t)) texts 0 + 2"

lemma dashes_replicate: "dashes n = replicate n (CHR ''-'')"
  by (induction n) simp_all

lemma fold_max_ge: "w \<le> fold (\<lambda>t w. max w (length t)) texts w"
  by (induction texts arbitrary: w) (simp, metis fold_simps(2) max.cobounded1 order_trans)

lemma box_width_bound: "t \<in> set texts \<Longrightarrow> length t + 2 \<le> box_width texts"
proof -
  have "t \<in> set texts \<Longrightarrow> length t \<le> fold (\<lambda>t w. max w (length t)) texts w" for w
    by (induction texts arbitrary: w) (auto intro: le_trans [OF _ fold_max_ge])
  then show "t \<in> set texts \<Longrightarrow> length t + 2 \<le> box_width texts" by (simp add: box_width_def)
qed

text \<open>The lines of the box without their newlines.\<close>

definition box_rule_line :: "nat \<Rightarrow> string" where
  "box_rule_line w = ''+'' @ dashes (w + 2) @ ''+''"

definition box_text_line :: "nat \<Rightarrow> string \<Rightarrow> string" where
  "box_text_line w t = ''| '' @ pad_right w t @ '' |''"

definition box_texts :: "string \<Rightarrow> string \<Rightarrow> string \<Rightarrow> string \<Rightarrow> string \<Rightarrow> string \<Rightarrow> string list" where
  "box_texts header hostname operating_system cpu architecture memory =
     [header, temp_text ''Hostname: '' hostname, temp_text ''Operating System: '' operating_system,
      temp_text ''CPU: '' cpu, temp_text ''Architecture: '' architecture, temp_text ''Memory: '' memory]"

lemma print_boxed_info_lines:
  fixes h host os cpu arch mem :: string
  defines "texts \<equiv> box_texts h host os cpu arch mem"
  defines "w \<equiv> box_width texts"
  shows "print_boxed_info h host os cpu arch mem =
    unlines ([box_rule_line w, box_text_line w h, box_rule_line w] @ map (box_text_line w) (tl texts) @ [box_rule_line w])"
proof -
  have W: "longer (longer (longer (longer (longer (length h) (temp_text ''Hostname: '' host)) (temp_text ''Operating System: '' os))
      (temp_text ''CPU: '' cpu)) (temp_text ''Architecture: '' arch)) (temp_text ''Memory: '' mem) + 2 = w"
    by (simp add: longer_def w_def texts_def box_texts_def box_width_def max_def)
  show ?thesis
    unfolding print_boxed_info_def Let_def W
    by (simp add: texts_def box_texts_def unlines_def
        box_rule_def box_row_def box_rule_line_def box_text_line_def NEWLINE_def)
qed

lemma box_lines_width:
  "length (box_rule_line w) = w + 4"
  "length t \<le> w \<Longrightarrow> length (box_text_line w t) = w + 4"
  by (simp_all add: box_rule_line_def box_text_line_def dashes_replicate pad_right_def)

lemma print_boxed_info_width:
  "\<exists>rows w. print_boxed_info h host os cpu arch mem = unlines rows \<and> length rows = 9 \<and> (\<forall>r \<in> set rows. length r = w)"
proof -
  define texts where "texts = box_texts h host os cpu arch mem"
  define w where "w = box_width texts"
  have t: "texts = h # tl texts" "length texts = 6" by (simp_all add: texts_def box_texts_def)
  have "length t \<le> w" if "t \<in> set texts" for t using box_width_bound [OF that] by (simp add: w_def)
  moreover have "h \<in> set texts" "set (tl texts) \<subseteq> set texts" using t(1) by (metis list.set_intros(1), metis set_subset_Cons)
  ultimately show ?thesis
    using t(2) unfolding print_boxed_info_lines texts_def [symmetric] w_def [symmetric]
    by (intro exI [of _ "w + 4"] exI [of _ "[box_rule_line w, box_text_line w h, box_rule_line w] @ map (box_text_line w) (tl texts) @ [box_rule_line w]"])
      (auto simp: box_lines_width subset_iff)
qed

section \<open>log\_system\_info returns what it took\<close>

lemma and_then_Returned:
  "and_then r k = Some (Returned b, s') \<longleftrightarrow> (\<exists>a s. r = Some (Returned a, s) \<and> k a s = Some (Returned b, s'))"
  by (auto simp: and_then_def split: option.splits prod.splits outcome.splits)

lemma returned_pair: "(case p of (code, s) \<Rightarrow> Some (Returned code, s)) = Some (Returned c, s') \<longleftrightarrow> p = (c, s')"
  by (cases p) auto

text \<open>Whenever the call returns, the memory and streams it took are released, and the result says
  whether the box went to the log file and to the console.\<close>

lemma log_system_info_result:
  assumes "log_system_info mach ok log_opens s = Some (Returned code, s')"
  shows "blocks s' = blocks s" "streams s' = streams s" "stdout_locked s' = stdout_locked s"
    and "code = (if log_opens then E_SUCCESS else E_FAILURE)"
    and "\<exists>h os cpu a m. let box = (if log_opens then print_boxed_info ''SYSTEM INFO'' h os cpu a m else '''')
      in log_text s' = log_text s @ box \<and> stdout_text s' = stdout_text s @ box"
proof -
  obtain h s1 os s2 c s3 a s4 m s5 where
    "get_hostname (host_name mach) s = (Returned h, s1)" "get_operating_system (os_release mach) ok s1 = Some (Returned os, s2)"
    "get_cpu_info (cpuinfo mach) ok s2 = Some (Returned c, s3)"
    "get_cpu_architecture (uname_machine mach) s3 = (Returned a, s4)"
    "get_memory_info (meminfo mach) ok s4 = Some (Returned m, s5)"
    and r: "report_system_info log_opens h os c a m s5 = (code, s')"
    using assms unfolding log_system_info_def and_then_Returned
    by (auto simp: returned_pair)
  then have b: "balanced s h s1" "balanced s1 os s2" "balanced s2 c s3" "balanced s3 a s4" "balanced s4 m s5"
    by (blast intro: get_hostname_balanced get_cpu_architecture_balanced file_queries_balanced)+
  have f: "blocks (free_string p t) = blocks t - owned_blocks p"
    "streams (free_string p t) = streams t" "stdout_locked (free_string p t) = stdout_locked t"
    "log_text (free_string p t) = log_text t" "stdout_text (free_string p t) = stdout_text t" for p t
    by (simp_all add: free_string_def io_free_def owned_blocks_def)
  have e: "blocks s5 = blocks s + owned_blocks h + owned_blocks os + owned_blocks c + owned_blocks a + owned_blocks m" "streams s5 = streams s"
    "stdout_locked s5 = stdout_locked s" "log_text s5 = log_text s" "stdout_text s5 = stdout_text s"
    using b by (simp_all add: balanced_def)
  show "blocks s' = blocks s" "streams s' = streams s" "stdout_locked s' = stdout_locked s"
    "code = (if log_opens then E_SUCCESS else E_FAILURE)"
    using r by (auto simp: report_system_info_def e f Let_def split: if_splits)
  show "\<exists>h os cpu a m. let box = (if log_opens then print_boxed_info ''SYSTEM INFO'' h os cpu a m else '''')
      in log_text s' = log_text s @ box \<and> stdout_text s' = stdout_text s @ box"
    using r by (intro exI [of _ "or_NA h"] exI [of _ "or_NA os"] exI [of _ "or_NA c"] exI [of _ "or_NA a"] exI [of _ "or_NA m"])
      (auto simp: report_system_info_def e f Let_def split: if_splits)
qed

end
