(* ===== verification/Samples.thy ===== *)
theory Samples
  imports List_Spec Stack Queue_Monitor Vector Hash_Table Socket_Manager Socket_IO
    Number_Generator String_Operations Graph_Samples Adjacency_Matrix Server_Samples
    Encryption Nacl_Sign Runtime_Log
begin

text \<open>
  Small concrete states of every component, on which the properties of the root theory are
  exercised: a list of three integers, a stack, a queue, a vector, a hash table, a socket manager,
  and a kernel that moves a few bytes per call.
\<close>

section \<open>A list of the integers 3, 1, 2\<close>

definition ints :: "ptr \<rightharpoonup> int" where
  "ints = [11 \<mapsto> 3, 12 \<mapsto> 1, 13 \<mapsto> 2, 14 \<mapsto> 1]"

definition list3 :: list_t where
  "list3 = \<lparr>l_size = 3, l_head = 2, l_tail = 4, l_custom_free = Some libc_free, l_compare_func = Some (int_comp ints)\<rparr>"

definition heap3 :: list_heap where
  "heap3 = \<lparr>nodes = [2 \<mapsto> \<lparr>n_data = 11, n_prev = 0, n_next = 3\<rparr>, 3 \<mapsto> \<lparr>n_data = 12, n_prev = 2, n_next = 4\<rparr>,
                     4 \<mapsto> \<lparr>n_data = 13, n_prev = 3, n_next = 0\<rparr>],
            list_objs = [1 \<mapsto> list3], brk = 5, plan = [], released = [], acted = []\<rparr>"

abbreviation seq3 :: node_seq where
  "seq3 \<equiv> [(2, 11), (3, 12), (4, 13)]"

lemma heap3_rep: "list_rep heap3 1 list3 seq3"
  by (simp add: list_rep_def heap3_def list3_def)

lemma heap3_ok: "heap_ok heap3" "plan heap3 = []"
  by (auto simp: heap_ok_def heap3_def)

lemma list3_callbacks: "l_custom_free list3 = Some libc_free" "l_compare_func list3 = Some (int_comp ints)"
  by (simp_all add: list3_def)

lemma ints_allocated: "{11, 12, 13, 14} \<subseteq> allocated ints"
  by (auto simp: allocated_def ints_def)

lemma ints_total: "cmp_total_on (int_comp ints) 12 (set (datas seq3))"
  by (auto simp: cmp_total_on_def int_comp_def ints_def)

text \<open>The same heap with an empty second list.\<close>

definition heap4 :: list_heap where
  "heap4 = heap3\<lparr>list_objs := (list_objs heap3)(6 \<mapsto> list3\<lparr>l_size := 0, l_head := 0, l_tail := 0\<rparr>), brk := 7\<rparr>"

lemma heap4_rep:
  "list_rep heap4 6 (list3\<lparr>l_size := 0, l_head := 0, l_tail := 0\<rparr>) []" "list_rep heap4 1 list3 seq3"
  by (simp_all add: list_rep_def heap4_def heap3_def list3_def)

lemma heap4_ok: "heap_ok heap4" "plan heap4 = []" "brk heap4 = 7"
  by (auto simp: heap_ok_def heap4_def heap3_def)

text \<open>The data met when following \<open>next\<close> at most \<open>n\<close> times.\<close>

fun chain_datas :: "nat \<Rightarrow> list_heap \<Rightarrow> ptr \<Rightarrow> ptr list" where
  "chain_datas 0 h p = []"
| "chain_datas (Suc n) h p =
     (if p = NULL then [] else
      case nodes h p of None \<Rightarrow> [] | Some x \<Rightarrow> n_data x # chain_datas n h (n_next x))"

section \<open>A stack, a queue and a vector of the pointers 11 and 12\<close>

definition stack2 :: stack_t where
  "stack2 = \<lparr>s_capacity = 3, s_currentsz = 2, s_arr = [1, 2, 0], s_customfree = Some libc_free\<rparr>"

definition stack2_heap :: stack_heap where
  "stack2_heap = \<lparr>s_nodes = [1 \<mapsto> \<lparr>sn_data = 11\<rparr>, 2 \<mapsto> \<lparr>sn_data = 12\<rparr>], s_brk = 3, s_plan = [], s_released = []\<rparr>"

lemma stack2_rep: "stack_rep stack2_heap stack2 [(1, 11), (2, 12)]" "stack_heap_ok stack2_heap"
  by (auto simp: stack_rep_def stack_heap_ok_def stack2_def stack2_heap_def)

definition queue2 :: queue_t where
  "queue2 = \<lparr>q_current_size = 2, q_max_size = 4, q_head = 1, q_tail = 2, q_customfree = libc_free\<rparr>"

definition queue0 :: queue_t where
  "queue0 = \<lparr>q_current_size = 0, q_max_size = 4, q_head = 0, q_tail = 0, q_customfree = libc_free\<rparr>"

definition queue2_heap :: queue_heap where
  "queue2_heap = \<lparr>q_nodes = [1 \<mapsto> \<lparr>qn_data = 11, qn_next = 2\<rparr>, 2 \<mapsto> \<lparr>qn_data = 12, qn_next = 0\<rparr>],
                  q_brk = 3, q_plan = [], q_released = []\<rparr>"

definition queue0_heap :: queue_heap where
  "queue0_heap = \<lparr>q_nodes = Map.empty, q_brk = 1, q_plan = [], q_released = []\<rparr>"

lemma queue2_rep: "queue_rep queue2_heap queue2 [(1, 11), (2, 12)]" "queue_heap_ok queue2_heap"
  by (auto simp: queue_rep_def queue_heap_ok_def queue2_def queue2_heap_def)

lemma queue0_rep: "queue_rep queue0_heap queue0 []" "queue_heap_ok queue0_heap"
  by (auto simp: queue_rep_def queue_heap_ok_def queue0_def queue0_heap_def)

lemma one_enqueued: "\<exists>s. mreach (start queue0 queue0_heap) s \<and> m_in s = [11]"
proof -
  have "minv 4 (start queue0 queue0_heap) []"
    using queue0_rep by (simp add: minv_def start_def owners_ok_def lock_ok_def bounded_by_def queue0_def)
  moreover have "\<not> at_capacity (m_queue (start queue0 queue0_heap))" by (simp add: at_capacity_def start_def queue0_def)
  ultimately show ?thesis
    using enqueue_completes [of 4 "start queue0 queue0_heap" "[]" 1 11] by (auto simp: start_def queue0_heap_def)
qed

lemma one_critical: "\<exists>s. mreach (start queue0 queue0_heap) s \<and> critical (m_pc s 1)"
proof -
  let ?s0 = "start queue0 queue0_heap"
  let ?s1 = "?s0\<lparr>m_pc := (m_pc ?s0)(1 := Deq_lock)\<rparr>"
  let ?s2 = "?s1\<lparr>m_lock := Some 1, m_pc := (m_pc ?s1)(1 := Deq_loop)\<rparr>"
  have 1: "mstep ?s0 ?s1" by (rule mstep.deq_call) (simp add: start_def)
  have 2: "mstep ?s1 ?s2" by (rule mstep.deq_lock) (simp_all add: start_def)
  show ?thesis by (rule exI [of _ ?s2]) (use mreach.step [OF mreach.step [OF mreach.init 1] 2] in simp)
qed

definition vec2 :: vector_t where
  "vec2 = \<lparr>v_elements = [Some 11, Some 12, Some 12, None], v_size = 2, v_capacity = 4,
           v_custom_free = libc_free, v_compare_func = int_comp ints\<rparr>"

definition vec_full :: vector_t where
  "vec_full = \<lparr>v_elements = [Some 11, Some 12], v_size = 2, v_capacity = 2,
               v_custom_free = libc_free, v_compare_func = int_comp ints\<rparr>"

definition vec_env0 :: vec_env where
  "vec_env0 = \<lparr>v_plan = [], v_released = [], v_acted = []\<rparr>"

lemma vec2_rep: "vector_rep vec2 [11, 12]"
  by (simp add: vector_rep_def vec2_def INT32_MAX_def)

lemma vec_full_rep: "vector_rep vec_full [11, 12]"
  by (simp add: vector_rep_def vec_full_def INT32_MAX_def)

section \<open>A hash table of size 2 with the key a\<close>

definition table1 :: hash_table_t where
  "table1 = \<lparr>ht_size = 2, ht_table = Some [0, 1], ht_customfree = Some libc_free\<rparr>"

definition table1_heap :: hash_heap where
  "table1_heap = \<lparr>h_nodes = [1 \<mapsto> \<lparr>hn_key = ''a'', hn_data = 11, hn_next = 0\<rparr>], h_brk = 2, h_plan = [], h_released = []\<rparr>"

lemma hidx_a: "hidx 2 ''a'' = 1"
  by (simp add: hidx_def poly_value_def)

lemma table1_rep: "table_rep table1_heap table1 [(1, ''a'', 11)]" "hash_heap_ok table1_heap"
proof -
  have "hseg (h_nodes table1_heap) ([0, 1] ! i) (bucket 2 i [(1, ''a'', 11)]) NULL" if "i < 2" for i
    using that hidx_a by (cases "i = 0") (auto simp: table1_heap_def MAX_KEY_SIZE_def less_2_cases_iff)
  then show "table_rep table1_heap table1 [(1, ''a'', 11)]"
    by (simp add: table_rep_def table1_def)
  show "hash_heap_ok table1_heap" by (simp add: hash_heap_ok_def table1_heap_def)
qed

section \<open>A socket manager watching descriptors 3 and 7\<close>

definition mgr2 :: socket_manager_t where
  "mgr2 = \<lparr>fd_arr = Some [\<lparr>p_fd = Some 3, p_events = Some 1, p_revents = Some 0\<rparr>,
                          \<lparr>p_fd = Some 7, p_events = Some 1, p_revents = Some 0\<rparr>],
           max_fds = 5, fd_count = 2, fd_capacity = 2, fd_mutex_locked = False\<rparr>"

definition sock_env0 :: sock_env where
  "sock_env0 = \<lparr>sm_plan = [], sm_closed = []\<rparr>"

lemma mgr2_rep: "mgr_rep mgr2 [3, 7]"
  by (auto simp: mgr_rep_def mgr2_def watched_def POLLIN_def INT32_MAX_def less_Suc_eq)

section \<open>A kernel that moves at most three bytes per call\<close>

definition send3 :: "byte list send_fn" where
  "send3 k fd bs = (int (length (take 3 bs)), k @ take 3 bs)"

definition recv3 :: "byte list recv_fn" where
  "recv3 k fd n = (int (length (take (min 3 n) k)), take (min 3 n) k, drop (min 3 n) k)"

lemma send3_contract: "send_contract send3 (\<lambda>k. k)"
  by (auto simp: send_contract_def send3_def min_def)

lemma recv3_contract: "recv_contract recv3 (\<lambda>k. k)"
  by (auto simp: recv_contract_def recv3_def)

text \<open>A generator that counts, within 31 bits.\<close>

definition count_random :: "nat \<Rightarrow> int \<times> nat" where
  "count_random s = (int s mod 2 ^ 31, Suc s)"

definition env_urandom :: seed_env where
  "env_urandom = \<lparr>urandom_open = True, urandom_seed = Some 7, time_xor_pid = 0\<rparr>"

lemma count_random_in_range: "random_in_range count_random"
  by (auto simp: random_in_range_def count_random_def INT32_MAX_def)

section \<open>Logging\<close>

definition env_sample :: "string \<Rightarrow> log_env" where
  "env_sample m = \<lparr>clock = 1, localtime_ok = True, strftime_written = 19, strftime_text = ''2025-01-01 00:00:00'',
     message = Some m, fopen_ok = True, fprintf_ok = True, fclose_ok = True\<rparr>"

definition io_sample :: io where
  "io_sample = \<lparr>stdout_locked = False, stdout_text = [], log_text = [], streams = 0, blocks = 0, allocs = []\<rparr>"

definition log_sample :: "string \<Rightarrow> string \<Rightarrow> log_dest_t \<Rightarrow> log_call" where
  "log_sample pfx m dest = \<lparr>call_env = env_sample m, call_prefix = pfx, call_fg = FG_RED, call_bg = BG_NONE, call_dest = dest\<rparr>"

definition machine_sample :: machine where
  "machine_sample = \<lparr>host_name = Some ''host'', os_release = None, cpuinfo = None, uname_machine = Some ''x86_64'', meminfo = None\<rparr>"

lemma machine_sample_returns: "\<exists>c s'. log_system_info machine_sample True True io_sample = Some (Returned c, s')"
proof -
  have "length ''host'' < SYS_BUFFER_SIZE" "length ''x86_64'' < SYS_BUFFER_SIZE" by (simp_all add: SYS_BUFFER_SIZE_def)
  note p = print_name_fits [OF this(1)] print_name_fits [OF this(2)]
  show ?thesis
    by (simp add: log_system_info_def machine_sample_def and_then_def get_hostname_def io_calloc_def io_sample_def p
        get_operating_system_def get_cpu_info_def get_cpu_architecture_def get_memory_info_def query_file_def Let_def split_def)
qed

end
