(* ===== verification/Spec2Isabelle.thy ===== *)
theory Spec2Isabelle
  imports Samples
begin

text \<open>
  A verification development for the C libraries and the server application of the template: data
  structures (libs/DSA), shared callbacks and comparisons (libs/Core), number conversion and random
  numbers (libs/Math), string helpers (libs/Strings), the thread pool (libs/Threading), signals
  (libs/Signals), the TCP server (libs/Networking), the server's command line
  (apps/salt_vault/server), files, log and system information (libs/IO, libs/Logging, libs/System) and
  encryption (libs/Crypto).

  \<^bold>\<open>The program.\<close>  The containers hold \<open>void *\<close> elements and are given two callbacks: one that
  releases an element (\<open>FREE_F\<close>) and one that compares two elements (\<open>CMP_F\<close>).  The graph keeps
  its nodes and the edges of each node in linked lists and searches with the stack and the queue.  The
  thread pool hands tasks to its workers through the queue (under the queue's mutex and condition
  variables).  The TCP server keeps its descriptors in a socket manager; its main thread polls them,
  turns every ready client into a job for the pool and takes it out of the array, and a worker puts
  the client back when it has run the job.  \<open>main\<close> parses the options, installs the signal handler
  and starts the server.  Every operation reports an exit code of utilities.h.  The log and the
  queries on the machine share one mutex for the output.  encryption.c wraps tweetnacl.c for
  challenges, key agreement and the encryption of chunks.

  \<^bold>\<open>Conventions.\<close>  A pointer is a number, NULL is 0.  A heap is a record with one partial map per
  kind of object, the next fresh address (addresses are never used again, so a pointer to a freed
  object is never valid), the outcomes of the coming allocations and the list of elements handed to
  \<open>free\<close> by the callbacks, in order.  An operation is a function from the state to an option:
  \<open>None\<close> is undefined behaviour (a NULL, dangling or out of bounds access, a double free of a
  node, signed overflow, a remainder by zero, reading memory that was never written, joining a thread
  twice).  A theorem that an operation gives \<open>Some\<close> states that the call is defined and returns.
  Loops whose end depends on the heap are \<open>partial_function (option)\<close>, for which \<open>None\<close> also
  covers not returning; no fuel is used anywhere.  Loops that count run on the count; the server's
  loop, which is meant to run for ever, runs on the list of answers that \<open>poll\<close> gives.
  \<open>Blocked\<close> is the outcome of a call that waits for ever when no other thread acts.
  \<open>uint32_t\<close> is \<open>32 word\<close> and \<open>size_t\<close> is \<open>64 word\<close>, both wrapping; \<open>int\<close> is an
  integer with its bounds checked by \<open>c_int\<close>.  An allocation plan lists which of the coming
  allocations fail; when it is empty all of them succeed.  Computing an address outside an array
  without using it is not counted as undefined.

  \<^bold>\<open>Theories, in the order of their imports.\<close>

  \<^item> Prelude: exit codes (Core/include/utilities.h), pointers, arrays, allocation plans,
    \<open>memmove\<close>, bounds of \<open>int\<close>, lemmas on words.  C_Strings: the functions of string.h that
    the sources call.
  \<^item> Refinement: the locale \<open>refinement\<close>, the contract of a component whose operations are
    simulated by those of an abstract data type, with the lemma that whole sequences of calls are.
    Each container is an interpretation of it.
  \<^item> Comparisons: comparisons.c, callback_types.h and default_free.c; the locale
    \<open>comparator\<close>, a comparison function that decides a linear order, with interpretations for
    \<open>int_comp\<close> and \<open>cell_comp\<close>.
  \<^item> List_Heap, Linked_List, List_Sort, List_Spec: linked_list.c.  List_Heap has the nodes, the
    list objects and the representation \<open>list_rep\<close> (a doubly linked segment \<open>dlseg\<close> between
    head and tail whose length is the size field); Linked_List the operations and what each does to
    \<open>list_rep\<close>; List_Sort the pointer merge sort and its reference on sequences,
    \<open>lmsort\<close>; List_Spec the abstract list.  List_Store: many lists in one heap.
  \<^item> Stack: stack.c, against a bounded stack.
  \<^item> Queue: queue.c, against a bounded first-in-first-out queue.  Queue_Monitor: the same file
    as a transition system of any number of threads, one step per access to the mutex, to a condition
    variable or to the shared state, with spurious wake-ups and shutdown.
  \<^item> Vector: vector.c, against a list.
  \<^item> Hash_Table: hash_table.c, against an association list that keeps duplicates.
  \<^item> Graph, Graph_Rep, Graph_Edges, Graph_Clear: adjacency_list.c.  \<open>graph_rep H g V A\<close> says that
    the graph has the nodes \<open>V\<close> and that \<open>A v\<close> is the edge list of \<open>v\<close>.
  \<^item> Worklist: search with a work list in general; the locale \<open>worklist\<close>, a discipline that takes
    some element out of the list, with the lemmas that the search ends and finds exactly the
    reachable elements.  Graph_Search: \<open>graph_dfs\<close> and \<open>graph_bfs\<close>; the locale
    \<open>graph_container\<close> extends \<open>worklist\<close> by what the traversal loop needs of its container, with
    the stack and the queue as interpretations.
  \<^item> Adjacency_Matrix: adjacency_matrix.c.
  \<^item> Number_Converter, Number_Generator, String_Operations: the files of libs/Math and libs/Strings.
  \<^item> Socket_Manager, Socket_IO: socket_manager.c and socket_io.c.  The system calls \<open>send\<close> and
    \<open>recv\<close> are parameters, constrained by the contracts \<open>send_contract\<close> and
    \<open>recv_contract\<close>.
  \<^item> Thread_Pool: thread_pool.c on top of Queue; the workers are the step relation \<open>pstep\<close>, with
    one step per queue operation (which Queue_Monitor justifies), task or test of the flag.
  \<^item> Signals: both signal handlers.  Event_Handler, Tcp_Server: event_handler.c and tcp_server.c over
    the record \<open>net\<close> of the operating system's answers.  Server_Threads: the running server as an
    interleaving of the main thread with the workers.
  \<^item> Option_Handler, Server_Main: option_handler.c with a model of \<open>getopt\<close>, and main.c.
  \<^item> File_IO: file_io.c and threadsafe_io.c; a stream is the text still to be read, and the record
    \<open>io\<close> has the output, the mutex and the numbers of open streams and blocks.  System_Info:
    system_info.c over the texts of the files it reads, with buffers as whole arrays.  Runtime_Log:
    runtime_log.c and the macros of log.h.
  \<^item> Nacl_Words, Nacl_Stream, Nacl_Auth, Nacl_Secretbox, Nacl_Field, Nacl_Curve, Nacl_Hash,
    Nacl_Edwards, Nacl_ModL, Nacl_Sign: tweetnacl.c in the order of the file, each with the reference the
    code is proved equal to (Salsa20, Poly1305 and SHA-512 from their specifications, X25519 from RFC
    7748, Ed25519 from RFC 8032).  A left shift of a negative \<open>i64\<close> is the multiplication that the
    code means, and a right shift rounds down.  In Nacl_Field every
    operation on \<open>i64\<close> is checked: \<open>None\<close> is an overflow, and the lemmas on \<open>gf_elem\<close>, which
    bound the limbs and give the value modulo \<open>2 ^ 255 - 19\<close>, show that there is none.
    \<open>u32\<close> is \<open>unsigned long\<close>, so 64 bits wide.  Encryption: encryption.c.
  \<^item> Graph_Samples, Server_Samples, Samples: concrete states on which the properties below are
    exercised.

  \<^bold>\<open>What is shown.\<close> C1, C2: the list is a list under every sequence of calls,
  sorting sorts.  C3: the stack.  C4 to C7: the queue, sequential and with threads (order, memory
  safety, progress).  C8: the vector.  C9: the hash table.  C10: parsing.  C11 to C13: the descriptor
  array and the byte transfer.  C14, C15: the graph (the round trip of an edge, searching). C16 to C18:
  the pool (every task once and in order, when it stops and when it cannot). C19 to C21: the server
  (memory safety under interleaving, no descriptor lost, and how it ends).  C22, C23: the command line. 
  C24: the program as a whole.  C25 to C28: the primitives of tweetnacl.c are the functions of their
  specifications.  C29 to C31: the box, the encryption of chunks and the session key.  C32 to C35:
  scalars, points and signatures.  C36, C37: the log.  C38 to C40: the queries. Between them stand
  further lemmas on the same functions that are not numbered: deletion frees everything, breadth first
  search, where sorting leaves a stale tail, where list removal frees twice, vector removal at the end
  of the array, lookups by prefix, the matrix, and others.

  \<^bold>\<open>Not modelled, and why.\<close> \<open>randombytes\<close>, which the repository
  declares and does not define, is a parameter, as are the system calls.  The files of the client and of
  the server application other than main.c and option_handler.c have no code, but for a greeting that
  client.c prints.  Debug output has no effect on any state of the model and is left out of the
  operations; what the options parser writes is modelled.  In the transition systems a thread's local
  variables are in its program counter, and the memory model is sequentially consistent, which the
  mutexes guarantee for the fields they protect.  In Server_Threads one iteration of
  \<open>handle_connections\<close> is one step, although the source follows \<open>fd_entry\<close>
  after it has released the mutex, and one call of \<open>poll\<close> is one step, although a worker's
  \<open>realloc\<close> may move the array while it waits: these races are outside the model.  A run is
  followed as long as the array has at most \<open>2 ^ 29\<close> entries and fewer than \<open>2 ^
  31\<close> tasks were added.  The references for X25519 and Ed25519 are the formulas of the standards;
  C33 shows the addition law, but that it is associative is not part of the development, nor, therefore,
  that every signature verifies.
\<close>

unbundle bit_operations_syntax

section \<open>The doubly linked list\<close>



text \<open>
  C2.  \<open>list_sort\<close> on a list of pointers to integers returns E_SUCCESS, keeps exactly the nodes
  the list had, links them in both directions from the new head, and orders them by the integers
  they point to.  Nothing is freed and no node of another list is touched.
\<close>

theorem list_sort_sorts:
  assumes "list_rep h lp l ns" and "l_compare_func l = Some (int_comp mem)" and "set (datas ns) \<subseteq> allocated mem"
  shows "\<exists>h' hd' tl' ss. list_sort lp h = Some (E_SUCCESS, h') \<and>
    list_objs h' lp = Some (l\<lparr>l_head := hd'\<rparr>) \<and> dlseg (nodes h') NULL hd' ss tl' NULL \<and>
    mset ss = mset ns \<and> sorted (map (\<lambda>d. the (mem d)) (datas ss)) \<and>
    frame_except (set (addrs ns)) lp h h' \<and> released h' = released h"
proof -
  have tot: "cmp_total (int_comp mem) (set (datas ns))"
    using assms(3) int_cmp.cmp_defined unfolding cmp_total_def by blast
  show ?thesis
    using list_sort_rep [OF assms(1,2) tot] int_cmp.sorted_lmsort [OF assms(3)] by fastforce
qed

theorem list_sort_sorts_witness:
  "\<exists>h' hd' tl' ss. list_sort 1 heap3 = Some (E_SUCCESS, h') \<and>
    list_objs h' 1 = Some (list3\<lparr>l_head := hd'\<rparr>) \<and> dlseg (nodes h') NULL hd' ss tl' NULL \<and>
    mset ss = mset seq3 \<and> sorted (map (\<lambda>d. the (ints d)) (datas ss)) \<and>
    frame_except (set (addrs seq3)) 1 heap3 h' \<and> released h' = released heap3"
  by (rule list_sort_sorts [OF heap3_rep list3_callbacks(2)]) (use ints_allocated in auto)

text \<open>
  The sorted list is a well-formed list object again exactly when the node that was last
  before the sort is still last: \<open>list_sort\<close> writes \<open>head\<close> and leaves \<open>tail\<close> as it
  was.
\<close>

lemma list_sort_tail_iff:
  assumes "list_rep h lp l ns" and "l_compare_func l = Some f" and "cmp_total f (set (datas ns))" and "ns \<noteq> []"
  shows "\<exists>h'. list_sort lp h = Some (E_SUCCESS, h') \<and>
    ((\<exists>l' ns'. list_rep h' lp l' ns') \<longleftrightarrow>
      fst (last (lmsort (\<lambda>d e. f d e = Some LESS_THAN) ns)) = fst (last ns))"
  using list_sort_rep [OF assms(1-3)] list_sort_tail [OF assms] by blast

text \<open>
  What that costs: sorting the list 3, 1, 2 and pushing one element at its tail leaves a list
  whose size is 4 while only three of its elements can be reached from its head.
\<close>

lemma list_sort_push_tail_loses:
  "(do { (c1, h) \<leftarrow> list_sort 1 heap3;
         (c2, h) \<leftarrow> list_push_tail 1 14 h;
         l \<leftarrow> read_list 1 h;
         Some (c1, c2, l_size l, chain_datas 10 h (l_head l)) }) =
   Some (E_SUCCESS, E_SUCCESS, 4, [12, 13, 14])"
  by code_simp

text \<open>
  \<open>list_pop_position\<close> returns the data at the position and takes its node out; for a
  position strictly inside the list it has released that data through the freeing callback before
  returning it.
\<close>

lemma list_pop_position_result:
  assumes "list_rep h lp l ns" and "heap_ok h" and "i < length ns" and "l_custom_free l = Some f"
  shows "\<exists>h'. list_pop_position lp (of_nat i) h = Some (snd (ns ! i), h') \<and>
    list_becomes h lp l (set (addrs ns)) (take i ns @ drop (Suc i) ns)
      (if 0 < i \<and> Suc i < length ns then f (snd (ns ! i)) else []) h' \<and>
    nodes h' (fst (ns ! i)) = None"
  by (rule list_pop_position_rep [OF assms])

text \<open>
  \<open>list_remove_position\<close> takes the element out, but releases the data of a position
  strictly inside the list twice, once in \<open>list_pop_position\<close> and once itself.
\<close>

lemma list_remove_position_releases:
  assumes "list_rep h lp l ns" and "heap_ok h" and "l_custom_free l = Some f" and "0 < i" and "Suc i < length ns"
  shows "\<exists>h'. list_remove_position lp (of_nat i) h = Some (E_SUCCESS, h') \<and>
    list_becomes h lp l (set (addrs ns)) (take i ns @ drop (Suc i) ns) (f (snd (ns ! i)) @ f (snd (ns ! i))) h'"
  using list_remove_position_rep [OF assms(1,2) _ assms(3), of i] assms(4,5) by simp

text \<open>
  \<open>list_remove_data\<close> removes the first element that compares equal to the argument,
  releases exactly its data, and leaves the other elements in order; when no element compares equal
  it reports failure and changes nothing.
\<close>

lemma list_remove_data_first:
  assumes "list_rep h lp l ns" and "heap_ok h" and "l_custom_free l = Some f" and "l_compare_func l = Some g"
    and "data \<noteq> NULL" and "cmp_total_on g data (set (datas ns))"
  shows "(\<forall>d \<in> set (datas ns). g data d \<noteq> Some EQUAL) \<and> list_remove_data lp data h = Some (E_FAILURE, h) \<or>
    (\<exists>xs a d ys h'. ns = xs @ (a, d) # ys \<and> g data d = Some EQUAL \<and>
       (\<forall>e \<in> set (datas xs). g data e \<noteq> Some EQUAL) \<and>
       list_remove_data lp data h = Some (E_SUCCESS, h') \<and>
       list_becomes h lp l (set (addrs ns)) (xs @ ys) (f d) h')"
  by (rule list_remove_data_rep [OF assms])

text \<open>
  \<open>list_delete\<close> ends, frees every node and the list object, releases every element once
  and in order when the list has a freeing callback, sets the caller's pointer to NULL and touches
  nothing else.
\<close>

lemma list_delete_frees_all:
  assumes "list_rep h lp l ns" and "heap_ok h"
  shows "\<exists>h'. list_delete (Some lp) h = Some (E_SUCCESS, Some NULL, h') \<and>
    list_objs h' lp = None \<and> (\<forall>a \<in> set (addrs ns). nodes h' a = None) \<and>
    released h' = released h @ releases (l_custom_free l) (datas ns) \<and>
    heap_ok h' \<and> frame_except (set (addrs ns)) lp h h'"
  by (rule list_delete_rep [OF assms])

text \<open>
  \<open>list_find_all_occurrences\<close> returns a new, well-formed list of the elements that compare
  equal to the search data, latest first, and leaves the searched list as it was.
\<close>

lemma list_find_all_result:
  assumes "list_rep h lp l ns" and "heap_ok h" and "plan h = []" and "l_compare_func l = Some f"
    and "ns \<noteq> []" and "cmp_total_on f k (set (datas ns))" and "length ns < 2 ^ 32 - 1"
  shows "\<exists>h' np l' ms. list_find_all_occurrences lp k h = Some (np, h') \<and> np \<noteq> lp \<and> list_rep h' np l' ms \<and>
    datas ms = rev (filter (\<lambda>d. f k d = Some EQUAL) (datas ns)) \<and>
    list_rep h' lp l ns \<and> set (addrs ms) \<inter> set (addrs ns) = {} \<and> released h' = released h"
  using list_find_all_rep [OF assms] heap_ok_list_lt [OF assms(2) list_repD(2) [OF assms(1)]] by blast

text \<open>
  Two lists that share no node do not interfere: pushing to one keeps the other's contents
  and object.
\<close>

lemma list_push_tail_frame:
  assumes "list_rep h lp l ns" and "list_rep h lq l2 ms" and "lp \<noteq> lq" and "set (addrs ms) \<inter> set (addrs ns) = {}"
    and "heap_ok h" and "data \<noteq> NULL" and "\<not> alloc_fails (plan h)" and "Suc (length ns) < 2 ^ 32"
  shows "\<exists>h' l'. list_push_tail lp data h = Some (E_SUCCESS, h') \<and> list_rep h' lp l' (ns @ [(brk h, data)]) \<and>
    list_rep h' lq l2 ms"
proof -
  obtain h' where h': "list_push_tail lp data h = Some (E_SUCCESS, h')"
      "list_becomes h lp l (insert (brk h) (set (addrs ns))) (ns @ [(brk h, data)]) [] h'"
    using list_push_tail_rep [OF assms(1,5-8)] by blast
  have "set (addrs ms) \<inter> insert (brk h) (set (addrs ns)) = {}"
    using assms(4) list_rep_fresh [OF assms(2,5)] by blast
  then have "list_rep h' lq l2 ms"
    using list_rep_frame [OF assms(2), of _ lp h'] h'(2) assms(3) unfolding list_becomes_def by blast
  then show ?thesis using h' unfolding list_becomes_def by blast
qed

section \<open>Comparison functions\<close>

text \<open>
  \<open>cell_comp\<close> orders allocated cells lexicographically by row and column: its verdict is
  LESS_THAN, GREATER_THAN or EQUAL according to that linear order, and a NULL argument is an error.
\<close>

lemma cell_comp_lexicographic:
  assumes "a \<in> allocated mem" and "b \<in> allocated mem"
  shows "(cell_comp mem a b = Some LESS_THAN \<longleftrightarrow> cell_key (the (mem a)) < cell_key (the (mem b))) \<and>
    (cell_comp mem a b = Some GREATER_THAN \<longleftrightarrow> cell_key (the (mem b)) < cell_key (the (mem a))) \<and>
    (cell_comp mem a b = Some EQUAL \<longleftrightarrow> the (mem a) = the (mem b)) \<and> cell_comp mem a NULL = Some ERROR"
proof -
  have "cell_comp mem a b = Some EQUAL \<longleftrightarrow> the (mem a) = the (mem b)"
    using cell_cmp.cmp_equal_iff [OF assms] by (auto simp: cell_key_def intro: cell_t.equality)
  moreover have "cell_comp mem a NULL = Some ERROR" by (simp add: cell_comp_def)
  ultimately show ?thesis
    using cell_cmp.cmp_less_iff [OF assms] cell_cmp.cmp_converse [OF assms] cell_cmp.cmp_less_iff [OF assms(2,1)] by simp
qed

text \<open>
  \<open>str_comp\<close> compares no more characters than the first string has, so it reports EQUAL
  exactly when the first string, cut to MAX_STR_LEN characters, is a prefix of the second; it is not
  symmetric.
\<close>

lemma str_comp_equal_iff_prefix:
  assumes "mem a = Some s" and "mem b = Some t" and "a \<noteq> NULL" and "b \<noteq> NULL"
  shows "str_comp mem a b = Some EQUAL \<longleftrightarrow> prefix (take MAX_STR_LEN s) t"
  using assms strncmp_prefix [of s t MAX_STR_LEN] by (simp add: str_comp_def Let_def)

section \<open>Stack\<close>

text \<open>
  C3.  Every sequence of pushes, pops, peeks and tests on a stack just made by \<open>stack_init\<close>
  is defined and returns what a bounded stack of that capacity returns: a push on a full stack fails
  and changes nothing, pops come last in first out, a pop of an empty stack gives NULL.
\<close>

theorem stack_ops_refine:
  assumes "stack_heap_ok h" and "s_plan h = []"
  shows "\<exists>s c'. stack_init cap f h = (Some s, h) \<and>
    run_model stack_step ops (s, h) = Some (fst (run_spec (stack_spec (unat cap)) ops []), c') \<and>
    stack_abs (unat cap) c' (snd (run_spec (stack_spec (unat cap)) ops []))"
proof -
  obtain s where s: "stack_init cap f h = (Some s, h)" "stack_rep h s []" "s_capacity s = cap"
    using assms(2) by (simp add: stack_init_def stack_rep_def)
  then have "stack_abs (unat cap) (s, h) []" using assms by (auto simp: stack_abs_def)
  moreover have "allowed_run (\<lambda>_ _. True) (stack_spec (unat cap)) ops []" by (rule allowed_run_all) simp
  ultimately show ?thesis using s(1) bstack.run_refines [of "unat cap" "(s, h)" "[]" ops] by blast
qed

theorem stack_ops_refine_witness:
  "\<exists>s c'. stack_init 2 None stack2_heap = (Some s, stack2_heap) \<and>
    run_model stack_step [Pop, Push 11, Push 12, Push 13, Is_full, Peek, Pop] (s, stack2_heap) =
      Some ([Data 0, Code 0, Code 0, Code (- 1), Code 0, Data 12, Data 12], c') \<and> stack_abs 2 c' [11]"
proof -
  have "run_spec (stack_spec (unat (2 :: 32 word))) [Pop, Push 11, Push 12, Push 13, Is_full, Peek, Pop] [] =
      ([Data 0, Code 0, Code 0, Code (- 1), Code 0, Data 12, Data 12], [11])"
    by (simp add: exit_codes)
  moreover have "s_plan stack2_heap = []" "unat (2 :: 32 word) = 2" by (simp_all add: stack2_heap_def)
  ultimately show ?thesis
    using stack_ops_refine [OF stack2_rep(2), of 2 None "[Pop, Push 11, Push 12, Push 13, Is_full, Peek, Pop]"]
    by (simp only: fst_conv snd_conv)
qed

text \<open>
  \<open>stack_destroy\<close> ends, releases every element once from the top down, frees every node,
  and leaves NULL in the caller's pointer.
\<close>

lemma stack_destroy_frees_all:
  assumes "stack_rep h s cs" and "stack_heap_ok h" and "s_customfree s = Some g"
  shows "\<exists>h'. stack_destroy (Some s) h = Some (E_SUCCESS, None, h') \<and>
    s_nodes h' = (s_nodes h) |` (- set (map fst cs)) \<and>
    s_released h' = s_released h @ concat (map g (rev (map snd cs)))"
  using stack_destroy_rep [OF assms] by blast

section \<open>Queue\<close>

text \<open>
  C4.  Every sequence of queue calls by one thread that does not block, on a queue just made by
  \<open>queue_init\<close>, is defined and returns what a first-in-first-out queue with that bound
  returns.
\<close>

theorem queue_ops_refine:
  assumes "queue_heap_ok h" and "q_plan h = []"
    and "allowed_run (queue_nonblocking (unat mx) shutdown) (queue_spec (unat mx)) ops []"
  shows "\<exists>q c'. queue_init True True True customfree mx h = (Some q, h) \<and>
    run_model (queue_step shutdown) ops (q, h) = Some (fst (run_spec (queue_spec (unat mx)) ops []), c') \<and>
    queue_abs (unat mx) c' (snd (run_spec (queue_spec (unat mx)) ops []))"
proof -
  obtain q where q: "queue_init True True True customfree mx h = (Some q, h)" "queue_rep h q []" "q_max_size q = mx"
    using assms(2) by (simp add: queue_init_def queue_rep_def)
  then have "queue_abs (unat mx) (q, h) []" using assms(1,2) by (auto simp: queue_abs_def)
  then show ?thesis using q(1) bqueue.run_refines [of "unat mx" "(q, h)" "[]" shutdown ops] assms(3) by blast
qed

theorem queue_ops_refine_witness:
  "\<exists>q c'. queue_init True True True None 2 queue0_heap = (Some q, queue0_heap) \<and>
    run_model (queue_step False) [Enqueue 11, Enqueue 12, Full_test, Peek_front, Dequeue] (q, queue0_heap) =
      Some ([Q_code 0, Q_code 0, Q_bool True, Q_data 11, Q_data 11], c') \<and> queue_abs 2 c' [12]"
proof -
  let ?ops = "[Enqueue 11, Enqueue 12, Full_test, Peek_front, Dequeue]"
  have u: "unat (2 :: 32 word) = 2" by simp
  have "allowed_run (queue_nonblocking (unat (2 :: 32 word)) False) (queue_spec (unat (2 :: 32 word))) ?ops []" by simp
  moreover have "run_spec (queue_spec (unat (2 :: 32 word))) ?ops [] =
      ([Q_code 0, Q_code 0, Q_bool True, Q_data 11, Q_data 11], [12])"
    by (simp add: exit_codes)
  moreover have "q_plan queue0_heap = []" by (simp add: queue0_heap_def)
  ultimately show ?thesis
    using queue_ops_refine [OF queue0_rep(2), of 2 False ?ops None] by (simp only: u fst_conv snd_conv)
qed

text \<open>
  C5.  With any number of threads enqueueing and dequeueing, in every reachable state the chain is
  well formed, the elements taken out are the oldest ones put in, in order, the rest is in the queue,
  and a bounded queue never holds more than its bound.
\<close>

theorem queue_threads_fifo:
  assumes "mreach (start q h) s" and "queue_rep h q []" and "queue_heap_ok h" and "no_wrap (q_max_size q) s"
  shows "\<exists>cs. queue_rep (m_heap s) (m_queue s) cs \<and> m_in s = m_out s @ map snd cs \<and>
    (q_max_size q \<noteq> 0 \<longrightarrow> length cs \<le> unat (q_max_size q))"
  using mreach_minv [OF assms] unfolding minv_def bounded_by_def by blast

theorem queue_threads_fifo_witness:
  "\<exists>s. mreach (start queue0 queue0_heap) s \<and> m_in s = [11] \<and>
    (\<exists>cs. queue_rep (m_heap s) (m_queue s) cs \<and> m_in s = m_out s @ map snd cs \<and>
      (q_max_size queue0 \<noteq> 0 \<longrightarrow> length cs \<le> unat (q_max_size queue0)))"
proof -
  obtain s where s: "mreach (start queue0 queue0_heap) s" "m_in s = [11]" using one_enqueued by blast
  have "no_wrap (q_max_size queue0) s" by (simp add: no_wrap_def queue0_def)
  then show ?thesis using s queue_threads_fifo [OF s(1) queue0_rep] by blast
qed

text \<open>
  C6.  No thread ever follows a dangling pointer or frees a node twice: in every reachable state
  of a bounded queue the next memory access of every thread is defined.
\<close>

theorem queue_threads_memory_safe:
  assumes "mreach (start q h) s" and "queue_rep h q []" and "queue_heap_ok h" and "q_max_size q \<noteq> 0"
  shows "\<not> faults s t"
proof -
  have "no_wrap (q_max_size q) s" using assms(4) by (simp add: no_wrap_def)
  then obtain cs where "minv (q_max_size q) s cs" using mreach_minv [OF assms(1-3)] by blast
  then show ?thesis by (rule minv_no_fault) (use assms(4) in simp)
qed

theorem queue_threads_memory_safe_witness:
  "\<exists>s. mreach (start queue0 queue0_heap) s \<and> m_in s = [11] \<and> \<not> faults s 1"
proof -
  obtain s where s: "mreach (start queue0 queue0_heap) s" "m_in s = [11]" using one_enqueued by blast
  then show ?thesis using queue_threads_memory_safe [OF s(1) queue0_rep, of 1] by (auto simp: queue0_def)
qed

text \<open>
  At most one thread is inside a critical section, and it is the one that holds the mutex.
\<close>

lemma queue_threads_mutual_exclusion:
  assumes "mreach (start q h) s" and "queue_rep h q []" and "queue_heap_ok h" and "no_wrap (q_max_size q) s"
    and "critical (m_pc s t)" and "critical (m_pc s u)"
  shows "t = u \<and> m_lock s = Some t"
  using mreach_minv [OF assms(1-4)] assms(5,6) unfolding minv_def lock_ok_def by auto



text \<open>
  \<open>queue_destroy\<close> ends whether or not a shutdown was signalled, releases every element in
  queue order, frees every node and leaves NULL in the caller's pointer.
\<close>

lemma queue_destroy_frees_all:
  assumes "queue_rep h q cs" and "queue_heap_ok h"
  shows "\<exists>h'. queue_destroy shutdown (Some q) h = Some (Returned (), None, h') \<and>
    q_nodes h' = (q_nodes h) |` (- fst ` set cs) \<and>
    q_released h' = q_released h @ concat (map (q_customfree q) (map snd cs))"
  by (rule queue_destroy_rep [OF assms])

section \<open>Vector\<close>

text \<open>
  C8.  Every sequence of in-range inserts, appends, pops, reads and writes on a vector just made by
  \<open>vector_new\<close> with a positive capacity is defined, whatever growing it needs, and returns what
  the same operations on a mathematical list return.
\<close>

theorem vector_ops_refine:
  assumes "0 < cap" and "cap \<le> INT32_MAX" and "v_plan e = []" and "allowed_run vec_ok vec_spec ops []"
  shows "\<exists>v c'. vector_new (Some f) (Some g) cap e = (Some v, e) \<and>
    run_model vec_step ops (v, e) = Some (fst (run_spec vec_spec ops []), c') \<and>
    vec_abs c' (snd (run_spec vec_spec ops []))"
proof -
  obtain v where v: "vector_new (Some f) (Some g) cap e = (Some v, e)" "vec_abs (v, e) []"
    using assms(1-3) by (simp add: vector_new_def vec_abs_def vector_rep_def)
  then show ?thesis using vec.run_refines [OF v(2) assms(4)] by blast
qed

theorem vector_ops_refine_witness:
  "\<exists>v c'. vector_new (Some libc_free) (Some (int_comp ints)) 1 vec_env0 = (Some v, vec_env0) \<and>
    run_model vec_step [Append 11, Append 12, Insert_at 13 1, Get_at 1, Set_at 14 0, Pop_back, Size_of] (v, vec_env0) =
      Some ([V_code 0, V_code 0, V_code 0, V_data 13, V_code 0, V_data 12, V_size 2], c') \<and> vec_abs c' [14, 13]"
proof -
  let ?ops = "[Append 11, Append 12, Insert_at 13 1, Get_at 1, Set_at 14 0, Pop_back, Size_of]"
  have "allowed_run vec_ok vec_spec ?ops []" by simp
  moreover have "run_spec vec_spec ?ops [] =
      ([V_code 0, V_code 0, V_code 0, V_data 13, V_code 0, V_data 12, V_size 2], [14, 13])"
    by (simp add: exit_codes)
  moreover have "v_plan vec_env0 = []" by (simp add: vec_env0_def)
  ultimately show ?thesis
    using vector_ops_refine [of 1 vec_env0 ?ops libc_free "int_comp ints"]
    by (simp only: fst_conv snd_conv) (simp only: INT32_MAX_def; simp)
qed

text \<open>
  \<open>vector_remove\<close> of an element of a vector that is not full takes exactly that element
  out, keeps the order of the others and releases the element once.
\<close>

lemma vector_remove_result:
  assumes "vector_rep v (xs @ d # ys)" and "v_size v < v_capacity v"
  shows "\<exists>v'. vector_remove (Some v) (int (length xs)) e =
      Some (E_SUCCESS, Some v', e\<lparr>v_released := v_released e @ v_custom_free v d\<rparr>) \<and> vector_rep v' (xs @ ys)"
  using vector_remove_rep [OF assms] by blast

text \<open>
  On a full vector every \<open>vector_remove\<close> within its own bound check is undefined: the
  left shift reads the slot behind the array (or, at the index after the last element, the element
  read itself is behind the array).
\<close>

lemma vector_remove_full_undefined:
  assumes "vector_rep v ds" and "v_size v = v_capacity v" and "i \<le> length ds"
  shows "vector_remove (Some v) (int i) e = None"
  by (rule vector_remove_full [OF assms])

text \<open>
  The bound check accepts the index after the last element: then \<open>vector_remove\<close> releases
  whatever pointer is left in the slot behind the last element, and drops the last element without
  releasing it.
\<close>

lemma vector_remove_past_end:
  assumes "vector_rep v (ds @ [d])" and "elem v (v_size v) = Some x"
  shows "\<exists>v'. vector_remove (Some v) (v_size v) e =
      Some (E_SUCCESS, Some v', e\<lparr>v_released := v_released e @ v_custom_free v x\<rparr>) \<and> vector_rep v' ds"
  using vector_remove_at_size [OF assms] by blast

text \<open>
  \<open>vector_find_all_occurrences\<close> returns a new vector with the elements that compare equal,
  in order, or NULL when there are none, and leaves the searched vector and all elements alone.
\<close>

lemma vector_find_all_result:
  assumes "vector_rep v ds" and "k \<noteq> NULL" and "ds \<noteq> []" and "\<forall>y \<in> set ds. v_compare_func v k y \<noteq> None" and "v_plan e = []"
  shows "\<exists>r. vector_find_all_occurrences (Some v) k e = Some (r, Some v, e) \<and>
    (let ms = filter (\<lambda>y. v_compare_func v k y = Some EQUAL) ds
     in if ms = [] then r = None else \<exists>r'. r = Some r' \<and> vector_rep r' ms)"
  using vector_find_all_rep [OF assms(1-3) _ assms(5)] assms(4) by (fastforce simp: Let_def split: if_splits)

section \<open>Hash table\<close>

text \<open>
  The 32-bit hash never wraps: for every key it is the value of the key's characters as digits
  in base 256, modulo 65521 and modulo the table size, and it is a valid bucket index.
\<close>

lemma hash_is_polynomial:
  assumes "n \<noteq> 0"
  shows "\<exists>i. hash n key = Some i \<and> unat i = poly_value key mod 65521 mod unat n \<and> unat i < unat n"
  using hash_value [OF assms, of key] by (auto simp: hidx_def)

text \<open>
  C9.  For keys of at most MAX_LENGTH characters, every sequence of adds, lookups and removals on a
  table just made by \<open>hash_table_init\<close> is defined and behaves as an association list that keeps
  several entries of a key: a lookup gives the oldest, a removal deletes the oldest.
\<close>

theorem hash_table_ops_refine:
  assumes "n \<noteq> 0" and "hash_heap_ok h" and "h_plan h = []" and "allowed_run multimap_ok multimap_spec ops []"
  shows "\<exists>t c'. hash_table_init True n customfree h = (Some t, h) \<and>
    run_model table_step ops (t, h) = Some (fst (run_spec multimap_spec ops []), c') \<and>
    table_abs c' (snd (run_spec multimap_spec ops []))"
proof -
  obtain t where t: "hash_table_init True n customfree h = (Some t, h)" "table_abs (t, h) []"
    using assms(1-3) by (simp add: hash_table_init_def table_abs_def table_rep_def bucket_def heap_unchanged)
  then show ?thesis using htable.run_refines [OF t(2) assms(4)] by blast
qed

theorem hash_table_ops_refine_witness:
  "\<exists>t c'. hash_table_init True 2 None table1_heap = (Some t, table1_heap) \<and>
    run_model table_step [Add ''a'' 11, Add ''a'' 12, Add ''b'' 13, Lookup ''a'', Remove ''a'', Lookup ''a'', Remove ''x''] (t, table1_heap) =
      Some ([M_code 0, M_code 0, M_code 0, M_data 11, M_code 0, M_data 12, M_code (- 1)], c') \<and>
    table_abs c' [(''a'', 12), (''b'', 13)]"
proof -
  let ?ops = "[Add ''a'' 11, Add ''a'' 12, Add ''b'' 13, Lookup ''a'', Remove ''a'', Lookup ''a'', Remove ''x'']"
  have allowed: "allowed_run multimap_ok multimap_spec ?ops []" by (simp add: MAX_LENGTH_def)
  have spec: "run_spec multimap_spec ?ops [] =
      ([M_code 0, M_code 0, M_code 0, M_data 11, M_code 0, M_data 12, M_code (- 1)], [(''a'', 12), (''b'', 13)])"
    by (simp add: exit_codes)
  have plan: "h_plan table1_heap = []" and two: "(2 :: 32 word) \<noteq> 0" by (simp_all add: table1_heap_def)
  show ?thesis
    using hash_table_ops_refine [OF two table1_rep(2) plan allowed, of None] by (simp only: spec fst_conv snd_conv)
qed

text \<open>
  In general a lookup returns the oldest entry in the key's bucket whose first MAX_LENGTH
  characters agree with the key's: two long keys that share a bucket and their first 50 characters
  are one key to the table.
\<close>

lemma hash_table_lookup_by_prefix:
  assumes "table_rep h t es"
  shows "hash_table_lookup (Some t) (Some key) h =
    Some (case find (\<lambda>(a, k, d). hidx (ht_size t) k = hidx (ht_size t) key \<and> take MAX_LENGTH k = take MAX_LENGTH key) es
          of None \<Rightarrow> NULL | Some (a, k, d) \<Rightarrow> d)"
proof -
  have "(\<lambda>(a, k, d). hidx (ht_size t) k = hidx (ht_size t) key \<and> take MAX_LENGTH k = take MAX_LENGTH key) = key_match (ht_size t) key"
    by (auto simp: key_match_def)
  then show ?thesis using hash_table_lookup_rep [OF assms, of key] by (simp split: option.splits prod.splits)
qed

text \<open>
  When no memory is left for the node, \<open>hash_table_add\<close> reports E_SUCCESS although
  nothing was added.
\<close>

lemma hash_table_add_failure_unreported:
  assumes "table_rep h t es" and "data \<noteq> NULL" and "alloc_fails (h_plan h)"
  shows "\<exists>h'. hash_table_add (Some t) data (Some key) h = Some (E_SUCCESS, Some t, h') \<and> h_nodes h' = h_nodes h \<and>
    table_rep h' t es"
  using hash_table_add_no_memory [OF assms] assms(1) by (auto simp: table_rep_def)

text \<open>
  \<open>hash_table_list\<close> returns every stored key once, in some order, when there are at most
  as many entries as buckets; with more entries it writes behind its result buffer.
\<close>

lemma hash_table_list_result:
  assumes "table_rep h t es" and "h_plan h = []"
  shows "(length es \<le> unat (ht_size t) \<longrightarrow>
      (\<exists>ks. hash_table_list (Some t) True h = Some (E_SUCCESS, Some ks, h) \<and>
         mset ks = mset (map (\<lambda>(a, k, d). Some (take MAX_KEY_SIZE k)) es))) \<and>
    (unat (ht_size t) < length es \<longrightarrow> hash_table_list (Some t) True h = None)"
proof -
  have nz: "ht_size t \<noteq> 0" using assms(1) by (simp add: table_rep_def)
  have "mset (kept (\<lambda>k. True) (concat (chains (ht_size t) es))) =
      image_mset (\<lambda>e. Some (take MAX_KEY_SIZE (e_key e))) (mset (concat (chains (ht_size t) es)))"
    by (simp add: kept_def mset_map multiset.map_comp comp_def)
  then have "mset (kept (\<lambda>k. True) (concat (chains (ht_size t) es))) = mset (map (\<lambda>(a, k, d). Some (take MAX_KEY_SIZE k)) es)"
    using mset_chains [OF nz, of es] by (simp add: mset_map case_prod_beta')
  then show ?thesis using hash_table_list_rep [OF assms] by auto
qed

text \<open>
  \<open>hash_table_destroy\<close> ends, frees every node of the table, releases the data of every
  entry exactly once, and leaves NULL in the caller's pointer.
\<close>

lemma hash_table_destroy_frees_all:
  assumes "table_rep h t es" and "hash_heap_ok h" and "ht_customfree t = Some g"
  shows "\<exists>h'. hash_table_destroy (Some t) h = Some (E_SUCCESS, None, h') \<and>
    h_nodes h' = h_nodes h |` (- fst ` set es) \<and>
    mset (h_released h') = mset (h_released h) + mset (concat (map (\<lambda>(a, k, d). g d) es))"
proof -
  have nz: "ht_size t \<noteq> 0" using assms(1) by (simp add: table_rep_def)
  have "mset (concat (map (\<lambda>e. g (e_data e)) (concat (chains (ht_size t) es)))) = mset (concat (map (\<lambda>e. g (e_data e)) es))"
    using mset_chains [OF nz, of es] by (simp add: mset_concat mset_map flip: sum_mset_sum_list)
  then show ?thesis using hash_table_destroy_rep [OF assms] by (auto simp: case_prod_beta')
qed

section \<open>Numbers and strings\<close>

text \<open>
  C10.  \<open>str_to_int32\<close> succeeds exactly on white space, an optional sign and digits up to the
  end of the string that denote a value of 32 bits, and stores that value; on every other string it
  reports E_FAILURE and leaves the output alone.
\<close>

theorem str_to_int32_parses:
  assumes "CHR 0x00 \<notin> set s"
  shows "(\<forall>v. str_to_int32 (Some s) (Some old) = (E_SUCCESS, Some v) \<longleftrightarrow>
      (\<exists>neg m. denotes s neg m \<and> v = signed_value neg m \<and> INT32_MIN \<le> v \<and> v \<le> INT32_MAX)) \<and>
    (fst (str_to_int32 (Some s) (Some old)) \<noteq> E_SUCCESS \<longrightarrow> str_to_int32 (Some s) (Some old) = (E_FAILURE, Some old))"
  using str_to_int32_iff [OF assms] str_to_int32_fail by blast

theorem str_to_int32_parses_witness: "str_to_int32 (Some '' -2147483648'') (Some 0) = (E_SUCCESS, Some (- 2147483648))"
proof -
  have d: "denotes '' -2147483648'' True 2147483648"
    by (simp add: scan_denotes scan_integer_def c_isspace_def c_isdigit_def digits_value_def)
  have "\<exists>neg m. denotes '' -2147483648'' neg m \<and> - 2147483648 = signed_value neg m \<and>
      INT32_MIN \<le> - 2147483648 \<and> - 2147483648 \<le> INT32_MAX"
    by (intro exI conjI, rule d) (simp_all add: signed_value_def limits)
  then show ?thesis using str_to_int32_parses [of "'' -2147483648''" 0] by simp
qed

text \<open>
  \<open>str_to_uint32\<close> succeeds exactly on the decimal numerals whose value as an
  \<open>unsigned long\<close> fits 32 bits.  A minus sign negates modulo \<open>2 ^ 64\<close>, so the numerals
  from \<open>-18446744073709551615\<close> on that wrap to a small value are accepted too.
\<close>

lemma str_to_uint32_parses:
  assumes "CHR 0x00 \<notin> set s"
  shows "(\<forall>w. str_to_uint32 (Some s) (Some old) = (E_SUCCESS, Some w) \<longleftrightarrow>
      (\<exists>neg m. denotes s neg m \<and> m \<le> ULONG_MAX \<and> ulong_value neg m \<le> UINT32_MAX \<and> w = of_nat (ulong_value neg m))) \<and>
    (fst (str_to_uint32 (Some s) (Some old)) \<noteq> E_SUCCESS \<longrightarrow> str_to_uint32 (Some s) (Some old) = (E_FAILURE, Some old))"
  using str_to_uint32_iff [OF assms] str_to_uint_fail(1) by blast

text \<open>
  Printing a 32-bit number with \<open>uint32_to_str\<close> never truncates it, and
  \<open>str_to_uint32\<close> reads it back.
\<close>

lemma uint32_print_parse:
  "\<exists>s. uint32_to_str True True w (Some old) = (E_SUCCESS, Some (Some s)) \<and>
    str_to_uint32 (Some s) (Some x) = (E_SUCCESS, Some w)"
  using uint32_to_str_exact str_to_uint32_show by blast

text \<open>
  \<open>random_number\<close> returns a value within its bounds whenever they are ordered and fewer
  than \<open>2 ^ 31\<close> numbers apart, whatever the generator yields; with a wider range the width
  itself overflows and the call is undefined.
\<close>

lemma random_number_bounds:
  assumes "random_in_range random" and "INT32_MIN \<le> lo" and "lo \<le> hi" and "hi \<le> INT32_MAX"
  shows "(hi - lo < INT32_MAX \<longrightarrow>
      (\<exists>v g'. random_number srandom random env lo hi (Some old) g = Some (E_SUCCESS, Some v, g') \<and> lo \<le> v \<and> v \<le> hi \<and> is_seed_set g')) \<and>
    (INT32_MAX \<le> hi - lo \<longrightarrow> random_number srandom random env lo hi (Some old) g = None)"
  using random_number_value [OF assms] random_number_in_bounds [OF assms(3)] random_number_overflow [OF assms(1,2,4)]
  by auto

text \<open>
  \<open>copy_string\<close> copies the whole string when it fits the limit; a longer one it cuts at
  the limit when truncation is allowed and otherwise refuses, leaving the output alone.
\<close>

lemma copy_string_copies:
  assumes "character_limit \<noteq> - 1" and "int (length s) \<le> INT32_MAX"
  shows "copy_string True (Some s) (Some old) character_limit allow =
    (if length s \<le> unat character_limit then (E_SUCCESS, Some (Terminated s))
     else if allow then (E_SUCCESS, Some (Terminated (take (unat character_limit) s)))
     else (E_FAILURE, Some old))"
  using copy_string_result [OF assms] by simp

section \<open>Networking\<close>



text \<open>
  \<open>sock_fd_remove\<close> with an invalid index reports E_FAILURE but keeps the mutex locked:
  every later addition or removal on the manager blocks.
\<close>

lemma sock_fd_remove_invalid_deadlocks:
  assumes "mgr_rep m fds" and "i < 0 \<or> int (length fds) \<le> i"
  shows "\<exists>m'. sock_fd_remove (Some m) i = Some (Returned E_FAILURE, Some m') \<and>
    (\<forall>f e. sock_fd_add (Some m') f e = Some (Blocked, Some m', e)) \<and>
    (\<forall>j. sock_fd_remove (Some m') j = Some (Blocked, Some m'))"
  using sock_fd_remove_invalid [OF assms] locked_blocks [of "m\<lparr>fd_mutex_locked := True\<rparr>"] by auto

text \<open>
  C12.  \<open>send_all_data\<close> always returns, whatever short counts the kernel gives: what the peer is
  sent is a prefix of the buffer, and it is all of the requested bytes when the call succeeds.
\<close>

theorem send_all_data_delivers:
  assumes "send_contract send sent" and "n \<noteq> 0" and "unat n \<le> length buf" and "MIN_SOCKET \<le> fd"
  shows "\<exists>rc k' m. send_all_data send fd (Some buf) n k = Some (rc, k') \<and> sent k' = sent k @ take m buf \<and>
    m \<le> unat n \<and> (rc = E_SUCCESS \<and> m = unat n \<or> rc = E_FAILURE)"
  by (rule send_all_data_result [OF assms])

theorem send_all_data_delivers_witness:
  "\<exists>rc k' m. send_all_data send3 4 (Some [1, 2, 3, 4]) 4 [] = Some (rc, k') \<and> k' = take m [1, 2, 3, 4] \<and>
    m \<le> 4 \<and> (rc = E_SUCCESS \<and> m = 4 \<or> rc = E_FAILURE)"
  using send_all_data_delivers [OF send3_contract, of 4 "[1, 2, 3, 4]" 4 "[]"] by (simp add: MIN_SOCKET_def)

text \<open>
  C13.  What \<open>send_all_data\<close> sends, \<open>recv_all_data\<close> of the same number of bytes on the other
  side of the stream puts at the start of its buffer, whatever sizes the kernel cuts the transfers
  into.
\<close>

theorem send_recv_roundtrip:
  assumes "send_contract send sent" and "recv_contract recv incoming"
    and "unat n \<le> length buf" and "unat n \<le> length dst"
    and "sent k = []" and "incoming k2 = sent k1"
    and "send_all_data send fd (Some buf) n k = Some (E_SUCCESS, k1)"
    and "recv_all_data recv fd2 (Some dst) n k2 = Some (E_SUCCESS, out, k3)"
  shows "out = Some (take (unat n) buf @ drop (unat n) dst)"
proof -
  have n: "n \<noteq> 0" "MIN_SOCKET \<le> fd" "MIN_SOCKET \<le> fd2"
    using assms(7,8) by (auto simp: send_all_data_def recv_all_data_def exit_codes split: if_splits)
  have s: "sent k1 = take (unat n) buf"
    using send_all_data_result [OF assms(1) n(1) assms(3) n(2), of k] assms(5,7) by (auto simp: exit_codes)
  obtain bs where bs: "out = Some (bs @ drop (length bs) dst)" "incoming k2 = bs @ incoming k3" "length bs = unat n"
    using recv_all_data_result [OF assms(2) n(1) assms(4) n(3), of k2] assms(8) by (auto simp: exit_codes)
  have all: "take (unat n) buf = bs @ incoming k3" using s bs(2) assms(6) by simp
  from arg_cong [OF this, of length] have "incoming k3 = []" using bs(3) assms(3) by simp
  with all bs(1,3) show ?thesis by simp
qed

theorem send_recv_roundtrip_witness:
  "\<exists>k1 out k3. send_all_data send3 4 (Some [1, 2, 3, 4]) 4 [] = Some (E_SUCCESS, k1) \<and>
    recv_all_data recv3 5 (Some [0, 0, 0, 0, 9]) 4 k1 = Some (E_SUCCESS, out, k3) \<and> out = Some [1, 2, 3, 4, 9]"
proof -
  have s: "send_all_data send3 4 (Some [1, 2, 3, 4]) 4 [] = Some (E_SUCCESS, [1, 2, 3, 4])"
    by (simp add: send_all_data_def send_loop.simps calculate_chunk_def send3_def MIN_SOCKET_def MAX_BYTES_def exit_codes)
  have r: "recv_all_data recv3 5 (Some [0, 0, 0, 0, 9]) 4 [1, 2, 3, 4] = Some (E_SUCCESS, Some [1, 2, 3, 4, 9], [])"
    by (simp add: recv_all_data_def recv_loop.simps calculate_chunk_def recv3_def store_def MIN_SOCKET_def MAX_BYTES_def exit_codes)
  show ?thesis
    using send_recv_roundtrip [OF send3_contract recv3_contract _ _ _ _ s r] s r by auto
qed

section \<open>The graph\<close>

text \<open>
  \<open>graph_add_node\<close> adds one node with the given data and no edges to a well-formed graph; the
  other nodes keep their data and their edges, and the graph stays well formed.
\<close>

lemma graph_add_node_extends:
  assumes "graph_rep H g V A" and "data \<noteq> NULL" and "Suc (length V) < 2 ^ 32"
  shows "\<exists>v H'. graph_add_node (Some g) data H = Some (E_SUCCESS, Some (g\<lparr>gr_node_count := gr_node_count g + 1\<rparr>), H') \<and>
    graph_rep H' (g\<lparr>gr_node_count := gr_node_count g + 1\<rparr>) (v # V) (A(v := [])) \<and>
    v \<notin> set V \<and> data_of H' v = data \<and> (\<forall>w \<in> set V. data_of H' w = data_of H w) \<and> g_edges H' = g_edges H"
  by (rule graph_add_node_rep [OF assms])

text \<open>
  \<open>graph_add_edge\<close> between the nodes found for two data pointers makes one new edge with the
  given ends, weight and direction, puts it first into the edge list of the first node, and into that
  of the second node too when it is bidirectional; everything else stays.
\<close>

lemma graph_add_edge_links:
  assumes "graph_rep H g V A" and "compares (gr_custom_compare g) same" and "data_1 \<noteq> NULL" and "data_2 \<noteq> NULL"
    and "lookup_node H same V data_1 = v1" and "v1 \<noteq> NULL" and "lookup_node H same V data_2 = v2" and "v2 \<noteq> NULL"
    and "Suc (Suc (length (A v1))) < 2 ^ 32" and "Suc (length (A v2)) < 2 ^ 32"
  shows "\<exists>e H'. graph_add_edge (Some g) data_1 data_2 w bi H = Some (E_SUCCESS, H') \<and>
    graph_rep H' g V (link_edge A v1 v2 bi e) \<and> e \<noteq> NULL \<and> g_edges H e = None \<and>
    g_edges H' = (g_edges H)(e \<mapsto> \<lparr>ed_node_1 = v1, ed_node_2 = v2, ed_weight = w, ed_is_directed = (\<not> bi)\<rparr>) \<and>
    data_of H' = data_of H"
  by (rule graph_add_edge_rep [OF assms])

text \<open>
  C14.  Removing an edge just added gives the graph back: the same edge lists, the same edges, the
  new edge freed.
\<close>

theorem graph_edge_roundtrip:
  assumes "graph_rep H g V A" and "compares (gr_custom_compare g) same" and "data_1 \<noteq> NULL" and "data_2 \<noteq> NULL"
    and "lookup_node H same V data_1 = v1" and "v1 \<noteq> NULL" and "lookup_node H same V data_2 = v2" and "v2 \<noteq> NULL"
    and "Suc (Suc (length (A v1))) < 2 ^ 32" and "Suc (length (A v2)) < 2 ^ 32"
  shows "\<exists>H1 H2. graph_add_edge (Some g) data_1 data_2 w bi H = Some (E_SUCCESS, H1) \<and>
    graph_remove_edge (Some g) data_1 data_2 H1 = Some (E_SUCCESS, H2) \<and>
    graph_rep H2 g V A \<and> g_edges H2 = g_edges H \<and> data_of H2 = data_of H"
  by (rule edge_roundtrip [OF assms])

theorem graph_edge_roundtrip_witness:
  "\<exists>H1 H2. graph_add_edge (Some graph3) 103 101 9 True gheap3 = Some (E_SUCCESS, H1) \<and>
    graph_remove_edge (Some graph3) 103 101 H1 = Some (E_SUCCESS, H2) \<and>
    graph_rep H2 graph3 nodes3 adj3 \<and> g_edges H2 = g_edges gheap3 \<and> data_of H2 = data_of gheap3"
  by (rule graph_edge_roundtrip [OF graph3_rep graph3_compares _ _ graph3_lookup(3) _ graph3_lookup(1)]) (simp_all add: adj3_def)

text \<open>
  \<open>graph_remove_edge\<close> between two nodes that no edge joins reports E_SUCCESS and removes
  another edge: \<open>graph_find_edge\<close> returns the last edge it looked at when it finds none.
\<close>

lemma graph_remove_edge_takes_another:
  assumes "graph_rep H g V A" and "compares (gr_custom_compare g) same" and "data_1 \<noteq> NULL" and "data_2 \<noteq> NULL"
    and "lookup_node H same V data_1 = v1" and "v1 \<noteq> NULL" and "lookup_node H same V data_2 = v2" and "v2 \<noteq> NULL"
    and "\<forall>e \<in> set (A v1). \<not> joins (the (g_edges H e)) v1 v2"
    and "A v1 \<noteq> []" and "g_edges H (last (A v1)) = Some ed" and "ed_is_directed ed"
    and "first_equal (g_edges H) (last (A v1)) (A v1)"
  shows "\<exists>H'. graph_remove_edge (Some g) data_1 data_2 H = Some (E_SUCCESS, H') \<and>
    g_edges H' = (g_edges H)(last (A v1) := None) \<and> ed_node_2 ed \<noteq> v2"
  by (rule remove_wrong_edge [OF assms])

text \<open>
  C15.  \<open>graph_dfs\<close> from a node of a graph of at most 2000 nodes (the bound of its stack) ends with
  E_SUCCESS, calls the action once on the data of every node that can be reached along the edges from
  their first to their second end and on nothing else, and leaves the graph as it was.
\<close>

theorem graph_dfs_visits_reachable:
  assumes "graph_rep H g V A" and "compares (gr_custom_compare g) same" and "x \<noteq> NULL"
    and "lookup_node H same V x = s" and "s \<noteq> NULL" and "search_ready H" and "length V \<le> 2000"
  shows "\<exists>H' xs. graph_dfs (Some g) x False H = Some (E_SUCCESS, H') \<and> graph_rep H' g V A \<and> keeps H H' \<and>
    g_acted H' = g_acted H @ map (data_of H) xs \<and> distinct xs \<and> set xs = reachable (neighbors (g_edges H) A) s"
  by (rule graph_dfs_rep [OF assms])

theorem graph_dfs_visits_reachable_witness:
  "\<exists>H' xs. graph_dfs (Some graph3) 101 False gheap3 = Some (E_SUCCESS, H') \<and> graph_rep H' graph3 nodes3 adj3 \<and> keeps gheap3 H' \<and>
    g_acted H' = g_acted gheap3 @ map (data_of gheap3) xs \<and> distinct xs \<and>
    set xs = reachable (neighbors (g_edges gheap3) adj3) 1"
  by (rule graph_dfs_visits_reachable [OF graph3_rep graph3_compares _ graph3_lookup(1) _ graph3_ready]) simp_all

text \<open>
  \<open>graph_bfs\<close> does the same for a graph of any size.
\<close>

lemma graph_bfs_visits_reachable:
  assumes "graph_rep H g V A" and "compares (gr_custom_compare g) same" and "x \<noteq> NULL"
    and "lookup_node H same V x = s" and "s \<noteq> NULL" and "search_ready H"
  shows "\<exists>H' xs. graph_bfs True sh (Some g) x False H = Some (E_SUCCESS, H') \<and> graph_rep H' g V A \<and> keeps H H' \<and>
    g_acted H' = g_acted H @ map (data_of H) xs \<and> distinct xs \<and> set xs = reachable (neighbors (g_edges H) A) s"
  by (rule graph_bfs_rep [OF assms])

text \<open>
  \<open>graph_destroy\<close>, with a callback that releases nothing when it is called on a node, ends, frees
  every node, passes the data of every node to the callback once, and frees none of the edges.
\<close>

lemma graph_destroy_frees_nodes:
  assumes "graph_rep H g V A" and "\<forall>v \<in> set V. gr_custom_free g v = []"
  shows "\<exists>H'. graph_destroy (Some g) H = Some (E_SUCCESS, None, H') \<and>
    g_nodes H' = g_nodes H |` (- set V) \<and> g_edges H' = g_edges H \<and>
    g_released H' = g_released H @ concat (map (\<lambda>v. gr_custom_free g (data_of H v)) V)"
  by (rule graph_destroy_rep [OF assms])

text \<open>
  \<open>matrix_init\<close>, when its allocations succeed, makes a complete matrix: one row of weights 0
  per node, every row an object of its own, and as many empty nodes.
\<close>

lemma matrix_init_complete:
  assumes "0 < m_brk h" and "m_plan h = [False, False] @ replicate (unat num_nodes) False @ [False]"
  shows "\<exists>g h'. matrix_init num_nodes is_directed (Some cmp) (Some fr) h = Some (Some g, h') \<and>
    matrix_ok g h' \<and> m_num_nodes g = num_nodes \<and> m_is_directed g = is_directed \<and>
    m_nodes g = Some (replicate (unat num_nodes) zero_mnode) \<and>
    (\<forall>r \<in> set (the (m_edges g)). m_rows h' r = Some (replicate (unat num_nodes) 0)) \<and>
    (\<forall>p < m_brk h. m_rows h' p = m_rows h p) \<and> m_released h' = m_released h"
  by (rule matrix_init_ok [OF refl refl assms])

section \<open>The thread pool\<close>

text \<open>
  C16.  In every state a pool gets to, with tasks added and run by any number of threads in any order:
  the tasks added are those taken followed by those in the queue, so they are taken in the order in
  which they were added; a task that was taken is either with exactly one worker or done, and done
  once; exactly the tasks not done are allocated; the functions called so far are those of the tasks
  done, each with its argument and followed by the release of the argument; and no worker is about to
  follow a dangling pointer.
\<close>

theorem pool_runs_each_task_once:
  assumes "pool_run n s"
  shows "\<exists>Q. queue_part s (map fst Q) \<and> p_taken s @ Q = p_added s \<and>
    in_hands (p_pc s) (fst ` (set (p_taken s) - set (p_done s))) \<and>
    set (p_done s) \<subseteq> set (p_taken s) \<and> distinct (p_done s) \<and>
    p_tasks s = map_of (filter (\<lambda>x. x \<notin> set (p_done s)) (p_added s)) \<and>
    p_calls s = concat (map (calls_of \<circ> snd) (p_done s)) \<and> (\<forall>t. \<not> pfaults s t)"
proof -
  obtain Q where Q: "pinv s Q" using assms by (rule pool_runE)
  then have "ledger s Q" "queue_part s (map fst Q)" by (simp_all add: pinv_def)
  then show ?thesis using ledgerD pinv_no_fault [OF Q] by blast
qed

theorem pool_runs_each_task_once_witness:
  "\<exists>s Q. thread_pool_add_task 7 8 9 pool2 = Some (Returned E_SUCCESS, s) \<and> queue_part s (map fst Q) \<and>
    p_taken s @ Q = [(1, pool_task)] \<and> p_calls s = concat (map (calls_of \<circ> snd) (p_done s)) \<and> \<not> pfaults s 0"
proof -
  obtain s where s: "thread_pool_add_task 7 8 9 pool2 = Some (Returned E_SUCCESS, s)" "p_added s = [(1, pool_task)]"
    using pool2_add by blast
  have "pool_run 2 s" by (rule pool_run_step [OF pool2_run pstep.client [OF s(1)]]) (simp add: s(2))
  from pool_runs_each_task_once [OF this] show ?thesis using s by metis
qed

text \<open>
  C17.  While the shutdown flag is not set, \<open>thread_pool_shutdown\<close> and \<open>thread_pool_destroy\<close> do
  not return: no worker ends, and they wait for the first one.
\<close>

theorem pool_shutdown_needs_signal:
  assumes "pool_run n s" and "\<not> p_shutdown s"
  shows "(\<exists>s'. thread_pool_shutdown s = Some (Blocked, s')) \<and> (\<exists>s'. thread_pool_destroy s = Some (Blocked, s'))"
  by (rule pool_waits [OF assms])

theorem pool_shutdown_needs_signal_witness:
  "(\<exists>s'. thread_pool_shutdown pool2 = Some (Blocked, s')) \<and> (\<exists>s'. thread_pool_destroy pool2 = Some (Blocked, s'))"
  by (rule pool_shutdown_needs_signal [OF pool2_run]) (simp add: pool2_def pool0_def)



text \<open>
  \<open>thread_pool_destroy\<close> after a \<open>thread_pool_shutdown\<close> that returned is undefined: it joins the
  same threads a second time.
\<close>

lemma pool_destroy_after_shutdown_undefined:
  assumes "pool_run n s" and "thread_pool_shutdown s = Some (Returned E_SUCCESS, s')"
  shows "thread_pool_destroy s' = None"
  by (rule pool_runE [OF assms(1)]) (rule shutdown_then_destroy [OF _ _ assms(2)])

section \<open>The server\<close>





text \<open>
  C21.  The first client that connects ends the server loop: \<open>register_client\<close> takes the number of
  characters \<open>snprintf\<close> wrote for an error code.  The client's descriptor has been closed but is still
  in the array, so \<open>close_all_sockets\<close> closes it a second time.
\<close>

theorem first_client_ends_server:
  assumes "sv_sock_mgr s = Some m" and "mgr_rep m [sv_fd s]" and "sm_can_grow m (sv_env s)" and "0 \<le> sv_fd s"
    and "sv_accepts s = (fd, addr) # rest" and "fd \<noteq> - 1"
    and "set_fd_non_blocking (n_getfl net fd) (n_setfl net fd) = E_SUCCESS"
    and "events (sv_fd s) = POLLIN" and "others 0 s = s"
  shows "\<exists>s' mgr e. run_server_loop net others (Poll_events events # answers) (Some s) =
      Some (Returned (int (length (connection_text addr fd))), Some s') \<and>
    close_all_sockets (sv_sock_mgr s') (sv_env s') = Some (E_SUCCESS, mgr, e) \<and>
    sm_closed e = sm_closed (sv_env s) @ [fd, sv_fd s, fd]"
  using first_client [of s m fd addr rest net events others answers] assms by blast

theorem first_client_ends_server_witness:
  "\<exists>s' mgr e. run_server_loop net_ok (\<lambda>_ s. s) [Poll_events (\<lambda>_. POLLIN)] (Some server1) =
      Some (Returned (int (length (connection_text ''10.0.0.7'' 5))), Some s') \<and>
    close_all_sockets (sv_sock_mgr s') (sv_env s') = Some (E_SUCCESS, mgr, e) \<and> sm_closed e = [5, 3, 5]"
  using first_client_ends_server [of server1 "manager3 (Some 0)" 5 "''10.0.0.7''" "[]" net_ok "\<lambda>_. POLLIN" "\<lambda>_ s. s" "[]"]
    manager3_rep by (simp add: server1_def server0_def sm_can_grow_def manager3_def net_ok_def set_fd_non_blocking_def)

text \<open>
  A server that has its pool returns from \<open>start_tcp_server\<close> only after the shutdown flag was
  raised, whatever the operating system answers and whatever the other threads do; without the flag
  even its error paths wait for the workers for ever.
\<close>

lemma server_returns_only_after_shutdown:
  assumes "pool_boot (sv_pool s)" and "validate_config (Some c) = E_SUCCESS" and "\<forall>t. create_ok t"
    and "\<forall>n s. preach (sv_pool s) (sv_pool (others n s))"
  shows "\<nexists>code s'. start_tcp_server net True create_ok others answers (Some c) s = Some (Returned code, s') \<and>
    \<not> p_shutdown (sv_pool s') \<and> Suc (length (p_added (sv_pool s'))) < 2 ^ 32"
  using start_tcp_server_stuck [of s c create_ok others net answers] assms by blast

text \<open>
  When the pool cannot be allocated, \<open>start_tcp_server\<close> returns E_SUCCESS and has done nothing:
  the exit code is still that of the validation.
\<close>

lemma server_without_pool_succeeds:
  assumes "validate_config (Some c) = E_SUCCESS" and "alloc_fails (p_plan (sv_pool s))"
  shows "\<exists>s'. start_tcp_server net sync_ok create_ok others answers (Some c) s = Some (Returned E_SUCCESS, s') \<and>
    sv_sock_mgr s' = None \<and> p_pool (sv_pool s') = None \<and> sv_env s' = sv_env s"
  by (rule start_no_pool [OF assms])

section \<open>The command line\<close>

text \<open>
  C22.  A command line without \<open>-h\<close> is accepted exactly when every argument of \<open>-n\<close> denotes at
  least 2, every argument of \<open>-p\<close> a port from 1025 to 65535, no option is repeated, unknown or
  without its argument, and no other argument is left.
\<close>

theorem options_accepted_iff:
  assumes "getopt_all (tl args) = (es, extra)" and "Opt_h \<notin> set es" and "args \<noteq> []"
  shows "fst (process_options (Some args) (Some opt)) = E_SUCCESS \<longleftrightarrow>
    (\<forall>e \<in> set es. good_event e) \<and> once (n_flag opt) is_n es \<and> once (p_flag opt) is_p es \<and> extra = []"
  by (rule process_options_accepts [OF assms])

theorem options_accepted_iff_witness:
  "fst (process_options (Some [''server'', ''-p'', ''8080'', ''-n8'']) (Some default_options)) = E_SUCCESS"
proof -
  have es: "getopt_all (tl [''server'', ''-p'', ''8080'', ''-n8'']) = ([Opt_p ''8080'', Opt_n ''8''], [])"
    by (simp add: takes_argument_def opt_with_def)
  have "denotes ''8080'' False 8080" "denotes ''8'' False 8" by (simp_all add: scan_denotes numeral_scan)
  then have "port_of ''8080'' = Some 8080" "thread_count_of ''8'' = Some 8"
    using port_of_denotes [of "''8080''" 8080] thread_count_of_denotes [of "''8''" 8] by (simp_all add: limits)
  then show ?thesis using options_accepted_iff [OF es, of default_options] by (simp add: once_def default_options_def)
qed

text \<open>
  C23.  Whatever the command line, the options that \<open>process_options\<close> leaves are well typed (at least 2
  threads, a port string that denotes a port from 1025 to 65535), the result is E_SUCCESS or E_FAILURE,
  the help is printed exactly on failure, and the configuration \<open>main\<close> makes of them passes
  \<open>validate_config\<close> once it has a request function and at most 24 threads.
\<close>

theorem options_well_typed:
  assumes "process_options argv (Some default_options) = (c, opt', out, err)"
  shows "\<exists>opt. opt' = Some opt \<and> options_ok opt \<and> (c = E_SUCCESS \<or> c = E_FAILURE) \<and>
    out = (if c = E_FAILURE then print_help_menu else []) \<and>
    (\<forall>f. f \<noteq> NULL \<and> n_value opt \<le> 24 \<longrightarrow>
      validate_config (Some ((config_of opt)\<lparr>cf_client_request := f\<rparr>)) = E_SUCCESS)"
  using process_options_ok [OF default_options_ok assms] options_configure by blast

theorem options_well_typed_witness:
  "\<exists>opt. Some default_options = Some opt \<and> options_ok opt \<and> (E_FAILURE = E_SUCCESS \<or> E_FAILURE = E_FAILURE) \<and>
    print_help_menu = (if E_FAILURE = E_FAILURE then print_help_menu else []) \<and>
    (\<forall>f. f \<noteq> NULL \<and> n_value opt \<le> 24 \<longrightarrow>
      validate_config (Some ((config_of opt)\<lparr>cf_client_request := f\<rparr>)) = E_SUCCESS)"
  by (rule options_well_typed [OF help_alone])

text \<open>
  C24.  As it stands the program never runs a server: whatever its arguments and whatever the operating
  system answers, \<open>main\<close> returns, and returns an error, since the configuration it builds has no
  request function.
\<close>

theorem main_never_succeeds:
  "\<exists>c. main sigaction_result net sync_ok create_ok others answers argv sig s = Some (Returned c) \<and> c \<noteq> E_SUCCESS"
  by (rule main_fails)

section \<open>Cryptography\<close>

text \<open>
  C25.  The stream cipher of tweetnacl.c, an optimised loop over 16-word blocks with a byte-wise
  counter, is XSalsa20: \<open>crypto_stream_xor\<close> combines every byte of the message with the byte of the
  key stream that the specification gives for its position, for messages of any length.
\<close>

theorem stream_is_xsalsa20:
  assumes "unat d \<le> length c" "unat d \<le> length m" "24 \<le> length n" "32 \<le> length k"
  shows "crypto_stream_xor c m d n k =
    Some (0, map (\<lambda>i. m ! i XOR xsalsa20 n k i) [0..<unat d] @ drop (unat d) c)"
  by (rule crypto_stream_xor_keystream [OF assms])

theorem stream_is_xsalsa20_witness:
  "crypto_stream_xor [0, 0, 0] [1, 2, 3] 2 (replicate 24 5) (replicate 32 7) =
    Some (0, [1 XOR xsalsa20 (replicate 24 5) (replicate 32 7) 0, 2 XOR xsalsa20 (replicate 24 5) (replicate 32 7) 1, 0])"
  using stream_is_xsalsa20 [of 2 "[0, 0, 0]" "[1, 2, 3]" "replicate 24 5" "replicate 32 7"] by (simp add: upt_rec)

text \<open>
  C26.  The authenticator, which works on 17 limbs of 8 bits with delayed carries, is Poly1305: the
  polynomial of the message blocks in the clamped key modulo \<open>2 ^ 130 - 5\<close>, plus the pad, modulo
  \<open>2 ^ 128\<close>.  No limb overflows its 64-bit word on the way.
\<close>

theorem onetimeauth_is_poly1305:
  assumes "unat n \<le> length m" "32 \<le> length k"
  shows "crypto_onetimeauth m n k = Some (poly1305 (take (unat n) m) k)"
  by (rule crypto_onetimeauth_poly1305 [OF assms])

theorem onetimeauth_is_poly1305_witness:
  "crypto_onetimeauth [1, 2, 3] 2 (replicate 32 7) = Some (poly1305 [1, 2] (replicate 32 7))"
  using onetimeauth_is_poly1305 [of 2 "[1, 2, 3]" "replicate 32 7"] by simp

text \<open>
  C27.  \<open>crypto_hash\<close>, which keeps a rolling window of 16 message words and pads the last block in
  place, is SHA-512 with the full message schedule and the padding of the standard, for every message.
\<close>

theorem hash_is_sha512:
  assumes "unat n \<le> length m"
  shows "crypto_hash m n = Some (SHA512 (take (unat n) m))"
  by (rule crypto_hash_SHA512 [OF assms])

theorem hash_is_sha512_witness: "crypto_hash [97, 98, 99, 0] 3 = Some (SHA512 [97, 98, 99])"
  using hash_is_sha512 [of 3 "[97, 98, 99, 0]"] by simp

text \<open>
  C28.  \<open>crypto_scalarmult\<close> is X25519 (the Montgomery ladder of RFC 7748 on integers modulo
  \<open>2 ^ 255 - 19\<close>): none of the additions, multiplications and carries on 16 signed limbs leaves the
  range of \<open>int64_t\<close>, the conditional swaps without branches are swaps, the exponentiation inverts, and
  the packed result is the canonical one.
\<close>

theorem scalarmult_is_x25519:
  assumes "32 \<le> length n" "length p = 32"
  shows "crypto_scalarmult n p = Some (X25519 n p)"
  by (rule crypto_scalarmult_X25519 [OF assms])

theorem scalarmult_is_x25519_witness:
  "crypto_scalarmult (replicate 32 3) base_point = Some (X25519 (replicate 32 3) base_point)"
  using scalarmult_is_x25519 [of "replicate 32 3" base_point] by (simp add: base_point_def)

text \<open>
  C29.  A box is accepted only as sealed: opening succeeds with the message \<open>msg\<close> exactly when tag and
  ciphertext are those that sealing \<open>msg\<close> under the same nonce and key gives; in every other case the
  result is \<open>-1\<close> and the output buffer is not written.
\<close>

theorem secretbox_opens_only_sealed:
  assumes "length p = unat d" "length c = unat d" "32 \<le> length c" "24 \<le> length n" "32 \<le> length k"
  shows "(crypto_secretbox_open p c d n k = Some (0, replicate 32 0 @ msg) \<longleftrightarrow>
      drop 16 c = drop 16 (sealed n k msg)) \<and>
    ((\<forall>m. drop 16 c \<noteq> drop 16 (sealed n k m)) \<longrightarrow> crypto_secretbox_open p c d n k = Some (- 1, p))"
  using crypto_secretbox_open_iff [OF assms] sealed_iff [OF assms(3)] by auto

theorem secretbox_opens_only_sealed_witness:
  "crypto_secretbox_open (replicate 33 0) (sealed (replicate 24 1) (replicate 32 2) [5]) 33 (replicate 24 1) (replicate 32 2) =
    Some (0, replicate 32 0 @ [5])"
  using secretbox_opens_only_sealed [of "replicate 33 0" 33 "sealed (replicate 24 1) (replicate 32 2) [5]"
      "replicate 24 1" "replicate 32 2" "[5]"] by simp

text \<open>
  C30.  \<open>encryption_encrypt_chunk\<close> succeeds on every chunk of at least 32 bytes, and
  \<open>encryption_decrypt_chunk\<close> gives the chunk back if and only if its first 32 bytes are zero: a caller
  that passes its data without the padding of tweetnacl.c never gets it back.
\<close>

theorem chunk_decrypts_iff_padded:
  assumes "length m = unat len" "length c = unat len" "length p = unat len" "32 \<le> length m"
    and "24 \<le> length n" "32 \<le> length k"
  shows "\<exists>ct. encryption_encrypt_chunk (Some m) len (Some n) (Some k) (Some c) = Some (E_SUCCESS, Some ct) \<and>
    length ct = length m \<and>
    (encryption_decrypt_chunk (Some ct) len (Some n) (Some k) (Some p) = Some (E_SUCCESS, Some m) \<longleftrightarrow>
     take 32 m = replicate 32 0)"
  by (rule chunk_roundtrip [OF assms])

theorem chunk_decrypts_iff_padded_witness:
  "\<exists>ct. encryption_encrypt_chunk (Some (replicate 32 0 @ [5])) 33 (Some (replicate 24 1)) (Some (replicate 32 2)) (Some (replicate 33 0)) =
      Some (E_SUCCESS, Some ct) \<and>
    encryption_decrypt_chunk (Some ct) 33 (Some (replicate 24 1)) (Some (replicate 32 2)) (Some (replicate 33 0)) =
      Some (E_SUCCESS, Some (replicate 32 0 @ [5]))"
  using chunk_decrypts_iff_padded [of "replicate 32 0 @ [5]" 33 "replicate 33 0" "replicate 33 0" "replicate 24 1" "replicate 32 2"]
  by auto

text \<open>
  C31.  \<open>encryption_derive_session_key\<close> stores the SHA-512 hash of the shared secret, 64 bytes, in a
  buffer that encryption.h declares with \<open>SESSION_KEY_SIZE\<close>, 32 bytes: with keys and buffer of the
  declared sizes it writes past the end; only a buffer of 64 bytes makes it defined.
\<close>

theorem session_key_overflows:
  assumes "length y = PUBLIC_KEY_SIZE" "length x = SECRET_KEY_SIZE"
  shows "(length k = SESSION_KEY_SIZE \<longrightarrow> encryption_derive_session_key (Some y) (Some x) (Some k) = None) \<and>
    (length k = crypto_hash_BYTES \<longrightarrow> encryption_derive_session_key (Some y) (Some x) (Some k) =
      Some (E_SUCCESS, Some (SHA512 (HSalsa20 (replicate 16 0) (X25519 x y) sigma))))"
  using derive_session_key_result [of y x k] assms by (simp add: crypto_sizes)

theorem session_key_overflows_witness:
  "encryption_derive_session_key (Some (replicate 32 9)) (Some (replicate 32 1)) (Some (replicate 32 0)) = None"
  using session_key_overflows [of "replicate 32 9" "replicate 32 1" "replicate 32 0"] by (simp add: crypto_sizes)

section \<open>Signatures\<close>

text \<open>
  C32.  \<open>modL\<close> reduces a number given by 64 limbs between - 2 ^ 21 and 2 ^ 21 modulo the group
  order: no operation of the reduction overflows, although the products with the table
  \<open>L\<close> are computed in \<open>u64\<close>, and the bytes written are the canonical remainder.
\<close>

theorem modL_reduces:
  assumes "length x = 64" "\<And>k. k < 64 \<Longrightarrow> \<bar>x ! k\<bar> \<le> 2 ^ 21"
  shows "modL x = Some (le_bytes 32 (nat (bval x mod group_order)))"
  by (rule modL_result [OF assms])

theorem modL_reduces_witness:
  "modL (replicate 63 (- 5) @ [255]) = Some (le_bytes 32 (nat (bval (replicate 63 (- 5) @ [255]) mod group_order)))"
  by (rule modL_reduces) (simp_all add: nth_append)



text \<open>
  C34.  \<open>crypto_sign\<close> is Ed25519 of RFC 8032: with the key \<open>seed @ pk\<close> it writes the signature, which
  is the encoding of \<open>r B\<close> and \<open>r + k a\<close> modulo the order, and the message behind it; what lies further
  behind in the buffer stays, and no operation overflows.
\<close>

theorem sign_is_ed25519:
  assumes "unat n + 64 \<le> length sm" "unat n \<le> length m" "length sm < 2 ^ 64" "length seed = 32" "length pk = 32"
  shows "crypto_sign sm m n (seed @ pk) =
    Some (0, ed_sign seed pk (take (unat n) m) @ take (unat n) m @ drop (64 + unat n) sm, n + 64)"
  by (rule crypto_sign_result [OF assms])

theorem sign_is_ed25519_witness:
  "crypto_sign (replicate 68 0) [104, 105, 33] 3 (replicate 32 7 @ ed_public (replicate 32 7)) =
    Some (0, ed_sign (replicate 32 7) (ed_public (replicate 32 7)) [104, 105, 33] @ [104, 105, 33, 0], 67)"
  using sign_is_ed25519 [of 3 "replicate 68 0" "[104, 105, 33]" "replicate 32 7" "ed_public (replicate 32 7)"]
  by (simp add: length_ed_public)

text \<open>
  C35.  \<open>crypto_sign_open\<close> hands out the message exactly when the signature verifies (the public key
  decodes, and the encoding of \<open>k (- A) + s B\<close> is the first half of the signature); otherwise it returns
  - 1, and the buffer is untouched or its message part is zero.
\<close>

theorem sign_open_iff_verified:
  assumes "64 \<le> unat n" "unat n \<le> length sm" "unat n \<le> length m" "length pk = 32"
  shows "if ed_verify pk (take 64 sm) (take (unat n - 64) (drop 64 sm))
    then \<exists>rest. crypto_sign_open m sm n pk = Some (0, take (unat n - 64) (drop 64 sm) @ rest, n - 64)
    else \<exists>m'. crypto_sign_open m sm n pk = Some (- 1, m', - 1) \<and>
      (m' = m \<or> take (unat n - 64) m' = replicate (unat n - 64) 0)"
  using crypto_sign_open_result [OF assms] by (auto split: if_splits)

theorem sign_open_iff_verified_witness:
  "if ed_verify (replicate 32 3) (replicate 64 1) [2, 2]
   then \<exists>rest. crypto_sign_open (replicate 66 0) (replicate 64 1 @ [2, 2]) 66 (replicate 32 3) = Some (0, [2, 2] @ rest, 2)
   else \<exists>m'. crypto_sign_open (replicate 66 0) (replicate 64 1 @ [2, 2]) 66 (replicate 32 3) = Some (- 1, m', - 1) \<and>
     (m' = replicate 66 0 \<or> take 2 m' = [0, 0])"
proof -
  have "replicate 2 0 = [0, 0 :: u8]" by (simp add: numeral_2_eq_2)
  then show ?thesis
    using sign_open_iff_verified [of 66 "replicate 64 1 @ [2, 2]" "replicate 66 0" "replicate 32 3"] by (simp cong: if_cong)
qed

section \<open>Logging and system information\<close>

text \<open>
  C36.  Calls of \<open>message_log\<close> without a time stamp, when the file operations succeed, all report
  E_SUCCESS and add one line each to the destinations they name, in the order of the calls; a message
  longer than 499 characters is cut.  The mutex is free again and no stream is left open.
\<close>

theorem log_lines_in_order:
  assumes "\<not> stdout_locked s" "\<And>c. c \<in> set cs \<Longrightarrow> call_works c"
  shows "log_calls cs s =
    (Returned (map (\<lambda>c. E_SUCCESS) cs),
     s\<lparr>stdout_text := stdout_text s @ concat (map (\<lambda>c. color_code (call_fg c) (call_bg c) @ call_entry c @ [ESC] @ ''[0m'' @ [NEWLINE])
         (filter (\<lambda>c. to_console (call_dest c)) cs)),
       log_text := log_text s @ concat (map (\<lambda>c. call_entry c @ [NEWLINE]) (filter (\<lambda>c. to_file (call_dest c)) cs))\<rparr>)"
  by (rule log_calls_in_order [OF assms])

theorem log_lines_in_order_witness:
  "log_text (snd (log_calls [log_sample ''A'' ''one'' LOG_FILE, log_sample ''B'' ''two'' LOG_CONSOLE, log_sample ''C'' ''three'' LOG_BOTH] io_sample)) =
    ''[A]: one'' @ [NEWLINE] @ ''[C]: three'' @ [NEWLINE]"
proof -
  define cs where "cs = [log_sample ''A'' ''one'' LOG_FILE, log_sample ''B'' ''two'' LOG_CONSOLE, log_sample ''C'' ''three'' LOG_BOTH]"
  have "call_works c" if "c \<in> set cs" for c
    using that by (auto simp: cs_def log_sample_def env_sample_def call_works_def)
  moreover have "\<not> stdout_locked io_sample" by (simp add: io_sample_def)
  ultimately have "log_text (snd (log_calls cs io_sample)) =
      log_text io_sample @ concat (map (\<lambda>c. call_entry c @ [NEWLINE]) (filter (\<lambda>c. to_file (call_dest c)) cs))"
    using log_lines_in_order [of io_sample cs] by simp
  then show ?thesis
    unfolding cs_def by (simp add: log_sample_def io_sample_def env_sample_def to_file_def call_entry_def log_entry_def
        del: log_calls.simps)
qed

text \<open>
  C37.  A failed write or close of the log file makes \<open>message_log\<close> return without unlocking
  \<open>stdout_mutex\<close> (a failed write even with E_SUCCESS): every later \<open>message_log\<close> and every
  \<open>ts_printf\<close> of the program waits for ever.
\<close>

theorem log_failure_blocks_output:
  assumes "\<not> stdout_locked s" "message env = Some m" "fopen_ok env" "to_file dest" "\<not> (fprintf_ok env \<and> fclose_ok env)"
    and "message_log env (Some pfx) fg bg dest False True s = (r, s')"
  shows "r = Returned (if fprintf_ok env then E_FAILURE else E_SUCCESS) \<and>
    message_log env' (Some pfx') fg' bg' dest' show_time True s' = (Blocked, s') \<and> ts_printf t s' = (Blocked, s')"
  using message_log_stuck [OF assms] by (simp add: message_log_blocked ts_printf_blocked)

theorem log_failure_blocks_output_witness:
  "\<exists>s'. message_log (env_sample ''one''\<lparr>fprintf_ok := False\<rparr>) (Some ''A'') FG_RED BG_NONE LOG_FILE False True io_sample =
      (Returned E_SUCCESS, s') \<and>
    message_log (env_sample ''two'') (Some ''B'') FG_RED BG_NONE LOG_CONSOLE False True s' = (Blocked, s')"
  using log_failure_blocks_output [of io_sample "env_sample ''one''\<lparr>fprintf_ok := False\<rparr>" "''one''" LOG_FILE "''A''" FG_RED BG_NONE
      "fst (message_log (env_sample ''one''\<lparr>fprintf_ok := False\<rparr>) (Some ''A'') FG_RED BG_NONE LOG_FILE False True io_sample)"
      "snd (message_log (env_sample ''one''\<lparr>fprintf_ok := False\<rparr>) (Some ''A'') FG_RED BG_NONE LOG_FILE False True io_sample)"
      "env_sample ''two''" "''B''" FG_RED BG_NONE LOG_CONSOLE False]
  by (intro exI conjI prod_eqI) (auto simp: env_sample_def io_sample_def to_file_def)

text \<open>
  With a time stamp the test of \<open>get_timestamp\<close> is inverted, since a \<open>bool\<close> is compared with
  E_SUCCESS: when the clock works nothing is logged and the result is 1.
\<close>

lemma timestamped_log_fails:
  assumes "\<not> stdout_locked s" "clock_works env"
  shows "message_log env (Some pfx) fg bg dest True True s = (Returned 1, s)"
  by (rule message_log_time [OF assms])

text \<open>
  C38.  Whenever \<open>log_system_info\<close> returns, it has released every block and stream it took, its result
  says whether the log file could be opened, and then the same box of nine lines of equal width went to
  the log file and to the console.
\<close>

theorem system_info_logged:
  assumes "log_system_info mach ok log_opens s = Some (Returned code, s')"
  shows "blocks s' = blocks s \<and> streams s' = streams s \<and> stdout_locked s' = stdout_locked s \<and>
    code = (if log_opens then E_SUCCESS else E_FAILURE) \<and>
    (\<exists>box rows width. log_text s' = log_text s @ box \<and> stdout_text s' = stdout_text s @ box \<and>
       box = unlines rows \<and> length rows = (if log_opens then 9 else 0) \<and> (\<forall>r \<in> set rows. length r = width))"
  using log_system_info_result [OF assms] print_boxed_info_width by (auto simp: Let_def unlines_def split: if_splits)

theorem system_info_logged_witness:
  "\<exists>s'. log_system_info machine_sample True True io_sample = Some (Returned E_SUCCESS, s') \<and> blocks s' = 0 \<and> streams s' = 0"
proof -
  obtain c s' where r: "log_system_info machine_sample True True io_sample = Some (Returned c, s')"
    using machine_sample_returns by blast
  show ?thesis using system_info_logged [OF r] r by (simp add: io_sample_def)
qed

text \<open>
  C39.  \<open>get_memory_info\<close> passes over the lines of /proc/meminfo that do not start with \<open>MemTotal\<close> and
  returns the amount of the first one that does, divided by 1024, with its unit, in one block.
\<close>

theorem memory_info_in_megabytes:
  assumes "\<And>l. l \<in> set ls \<Longrightarrow> is_line l \<and> take 8 l \<noteq> ''MemTotal''"
    and "is_line (''MemTotal:'' @ ws @ show_nat kb @ unit_text)" "\<forall>c \<in> set ws. c_isspace c"
    and "int kb \<le> LONG_MAX" "unit_text = [] \<or> \<not> c_isdigit (hd unit_text)"
    and "\<not> alloc_fails (allocs s)" "\<not> stdout_locked s"
  shows "get_memory_info (Some (unlines ls @ (''MemTotal:'' @ ws @ show_nat kb @ unit_text) @ CHR 0x0A # rest)) ok s =
    Some (Returned (Some (show_nat (kb div 1024) @ '' MB'')), snd (io_calloc s))"
  by (rule get_memory_info_result [OF assms])

theorem memory_info_in_megabytes_witness:
  "get_memory_info (Some (unlines [''Header''] @ (''MemTotal:'' @ ''   '' @ show_nat 7 @ '' kB'') @ CHR 0x0A # ''rest'')) True io_sample =
    Some (Returned (Some (show_nat 0 @ '' MB'')), snd (io_calloc io_sample))"
proof -
  have "show_nat 7 = ''7''" by code_simp
  then show ?thesis
    using memory_info_in_megabytes [of "[''Header'']" "''   ''" 7 "'' kB''" io_sample "''rest''" True]
    by (simp add: is_line_def SYS_BUFFER_SIZE_def NUL_def io_sample_def c_isspace_def c_isdigit_def LONG_MAX_def)
qed

text \<open>
  C40.  \<open>get_network_interfaces\<close> lists the interfaces of /proc/net/dev completely as long as the list
  has fewer than 1020 characters; with more, \<open>result_ptr\<close> leaves the buffer, which is undefined.
\<close>

theorem network_interfaces_bound:
  assumes "is_line h1" "is_line h2" "\<not> alloc_fails (allocs s)" "\<not> stdout_locked s"
    and "list_all2 (\<lambda>l name. is_line l \<and> strtok (l @ [CHR 0x0A]) = Some name) ls names"
  shows "(length (interfaces_header @ concat (map interface_line names)) < 1020 \<longrightarrow>
      get_network_interfaces (Some (unlines [h1, h2] @ unlines ls)) True s =
        Some (Returned (Some (interfaces_header @ concat (map interface_line names))), snd (io_calloc s))) \<and>
    (1020 < length (interfaces_header @ concat (map interface_line names)) \<longrightarrow>
      get_network_interfaces (Some (unlines [h1, h2] @ unlines ls)) True s = None)"
  using get_network_interfaces_loop [OF assms(1-4), of "unlines ls" True]
    interfaces_loop_fits [OF assms(5), of 20 interfaces_header]
    interfaces_loop_overflows [OF assms(5), of 20 interfaces_header]
  by (simp add: SYS_BUFFER_SIZE_def length_interfaces_header)

theorem network_interfaces_bound_witness:
  "get_network_interfaces (Some (unlines [''a'', ''b''] @ unlines [''  lo: 0'', ''eth0: 1''])) True io_sample =
    Some (Returned (Some (interfaces_header @ interface_line ''lo'' @ interface_line ''eth0'')), snd (io_calloc io_sample))"
  using network_interfaces_bound [of "''a''" "''b''" io_sample "[''  lo: 0'', ''eth0: 1'']" "[''lo'', ''eth0'']"]
  by (simp add: is_line_def SYS_BUFFER_SIZE_def NUL_def io_sample_def strtok_def Let_def
      interface_line_def length_interfaces_header)

end
